(* ===== verification/Prelude.thy ===== *)
theory Prelude
  imports Main "HOL-Library.Multiset" "HOL-Library.Word" "HOL-Library.While_Combinator"
begin

text \<open>
  Shared vocabulary of the development: the result type of fallible code, the machine
  integer types of the sources, the collections of rewrite rules the component theories
  fill, and generic facts on lists, maps and loops that several components use.
\<close>

section \<open>Results, machine integers, rule collections\<close>

text \<open>A C++ function that throws is modelled by a sum: \<open>Inl\<close> carries the error.\<close>

type_synonym ('e, 'a) result = "'e + 'a"

text \<open>\<open>size_t\<close> and the other fixed-width types of the sources.\<close>

type_synonym u8 = "8 word"
type_synonym u16 = "16 word"
type_synonym u32 = "32 word"
type_synonym u64 = "64 word"

definition SIZE_MAX :: nat where
  "SIZE_MAX = 2 ^ 64 - 1"

text \<open>\<open>--x\<close> on a \<open>size_t\<close> held as a natural number: zero wraps around.\<close>

definition dec_size :: "nat \<Rightarrow> nat" where
  "dec_size x = (if x = 0 then SIZE_MAX else x - 1)"

text \<open>Addition, subtraction and multiplication of \<open>size_t\<close> values held as natural numbers.\<close>

definition size_add :: "nat \<Rightarrow> nat \<Rightarrow> nat" where
  "size_add a b = (a + b) mod 2 ^ 64"

definition size_sub :: "nat \<Rightarrow> nat \<Rightarrow> nat" where
  "size_sub a b = (a + (2 ^ 64 - b mod 2 ^ 64)) mod 2 ^ 64"

definition size_mul :: "nat \<Rightarrow> nat \<Rightarrow> nat" where
  "size_mul a b = (a * b) mod 2 ^ 64"

named_theorems size_arith \<open>size_t arithmetic in ranges where it does not wrap around\<close>
named_theorems op_simps \<open>unfolding rules of straight-line operations\<close>

lemma dec_size_pos [simp]: "0 < x \<Longrightarrow> dec_size x = x - 1"
  by (simp add: dec_size_def)

lemma size_add_exact [size_arith]: "a + b < 2 ^ 64 \<Longrightarrow> size_add a b = a + b"
  by (simp add: size_add_def)

lemma size_sub_exact [size_arith]:
  assumes "b \<le> a" "a < 2 ^ 64"
  shows "size_sub a b = a - b"
proof -
  have "a + (2 ^ 64 - b) = (a - b) + 2 ^ 64" using assms by simp
  moreover have "b mod 2 ^ 64 = b" using assms by simp
  ultimately have "size_sub a b = ((a - b) + 2 ^ 64) mod 2 ^ 64" unfolding size_sub_def by argo
  also have "\<dots> = (a - b) mod 2 ^ 64" by (rule mod_add_self2)
  also have "\<dots> = a - b" using assms by simp
  finally show ?thesis .
qed

lemma size_mul_exact [size_arith]: "a * b < 2 ^ 64 \<Longrightarrow> size_mul a b = a * b"
  by (simp add: size_mul_def)

section \<open>Lists\<close>

lemma in_set_tl: "x \<in> set (tl xs) \<Longrightarrow> x \<in> set xs"
  by (cases xs) auto

lemma nth_list_update_append:
  assumes "i < length xss"
  shows "(xss[i := xss ! i @ ys]) ! j = (if j = i then xss ! i @ ys else xss ! j)"
  using assms by (cases "j = i") simp_all

lemma count_list_filter_pos: "0 < count_list xs x \<longleftrightarrow> x \<in> set xs"
  by (metis count_list_0_iff gr0I less_numeral_extra(3))

lemma distinct_length_eq_set_upt:
  assumes "distinct xs" "set xs \<subseteq> {..<n}" "length xs = n"
  shows "set xs = {..<n}"
proof -
  have "card (set xs) = n" using assms by (simp add: distinct_card)
  then show ?thesis using assms(2) by (simp add: card_subset_eq)
qed

lemma distinct_subset_length_le:
  assumes "distinct xs" "set xs \<subseteq> {..<n}"
  shows "length xs \<le> n"
  using assms by (metis card_lessThan card_mono distinct_card finite_lessThan)

lemma in_set_take_conv: "x \<in> set (take i xs) \<longleftrightarrow> (\<exists>j<i. j < length xs \<and> xs ! j = x)"
  by (force simp: set_conv_nth)

lemma length_filter_remove1_set:
  assumes "x \<notin> A"
  shows "length (filter (\<lambda>y. y \<notin> insert x A) ys) + count_list ys x
    = length (filter (\<lambda>y. y \<notin> A) ys)"
  using assms by (induction ys) auto

lemma sum_list_map_filter_split:
  "sum_list (map f xs) = sum_list (map f (filter P xs)) + sum_list (map f (filter (Not \<circ> P) xs))"
  for f :: "'a \<Rightarrow> nat"
  by (induction xs) auto

lemma remove1_filter: "distinct xs \<Longrightarrow> remove1 c xs = filter (\<lambda>d. d \<noteq> c) xs"
proof (induction xs)
  case (Cons x xs)
  then have "x = c \<Longrightarrow> filter (\<lambda>d. d \<noteq> c) xs = xs" by (auto simp: filter_id_conv)
  with Cons show ?case by simp
qed simp

end
