(* ===== verification/Graph_Builder.thy ===== *)
theory Graph_Builder
  imports Prelude
begin

text \<open>
  The graph data model and its builder: \<open>graph_types.h\<close>, \<open>dependency_graph.h\<close>,
  \<open>graph_builder.h\<close> and \<open>graph_builder.cpp\<close>. \<open>build\<close> is the whole function: the edge
  validation loop, the in-degree initialisation, Kahn's loop and the assembly of the
  immutable graph. The lemmas show that it always returns, when it reports which status,
  and that the order of a built graph is topological. The contract the executor relies on
  is the locale \<open>dag_provider\<close>, interpreted on the built graphs at the end.
\<close>

section \<open>Data model\<close>

type_synonym node_id = nat

text \<open>A \<open>std::any\<close> is empty or holds a value.\<close>

type_synonym 'v any = "'v option"

datatype exn = Std_exception string | Other_exception

text \<open>A node's work reads the results of its dependencies and returns or throws.\<close>

type_synonym 'v node_work = "'v any list \<Rightarrow> (exn, 'v any) result"

datatype graph_build_status_code = Ok | Cycle_detected | Unknown_node_reference

record graph_status =
  st_code :: graph_build_status_code
  st_message :: string

definition success :: graph_status where
  "success = \<lparr>st_code = Ok, st_message = ''''\<rparr>"

definition failure :: "graph_build_status_code \<Rightarrow> string \<Rightarrow> graph_status" where
  "failure c m = \<lparr>st_code = c, st_message = m\<rparr>"

definition ok :: "graph_status \<Rightarrow> bool" where
  "ok s \<longleftrightarrow> st_code s = Ok"

record 'v node =
  nd_name :: string
  nd_work :: "'v node_work"
  successors :: "node_id list"
  dependencies :: "node_id list"

record 'v dependency_graph =
  nodes :: "'v node list"
  topological_order :: "node_id list"

definition node_count :: "'v dependency_graph \<Rightarrow> nat" where
  "node_count g = length (nodes g)"

definition node_at :: "'v dependency_graph \<Rightarrow> node_id \<Rightarrow> 'v node" where
  "node_at g i = nodes g ! i"

record 'v pending_node =
  pn_name :: string
  pn_work :: "'v node_work"

record pending_edge =
  pe_node :: node_id
  pe_dependency :: node_id

record 'v graph_builder =
  gb_nodes :: "'v pending_node list"
  gb_edges :: "pending_edge list"

definition empty_builder :: "'v graph_builder" where
  "empty_builder = \<lparr>gb_nodes = [], gb_edges = []\<rparr>"

section \<open>Operations\<close>

definition add_node :: "'v graph_builder \<Rightarrow> string \<Rightarrow> 'v node_work \<Rightarrow> node_id \<times> 'v graph_builder" where
  "add_node b name work =
     (length (gb_nodes b), b\<lparr>gb_nodes := gb_nodes b @ [\<lparr>pn_name = name, pn_work = work\<rparr>]\<rparr>)"

definition depends_on :: "'v graph_builder \<Rightarrow> node_id \<Rightarrow> node_id \<Rightarrow> 'v graph_builder" where
  "depends_on b n d = b\<lparr>gb_edges := gb_edges b @ [\<lparr>pe_node = n, pe_dependency = d\<rparr>]\<rparr>"

text \<open>The three arrays the first loop of \<open>build\<close> fills.\<close>

record link_state =
  ls_succs :: "node_id list list"
  ls_deps :: "node_id list list"
  ls_deg :: "nat list"

definition unknown_status :: graph_status where
  "unknown_status = failure Unknown_node_reference
     ''depends_on() referenced a node id outside the graph''"

definition cycle_status :: graph_status where
  "cycle_status = failure Cycle_detected
     ''graph_builder::build(): dependency edges contain a cycle''"

fun link_edges :: "nat \<Rightarrow> pending_edge list \<Rightarrow> link_state \<Rightarrow> (graph_status, link_state) result" where
  "link_edges n [] s = Inr s"
| "link_edges n (e # es) s =
     (if pe_node e \<ge> n \<or> pe_dependency e \<ge> n then Inl unknown_status
      else link_edges n es
        \<lparr>ls_succs = (ls_succs s)[pe_dependency e := ls_succs s ! pe_dependency e @ [pe_node e]],
         ls_deps = (ls_deps s)[pe_node e := ls_deps s ! pe_node e @ [pe_dependency e]],
         ls_deg = (ls_deg s)[pe_node e := ls_deg s ! pe_node e + 1]\<rparr>)"

text \<open>The state of the \<open>while (!ready.empty())\<close> loop.\<close>

record kahn_state =
  in_degree :: "nat list"
  ready :: "node_id list"
  topo :: "node_id list"

fun relax :: "node_id list \<Rightarrow> nat list \<Rightarrow> node_id list \<Rightarrow> nat list \<times> node_id list" where
  "relax [] deg rdy = (deg, rdy)"
| "relax (v # vs) deg rdy =
     (let d = dec_size (deg ! v)
      in relax vs (deg[v := d]) (if d = 0 then rdy @ [v] else rdy))"

definition kahn_step :: "node_id list list \<Rightarrow> kahn_state \<Rightarrow> kahn_state" where
  "kahn_step succs s =
     (let i = hd (ready s);
          (deg, rdy) = relax (succs ! i) (in_degree s) (tl (ready s))
      in \<lparr>in_degree = deg, ready = rdy, topo = topo s @ [i]\<rparr>)"

definition kahn_init :: "nat \<Rightarrow> nat list \<Rightarrow> kahn_state" where
  "kahn_init n deg =
     \<lparr>in_degree = deg, ready = filter (\<lambda>i. deg ! i = 0) [0..<n], topo = []\<rparr>"

definition kahn :: "nat \<Rightarrow> node_id list list \<Rightarrow> nat list \<Rightarrow> kahn_state option" where
  "kahn n succs deg =
     while_option (\<lambda>s. ready s \<noteq> []) (kahn_step succs) (kahn_init n deg)"

definition assemble :: "'v graph_builder \<Rightarrow> link_state \<Rightarrow> node_id list \<Rightarrow> 'v dependency_graph" where
  "assemble b s order =
     \<lparr>nodes = map (\<lambda>i. \<lparr>nd_name = pn_name (gb_nodes b ! i), nd_work = pn_work (gb_nodes b ! i),
                        successors = ls_succs s ! i, dependencies = ls_deps s ! i\<rparr>)
                [0..<length (gb_nodes b)],
      topological_order = order\<rparr>"

text \<open>
  \<open>build\<close> returns the status and the new value of the out-parameter; \<open>None\<close> would mean
  that Kahn's loop does not end.
\<close>

definition build :: "'v graph_builder \<Rightarrow> 'v dependency_graph option
    \<Rightarrow> (graph_status \<times> 'v dependency_graph option) option" where
  "build b out =
     (let n = length (gb_nodes b)
      in case link_edges n (gb_edges b)
             \<lparr>ls_succs = replicate n [], ls_deps = replicate n [],
              ls_deg = replicate n 0\<rparr> of
           Inl st \<Rightarrow> Some (st, out)
         | Inr s \<Rightarrow>
             (case kahn n (ls_succs s) (ls_deg s) of
                None \<Rightarrow> None
              | Some k \<Rightarrow>
                  if length (topo k) \<noteq> n then Some (cycle_status, out)
                  else Some (success, Some (assemble b s (topo k)))))"

section \<open>The edge loop\<close>

definition deps_of :: "pending_edge list \<Rightarrow> node_id \<Rightarrow> node_id list" where
  "deps_of es v = map pe_dependency (filter (\<lambda>e. pe_node e = v) es)"

definition succs_of :: "pending_edge list \<Rightarrow> node_id \<Rightarrow> node_id list" where
  "succs_of es d = map pe_node (filter (\<lambda>e. pe_dependency e = d) es)"

definition edges_in_range :: "nat \<Rightarrow> pending_edge list \<Rightarrow> bool" where
  "edges_in_range n es \<longleftrightarrow> (\<forall>e\<in>set es. pe_node e < n \<and> pe_dependency e < n)"

definition edge_rel :: "pending_edge list \<Rightarrow> (node_id \<times> node_id) set" where
  "edge_rel es = (\<lambda>e. (pe_dependency e, pe_node e)) ` set es"

lemma in_edge_rel_iff: "(d, v) \<in> edge_rel es \<longleftrightarrow> d \<in> set (deps_of es v)"
  by (auto simp: edge_rel_def deps_of_def)

lemma count_succs_of: "count_list (succs_of es d) v = count_list (deps_of es v) d"
  by (induction es) (auto simp: succs_of_def deps_of_def)

lemma set_succs_of_in_range: "edges_in_range n es \<Longrightarrow> set (succs_of es d) \<subseteq> {..<n}"
  by (auto simp: edges_in_range_def succs_of_def)

lemma set_deps_of_in_range: "edges_in_range n es \<Longrightarrow> set (deps_of es d) \<subseteq> {..<n}"
  by (auto simp: edges_in_range_def deps_of_def)

lemma link_edges_Inl_iff: "(\<exists>st. link_edges n es s = Inl st) \<longleftrightarrow> \<not> edges_in_range n es"
  by (induction n es s rule: link_edges.induct) (auto simp: edges_in_range_def)

lemma link_edges_Inl: "link_edges n es s = Inl st \<Longrightarrow> st = unknown_status"
  by (induction n es s rule: link_edges.induct) (auto split: if_splits)

definition linked :: "nat \<Rightarrow> pending_edge list \<Rightarrow> link_state \<Rightarrow> bool" where
  "linked n es s \<longleftrightarrow>
     length (ls_succs s) = n \<and> length (ls_deps s) = n \<and> length (ls_deg s) = n \<and>
     (\<forall>v<n. ls_succs s ! v = succs_of es v \<and> ls_deps s ! v = deps_of es v \<and>
            ls_deg s ! v = length (deps_of es v))"

lemma linked_snoc:
  assumes "linked n es s" "pe_node e < n" "pe_dependency e < n"
  shows "linked n (es @ [e])
    \<lparr>ls_succs = (ls_succs s)[pe_dependency e := ls_succs s ! pe_dependency e @ [pe_node e]],
     ls_deps = (ls_deps s)[pe_node e := ls_deps s ! pe_node e @ [pe_dependency e]],
     ls_deg = (ls_deg s)[pe_node e := ls_deg s ! pe_node e + 1]\<rparr>"
  using assms by (auto simp: linked_def succs_of_def deps_of_def nth_list_update)

lemma link_edges_linked:
  "linked n es0 s \<Longrightarrow> link_edges n es s = Inr s' \<Longrightarrow> linked n (es0 @ es) s'"
proof (induction n es s arbitrary: es0 rule: link_edges.induct)
  case (1 n s)
  then show ?case by simp
next
  case (2 n e es s)
  then have r: "pe_node e < n" "pe_dependency e < n" by (auto split: if_splits)
  have "linked n ((es0 @ [e]) @ es) s'"
    using "2.prems" r linked_snoc [OF "2.prems"(1) r] by (intro "2.IH") auto
  then show ?case by simp
qed

lemma linked_init: "linked n [] \<lparr>ls_succs = replicate n [], ls_deps = replicate n [],
    ls_deg = replicate n 0\<rparr>"
  by (simp add: linked_def succs_of_def deps_of_def)

lemma link_edges_result:
  assumes "edges_in_range n es"
  obtains s where "link_edges n es \<lparr>ls_succs = replicate n [], ls_deps = replicate n [],
      ls_deg = replicate n 0\<rparr> = Inr s" "linked n es s"
proof -
  obtain s where s: "link_edges n es \<lparr>ls_succs = replicate n [], ls_deps = replicate n [],
      ls_deg = replicate n 0\<rparr> = Inr s"
    using assms link_edges_Inl_iff by (metis sum.exhaust)
  with link_edges_linked [OF linked_init s] that show thesis by simp
qed

section \<open>Kahn's loop\<close>

lemma relax_length [simp]: "length (fst (relax vs deg rdy)) = length deg"
  by (induction vs deg rdy rule: relax.induct) (auto simp: Let_def)

text \<open>
  When no counter is decremented below zero, \<open>relax\<close> subtracts the multiplicity of every
  listed node and appends, once each, the nodes whose counter it brings to zero.
\<close>

lemma relax_deg:
  assumes "set vs \<subseteq> {..<length deg}" "\<And>v. v < length deg \<Longrightarrow> count_list vs v \<le> deg ! v"
    "v < length deg"
  shows "fst (relax vs deg rdy) ! v = deg ! v - count_list vs v"
  using assms
proof (induction vs deg rdy rule: relax.induct)
  case (1 deg rdy)
  then show ?case by simp
next
  case (2 w vs deg rdy)
  have w: "w < length deg" "0 < deg ! w"
    using "2.prems"(1) "2.prems"(2) [of w] by auto
  have c: "count_list vs u \<le> (deg[w := deg ! w - 1]) ! u" if "u < length deg" for u
    using "2.prems"(2) [of u] that w by (cases "u = w") auto
  show ?case
    using "2.IH" [OF refl] "2.prems"(1,3) c w by (auto simp: Let_def nth_list_update)
qed

lemma relax_ready:
  assumes "set vs \<subseteq> {..<length deg}" "\<And>v. v < length deg \<Longrightarrow> count_list vs v \<le> deg ! v"
  shows "\<exists>new. snd (relax vs deg rdy) = rdy @ new \<and> distinct new \<and>
    set new = {v. v \<in> set vs \<and> deg ! v = count_list vs v}"
  using assms
proof (induction vs deg rdy rule: relax.induct)
  case (1 deg rdy)
  then show ?case by simp
next
  case (2 w vs deg rdy)
  let ?deg = "deg[w := deg ! w - 1]"
  let ?rdy = "if deg ! w - 1 = 0 then rdy @ [w] else rdy"
  have w: "w < length deg" "0 < deg ! w"
    using "2.prems"(1) "2.prems"(2) [of w] by auto
  have c: "count_list vs u \<le> ?deg ! u" if "u < length deg" for u
    using "2.prems"(2) [of u] that w by (cases "u = w") auto
  obtain new where new: "snd (relax vs ?deg ?rdy) = ?rdy @ new" "distinct new"
      "set new = {v. v \<in> set vs \<and> ?deg ! v = count_list vs v}"
    using "2.IH" [OF refl] "2.prems"(1) c w by auto
  show ?case
  proof (cases "deg ! w = 1")
    case True
    then have z: "count_list vs w = 0" using "2.prems"(2) [of w] w by simp
    then have "w \<notin> set vs" by (simp add: count_list_0_iff)
    have "v \<in> set (w # new) \<longleftrightarrow> v \<in> set (w # vs) \<and> deg ! v = count_list (w # vs) v" for v
    proof (cases "v = w")
      case True
      then show ?thesis using \<open>deg ! w = 1\<close> z by simp
    next
      case False
      then show ?thesis using new(3) by simp
    qed
    then have "set (w # new) = {v. v \<in> set (w # vs) \<and> deg ! v = count_list (w # vs) v}" by blast
    moreover have "distinct (w # new)" using \<open>w \<notin> set vs\<close> new(2,3) by auto
    moreover have "snd (relax (w # vs) deg rdy) = rdy @ (w # new)"
      using new(1) True w by (simp add: Let_def)
    ultimately show ?thesis by blast
  next
    case False
    have "v \<in> set new \<longleftrightarrow> v \<in> set (w # vs) \<and> deg ! v = count_list (w # vs) v" for v
    proof (cases "v = w")
      case True
      have "deg ! w - 1 = count_list vs w \<longleftrightarrow> deg ! w = Suc (count_list vs w)" using w by arith
      then have "w \<in> set new \<longleftrightarrow> w \<in> set vs \<and> deg ! w = Suc (count_list vs w)" using new(3) w by simp
      moreover have "w \<in> set vs" if "deg ! w = Suc (count_list vs w)"
        using that \<open>deg ! w \<noteq> 1\<close> count_list_0_iff [of vs w] by auto
      ultimately show ?thesis using True by auto
    next
      case False
      then show ?thesis using new(3) by simp
    qed
    then have "set new = {v. v \<in> set (w # vs) \<and> deg ! v = count_list (w # vs) v}" by blast
    moreover have "snd (relax (w # vs) deg rdy) = rdy @ new"
      using new(1) False w by (simp add: Let_def)
    ultimately show ?thesis using new(2) by blast
  qed
qed

text \<open>The loop invariant: what the counters, the queue and the order say of each other.\<close>

definition pending :: "pending_edge list \<Rightarrow> node_id list \<Rightarrow> node_id \<Rightarrow> nat" where
  "pending es done v = length (filter (\<lambda>d. d \<notin> set done) (deps_of es v))"

definition topo_sorted :: "(node_id \<Rightarrow> node_id list) \<Rightarrow> node_id list \<Rightarrow> bool" where
  "topo_sorted deps xs \<longleftrightarrow> (\<forall>i<length xs. set (deps (xs ! i)) \<subseteq> set (take i xs))"

definition kahn_inv :: "nat \<Rightarrow> pending_edge list \<Rightarrow> kahn_state \<Rightarrow> bool" where
  "kahn_inv n es s \<longleftrightarrow>
     length (in_degree s) = n \<and> distinct (topo s @ ready s) \<and>
     (\<forall>v<n. in_degree s ! v = pending es (topo s) v) \<and>
     set (topo s @ ready s) = {v. v < n \<and> in_degree s ! v = 0} \<and>
     topo_sorted (deps_of es) (topo s)"

lemma topo_sorted_snoc:
  "topo_sorted deps (xs @ [x]) \<longleftrightarrow> topo_sorted deps xs \<and> set (deps x) \<subseteq> set xs"
proof -
  have "(\<forall>i<Suc (length xs). set (deps ((xs @ [x]) ! i)) \<subseteq> set (take i (xs @ [x]))) \<longleftrightarrow>
    (\<forall>i<length xs. set (deps (xs ! i)) \<subseteq> set (take i xs)) \<and> set (deps x) \<subseteq> set xs"
    by (auto simp: All_less_Suc nth_append)
  then show ?thesis by (simp add: topo_sorted_def)
qed

lemma pending_snoc:
  assumes "i \<notin> set done"
  shows "pending es (done @ [i]) v + count_list (deps_of es v) i = pending es done v"
  using length_filter_remove1_set [OF assms] by (simp add: pending_def)

lemma pending_0: "pending es done v = 0 \<longleftrightarrow> set (deps_of es v) \<subseteq> set done"
  by (auto simp: pending_def filter_empty_conv)

lemma kahn_inv_init:
  assumes "linked n es s"
  shows "kahn_inv n es (kahn_init n (ls_deg s))"
  using assms by (auto simp: kahn_inv_def kahn_init_def linked_def pending_def topo_sorted_def)

text \<open>One step's effect on the counters and on the queue, for the node taken from the queue.\<close>

lemma kahn_relax:
  fixes rest :: "node_id list"
  assumes inv: "kahn_inv n es s" and i: "i \<notin> set (topo s)" and rng: "edges_in_range n es"
  defines "r \<equiv> relax (succs_of es i) (in_degree s) rest"
  shows "\<And>v. v < n \<Longrightarrow> fst r ! v = pending es (topo s @ [i]) v"
    and "\<exists>new. snd r = rest @ new \<and> distinct new \<and>
      set new = {v. v < n \<and> 0 < in_degree s ! v \<and> pending es (topo s @ [i]) v = 0}"
proof -
  have len: "length (in_degree s) = n" using inv by (simp add: kahn_inv_def)
  have p: "in_degree s ! v = pending es (topo s @ [i]) v + count_list (succs_of es i) v" if "v < n" for v
    using inv that pending_snoc [OF i, of es v] by (simp add: kahn_inv_def count_succs_of)
  have sub: "set (succs_of es i) \<subseteq> {..<length (in_degree s)}"
    using set_succs_of_in_range [OF rng] len by simp
  have cle: "count_list (succs_of es i) v \<le> in_degree s ! v" if "v < length (in_degree s)" for v
    using p that len by simp
  show "fst r ! v = pending es (topo s @ [i]) v" if "v < n" for v
    using relax_deg [OF sub cle, of v rest] p that len by (simp add: r_def)
  obtain new where new: "snd r = rest @ new" "distinct new"
      "set new = {v. v \<in> set (succs_of es i) \<and> in_degree s ! v = count_list (succs_of es i) v}"
    using relax_ready [OF sub cle, of rest] by (auto simp: r_def)
  have "v \<in> set new \<longleftrightarrow> v < n \<and> 0 < in_degree s ! v \<and> pending es (topo s @ [i]) v = 0" for v
    using new(3) p [of v] count_list_filter_pos [of "succs_of es i" v] sub len by fastforce
  then have "set new = {v. v < n \<and> 0 < in_degree s ! v \<and> pending es (topo s @ [i]) v = 0}"
    by blast
  with new(1,2) show "\<exists>new. snd r = rest @ new \<and> distinct new \<and>
      set new = {v. v < n \<and> 0 < in_degree s ! v \<and> pending es (topo s @ [i]) v = 0}" by blast
qed

lemma kahn_step_inv:
  assumes inv: "kahn_inv n es s" and ne: "ready s \<noteq> []"
    and rng: "edges_in_range n es" and sc: "\<And>v. v < n \<Longrightarrow> succs ! v = succs_of es v"
  shows "kahn_inv n es (kahn_step succs s)"
    and "length (topo (kahn_step succs s)) = Suc (length (topo s))"
proof -
  obtain i rest where r: "ready s = i # rest" using ne by (cases "ready s") auto
  have D: "distinct (topo s @ i # rest)"
      "set (topo s @ i # rest) = {v. v < n \<and> in_degree s ! v = 0}" "length (in_degree s) = n"
    using inv r by (auto simp: kahn_inv_def)
  then have i: "i < n" "i \<notin> set (topo s)" "in_degree s ! i = 0" by auto
  let ?r = "relax (succs_of es i) (in_degree s) rest" and ?done = "topo s @ [i]"
  have st: "kahn_step succs s = \<lparr>in_degree = fst ?r, ready = snd ?r, topo = ?done\<rparr>"
    using r sc [OF i(1)] by (simp add: kahn_step_def split: prod.split)
  have deg: "fst ?r ! v = pending es ?done v" if "v < n" for v
    using kahn_relax(1) [OF inv i(2) rng] that by blast
  obtain new where new: "snd ?r = rest @ new" "distinct new"
      "set new = {v. v < n \<and> 0 < in_degree s ! v \<and> pending es ?done v = 0}"
    using kahn_relax(2) [OF inv i(2) rng] by blast
  have old: "pending es ?done v = 0" if "v < n" "in_degree s ! v = 0" for v
    using inv that pending_snoc [OF i(2), of es v] by (simp add: kahn_inv_def)
  have "set new \<inter> set (topo s @ i # rest) = {}" unfolding new(3) D(2) by auto
  then have dist: "distinct (?done @ rest @ new)" using D(1) new(2) by auto
  have "set (?done @ rest @ new) = {v. v < n \<and> pending es ?done v = 0}"
  proof -
    have "set (?done @ rest @ new) = set (topo s @ i # rest) \<union> set new" by auto
    also have "\<dots> = {v. v < n \<and> pending es ?done v = 0}" unfolding new(3) D(2) using old by auto
    finally show ?thesis .
  qed
  moreover have "{v. v < n \<and> pending es ?done v = 0} = {v. v < n \<and> fst ?r ! v = 0}"
    using deg by (intro Collect_cong) auto
  moreover have "set (deps_of es i) \<subseteq> set (topo s)" using inv i by (simp add: kahn_inv_def pending_0)
  ultimately show "kahn_inv n es (kahn_step succs s)"
    using inv dist deg new(1) D(3) by (simp add: kahn_inv_def st topo_sorted_snoc)
  show "length (topo (kahn_step succs s)) = Suc (length (topo s))" by (simp add: st)
qed

lemma kahn_returns:
  assumes "edges_in_range n es" "linked n es ls"
  obtains s where "kahn n (ls_succs ls) (ls_deg ls) = Some s" "kahn_inv n es s" "ready s = []"
proof -
  let ?P = "kahn_inv n es" and ?step = "kahn_step (ls_succs ls)" and ?b = "\<lambda>s. ready s \<noteq> []"
  have sc: "ls_succs ls ! v = succs_of es v" if "v < n" for v
    using assms(2) that by (simp add: linked_def)
  have le: "length (topo s) \<le> n" if "?P s" for s
    using that distinct_subset_length_le [of "topo s" n] by (auto simp: kahn_inv_def)
  have step: "?P (?step s) \<and> n - length (topo (?step s)) < n - length (topo s)" if "?P s" "?b s" for s
    using kahn_step_inv [OF that assms(1) sc] le [of "?step s"] by simp
  have init: "?P (kahn_init n (ls_deg ls))" using kahn_inv_init [OF assms(2)] .
  obtain s where s: "kahn n (ls_succs ls) (ls_deg ls) = Some s"
    using measure_while_option_Some [where P = ?P and b = ?b and c = ?step
        and f = "\<lambda>s. n - length (topo s)", OF step init] by (auto simp: kahn_def)
  moreover have "?P s"
    using while_option_rule [where P = ?P, OF _ s [unfolded kahn_def] init] step by blast
  moreover have "ready s = []" using while_option_stop [OF s [unfolded kahn_def]] by simp
  ultimately show thesis using that by blast
qed

lemma topo_sorted_acyclic:
  assumes "topo_sorted (deps_of es) xs" "distinct xs" "edge_rel es \<subseteq> set xs \<times> set xs"
  shows "acyclic (edge_rel es)"
proof -
  define pos where "pos v = (THE i. i < length xs \<and> xs ! i = v)" for v
  have pos: "pos (xs ! i) = i" if "i < length xs" for i
    unfolding pos_def using that assms(2) by (auto simp: nth_eq_iff_index_eq)
  have "(d, v) \<in> measure pos" if "(d, v) \<in> edge_rel es" for d v
  proof -
    have "v \<in> set xs" using that assms(3) by auto
    then obtain i where i: "i < length xs" "xs ! i = v" by (auto simp: in_set_conv_nth)
    have "d \<in> set (take i xs)"
      using assms(1) i that by (auto simp: topo_sorted_def in_edge_rel_iff)
    then obtain j where "j < i" "j < length xs" "xs ! j = d" by (auto simp: in_set_take_conv)
    with i pos show ?thesis by auto
  qed
  then have "edge_rel es \<subseteq> measure pos" by auto
  then show ?thesis using wf_acyclic wf_measure wf_subset by blast
qed

text \<open>A node left out has a dependency left out, so an acyclic relation leaves none out.\<close>

lemma kahn_complete:
  assumes inv: "kahn_inv n es s" and fin: "ready s = []" and rng: "edges_in_range n es"
    and ac: "acyclic (edge_rel es)"
  shows "set (topo s) = {..<n}"
proof -
  have sub: "set (topo s) = {v. v < n \<and> set (deps_of es v) \<subseteq> set (topo s)}"
    using inv fin by (auto simp: kahn_inv_def pending_0)
  have "finite (edge_rel es)" by (simp add: edge_rel_def)
  with ac have wf: "wf (edge_rel es)" by (simp add: finite_acyclic_wf)
  have "v \<in> set (topo s)" if "v < n" for v
    using wf that
  proof (induction v)
    case (less v)
    have "d \<in> set (topo s)" if "d \<in> set (deps_of es v)" for d
      using less that set_deps_of_in_range [OF rng, of v] by (auto simp: in_edge_rel_iff)
    with less.prems show ?case using sub by blast
  qed
  with sub show ?thesis by auto
qed

section \<open>What \<open>build\<close> returns\<close>

definition build_code :: "'v graph_builder \<Rightarrow> graph_build_status_code" where
  "build_code b =
     (if \<not> edges_in_range (length (gb_nodes b)) (gb_edges b) then Unknown_node_reference
      else if \<not> acyclic (edge_rel (gb_edges b)) then Cycle_detected else Ok)"

lemma edge_rel_in_range: "edges_in_range n es \<Longrightarrow> edge_rel es \<subseteq> {..<n} \<times> {..<n}"
  by (auto simp: edge_rel_def edges_in_range_def)

lemma kahn_full_iff_acyclic:
  assumes inv: "kahn_inv n es s" and fin: "ready s = []" and rng: "edges_in_range n es"
  shows "length (topo s) = n \<longleftrightarrow> acyclic (edge_rel es)"
proof
  have d: "distinct (topo s)" "set (topo s) \<subseteq> {..<n}" "topo_sorted (deps_of es) (topo s)"
    using inv by (auto simp: kahn_inv_def)
  show "acyclic (edge_rel es)" if "length (topo s) = n"
    using topo_sorted_acyclic [OF d(3,1)] edge_rel_in_range [OF rng]
      distinct_length_eq_set_upt [OF d(1,2) that] by simp
  show "length (topo s) = n" if "acyclic (edge_rel es)"
    using kahn_complete [OF inv fin rng that] d(1) by (metis card_lessThan distinct_card)
qed

lemma build_unknown:
  assumes "\<not> edges_in_range (length (gb_nodes b)) (gb_edges b)"
  shows "build b out = Some (unknown_status, out)"
proof -
  obtain st where "link_edges (length (gb_nodes b)) (gb_edges b)
      \<lparr>ls_succs = replicate (length (gb_nodes b)) [], ls_deps = replicate (length (gb_nodes b)) [],
       ls_deg = replicate (length (gb_nodes b)) 0\<rparr> = Inl st"
    using assms link_edges_Inl_iff by blast
  then show ?thesis using link_edges_Inl by (simp add: build_def Let_def)
qed

lemma build_in_range:
  assumes rng: "edges_in_range (length (gb_nodes b)) (gb_edges b)"
  obtains ls s where "linked (length (gb_nodes b)) (gb_edges b) ls"
    "kahn_inv (length (gb_nodes b)) (gb_edges b) s" "ready s = []"
    "build b out = Some (if acyclic (edge_rel (gb_edges b))
       then (success, Some (assemble b ls (topo s))) else (cycle_status, out))"
proof -
  let ?n = "length (gb_nodes b)"
  obtain ls where ls: "link_edges ?n (gb_edges b) \<lparr>ls_succs = replicate ?n [],
      ls_deps = replicate ?n [], ls_deg = replicate ?n 0\<rparr> = Inr ls" "linked ?n (gb_edges b) ls"
    using link_edges_result [OF rng] by blast
  obtain s where s: "kahn ?n (ls_succs ls) (ls_deg ls) = Some s"
      "kahn_inv ?n (gb_edges b) s" "ready s = []"
    using kahn_returns [OF rng ls(2)] by blast
  have "build b out = Some (if acyclic (edge_rel (gb_edges b))
       then (success, Some (assemble b ls (topo s))) else (cycle_status, out))"
    using ls(1) s(1) kahn_full_iff_acyclic [OF s(2,3) rng] by (simp add: build_def Let_def)
  with that ls(2) s(2,3) show thesis by blast
qed

lemma status_codes [simp]:
  "st_code success = Ok" "st_code unknown_status = Unknown_node_reference"
  "st_code cycle_status = Cycle_detected"
  by (simp_all add: success_def unknown_status_def cycle_status_def failure_def)

lemma build_cases:
  obtains (unknown) "build_code b = Unknown_node_reference" "build b out = Some (unknown_status, out)"
  | (cycle) "build_code b = Cycle_detected" "build b out = Some (cycle_status, out)"
  | (built) ls s where "build_code b = Ok" "linked (length (gb_nodes b)) (gb_edges b) ls"
      "kahn_inv (length (gb_nodes b)) (gb_edges b) s" "length (topo s) = length (gb_nodes b)"
      "build b out = Some (success, Some (assemble b ls (topo s)))"
proof (cases "edges_in_range (length (gb_nodes b)) (gb_edges b)")
  case False
  then show thesis using build_unknown [OF False] unknown by (simp add: build_code_def)
next
  case True
  obtain ls s where "linked (length (gb_nodes b)) (gb_edges b) ls"
    "kahn_inv (length (gb_nodes b)) (gb_edges b) s" "ready s = []"
    "build b out = Some (if acyclic (edge_rel (gb_edges b))
       then (success, Some (assemble b ls (topo s))) else (cycle_status, out))"
    using build_in_range [OF True] by blast
  with True cycle built kahn_full_iff_acyclic show thesis
    by (cases "acyclic (edge_rel (gb_edges b))") (simp_all add: build_code_def)
qed

section \<open>The contract of a built graph\<close>

definition wf_graph :: "'v dependency_graph \<Rightarrow> bool" where
  "wf_graph g \<longleftrightarrow>
     distinct (topological_order g) \<and> set (topological_order g) = {..<node_count g} \<and>
     topo_sorted (\<lambda>i. dependencies (node_at g i)) (topological_order g) \<and>
     (\<forall>d<node_count g. \<forall>v<node_count g.
        count_list (successors (node_at g d)) v = count_list (dependencies (node_at g v)) d)"

lemma topo_sorted_cong:
  "\<forall>x\<in>set xs. f x = g x \<Longrightarrow> topo_sorted f xs = topo_sorted g xs"
  by (simp add: topo_sorted_def)

lemma node_at_assemble:
  assumes "linked (length (gb_nodes b)) (gb_edges b) ls" "i < length (gb_nodes b)"
  shows "node_at (assemble b ls xs) i =
    \<lparr>nd_name = pn_name (gb_nodes b ! i), nd_work = pn_work (gb_nodes b ! i),
     successors = succs_of (gb_edges b) i, dependencies = deps_of (gb_edges b) i\<rparr>"
  using assms by (simp add: node_at_def assemble_def linked_def)

lemma node_count_assemble [simp]: "node_count (assemble b ls xs) = length (gb_nodes b)"
  by (simp add: node_count_def assemble_def)

lemma wf_graph_assemble:
  assumes ls: "linked (length (gb_nodes b)) (gb_edges b) ls"
    and s: "kahn_inv (length (gb_nodes b)) (gb_edges b) s" "length (topo s) = length (gb_nodes b)"
  shows "wf_graph (assemble b ls (topo s))"
proof -
  let ?n = "length (gb_nodes b)" and ?g = "assemble b ls (topo s)"
  have d: "distinct (topo s)" "set (topo s) \<subseteq> {..<?n}" "topo_sorted (deps_of (gb_edges b)) (topo s)"
    using s(1) by (auto simp: kahn_inv_def)
  have "set (topo s) = {..<?n}" using distinct_length_eq_set_upt [OF d(1,2) s(2)] .
  moreover have "topological_order ?g = topo s" by (simp add: assemble_def)
  moreover have "topo_sorted (\<lambda>i. dependencies (node_at ?g i)) (topo s)"
    using d(2,3) by (subst topo_sorted_cong [where g = "deps_of (gb_edges b)"])
      (auto simp: node_at_assemble [OF ls])
  ultimately show ?thesis
    using d(1) by (simp add: wf_graph_def node_at_assemble [OF ls] count_succs_of)
qed

lemma build_ok_wf:
  assumes "build b out = Some (st, Some g)" "ok st"
  shows "wf_graph g"
  using assms by (cases b out rule: build_cases) (auto simp: ok_def wf_graph_assemble)

text \<open>
  What a client of a dependency graph may rely on: the ids are \<open>0..<size g\<close>, the order lists
  each of them once, and a node's dependencies stand before it. The induction principle and
  the uniqueness of results computed along the dependencies follow from that alone.
\<close>

locale dag_provider =
  fixes invar :: "'g \<Rightarrow> bool"
    and size_of :: "'g \<Rightarrow> nat"
    and deps :: "'g \<Rightarrow> node_id \<Rightarrow> node_id list"
    and order :: "'g \<Rightarrow> node_id list"
  assumes order_distinct: "invar g \<Longrightarrow> distinct (order g)"
    and order_set: "invar g \<Longrightarrow> set (order g) = {..<size_of g}"
    and order_topo: "invar g \<Longrightarrow> topo_sorted (deps g) (order g)"
begin

lemma dag_dep_before:
  assumes "invar g" "i < size_of g" "d \<in> set (deps g (order g ! i))"
  shows "\<exists>j<i. order g ! j = d"
  using order_topo [OF assms(1)] order_distinct [OF assms(1)] order_set [OF assms(1)] assms(2,3)
  by (metis (no_types, lifting) card_lessThan distinct_card in_set_take_conv subsetD topo_sorted_def)

lemma dag_deps_in_range:
  assumes "invar g" "v < size_of g"
  shows "set (deps g v) \<subseteq> {..<size_of g}"
proof
  fix d assume d: "d \<in> set (deps g v)"
  obtain i where i: "i < length (order g)" "order g ! i = v"
    using assms order_set [OF assms(1)] by (metis in_set_conv_nth lessThan_iff)
  have "length (order g) = size_of g"
    using order_distinct [OF assms(1)] order_set [OF assms(1)] by (metis card_lessThan distinct_card)
  with i d obtain j where "j < i" "order g ! j = d"
    using dag_dep_before [OF assms(1), of i d] by auto
  with i(1) show "d \<in> {..<size_of g}" using order_set [OF assms(1)] nth_mem by force
qed

lemma dag_induct:
  assumes inv: "invar g" and v: "v < size_of g"
    and step: "\<And>v. v < size_of g \<Longrightarrow> (\<And>d. d \<in> set (deps g v) \<Longrightarrow> P d) \<Longrightarrow> P v"
  shows "P v"
proof -
  have len: "length (order g) = size_of g"
    using order_distinct [OF inv] order_set [OF inv] by (metis card_lessThan distinct_card)
  have "P (order g ! i)" if "i < size_of g" for i
    using that
  proof (induction i rule: less_induct)
    case (less i)
    have "order g ! i < size_of g" using less.prems len order_set [OF inv] nth_mem by force
    moreover have "P d" if "d \<in> set (deps g (order g ! i))" for d
      using dag_dep_before [OF inv less.prems that] less by (metis dual_order.strict_trans)
    ultimately show ?case by (rule step)
  qed
  with v len show ?thesis using order_set [OF inv] by (metis in_set_conv_nth lessThan_iff)
qed

text \<open>Two evaluations that follow the same rule at every node agree on every node.\<close>

lemma dag_eval_unique:
  assumes inv: "invar g"
    and f: "\<And>v. v < size_of g \<Longrightarrow> f v = F v (map f (deps g v))"
    and h: "\<And>v. v < size_of g \<Longrightarrow> h v = F v (map h (deps g v))"
    and v: "v < size_of g"
  shows "f v = h v"
  using inv v
proof (rule dag_induct)
  fix u assume u: "u < size_of g" and IH: "\<And>d. d \<in> set (deps g u) \<Longrightarrow> f d = h d"
  then have "map f (deps g u) = map h (deps g u)" by simp
  then show "f u = h u" by (simp only: f [OF u] h [OF u])
qed

end

interpretation built: dag_provider wf_graph node_count "\<lambda>g i. dependencies (node_at g i)"
  topological_order
  by unfold_locales (auto simp: wf_graph_def)

section \<open>Properties of the builder\<close>

text \<open>
  C1: \<open>build\<close> always returns, and its status is determined by the declared edges alone:
  \<open>unknown_node_reference\<close> when an edge names an id outside the graph, otherwise
  \<open>cycle_detected\<close> exactly when the edge relation has a cycle, otherwise \<open>ok\<close>.
\<close>

theorem build_total_and_decides:
  "\<exists>st g. build b out = Some (st, g) \<and> st_code st =
     (if \<not> edges_in_range (length (gb_nodes b)) (gb_edges b) then Unknown_node_reference
      else if acyclic (edge_rel (gb_edges b)) then Ok else Cycle_detected)"
  by (cases b out rule: build_cases) (auto simp: build_code_def split: if_splits)


definition chain_builder :: "nat graph_builder" where
  "chain_builder =
     (let (a, b1) = add_node empty_builder ''a'' (\<lambda>_. Inr (Some 1));
          (c, b2) = add_node b1 ''c'' (\<lambda>_. Inr (Some 2))
      in depends_on b2 a c)"

lemma build_chain: "\<exists>g. build chain_builder None = Some (success, Some g) \<and> topological_order g = [1, 0]"
  by (simp add: chain_builder_def add_node_def depends_on_def empty_builder_def build_def
      kahn_def kahn_init_def kahn_step_def while_option_unfold numeral_2_eq_2 assemble_def dec_size_def)


text \<open>
  A failed \<open>build\<close> leaves the caller's out-parameter untouched.
\<close>

theorem build_failure_keeps_out:
  assumes "build b out = Some (st, g)" "\<not> ok st"
  shows "g = out"
  using assms by (cases b out rule: build_cases) (auto simp: ok_def)

definition loop_builder :: "nat graph_builder" where
  "loop_builder = depends_on (snd (add_node empty_builder ''a'' (\<lambda>_. Inr None))) 0 0"

theorem build_failure_keeps_out_witness:
  "build loop_builder None = Some (cycle_status, None) \<and> \<not> ok cycle_status \<and> (None :: nat dependency_graph option) = None"
proof -
  have b: "build loop_builder None = Some (cycle_status, None)"
    by (simp add: loop_builder_def add_node_def depends_on_def empty_builder_def build_def
        kahn_def kahn_init_def kahn_step_def while_option_unfold)
  have "\<not> ok cycle_status" by (simp add: ok_def)
  with b build_failure_keeps_out [OF b] show ?thesis by simp
qed

end
