(* ===== verification/Keyed_Graph.thy ===== *)
theory Keyed_Graph
  imports Graph_Builder
begin

text \<open>
  \<open>keyed_graph_builder.h\<close>: nodes resolved on demand from keys. A resolver is code of the
  caller that may call \<open>ctx.resolve\<close> and look at the status it returns; it is modelled by
  the tree of its calls (\<open>rprog\<close>). \<open>resolve\<close> is recursive through the resolver, so the
  model carries a fuel that bounds the nesting depth, and the lemmas show how much is enough:
  one more than the number of keys, because a key in progress is never entered again.
  \<open>resolve_with_discovery\<close> runs the discover-resolve loop of the header in the same way.
\<close>

section \<open>State\<close>

record ('k, 'v) keyed_builder =
  kb_builder :: "'v graph_builder"
  kb_resolved :: "'k \<rightharpoonup> node_id"
  kb_in_progress :: "'k set"
  kb_frames :: "node_id list list" \<comment> \<open>\<open>frame_stack_\<close>, innermost frame first\<close>

definition empty_keyed :: "('k, 'v) keyed_builder" where
  "empty_keyed = \<lparr>kb_builder = empty_builder, kb_resolved = Map.empty, kb_in_progress = {}, kb_frames = []\<rparr>"

definition is_resolved :: "('k, 'v) keyed_builder \<Rightarrow> 'k \<Rightarrow> bool" where
  "is_resolved kb k \<longleftrightarrow> kb_resolved kb k \<noteq> None"

fun push_top :: "node_id \<Rightarrow> node_id list list \<Rightarrow> node_id list list" where
  "push_top i [] = []"
| "push_top i (f # fs) = (f @ [i]) # fs"

definition record_in_caller_frame :: "node_id \<Rightarrow> ('k, 'v) keyed_builder \<Rightarrow> ('k, 'v) keyed_builder" where
  "record_in_caller_frame i kb = kb\<lparr>kb_frames := push_top i (kb_frames kb)\<rparr>"

definition emplace :: "('k \<rightharpoonup> 'i) \<Rightarrow> 'k \<Rightarrow> 'i \<Rightarrow> ('k \<rightharpoonup> 'i)" where
  "emplace m k i = (case m k of None \<Rightarrow> m(k \<mapsto> i) | Some _ \<Rightarrow> m)"

section \<open>Resolving one key\<close>

definition keyed_cycle_status :: graph_status where
  "keyed_cycle_status = failure Cycle_detected
     ''keyed_graph_builder::resolve(): resolution cycle detected''"

type_synonym 'v resolver_out = "graph_status \<times> string \<times> 'v node_work"

text \<open>
  \<open>resolve\<close>, with the invocation \<open>resolve_fn(key, *this, name, work)\<close> as the argument
  \<open>body\<close>. The result holds the status and, on success, the value stored into \<open>out\<close>.
\<close>

definition enter :: "'k \<Rightarrow> ('k, 'v) keyed_builder \<Rightarrow> ('k, 'v) keyed_builder" where
  "enter k kb = kb\<lparr>kb_in_progress := insert k (kb_in_progress kb), kb_frames := [] # kb_frames kb\<rparr>"

definition leave :: "'k \<Rightarrow> ('k, 'v) keyed_builder \<Rightarrow> ('k, 'v) keyed_builder" where
  "leave k kb = kb\<lparr>kb_in_progress := kb_in_progress kb - {k}, kb_frames := tl (kb_frames kb)\<rparr>"

definition commit :: "'k \<Rightarrow> string \<Rightarrow> 'v node_work \<Rightarrow> node_id list \<Rightarrow> ('k, 'v) keyed_builder
    \<Rightarrow> node_id \<times> ('k, 'v) keyed_builder" where
  "commit k name work deps kb =
     (let (i, b) = add_node (kb_builder kb) name work;
          b' = foldl (\<lambda>b d. depends_on b i d) b deps
      in (i, record_in_caller_frame i
               (kb\<lparr>kb_builder := b', kb_resolved := emplace (kb_resolved kb) k i\<rparr>)))"

definition resolve_with ::
  "(('k, 'v) keyed_builder \<Rightarrow> ('v resolver_out \<times> ('k, 'v) keyed_builder) option)
    \<Rightarrow> 'k \<Rightarrow> ('k, 'v) keyed_builder
    \<Rightarrow> ((graph_status \<times> node_id option) \<times> ('k, 'v) keyed_builder) option" where
  "resolve_with body k kb =
     (case kb_resolved kb k of
        Some i \<Rightarrow> Some ((success, Some i), record_in_caller_frame i kb)
      | None \<Rightarrow>
          if k \<in> kb_in_progress kb then Some ((keyed_cycle_status, None), kb)
          else case body (enter k kb) of
                 None \<Rightarrow> None
               | Some ((st, name, work), kb1) \<Rightarrow>
                   let deps = hd (kb_frames kb1); kb2 = leave k kb1
                   in if \<not> ok st then Some ((st, None), kb2)
                      else let (i, kb3) = commit k name work deps kb2
                           in Some ((success, Some i), kb3))"

text \<open>A resolver: the calls it makes on the context and what it returns.\<close>

datatype ('k, 'v) rprog =
    Return graph_status string "'v node_work"
  | Resolve 'k "graph_status \<times> node_id option \<Rightarrow> ('k, 'v) rprog"

type_synonym ('k, 'v) resolve_call = "'k \<Rightarrow> ('k, 'v) keyed_builder
    \<Rightarrow> ((graph_status \<times> node_id option) \<times> ('k, 'v) keyed_builder) option"

primrec run_prog :: "('k, 'v) rprog \<Rightarrow> ('k, 'v) resolve_call \<Rightarrow> ('k, 'v) keyed_builder
    \<Rightarrow> ('v resolver_out \<times> ('k, 'v) keyed_builder) option" where
  "run_prog (Return st name work) rs kb = Some ((st, name, work), kb)"
| "run_prog (Resolve k c) rs kb =
     (case rs k kb of None \<Rightarrow> None | Some (r, kb') \<Rightarrow> run_prog (c r) rs kb')"

text \<open>The ids a resolver obtains from its calls, in call order.\<close>

primrec run_log :: "('k, 'v) rprog \<Rightarrow> ('k, 'v) resolve_call \<Rightarrow> ('k, 'v) keyed_builder \<Rightarrow> node_id list" where
  "run_log (Return st name work) rs kb = []"
| "run_log (Resolve k c) rs kb =
     (case rs k kb of
        None \<Rightarrow> []
      | Some ((st, x), kb') \<Rightarrow>
          (case x of Some i \<Rightarrow> [i] | None \<Rightarrow> []) @ run_log (c (st, x)) rs kb')"

primrec resolve :: "nat \<Rightarrow> ('k \<Rightarrow> ('k, 'v) rprog) \<Rightarrow> ('k, 'v) resolve_call" where
  "resolve 0 R = (\<lambda>k kb. None)"
| "resolve (Suc n) R = (\<lambda>k kb. resolve_with (run_prog (R k) (resolve n R)) k kb)"

section \<open>Resolving by discovery\<close>

type_synonym 'k discover_fn = "'k \<Rightarrow> ('k \<Rightarrow> bool) \<Rightarrow> 'k list"
type_synonym ('k, 'v) build_fn = "'k \<Rightarrow> 'v resolver_out"

fun resolve_each :: "('k, 'v) resolve_call \<Rightarrow> 'k list \<Rightarrow> ('k, 'v) keyed_builder
    \<Rightarrow> (graph_status \<times> ('k, 'v) keyed_builder) option" where
  "resolve_each rs [] kb = Some (success, kb)"
| "resolve_each rs (k # ks) kb =
     (case rs k kb of
        None \<Rightarrow> None
      | Some ((st, _), kb') \<Rightarrow> if \<not> ok st then Some (st, kb') else resolve_each rs ks kb')"

text \<open>The do-while loop of the synthesized resolver; the fuel bounds the number of passes.\<close>

primrec discover_loop :: "nat \<Rightarrow> ('k, 'v) resolve_call \<Rightarrow> 'k discover_fn \<Rightarrow> ('k, 'v) build_fn \<Rightarrow> 'k
    \<Rightarrow> ('k, 'v) keyed_builder \<Rightarrow> ('v resolver_out \<times> ('k, 'v) keyed_builder) option" where
  "discover_loop 0 rs discover bld k kb = None"
| "discover_loop (Suc m) rs discover bld k kb =
     (let newly_needed = filter (\<lambda>c. \<not> is_resolved kb c) (discover k (is_resolved kb))
      in case resolve_each rs newly_needed kb of
           None \<Rightarrow> None
         | Some (st, kb') \<Rightarrow>
             if \<not> ok st then Some ((st, '''', (\<lambda>_. Inr None)), kb')
             else if newly_needed \<noteq> [] then discover_loop m rs discover bld k kb'
             else Some (bld k, kb'))"

primrec resolve_with_discovery :: "nat \<Rightarrow> nat \<Rightarrow> ('k \<Rightarrow> 'k discover_fn \<times> ('k, 'v) build_fn)
    \<Rightarrow> ('k, 'v) resolve_call" where
  "resolve_with_discovery 0 m provider = (\<lambda>k kb. None)"
| "resolve_with_discovery (Suc n) m provider =
     (\<lambda>k kb. let (discover, bld) = provider k
             in resolve_with
                  (discover_loop m (resolve_with_discovery n m provider) discover bld k) k kb)"

definition keyed_build :: "('k, 'v) keyed_builder \<Rightarrow> 'v dependency_graph option
    \<Rightarrow> (graph_status \<times> 'v dependency_graph option) option" where
  "keyed_build kb out = build (kb_builder kb) out"

section \<open>The invariant and the contract of a resolve call\<close>

abbreviation kb_nodes :: "('k, 'v) keyed_builder \<Rightarrow> 'v pending_node list" where
  "kb_nodes kb \<equiv> gb_nodes (kb_builder kb)"

abbreviation kb_edges :: "('k, 'v) keyed_builder \<Rightarrow> pending_edge list" where
  "kb_edges kb \<equiv> gb_edges (kb_builder kb)"

definition kb_inv :: "('k, 'v) keyed_builder \<Rightarrow> bool" where
  "kb_inv kb \<longleftrightarrow>
     (\<forall>e\<in>set (kb_edges kb). pe_dependency e < pe_node e \<and> pe_node e < length (kb_nodes kb)) \<and>
     (\<forall>f\<in>set (kb_frames kb). \<forall>i\<in>set f. i < length (kb_nodes kb)) \<and>
     finite (dom (kb_resolved kb)) \<and> inj_on (kb_resolved kb) (dom (kb_resolved kb)) \<and>
     ran (kb_resolved kb) = {..<length (kb_nodes kb)} \<and>
     dom (kb_resolved kb) \<inter> kb_in_progress kb = {}"

fun frames_ext :: "node_id list list \<Rightarrow> node_id list list \<Rightarrow> bool" where
  "frames_ext [] gs \<longleftrightarrow> gs = []"
| "frames_ext (f # fs) gs \<longleftrightarrow> (\<exists>ids. gs = (f @ ids) # fs)"

text \<open>What a call leaves to its caller: nothing is undone, and only the top frame grew.\<close>

definition kb_ext :: "('k, 'v) keyed_builder \<Rightarrow> ('k, 'v) keyed_builder \<Rightarrow> bool" where
  "kb_ext kb kb' \<longleftrightarrow>
     kb_in_progress kb' = kb_in_progress kb \<and> kb_resolved kb \<subseteq>\<^sub>m kb_resolved kb' \<and>
     (\<exists>ns. kb_nodes kb' = kb_nodes kb @ ns) \<and>
     (\<exists>es. kb_edges kb' = kb_edges kb @ es \<and> (\<forall>e\<in>set es. length (kb_nodes kb) \<le> pe_node e)) \<and>
     frames_ext (kb_frames kb) (kb_frames kb')"

lemma frames_ext_refl [simp]: "frames_ext fs fs"
  by (cases fs) auto

lemma frames_ext_trans: "frames_ext fs gs \<Longrightarrow> frames_ext gs hs \<Longrightarrow> frames_ext fs hs"
  by (cases fs) auto

lemma frames_ext_push_top: "frames_ext fs (push_top i fs)"
  by (cases fs) auto

lemma kb_ext_refl [simp]: "kb_ext kb kb"
  by (simp add: kb_ext_def)

lemma kb_ext_trans: "kb_ext a b \<Longrightarrow> kb_ext b c \<Longrightarrow> kb_ext a c"
  unfolding kb_ext_def
  by (auto intro: frames_ext_trans map_le_trans simp: ball_Un) (force intro: order.trans)+

lemma kb_inv_empty: "kb_inv empty_keyed"
  by (simp add: kb_inv_def empty_keyed_def empty_builder_def)

lemma kb_inv_record:
  assumes "kb_inv kb" "i < length (kb_nodes kb)"
  shows "kb_inv (record_in_caller_frame i kb)" "kb_ext kb (record_in_caller_frame i kb)"
  using assms by (cases "kb_frames kb"; auto simp: kb_inv_def kb_ext_def record_in_caller_frame_def)+

lemma foldl_depends_on:
  "foldl (\<lambda>b d. depends_on b i d) b ds =
     b\<lparr>gb_edges := gb_edges b @ map (\<lambda>d. \<lparr>pe_node = i, pe_dependency = d\<rparr>) ds\<rparr>"
  by (induction ds arbitrary: b) (auto simp: depends_on_def)

lemma commit_eq:
  "commit k name work deps kb =
     (length (kb_nodes kb),
      record_in_caller_frame (length (kb_nodes kb))
        (kb\<lparr>kb_builder := (kb_builder kb)
             \<lparr>gb_nodes := kb_nodes kb @ [\<lparr>pn_name = name, pn_work = work\<rparr>],
              gb_edges := kb_edges kb @
                map (\<lambda>d. \<lparr>pe_node = length (kb_nodes kb), pe_dependency = d\<rparr>) deps\<rparr>,
             kb_resolved := emplace (kb_resolved kb) k (length (kb_nodes kb))\<rparr>))"
  by (simp add: commit_def add_node_def foldl_depends_on)

lemma commit_inv:
  assumes inv: "kb_inv kb" and new: "kb_resolved kb k = None" "k \<notin> kb_in_progress kb"
    and deps: "\<forall>d\<in>set deps. d < length (kb_nodes kb)"
    and c: "commit k name work deps kb = (i, kb')"
  shows "kb_inv kb'" "kb_ext kb kb'" "kb_resolved kb' k = Some i" "i = length (kb_nodes kb)"
    "deps_of (kb_edges kb') i = deps" "kb_frames kb' = push_top i (kb_frames kb)"
proof -
  let ?n = "length (kb_nodes kb)"
  let ?mid = "kb\<lparr>kb_builder := (kb_builder kb)
             \<lparr>gb_nodes := kb_nodes kb @ [\<lparr>pn_name = name, pn_work = work\<rparr>],
              gb_edges := kb_edges kb @ map (\<lambda>d. \<lparr>pe_node = ?n, pe_dependency = d\<rparr>) deps\<rparr>,
             kb_resolved := (kb_resolved kb)(k \<mapsto> ?n)\<rparr>"
  have e: "i = ?n" "kb' = record_in_caller_frame ?n ?mid"
    using c new(1) by (auto simp: commit_eq emplace_def)
  have "?n \<notin> ran (kb_resolved kb)" using inv by (simp add: kb_inv_def)
  then have "inj_on ((kb_resolved kb)(k \<mapsto> ?n)) (dom ((kb_resolved kb)(k \<mapsto> ?n)))"
    using inv new(1) by (auto simp: kb_inv_def inj_on_def ran_def)
  moreover have "ran ((kb_resolved kb)(k \<mapsto> ?n)) = {..<Suc ?n}"
    using inv new(1) by (auto simp: kb_inv_def)
  ultimately have mid: "kb_inv ?mid"
    using inv deps new(2) by (auto simp: kb_inv_def less_Suc_eq)
  have "kb_ext kb ?mid" using new(1) by (auto simp: kb_ext_def map_le_def)
  then show "kb_inv kb'" "kb_ext kb kb'"
    using kb_inv_record [OF mid, of ?n] kb_ext_trans by (auto simp: e)
  show "i = ?n" "kb_resolved kb' k = Some i" "kb_frames kb' = push_top i (kb_frames kb)"
    by (simp_all add: e record_in_caller_frame_def)
  have "filter (\<lambda>x. pe_node x = ?n) (kb_edges kb) = []"
    using inv by (auto simp: kb_inv_def filter_empty_conv)
  then show "deps_of (kb_edges kb') i = deps"
    by (simp add: e record_in_caller_frame_def deps_of_def comp_def filter_map)
qed

lemma enter_inv:
  assumes "kb_inv kb" "kb_resolved kb k = None"
  shows "kb_inv (enter k kb)"
  using assms by (auto simp: kb_inv_def enter_def)

lemma leave_inv:
  assumes inv: "kb_inv kb1" and ext: "kb_ext (enter k kb) kb1" and k: "k \<notin> kb_in_progress kb"
  shows "kb_inv (leave k kb1)" "kb_ext kb (leave k kb1)" "kb_resolved kb1 k = None"
    "\<forall>d\<in>set (hd (kb_frames kb1)). d < length (kb_nodes kb1)" "k \<notin> kb_in_progress (leave k kb1)"
    "kb_frames (leave k kb1) = kb_frames kb"
proof -
  obtain ids where f: "kb_frames kb1 = ids # kb_frames kb"
    using ext by (auto simp: kb_ext_def enter_def)
  have ip: "kb_in_progress kb1 = insert k (kb_in_progress kb)" using ext by (simp add: kb_ext_def enter_def)
  show "kb_inv (leave k kb1)" using inv f by (auto simp: kb_inv_def leave_def)
  show "kb_ext kb (leave k kb1)" using ext f ip k by (auto simp: kb_ext_def leave_def enter_def)
  show "kb_resolved kb1 k = None" using inv ip by (auto simp: kb_inv_def)
  show "\<forall>d\<in>set (hd (kb_frames kb1)). d < length (kb_nodes kb1)" using inv f by (simp add: kb_inv_def)
  show "k \<notin> kb_in_progress (leave k kb1)" by (simp add: leave_def)
  show "kb_frames (leave k kb1) = kb_frames kb" using f by (simp add: leave_def)
qed

text \<open>
  The interface between \<open>resolve\<close> and the resolvers it runs: a call keeps the invariant,
  undoes nothing, and on success leaves its key resolved to the id it returns. Whatever a
  resolver does with such calls keeps the same promises.
\<close>

locale resolve_contract =
  fixes rs :: "('k, 'v) resolve_call"
  assumes rs_inv: "kb_inv kb \<Longrightarrow> rs k kb = Some (r, kb') \<Longrightarrow> kb_inv kb' \<and> kb_ext kb kb'"
    and rs_ok: "kb_inv kb \<Longrightarrow> rs k kb = Some ((st, x), kb') \<Longrightarrow> ok st \<Longrightarrow>
      \<exists>i. x = Some i \<and> kb_resolved kb' k = Some i"
    and rs_frames: "kb_inv kb \<Longrightarrow> rs k kb = Some ((st, x), kb') \<Longrightarrow>
      kb_frames kb' = (case x of Some i \<Rightarrow> push_top i (kb_frames kb) | None \<Rightarrow> kb_frames kb)"
begin

lemma run_prog_contract:
  "kb_inv kb \<Longrightarrow> run_prog p rs kb = Some (out, kb') \<Longrightarrow> kb_inv kb' \<and> kb_ext kb kb'"
proof (induction p arbitrary: kb)
  case (Return st name work)
  then show ?case by simp
next
  case (Resolve k c)
  then obtain r kb1 where r: "rs k kb = Some (r, kb1)" "run_prog (c r) rs kb1 = Some (out, kb')"
    by (auto split: option.splits)
  then show ?case
    using rs_inv [OF Resolve.prems(1) r(1)] Resolve.IH [of "c r" kb1] kb_ext_trans by blast
qed

lemma run_prog_frames:
  "kb_inv kb \<Longrightarrow> run_prog p rs kb = Some (out, kb') \<Longrightarrow> kb_frames kb = f # fs \<Longrightarrow>
     kb_frames kb' = (f @ run_log p rs kb) # fs"
proof (induction p arbitrary: kb f)
  case (Return st name work)
  then show ?case by simp
next
  case (Resolve k c)
  then obtain st x kb1 where r: "rs k kb = Some ((st, x), kb1)" "run_prog (c (st, x)) rs kb1 = Some (out, kb')"
    by (auto split: option.splits)
  have inv: "kb_inv kb1" using rs_inv [OF Resolve.prems(1) r(1)] by blast
  have "kb_frames kb1 = (f @ (case x of Some i \<Rightarrow> [i] | None \<Rightarrow> [])) # fs"
    using rs_frames [OF Resolve.prems(1) r(1)] Resolve.prems(3) by (cases x) auto
  from Resolve.IH [OF _ inv r(2) this] show ?case by (simp add: r(1))
qed

lemma resolve_each_contract:
  "kb_inv kb \<Longrightarrow> resolve_each rs ks kb = Some (st, kb') \<Longrightarrow>
     kb_inv kb' \<and> kb_ext kb kb' \<and> (ok st \<longrightarrow> (\<forall>k\<in>set ks. is_resolved kb' k))"
proof (induction ks arbitrary: kb)
  case Nil
  then show ?case by simp
next
  case (Cons k ks)
  obtain st1 x kb1 where r: "rs k kb = Some ((st1, x), kb1)"
    using Cons.prems(2) by (auto split: option.splits)
  note i1 = rs_inv [OF Cons.prems(1) r]
  show ?case
  proof (cases "ok st1")
    case True
    then have "resolve_each rs ks kb1 = Some (st, kb')" using Cons.prems(2) r by simp
    note i2 = Cons.IH [OF conjunct1 [OF i1] this]
    obtain i where "kb_resolved kb1 k = Some i" using rs_ok [OF Cons.prems(1) r True] by blast
    then have "is_resolved kb' k" using i2 by (auto simp: kb_ext_def is_resolved_def map_le_def dom_def)
    with i1 i2 show ?thesis using kb_ext_trans by auto
  next
    case False
    then show ?thesis using Cons.prems(2) r i1 by simp
  qed
qed

lemma discover_loop_contract:
  "kb_inv kb \<Longrightarrow> discover_loop m rs discover bld k kb = Some (out, kb') \<Longrightarrow> kb_inv kb' \<and> kb_ext kb kb'"
proof (induction m arbitrary: kb)
  case 0
  then show ?case by simp
next
  case (Suc m)
  let ?new = "filter (\<lambda>c. \<not> is_resolved kb c) (discover k (is_resolved kb))"
  obtain st kb1 where r: "resolve_each rs ?new kb = Some (st, kb1)"
    using Suc.prems(2) by (auto simp: Let_def split: option.splits)
  note i1 = resolve_each_contract [OF Suc.prems(1) r]
  show ?case
  proof (cases "ok st \<and> ?new \<noteq> []")
    case True
    then have "discover_loop m rs discover bld k kb1 = Some (out, kb')"
      using Suc.prems(2) r by (simp add: Let_def)
    then show ?thesis using Suc.IH i1 kb_ext_trans by blast
  next
    case False
    then have "kb' = kb1" using Suc.prems(2) r by (auto simp: Let_def split: if_splits)
    then show ?thesis using i1 by simp
  qed
qed

end

lemma resolve_with_contract:
  assumes body: "\<And>kb out kb'. kb_inv kb \<Longrightarrow> body kb = Some (out, kb') \<Longrightarrow> kb_inv kb' \<and> kb_ext kb kb'"
    and inv: "kb_inv kb" and r: "resolve_with body k kb = Some ((st, x), kb')"
  shows "kb_inv kb' \<and> kb_ext kb kb' \<and> (ok st \<longrightarrow> (\<exists>i. x = Some i \<and> kb_resolved kb' k = Some i)) \<and>
    (\<not> ok st \<longrightarrow> x = None \<and> kb_resolved kb' k = None) \<and>
    kb_frames kb' = (case x of Some i \<Rightarrow> push_top i (kb_frames kb) | None \<Rightarrow> kb_frames kb)"
proof (cases "kb_resolved kb k")
  case (Some i)
  then have e: "st = success" "x = Some i" "kb' = record_in_caller_frame i kb"
    using r by (auto simp: resolve_with_def)
  have "i < length (kb_nodes kb)" using inv Some by (auto simp: kb_inv_def ran_def)
  then show ?thesis
    using kb_inv_record [OF inv] Some by (simp add: e ok_def record_in_caller_frame_def)
next
  case None
  show ?thesis
  proof (cases "k \<in> kb_in_progress kb")
    case True
    then show ?thesis
      using r None inv by (auto simp: resolve_with_def keyed_cycle_status_def failure_def ok_def)
  next
    case False
    then obtain st1 name work kb1 where b: "body (enter k kb) = Some ((st1, name, work), kb1)"
      using r None by (auto simp: resolve_with_def split: option.splits)
    note i1 = body [OF enter_inv [OF inv None] b]
    note l = leave_inv [OF conjunct1 [OF i1] conjunct2 [OF i1] False]
    show ?thesis
    proof (cases "ok st1")
      case True
      obtain i kb3 where c: "commit k name work (hd (kb_frames kb1)) (leave k kb1) = (i, kb3)"
        by fastforce
      have "st = success" "x = Some i" "kb' = kb3"
        using r None False b True c by (auto simp: resolve_with_def Let_def)
      moreover have "kb_resolved (leave k kb1) k = None" "kb_nodes (leave k kb1) = kb_nodes kb1"
        using l(3) by (simp_all add: leave_def)
      ultimately show ?thesis
        using commit_inv [OF l(1) _ l(5) _ c] l(2,4,6) kb_ext_trans by (auto simp: ok_def)
    next
      case notok: False
      then have "st = st1" "x = None" "kb' = leave k kb1"
        using r None False b by (auto simp: resolve_with_def Let_def)
      then show ?thesis using l notok by (simp add: leave_def)
    qed
  qed
qed

lemma resolve_contract_Suc:
  assumes "\<And>k kb out kb'. kb_inv kb \<Longrightarrow> body k kb = Some (out, kb') \<Longrightarrow> kb_inv kb' \<and> kb_ext kb kb'"
  shows "resolve_contract (\<lambda>k kb. resolve_with (body k) k kb)"
  using resolve_with_contract [OF assms] by unfold_locales (auto; metis prod.exhaust)+

interpretation keyed: resolve_contract "resolve n R" for n R
proof (induction n)
  case 0
  show ?case by unfold_locales simp_all
next
  case (Suc n)
  then show ?case using resolve_contract_Suc [OF resolve_contract.run_prog_contract [OF Suc]] by simp
qed

interpretation discovered: resolve_contract "resolve_with_discovery n m P" for n m P
proof (induction n)
  case 0
  show ?case by unfold_locales simp_all
next
  case (Suc n)
  have "resolve_with_discovery (Suc n) m P = (\<lambda>k kb. resolve_with
      (discover_loop m (resolve_with_discovery n m P) (fst (P k)) (snd (P k)) k) k kb)"
    by (simp add: case_prod_beta Let_def)
  then show ?case
    using resolve_contract_Suc [OF resolve_contract.discover_loop_contract [OF Suc]] by simp
qed

section \<open>Enough fuel\<close>

primrec asks_in :: "'k set \<Rightarrow> ('k, 'v) rprog \<Rightarrow> bool" where
  "asks_in K (Return st name work) \<longleftrightarrow> True"
| "asks_in K (Resolve k c) \<longleftrightarrow> k \<in> K \<and> (\<forall>r. asks_in K (c r))"

definition answers_on :: "('k, 'v) resolve_call \<Rightarrow> 'k set \<Rightarrow> 'k set \<Rightarrow> bool" where
  "answers_on rs K I \<longleftrightarrow> (\<forall>k\<in>K. \<forall>kb. kb_inv kb \<longrightarrow> kb_in_progress kb = I \<longrightarrow> rs k kb \<noteq> None)"

context resolve_contract
begin

lemma run_prog_returns:
  "asks_in K p \<Longrightarrow> kb_inv kb \<Longrightarrow> answers_on rs K (kb_in_progress kb) \<Longrightarrow> run_prog p rs kb \<noteq> None"
proof (induction p arbitrary: kb)
  case (Return st name work)
  then show ?case by simp
next
  case (Resolve k c)
  then obtain r kb1 where r: "rs k kb = Some (r, kb1)" by (force simp: answers_on_def)
  then have "kb_inv kb1" "kb_in_progress kb1 = kb_in_progress kb"
    using rs_inv [OF Resolve.prems(2) r] by (auto simp: kb_ext_def)
  then have "run_prog (c r) rs kb1 \<noteq> None" using Resolve by (cases r) auto
  then show ?case using r by simp
qed

lemma resolve_each_returns:
  "set ks \<subseteq> K \<Longrightarrow> kb_inv kb \<Longrightarrow> answers_on rs K (kb_in_progress kb) \<Longrightarrow> resolve_each rs ks kb \<noteq> None"
proof (induction ks arbitrary: kb)
  case Nil
  then show ?case by simp
next
  case (Cons k ks)
  then obtain st x kb1 where r: "rs k kb = Some ((st, x), kb1)" by (force simp: answers_on_def)
  then have "kb_inv kb1" "kb_in_progress kb1 = kb_in_progress kb"
    using rs_inv [OF Cons.prems(2) r] by (auto simp: kb_ext_def)
  then show ?case using Cons r by simp
qed

lemma discover_loop_returns:
  assumes K: "finite K" "\<And>p. set (discover k p) \<subseteq> K"
  shows "kb_inv kb \<Longrightarrow> answers_on rs K (kb_in_progress kb) \<Longrightarrow> card (K - dom (kb_resolved kb)) < m \<Longrightarrow>
    discover_loop m rs discover bld k kb \<noteq> None"
proof (induction m arbitrary: kb)
  case 0
  then show ?case by simp
next
  case (Suc m)
  let ?new = "filter (\<lambda>c. \<not> is_resolved kb c) (discover k (is_resolved kb))"
  have sub: "set ?new \<subseteq> K" using K(2) by auto
  then obtain st kb1 where r: "resolve_each rs ?new kb = Some (st, kb1)"
    using resolve_each_returns [OF _ Suc.prems(1,2)] by fastforce
  note c = resolve_each_contract [OF Suc.prems(1) r]
  show ?case
  proof (cases "ok st \<and> ?new \<noteq> []")
    case True
    then obtain c where "c \<in> set ?new" by (meson last_in_set)
    then have "c \<in> K - dom (kb_resolved kb)" "c \<in> dom (kb_resolved kb1)"
      using True c sub by (auto simp: is_resolved_def)
    moreover have "kb_resolved kb \<subseteq>\<^sub>m kb_resolved kb1" using c by (simp add: kb_ext_def)
    then have "dom (kb_resolved kb) \<subseteq> dom (kb_resolved kb1)" by (rule map_le_implies_dom_le)
    ultimately have "K - dom (kb_resolved kb1) \<subset> K - dom (kb_resolved kb)" by blast
    then have "card (K - dom (kb_resolved kb1)) < card (K - dom (kb_resolved kb))"
      using K(1) by (simp add: psubset_card_mono)
    moreover have "answers_on rs K (kb_in_progress kb1)" using c Suc.prems(2) by (simp add: kb_ext_def)
    ultimately have "discover_loop m rs discover bld k kb1 \<noteq> None" using Suc c by simp
    then show ?thesis using True r by (auto simp: Let_def)
  next
    case False
    then show ?thesis using r by (cases "bld k") (auto simp: Let_def)
  qed
qed

end

lemma resolve_with_returns:
  assumes "kb_inv kb"
    and "kb_resolved kb k = None \<Longrightarrow> k \<notin> kb_in_progress kb \<Longrightarrow> body (enter k kb) \<noteq> None"
  shows "resolve_with body k kb \<noteq> None"
  using assms
  by (cases "kb_resolved kb k"; cases "k \<in> kb_in_progress kb")
    (auto simp: resolve_with_def Let_def split: option.splits prod.splits)

lemma card_enter:
  assumes "finite K" "k \<in> K" "k \<notin> kb_in_progress kb" "card (K - kb_in_progress kb) < Suc n"
  shows "card (K - kb_in_progress (enter k kb)) < n"
proof -
  have "K - kb_in_progress (enter k kb) \<subset> K - kb_in_progress kb"
    using assms(2,3) by (auto simp: enter_def)
  then show ?thesis using assms(1,4) by (meson finite_Diff less_Suc_eq_le less_le_trans psubset_card_mono)
qed

lemma resolve_returns:
  fixes R :: "'k \<Rightarrow> ('k, 'v) rprog"
  assumes K: "finite K" "\<forall>k\<in>K. asks_in K (R k)"
  shows "kb_inv kb \<Longrightarrow> k \<in> K \<Longrightarrow> card (K - kb_in_progress kb) < n \<Longrightarrow> resolve n R k kb \<noteq> None"
proof (induction n arbitrary: k kb)
  case 0
  then show ?case by simp
next
  case (Suc n)
  have "run_prog (R k) (resolve n R) (enter k kb) \<noteq> None"
    if "kb_resolved kb k = None" "k \<notin> kb_in_progress kb"
  proof (rule keyed.run_prog_returns)
    show "asks_in K (R k)" using K(2) Suc.prems(2) by blast
    show "kb_inv (enter k kb)" by (rule enter_inv [OF Suc.prems(1) that(1)])
    show "answers_on (resolve n R) K (kb_in_progress (enter k kb))"
      unfolding answers_on_def
    proof (intro ballI allI impI)
      fix c and kb' :: "('k, 'v) keyed_builder"
      assume "c \<in> K" "kb_inv kb'" "kb_in_progress kb' = kb_in_progress (enter k kb)"
      then show "resolve n R c kb' \<noteq> None"
        using Suc.IH [of kb' c] card_enter [OF K(1) Suc.prems(2) that(2) Suc.prems(3)] by metis
    qed
  qed
  then show ?case using resolve_with_returns [OF Suc.prems(1)] by simp
qed

lemma discovery_returns:
  fixes P :: "'k \<Rightarrow> 'k discover_fn \<times> ('k, 'v) build_fn"
  assumes K: "finite K" "\<And>k p. k \<in> K \<Longrightarrow> set (fst (P k) k p) \<subseteq> K" and m: "card K < m"
  shows "kb_inv kb \<Longrightarrow> k \<in> K \<Longrightarrow> card (K - kb_in_progress kb) < n \<Longrightarrow>
    resolve_with_discovery n m P k kb \<noteq> None"
proof (induction n arbitrary: k kb)
  case 0
  then show ?case by simp
next
  case (Suc n)
  have "discover_loop m (resolve_with_discovery n m P) (fst (P k)) (snd (P k)) k (enter k kb) \<noteq> None"
    if "kb_resolved kb k = None" "k \<notin> kb_in_progress kb"
  proof (rule discovered.discover_loop_returns [OF K(1)])
    show "set (fst (P k) k p) \<subseteq> K" for p using K(2) Suc.prems(2) by blast
    show "kb_inv (enter k kb)" by (rule enter_inv [OF Suc.prems(1) that(1)])
    show "answers_on (resolve_with_discovery n m P) K (kb_in_progress (enter k kb))"
      unfolding answers_on_def
    proof (intro ballI allI impI)
      fix c and kb' :: "('k, 'v) keyed_builder"
      assume "c \<in> K" "kb_inv kb'" "kb_in_progress kb' = kb_in_progress (enter k kb)"
      then show "resolve_with_discovery n m P c kb' \<noteq> None"
        using Suc.IH [of kb' c] card_enter [OF K(1) Suc.prems(2) that(2) Suc.prems(3)] by metis
    qed
    show "card (K - dom (kb_resolved (enter k kb))) < m"
      using m K(1) by (meson Diff_subset card_mono order.strict_trans1)
  qed
  then show ?case
    using resolve_with_returns [OF Suc.prems(1)] by (simp add: case_prod_beta Let_def)
qed

text \<open>More fuel never changes a result.\<close>

definition refines_call :: "('k, 'v) resolve_call \<Rightarrow> ('k, 'v) resolve_call \<Rightarrow> bool" where
  "refines_call rs rs' \<longleftrightarrow> (\<forall>k kb r. rs k kb = Some r \<longrightarrow> rs' k kb = Some r)"

lemma run_prog_mono:
  "refines_call rs rs' \<Longrightarrow> run_prog p rs kb = Some x \<Longrightarrow> run_prog p rs' kb = Some x"
proof (induction p arbitrary: kb)
  case (Return st name work)
  then show ?case by simp
next
  case (Resolve k c)
  then obtain r kb1 where "rs k kb = Some (r, kb1)" "run_prog (c r) rs kb1 = Some x"
    by (auto split: option.splits)
  moreover then have "rs' k kb = Some (r, kb1)" using Resolve.prems(1) unfolding refines_call_def by blast
  ultimately show ?case using Resolve.IH [of "c r" kb1] Resolve.prems(1) by simp
qed

lemma resolve_with_mono:
  assumes "\<And>kb x. body kb = Some x \<Longrightarrow> body' kb = Some x" "resolve_with body k kb = Some r"
  shows "resolve_with body' k kb = Some r"
  using assms(2) by (auto simp: resolve_with_def dest: assms(1) split: option.splits if_splits)

lemma resolve_mono: "refines_call (resolve n R) (resolve (Suc n) R)"
proof (induction n)
  case 0
  show ?case by (simp add: refines_call_def)
next
  case (Suc n)
  have "resolve_with (run_prog (R k) (resolve (Suc n) R)) k kb = Some r"
    if "resolve_with (run_prog (R k) (resolve n R)) k kb = Some r" for k kb r
    using resolve_with_mono [OF run_prog_mono [OF Suc] that] .
  then show ?case by (simp add: refines_call_def)
qed

section \<open>An example\<close>

text \<open>A small resolver table: \<open>D\<close> needs \<open>B\<close> and \<open>C\<close>, both need \<open>A\<close>; key 9 calls itself.\<close>

definition demo_work :: "int node_work" where
  "demo_work ins = Inr (Some (sum_list (map (case_option 0 id) ins)))"

fun ask :: "nat list \<Rightarrow> (nat, int) rprog" where
  "ask [] = Return success ''n'' demo_work"
| "ask (k # ks) = Resolve k (\<lambda>(st, x). if ok st then ask ks else Return st '''' demo_work)"

definition demo_deps :: "nat \<Rightarrow> nat list" where
  "demo_deps k = (if k = 3 then [1, 2] else if k = 1 \<or> k = 2 then [0] else if k = 9 then [9] else [])"

definition demo_resolvers :: "nat \<Rightarrow> (nat, int) rprog" where
  "demo_resolvers k = ask (demo_deps k)"

definition demo_provider :: "nat \<Rightarrow> nat discover_fn \<times> (nat, int) build_fn" where
  "demo_provider k = ((\<lambda>k p. demo_deps k), (\<lambda>k. (success, ''n'', demo_work)))"

definition demo_kb :: "(nat, int) keyed_builder" where
  "demo_kb = \<lparr>kb_builder = \<lparr>gb_nodes = replicate 4 \<lparr>pn_name = ''n'', pn_work = demo_work\<rparr>,
       gb_edges = [\<lparr>pe_node = 1, pe_dependency = 0\<rparr>, \<lparr>pe_node = 2, pe_dependency = 0\<rparr>,
                   \<lparr>pe_node = 3, pe_dependency = 1\<rparr>, \<lparr>pe_node = 3, pe_dependency = 2\<rparr>]\<rparr>,
     kb_resolved = [0 \<mapsto> 0, 1 \<mapsto> 1, 2 \<mapsto> 2, 3 \<mapsto> 3], kb_in_progress = {}, kb_frames = []\<rparr>"

lemmas demo_simps =
  resolve_with_def commit_def add_node_def depends_on_def leave_def enter_def record_in_caller_frame_def
  demo_resolvers_def demo_deps_def emplace_def empty_keyed_def empty_builder_def ok_def success_def
  keyed_cycle_status_def failure_def is_resolved_def demo_provider_def

lemma demo_resolve: "resolve 5 demo_resolvers 3 empty_keyed = Some ((success, Some 3), demo_kb)"
  by (simp add: eval_nat_numeral demo_simps demo_kb_def)

lemma demo_cycle: "resolve 3 demo_resolvers 9 demo_kb = Some ((keyed_cycle_status, None), demo_kb)"
  by (simp add: eval_nat_numeral demo_simps demo_kb_def)

section \<open>Properties of the keyed builder\<close>

inductive kb_reach :: "('k, 'v) keyed_builder \<Rightarrow> bool" where
  reach_empty: "kb_reach empty_keyed"
| reach_resolve: "kb_reach kb \<Longrightarrow> resolve n R k kb = Some (r, kb') \<Longrightarrow> kb_reach kb'"
| reach_discover: "kb_reach kb \<Longrightarrow> resolve_with_discovery n m P k kb = Some (r, kb') \<Longrightarrow> kb_reach kb'"

lemma kb_reach_inv: "kb_reach kb \<Longrightarrow> kb_inv kb \<and> kb_frames kb = [] \<and> kb_in_progress kb = {}"
proof (induction rule: kb_reach.induct)
  case reach_empty
  then show ?case by (simp add: kb_inv_empty) (simp add: empty_keyed_def)
next
  case (reach_resolve kb n R k r kb')
  then show ?case using keyed.rs_inv [of kb n R k r kb'] by (auto simp: kb_ext_def)
next
  case (reach_discover kb n m P k r kb')
  then show ?case using discovered.rs_inv [of kb n m P k r kb'] by (auto simp: kb_ext_def)
qed

lemma kb_inv_build_ok: "kb_inv kb \<Longrightarrow> build_code (kb_builder kb) = Ok"
proof -
  assume inv: "kb_inv kb"
  then have "edges_in_range (length (kb_nodes kb)) (kb_edges kb)"
    by (fastforce simp: kb_inv_def edges_in_range_def)
  moreover have "edge_rel (kb_edges kb) \<subseteq> less_than" using inv by (auto simp: kb_inv_def edge_rel_def)
  then have "acyclic (edge_rel (kb_edges kb))" using wf_acyclic wf_less_than wf_subset by blast
  ultimately show ?thesis by (simp add: build_code_def)
qed

lemma demo_reach: "kb_reach demo_kb"
  using reach_resolve [OF reach_empty demo_resolve] .

text \<open>
  C7: whatever resolvers ran before, \<open>build\<close> of a keyed builder succeeds: neither
  \<open>cycle_detected\<close> nor \<open>unknown_node_reference\<close> is reachable, and the graph has exactly one
  node per resolved key.
\<close>

theorem keyed_build_always_succeeds:
  assumes "kb_reach kb"
  shows "\<exists>g. keyed_build kb out = Some (success, Some g) \<and> wf_graph g \<and>
    node_count g = card (dom (kb_resolved kb))"
proof -
  have inv: "kb_inv kb" using kb_reach_inv [OF assms] by blast
  obtain ls s where "linked (length (kb_nodes kb)) (kb_edges kb) ls"
      "kahn_inv (length (kb_nodes kb)) (kb_edges kb) s" "length (topo s) = length (kb_nodes kb)"
      "build (kb_builder kb) out = Some (success, Some (assemble (kb_builder kb) ls (topo s)))"
    using kb_inv_build_ok [OF inv] by (cases "kb_builder kb" out rule: build_cases) auto
  then have "build (kb_builder kb) out = Some (success, Some (assemble (kb_builder kb) ls (topo s)))"
      "wf_graph (assemble (kb_builder kb) ls (topo s))" using wf_graph_assemble by blast+
  moreover have "card (dom (kb_resolved kb)) = length (kb_nodes kb)"
  proof -
    have "kb_resolved kb ` dom (kb_resolved kb) = Some ` ran (kb_resolved kb)"
      by (auto simp: ran_def image_iff dom_def) (metis)
    then have "card (dom (kb_resolved kb)) = card (Some ` ran (kb_resolved kb))"
      using inv by (metis card_image kb_inv_def)
    then show ?thesis using inv by (simp add: card_image kb_inv_def)
  qed
  ultimately show ?thesis unfolding keyed_build_def by auto
qed

theorem keyed_build_always_succeeds_witness:
  "\<exists>g. keyed_build demo_kb None = Some (success, Some g) \<and> wf_graph g \<and>
    node_count g = card (dom (kb_resolved demo_kb))"
  by (rule keyed_build_always_succeeds [OF demo_reach])

text \<open>
  a successful \<open>resolve\<close> is memoized: resolving the key again, with any resolver, returns
  the same id without running the resolver and changes nothing but the caller's frame.
\<close>

theorem resolve_memoizes:
  assumes "kb_reach kb" "resolve n R k kb = Some ((st, x), kb')" "ok st"
  shows "\<exists>i. x = Some i \<and> is_resolved kb' k \<and>
    (\<forall>n' R'. resolve (Suc n') R' k kb' = Some ((success, Some i), record_in_caller_frame i kb'))"
proof -
  have inv: "kb_inv kb" using kb_reach_inv [OF assms(1)] by blast
  obtain i where "x = Some i" "kb_resolved kb' k = Some i" using keyed.rs_ok [OF inv assms(2,3)] by blast
  then show ?thesis by (simp add: is_resolved_def resolve_with_def)
qed

theorem resolve_memoizes_witness:
  "resolve 5 demo_resolvers 3 empty_keyed = Some ((success, Some 3), demo_kb) \<and>
   resolve (Suc 0) demo_resolvers 3 demo_kb = Some ((success, Some 3), record_in_caller_frame 3 demo_kb)"
  using resolve_memoizes [OF reach_empty demo_resolve] demo_resolve
  by (simp add: ok_def success_def del: resolve.simps)

text \<open>
  a failed \<open>resolve\<close> leaves the requested key unresolved and the bookkeeping as it was:
  nothing stays in progress, no frame is left behind, and no earlier node, edge or memo entry
  is lost.
\<close>

theorem resolve_failure_restores:
  assumes "kb_inv kb" "resolve n R k kb = Some ((st, x), kb')" "\<not> ok st"
  shows "x = None \<and> kb_resolved kb' k = None \<and> kb_in_progress kb' = kb_in_progress kb \<and>
    kb_frames kb' = kb_frames kb \<and> kb_resolved kb \<subseteq>\<^sub>m kb_resolved kb' \<and>
    (\<exists>ns es. kb_nodes kb' = kb_nodes kb @ ns \<and> kb_edges kb' = kb_edges kb @ es)"
proof -
  obtain m where n: "n = Suc m" using assms(2) by (cases n) auto
  have "kb_inv kb' \<and> kb_ext kb kb' \<and> (ok st \<longrightarrow> (\<exists>i. x = Some i \<and> kb_resolved kb' k = Some i)) \<and>
      (\<not> ok st \<longrightarrow> x = None \<and> kb_resolved kb' k = None) \<and>
      kb_frames kb' = (case x of Some i \<Rightarrow> push_top i (kb_frames kb) | None \<Rightarrow> kb_frames kb)"
  proof (rule resolve_with_contract)
    show "resolve_with (run_prog (R k) (resolve m R)) k kb = Some ((st, x), kb')"
      using assms(2) n by simp
  qed (use keyed.run_prog_contract assms(1) in blast)+
  with assms(3) show ?thesis by (auto simp: kb_ext_def)
qed

theorem resolve_failure_restores_witness:
  "resolve 3 demo_resolvers 9 demo_kb = Some ((keyed_cycle_status, None), demo_kb) \<and>
   kb_resolved demo_kb 9 = None"
  using resolve_failure_restores [OF _ demo_cycle] demo_cycle kb_reach_inv [OF demo_reach]
  by (simp add: keyed_cycle_status_def failure_def ok_def)

text \<open>
  C8: the dependencies of a node are the ids its resolver obtained from its \<open>ctx.resolve\<close>
  calls, in call order and with repetitions; no other edge of the builder leaves the node.
\<close>

theorem resolve_dependencies_in_call_order:
  assumes "kb_inv kb" "kb_resolved kb k = None"
    "resolve (Suc n) R k kb = Some ((st, Some i), kb')"
  shows "deps_of (kb_edges kb') i = run_log (R k) (resolve n R) (enter k kb) \<and>
    (\<forall>d\<in>set (deps_of (kb_edges kb') i). d < i)"
proof -
  have kp: "k \<notin> kb_in_progress kb" using assms(2,3) by (auto simp: resolve_with_def)
  obtain st1 name work kb1 where b: "run_prog (R k) (resolve n R) (enter k kb) = Some ((st1, name, work), kb1)"
    using assms(2,3) kp by (auto simp: resolve_with_def split: option.splits)
  note e = enter_inv [OF assms(1,2)]
  note c1 = keyed.run_prog_contract [OF e b]
  note l = leave_inv [OF conjunct1 [OF c1] conjunct2 [OF c1] kp]
  have f: "hd (kb_frames kb1) = run_log (R k) (resolve n R) (enter k kb)"
    using keyed.run_prog_frames [OF e b, of "[]" "kb_frames kb"] by (simp add: enter_def)
  have com: "commit k name work (hd (kb_frames kb1)) (leave k kb1) = (i, kb')"
    using assms(2,3) kp b by (auto simp: resolve_with_def Let_def split: if_splits prod.splits)
  have r1: "kb_resolved (leave k kb1) k = None" "kb_nodes (leave k kb1) = kb_nodes kb1"
    using l(3) by (simp_all add: leave_def)
  have "\<forall>d\<in>set (hd (kb_frames kb1)). d < length (kb_nodes (leave k kb1))" using l(4) r1 by simp
  note m = commit_inv [OF l(1) r1(1) l(5) this com]
  from m(4,5) l(4) f r1(2) show ?thesis by simp
qed

theorem resolve_dependencies_in_call_order_witness:
  "deps_of (kb_edges demo_kb) 3 = run_log (demo_resolvers 3) (resolve 4 demo_resolvers) (enter 3 empty_keyed) \<and>
   run_log (demo_resolvers 3) (resolve 4 demo_resolvers) (enter 3 empty_keyed) = [1, 2]"
proof -
  have "resolve (Suc 4) demo_resolvers 3 empty_keyed = Some ((success, Some 3), demo_kb)"
    using demo_resolve by (simp add: eval_nat_numeral)
  from resolve_dependencies_in_call_order [OF kb_inv_empty _ this]
  have "deps_of (kb_edges demo_kb) 3 = run_log (demo_resolvers 3) (resolve 4 demo_resolvers) (enter 3 empty_keyed)"
    by (simp add: empty_keyed_def)
  moreover have "deps_of (kb_edges demo_kb) 3 = [1, 2]" by (simp add: demo_kb_def deps_of_def)
  ultimately show ?thesis by simp
qed

text \<open>
  C9: \<open>resolve\<close> ends for every resolver table over a finite set of keys, however the
  resolvers call each other: a nesting depth of one more than the number of keys is enough.
\<close>

theorem resolve_terminates:
  assumes "finite K" "\<forall>c\<in>K. asks_in K (R c)" "kb_reach kb" "k \<in> K"
  shows "\<exists>r kb'. resolve (Suc (card K)) R k kb = Some (r, kb')"
proof -
  have "kb_inv kb" using kb_reach_inv [OF assms(3)] by blast
  moreover have "card (K - kb_in_progress kb) < Suc (card K)"
    using assms(1) by (simp add: card_mono less_Suc_eq_le)
  ultimately show ?thesis using resolve_returns [OF assms(1,2)] assms(4) by fastforce
qed

lemma demo_asks: "\<forall>c\<in>{0, 1, 2, 3, 9}. asks_in {0, 1, 2, 3, 9} (demo_resolvers c)"
  by (simp add: demo_resolvers_def demo_deps_def)

theorem resolve_terminates_witness:
  "\<exists>r kb'. resolve 6 demo_resolvers 9 demo_kb = Some (r, kb')"
  using resolve_terminates [OF _ demo_asks demo_reach, of 9]
  by (simp add: eval_nat_numeral del: resolve.simps)

text \<open>
  the discovery loop ends as well: over a finite set of keys each pass resolves a new key
  or is the last, so one pass more than there are keys is enough at every level.
\<close>

theorem discovery_terminates:
  assumes "finite K" "\<And>c p. c \<in> K \<Longrightarrow> set (fst (P c) c p) \<subseteq> K" "kb_reach kb" "k \<in> K"
  shows "\<exists>r kb'. resolve_with_discovery (Suc (card K)) (Suc (card K)) P k kb = Some (r, kb')"
proof -
  have "kb_inv kb" using kb_reach_inv [OF assms(3)] by blast
  moreover have "card (K - kb_in_progress kb) < Suc (card K)"
    using assms(1) by (simp add: card_mono less_Suc_eq_le)
  ultimately show ?thesis using discovery_returns [OF assms(1,2)] assms(4) by fastforce
qed

lemma demo_discovers: "c \<in> {0, 1, 2, 3, 9} \<Longrightarrow> set (fst (demo_provider c) c p) \<subseteq> {0, 1, 2, 3, 9}"
  by (auto simp: demo_provider_def demo_deps_def)

theorem discovery_terminates_witness:
  "\<exists>r kb'. resolve_with_discovery 6 6 demo_provider 3 empty_keyed = Some (r, kb')"
  using discovery_terminates [OF _ demo_discovers reach_empty, of 3]
  by (simp add: eval_nat_numeral del: resolve_with_discovery.simps)

text \<open>
  Discovery records an edge only for a key it resolves itself: when every key that
  \<open>discover_fn\<close> returns is already resolved, the node is committed with no dependencies, so
  its work receives none of those results.
\<close>

theorem discovery_omits_resolved_dependencies:
  assumes "kb_inv kb" "kb_resolved kb k = None" "k \<notin> kb_in_progress kb"
    "provider k = (discover, bld)" "\<forall>c\<in>set (discover k (is_resolved kb)). is_resolved kb c"
    "bld k = (success, name, work)"
  shows "\<exists>i kb'. resolve_with_discovery (Suc n) (Suc m) provider k kb = Some ((success, Some i), kb') \<and>
    kb_resolved kb' k = Some i \<and> deps_of (kb_edges kb') i = []"
proof -
  have r: "is_resolved (enter k kb) = is_resolved kb" by (rule ext) (simp add: is_resolved_def enter_def)
  then have "filter (\<lambda>c. \<not> is_resolved (enter k kb) c) (discover k (is_resolved (enter k kb))) = []"
    using assms(5) by (simp add: filter_empty_conv)
  then have b: "discover_loop (Suc m) (resolve_with_discovery n (Suc m) provider) discover bld k (enter k kb)
      = Some (bld k, enter k kb)" by (simp add: Let_def ok_def success_def)
  obtain i kb' where c: "commit k name work [] (leave k (enter k kb)) = (i, kb')" by fastforce
  have l: "leave k (enter k kb) = kb" using assms(3) by (simp add: leave_def enter_def)
  note m = commit_inv [OF assms(1-3) _ c [unfolded l]]
  have "resolve_with_discovery (Suc n) (Suc m) provider k kb = Some ((success, Some i), kb')"
    using assms(2-4,6) b c by (simp add: resolve_with_def ok_def success_def enter_def del: discover_loop.simps)
  then show ?thesis using m(3,5) by simp
qed

definition demo_mid :: "(nat, int) keyed_builder" where
  "demo_mid = \<lparr>kb_builder = \<lparr>gb_nodes = replicate 2 \<lparr>pn_name = ''n'', pn_work = demo_work\<rparr>,
       gb_edges = [\<lparr>pe_node = 1, pe_dependency = 0\<rparr>]\<rparr>,
     kb_resolved = [0 \<mapsto> 0, 1 \<mapsto> 1], kb_in_progress = {}, kb_frames = []\<rparr>"

lemma demo_mid_resolve: "resolve 2 demo_resolvers 1 empty_keyed = Some ((success, Some 1), demo_mid)"
  by (simp add: eval_nat_numeral demo_simps demo_mid_def)

theorem discovery_omits_resolved_dependencies_witness:
  "fst (demo_provider 2) 2 (is_resolved demo_mid) = [0] \<and>
   (\<exists>i kb'. resolve_with_discovery 1 1 demo_provider 2 demo_mid = Some ((success, Some i), kb') \<and>
    kb_resolved kb' 2 = Some i \<and> deps_of (kb_edges kb') i = [])"
proof -
  have "kb_inv demo_mid" using kb_reach_inv [OF reach_resolve [OF reach_empty demo_mid_resolve]] by blast
  moreover have "kb_resolved demo_mid 2 = None" "2 \<notin> kb_in_progress demo_mid"
      "\<forall>c\<in>set (demo_deps 2). is_resolved demo_mid c" "demo_deps 2 = [0]"
    by (simp_all add: demo_mid_def is_resolved_def demo_deps_def)
  ultimately show ?thesis
    using discovery_omits_resolved_dependencies
      [of demo_mid 2 demo_provider "\<lambda>k p. demo_deps k" "\<lambda>k. (success, ''n'', demo_work)" "''n''" demo_work 0 0]
    by (simp add: demo_provider_def del: resolve_with_discovery.simps)
qed


end
