(* ===== verification/Graph_Executor.thy ===== *)
theory Graph_Executor
  imports Graph_Builder
begin

text \<open>
  The executor of \<open>graph_executor.cpp\<close>. The calling thread pushes one task per node in
  topological order; a pushed task may start once the futures of its dependencies are ready
  (the contract of \<open>threaded_callback_queue::push_dependent\<close>) and the workers run eligible
  tasks in any order. \<open>exec_step\<close> has one rule per atomic action, so a theorem about all
  runs of \<open>exec_step\<close> is a theorem about every schedule and every number of threads.
  A node's work is a function of its inputs, as the class comment asks of it.
\<close>

section \<open>State and steps\<close>

datatype 'v task_state = Waiting | Throwing string | Done "'v any"

record 'v exec_state =
  pushed :: nat
  task :: "node_id \<Rightarrow> 'v task_state"
  node_failed :: "node_id \<Rightarrow> bool"
  failure_rec :: "(node_id \<times> string) option"

definition init_exec :: "'v exec_state" where
  "init_exec = \<lparr>pushed = 0, task = (\<lambda>_. Waiting), node_failed = (\<lambda>_. False), failure_rec = None\<rparr>"

definition deps_at :: "'v dependency_graph \<Rightarrow> node_id \<Rightarrow> node_id list" where
  "deps_at g i = dependencies (node_at g i)"

definition is_pushed :: "'v dependency_graph \<Rightarrow> 'v exec_state \<Rightarrow> node_id \<Rightarrow> bool" where
  "is_pushed g s i \<longleftrightarrow> i \<in> set (take (pushed s) (topological_order g))"

fun is_done :: "'v task_state \<Rightarrow> bool" where
  "is_done (Done r) = True"
| "is_done _ = False"

fun future_get :: "'v task_state \<Rightarrow> 'v any" where
  "future_get (Done r) = r"
| "future_get _ = None"

text \<open>A task is eligible when it was pushed, did not start, and its inputs are ready.\<close>

definition eligible :: "'v dependency_graph \<Rightarrow> 'v exec_state \<Rightarrow> node_id \<Rightarrow> bool" where
  "eligible g s i \<longleftrightarrow> is_pushed g s i \<and> task s i = Waiting \<and>
     (\<forall>d\<in>set (deps_at g i). is_done (task s d))"

definition upstream_failed :: "'v dependency_graph \<Rightarrow> 'v exec_state \<Rightarrow> node_id \<Rightarrow> bool" where
  "upstream_failed g s i \<longleftrightarrow> list_ex (node_failed s) (deps_at g i)"

definition inputs :: "'v dependency_graph \<Rightarrow> 'v exec_state \<Rightarrow> node_id \<Rightarrow> 'v any list" where
  "inputs g s i = map (\<lambda>d. future_get (task s d)) (deps_at g i)"

definition exn_message :: "'v dependency_graph \<Rightarrow> node_id \<Rightarrow> exn \<Rightarrow> string" where
  "exn_message g i e =
     (case e of Std_exception what \<Rightarrow> what
      | Other_exception \<Rightarrow> ''unknown exception in node '' @ [CHR 0x22] @ nd_name (node_at g i) @ [CHR 0x22])"

definition record_failure :: "node_id \<Rightarrow> string \<Rightarrow> 'v exec_state \<Rightarrow> 'v exec_state" where
  "record_failure i m s =
     (case failure_rec s of None \<Rightarrow> s\<lparr>failure_rec := Some (i, m)\<rparr> | Some _ \<Rightarrow> s)"

definition finish :: "node_id \<Rightarrow> 'v any \<Rightarrow> 'v exec_state \<Rightarrow> 'v exec_state" where
  "finish i r s = s\<lparr>task := (task s)(i := Done r)\<rparr>"

definition mark_failed :: "node_id \<Rightarrow> 'v exec_state \<Rightarrow> 'v exec_state" where
  "mark_failed i s = s\<lparr>node_failed := (node_failed s)(i := True)\<rparr>"

inductive exec_step :: "'v dependency_graph \<Rightarrow> 'v exec_state \<Rightarrow> 'v exec_state \<Rightarrow> bool" for g where
  push_task: "pushed s < length (topological_order g) \<Longrightarrow> exec_step g s (s\<lparr>pushed := Suc (pushed s)\<rparr>)"
| skip_task: "eligible g s i \<Longrightarrow> upstream_failed g s i \<Longrightarrow> exec_step g s (finish i None (mark_failed i s))"
| return_task: "eligible g s i \<Longrightarrow> \<not> upstream_failed g s i \<Longrightarrow>
    nd_work (node_at g i) (inputs g s i) = Inr r \<Longrightarrow> exec_step g s (finish i r s)"
| throw_task: "eligible g s i \<Longrightarrow> \<not> upstream_failed g s i \<Longrightarrow>
    nd_work (node_at g i) (inputs g s i) = Inl e \<Longrightarrow>
    exec_step g s ((mark_failed i s)\<lparr>task := (task s)(i := Throwing (exn_message g i e))\<rparr>)"
| record_exn: "task s i = Throwing m \<Longrightarrow> exec_step g s (finish i None (record_failure i m s))"

inductive_cases exec_stepE: "exec_step g s t"

inductive exec_reach :: "'v dependency_graph \<Rightarrow> 'v exec_state \<Rightarrow> bool" for g where
  reach_init: "exec_reach g init_exec"
| reach_step: "exec_reach g s \<Longrightarrow> exec_step g s t \<Longrightarrow> exec_reach g t"

text \<open>\<open>queue.wait(futures)\<close> returns when every future is ready; then the results are read out.\<close>

definition all_ready :: "'v dependency_graph \<Rightarrow> 'v exec_state \<Rightarrow> bool" where
  "all_ready g s \<longleftrightarrow> pushed s = length (topological_order g) \<and>
     (\<forall>i<node_count g. is_done (task s i))"

datatype graph_execution_status_code = Exec_ok | Node_failed

record graph_execution_status =
  ex_code :: graph_execution_status_code
  failed_node :: node_id
  ex_message :: string

definition exec_success :: graph_execution_status where
  "exec_success = \<lparr>ex_code = Exec_ok, failed_node = 0, ex_message = ''''\<rparr>"

definition exec_failure :: "node_id \<Rightarrow> string \<Rightarrow> graph_execution_status" where
  "exec_failure i m = \<lparr>ex_code = Node_failed, failed_node = i, ex_message = m\<rparr>"

definition run_status :: "'v exec_state \<Rightarrow> graph_execution_status" where
  "run_status s = (case failure_rec s of None \<Rightarrow> exec_success | Some (i, m) \<Rightarrow> exec_failure i m)"

definition out_results :: "'v dependency_graph \<Rightarrow> 'v exec_state \<Rightarrow> node_id \<rightharpoonup> 'v any" where
  "out_results g s = (\<lambda>i. if i < node_count g then Some (future_get (task s i)) else None)"

text \<open>
  The run of a single worker thread, the default of \<open>graph_executor_options\<close>: the tasks
  run one after the other in the order they were pushed.
\<close>

definition run_task :: "'v dependency_graph \<Rightarrow> 'v exec_state \<Rightarrow> node_id \<Rightarrow> 'v exec_state" where
  "run_task g s i =
     (if upstream_failed g s i then finish i None (mark_failed i s)
      else case nd_work (node_at g i) (inputs g s i) of
             Inr r \<Rightarrow> finish i r s
           | Inl e \<Rightarrow> finish i None (record_failure i (exn_message g i e) (mark_failed i s)))"

definition run :: "'v dependency_graph \<Rightarrow> graph_execution_status \<times> (node_id \<rightharpoonup> 'v any)" where
  "run g =
     (let s = foldl (run_task g) (init_exec\<lparr>pushed := length (topological_order g)\<rparr>)
                (topological_order g)
      in (run_status s, out_results g s))"

section \<open>The reference evaluation\<close>

datatype 'v outcome = Value "'v any" | Threw string | Skipped

fun failed :: "'v outcome \<Rightarrow> bool" where
  "failed (Value r) = False"
| "failed _ = True"

fun outcome_value :: "'v outcome \<Rightarrow> 'v any" where
  "outcome_value (Value r) = r"
| "outcome_value _ = None"

definition node_rule :: "'v dependency_graph \<Rightarrow> node_id \<Rightarrow> 'v outcome list \<Rightarrow> 'v outcome" where
  "node_rule g i os =
     (if list_ex failed os then Skipped
      else case nd_work (node_at g i) (map outcome_value os) of
             Inr r \<Rightarrow> Value r | Inl e \<Rightarrow> Threw (exn_message g i e))"

definition outcomes :: "'v dependency_graph \<Rightarrow> node_id \<Rightarrow> 'v outcome" where
  "outcomes g = fold (\<lambda>i m. m(i := node_rule g i (map m (deps_at g i)))) (topological_order g) (\<lambda>_. Skipped)"

lemma fold_upd_outside:
  "i \<notin> set xs \<Longrightarrow> fold (\<lambda>i m. m(i := F i m)) xs m i = m i"
  by (induction xs arbitrary: m) auto

lemma fold_upd_rule:
  assumes "distinct (ys @ xs)" "\<forall>i<length xs. set (deps (xs ! i)) \<subseteq> set ys \<union> set (take i xs)"
    "\<forall>v\<in>set ys. m v = R v (map m (deps v)) \<and> set (deps v) \<subseteq> set ys" "v \<in> set ys \<union> set xs"
  defines "f \<equiv> fold (\<lambda>i m. m(i := R i (map m (deps i)))) xs m"
  shows "f v = R v (map f (deps v))"
  using assms(1-4) unfolding f_def
proof (induction xs arbitrary: ys m)
  case Nil
  then show ?case by simp
next
  case (Cons x xs)
  let ?m = "m(x := R x (map m (deps x)))"
  have dx: "set (deps x) \<subseteq> set ys" using Cons.prems(2) [rule_format, of 0] by simp
  have nx: "x \<notin> set ys" using Cons.prems(1) by auto
  have d: "\<forall>i<length xs. set (deps (xs ! i)) \<subseteq> set (ys @ [x]) \<union> set (take i xs)"
    using Cons.prems(2) by fastforce
  have r: "?m u = R u (map ?m (deps u)) \<and> set (deps u) \<subseteq> set (ys @ [x])" if "u \<in> set (ys @ [x])" for u
  proof -
    have sub: "set (deps u) \<subseteq> set ys" using that Cons.prems(3) dx by auto
    then have eq: "map ?m (deps u) = map m (deps u)" using nx by auto
    have "?m u = R u (map m (deps u))" using that Cons.prems(3) nx by (cases "u = x") auto
    with sub eq show ?thesis by (simp del: fun_upd_apply map_eq_conv) blast
  qed
  have di: "distinct ((ys @ [x]) @ xs)" and v: "v \<in> set (ys @ [x]) \<union> set xs"
    using Cons.prems(1,4) by auto
  show ?case unfolding fold_simps using Cons.IH [OF di d _ v] r by blast
qed

lemma outcomes_rule:
  assumes "wf_graph g" "v < node_count g"
  shows "outcomes g v = node_rule g v (map (outcomes g) (deps_at g v))"
  unfolding outcomes_def
  using assms by (intro fold_upd_rule [where ys = "[]"])
    (auto simp: wf_graph_def topo_sorted_def deps_at_def)

definition depends_rel :: "'v dependency_graph \<Rightarrow> (node_id \<times> node_id) set" where
  "depends_rel g = {(d, v). v < node_count g \<and> d \<in> set (deps_at g v)}"

lemma deps_lt: "wf_graph g \<Longrightarrow> v < node_count g \<Longrightarrow> d \<in> set (deps_at g v) \<Longrightarrow> d < node_count g"
  using built.dag_deps_in_range [of g v] by (auto simp: deps_at_def)

lemma outcomes_skipped_iff:
  assumes wf: "wf_graph g" and v: "v < node_count g"
  shows "outcomes g v = Skipped \<longleftrightarrow> (\<exists>u m. (u, v) \<in> (depends_rel g)\<^sup>+ \<and> outcomes g u = Threw m)"
  using wf v
proof (rule built.dag_induct)
  fix v assume v: "v < node_count g"
    and "\<And>d. d \<in> set (dependencies (node_at g v)) \<Longrightarrow>
      outcomes g d = Skipped \<longleftrightarrow> (\<exists>u m. (u, d) \<in> (depends_rel g)\<^sup>+ \<and> outcomes g u = Threw m)"
  then have IH: "\<And>d. (d, v) \<in> depends_rel g \<Longrightarrow>
      outcomes g d = Skipped \<longleftrightarrow> (\<exists>u m. (u, d) \<in> (depends_rel g)\<^sup>+ \<and> outcomes g u = Threw m)"
    by (auto simp: depends_rel_def deps_at_def)
  have "outcomes g v = Skipped \<longleftrightarrow> (\<exists>d. (d, v) \<in> depends_rel g \<and> failed (outcomes g d))"
    using v outcomes_rule [OF wf v]
    by (auto simp: node_rule_def depends_rel_def list_ex_iff split: sum.splits)
  also have "\<dots> \<longleftrightarrow> (\<exists>d. (d, v) \<in> depends_rel g \<and>
      (outcomes g d = Skipped \<or> (\<exists>m. outcomes g d = Threw m)))"
    by (metis failed.elims(2) failed.simps(2,3))
  also have "\<dots> \<longleftrightarrow> (\<exists>u m. (u, v) \<in> (depends_rel g)\<^sup>+ \<and> outcomes g u = Threw m)"
    using IH by (meson trancl.simps)
  finally show "outcomes g v = Skipped \<longleftrightarrow>
      (\<exists>u m. (u, v) \<in> (depends_rel g)\<^sup>+ \<and> outcomes g u = Threw m)" .
qed

section \<open>Every schedule computes the reference outcomes\<close>

definition started_ok :: "'v dependency_graph \<Rightarrow> 'v exec_state \<Rightarrow> bool" where
  "started_ok g s \<longleftrightarrow> (\<forall>i. task s i \<noteq> Waiting \<longrightarrow> i < node_count g)"

definition results_ok :: "'v dependency_graph \<Rightarrow> 'v exec_state \<Rightarrow> bool" where
  "results_ok g s \<longleftrightarrow>
     (\<forall>i r. task s i = Done r \<longrightarrow> r = outcome_value (outcomes g i)) \<and>
     (\<forall>i m. task s i = Throwing m \<longrightarrow> outcomes g i = Threw m) \<and>
     (\<forall>i. node_failed s i \<longleftrightarrow> task s i \<noteq> Waiting \<and> failed (outcomes g i))"

definition failure_ok :: "'v dependency_graph \<Rightarrow> 'v exec_state \<Rightarrow> bool" where
  "failure_ok g s \<longleftrightarrow>
     (case failure_rec s of
        None \<Rightarrow> (\<forall>i m. is_done (task s i) \<longrightarrow> outcomes g i \<noteq> Threw m)
      | Some (i, m) \<Rightarrow> i < node_count g \<and> outcomes g i = Threw m)"

definition exec_inv :: "'v dependency_graph \<Rightarrow> 'v exec_state \<Rightarrow> bool" where
  "exec_inv g s \<longleftrightarrow> pushed s \<le> length (topological_order g) \<and>
     started_ok g s \<and> results_ok g s \<and> failure_ok g s"

lemmas exec_inv_defs = exec_inv_def started_ok_def results_ok_def failure_ok_def

lemma exec_inv_init: "exec_inv g init_exec"
  by (simp add: exec_inv_defs init_exec_def)

lemma eligible_lt: "wf_graph g \<Longrightarrow> eligible g s i \<Longrightarrow> i < node_count g"
  using set_take_subset by (fastforce simp: eligible_def is_pushed_def wf_graph_def)

lemma eligible_Waiting: "eligible g s i \<Longrightarrow> task s i = Waiting"
  by (simp add: eligible_def)

lemma is_done_cases: "is_done t \<Longrightarrow> \<exists>r. t = Done r"
  by (cases t) auto

text \<open>What an eligible task reads is what the reference evaluation gives it.\<close>

lemma eligible_reads:
  assumes "exec_inv g s" "eligible g s i"
  shows "upstream_failed g s i \<longleftrightarrow> list_ex failed (map (outcomes g) (deps_at g i))"
    and "inputs g s i = map outcome_value (map (outcomes g) (deps_at g i))"
proof -
  have d: "node_failed s d = failed (outcomes g d) \<and>
      future_get (task s d) = outcome_value (outcomes g d)" if "d \<in> set (deps_at g i)" for d
  proof -
    have "is_done (task s d)" using assms(2) that by (simp add: eligible_def)
    then obtain r where "task s d = Done r" using is_done_cases by blast
    then show ?thesis using assms(1) by (simp add: exec_inv_def results_ok_def)
  qed
  then show "upstream_failed g s i \<longleftrightarrow> list_ex failed (map (outcomes g) (deps_at g i))"
    by (auto simp: upstream_failed_def list_ex_iff)
  show "inputs g s i = map outcome_value (map (outcomes g) (deps_at g i))"
    using d by (simp add: inputs_def)
qed

lemma eligible_outcome:
  assumes "wf_graph g" "exec_inv g s" "eligible g s i"
  shows "outcomes g i =
    (if upstream_failed g s i then Skipped
     else case nd_work (node_at g i) (inputs g s i) of
            Inr r \<Rightarrow> Value r | Inl e \<Rightarrow> Threw (exn_message g i e))"
  using outcomes_rule [OF assms(1) eligible_lt [OF assms(1,3)]] eligible_reads [OF assms(2,3)]
  by (simp add: node_rule_def)

lemmas step_defs = finish_def mark_failed_def record_failure_def

lemma exec_step_inv:
  assumes wf: "wf_graph g" and inv: "exec_inv g s" and step: "exec_step g s t"
  shows "exec_inv g t"
  using step
proof cases
  case push_task
  then show ?thesis using inv by (auto simp: exec_inv_defs split: option.splits)
next
  case (skip_task i)
  then have "outcomes g i = Skipped" using eligible_outcome [OF wf inv] by auto
  then show ?thesis
    using inv skip_task eligible_lt [OF wf] by (auto simp: exec_inv_defs step_defs split: option.splits)
next
  case (return_task i r)
  then have "outcomes g i = Value r" using eligible_outcome [OF wf inv] by auto
  moreover have "\<not> node_failed s i" using inv return_task(2) by (auto simp: exec_inv_defs eligible_def)
  ultimately show ?thesis
    using inv return_task eligible_lt [OF wf] by (auto simp: exec_inv_defs step_defs split: option.splits)
next
  case (throw_task i e)
  then have "outcomes g i = Threw (exn_message g i e)" using eligible_outcome [OF wf inv] by auto
  then show ?thesis
    using inv throw_task eligible_lt [OF wf] by (auto simp: exec_inv_defs step_defs split: option.splits)
next
  case (record_exn i m)
  then have "outcomes g i = Threw m" "i < node_count g" using inv by (auto simp: exec_inv_defs)
  then show ?thesis
    using inv record_exn by (auto simp: exec_inv_defs step_defs split: option.splits)
qed

lemma exec_reach_inv:
  assumes "wf_graph g" "exec_reach g s"
  shows "exec_inv g s"
  using assms(2) by induction (auto intro: exec_inv_init exec_step_inv [OF assms(1)])

section \<open>Progress and termination\<close>

lemma exec_progress:
  assumes wf: "wf_graph g" and inv: "exec_inv g s" and stuck: "\<nexists>t. exec_step g s t"
  shows "all_ready g s"
proof -
  have p: "pushed s = length (topological_order g)"
    using inv stuck push_task [of s g] by (force simp: exec_inv_defs)
  have "is_done (task s v)" if "v < node_count g" for v
    using wf that
  proof (rule built.dag_induct)
    fix v assume v: "v < node_count g"
      and d: "\<And>d. d \<in> set (dependencies (node_at g v)) \<Longrightarrow> is_done (task s d)"
    show "is_done (task s v)"
    proof (cases "task s v")
      case Waiting
      then have e: "eligible g s v"
        using v d p wf by (auto simp: eligible_def is_pushed_def deps_at_def wf_graph_def)
      show ?thesis
        using stuck skip_task [OF e] return_task [OF e] throw_task [OF e]
        by (cases "nd_work (node_at g v) (inputs g s v)") blast+
    next
      case (Throwing m)
      then show ?thesis using stuck record_exn by blast
    qed simp
  qed
  with p show ?thesis by (simp add: all_ready_def)
qed

fun task_weight :: "'v task_state \<Rightarrow> nat" where
  "task_weight Waiting = 2"
| "task_weight (Throwing m) = 1"
| "task_weight (Done r) = 0"

definition exec_weight :: "'v dependency_graph \<Rightarrow> 'v exec_state \<Rightarrow> nat" where
  "exec_weight g s =
     (length (topological_order g) - pushed s) + (\<Sum>i<node_count g. task_weight (task s i))"

lemma sum_task_weight_upd:
  fixes i n :: nat
  assumes "i < n" "task_weight t < task_weight (f i)"
  shows "(\<Sum>j<n. task_weight ((f(i := t)) j)) < (\<Sum>j<n. task_weight (f j))"
  using assms by (intro sum_strict_mono_ex1) (auto intro!: bexI [of _ i])

lemma exec_weight_upd:
  assumes "i < node_count g" "task_weight x < task_weight (task s i)" "pushed t = pushed s"
    "task t = (task s)(i := x)"
  shows "exec_weight g t < exec_weight g s"
  using sum_task_weight_upd [where f = "task s", OF assms(1,2)] assms(3,4) by (simp add: exec_weight_def)

lemma exec_step_weight:
  assumes wf: "wf_graph g" and inv: "exec_inv g s" and step: "exec_step g s t"
  shows "exec_weight g t < exec_weight g s"
  using step
proof cases
  case push_task
  then show ?thesis by (simp add: exec_weight_def)
next
  case (record_exn i m)
  then show ?thesis
    using inv by (intro exec_weight_upd [of i]) (auto simp: exec_inv_defs step_defs split: option.splits)
qed (auto intro!: exec_weight_upd simp: step_defs dest: eligible_lt [OF wf] eligible_Waiting)

lemma exec_run_bound:
  assumes wf: "wf_graph g" and run: "(exec_step g ^^ k) init_exec s"
  shows "exec_reach g s \<and> k + exec_weight g s \<le> 3 * node_count g"
  using run
proof (induction k arbitrary: s)
  case 0
  have "length (topological_order g) = node_count g"
    using wf by (metis card_lessThan distinct_card wf_graph_def)
  then have "exec_weight g init_exec \<le> 3 * node_count g"
    by (simp add: exec_weight_def init_exec_def)
  then show ?case using 0 by (auto intro: reach_init)
next
  case (Suc k)
  then obtain u where u: "(exec_step g ^^ k) init_exec u" "exec_step g u s" by auto
  then show ?case
    using Suc.IH [OF u(1)] exec_step_weight [OF wf exec_reach_inv [OF wf] u(2)]
    by (auto intro: reach_step)
qed

section \<open>The single-threaded run\<close>

lemma run_task_reach:
  assumes r: "exec_reach g s" and e: "eligible g s i"
  shows "exec_reach g (run_task g s i)"
proof (cases "upstream_failed g s i")
  case True
  then show ?thesis using reach_step [OF r skip_task [OF e]] by (simp add: run_task_def)
next
  case False
  show ?thesis
  proof (cases "nd_work (node_at g i) (inputs g s i)")
    case (Inr x)
    then show ?thesis using False reach_step [OF r return_task [OF e]] by (simp add: run_task_def)
  next
    case (Inl x)
    let ?m = "exn_message g i x"
    let ?u = "(mark_failed i s)\<lparr>task := (task s)(i := Throwing ?m)\<rparr>"
    have "exec_reach g (finish i None (record_failure i ?m ?u))"
      using reach_step [OF reach_step [OF r throw_task [OF e False Inl]] record_exn [of ?u i]] by simp
    moreover have "finish i None (record_failure i ?m ?u) = run_task g s i"
      using False Inl by (simp add: run_task_def step_defs split: option.split)
    ultimately show ?thesis by simp
  qed
qed

lemma run_task_frame:
  "pushed (run_task g s i) = pushed s" "\<exists>r. task (run_task g s i) = (task s)(i := Done r)"
  by (auto simp: run_task_def step_defs split: sum.splits option.splits)

lemma push_all_reach:
  "k \<le> length (topological_order g) \<Longrightarrow> exec_reach g (init_exec\<lparr>pushed := k\<rparr>)"
proof (induction k)
  case 0
  show ?case using reach_init [of g] by (simp add: init_exec_def)
next
  case (Suc k)
  then show ?case
    using reach_step [OF _ push_task [of "init_exec\<lparr>pushed := k\<rparr>" g]] by simp
qed

lemma run_prefix:
  assumes wf: "wf_graph g" and k: "k \<le> length (topological_order g)"
  defines "s \<equiv> foldl (run_task g) (init_exec\<lparr>pushed := length (topological_order g)\<rparr>)
                 (take k (topological_order g))"
  shows "exec_reach g s \<and> pushed s = length (topological_order g) \<and>
    (\<forall>i\<in>set (take k (topological_order g)). is_done (task s i)) \<and>
    (\<forall>i. i \<notin> set (take k (topological_order g)) \<longrightarrow> task s i = Waiting)"
  using k unfolding s_def
proof (induction k)
  case 0
  then show ?case using push_all_reach [of "length (topological_order g)" g] by (simp add: init_exec_def)
next
  case (Suc k)
  let ?xs = "topological_order g" and ?i = "topological_order g ! k"
  let ?s = "foldl (run_task g) (init_exec\<lparr>pushed := length ?xs\<rparr>) (take k ?xs)"
  have IH: "exec_reach g ?s" "pushed ?s = length ?xs" "\<forall>i\<in>set (take k ?xs). is_done (task ?s i)"
      "\<forall>i. i \<notin> set (take k ?xs) \<longrightarrow> task ?s i = Waiting"
    using Suc by simp_all
  have d: "distinct (take (Suc k) ?xs)" using wf by (simp add: wf_graph_def)
  have ext: "take (Suc k) ?xs = take k ?xs @ [?i]" using Suc.prems by (simp add: take_Suc_conv_app_nth)
  with d have "?i \<notin> set (take k ?xs)" by simp
  moreover have "set (deps_at g ?i) \<subseteq> set (take k ?xs)"
    using wf Suc.prems by (simp add: wf_graph_def topo_sorted_def deps_at_def)
  ultimately have "eligible g ?s ?i"
    using IH(2-4) Suc.prems by (auto simp: eligible_def is_pushed_def)
  then have "exec_reach g (run_task g ?s ?i)" using run_task_reach IH(1) by blast
  moreover obtain r where "task (run_task g ?s ?i) = (task ?s)(?i := Done r)"
    using run_task_frame(2) [of g ?s ?i] by blast
  ultimately show ?case using IH run_task_frame(1) [of g ?s ?i] by (simp add: ext)
qed

lemma run_final:
  assumes wf: "wf_graph g"
  obtains s where "exec_reach g s" "all_ready g s" "run g = (run_status s, out_results g s)"
proof -
  let ?s = "foldl (run_task g) (init_exec\<lparr>pushed := length (topological_order g)\<rparr>) (topological_order g)"
  have "exec_reach g ?s" "all_ready g ?s"
    using run_prefix [OF wf, of "length (topological_order g)"] wf
    by (auto simp: all_ready_def wf_graph_def)
  moreover have "run g = (run_status ?s, out_results g ?s)" by (simp add: run_def Let_def)
  ultimately show thesis using that by blast
qed

section \<open>Properties of the executor\<close>

definition reference_results :: "'v dependency_graph \<Rightarrow> node_id \<rightharpoonup> 'v any" where
  "reference_results g = (\<lambda>i. if i < node_count g then Some (outcome_value (outcomes g i)) else None)"

lemma final_results:
  assumes "wf_graph g" "exec_reach g s" "all_ready g s"
  shows "out_results g s = reference_results g"
proof
  fix i
  show "out_results g s i = reference_results g i"
  proof (cases "i < node_count g")
    case True
    then obtain r where "task s i = Done r" using assms(3) is_done_cases by (auto simp: all_ready_def)
    then show ?thesis
      using exec_reach_inv [OF assms(1,2)] True
      by (simp add: out_results_def reference_results_def exec_inv_def results_ok_def)
  qed (simp add: out_results_def reference_results_def)
qed

lemma final_status:
  assumes "wf_graph g" "exec_reach g s" "all_ready g s"
  shows "ex_code (run_status s) = Exec_ok \<longleftrightarrow> (\<forall>i<node_count g. \<forall>m. outcomes g i \<noteq> Threw m)"
    and "ex_code (run_status s) = Node_failed \<Longrightarrow> failed_node (run_status s) < node_count g \<and>
      outcomes g (failed_node (run_status s)) = Threw (ex_message (run_status s))"
  using exec_reach_inv [OF assms(1,2)] assms(3)
  by (auto simp: run_status_def exec_inv_def failure_ok_def all_ready_def exec_success_def
      exec_failure_def split: option.splits)

text \<open>
  A graph for the witnesses: node 0 throws, node 1 depends on node 0 and on node 2, node 2
  returns a value.
\<close>

definition demo_graph :: "nat dependency_graph" where
  "demo_graph =
     \<lparr>nodes =
        [\<lparr>nd_name = ''bad'', nd_work = (\<lambda>_. Inl (Std_exception ''boom'')), successors = [1], dependencies = []\<rparr>,
         \<lparr>nd_name = ''sum'', nd_work = (\<lambda>xs. Inr (Some 0)), successors = [], dependencies = [0, 2]\<rparr>,
         \<lparr>nd_name = ''two'', nd_work = (\<lambda>_. Inr (Some 2)), successors = [1], dependencies = []\<rparr>],
      topological_order = [0, 2, 1]\<rparr>"

lemma wf_demo_graph: "wf_graph demo_graph"
  by (auto simp: wf_graph_def demo_graph_def node_count_def node_at_def topo_sorted_def
      All_less_Suc numeral_3_eq_3 numeral_2_eq_2 less_Suc_eq)

lemma node_count_demo: "node_count demo_graph = 3"
  by (simp add: demo_graph_def node_count_def)

lemma outcomes_demo: "outcomes demo_graph 0 = Threw ''boom''"
  by (simp add: outcomes_def demo_graph_def node_rule_def deps_at_def node_at_def exn_message_def)

lemma demo_final:
  obtains s where "exec_reach demo_graph s" "all_ready demo_graph s"
  using run_final [OF wf_demo_graph] by blast

text \<open>
  C3: for every schedule of the worker threads, a completed run gives each node the result
  the reference evaluation gives it, so the results do not depend on the interleaving.
\<close>

theorem run_results_schedule_independent:
  assumes "wf_graph g" "exec_reach g s" "all_ready g s" "exec_reach g s'" "all_ready g s'"
  shows "out_results g s = out_results g s' \<and> out_results g s = snd (run g) \<and>
    out_results g s = reference_results g"
proof -
  obtain u where "exec_reach g u" "all_ready g u" "run g = (run_status u, out_results g u)"
    using run_final [OF assms(1)] by blast
  then show ?thesis using assms final_results by (metis snd_conv)
qed

theorem run_results_schedule_independent_witness:
  "\<exists>s. wf_graph demo_graph \<and> exec_reach demo_graph s \<and> all_ready demo_graph s \<and>
     out_results demo_graph s = snd (run demo_graph)"
proof -
  obtain s where s: "exec_reach demo_graph s" "all_ready demo_graph s" by (rule demo_final)
  then show ?thesis
    using run_results_schedule_independent [OF wf_demo_graph s s] wf_demo_graph by blast
qed

text \<open>
  C4: a completed run reports success exactly when no node threw; otherwise it names a node
  that threw and carries that node's message, whichever schedule was taken.
\<close>

theorem run_status_sound:
  assumes "wf_graph g" "exec_reach g s" "all_ready g s"
  shows "(ex_code (run_status s) = Exec_ok \<longleftrightarrow> (\<forall>i<node_count g. \<forall>m. outcomes g i \<noteq> Threw m)) \<and>
    (ex_code (run_status s) = Node_failed \<longrightarrow> failed_node (run_status s) < node_count g \<and>
       outcomes g (failed_node (run_status s)) = Threw (ex_message (run_status s)))"
  using final_status [OF assms] by blast

theorem run_status_sound_witness:
  "\<exists>s. wf_graph demo_graph \<and> exec_reach demo_graph s \<and> all_ready demo_graph s \<and>
     ex_code (run_status s) \<noteq> Exec_ok"
proof -
  obtain s where s: "exec_reach demo_graph s" "all_ready demo_graph s" by (rule demo_final)
  then show ?thesis
    using run_status_sound [OF wf_demo_graph s] wf_demo_graph outcomes_demo node_count_demo by force
qed

text \<open>
  C5: after a completed run a node is skipped exactly when a node it depends on, directly or
  transitively, threw; a skipped node has an empty result.
\<close>

theorem run_skips_exactly_dependents:
  assumes "wf_graph g" "exec_reach g s" "all_ready g s" "v < node_count g"
  shows "(outcomes g v = Skipped \<longleftrightarrow> (\<exists>u m. (u, v) \<in> (depends_rel g)\<^sup>+ \<and> outcomes g u = Threw m)) \<and>
    (node_failed s v \<longleftrightarrow> failed (outcomes g v)) \<and>
    (failed (outcomes g v) \<longrightarrow> out_results g s v = Some None)"
proof -
  have "is_done (task s v)" using assms by (simp add: all_ready_def)
  then have "node_failed s v \<longleftrightarrow> failed (outcomes g v)"
    using exec_reach_inv [OF assms(1,2)] is_done_cases by (fastforce simp: exec_inv_def results_ok_def)
  moreover have "failed (outcomes g v) \<longrightarrow> out_results g s v = Some None"
    using final_results [OF assms(1-3)] assms(4)
    by (cases "outcomes g v") (simp_all add: reference_results_def)
  ultimately show ?thesis using outcomes_skipped_iff [OF assms(1,4)] by blast
qed

theorem run_skips_exactly_dependents_witness:
  "\<exists>s. wf_graph demo_graph \<and> exec_reach demo_graph s \<and> all_ready demo_graph s \<and>
     1 < node_count demo_graph \<and> outcomes demo_graph 1 = Skipped"
proof -
  obtain s where s: "exec_reach demo_graph s" "all_ready demo_graph s" by (rule demo_final)
  have "(0, 1) \<in> depends_rel demo_graph"
    by (simp add: depends_rel_def demo_graph_def node_count_def deps_at_def node_at_def)
  then have "(0, 1) \<in> (depends_rel demo_graph)\<^sup>+" by (rule r_into_trancl)
  moreover have v: "1 < node_count demo_graph" by (simp add: node_count_demo)
  ultimately show ?thesis
    using run_skips_exactly_dependents [OF wf_demo_graph s v] wf_demo_graph s outcomes_demo by blast
qed

text \<open>
  C6: no schedule runs forever and none deadlocks: a run has at most three steps per node,
  and a run that cannot continue has finished every node.
\<close>

theorem run_terminates_without_deadlock:
  assumes "wf_graph g" "(exec_step g ^^ k) init_exec s"
  shows "k \<le> 3 * node_count g \<and> ((\<nexists>t. exec_step g s t) \<longrightarrow> all_ready g s)"
  using exec_run_bound [OF assms] exec_progress [OF assms(1)] exec_reach_inv [OF assms(1)] by auto

theorem run_terminates_without_deadlock_witness:
  "wf_graph demo_graph \<and> (exec_step demo_graph ^^ 0) init_exec init_exec \<and> 0 \<le> 3 * node_count demo_graph"
  using run_terminates_without_deadlock [OF wf_demo_graph, of 0 init_exec] wf_demo_graph by simp

end
