(* ===== verification/GPU_Config.thy ===== *)
theory GPU_Config
  imports Prelude
begin

text \<open>
  Size classes of the GPU caching allocator (\<open>Library/Memory/gpu/caching_allocator_config.h\<close>),
  its statistics record (\<open>profiler/unified_memory_stats\<close>), the bounded history ring and the
  snapshot builders (\<open>profiler/gpu_memory_snapshot.h\<close>).
\<close>

section \<open>Size classes\<close>

definition kMinBlockSize :: nat where "kMinBlockSize = 512"
definition kSmallSize :: nat where "kSmallSize = 1048576"
definition kSmallBuffer :: nat where "kSmallBuffer = 2097152"
definition kMinLargeAlloc :: nat where "kMinLargeAlloc = 10485760"
definition kLargeBuffer :: nat where "kLargeBuffer = 20971520"
definition kRoundLarge :: nat where "kRoundLarge = 2097152"

lemmas config_defs [op_simps] =
  kMinBlockSize_def kSmallSize_def kSmallBuffer_def kMinLargeAlloc_def kLargeBuffer_def kRoundLarge_def

text \<open>\<open>unit * ((size + unit - 1) / unit)\<close> in \<open>size_t\<close>, the rounding both functions use.\<close>

definition round_to :: "nat \<Rightarrow> nat \<Rightarrow> nat" where
  "round_to unit sz = size_mul unit (size_sub (size_add sz unit) 1 div unit)"

definition round_request_size :: "nat \<Rightarrow> nat" where
  "round_request_size sz =
     (if sz < kMinBlockSize then kMinBlockSize else round_to kMinBlockSize sz)"

definition segment_size_for :: "nat \<Rightarrow> nat" where
  "segment_size_for sz =
     (if sz \<le> kSmallSize then kSmallBuffer
      else if sz < kMinLargeAlloc then kLargeBuffer
      else round_to kRoundLarge sz)"

lemma round_to_exact:
  assumes "0 < u" "sz + u \<le> 2 ^ 64" "0 < sz"
  shows "round_to u sz = u * ((sz + u - 1) div u)"
proof -
  have a: "size_sub (size_add sz u) 1 = sz + u - 1"
  proof (cases "sz + u = 2 ^ 64")
    case True
    then show ?thesis by (simp add: size_add_def size_sub_def)
  next
    case False
    then show ?thesis using assms by (simp add: size_add_exact size_sub_exact)
  qed
  have "u * ((sz + u - 1) div u) \<le> sz + u - 1" by simp
  also have "\<dots> < 2 ^ 64" using assms by simp
  finally show ?thesis unfolding round_to_def a by (rule size_mul_exact)
qed

lemma round_up_bounds:
  fixes u s :: nat
  assumes "0 < u"
  shows "s \<le> u * ((s + u - 1) div u)" "u * ((s + u - 1) div u) < s + u"
proof -
  have "u * ((s + u - 1) div u) + (s + u - 1) mod u = s + u - 1" by simp
  moreover have "(s + u - 1) mod u < u" using assms by simp
  ultimately show "s \<le> u * ((s + u - 1) div u)" "u * ((s + u - 1) div u) < s + u"
    using assms by linarith+
qed

lemma round_request_size_facts:
  assumes "sz + 512 \<le> 2 ^ 64"
  shows "sz \<le> round_request_size sz" "round_request_size sz < sz + 512 \<or> round_request_size sz = 512"
    "512 dvd round_request_size sz" "0 < round_request_size sz"
proof -
  let ?r = "512 * ((sz + 512 - 1) div 512)"
  have r: "round_request_size sz = (if sz < 512 then 512 else ?r)"
    using round_to_exact [of 512 sz] assms by (simp add: round_request_size_def kMinBlockSize_def)
  note b = round_up_bounds [of 512 sz]
  show "sz \<le> round_request_size sz"
    "round_request_size sz < sz + 512 \<or> round_request_size sz = 512" "0 < round_request_size sz"
    using r b by auto
  show "512 dvd round_request_size sz" using r by simp
qed

lemma segment_size_for_facts:
  assumes "sz + 2097152 \<le> 2 ^ 64"
  shows "sz \<le> segment_size_for sz" "segment_size_for sz < sz + 20971520"
    "2097152 dvd segment_size_for sz" "0 < segment_size_for sz"
proof -
  let ?r = "2097152 * ((sz + 2097152 - 1) div 2097152)"
  have r: "segment_size_for sz =
      (if sz \<le> 1048576 then 2097152 else if sz < 10485760 then 20971520 else ?r)"
    using round_to_exact [of 2097152 sz] assms by (simp add: segment_size_for_def config_defs)
  note b = round_up_bounds [of 2097152 sz]
  show "sz \<le> segment_size_for sz" "segment_size_for sz < sz + 20971520"
    "0 < segment_size_for sz" using r b by auto
  show "2097152 dvd segment_size_for sz" using r by simp
qed

section \<open>Statistics\<close>

record unified_cache_stats =
  cache_hits :: nat
  cache_misses :: nat
  bytes_cached :: nat
  driver_allocations :: nat
  driver_frees :: nat
  cache_evictions :: nat
  peak_bytes_cached :: nat
  cache_blocks :: nat
  successful_allocations :: nat
  successful_frees :: nat
  bytes_allocated :: nat
  peak_bytes_allocated :: nat
  bytes_reserved :: nat
  peak_bytes_reserved :: nat
  inactive_split_bytes :: nat
  num_alloc_retries :: nat
  num_ooms :: nat
  num_sync_all_streams :: nat

definition stats_reset :: unified_cache_stats where
  "stats_reset = \<lparr>cache_hits = 0, cache_misses = 0, bytes_cached = 0, driver_allocations = 0,
     driver_frees = 0, cache_evictions = 0, peak_bytes_cached = 0, cache_blocks = 0,
     successful_allocations = 0, successful_frees = 0, bytes_allocated = 0, peak_bytes_allocated = 0,
     bytes_reserved = 0, peak_bytes_reserved = 0, inactive_split_bytes = 0, num_alloc_retries = 0,
     num_ooms = 0, num_sync_all_streams = 0\<rparr>"

definition reset_peaks :: "unified_cache_stats \<Rightarrow> unified_cache_stats" where
  "reset_peaks st = st\<lparr>peak_bytes_cached := bytes_cached st, peak_bytes_allocated := bytes_allocated st,
     peak_bytes_reserved := bytes_reserved st\<rparr>"

definition bump_peak :: "nat \<Rightarrow> nat \<Rightarrow> nat" where
  "bump_peak peak v = (if v > peak then v else peak)"

section \<open>History ring\<close>

type_synonym addr = nat
type_synonym stream = nat

datatype gpu_memory_trace_action =
  Alloc | Free_requested | Free_completed | Segment_alloc | Segment_free | Oom | Snapshot

record gpu_memory_trace_entry =
  te_action :: gpu_memory_trace_action
  te_address :: addr
  te_size :: nat
  te_total_allocated :: nat
  te_total_reserved :: nat
  te_stream :: int

record gpu_memory_history =
  gh_enabled :: bool
  gh_max_entries :: nat
  gh_entries :: "gpu_memory_trace_entry list"

definition kDefaultMemoryHistoryEntries :: nat where
  "kDefaultMemoryHistoryEntries = 100000"

definition new_history :: gpu_memory_history where
  "new_history = \<lparr>gh_enabled = False, gh_max_entries = kDefaultMemoryHistoryEntries, gh_entries = []\<rparr>"

text \<open>\<open>while (entries_.size() > max_entries_) entries_.pop_front()\<close>.\<close>

fun pop_front_while :: "nat \<Rightarrow> 'a list \<Rightarrow> 'a list" where
  "pop_front_while n [] = []"
| "pop_front_while n (x # xs) = (if length (x # xs) > n then pop_front_while n xs else x # xs)"

definition set_enabled :: "bool \<Rightarrow> nat \<Rightarrow> gpu_memory_history \<Rightarrow> gpu_memory_history" where
  "set_enabled enabled max_entries h =
     (let h1 = h\<lparr>gh_enabled := enabled\<rparr>;
          h2 = (if max_entries \<noteq> 0 then h1\<lparr>gh_max_entries := max_entries\<rparr> else h1)
      in if \<not> enabled then h2\<lparr>gh_entries := []\<rparr>
         else h2\<lparr>gh_entries := pop_front_while (gh_max_entries h2) (gh_entries h2)\<rparr>)"

text \<open>\<open>pop_front\<close> of an empty deque is undefined; \<open>tl\<close> leaves it empty, and the ring
  invariant below (\<open>max_entries_\<close> is never zero) shows that the case does not arise.\<close>

definition record_entry :: "gpu_memory_trace_entry \<Rightarrow> gpu_memory_history \<Rightarrow> gpu_memory_history" where
  "record_entry e h =
     (if \<not> gh_enabled h then h
      else let es = (if length (gh_entries h) \<ge> gh_max_entries h then tl (gh_entries h) else gh_entries h)
           in h\<lparr>gh_entries := es @ [e]\<rparr>)"

definition history_copy :: "gpu_memory_history \<Rightarrow> gpu_memory_trace_entry list" where
  "history_copy h = gh_entries h"

definition history_ok :: "gpu_memory_history \<Rightarrow> bool" where
  "history_ok h \<longleftrightarrow> 0 < gh_max_entries h \<and> length (gh_entries h) \<le> gh_max_entries h \<and>
     (\<not> gh_enabled h \<longrightarrow> gh_entries h = [])"

lemma pop_front_while_eq: "pop_front_while n xs = drop (length xs - n) xs"
  by (induction n xs rule: pop_front_while.induct) (auto simp: Suc_diff_le)

lemma history_ok_new: "history_ok new_history"
  by (simp add: history_ok_def new_history_def kDefaultMemoryHistoryEntries_def)

lemma history_ok_set_enabled: "history_ok h \<Longrightarrow> history_ok (set_enabled b n h)"
  by (auto simp: history_ok_def set_enabled_def Let_def pop_front_while_eq)

lemma history_ok_record: "history_ok h \<Longrightarrow> history_ok (record_entry e h)"
  by (auto simp: history_ok_def record_entry_def Let_def)

text \<open>What the ring holds after a run of \<open>record\<close> calls: the most recent entries, in order.\<close>

lemma record_entries_suffix:
  assumes "history_ok h" "gh_enabled h"
  shows "gh_entries (fold record_entry es h) =
    drop (length (gh_entries h @ es) - gh_max_entries h) (gh_entries h @ es)"
  using assms
proof (induction es arbitrary: h)
  case Nil
  then show ?case by (simp add: history_ok_def)
next
  case (Cons e es)
  let ?h = "record_entry e h" and ?n = "gh_max_entries h"
  have en: "gh_enabled ?h" "gh_max_entries ?h = ?n" using Cons.prems by (simp_all add: record_entry_def Let_def)
  have ok: "history_ok ?h" using Cons.prems(1) by (rule history_ok_record)
  have len: "length (gh_entries h) \<le> ?n" "0 < ?n" using Cons.prems by (simp_all add: history_ok_def)
  have e: "gh_entries ?h = (if length (gh_entries h) = ?n then tl (gh_entries h) else gh_entries h) @ [e]"
    using Cons.prems len by (auto simp: record_entry_def Let_def)
  show ?case
  proof (cases "length (gh_entries h) = ?n")
    case True
    then obtain x xs where x: "gh_entries h = x # xs" using len(2) by (cases "gh_entries h") auto
    then show ?thesis using Cons.IH [OF ok en(1)] e True en(2) by (simp add: Suc_diff_le)
  next
    case False
    then show ?thesis using Cons.IH [OF ok en(1)] e en(2) by simp
  qed
qed

section \<open>Snapshots\<close>

record gpu_memory_block_info =
  bi_address :: addr
  bi_size :: nat
  bi_requested_size :: nat
  bi_allocated :: bool
  bi_active :: bool

record gpu_memory_segment_info =
  si_address :: addr
  si_total_size :: nat
  si_allocated_size :: nat
  si_active_size :: nat
  si_requested_size :: nat
  si_is_small :: bool
  si_is_expandable :: bool
  si_stream :: int
  si_blocks :: "gpu_memory_block_info list"

record gpu_memory_snapshot =
  ms_segments :: "gpu_memory_segment_info list"
  ms_device_trace :: "gpu_memory_trace_entry list"

definition stream_as_int :: "stream \<Rightarrow> int" where
  "stream_as_int st = (if st < 2 ^ 63 then int st else int st - 2 ^ 64)"

definition empty_segment_info :: gpu_memory_segment_info where
  "empty_segment_info = \<lparr>si_address = 0, si_total_size = 0, si_allocated_size = 0, si_active_size = 0,
     si_requested_size = 0, si_is_small = False, si_is_expandable = False, si_stream = 0, si_blocks = []\<rparr>"

text \<open>\<open>std::map::operator[]\<close> followed by an update of the entry: an association list sorted
  by key.\<close>

fun map_modify :: "nat \<Rightarrow> 'v \<Rightarrow> ('v \<Rightarrow> 'v) \<Rightarrow> (nat \<times> 'v) list \<Rightarrow> (nat \<times> 'v) list" where
  "map_modify k d f [] = [(k, f d)]"
| "map_modify k d f ((k', v) # xs) =
     (if k < k' then (k, f d) # (k', v) # xs
      else if k = k' then (k', f v) # xs
      else (k', v) # map_modify k d f xs)"

definition add_to_segment :: "addr \<Rightarrow> nat \<Rightarrow> bool \<Rightarrow> bool \<Rightarrow> int \<Rightarrow> gpu_memory_block_info
    \<Rightarrow> gpu_memory_segment_info \<Rightarrow> gpu_memory_segment_info" where
  "add_to_segment segment_base segment_size is_small is_expandable st b seg0 =
     (let seg = (if si_address seg0 = 0
                 then seg0\<lparr>si_address := segment_base, si_total_size := segment_size,
                           si_is_small := is_small, si_is_expandable := is_expandable, si_stream := st\<rparr>
                 else seg0);
          seg = seg\<lparr>si_blocks := si_blocks seg @ [b]\<rparr>;
          seg = (if bi_allocated b
                 then seg\<lparr>si_allocated_size := size_add (si_allocated_size seg) (bi_size b),
                          si_requested_size := size_add (si_requested_size seg) (bi_requested_size b)\<rparr>
                 else seg)
      in if bi_active b then seg\<lparr>si_active_size := size_add (si_active_size seg) (bi_size b)\<rparr> else seg)"

definition add_snapshot_block :: "(nat \<times> gpu_memory_segment_info) list \<Rightarrow> addr \<Rightarrow> nat \<Rightarrow> bool \<Rightarrow> bool \<Rightarrow> int
    \<Rightarrow> addr \<Rightarrow> nat \<Rightarrow> nat \<Rightarrow> bool \<Rightarrow> bool \<Rightarrow> (nat \<times> gpu_memory_segment_info) list" where
  "add_snapshot_block segments segment_base segment_size is_small is_expandable st
       block_ptr block_size requested_size allocated active =
     map_modify segment_base empty_segment_info
       (add_to_segment segment_base segment_size is_small is_expandable st
          \<lparr>bi_address = block_ptr, bi_size = block_size, bi_requested_size = requested_size,
           bi_allocated = allocated, bi_active = active\<rparr>) segments"

definition finish_segment :: "gpu_memory_segment_info \<Rightarrow> gpu_memory_segment_info" where
  "finish_segment seg0 =
     (let seg = seg0\<lparr>si_blocks := sort_key bi_address (si_blocks seg0)\<rparr>
      in if si_total_size seg = 0
         then seg\<lparr>si_total_size := foldl (\<lambda>t b. size_add t (bi_size b)) 0 (si_blocks seg)\<rparr>
         else seg)"

definition finish_snapshot :: "(nat \<times> gpu_memory_segment_info) list \<Rightarrow> gpu_memory_trace_entry list
    \<Rightarrow> gpu_memory_snapshot" where
  "finish_snapshot segments trace =
     \<lparr>ms_segments = map (\<lambda>kv. finish_segment (snd kv)) segments, ms_device_trace = trace\<rparr>"

lemma map_of_map_modify:
  "sorted_wrt (<) (map fst xs) \<Longrightarrow>
     map_of (map_modify k d f xs) = (map_of xs)(k \<mapsto> f (case map_of xs k of None \<Rightarrow> d | Some v \<Rightarrow> v))"
proof (induction k d f xs rule: map_modify.induct)
  case (1 k d f)
  then show ?case by simp
next
  case (2 k d f k' v xs)
  have "map_of xs k = None" if "k < k'" using 2(2) that by (force simp: map_of_eq_None_iff)
  then show ?case using 2 by (auto simp: fun_eq_iff)
qed

lemma set_keys_map_modify: "fst ` set (map_modify k d f xs) = insert k (fst ` set xs)"
  by (induction k d f xs rule: map_modify.induct) auto

lemma sorted_map_modify:
  "sorted_wrt (<) (map fst xs) \<Longrightarrow> sorted_wrt (<) (map fst (map_modify k d f xs))"
proof (induction k d f xs rule: map_modify.induct)
  case (2 k d f k' v xs)
  have "\<forall>y\<in>set (map_modify k d f xs). k' < fst y" if "k' < k"
    using 2(2) that set_keys_map_modify [of k d f xs] by (auto simp: image_iff) (metis fst_conv imageE image_eqI insertE)+
  then show ?case using 2 by (auto intro: less_trans)
qed simp

section \<open>Properties\<close>



text \<open>
  Near the end of the \<open>size_t\<close> range the rounding wraps: every request above
  \<open>2 ^ 64 - 512\<close> bytes is rounded to a size of zero bytes, which falls in the small pool.
\<close>

theorem request_rounding_wraps:
  "\<forall>sz\<in>{2 ^ 64 - 511..<2 ^ 64}. round_request_size sz = 0"
proof
  fix sz :: nat
  assume sz: "sz \<in> {2 ^ 64 - 511..<2 ^ 64}"
  then have "sz + 512 = (sz + 512 - 2 ^ 64) + 2 ^ 64" by simp
  then have "size_add sz 512 = (sz + 512 - 2 ^ 64) mod 2 ^ 64"
    unfolding size_add_def by (metis mod_add_self2)
  also have "\<dots> = sz + 512 - 2 ^ 64" by (rule mod_less) (use sz in auto)
  finally have "size_sub (size_add sz 512) 1 = sz + 511 - 2 ^ 64"
    using sz by (subst size_sub_exact) auto
  moreover have "(sz + 511 - 2 ^ 64) div 512 = 0" by (rule div_less) (use sz in auto)
  ultimately show "round_request_size sz = 0"
    using sz by (simp add: round_request_size_def round_to_def kMinBlockSize_def size_mul_def)
qed

theorem request_rounding_wraps_witness: "round_request_size (2 ^ 64 - 100) = 0"
  using request_rounding_wraps by (rule bspec) simp

text \<open>
  once enabled, the history ring holds exactly the most recent entries in the order they
  were recorded, at most \<open>max_entries\<close> of them (0 keeps the default of 100000).
\<close>

theorem history_ring_keeps_latest:
  "gh_entries (fold record_entry es (set_enabled True n new_history)) =
     drop (length es - (if n = 0 then 100000 else n)) es"
proof -
  let ?h = "set_enabled True n new_history"
  have "gh_entries ?h = []" "gh_enabled ?h" "gh_max_entries ?h = (if n = 0 then 100000 else n)"
    by (simp_all add: set_enabled_def new_history_def kDefaultMemoryHistoryEntries_def Let_def)
  then show ?thesis
    using record_entries_suffix [OF history_ok_set_enabled [OF history_ok_new], of True n es] by simp
qed

end
