(* ===== verification/GPU_Segment.thy ===== *)
theory GPU_Segment
  imports GPU_Config
begin

text \<open>
  Driver segments of \<open>cuda_caching_allocator.cpp\<close>: \<open>try_cu_vm_alloc\<close>, \<open>cu_vm_free\<close>,
  \<open>malloc_segment\<close> and \<open>free_segment\<close> of a CUDA build, with \<open>DeviceGuard\<close>. What the driver
  answers is a parameter (\<open>cu_api\<close>), and every call that acquires or releases a driver resource
  is logged, so that leaks can be stated.
\<close>

section \<open>The driver\<close>

datatype gpu_exn =
  Runtime_error string | Bad_alloc | Check_failed string | Invalid_argument string

record raw_segment =
  rs_ptr :: addr
  rs_size :: nat
  rs_vm :: bool
  rs_handle :: nat

definition null_segment :: raw_segment where
  "null_segment = \<lparr>rs_ptr = 0, rs_size = 0, rs_vm = False, rs_handle = 0\<rparr>"

text \<open>Error codes are numbers, 0 is \<open>cudaSuccess\<close> and 2 \<open>cudaErrorMemoryAllocation\<close>.\<close>

definition cudaSuccess :: nat where "cudaSuccess = 0"
definition cudaErrorMemoryAllocation :: nat where "cudaErrorMemoryAllocation = 2"

record cu_api =
  api_get_device :: "nat + int"
  api_set_device :: "int \<Rightarrow> nat"
  api_granularity :: "nat option"
  api_reserve :: "nat \<Rightarrow> addr option"
  api_create :: "nat \<Rightarrow> nat option"
  api_map :: "addr \<Rightarrow> nat \<Rightarrow> nat \<Rightarrow> bool"
  api_set_access :: "addr \<Rightarrow> nat \<Rightarrow> bool"
  api_malloc :: "nat \<Rightarrow> nat + addr"

datatype cu_call =
    Address_reserve addr nat | Address_free addr nat
  | Mem_create nat | Mem_release nat
  | Mem_map addr nat | Mem_unmap addr nat
  | Cuda_malloc addr | Cuda_free addr

definition throw_on_cuda_error :: "nat \<Rightarrow> string \<Rightarrow> gpu_exn + unit" where
  "throw_on_cuda_error result what =
     (if result \<noteq> cudaSuccess then Inl (Runtime_error what) else Inr ())"

section \<open>DeviceGuard\<close>

record device_guard =
  dg_prev :: int
  dg_changed :: bool

definition device_guard_enter :: "cu_api \<Rightarrow> int \<Rightarrow> gpu_exn + device_guard" where
  "device_guard_enter api device =
     (case api_get_device api of
        Inl _ \<Rightarrow> Inl (Runtime_error ''cudaGetDevice'')
      | Inr current \<Rightarrow>
          if current \<noteq> device
          then case throw_on_cuda_error (api_set_device api device) ''cudaSetDevice'' of
                 Inl e \<Rightarrow> Inl e
               | Inr _ \<Rightarrow> Inr \<lparr>dg_prev = current, dg_changed = True\<rparr>
          else Inr \<lparr>dg_prev = current, dg_changed = False\<rparr>)"

definition device_guard_enter_nothrow :: "cu_api \<Rightarrow> int \<Rightarrow> device_guard" where
  "device_guard_enter_nothrow api device =
     (case api_get_device api of
        Inl _ \<Rightarrow> \<lparr>dg_prev = 0, dg_changed = False\<rparr>
      | Inr current \<Rightarrow>
          \<lparr>dg_prev = current, dg_changed = current \<noteq> device \<and> api_set_device api device = cudaSuccess\<rparr>)"

text \<open>The device that is current inside the guarded scope and after it.\<close>

definition device_inside :: "device_guard \<Rightarrow> int \<Rightarrow> int" where
  "device_inside g device = (if dg_changed g then device else dg_prev g)"

definition device_guard_exit :: "device_guard \<Rightarrow> int \<Rightarrow> int" where
  "device_guard_exit g current = (if dg_changed g then dg_prev g else current)"

lemma device_guard_scope:
  assumes "device_guard_enter api device = Inr g" "api_get_device api = Inr current"
  shows "device_inside g device = device" "device_guard_exit g (device_inside g device) = current"
  using assms by (auto simp: device_guard_enter_def device_inside_def device_guard_exit_def
      throw_on_cuda_error_def split: if_splits)

section \<open>Segments\<close>

definition try_cu_vm_alloc :: "cu_api \<Rightarrow> nat \<Rightarrow> raw_segment option \<times> cu_call list" where
  "try_cu_vm_alloc api sz =
     (case api_granularity api of
        None \<Rightarrow> (None, [])
      | Some granularity \<Rightarrow>
          if granularity = 0 then (None, [])
          else let padded = round_to granularity sz in
            case api_reserve api padded of
              None \<Rightarrow> (None, [])
            | Some a \<Rightarrow>
               (case api_create api padded of
                  None \<Rightarrow> (None, [Address_reserve a padded, Address_free a padded])
                | Some h \<Rightarrow>
                    if \<not> api_map api a padded h
                    then (None, [Address_reserve a padded, Mem_create h, Mem_release h, Address_free a padded])
                    else if \<not> api_set_access api a padded
                    then (None, [Address_reserve a padded, Mem_create h, Mem_map a padded,
                                 Mem_unmap a padded, Mem_release h, Address_free a padded])
                    else (Some \<lparr>rs_ptr = a, rs_size = padded, rs_vm = True, rs_handle = h\<rparr>,
                          [Address_reserve a padded, Mem_create h, Mem_map a padded])))"

definition cu_vm_free :: "raw_segment \<Rightarrow> cu_call list" where
  "cu_vm_free seg =
     [Mem_unmap (rs_ptr seg) (rs_size seg), Mem_release (rs_handle seg), Address_free (rs_ptr seg) (rs_size seg)]"

text \<open>The result is the segment and the error code stored through \<open>err_out\<close>.\<close>

definition malloc_segment :: "cu_api \<Rightarrow> int \<Rightarrow> nat \<Rightarrow> (gpu_exn + raw_segment \<times> nat) \<times> cu_call list" where
  "malloc_segment api device sz =
     (case device_guard_enter api device of
        Inl e \<Rightarrow> (Inl e, [])
      | Inr g \<Rightarrow>
         (case try_cu_vm_alloc api sz of
            (Some out, calls) \<Rightarrow> (Inr (out, cudaSuccess), calls)
          | (None, calls) \<Rightarrow>
             (case api_malloc api sz of
                Inl err \<Rightarrow> (Inr (null_segment, err), calls)
              | Inr p \<Rightarrow> (Inr (\<lparr>rs_ptr = p, rs_size = sz, rs_vm = False, rs_handle = 0\<rparr>, cudaSuccess),
                          calls @ [Cuda_malloc p]))))"

definition free_segment :: "raw_segment \<Rightarrow> cu_call list" where
  "free_segment seg =
     (if rs_ptr seg = 0 then []
      else if rs_vm seg then cu_vm_free seg
      else [Cuda_free (rs_ptr seg)])"

section \<open>Resources held\<close>

datatype cu_resource = Reserved addr nat | Handle nat | Mapped addr nat | Device_block addr

fun after_call :: "cu_call \<Rightarrow> cu_resource set \<Rightarrow> cu_resource set" where
  "after_call (Address_reserve a n) R = insert (Reserved a n) R"
| "after_call (Address_free a n) R = R - {Reserved a n}"
| "after_call (Mem_create h) R = insert (Handle h) R"
| "after_call (Mem_release h) R = R - {Handle h}"
| "after_call (Mem_map a n) R = insert (Mapped a n) R"
| "after_call (Mem_unmap a n) R = R - {Mapped a n}"
| "after_call (Cuda_malloc a) R = insert (Device_block a) R"
| "after_call (Cuda_free a) R = R - {Device_block a}"

definition after_calls :: "cu_call list \<Rightarrow> cu_resource set \<Rightarrow> cu_resource set" where
  "after_calls cs R = fold after_call cs R"

definition resources_of :: "raw_segment \<Rightarrow> cu_resource set" where
  "resources_of seg =
     (if rs_vm seg then {Reserved (rs_ptr seg) (rs_size seg), Handle (rs_handle seg), Mapped (rs_ptr seg) (rs_size seg)}
      else {Device_block (rs_ptr seg)})"

text \<open>What is fresh from the driver is not among the resources already held.\<close>

definition fresh_answers :: "cu_api \<Rightarrow> cu_resource set \<Rightarrow> bool" where
  "fresh_answers api R \<longleftrightarrow>
     (\<forall>n a. api_reserve api n = Some a \<longrightarrow> a \<noteq> 0 \<and> Reserved a n \<notin> R \<and> Mapped a n \<notin> R) \<and>
     (\<forall>n h. api_create api n = Some h \<longrightarrow> Handle h \<notin> R) \<and>
     (\<forall>n a. api_malloc api n = Inr a \<longrightarrow> a \<noteq> 0 \<and> Device_block a \<notin> R)"

lemma try_cu_vm_alloc_resources:
  assumes "fresh_answers api R" "try_cu_vm_alloc api sz = (r, calls)"
  shows "case r of None \<Rightarrow> after_calls calls R = R
    | Some seg \<Rightarrow> rs_ptr seg \<noteq> 0 \<and> rs_vm seg \<and> after_calls calls R = R \<union> resources_of seg \<and>
        resources_of seg \<inter> R = {}"
  using assms
  by (auto simp: try_cu_vm_alloc_def fresh_answers_def after_calls_def resources_of_def Let_def
      split: option.splits if_splits)

lemma free_segment_resources:
  assumes "rs_ptr seg \<noteq> 0" "resources_of seg \<inter> R = {}"
  shows "after_calls (free_segment seg) (R \<union> resources_of seg) = R"
  using assms by (auto simp: after_calls_def free_segment_def cu_vm_free_def resources_of_def)

lemma after_calls_append: "after_calls (cs @ ds) R = after_calls ds (after_calls cs R)"
  by (simp add: after_calls_def)

text \<open>
  C11: allocating a segment leaks nothing: when \<open>malloc_segment\<close> fails, at whichever driver call,
  the driver resources held afterwards are those held before; when it succeeds they are those and
  the resources of the new segment, and \<open>free_segment\<close> gives exactly these back.
\<close>

theorem malloc_segment_no_leak:
  assumes "fresh_answers api R" "malloc_segment api device sz = (r, calls)"
  shows "case r of
      Inl e \<Rightarrow> after_calls calls R = R
    | Inr (seg, err) \<Rightarrow>
        if rs_ptr seg = 0 then after_calls calls R = R
        else err = cudaSuccess \<and> after_calls calls R = R \<union> resources_of seg \<and>
             resources_of seg \<inter> R = {} \<and> after_calls (calls @ free_segment seg) R = R"
proof (cases "device_guard_enter api device")
  case (Inl e)
  then show ?thesis using assms(2) by (auto simp: malloc_segment_def after_calls_def)
next
  case (Inr g)
  obtain q vm_calls where vm: "try_cu_vm_alloc api sz = (q, vm_calls)" by fastforce
  note v = try_cu_vm_alloc_resources [OF assms(1) vm]
  show ?thesis
  proof (cases q)
    case (Some seg)
    then show ?thesis
      using assms(2) Inr vm v free_segment_resources [of seg R]
      by (auto simp: malloc_segment_def after_calls_append)
  next
    case None
    have fresh: "a \<noteq> 0 \<and> Device_block a \<notin> R" if "api_malloc api sz = Inr a" for a
      using assms(1) that by (auto simp: fresh_answers_def)
    have new: "after_calls [Cuda_malloc a] R = insert (Device_block a) R"
      "after_calls [Cuda_malloc a, Cuda_free a] R = R - {Device_block a}" for a
      by (auto simp: after_calls_def)
    show ?thesis
      using assms(2) Inr vm v None fresh new
      by (cases "api_malloc api sz")
        (auto simp: malloc_segment_def after_calls_append null_segment_def resources_of_def free_segment_def)
  qed
qed

definition demo_api :: cu_api where
  "demo_api = \<lparr>api_get_device = Inr 0, api_set_device = (\<lambda>d. 0), api_granularity = Some 2097152,
     api_reserve = (\<lambda>n. Some 4194304), api_create = (\<lambda>n. Some 1), api_map = (\<lambda>a n h. True),
     api_set_access = (\<lambda>a n. False), api_malloc = (\<lambda>n. Inr 8388608)\<rparr>"

theorem malloc_segment_no_leak_witness:
  "\<exists>seg calls. malloc_segment demo_api 0 2097152 = (Inr (seg, 0), calls) \<and> rs_ptr seg = 8388608 \<and>
     after_calls calls {} = resources_of seg \<and> after_calls (calls @ free_segment seg) {} = {}"
proof -
  have f: "fresh_answers demo_api {}" by (simp add: fresh_answers_def demo_api_def)
  have m: "malloc_segment demo_api 0 2097152 =
      (Inr (\<lparr>rs_ptr = 8388608, rs_size = 2097152, rs_vm = False, rs_handle = 0\<rparr>, 0),
       [Address_reserve 4194304 2097152, Mem_create 1, Mem_map 4194304 2097152, Mem_unmap 4194304 2097152,
        Mem_release 1, Address_free 4194304 2097152, Cuda_malloc 8388608])"
    by (simp add: malloc_segment_def demo_api_def device_guard_enter_def try_cu_vm_alloc_def round_to_def
        size_mul_def size_sub_def size_add_def cudaSuccess_def)
  show ?thesis using malloc_segment_no_leak [OF f m] m by simp
qed

section \<open>The contract the allocator relies on\<close>

lemma malloc_segment_size:
  assumes "malloc_segment api device sz = (Inr (seg, err), calls)" "rs_ptr seg \<noteq> 0"
    "0 < sz" "sz \<le> 2 ^ 63" "\<forall>g. api_granularity api = Some g \<longrightarrow> g \<le> 2 ^ 62"
  shows "sz \<le> rs_size seg"
    "api_reserve api (rs_size seg) = Some (rs_ptr seg) \<or> api_malloc api (rs_size seg) = Inr (rs_ptr seg)"
proof -
  have "sz \<le> round_to g sz" if "api_granularity api = Some g" "g \<noteq> 0" for g
    using that assms(3-5) round_to_exact [of g sz] round_up_bounds(1) [of g sz] by simp
  then show "sz \<le> rs_size seg"
    "api_reserve api (rs_size seg) = Some (rs_ptr seg) \<or> api_malloc api (rs_size seg) = Inr (rs_ptr seg)"
    using assms(1,2)
    by (auto simp: malloc_segment_def try_cu_vm_alloc_def null_segment_def Let_def
        split: sum.splits option.splits if_splits)
qed

end
