(* ===== verification/GPU_Heap.thy ===== *)
theory GPU_Heap
  imports GPU_Segment "HOL-Library.Product_Lexorder"
begin

text \<open>
  The blocks of \<open>cuda_caching_allocator.cpp\<close>: \<open>cache_block\<close> objects live in a store indexed by
  their identity, because they are linked to their neighbours by pointers and the links of
  several blocks change when one is split or merged. \<open>split_block\<close> is the pointer part of
  \<open>alloc_found_block_locked\<close> and \<open>merge_block\<close> that of \<open>try_merge_locked\<close>; the lemmas show
  that both keep every segment tiled by blocks that do not overlap.
\<close>

section \<open>Blocks\<close>

type_synonym bid = nat

record cache_block =
  cb_ptr :: addr
  cb_size :: nat
  cb_requested_size :: nat
  cb_stream :: stream
  cb_small :: bool \<comment> \<open>which of the two pools \<open>pool\<close> points to\<close>
  cb_allocated :: bool
  cb_prev :: "bid option"
  cb_next :: "bid option"
  cb_event_count :: int
  cb_stream_uses :: "stream list" \<comment> \<open>a \<open>std::set\<close>, in its iteration order\<close>
  cb_segment_base :: addr
  cb_vm_backed :: bool
  cb_registration_counter :: int

definition new_cache_block :: "addr \<Rightarrow> nat \<Rightarrow> stream \<Rightarrow> bool \<Rightarrow> cache_block" where
  "new_cache_block p sz st small =
     \<lparr>cb_ptr = p, cb_size = sz, cb_requested_size = 0, cb_stream = st, cb_small = small,
      cb_allocated = False, cb_prev = None, cb_next = None, cb_event_count = 0, cb_stream_uses = [],
      cb_segment_base = p, cb_vm_backed = False, cb_registration_counter = -1\<rparr>"

definition is_split :: "cache_block \<Rightarrow> bool" where
  "is_split x \<longleftrightarrow> cb_prev x \<noteq> None \<or> cb_next x \<noteq> None"

type_synonym heap = "bid \<rightharpoonup> cache_block"

text \<open>The key \<open>cache_block_comparator\<close> compares by, field after field.\<close>

definition block_key :: "cache_block \<Rightarrow> nat \<times> nat \<times> int \<times> nat" where
  "block_key x = (cb_stream x, cb_size x, cb_registration_counter x, cb_ptr x)"

definition cache_block_less :: "cache_block \<Rightarrow> cache_block \<Rightarrow> bool" where
  "cache_block_less a b \<longleftrightarrow>
     (if cb_stream a \<noteq> cb_stream b then cb_stream a < cb_stream b
      else if cb_size a \<noteq> cb_size b then cb_size a < cb_size b
      else if cb_registration_counter a \<noteq> cb_registration_counter b
      then cb_registration_counter a < cb_registration_counter b
      else cb_ptr a < cb_ptr b)"

lemma cache_block_less_key: "cache_block_less a b \<longleftrightarrow> block_key a < block_key b"
  by (auto simp: cache_block_less_def block_key_def less_prod_def')

section \<open>Splitting and merging\<close>

definition upd_block :: "bid \<Rightarrow> (cache_block \<Rightarrow> cache_block) \<Rightarrow> heap \<Rightarrow> heap" where
  "upd_block b f h = h(b := map_option f (h b))"

abbreviation upd_opt :: "bid option \<Rightarrow> (cache_block \<Rightarrow> cache_block) \<Rightarrow> heap \<Rightarrow> heap" where
  "upd_opt q f h \<equiv> (case q of None \<Rightarrow> h | Some b \<Rightarrow> upd_block b f h)"

text \<open>\<open>b\<close> keeps the tail of the range, the new block \<open>nb\<close> gets the first \<open>rounded\<close> bytes.\<close>

definition split_block :: "bid \<Rightarrow> bid \<Rightarrow> nat \<Rightarrow> heap \<Rightarrow> heap" where
  "split_block b nb rounded h =
     (let remaining = the (h b);
          block = (new_cache_block (cb_ptr remaining) rounded (cb_stream remaining) (cb_small remaining))
            \<lparr>cb_registration_counter := cb_registration_counter remaining,
             cb_segment_base := cb_segment_base remaining,
             cb_vm_backed := cb_vm_backed remaining,
             cb_prev := cb_prev remaining\<rparr>;
          h1 = h(nb \<mapsto> block);
          h2 = upd_opt (cb_prev block) (\<lambda>x. x\<lparr>cb_next := Some nb\<rparr>) h1;
          h3 = upd_block nb (\<lambda>x. x\<lparr>cb_next := Some b\<rparr>) h2
      in upd_block b (\<lambda>x. x\<lparr>cb_prev := Some nb, cb_ptr := cb_ptr x + rounded,
                           cb_size := size_sub (cb_size x) rounded\<rparr>) h3)"

text \<open>\<open>try_merge_locked\<close> past its guard: \<open>dst\<close> takes over the range of its neighbour \<open>src\<close>.\<close>

definition merge_block :: "bid \<Rightarrow> bid \<Rightarrow> heap \<Rightarrow> heap" where
  "merge_block dst src h =
     (let s = the (h src);
          h1 = (if cb_prev (the (h dst)) = Some src
                then upd_opt (cb_prev s) (\<lambda>x. x\<lparr>cb_next := Some dst\<rparr>)
                       (upd_block dst (\<lambda>x. x\<lparr>cb_ptr := cb_ptr s, cb_prev := cb_prev s\<rparr>) h)
                else upd_opt (cb_next s) (\<lambda>x. x\<lparr>cb_prev := Some dst\<rparr>)
                       (upd_block dst (\<lambda>x. x\<lparr>cb_next := cb_next s\<rparr>) h));
          h2 = upd_block dst (\<lambda>x. x\<lparr>cb_size := size_add (cb_size x) (cb_size s)\<rparr>) h1
      in h2(src := None))"

section \<open>The tiling invariant\<close>

type_synonym segments = "addr \<rightharpoonup> raw_segment"

definition segs_ok :: "segments \<Rightarrow> bool" where
  "segs_ok segs \<longleftrightarrow> finite (dom segs) \<and>
     (\<forall>p r. segs p = Some r \<longrightarrow> rs_ptr r = p \<and> 0 < p \<and> 0 < rs_size r \<and> p + rs_size r \<le> 2 ^ 64) \<and>
     (\<forall>p q r t. segs p = Some r \<longrightarrow> segs q = Some t \<longrightarrow> p < q \<longrightarrow> p + rs_size r \<le> q)"

definition link_ok :: "heap \<Rightarrow> bid \<Rightarrow> cache_block \<Rightarrow> bool" where
  "link_ok h b x \<longleftrightarrow>
     (\<forall>c. cb_next x = Some c \<longrightarrow> (\<exists>y. h c = Some y \<and> cb_prev y = Some b \<and>
        cb_ptr y = cb_ptr x + cb_size x \<and> cb_segment_base y = cb_segment_base x \<and>
        cb_stream y = cb_stream x \<and> cb_small y = cb_small x)) \<and>
     (\<forall>a. cb_prev x = Some a \<longrightarrow> (\<exists>y. h a = Some y \<and> cb_next y = Some b))"

definition inside_ok :: "segments \<Rightarrow> cache_block \<Rightarrow> bool" where
  "inside_ok segs x \<longleftrightarrow> 0 < cb_size x \<and> 0 < cb_registration_counter x \<and>
     (\<exists>r. segs (cb_segment_base x) = Some r \<and> cb_segment_base x \<le> cb_ptr x \<and>
        cb_ptr x + cb_size x \<le> cb_segment_base x + rs_size r \<and>
        (cb_prev x = None \<longrightarrow> cb_ptr x = cb_segment_base x) \<and>
        (cb_next x = None \<longrightarrow> cb_ptr x + cb_size x = cb_segment_base x + rs_size r))"

definition disjoint :: "cache_block \<Rightarrow> cache_block \<Rightarrow> bool" where
  "disjoint x y \<longleftrightarrow> cb_ptr x + cb_size x \<le> cb_ptr y \<or> cb_ptr y + cb_size y \<le> cb_ptr x"

definition heap_ok :: "segments \<Rightarrow> heap \<Rightarrow> bool" where
  "heap_ok segs h \<longleftrightarrow> finite (dom h) \<and>
     (\<forall>b x. h b = Some x \<longrightarrow> link_ok h b x \<and> inside_ok segs x) \<and>
     (\<forall>b c x y. h b = Some x \<longrightarrow> h c = Some y \<longrightarrow> b \<noteq> c \<longrightarrow> disjoint x y) \<and>
     (\<forall>p r. segs p = Some r \<longrightarrow> (\<exists>b x. h b = Some x \<and> cb_segment_base x = p))"

lemma heap_okI:
  assumes "finite (dom h)" "\<And>b x. h b = Some x \<Longrightarrow> link_ok h b x" "\<And>b x. h b = Some x \<Longrightarrow> inside_ok segs x"
    "\<And>b c x y. h b = Some x \<Longrightarrow> h c = Some y \<Longrightarrow> b \<noteq> c \<Longrightarrow> disjoint x y"
    "\<And>p r. segs p = Some r \<Longrightarrow> \<exists>b x. h b = Some x \<and> cb_segment_base x = p"
  shows "heap_ok segs h"
  unfolding heap_ok_def using assms by blast

lemma heap_okD:
  assumes "heap_ok segs h"
  shows "finite (dom h)" "h b = Some x \<Longrightarrow> link_ok h b x" "h b = Some x \<Longrightarrow> inside_ok segs x"
    "h b = Some x \<Longrightarrow> h c = Some y \<Longrightarrow> b \<noteq> c \<Longrightarrow> disjoint x y"
    "segs p = Some r \<Longrightarrow> \<exists>b x. h b = Some x \<and> cb_segment_base x = p"
  using assms unfolding heap_ok_def by blast+

lemma disjoint_sym: "disjoint x y \<longleftrightarrow> disjoint y x"
  by (auto simp: disjoint_def)

lemma inside_ok_bound:
  assumes "inside_ok segs x" "segs_ok segs"
  shows "cb_ptr x + cb_size x \<le> 2 ^ 64" "cb_size x < 2 ^ 64" "0 < cb_ptr x" "0 < cb_size x"
proof -
  obtain r where r: "segs (cb_segment_base x) = Some r" "cb_segment_base x \<le> cb_ptr x"
      "cb_ptr x + cb_size x \<le> cb_segment_base x + rs_size r" "0 < cb_size x"
    using assms(1) by (auto simp: inside_ok_def)
  moreover have "0 < cb_segment_base x" "cb_segment_base x + rs_size r \<le> 2 ^ 64"
    using assms(2) r(1) by (auto simp: segs_ok_def)
  ultimately show "cb_ptr x + cb_size x \<le> 2 ^ 64" "cb_size x < 2 ^ 64" "0 < cb_ptr x" "0 < cb_size x"
    by simp_all
qed

text \<open>Two neighbours: what the links say about their ranges.\<close>

lemma heap_next:
  assumes "heap_ok segs h" "h b = Some x" "cb_next x = Some c"
  obtains y where "h c = Some y" "cb_prev y = Some b" "cb_ptr y = cb_ptr x + cb_size x"
    "cb_segment_base y = cb_segment_base x" "cb_stream y = cb_stream x" "cb_small y = cb_small x" "c \<noteq> b"
proof -
  obtain y where y: "h c = Some y" "cb_prev y = Some b" "cb_ptr y = cb_ptr x + cb_size x"
    "cb_segment_base y = cb_segment_base x" "cb_stream y = cb_stream x" "cb_small y = cb_small x"
    using heap_okD(2) [OF assms(1,2)] assms(3) by (auto simp: link_ok_def)
  moreover have "0 < cb_size x" using heap_okD(3) [OF assms(1,2)] by (simp add: inside_ok_def)
  then have "c \<noteq> b" using y(1,3) assms(2) by auto
  ultimately show ?thesis using that by blast
qed

lemma heap_prev:
  assumes "heap_ok segs h" "h b = Some x" "cb_prev x = Some a"
  obtains y where "h a = Some y" "cb_next y = Some b" "cb_ptr x = cb_ptr y + cb_size y"
    "cb_segment_base y = cb_segment_base x" "cb_stream y = cb_stream x" "cb_small y = cb_small x" "a \<noteq> b"
proof -
  obtain y where y: "h a = Some y" "cb_next y = Some b"
    using heap_okD(2) [OF assms(1,2)] assms(3) by (auto simp: link_ok_def)
  with heap_next [OF assms(1) this] assms(2) that show ?thesis by (metis option.inject)
qed

section \<open>Splitting keeps the tiling\<close>

definition split_head :: "cache_block \<Rightarrow> bid \<Rightarrow> nat \<Rightarrow> cache_block" where
  "split_head x b r = (new_cache_block (cb_ptr x) r (cb_stream x) (cb_small x))
     \<lparr>cb_registration_counter := cb_registration_counter x, cb_segment_base := cb_segment_base x,
      cb_vm_backed := cb_vm_backed x, cb_prev := cb_prev x, cb_next := Some b\<rparr>"

definition split_tail :: "cache_block \<Rightarrow> bid \<Rightarrow> nat \<Rightarrow> cache_block" where
  "split_tail x nb r = x\<lparr>cb_prev := Some nb, cb_ptr := cb_ptr x + r, cb_size := cb_size x - r\<rparr>"

lemma split_block_apply:
  assumes ok: "heap_ok segs h" "segs_ok segs" and x: "h b = Some x" and nb: "h nb = None"
    and r: "0 < r" "r < cb_size x"
  shows "split_block b nb r h c =
    (if c = nb then Some (split_head x b r)
     else if c = b then Some (split_tail x nb r)
     else if cb_prev x = Some c then map_option (\<lambda>y. y\<lparr>cb_next := Some nb\<rparr>) (h c)
     else h c)"
proof -
  have sz: "size_sub (cb_size x) r = cb_size x - r"
    using inside_ok_bound(2) [OF heap_okD(3) [OF ok(1) x] ok(2)] r by (simp add: size_sub_exact)
  show ?thesis
  proof (cases "cb_prev x")
    case None
    then show ?thesis using x nb sz
      by (auto simp: split_block_def Let_def upd_block_def split_head_def split_tail_def new_cache_block_def)
  next
    case (Some a)
    then obtain y where "h a = Some y" "a \<noteq> b" using heap_prev [OF ok(1) x] by blast
    then show ?thesis using x nb sz Some
      by (auto simp: split_block_def Let_def upd_block_def split_head_def split_tail_def new_cache_block_def)
  qed
qed

lemma split_link_ok:
  assumes ok: "heap_ok segs h" "segs_ok segs" and x: "h b = Some x" and nb: "h nb = None"
    and r: "0 < r" "r < cb_size x" and y: "split_block b nb r h c = Some y"
  shows "link_ok (split_block b nb r h) c y"
proof -
  note ap = split_block_apply [OF ok x nb r]
  note nx = heap_next [OF ok(1)] and pv = heap_prev [OF ok(1)]
  have bnb: "b \<noteq> nb" using x nb by auto
  consider "c = nb" | "c = b" | "c \<noteq> nb" "c \<noteq> b" by blast
  then show ?thesis
  proof cases
    case 1
    then have y: "y = split_head x b r" using y ap by simp
    have "\<exists>w. split_block b nb r h a = Some w \<and> cb_next w = Some nb" if a: "cb_prev x = Some a" for a
    proof -
      obtain w where "h a = Some w" "a \<noteq> b" using pv [OF x a] by blast
      then show ?thesis using nb a by (auto simp: ap)
    qed
    then show ?thesis using 1 bnb y by (simp add: link_ok_def ap split_head_def split_tail_def new_cache_block_def)
  next
    case 2
    then have y: "y = split_tail x nb r" using y ap bnb by simp
    have "\<exists>z. split_block b nb r h d = Some z \<and> cb_prev z = Some b \<and> cb_ptr z = cb_ptr x + cb_size x \<and>
        cb_segment_base z = cb_segment_base x \<and> cb_stream z = cb_stream x \<and> cb_small z = cb_small x"
      if d: "cb_next x = Some d" for d
    proof -
      obtain z where z: "h d = Some z" "cb_prev z = Some b" "cb_ptr z = cb_ptr x + cb_size x"
        "cb_segment_base z = cb_segment_base x" "cb_stream z = cb_stream x" "cb_small z = cb_small x" "d \<noteq> b"
        using nx [OF x d] by blast
      then show ?thesis using nb by (cases "cb_prev x = Some d") (auto simp: ap)
    qed
    then show ?thesis using 2 r bnb y
      by (auto simp: link_ok_def ap split_head_def split_tail_def)
  next
    case 3
    then obtain z where z: "h c = Some z"
        "y = (if cb_prev x = Some c then z\<lparr>cb_next := Some nb\<rparr> else z)"
      using y ap by (auto split: if_splits)
    have lz: "link_ok h c z" by (rule heap_okD(2) [OF ok(1) z(1)])
    have "\<exists>w. split_block b nb r h d = Some w \<and> cb_prev w = Some c \<and> cb_ptr w = cb_ptr y + cb_size y \<and>
        cb_segment_base w = cb_segment_base y \<and> cb_stream w = cb_stream y \<and> cb_small w = cb_small y"
      if d: "cb_next y = Some d" for d
    proof (cases "cb_prev x = Some c")
      case True
      then have "d = nb" using d z(2) by simp
      moreover obtain w where "h c = Some w" "cb_ptr x = cb_ptr w + cb_size w"
        "cb_segment_base w = cb_segment_base x" "cb_stream w = cb_stream x" "cb_small w = cb_small x"
        using pv [OF x True] by blast
      ultimately show ?thesis using True z by (simp add: ap split_head_def new_cache_block_def)
    next
      case False
      then have d': "cb_next z = Some d" using d z(2) by simp
      from nx [OF z(1) d'] obtain w where w: "h d = Some w" "cb_prev w = Some c"
        "cb_ptr w = cb_ptr z + cb_size z" "cb_segment_base w = cb_segment_base z"
        "cb_stream w = cb_stream z" "cb_small w = cb_small z" by blast
      have "d \<noteq> b" using w(1,2) x False by auto
      moreover have "d \<noteq> nb" using w(1) nb by auto
      ultimately show ?thesis using w z(2) False by (cases "cb_prev x = Some d") (simp_all add: ap)
    qed
    moreover have "\<exists>w. split_block b nb r h a = Some w \<and> cb_next w = Some c" if a: "cb_prev y = Some a" for a
    proof -
      have a': "cb_prev z = Some a" using a z(2) by (simp split: if_splits)
      obtain w where w: "h a = Some w" "cb_next w = Some c" using lz a' by (auto simp: link_ok_def)
      have "a \<noteq> nb" using w(1) nb by auto
      moreover have "\<not> cb_prev x = Some a \<or> a = b"
        using w pv [OF x, of a] 3(2) by (metis option.inject)
      ultimately show ?thesis using w x by (cases "a = b") (auto simp: ap split_tail_def)
    qed
    ultimately show ?thesis by (simp add: link_ok_def)
  qed
qed

lemma split_heap_ok:
  assumes ok: "heap_ok segs h" "segs_ok segs" and x: "h b = Some x" and nb: "h nb = None"
    and r: "0 < r" "r < cb_size x"
  shows "heap_ok segs (split_block b nb r h)"
proof (rule heap_okI)
  note ap = split_block_apply [OF ok x nb r]
  let ?h = "split_block b nb r h"
  have ix: "inside_ok segs x" by (rule heap_okD(3) [OF ok(1) x])
  have "dom ?h \<subseteq> insert nb (dom h)" using x by (auto simp: ap dom_def split: if_splits)
  then show "finite (dom ?h)" using heap_okD(1) [OF ok(1)] finite_subset by blast
  show "link_ok ?h c y" if "?h c = Some y" for c y by (rule split_link_ok [OF ok x nb r that])
  have range: "\<exists>c' z. h c' = Some z \<and> cb_ptr z \<le> cb_ptr y \<and> cb_ptr y + cb_size y \<le> cb_ptr z + cb_size z \<and>
      (c \<in> {b, nb} \<longleftrightarrow> c' = b) \<and> (c \<notin> {b, nb} \<longrightarrow> c' = c) \<and> cb_segment_base z = cb_segment_base y"
    if "?h c = Some y" for c y
    using that x nb r by (auto simp: ap split_head_def split_tail_def new_cache_block_def split: if_splits)
  show "inside_ok segs y" if "?h c = Some y" for c y
  proof -
    have "inside_ok segs (split_head x b r)" "inside_ok segs (split_tail x nb r)"
      using ix r by (auto simp: inside_ok_def split_head_def split_tail_def new_cache_block_def)
    moreover have "inside_ok segs (z\<lparr>cb_next := Some nb\<rparr>)" if "inside_ok segs z" for z
      using that by (auto simp: inside_ok_def)
    ultimately show ?thesis using that heap_okD(3) [OF ok(1)] by (auto simp: ap split: if_splits)
  qed
  show "disjoint y z" if y: "?h c = Some y" and z: "?h d = Some z" and ne: "c \<noteq> d" for c d y z
  proof (cases "c \<in> {b, nb} \<and> d \<in> {b, nb}")
    case True
    then show ?thesis using y z ne r
      by (auto simp: ap disjoint_def split_head_def split_tail_def new_cache_block_def split: if_splits)
  next
    case False
    obtain c' y' where c': "h c' = Some y'" "cb_ptr y' \<le> cb_ptr y" "cb_ptr y + cb_size y \<le> cb_ptr y' + cb_size y'"
        "c \<in> {b, nb} \<longleftrightarrow> c' = b" "c \<notin> {b, nb} \<longrightarrow> c' = c" using range [OF y] by blast
    obtain d' z' where d': "h d' = Some z'" "cb_ptr z' \<le> cb_ptr z" "cb_ptr z + cb_size z \<le> cb_ptr z' + cb_size z'"
        "d \<in> {b, nb} \<longleftrightarrow> d' = b" "d \<notin> {b, nb} \<longrightarrow> d' = d" using range [OF z] by blast
    have "c' \<noteq> d'" using False c'(4,5) d'(4,5) ne by blast
    then have "disjoint y' z'" using heap_okD(4) [OF ok(1) c'(1) d'(1)] by simp
    then show ?thesis using c'(2,3) d'(2,3) unfolding disjoint_def by linarith
  qed
  show "\<exists>c y. ?h c = Some y \<and> cb_segment_base y = p" if t: "segs p = Some t" for p t
  proof -
    obtain c y where c: "h c = Some y" "cb_segment_base y = p" using heap_okD(5) [OF ok(1) t] by blast
    have "c \<noteq> nb" using c(1) nb by auto
    then show ?thesis using c x by (cases "c = b"; cases "cb_prev x = Some c") (auto simp: ap split_tail_def intro!: exI [of _ c])
  qed
qed

section \<open>Merging keeps the tiling\<close>

definition merged_prev :: "cache_block \<Rightarrow> cache_block \<Rightarrow> cache_block" where
  "merged_prev x s = x\<lparr>cb_ptr := cb_ptr s, cb_prev := cb_prev s, cb_size := cb_size x + cb_size s\<rparr>"

definition merged_next :: "cache_block \<Rightarrow> cache_block \<Rightarrow> cache_block" where
  "merged_next x s = x\<lparr>cb_next := cb_next s, cb_size := cb_size x + cb_size s\<rparr>"

lemma neighbour_sizes:
  assumes ok: "heap_ok segs h" "segs_ok segs" and x: "h b = Some x" and c: "cb_next x = Some c" "h c = Some y"
  shows "cb_size x + cb_size y < 2 ^ 64"
proof -
  obtain z where "h c = Some z" "cb_ptr z = cb_ptr x + cb_size x" using heap_next [OF ok(1) x c(1)] by blast
  then have "cb_ptr y = cb_ptr x + cb_size x" using c(2) by simp
  moreover have "cb_ptr y + cb_size y \<le> 2 ^ 64" "0 < cb_ptr x"
    using inside_ok_bound [OF heap_okD(3) [OF ok(1)] ok(2)] x c(2) by blast+
  ultimately show ?thesis by linarith
qed

lemma merge_prev_apply:
  assumes ok: "heap_ok segs h" "segs_ok segs" and x: "h b = Some x" and p: "cb_prev x = Some a" "h a = Some s"
  shows "merge_block b a h c =
    (if c = a then None else if c = b then Some (merged_prev x s)
     else if cb_prev s = Some c then map_option (\<lambda>y. y\<lparr>cb_next := Some b\<rparr>) (h c) else h c)"
proof -
  have ab: "a \<noteq> b" "cb_next s = Some b" using heap_prev [OF ok(1) x p(1)] p(2) by fastforce+
  have "size_add (cb_size x) (cb_size s) = cb_size x + cb_size s"
    using neighbour_sizes [OF ok p(2) ab(2) x] by (simp add: size_add_exact add.commute)
  moreover have "cb_prev s \<noteq> Some b" if "cb_next x = None"
    using heap_prev [OF ok(1) p(2), of b] x that by fastforce
  moreover have "cb_prev s \<noteq> Some b"
  proof
    assume "cb_prev s = Some b"
    then obtain y where "h b = Some y" "cb_ptr s = cb_ptr y + cb_size y" using heap_prev [OF ok(1) p(2)] by blast
    moreover obtain z where "h a = Some z" "cb_ptr x = cb_ptr z + cb_size z" using heap_prev [OF ok(1) x p(1)] by blast
    ultimately show False using x p(2) inside_ok_bound(4) [OF heap_okD(3) [OF ok(1) x] ok(2)] by simp
  qed
  ultimately show ?thesis using x p ab
    by (cases "cb_prev s") (auto simp: merge_block_def Let_def upd_block_def merged_prev_def)
qed

lemma merge_next_apply:
  assumes ok: "heap_ok segs h" "segs_ok segs" and x: "h b = Some x" and p: "cb_next x = Some a" "h a = Some s"
  shows "merge_block b a h c =
    (if c = a then None else if c = b then Some (merged_next x s)
     else if cb_next s = Some c then map_option (\<lambda>y. y\<lparr>cb_prev := Some b\<rparr>) (h c) else h c)"
proof -
  have ab: "a \<noteq> b" "cb_ptr s = cb_ptr x + cb_size x" using heap_next [OF ok(1) x p(1)] p(2) by fastforce+
  have pos: "0 < cb_size x" "0 < cb_size s"
    using inside_ok_bound(4) [OF heap_okD(3) [OF ok(1)] ok(2)] x p(2) by blast+
  have "size_add (cb_size x) (cb_size s) = cb_size x + cb_size s"
    using neighbour_sizes [OF ok x p] by (simp add: size_add_exact)
  moreover have "cb_prev x \<noteq> Some a"
  proof
    assume "cb_prev x = Some a"
    then obtain y where "h a = Some y" "cb_ptr x = cb_ptr y + cb_size y" using heap_prev [OF ok(1) x] by blast
    then show False using ab(2) p(2) pos by simp
  qed
  moreover have "cb_next s \<noteq> Some b"
  proof
    assume "cb_next s = Some b"
    then obtain y where "h b = Some y" "cb_ptr y = cb_ptr s + cb_size s" using heap_next [OF ok(1) p(2)] by blast
    then show False using ab(2) x pos by simp
  qed
  ultimately show ?thesis using x p ab
    by (cases "cb_next s") (auto simp: merge_block_def Let_def upd_block_def merged_next_def)
qed

text \<open>
  Both directions produce the same store up to the identity \<open>k\<close> of the surviving block:
  neighbours \<open>l\<close> and \<open>r\<close> are replaced by \<open>m\<close>, and the outer neighbours point to it.
\<close>

definition join_blocks :: "bid \<Rightarrow> bid \<Rightarrow> bid \<Rightarrow> cache_block \<Rightarrow> cache_block \<Rightarrow> cache_block \<Rightarrow> heap \<Rightarrow> heap" where
  "join_blocks l r k x y m h = (\<lambda>c.
     if c = k then Some m else if c = l \<or> c = r then None
     else if cb_prev x = Some c then map_option (\<lambda>z. z\<lparr>cb_next := Some k\<rparr>) (h c)
     else if cb_next y = Some c then map_option (\<lambda>z. z\<lparr>cb_prev := Some k\<rparr>) (h c)
     else h c)"

definition joined :: "cache_block \<Rightarrow> cache_block \<Rightarrow> cache_block \<Rightarrow> bool" where
  "joined x y m \<longleftrightarrow> cb_ptr m = cb_ptr x \<and> cb_size m = cb_size x + cb_size y \<and> cb_prev m = cb_prev x \<and>
     cb_next m = cb_next y \<and> cb_segment_base m = cb_segment_base x \<and> cb_stream m = cb_stream x \<and>
     cb_small m = cb_small x \<and> 0 < cb_registration_counter m"

lemma outer_neighbours:
  assumes ok: "heap_ok segs h" and x: "h l = Some x" "cb_next x = Some r" and y: "h r = Some y"
  shows "cb_prev x = Some a \<Longrightarrow> a \<noteq> l \<and> a \<noteq> r" "cb_next y = Some c \<Longrightarrow> c \<noteq> l \<and> c \<noteq> r"
    "cb_prev x = Some a \<Longrightarrow> cb_next y = Some c \<Longrightarrow> a \<noteq> c" "l \<noteq> r" "cb_ptr y = cb_ptr x + cb_size x"
    "cb_segment_base y = cb_segment_base x" "cb_stream y = cb_stream x" "cb_small y = cb_small x" "cb_prev y = Some l"
proof -
  have pos: "0 < cb_size z" if "h b = Some z" for b z using heap_okD(3) [OF ok that] by (simp add: inside_ok_def)
  have e: "l \<noteq> r" "cb_ptr y = cb_ptr x + cb_size x" "cb_segment_base y = cb_segment_base x"
    "cb_stream y = cb_stream x" "cb_small y = cb_small x" "cb_prev y = Some l"
    using heap_next [OF ok x] y by (metis option.inject)+
  then show "l \<noteq> r" "cb_ptr y = cb_ptr x + cb_size x" "cb_segment_base y = cb_segment_base x"
    "cb_stream y = cb_stream x" "cb_small y = cb_small x" "cb_prev y = Some l" by blast+
  have a: "h a = Some z \<Longrightarrow> cb_ptr x = cb_ptr z + cb_size z" if "cb_prev x = Some a" for a z
    using heap_prev [OF ok x(1) that] by (metis option.inject)
  have c: "h c = Some z \<Longrightarrow> cb_ptr z = cb_ptr y + cb_size y" if "cb_next y = Some c" for c z
    using heap_next [OF ok y that] by (metis option.inject)
  show "a \<noteq> l \<and> a \<noteq> r" if "cb_prev x = Some a" using a [OF that] pos x(1) y e(2) by fastforce
  show "c \<noteq> l \<and> c \<noteq> r" if "cb_next y = Some c" using c [OF that] pos x(1) y e(2) by fastforce
  show "a \<noteq> c" if q: "cb_prev x = Some a" "cb_next y = Some c"
  proof
    assume "a = c"
    moreover obtain z where z: "h a = Some z" using heap_prev [OF ok x(1) q(1)] by blast
    ultimately show False using a [OF q(1) z] c [OF q(2), of z] e(2) pos [OF x(1)] by simp
  qed
qed

lemma join_link_ok:
  assumes ok: "heap_ok segs h" and x: "h l = Some x" "cb_next x = Some r" and y: "h r = Some y"
    and m: "joined x y m" and k: "k = l \<or> k = r" and z: "join_blocks l r k x y m h c = Some z"
  shows "link_ok (join_blocks l r k x y m h) c z"
proof -
  let ?h = "join_blocks l r k x y m h"
  note o = outer_neighbours [OF ok x y]
  show ?thesis
  proof (cases "c = k")
    case True
    then have zm: "z = m" using z by (simp add: join_blocks_def)
    have "\<exists>w. ?h d = Some w \<and> cb_prev w = Some k \<and> cb_ptr w = cb_ptr m + cb_size m \<and>
        cb_segment_base w = cb_segment_base m \<and> cb_stream w = cb_stream m \<and> cb_small w = cb_small m"
      if d: "cb_next y = Some d" for d
      using heap_next [OF ok y d] o(2) [OF d] o(3) [OF _ d] o(5-8) m k d
      by (fastforce simp: join_blocks_def joined_def)
    moreover have "\<exists>w. ?h a = Some w \<and> cb_next w = Some k" if a: "cb_prev x = Some a" for a
      using heap_prev [OF ok x(1) a] o(1) [OF a] k a by (fastforce simp: join_blocks_def)
    ultimately show ?thesis using zm m True by (simp add: link_ok_def joined_def)
  next
    case False
    then obtain w where w: "h c = Some w" "c \<noteq> l" "c \<noteq> r" and z': "z =
        (if cb_prev x = Some c then w\<lparr>cb_next := Some k\<rparr>
         else if cb_next y = Some c then w\<lparr>cb_prev := Some k\<rparr> else w)"
      using z k by (auto simp: join_blocks_def split: if_splits)
    have "\<exists>v. ?h d = Some v \<and> cb_prev v = Some c \<and> cb_ptr v = cb_ptr z + cb_size z \<and>
        cb_segment_base v = cb_segment_base z \<and> cb_stream v = cb_stream z \<and> cb_small v = cb_small z"
      if d: "cb_next z = Some d" for d
    proof (cases "cb_prev x = Some c")
      case True
      then obtain u where "h c = Some u" "cb_ptr x = cb_ptr u + cb_size u" "cb_segment_base u = cb_segment_base x"
        "cb_stream u = cb_stream x" "cb_small u = cb_small x" using heap_prev [OF ok x(1)] by blast
      then show ?thesis using True d z' w m by (auto simp: join_blocks_def joined_def)
    next
      case F: False
      then have d': "cb_next w = Some d" using d z' by (simp split: if_splits)
      obtain v where v: "h d = Some v" "cb_prev v = Some c" "cb_ptr v = cb_ptr w + cb_size w"
        "cb_segment_base v = cb_segment_base w" "cb_stream v = cb_stream w" "cb_small v = cb_small w" "d \<noteq> c"
        using heap_next [OF ok w(1) d'] by blast
      have "d \<noteq> l" using v(1,2) x(1) F by auto
      moreover have "d \<noteq> r" using v(1,2) y o(9) w(2) by auto
      moreover have "cb_next y \<noteq> Some d"
        using heap_next [OF ok y, of d] v(1,2) w(3) by (metis option.inject)
      ultimately show ?thesis using v F z' k by (auto simp: join_blocks_def)
    qed
    moreover have "\<exists>v. ?h a = Some v \<and> cb_next v = Some c" if a: "cb_prev z = Some a" for a
    proof (cases "cb_next y = Some c")
      case True
      moreover have "cb_prev x \<noteq> Some c" using o(3) [OF _ True, of c] by blast
      ultimately have "a = k" using a z' by simp
      then show ?thesis using True m by (simp add: join_blocks_def joined_def)
    next
      case F: False
      then have a': "cb_prev w = Some a" using a z' by (simp split: if_splits)
      obtain v where v: "h a = Some v" "cb_next v = Some c" using heap_prev [OF ok w(1) a'] by blast
      have "a \<noteq> l" using v x w(3) by auto
      moreover have "a \<noteq> r" using v y F by auto
      moreover have "cb_prev x \<noteq> Some a"
        using heap_prev [OF ok x(1), of a] v w(2) by (metis option.inject)
      ultimately show ?thesis using v k by (auto simp: join_blocks_def)
    qed
    ultimately show ?thesis by (simp add: link_ok_def)
  qed
qed

lemma join_heap_ok:
  assumes ok: "heap_ok segs h" and x: "h l = Some x" "cb_next x = Some r" and y: "h r = Some y"
    and m: "joined x y m" and k: "k = l \<or> k = r"
  shows "heap_ok segs (join_blocks l r k x y m h)"
proof (rule heap_okI)
  let ?h = "join_blocks l r k x y m h"
  note o = outer_neighbours [OF ok x y]
  have "dom ?h \<subseteq> dom h" using x(1) y k by (auto simp: join_blocks_def dom_def split: if_splits)
  then show "finite (dom ?h)" using heap_okD(1) [OF ok] finite_subset by blast
  show "link_ok ?h c z" if "?h c = Some z" for c z by (rule join_link_ok [OF ok x y m k that])
  have other: "\<exists>w. h c = Some w \<and> cb_ptr w = cb_ptr z \<and> cb_size w = cb_size z \<and>
      cb_segment_base w = cb_segment_base z \<and> c \<noteq> l \<and> c \<noteq> r \<and> inside_ok segs z"
    if c: "?h c = Some z" "c \<noteq> k" for c z
  proof -
    obtain w where w: "h c = Some w" "c \<noteq> l" "c \<noteq> r" "z =
        (if cb_prev x = Some c then w\<lparr>cb_next := Some k\<rparr>
         else if cb_next y = Some c then w\<lparr>cb_prev := Some k\<rparr> else w)"
      using c k by (auto simp: join_blocks_def split: if_splits)
    then show ?thesis using heap_okD(3) [OF ok w(1)] by (auto simp: inside_ok_def)
  qed
  have hk: "?h k = Some m" by (simp add: join_blocks_def)
  have im: "inside_ok segs m"
    using heap_okD(3) [OF ok x(1)] heap_okD(3) [OF ok y] m o(5,6)
    by (auto simp: inside_ok_def joined_def)
  show "inside_ok segs z" if "?h c = Some z" for c z
    using that other [OF that] im hk by (cases "c = k") auto
  have km: "disjoint m z" if c: "?h c = Some z" "c \<noteq> k" for c z
  proof -
    obtain w where w: "h c = Some w" "cb_ptr w = cb_ptr z" "cb_size w = cb_size z" "c \<noteq> l" "c \<noteq> r"
      using other [OF c] by blast
    have "disjoint x w" "disjoint y w" using heap_okD(4) [OF ok] x(1) y w(1,4,5) by metis+
    moreover have "0 < cb_size z" using heap_okD(3) [OF ok w(1)] w(3) by (simp add: inside_ok_def)
    ultimately show ?thesis using w(2,3) m o(5) unfolding disjoint_def joined_def by linarith
  qed
  show "disjoint z z'" if c: "?h c = Some z" and d: "?h d = Some z'" and ne: "c \<noteq> d" for c d z z'
  proof (cases "c = k \<or> d = k")
    case True
    then show ?thesis using c d ne hk km [OF c] km [OF d] disjoint_sym by auto
  next
    case False
    then obtain w w' where "h c = Some w" "cb_ptr w = cb_ptr z" "cb_size w = cb_size z"
        "h d = Some w'" "cb_ptr w' = cb_ptr z'" "cb_size w' = cb_size z'"
      using other [OF c] other [OF d] by blast
    then show ?thesis using heap_okD(4) [OF ok, of c w d w'] ne by (simp add: disjoint_def)
  qed
  show "\<exists>c z. ?h c = Some z \<and> cb_segment_base z = p" if t: "segs p = Some t" for p t
  proof -
    obtain c z where c: "h c = Some z" "cb_segment_base z = p" using heap_okD(5) [OF ok t] by blast
    show ?thesis
    proof (cases "c = l \<or> c = r")
      case True
      then have "cb_segment_base m = p" using c x(1) y o(6) m by (auto simp: joined_def)
      then show ?thesis using hk by blast
    next
      case False
      then show ?thesis using c k by (intro exI [of _ c]) (auto simp: join_blocks_def)
    qed
  qed
qed

text \<open>The two directions of \<open>merge_block\<close> as joins.\<close>

lemma set_same_link:
  "cb_prev z = q \<Longrightarrow> z\<lparr>cb_prev := q\<rparr> = z" "cb_next z = q \<Longrightarrow> z\<lparr>cb_next := q\<rparr> = z"
  for z :: cache_block
  by (cases z; simp)+

lemma merge_prev_join:
  assumes ok: "heap_ok segs h" "segs_ok segs" and x: "h b = Some x" and p: "cb_prev x = Some a" "h a = Some s"
  shows "merge_block b a h = join_blocks a b b s x (merged_prev x s) h" "joined s x (merged_prev x s)"
    "cb_next s = Some b"
proof -
  have n: "cb_next s = Some b" using heap_prev [OF ok(1) x p(1)] p(2) by (metis option.inject)
  then show "cb_next s = Some b" .
  note o = outer_neighbours [OF ok(1) p(2) n x]
  have "map_option (\<lambda>z. z\<lparr>cb_prev := Some b\<rparr>) (h c) = h c" if "cb_next x = Some c" for c
    by (rule heap_next [OF ok(1) x that]) (simp add: set_same_link)
  then show "merge_block b a h = join_blocks a b b s x (merged_prev x s) h"
    using o(1-4) by (intro ext) (simp add: merge_prev_apply [OF ok x p] join_blocks_def)
  show "joined s x (merged_prev x s)"
    using o heap_okD(3) [OF ok(1) x] by (auto simp: joined_def merged_prev_def inside_ok_def)
qed

lemma merge_next_join:
  assumes ok: "heap_ok segs h" "segs_ok segs" and x: "h b = Some x" and p: "cb_next x = Some a" "h a = Some s"
  shows "merge_block b a h = join_blocks b a b x s (merged_next x s) h" "joined x s (merged_next x s)"
proof -
  note o = outer_neighbours [OF ok(1) x p]
  have "map_option (\<lambda>z. z\<lparr>cb_next := Some b\<rparr>) (h c) = h c" if "cb_prev x = Some c" for c
    by (rule heap_prev [OF ok(1) x that]) (simp add: set_same_link)
  moreover have "\<not> (cb_prev x = Some c \<and> cb_next s = Some c)" for c using o(3) by blast
  ultimately have "merge_block b a h c = join_blocks b a b x s (merged_next x s) h c" for c
    using o(4) by (simp add: merge_next_apply [OF ok x p] join_blocks_def)
  then show "merge_block b a h = join_blocks b a b x s (merged_next x s) h" by (rule ext)
  show "joined x s (merged_next x s)"
    using o heap_okD(3) [OF ok(1) x] by (auto simp: joined_def merged_next_def inside_ok_def)
qed

section \<open>Segments come and go\<close>

lemma heap_ok_add_segment:
  assumes ok: "heap_ok segs h" "segs_ok (segs(p \<mapsto> t))" and new: "h b = None" "segs p = None"
    and x: "cb_ptr x = p" "cb_segment_base x = p" "cb_size x = rs_size t" "cb_prev x = None" "cb_next x = None"
      "0 < cb_registration_counter x"
  shows "heap_ok (segs(p \<mapsto> t)) (h(b \<mapsto> x))"
proof (rule heap_okI)
  let ?s = "segs(p \<mapsto> t)" and ?h = "h(b \<mapsto> x)"
  show "finite (dom ?h)" using heap_okD(1) [OF ok(1)] by simp
  have keep: "link_ok ?h c y" if "link_ok h c y" for c y
    using that new(1) by (auto simp: link_ok_def)
  have own: "link_ok ?h b x" using x(4,5) by (simp add: link_ok_def)
  show "link_ok ?h c y" if cy: "?h c = Some y" for c y
  proof (cases "c = b")
    case True
    then show ?thesis using cy own by simp
  next
    case False
    then have "h c = Some y" using cy by simp
    then show ?thesis by (rule keep [OF heap_okD(2) [OF ok(1)]])
  qed
  have "?s p = Some t" by simp
  then have t: "0 < rs_size t" using ok(2) unfolding segs_ok_def by blast
  have ne: "cb_segment_base y \<noteq> p" if "h c = Some y" for c y
    using heap_okD(3) [OF ok(1) that] new(2) by (auto simp: inside_ok_def)
  have "inside_ok ?s x" using x t by (simp add: inside_ok_def)
  moreover have "inside_ok ?s y" if "h c = Some y" for c y
    using heap_okD(3) [OF ok(1) that] ne [OF that] by (simp add: inside_ok_def)
  ultimately show "inside_ok ?s y" if "?h c = Some y" for c y
    using that by (auto split: if_splits)
  have dx: "disjoint x y" if y: "h c = Some y" for c y
  proof -
    obtain u where u: "segs (cb_segment_base y) = Some u" "cb_segment_base y \<le> cb_ptr y"
        "cb_ptr y + cb_size y \<le> cb_segment_base y + rs_size u"
      using heap_okD(3) [OF ok(1) y] by (auto simp: inside_ok_def)
    have e: "?s p = Some t" "?s (cb_segment_base y) = Some u" using u(1) ne [OF y] by simp_all
    have lt: "?s a = Some c \<Longrightarrow> ?s d = Some e \<Longrightarrow> a < d \<Longrightarrow> a + rs_size c \<le> d" for a c d e
      using ok(2) unfolding segs_ok_def by blast
    have "p < cb_segment_base y \<or> cb_segment_base y < p" using ne [OF y] by auto
    then show ?thesis
      using lt [OF e] lt [OF e(2,1)] u(2,3) x(1,3) by (auto simp: disjoint_def)
  qed
  show "disjoint y z" if "?h c = Some y" "?h d = Some z" "c \<noteq> d" for c d y z
    using that dx [of c y] dx [of d z] heap_okD(4) [OF ok(1), of c y d z] disjoint_sym [of x y]
    by (cases "c = b"; cases "d = b") simp_all
  show "\<exists>c y. ?h c = Some y \<and> cb_segment_base y = q" if u: "?s q = Some u" for q u
  proof (cases "q = p")
    case True
    then show ?thesis using x(2) by auto
  next
    case False
    then obtain c y where "h c = Some y" "cb_segment_base y = q" using u heap_okD(5) [OF ok(1), of q u] by auto
    then show ?thesis using new(1) by (intro exI [of _ c]) auto
  qed
qed

lemma whole_segment:
  assumes ok: "heap_ok segs h" and x: "h b = Some x" "\<not> is_split x"
  shows "cb_ptr x = cb_segment_base x" "\<exists>t. segs (cb_segment_base x) = Some t \<and> rs_size t = cb_size x"
    "h c = Some y \<Longrightarrow> c \<noteq> b \<Longrightarrow> cb_segment_base y \<noteq> cb_segment_base x"
proof -
  obtain t where t: "segs (cb_segment_base x) = Some t" "cb_ptr x = cb_segment_base x"
      "cb_ptr x + cb_size x = cb_segment_base x + rs_size t"
    using heap_okD(3) [OF ok x(1)] x(2) by (auto simp: inside_ok_def is_split_def)
  then show "cb_ptr x = cb_segment_base x" "\<exists>t. segs (cb_segment_base x) = Some t \<and> rs_size t = cb_size x" by auto
  assume y: "h c = Some y" "c \<noteq> b"
  have "disjoint x y" using heap_okD(4) [OF ok x(1) y(1)] y(2) by auto
  then show "cb_segment_base y \<noteq> cb_segment_base x"
    using heap_okD(3) [OF ok y(1)] t by (auto simp: inside_ok_def disjoint_def)
qed

lemma heap_ok_remove_segment:
  assumes ok: "heap_ok segs h" and x: "h b = Some x" "\<not> is_split x"
  shows "heap_ok (segs(cb_segment_base x := None)) (h(b := None))"
proof (rule heap_okI)
  note w = whole_segment(3) [OF ok x]
  let ?h = "h(b := None)" and ?s = "segs(cb_segment_base x := None)"
  show "finite (dom ?h)" using heap_okD(1) [OF ok] by simp
  show "link_ok ?h c y" if y: "?h c = Some y" for c y
  proof -
    have y': "h c = Some y" "c \<noteq> b" using y by (auto split: if_splits)
    have "d \<noteq> b" if "cb_next y = Some d" for d
      using heap_next [OF ok y'(1) that] x by (metis is_split_def option.distinct(1) option.inject)
    moreover have "d \<noteq> b" if "cb_prev y = Some d" for d
      using heap_prev [OF ok y'(1) that] x by (metis is_split_def option.distinct(1) option.inject)
    ultimately show ?thesis using heap_okD(2) [OF ok y'(1)] by (auto simp: link_ok_def)
  qed
  show "inside_ok ?s y" if "?h c = Some y" for c y
    using that heap_okD(3) [OF ok, of c y] w [of c y] by (auto simp: inside_ok_def split: if_splits)
  show "disjoint y z" if "?h c = Some y" "?h d = Some z" "c \<noteq> d" for c d y z
    using that heap_okD(4) [OF ok] by (auto split: if_splits)
  show "\<exists>c y. ?h c = Some y \<and> cb_segment_base y = q" if u: "?s q = Some u" for q u
  proof -
    obtain c y where "h c = Some y" "cb_segment_base y = q" "q \<noteq> cb_segment_base x"
      using u heap_okD(5) [OF ok, of q u] by (auto split: if_splits)
    then show ?thesis using x(1) by (intro exI [of _ c]) auto
  qed
qed

section \<open>Changes that leave the shape alone\<close>

definition same_shape :: "cache_block \<Rightarrow> cache_block \<Rightarrow> bool" where
  "same_shape x y \<longleftrightarrow> cb_ptr x = cb_ptr y \<and> cb_size x = cb_size y \<and> cb_stream x = cb_stream y \<and>
     cb_small x = cb_small y \<and> cb_prev x = cb_prev y \<and> cb_next x = cb_next y \<and>
     cb_segment_base x = cb_segment_base y \<and> cb_registration_counter x = cb_registration_counter y"

lemma heap_ok_same_shape:
  assumes ok: "heap_ok segs h" and x: "h b = Some x" "same_shape x y"
  shows "heap_ok segs (h(b \<mapsto> y))"
proof (rule heap_okI)
  let ?h = "h(b \<mapsto> y)"
  have old: "\<exists>z'. h c = Some z' \<and> same_shape z' z" if "?h c = Some z" for c z
    using that x by (auto simp: same_shape_def split: if_splits)
  have new: "\<exists>z'. ?h c = Some z' \<and> same_shape z z'" if "h c = Some z" for c z
    using that x by (auto simp: same_shape_def)
  show "finite (dom ?h)" using heap_okD(1) [OF ok] by simp
  show "link_ok ?h c z" if c: "?h c = Some z" for c z
  proof -
    obtain z' where "h c = Some z'" "same_shape z' z" using old [OF c] by blast
    then have "link_ok h c z" using heap_okD(2) [OF ok, of c z'] by (simp add: link_ok_def same_shape_def)
    then show ?thesis unfolding link_ok_def using x by (auto simp: same_shape_def)
  qed
  show "inside_ok segs z" if "?h c = Some z" for c z
    using old [OF that] heap_okD(3) [OF ok, of c] by (auto simp: inside_ok_def same_shape_def)
  show "disjoint z w" if cd: "?h c = Some z" "?h d = Some w" "c \<noteq> d" for c d z w
  proof -
    obtain z' w' where q: "h c = Some z'" "same_shape z' z" "h d = Some w'" "same_shape w' w"
      using old [OF cd(1)] old [OF cd(2)] by blast
    have "disjoint z' w'" using heap_okD(4) [OF ok q(1,3) cd(3)] .
    then show ?thesis using q(2,4) by (simp add: disjoint_def same_shape_def)
  qed
  show "\<exists>c z. ?h c = Some z \<and> cb_segment_base z = p" if u: "segs p = Some u" for p u
  proof -
    obtain c z where "h c = Some z" "cb_segment_base z = p" using heap_okD(5) [OF ok u] by blast
    then show ?thesis using x by (cases "c = b") (auto simp: same_shape_def)
  qed
qed

section \<open>Sums over blocks and segments\<close>

definition block_sum :: "(bid \<Rightarrow> cache_block \<Rightarrow> nat) \<Rightarrow> heap \<Rightarrow> nat" where
  "block_sum f h = (\<Sum>b\<in>dom h. f b (the (h b)))"

definition segment_sum :: "segments \<Rightarrow> nat" where
  "segment_sum segs = (\<Sum>p\<in>dom segs. rs_size (the (segs p)))"

lemma block_sum_del:
  assumes "finite (dom h)" "h b = Some x"
  shows "block_sum f (h(b := None)) + f b x = block_sum f h"
proof -
  have "dom h = insert b (dom h - {b})" using assms(2) by auto
  then have "block_sum f h = f b x + (\<Sum>c\<in>dom h - {b}. f c (the (h c)))"
    unfolding block_sum_def using assms by (metis (no_types, lifting) domI option.sel sum.remove)
  moreover have "block_sum f (h(b := None)) = (\<Sum>c\<in>dom h - {b}. f c (the (h c)))"
    unfolding block_sum_def by (rule sum.cong) auto
  ultimately show ?thesis by simp
qed

lemma block_sum_new:
  assumes "finite (dom h)" "h b = None"
  shows "block_sum f (h(b \<mapsto> y)) = block_sum f h + f b y"
  using block_sum_del [of "h(b \<mapsto> y)" b y f] assms by (simp add: fun_upd_idem)

lemma block_sum_upd:
  assumes "finite (dom h)" "h b = Some x"
  shows "block_sum f (h(b \<mapsto> y)) + f b x = block_sum f h + f b y"
  using block_sum_del [OF assms, of f] block_sum_new [of "h(b := None)" b f y] assms(1) by simp

lemma block_sum_le:
  assumes "\<And>b x. h b = Some x \<Longrightarrow> f b x \<le> g b x"
  shows "block_sum f h \<le> block_sum g h"
  unfolding block_sum_def using assms by (intro sum_mono) auto

lemma block_sum_cong:
  assumes "dom h = dom h'" "\<And>b x y. h b = Some x \<Longrightarrow> h' b = Some y \<Longrightarrow> f b x = g b y"
  shows "block_sum f h = block_sum g h'"
  unfolding block_sum_def
proof (rule sum.cong [OF assms(1)])
  fix b assume "b \<in> dom h'"
  then obtain x y where "h b = Some x" "h' b = Some y" using assms(1) by blast
  then show "f b (the (h b)) = g b (the (h' b))" using assms(2) by simp
qed

lemma segment_sum_new: "finite (dom segs) \<Longrightarrow> segs p = None \<Longrightarrow> segment_sum (segs(p \<mapsto> t)) = segment_sum segs + rs_size t"
proof -
  assume a: "finite (dom segs)" "segs p = None"
  then have "p \<notin> dom segs" by auto
  moreover have "(\<Sum>q\<in>dom segs. rs_size (the ((segs(p \<mapsto> t)) q))) = segment_sum segs"
    unfolding segment_sum_def using a by (intro sum.cong) auto
  ultimately show ?thesis using a by (simp add: segment_sum_def)
qed

lemma segment_sum_del:
  "finite (dom segs) \<Longrightarrow> segs p = Some t \<Longrightarrow> segment_sum (segs(p := None)) + rs_size t = segment_sum segs"
  using segment_sum_new [of "segs(p := None)" p t] by (simp add: fun_upd_idem)

lemma segment_sum_bound:
  assumes "segs_ok segs"
  shows "segment_sum segs < 2 ^ 64"
proof -
  let ?A = "\<lambda>p. {p..<p + rs_size (the (segs p))}"
  have fin: "finite (dom segs)" using assms by (simp add: segs_ok_def)
  have "?A p \<inter> ?A q = {}" if "p \<in> dom segs" "q \<in> dom segs" "p \<noteq> q" for p q
  proof -
    obtain r t where "segs p = Some r" "segs q = Some t" using \<open>p \<in> dom segs\<close> \<open>q \<in> dom segs\<close> by auto
    then have "p < q \<Longrightarrow> p + rs_size (the (segs p)) \<le> q" "q < p \<Longrightarrow> q + rs_size (the (segs q)) \<le> p"
      using assms unfolding segs_ok_def by auto
    then show ?thesis using that(3) by (cases "p < q") auto
  qed
  then have "card (\<Union>p\<in>dom segs. ?A p) = (\<Sum>p\<in>dom segs. card (?A p))"
    using fin by (intro card_UN_disjoint) auto
  then have "segment_sum segs = card (\<Union>p\<in>dom segs. ?A p)" by (simp add: segment_sum_def)
  also have "(\<Union>p\<in>dom segs. ?A p) \<subseteq> {1..<2 ^ 64}" using assms by (fastforce simp: segs_ok_def)
  then have "card (\<Union>p\<in>dom segs. ?A p) \<le> card {1..<2 ^ 64 :: nat}" by (rule card_mono [rotated]) simp
  finally show ?thesis by simp
qed

text \<open>Splitting and joining, for a weight that does not look at the links.\<close>

definition link_blind :: "(bid \<Rightarrow> cache_block \<Rightarrow> nat) \<Rightarrow> bool" where
  "link_blind f \<longleftrightarrow> (\<forall>b x q. f b (x\<lparr>cb_next := q\<rparr>) = f b x \<and> f b (x\<lparr>cb_prev := q\<rparr>) = f b x)"

lemma split_block_sum:
  assumes ok: "heap_ok segs h" "segs_ok segs" and x: "h b = Some x" and nb: "h nb = None"
    and r: "0 < r" "r < cb_size x" and f: "link_blind f"
  shows "block_sum f (split_block b nb r h) + f b x = block_sum f h + f nb (split_head x b r) + f b (split_tail x nb r)"
proof -
  note ap = split_block_apply [OF ok x nb r]
  have fin: "finite (dom h)" by (rule heap_okD(1) [OF ok(1)])
  let ?h1 = "h(nb \<mapsto> split_head x b r, b \<mapsto> split_tail x nb r)"
  have "block_sum f (split_block b nb r h) = block_sum f ?h1"
  proof (rule block_sum_cong)
    show "dom (split_block b nb r h) = dom ?h1" using x by (auto simp: ap dom_def split: if_splits)
    show "f c y = f c z" if "split_block b nb r h c = Some y" "?h1 c = Some z" for c y z
      using that f x nb by (auto simp: ap link_blind_def split: if_splits)
  qed
  moreover have "block_sum f ?h1 + f b x = block_sum f (h(nb \<mapsto> split_head x b r)) + f b (split_tail x nb r)"
    using x nb fin by (intro block_sum_upd) auto
  ultimately show ?thesis using block_sum_new [OF fin nb, of f] by simp
qed

lemma join_block_sum:
  assumes ok: "heap_ok segs h" and x: "h l = Some x" "cb_next x = Some r" and y: "h r = Some y"
    and k: "k = l \<or> k = r" and f: "link_blind f"
  shows "block_sum f (join_blocks l r k x y m h) + f l x + f r y = block_sum f h + f k m"
proof -
  note o = outer_neighbours [OF ok x y]
  have fin: "finite (dom h)" by (rule heap_okD(1) [OF ok])
  let ?h1 = "h(l := None, r := None)"
  have "block_sum f (join_blocks l r k x y m h) = block_sum f (?h1(k \<mapsto> m))"
  proof (rule block_sum_cong)
    show "dom (join_blocks l r k x y m h) = dom (?h1(k \<mapsto> m))" using x(1) y k
      by (auto simp: join_blocks_def dom_def split: if_splits)
    show "f c z = f c w" if "join_blocks l r k x y m h c = Some z" "(?h1(k \<mapsto> m)) c = Some w" for c z w
      using that f k by (auto simp: join_blocks_def link_blind_def split: if_splits)
  qed
  moreover have "block_sum f (?h1(k \<mapsto> m)) = block_sum f ?h1 + f k m"
    using fin k by (intro block_sum_new) auto
  moreover have "block_sum f ?h1 + f r y = block_sum f (h(l := None))" using fin y o(4) by (intro block_sum_del) auto
  moreover have "block_sum f (h(l := None)) + f l x = block_sum f h" by (rule block_sum_del [OF fin x(1)])
  ultimately show ?thesis by simp
qed

end
