(* ===== verification/GPU_Allocator.thy ===== *)
theory GPU_Allocator
  imports GPU_Heap "HOL-Library.AList" Complex_Main
begin

text \<open>
  \<open>cuda_caching_allocator::Impl\<close>: the allocator state and every operation of the class. The CUDA
  runtime, the registered free-memory callbacks and what other threads do while \<open>allocate\<close> has
  dropped the lock are a parameter (\<open>gpu_world\<close>) consulted with a clock, so that an answer may
  change from call to call. An exception is an \<open>Inl\<close> result beside the state it leaves behind.
\<close>

section \<open>State\<close>

type_synonym event = nat

record alloc_state =
  a_device :: int
  a_max_cached_bytes :: nat
  a_memory_fraction :: real
  a_allowed_memory_maximum :: nat
  a_bytes_cached :: nat
  a_peak_bytes_cached :: nat
  a_small :: "bid list" \<comment> \<open>\<open>small_blocks_\<close>, a \<open>std::set\<close> in iteration order\<close>
  a_large :: "bid list"
  a_allocated :: "(addr \<times> bid) list"
  a_events :: "(stream \<times> (event \<times> bid) list) list"
  a_event_pool :: "event list"
  a_callbacks :: "nat list"
  a_segments :: "(addr \<times> raw_segment) list"
  a_registration_counter :: int
  a_stats :: unified_cache_stats
  a_history :: gpu_memory_history
  a_heap :: heap
  a_next_id :: bid \<comment> \<open>supply of identities for \<open>new cache_block\<close>\<close>
  a_clock :: nat \<comment> \<open>number of questions asked to the world\<close>
  a_driver :: "cu_call list" \<comment> \<open>resource calls made to the driver so far\<close>

record gpu_world =
  w_api :: "nat \<Rightarrow> segments \<Rightarrow> cu_api"
  w_event_create :: "nat \<Rightarrow> nat + event"
  w_event_record :: "nat \<Rightarrow> event \<Rightarrow> stream \<Rightarrow> nat"
  w_event_query :: "nat \<Rightarrow> event \<Rightarrow> nat"
  w_event_sync :: "nat \<Rightarrow> event \<Rightarrow> nat"
  w_mem_total :: "nat \<Rightarrow> nat + nat"
  w_callback :: "nat \<Rightarrow> alloc_state \<Rightarrow> bool \<times> alloc_state"
  w_interfere :: "nat \<Rightarrow> alloc_state \<Rightarrow> alloc_state"

definition cudaErrorNotReady :: nat where "cudaErrorNotReady = 600"

definition new_allocator :: "int \<Rightarrow> nat \<Rightarrow> alloc_state" where
  "new_allocator device max_cached_bytes =
     \<lparr>a_device = device, a_max_cached_bytes = max_cached_bytes, a_memory_fraction = 1,
      a_allowed_memory_maximum = SIZE_MAX, a_bytes_cached = 0, a_peak_bytes_cached = 0,
      a_small = [], a_large = [], a_allocated = [], a_events = [], a_event_pool = [], a_callbacks = [],
      a_segments = [], a_registration_counter = 0, a_stats = stats_reset, a_history = new_history,
      a_heap = Map.empty, a_next_id = 0, a_clock = 0, a_driver = []\<rparr>"

text \<open>The constructor: \<open>device_count\<close> is what \<open>cudaGetDeviceCount\<close> answers.\<close>

definition impl_construct :: "nat + int \<Rightarrow> int \<Rightarrow> nat \<Rightarrow> gpu_exn + alloc_state" where
  "impl_construct device_count device max_cached_bytes =
     (case device_count of
        Inl _ \<Rightarrow> Inl (Runtime_error ''cudaGetDeviceCount'')
      | Inr n \<Rightarrow> if 0 \<le> device \<and> device < n then Inr (new_allocator device max_cached_bytes)
                 else Inl (Check_failed ''Invalid CUDA device index''))"

abbreviation segs_of :: "alloc_state \<Rightarrow> segments" where
  "segs_of s \<equiv> map_of (a_segments s)"

abbreviation blk :: "alloc_state \<Rightarrow> bid \<Rightarrow> cache_block" where
  "blk s b \<equiv> the (a_heap s b)"

definition tick :: "alloc_state \<Rightarrow> alloc_state" where
  "tick s = s\<lparr>a_clock := Suc (a_clock s)\<rparr>"

definition upd_stats :: "(unified_cache_stats \<Rightarrow> unified_cache_stats) \<Rightarrow> alloc_state \<Rightarrow> alloc_state" where
  "upd_stats f s = s\<lparr>a_stats := f (a_stats s)\<rparr>"

definition on_block :: "bid \<Rightarrow> (cache_block \<Rightarrow> cache_block) \<Rightarrow> alloc_state \<Rightarrow> alloc_state" where
  "on_block b f s = s\<lparr>a_heap := upd_block b f (a_heap s)\<rparr>"

text \<open>Operations that may throw, in sequence.\<close>

type_synonym 'a op = "alloc_state \<Rightarrow> (gpu_exn + 'a) \<times> alloc_state"

definition return_op :: "'a \<Rightarrow> 'a op" where
  "return_op x s = (Inr x, s)"

definition throw_op :: "gpu_exn \<Rightarrow> 'a op" where
  "throw_op e s = (Inl e, s)"

definition bind_op :: "'a op \<Rightarrow> ('a \<Rightarrow> 'b op) \<Rightarrow> 'b op" where
  "bind_op m f s = (case m s of (Inl e, s') \<Rightarrow> (Inl e, s') | (Inr x, s') \<Rightarrow> f x s')"

definition modify_op :: "(alloc_state \<Rightarrow> alloc_state) \<Rightarrow> unit op" where
  "modify_op f s = (Inr (), f s)"

definition guard_op :: "gpu_world \<Rightarrow> unit op" where
  "guard_op w s =
     (case device_guard_enter (w_api w (a_clock s) (segs_of s)) (a_device s) of
        Inl e \<Rightarrow> (Inl e, tick s)
      | Inr _ \<Rightarrow> (Inr (), tick s))"

section \<open>Pools\<close>

definition pool_of :: "bool \<Rightarrow> alloc_state \<Rightarrow> bid list" where
  "pool_of small s = (if small then a_small s else a_large s)"

definition upd_pool :: "bool \<Rightarrow> (bid list \<Rightarrow> bid list) \<Rightarrow> alloc_state \<Rightarrow> alloc_state" where
  "upd_pool small f s = (if small then s\<lparr>a_small := f (a_small s)\<rparr> else s\<lparr>a_large := f (a_large s)\<rparr>)"

text \<open>\<open>std::set::insert\<close> and \<open>std::set::erase\<close> under \<open>cache_block_comparator\<close>.\<close>

fun pool_insert :: "heap \<Rightarrow> bid \<Rightarrow> bid list \<Rightarrow> bid list" where
  "pool_insert h b [] = [b]"
| "pool_insert h b (c # cs) =
     (if cache_block_less (the (h b)) (the (h c)) then b # c # cs
      else if cache_block_less (the (h c)) (the (h b)) then c # pool_insert h b cs
      else c # cs)"

definition pool_erase :: "heap \<Rightarrow> bid \<Rightarrow> bid list \<Rightarrow> bid list" where
  "pool_erase h b cs =
     filter (\<lambda>c. cache_block_less (the (h c)) (the (h b)) \<or> cache_block_less (the (h b)) (the (h c))) cs"

definition lower_bound :: "heap \<Rightarrow> cache_block \<Rightarrow> bid list \<Rightarrow> bid option" where
  "lower_bound h key cs = List.find (\<lambda>c. \<not> cache_block_less (the (h c)) key) cs"

definition record_trace_locked :: "gpu_memory_trace_action \<Rightarrow> addr \<Rightarrow> nat \<Rightarrow> stream \<Rightarrow> alloc_state \<Rightarrow> alloc_state" where
  "record_trace_locked act address sz st s =
     s\<lparr>a_history := record_entry
        \<lparr>te_action = act, te_address = address, te_size = sz,
         te_total_allocated = bytes_allocated (a_stats s), te_total_reserved = bytes_reserved (a_stats s),
         te_stream = stream_as_int st\<rparr> (a_history s)\<rparr>"

definition get_free_block_locked :: "bool \<Rightarrow> stream \<Rightarrow> nat \<Rightarrow> alloc_state \<Rightarrow> bid option \<times> alloc_state" where
  "get_free_block_locked small st sz s =
     (case lower_bound (a_heap s) (new_cache_block 0 sz st small) (pool_of small s) of
        None \<Rightarrow> (None, s)
      | Some c \<Rightarrow>
          if cb_stream (blk s c) \<noteq> st then (None, s)
          else (Some c, (upd_pool small (remove1 c) s)
                  \<lparr>a_bytes_cached := size_sub (a_bytes_cached s) (cb_size (blk s c))\<rparr>))"

section \<open>Freeing and merging\<close>

definition try_merge_locked :: "bid \<Rightarrow> bid option \<Rightarrow> alloc_state \<Rightarrow> alloc_state" where
  "try_merge_locked dst src s =
     (case src of
        None \<Rightarrow> s
      | Some c \<Rightarrow>
          if cb_allocated (blk s c) \<or> cb_event_count (blk s c) > 0 \<or> cb_stream_uses (blk s c) \<noteq> [] then s
          else (upd_pool (cb_small (blk s dst)) (pool_erase (a_heap s) c) s)
                 \<lparr>a_heap := merge_block dst c (a_heap s)\<rparr>)"

definition free_block_locked :: "bid \<Rightarrow> alloc_state \<Rightarrow> alloc_state" where
  "free_block_locked b s =
     (let freed_size = cb_size (blk s b);
          s1 = try_merge_locked b (cb_prev (blk s b)) s;
          s2 = try_merge_locked b (cb_next (blk s1 b)) s1;
          s3 = upd_pool (cb_small (blk s2 b)) (pool_insert (a_heap s2) b) s2;
          s4 = s3\<lparr>a_bytes_cached := size_add (a_bytes_cached s3) freed_size\<rparr>;
          s5 = s4\<lparr>a_peak_bytes_cached := max (a_peak_bytes_cached s4) (a_bytes_cached s4)\<rparr>
      in record_trace_locked Free_completed (cb_ptr (blk s5 b)) freed_size (cb_stream (blk s5 b)) s5)"

section \<open>Events\<close>

definition acquire_event_locked :: "gpu_world \<Rightarrow> event op" where
  "acquire_event_locked w s =
     (if a_event_pool s \<noteq> []
      then (Inr (last (a_event_pool s)), s\<lparr>a_event_pool := butlast (a_event_pool s)\<rparr>)
      else case w_event_create w (a_clock s) of
             Inl _ \<Rightarrow> (Inl (Runtime_error ''cudaEventCreateWithFlags''), tick s)
           | Inr e \<Rightarrow> (Inr e, tick s))"

definition recycle_event_locked :: "event \<Rightarrow> alloc_state \<Rightarrow> alloc_state" where
  "recycle_event_locked e s = s\<lparr>a_event_pool := a_event_pool s @ [e]\<rparr>"

fun queue_event :: "stream \<Rightarrow> event \<times> bid \<Rightarrow> (stream \<times> (event \<times> bid) list) list
    \<Rightarrow> (stream \<times> (event \<times> bid) list) list" where
  "queue_event st x [] = [(st, [x])]"
| "queue_event st x ((st', q) # evs) =
     (if st' = st then (st', q @ [x]) # evs else (st', q) # queue_event st x evs)"

fun record_events :: "gpu_world \<Rightarrow> bid \<Rightarrow> stream list \<Rightarrow> unit op" where
  "record_events w b [] s = (Inr (), s)"
| "record_events w b (st # sts) s =
     (case acquire_event_locked w s of
        (Inl x, s1) \<Rightarrow> (Inl x, s1)
      | (Inr e, s1) \<Rightarrow>
          if w_event_record w (a_clock s1) e st \<noteq> cudaSuccess
          then (Inl (Runtime_error ''cudaEventRecord''), tick s1)
          else record_events w b sts
                 (on_block b (\<lambda>x. x\<lparr>cb_event_count := cb_event_count x + 1\<rparr>)
                    ((tick s1)\<lparr>a_events := queue_event st (e, b) (a_events s1)\<rparr>)))"

definition insert_events_locked :: "gpu_world \<Rightarrow> bid \<Rightarrow> unit op" where
  "insert_events_locked w b =
     bind_op (guard_op w) (\<lambda>_ s.
       let streams = cb_stream_uses (blk s b)
       in case record_events w b streams (on_block b (\<lambda>x. x\<lparr>cb_stream_uses := []\<rparr>) s) of
            (Inr _, s1) \<Rightarrow> (Inr (), s1)
          | (Inl x, s1) \<Rightarrow>
              (Inl x, if cb_event_count (blk s1 b) = 0 then free_block_locked b s1 else s1))"

text \<open>One queue entry whose event is done.\<close>

definition complete_event :: "event \<Rightarrow> bid \<Rightarrow> alloc_state \<Rightarrow> alloc_state" where
  "complete_event e b s =
     (let s1 = on_block b (\<lambda>x. x\<lparr>cb_event_count := cb_event_count x - 1\<rparr>) (recycle_event_locked e s)
      in if cb_event_count (blk s1 b) = 0 then free_block_locked b s1 else s1)"

text \<open>The loop of \<open>process_events_locked\<close> over one queue; the second component is what is left of it.\<close>

fun drain_queue :: "gpu_world \<Rightarrow> (event \<times> bid) list \<Rightarrow> alloc_state
    \<Rightarrow> (gpu_exn option \<times> (event \<times> bid) list) \<times> alloc_state" where
  "drain_queue w [] s = ((None, []), s)"
| "drain_queue w ((e, b) # q) s =
     (let status = w_event_query w (a_clock s) e
      in if status = cudaSuccess then drain_queue w q (complete_event e b (tick s))
         else if status = cudaErrorNotReady then ((None, (e, b) # q), tick s)
         else ((Some (Runtime_error ''cudaEventQuery''), (e, b) # q), tick s))"

fun drain_streams :: "gpu_world \<Rightarrow> (stream \<times> (event \<times> bid) list) list \<Rightarrow> alloc_state
    \<Rightarrow> (gpu_exn option \<times> (stream \<times> (event \<times> bid) list) list) \<times> alloc_state" where
  "drain_streams w [] s = ((None, []), s)"
| "drain_streams w ((st, q) # evs) s =
     (case drain_queue w q s of
        ((Some x, q'), s1) \<Rightarrow> ((Some x, (st, q') # evs), s1)
      | ((None, q'), s1) \<Rightarrow>
          (case drain_streams w evs s1 of
             ((r, evs'), s2) \<Rightarrow> ((r, if q' = [] then evs' else (st, q') # evs'), s2)))"

text \<open>How a scan of the queues ends: the queues are written back, an error is thrown.\<close>

definition end_scan :: "(gpu_exn option \<times> (stream \<times> (event \<times> bid) list) list) \<times> alloc_state
    \<Rightarrow> (gpu_exn + unit) \<times> alloc_state" where
  "end_scan res =
     (case res of ((r, evs), s) \<Rightarrow>
        (case r of None \<Rightarrow> Inr () | Some x \<Rightarrow> Inl x, s\<lparr>a_events := evs\<rparr>))"

definition process_events_locked :: "gpu_world \<Rightarrow> unit op" where
  "process_events_locked w =
     bind_op (guard_op w) (\<lambda>_ s. end_scan (drain_streams w (a_events s) s))"

text \<open>
  \<open>synchronize_and_free_events_locked\<close>: a queue is erased only after all of its entries were
  waited for, so an error leaves the whole current queue in place.
\<close>

fun sync_queue :: "gpu_world \<Rightarrow> (event \<times> bid) list \<Rightarrow> alloc_state \<Rightarrow> gpu_exn option \<times> alloc_state" where
  "sync_queue w [] s = (None, s)"
| "sync_queue w ((e, b) # q) s =
     (if w_event_sync w (a_clock s) e \<noteq> cudaSuccess
      then (Some (Runtime_error ''cudaEventSynchronize''), tick s)
      else sync_queue w q (complete_event e b (tick s)))"

fun sync_streams :: "gpu_world \<Rightarrow> (stream \<times> (event \<times> bid) list) list \<Rightarrow> alloc_state
    \<Rightarrow> (gpu_exn option \<times> (stream \<times> (event \<times> bid) list) list) \<times> alloc_state" where
  "sync_streams w [] s = ((None, []), s)"
| "sync_streams w ((st, q) # evs) s =
     (case sync_queue w q s of
        (Some x, s1) \<Rightarrow> ((Some x, (st, q) # evs), s1)
      | (None, s1) \<Rightarrow> sync_streams w evs s1)"

definition synchronize_and_free_events_locked :: "gpu_world \<Rightarrow> unit op" where
  "synchronize_and_free_events_locked w =
     bind_op (modify_op (upd_stats (\<lambda>t. t\<lparr>num_sync_all_streams := size_add (num_sync_all_streams t) 1\<rparr>))) (\<lambda>_.
     bind_op (guard_op w) (\<lambda>_ s. end_scan (sync_streams w (a_events s) s)))"

section \<open>Releasing segments\<close>

definition release_segment_locked :: "bid \<Rightarrow> alloc_state \<Rightarrow> alloc_state" where
  "release_segment_locked b s =
     (let x = blk s b;
          base = (if cb_segment_base x \<noteq> 0 then cb_segment_base x else cb_ptr x);
          (raw, s1) = (case map_of (a_segments s) base of
               Some r \<Rightarrow> (r, s\<lparr>a_segments := AList.delete base (a_segments s)\<rparr>)
             | None \<Rightarrow> (\<lparr>rs_ptr = cb_ptr x, rs_size = cb_size x, rs_vm = cb_vm_backed x, rs_handle = 0\<rparr>, s));
          s2 = upd_stats (\<lambda>t. t\<lparr>driver_frees := size_add (driver_frees t) 1,
                 cache_evictions := size_add (cache_evictions t) 1,
                 bytes_reserved := size_sub (bytes_reserved t) (cb_size x)\<rparr>) s1;
          s3 = record_trace_locked Segment_free (cb_ptr x) (cb_size x) (cb_stream x) s2
      in s3\<lparr>a_heap := (a_heap s3)(b := None), a_driver := a_driver s3 @ free_segment raw\<rparr>)"

text \<open>Taking a cached block out of its pool and returning its segment.\<close>

definition evict :: "bool \<Rightarrow> bid \<Rightarrow> alloc_state \<Rightarrow> alloc_state" where
  "evict small b s =
     release_segment_locked b
       (upd_pool small (pool_erase (a_heap s) b)
          (s\<lparr>a_bytes_cached := size_sub (a_bytes_cached s) (cb_size (blk s b))\<rparr>))"

definition evict_unsplit :: "bool \<Rightarrow> alloc_state \<Rightarrow> bid \<Rightarrow> alloc_state" where
  "evict_unsplit small s b = (if \<not> is_split (blk s b) then evict small b s else s)"

definition release_pool_blocks_locked :: "bool \<Rightarrow> alloc_state \<Rightarrow> alloc_state" where
  "release_pool_blocks_locked small s = foldl (evict_unsplit small) s (pool_of small s)"

definition release_cached_blocks_locked :: "gpu_world \<Rightarrow> unit op" where
  "release_cached_blocks_locked w =
     bind_op (synchronize_and_free_events_locked w) (\<lambda>_.
       modify_op (\<lambda>s. release_pool_blocks_locked False (release_pool_blocks_locked True s)))"

definition trim_victim :: "alloc_state \<Rightarrow> bid option" where
  "trim_victim s =
     foldl (\<lambda>v b. if \<not> is_split (blk s b) \<and>
                    (case v of None \<Rightarrow> True | Some u \<Rightarrow> cb_size (blk s b) > cb_size (blk s u))
                  then Some b else v) None (a_small s @ a_large s)"

primrec trim_loop :: "nat \<Rightarrow> alloc_state \<Rightarrow> alloc_state" where
  "trim_loop 0 s = s"
| "trim_loop (Suc n) s =
     (if a_bytes_cached s > a_max_cached_bytes s
      then case trim_victim s of
             None \<Rightarrow> s
           | Some v \<Rightarrow> trim_loop n (evict (cb_small (blk s v)) v s)
      else s)"

text \<open>Every pass takes a block out of the pools, so their size bounds the number of passes.\<close>

definition trim_cache_locked :: "alloc_state \<Rightarrow> alloc_state" where
  "trim_cache_locked s =
     (if a_max_cached_bytes s = SIZE_MAX then s
      else trim_loop (length (a_small s @ a_large s)) s)"

section \<open>Allocating\<close>

definition should_split :: "cache_block \<Rightarrow> nat \<Rightarrow> bool" where
  "should_split x sz =
     (let remaining = size_sub (cb_size x) sz
      in if cb_small x then remaining \<ge> kMinBlockSize else remaining > kSmallSize)"

definition split_found :: "bid \<Rightarrow> nat \<Rightarrow> alloc_state \<Rightarrow> bid \<times> alloc_state" where
  "split_found b rounded s =
     (if should_split (blk s b) rounded
      then let nb = a_next_id s;
               s1 = s\<lparr>a_heap := split_block b nb rounded (a_heap s), a_next_id := Suc nb\<rparr>;
               s2 = upd_pool (cb_small (blk s1 b)) (pool_insert (a_heap s1) b) s1
           in (nb, s2\<lparr>a_bytes_cached := size_add (a_bytes_cached s2) (cb_size (blk s2 b))\<rparr>)
      else (b, s))"

definition emplace_alist :: "'k \<Rightarrow> 'v \<Rightarrow> ('k \<times> 'v) list \<Rightarrow> ('k \<times> 'v) list" where
  "emplace_alist k v xs = (if map_of xs k = None then xs @ [(k, v)] else xs)"

definition mark_allocated :: "bid \<Rightarrow> nat \<Rightarrow> alloc_state \<Rightarrow> alloc_state" where
  "mark_allocated b orig_size s =
     (let s1 = on_block b (\<lambda>x. x\<lparr>cb_allocated := True, cb_requested_size := orig_size\<rparr>) s;
          s2 = s1\<lparr>a_allocated := emplace_alist (cb_ptr (blk s1 b)) b (a_allocated s1)\<rparr>;
          s3 = upd_stats (\<lambda>t. t\<lparr>successful_allocations := size_add (successful_allocations t) 1,
                 bytes_allocated := size_add (bytes_allocated t) (cb_size (blk s2 b))\<rparr>) s2;
          s4 = upd_stats (\<lambda>t. t\<lparr>peak_bytes_allocated := bump_peak (peak_bytes_allocated t) (bytes_allocated t)\<rparr>) s3
      in record_trace_locked Alloc (cb_ptr (blk s4 b)) (cb_size (blk s4 b)) (cb_stream (blk s4 b)) s4)"

definition alloc_found_block_locked :: "bid \<Rightarrow> nat \<Rightarrow> nat \<Rightarrow> alloc_state \<Rightarrow> addr \<times> alloc_state" where
  "alloc_found_block_locked b rounded orig_size s =
     (let (b', s1) = split_found b rounded s; s2 = mark_allocated b' orig_size s1
      in (cb_ptr (blk s2 b'), s2))"

text \<open>The new block and its bookkeeping, once the driver has returned the segment \<open>raw\<close>.\<close>

definition register_segment :: "raw_segment \<Rightarrow> stream \<Rightarrow> bool \<Rightarrow> alloc_state \<Rightarrow> bid \<times> alloc_state" where
  "register_segment raw st small s =
     (let b = a_next_id s; reg = a_registration_counter s + 1;
          x = (new_cache_block (rs_ptr raw) (rs_size raw) st small)
            \<lparr>cb_vm_backed := rs_vm raw, cb_registration_counter := reg\<rparr>;
          s1 = s\<lparr>a_heap := (a_heap s)(b \<mapsto> x), a_next_id := Suc b, a_registration_counter := reg,
                 a_segments := emplace_alist (rs_ptr raw) raw (a_segments s)\<rparr>;
          s2 = upd_stats (\<lambda>t. t\<lparr>driver_allocations := size_add (driver_allocations t) 1,
                 bytes_reserved := size_add (bytes_reserved t) (rs_size raw)\<rparr>) s1;
          s3 = upd_stats (\<lambda>t. t\<lparr>peak_bytes_reserved := bump_peak (peak_bytes_reserved t) (bytes_reserved t)\<rparr>) s2
      in (b, record_trace_locked Segment_alloc (rs_ptr raw) (rs_size raw) st s3))"

definition alloc_segment_unlocked :: "gpu_world \<Rightarrow> bool \<Rightarrow> stream \<Rightarrow> nat \<Rightarrow> bool \<Rightarrow> bid option op" where
  "alloc_segment_unlocked w small st alloc_size is_retry s =
     (let s1 = (if is_retry then upd_stats (\<lambda>t. t\<lparr>num_alloc_retries := size_add (num_alloc_retries t) 1\<rparr>) s else s);
          s2 = w_interfere w (a_clock s1) (tick s1);
          (r, calls) = malloc_segment (w_api w (a_clock s2) (segs_of s2)) (a_device s2) alloc_size;
          s3 = (tick s2)\<lparr>a_driver := a_driver s2 @ calls\<rparr>
      in case r of
           Inl e \<Rightarrow> (Inl e, s3)
         | Inr (raw, err) \<Rightarrow>
             if rs_ptr raw = 0
             then if err \<noteq> cudaSuccess \<and> err \<noteq> cudaErrorMemoryAllocation
                  then (Inl (Runtime_error ''cudaMalloc''), s3) else (Inr None, s3)
             else let (b, s4) = register_segment raw st small s3 in (Inr (Some b), s4))"

definition reserved_would_exceed_locked :: "nat \<Rightarrow> alloc_state \<Rightarrow> bool" where
  "reserved_would_exceed_locked alloc_size s \<longleftrightarrow>
     size_add (bytes_reserved (a_stats s)) alloc_size > a_allowed_memory_maximum s"

definition fail_oom_locked :: "nat \<Rightarrow> stream \<Rightarrow> 'a op" where
  "fail_oom_locked requested st s =
     (Inl Bad_alloc,
      record_trace_locked Oom 0 requested st
        (upd_stats (\<lambda>t. t\<lparr>num_ooms := size_add (num_ooms t) 1\<rparr>) s))"

fun run_callbacks :: "gpu_world \<Rightarrow> nat list \<Rightarrow> alloc_state \<Rightarrow> bool \<times> alloc_state" where
  "run_callbacks w [] s = (False, s)"
| "run_callbacks w (c # cs) s =
     (let (freed, s1) = w_callback w c s; (more, s2) = run_callbacks w cs s1 in (freed \<or> more, s2))"

definition trigger_free_memory_callbacks_locked :: "gpu_world \<Rightarrow> alloc_state \<Rightarrow> bool \<times> alloc_state" where
  "trigger_free_memory_callbacks_locked w s = run_callbacks w (a_callbacks s) s"

text \<open>The cache lookup of \<open>allocate\<close>: the pool, then the callbacks, then the pool again.\<close>

definition find_cached :: "gpu_world \<Rightarrow> bool \<Rightarrow> stream \<Rightarrow> nat \<Rightarrow> alloc_state \<Rightarrow> bid option \<times> alloc_state" where
  "find_cached w small st rounded s =
     (case get_free_block_locked small st rounded s of
        (Some b, s1) \<Rightarrow> (Some b, s1)
      | (None, s1) \<Rightarrow>
          (case trigger_free_memory_callbacks_locked w s1 of
             (False, s2) \<Rightarrow> (None, s2)
           | (True, s2) \<Rightarrow> get_free_block_locked small st rounded s2))"

definition when_op :: "(alloc_state \<Rightarrow> bool) \<Rightarrow> unit op \<Rightarrow> unit op" where
  "when_op P m s = (if P s then m s else (Inr (), s))"

text \<open>The miss path of \<open>allocate\<close>: the reservation limit, the driver, and one retry after a flush.\<close>

definition alloc_from_driver :: "gpu_world \<Rightarrow> bool \<Rightarrow> stream \<Rightarrow> nat \<Rightarrow> nat \<Rightarrow> bid op" where
  "alloc_from_driver w small st alloc_size sz =
     bind_op (when_op (reserved_would_exceed_locked alloc_size) (release_cached_blocks_locked w)) (\<lambda>_.
     bind_op (when_op (reserved_would_exceed_locked alloc_size) (fail_oom_locked sz st)) (\<lambda>_.
     bind_op (alloc_segment_unlocked w small st alloc_size False) (\<lambda>b.
       case b of
         Some b \<Rightarrow> return_op b
       | None \<Rightarrow>
           bind_op (release_cached_blocks_locked w) (\<lambda>_.
           bind_op (alloc_segment_unlocked w small st alloc_size True) (\<lambda>b.
             case b of Some b \<Rightarrow> return_op b | None \<Rightarrow> fail_oom_locked sz st)))))"

definition find_block :: "gpu_world \<Rightarrow> bool \<Rightarrow> stream \<Rightarrow> nat \<Rightarrow> nat \<Rightarrow> nat \<Rightarrow> bid op" where
  "find_block w small st rounded alloc_size sz s =
     (case find_cached w small st rounded s of
        (Some b, s1) \<Rightarrow> (Inr b, upd_stats (\<lambda>t. t\<lparr>cache_hits := size_add (cache_hits t) 1\<rparr>) s1)
      | (None, s1) \<Rightarrow>
          alloc_from_driver w small st alloc_size sz
            (upd_stats (\<lambda>t. t\<lparr>cache_misses := size_add (cache_misses t) 1\<rparr>) s1))"

definition impl_allocate :: "gpu_world \<Rightarrow> nat \<Rightarrow> stream \<Rightarrow> addr op" where
  "impl_allocate w sz st s =
     (if sz = 0 then (Inl (Check_failed ''cuda_caching_allocator cannot allocate zero bytes''), s)
      else
        (let rounded = round_request_size sz;
             small = (rounded \<le> kSmallSize);
             alloc_size = segment_size_for rounded
         in bind_op (process_events_locked w) (\<lambda>_.
            bind_op (find_block w small st rounded alloc_size sz) (\<lambda>b s1.
              let (p, s2) = alloc_found_block_locked b rounded sz s1
              in (Inr p, trim_cache_locked s2))) s))"

text \<open>The public wrapper: a request for zero bytes yields a null pointer.\<close>

definition allocate :: "gpu_world \<Rightarrow> nat \<Rightarrow> stream \<Rightarrow> addr op" where
  "allocate w sz st = (if sz = 0 then return_op 0 else impl_allocate w sz st)"

section \<open>Deallocating and the other operations\<close>

definition unlink_allocation :: "addr \<Rightarrow> bid \<Rightarrow> stream \<Rightarrow> alloc_state \<Rightarrow> alloc_state" where
  "unlink_allocation p b st s =
     (let s1 = s\<lparr>a_allocated := AList.delete p (a_allocated s)\<rparr>;
          s2 = on_block b (\<lambda>x. x\<lparr>cb_allocated := False\<rparr>) s1;
          s3 = upd_stats (\<lambda>t. t\<lparr>successful_frees := size_add (successful_frees t) 1,
                 bytes_allocated := size_sub (bytes_allocated t) (cb_size (blk s2 b))\<rparr>) s2;
          s4 = record_trace_locked Free_requested p (cb_size (blk s3 b)) (cb_stream (blk s3 b)) s3
      in if st \<noteq> 0 \<and> st \<noteq> cb_stream (blk s4 b)
         then on_block b (\<lambda>x. x\<lparr>cb_stream_uses := insort_insert st (cb_stream_uses x)\<rparr>) s4 else s4)"

text \<open>The end of \<open>deallocate\<close>: the block waits for events or goes back to its pool.\<close>

definition finish_dealloc :: "gpu_world \<Rightarrow> bid \<Rightarrow> unit op" where
  "finish_dealloc w b s =
     bind_op (if cb_stream_uses (blk s b) \<noteq> [] then insert_events_locked w b
              else modify_op (free_block_locked b))
       (\<lambda>_. modify_op trim_cache_locked) s"

definition deallocate :: "gpu_world \<Rightarrow> addr \<Rightarrow> stream \<Rightarrow> unit op" where
  "deallocate w p st =
     (if p = 0 then return_op ()
      else bind_op (process_events_locked w) (\<lambda>_ s.
        case map_of (a_allocated s) p of
          None \<Rightarrow> (Inl (Check_failed ''cuda_caching_allocator does not own the provided pointer''), s)
        | Some b \<Rightarrow>
            if \<not> cb_allocated (blk s b)
            then (Inl (Check_failed ''cuda_caching_allocator detected a double free''), s)
            else finish_dealloc w b (unlink_allocation p b st s)))"

definition record_stream :: "addr \<Rightarrow> stream \<Rightarrow> unit op" where
  "record_stream p st s =
     (if p = 0 \<or> st = 0 then (Inr (), s)
      else case map_of (a_allocated s) p of
             None \<Rightarrow> (Inl (Check_failed
               ''cuda_caching_allocator::record_stream on a pointer that is not a live allocation''), s)
           | Some b \<Rightarrow>
               if st = cb_stream (blk s b) then (Inr (), s)
               else (Inr (), on_block b (\<lambda>x. x\<lparr>cb_stream_uses := insort_insert st (cb_stream_uses x)\<rparr>) s))"

definition empty_cache :: "gpu_world \<Rightarrow> unit op" where
  "empty_cache w = release_cached_blocks_locked w"

definition set_max_cached_bytes :: "nat \<Rightarrow> alloc_state \<Rightarrow> alloc_state" where
  "set_max_cached_bytes n s = trim_cache_locked (s\<lparr>a_max_cached_bytes := n\<rparr>)"

text \<open>\<open>scale f n\<close> stands for the conversion of the \<open>double\<close> product \<open>f * n\<close> to \<open>size_t\<close>.\<close>

definition set_memory_fraction :: "gpu_world \<Rightarrow> (real \<Rightarrow> nat \<Rightarrow> nat) \<Rightarrow> real \<Rightarrow> unit op" where
  "set_memory_fraction w scale fraction s =
     (if fraction \<le> 0 \<or> fraction > 1
      then (Inl (Invalid_argument ''set_memory_fraction: fraction must be in (0, 1]''), s)
      else bind_op (guard_op w) (\<lambda>_ s1.
        case w_mem_total w (a_clock s1) of
          Inl _ \<Rightarrow> (Inl (Runtime_error ''cudaMemGetInfo''), tick s1)
        | Inr total_b \<Rightarrow>
            (Inr (), (tick s1)\<lparr>a_memory_fraction := fraction, a_allowed_memory_maximum := scale fraction total_b\<rparr>)) s)"

definition reset_peak_stats :: "alloc_state \<Rightarrow> alloc_state" where
  "reset_peak_stats s =
     s\<lparr>a_peak_bytes_cached := a_bytes_cached s,
       a_stats := (a_stats s)\<lparr>peak_bytes_cached := a_bytes_cached s,
         peak_bytes_allocated := bytes_allocated (a_stats s), peak_bytes_reserved := bytes_reserved (a_stats s)\<rparr>\<rparr>"

definition add_free_memory_callback :: "nat \<Rightarrow> alloc_state \<Rightarrow> alloc_state" where
  "add_free_memory_callback c s = s\<lparr>a_callbacks := a_callbacks s @ [c]\<rparr>"

definition clear_free_memory_callbacks :: "alloc_state \<Rightarrow> alloc_state" where
  "clear_free_memory_callbacks s = s\<lparr>a_callbacks := []\<rparr>"

definition record_memory_history :: "bool \<Rightarrow> nat \<Rightarrow> alloc_state \<Rightarrow> alloc_state" where
  "record_memory_history enabled n s = s\<lparr>a_history := set_enabled enabled n (a_history s)\<rparr>"

definition stats :: "alloc_state \<Rightarrow> unified_cache_stats" where
  "stats s = (a_stats s)\<lparr>bytes_cached := a_bytes_cached s, peak_bytes_cached := a_peak_bytes_cached s,
     cache_blocks := size_add (length (a_small s)) (length (a_large s)),
     inactive_split_bytes :=
       foldl (\<lambda>t b. if is_split (blk s b) then size_add t (cb_size (blk s b)) else t) 0 (a_small s @ a_large s)\<rparr>"

definition snapshot_block :: "alloc_state \<Rightarrow> bid \<Rightarrow> (nat \<times> gpu_memory_segment_info) list
    \<Rightarrow> (nat \<times> gpu_memory_segment_info) list" where
  "snapshot_block s b segments =
     (let x = blk s b;
          base = (if cb_segment_base x \<noteq> 0 then cb_segment_base x else cb_ptr x);
          seg_size = (case map_of (a_segments s) base of Some r \<Rightarrow> rs_size r | None \<Rightarrow> 0);
          active = (cb_allocated x \<or> cb_event_count x > 0 \<or> cb_stream_uses x \<noteq> [])
      in add_snapshot_block segments base seg_size (cb_small x) (cb_vm_backed x) (stream_as_int (cb_stream x))
           (cb_ptr x) (cb_size x) (cb_requested_size x) (cb_allocated x) active)"

text \<open>The blocks \<open>snapshot\<close> considers, in the order it meets them.\<close>

definition listed_blocks :: "alloc_state \<Rightarrow> bid list" where
  "listed_blocks s = map snd (a_allocated s) @ a_small s @ a_large s @ map snd (concat (map snd (a_events s)))"

definition snapshot :: "alloc_state \<Rightarrow> gpu_memory_snapshot \<times> alloc_state" where
  "snapshot s0 =
     (let s = record_trace_locked Snapshot 0 0 0 s0;
          unique = fold (\<lambda>b. map_modify (cb_ptr (blk s b)) b (\<lambda>_. b)) (listed_blocks s) [];
          segments = fold (\<lambda>kv. snapshot_block s (snd kv)) unique []
      in (finish_snapshot segments (history_copy (a_history s)), s))"

section \<open>Teardown\<close>

text \<open>The walk to the first block of a segment; \<open>None\<close> would be a walk that does not end.\<close>

partial_function (option) segment_head :: "heap \<Rightarrow> bid \<Rightarrow> bid option" where
  "segment_head h b = (case cb_prev (the (h b)) of None \<Rightarrow> Some b | Some a \<Rightarrow> segment_head h a)"

definition release_ptr :: "addr \<Rightarrow> (addr \<times> raw_segment) list \<times> cu_call list \<Rightarrow> (addr \<times> raw_segment) list \<times> cu_call list" where
  "release_ptr p st =
     (case st of (segs, calls) \<Rightarrow>
        (case map_of segs p of
           Some raw \<Rightarrow> (AList.delete p segs, calls @ free_segment raw)
         | None \<Rightarrow> (segs, calls @ [Cuda_free p])))"

definition release_all_blocks_noexcept :: "alloc_state \<Rightarrow> alloc_state option" where
  "release_all_blocks_noexcept s =
     (let all_blocks = a_small s @ a_large s @ map snd (a_allocated s) @ map snd (concat (map snd (a_events s)))
      in case those (map (segment_head (a_heap s)) all_blocks) of
           None \<Rightarrow> None
         | Some heads \<Rightarrow>
             let segment_ptrs = fold (\<lambda>b. insort_insert (cb_ptr (blk s b))) heads [];
                 (segs, calls) = fold release_ptr segment_ptrs (a_segments s, [])
             in Some (s\<lparr>a_small := [], a_large := [], a_allocated := [], a_events := [], a_event_pool := [],
                        a_segments := [], a_driver := a_driver s @ calls,
                        a_heap := fold (\<lambda>b h. h(b := None)) all_blocks (a_heap s),
                        a_bytes_cached := 0, a_peak_bytes_cached := 0\<rparr>))"

end
