(* ===== verification/GPU_Invariant.thy ===== *)
theory GPU_Invariant
  imports GPU_Allocator
begin

text \<open>
  The invariant of the caching allocator and its preservation by the internal steps: the tiling
  of the segments (\<open>heap_ok\<close>), the contents and the order of the two pools, the map of live
  allocations, the event counts, and the byte counters. The invariant has three parameters that
  describe the inside of an operation: the multiset \<open>Q\<close> of blocks with a queued event, the set
  \<open>X\<close> of blocks an operation holds in its hands (taken out of a pool and not yet handed over),
  and the number \<open>k\<close> of bytes in the pools.
\<close>

section \<open>The invariant\<close>

definition is_free :: "cache_block \<Rightarrow> bool" where
  "is_free x \<longleftrightarrow> \<not> cb_allocated x \<and> cb_event_count x = 0 \<and> cb_stream_uses x = []"

definition cached_weight :: "bid set \<Rightarrow> bid \<Rightarrow> cache_block \<Rightarrow> nat" where
  "cached_weight X b x = (if is_free x \<and> b \<notin> X then cb_size x else 0)"

definition allocated_weight :: "bid \<Rightarrow> cache_block \<Rightarrow> nat" where
  "allocated_weight b x = (if cb_allocated x then cb_size x else 0)"

definition size_weight :: "bid \<Rightarrow> cache_block \<Rightarrow> nat" where
  "size_weight b x = cb_size x"

lemma link_blind_weights [simp]:
  "link_blind (cached_weight X)" "link_blind allocated_weight" "link_blind size_weight"
  by (auto simp: link_blind_def cached_weight_def allocated_weight_def size_weight_def is_free_def)

definition pool_ok :: "bid set \<Rightarrow> heap \<Rightarrow> bool \<Rightarrow> bid list \<Rightarrow> bool" where
  "pool_ok X h small bs \<longleftrightarrow>
     sorted_wrt (\<lambda>b c. cache_block_less (the (h b)) (the (h c))) bs \<and>
     set bs = {b. \<exists>x. h b = Some x \<and> is_free x \<and> b \<notin> X \<and> cb_small x = small}"

definition allocs_ok :: "heap \<Rightarrow> (addr \<times> bid) list \<Rightarrow> bool" where
  "allocs_ok h al \<longleftrightarrow> distinct (map fst al) \<and>
     (\<forall>p b. map_of al p = Some b \<longleftrightarrow> (\<exists>x. h b = Some x \<and> cb_allocated x \<and> cb_ptr x = p))"

definition events_ok :: "bid multiset \<Rightarrow> heap \<Rightarrow> bool" where
  "events_ok Q h \<longleftrightarrow> set_mset Q \<subseteq> dom h \<and>
     (\<forall>b x. h b = Some x \<longrightarrow> cb_event_count x = int (count Q b) \<and>
        (b \<in># Q \<longrightarrow> \<not> cb_allocated x \<and> cb_stream_uses x = []))"

definition sums_ok :: "bid set \<Rightarrow> nat \<Rightarrow> segments \<Rightarrow> heap \<Rightarrow> nat \<Rightarrow> nat \<Rightarrow> bool" where
  "sums_ok X k segs h allocated reserved \<longleftrightarrow>
     k = block_sum (cached_weight X) h \<and> allocated = block_sum allocated_weight h \<and>
     reserved = segment_sum segs \<and> block_sum size_weight h = segment_sum segs"

definition ids_ok :: "bid set \<Rightarrow> heap \<Rightarrow> bid \<Rightarrow> int \<Rightarrow> bool" where
  "ids_ok X h n reg \<longleftrightarrow> (\<forall>b\<in>dom h. b < n) \<and> 0 \<le> reg \<and> (\<forall>b\<in>X. \<exists>x. h b = Some x \<and> is_free x)"

definition ainv :: "bid multiset \<Rightarrow> bid set \<Rightarrow> nat \<Rightarrow> alloc_state \<Rightarrow> bool" where
  "ainv Q X k s \<longleftrightarrow>
     segs_ok (segs_of s) \<and> heap_ok (segs_of s) (a_heap s) \<and>
     ids_ok X (a_heap s) (a_next_id s) (a_registration_counter s) \<and>
     pool_ok X (a_heap s) True (a_small s) \<and> pool_ok X (a_heap s) False (a_large s) \<and>
     allocs_ok (a_heap s) (a_allocated s) \<and> events_ok Q (a_heap s) \<and>
     sums_ok X k (segs_of s) (a_heap s) (bytes_allocated (a_stats s)) (bytes_reserved (a_stats s)) \<and>
     history_ok (a_history s)"

definition queued :: "(stream \<times> (event \<times> bid) list) list \<Rightarrow> bid multiset" where
  "queued evs = mset (map snd (concat (map snd evs)))"

definition alloc_inv :: "alloc_state \<Rightarrow> bool" where
  "alloc_inv s \<longleftrightarrow> ainv (queued (a_events s)) {} (a_bytes_cached s) s"

lemmas inv_parts = pool_ok_def allocs_ok_def events_ok_def sums_ok_def ids_ok_def

lemma invD:
  assumes "ainv Q X k s"
  shows "segs_ok (segs_of s)" "heap_ok (segs_of s) (a_heap s)" "ids_ok X (a_heap s) (a_next_id s) (a_registration_counter s)"
    "pool_ok X (a_heap s) small (pool_of small s)" "allocs_ok (a_heap s) (a_allocated s)" "events_ok Q (a_heap s)"
    "sums_ok X k (segs_of s) (a_heap s) (bytes_allocated (a_stats s)) (bytes_reserved (a_stats s))"
    "history_ok (a_history s)"
  using assms by (auto simp: ainv_def pool_of_def)

lemma invI:
  assumes "segs_ok (segs_of s)" "heap_ok (segs_of s) (a_heap s)" "ids_ok X (a_heap s) (a_next_id s) (a_registration_counter s)"
    "\<And>small. pool_ok X (a_heap s) small (pool_of small s)" "allocs_ok (a_heap s) (a_allocated s)" "events_ok Q (a_heap s)"
    "sums_ok X k (segs_of s) (a_heap s) (bytes_allocated (a_stats s)) (bytes_reserved (a_stats s))"
    "history_ok (a_history s)"
  shows "ainv Q X k s"
  using assms assms(4) [of True] assms(4) [of False] by (simp add: ainv_def pool_of_def)

lemma inv_new: "ainv {#} {} 0 (new_allocator device n)"
  by (simp add: ainv_def new_allocator_def inv_parts segs_ok_def heap_ok_def block_sum_def segment_sum_def
      stats_reset_def history_ok_new)

text \<open>What the invariant does not look at.\<close>

lemma inv_frame [simp]:
  "ainv Q X k (tick s) = ainv Q X k s"
  "ainv Q X k (s\<lparr>a_events := evs\<rparr>) = ainv Q X k s"
  "ainv Q X k (s\<lparr>a_event_pool := ep\<rparr>) = ainv Q X k s"
  "ainv Q X k (s\<lparr>a_bytes_cached := n\<rparr>) = ainv Q X k s"
  "ainv Q X k (s\<lparr>a_peak_bytes_cached := n\<rparr>) = ainv Q X k s"
  "ainv Q X k (s\<lparr>a_max_cached_bytes := n\<rparr>) = ainv Q X k s"
  "ainv Q X k (s\<lparr>a_driver := d\<rparr>) = ainv Q X k s"
  "ainv Q X k (s\<lparr>a_callbacks := c\<rparr>) = ainv Q X k s"
  "ainv Q X k (s\<lparr>a_memory_fraction := r\<rparr>) = ainv Q X k s"
  "ainv Q X k (s\<lparr>a_allowed_memory_maximum := n\<rparr>) = ainv Q X k s"
  by (simp_all add: ainv_def tick_def)

lemma inv_stats:
  assumes "\<And>t. bytes_allocated (f t) = bytes_allocated t" "\<And>t. bytes_reserved (f t) = bytes_reserved t"
  shows "ainv Q X k (upd_stats f s) = ainv Q X k s"
  using assms by (simp add: ainv_def upd_stats_def)

lemma inv_trace: "ainv Q X k s \<Longrightarrow> ainv Q X k (record_trace_locked act p n st s)"
  by (simp add: ainv_def record_trace_locked_def history_ok_record)

lemma trace_fields [simp]:
  "a_heap (record_trace_locked act p n st s) = a_heap s" "a_segments (record_trace_locked act p n st s) = a_segments s"
  "a_small (record_trace_locked act p n st s) = a_small s" "a_large (record_trace_locked act p n st s) = a_large s"
  "a_allocated (record_trace_locked act p n st s) = a_allocated s" "a_events (record_trace_locked act p n st s) = a_events s"
  "a_bytes_cached (record_trace_locked act p n st s) = a_bytes_cached s"
  "a_stats (record_trace_locked act p n st s) = a_stats s" "a_driver (record_trace_locked act p n st s) = a_driver s"
  "a_max_cached_bytes (record_trace_locked act p n st s) = a_max_cached_bytes s"
  "a_clock (record_trace_locked act p n st s) = a_clock s" "a_device (record_trace_locked act p n st s) = a_device s"
  "a_next_id (record_trace_locked act p n st s) = a_next_id s"
  by (simp_all add: record_trace_locked_def)

lemma tick_fields [simp]:
  "a_heap (tick s) = a_heap s" "a_segments (tick s) = a_segments s" "a_small (tick s) = a_small s"
  "a_large (tick s) = a_large s" "a_allocated (tick s) = a_allocated s" "a_events (tick s) = a_events s"
  "a_bytes_cached (tick s) = a_bytes_cached s" "a_stats (tick s) = a_stats s" "a_driver (tick s) = a_driver s"
  "a_max_cached_bytes (tick s) = a_max_cached_bytes s" "a_next_id (tick s) = a_next_id s"
  by (simp_all add: tick_def)

lemma stats_fields [simp]:
  "a_heap (upd_stats f s) = a_heap s" "a_segments (upd_stats f s) = a_segments s" "a_small (upd_stats f s) = a_small s"
  "a_large (upd_stats f s) = a_large s" "a_allocated (upd_stats f s) = a_allocated s" "a_events (upd_stats f s) = a_events s"
  "a_bytes_cached (upd_stats f s) = a_bytes_cached s" "a_stats (upd_stats f s) = f (a_stats s)"
  "a_driver (upd_stats f s) = a_driver s" "a_max_cached_bytes (upd_stats f s) = a_max_cached_bytes s"
  "a_next_id (upd_stats f s) = a_next_id s"
  by (simp_all add: upd_stats_def)

text \<open>The counters stay below \<open>2 ^ 64\<close>, so that \<open>size_t\<close> arithmetic on them is exact.\<close>

lemma cached_plus_held:
  assumes "ainv Q X k s" "b \<in> X" "a_heap s b = Some x"
  shows "k + cb_size x < 2 ^ 64"
proof -
  have fin: "finite (dom (a_heap s))" using heap_okD(1) [OF invD(2) [OF assms(1)]] .
  have "k + cb_size x = block_sum (cached_weight X) ((a_heap s)(b := None)) + cb_size x"
    using block_sum_del [OF fin assms(3), of "cached_weight X"] assms(2) invD(7) [OF assms(1)]
    by (simp add: cached_weight_def sums_ok_def)
  also have "\<dots> \<le> block_sum size_weight ((a_heap s)(b := None)) + size_weight b x"
    by (intro add_mono block_sum_le) (auto simp: cached_weight_def size_weight_def)
  also have "\<dots> = segment_sum (segs_of s)"
    using block_sum_del [OF fin assms(3)] invD(7) [OF assms(1)] by (simp add: sums_ok_def)
  also have "\<dots> < 2 ^ 64" by (rule segment_sum_bound [OF invD(1) [OF assms(1)]])
  finally show ?thesis .
qed

lemma counter_bounds:
  assumes "ainv Q X k s"
  shows "k < 2 ^ 64" "bytes_allocated (a_stats s) < 2 ^ 64" "bytes_reserved (a_stats s) < 2 ^ 64"
    "bytes_allocated (a_stats s) + k \<le> bytes_reserved (a_stats s)"
proof -
  have t: "bytes_reserved (a_stats s) < 2 ^ 64" "bytes_reserved (a_stats s) = block_sum size_weight (a_heap s)"
    using segment_sum_bound [OF invD(1) [OF assms]] invD(7) [OF assms] by (simp_all add: sums_ok_def)
  have "bytes_allocated (a_stats s) + k =
      block_sum (\<lambda>b x. allocated_weight b x + cached_weight X b x) (a_heap s)"
    using invD(7) [OF assms] by (simp add: sums_ok_def block_sum_def sum.distrib)
  also have "\<dots> \<le> block_sum size_weight (a_heap s)"
    by (rule block_sum_le) (simp add: allocated_weight_def cached_weight_def size_weight_def is_free_def)
  finally show "bytes_allocated (a_stats s) + k \<le> bytes_reserved (a_stats s)" using t by simp
  then show "k < 2 ^ 64" "bytes_allocated (a_stats s) < 2 ^ 64" "bytes_reserved (a_stats s) < 2 ^ 64"
    using t by simp_all
qed

section \<open>Taking blocks out of the pools and putting them back\<close>

lemma heap_key_inj:
  assumes "heap_ok segs h" "h b = Some x" "h c = Some y" "b \<noteq> c"
  shows "block_key x \<noteq> block_key y"
proof -
  have "disjoint x y" "0 < cb_size x" "0 < cb_size y"
    using heap_okD(4) [OF assms] heap_okD(3) [OF assms(1,2)] heap_okD(3) [OF assms(1,3)]
    by (simp_all add: inside_ok_def)
  then show ?thesis by (auto simp: disjoint_def block_key_def)
qed

lemma set_pool_insert:
  assumes "\<forall>c\<in>set bs. block_key (the (h c)) \<noteq> block_key (the (h b))"
  shows "set (pool_insert h b bs) = insert b (set bs)"
  using assms by (induction h b bs rule: pool_insert.induct) (auto simp: cache_block_less_key)

lemma sorted_pool_insert:
  assumes "\<forall>c\<in>set bs. block_key (the (h c)) \<noteq> block_key (the (h b))"
    "sorted_wrt (\<lambda>b c. cache_block_less (the (h b)) (the (h c))) bs"
  shows "sorted_wrt (\<lambda>b c. cache_block_less (the (h b)) (the (h c))) (pool_insert h b bs)"
  using assms
proof (induction h b bs rule: pool_insert.induct)
  case (2 h b c cs)
  then show ?case
    by (auto simp: cache_block_less_key set_pool_insert)
qed simp

lemma pool_okD:
  assumes "pool_ok X h small bs"
  shows "b \<in> set bs \<longleftrightarrow> (\<exists>x. h b = Some x \<and> is_free x \<and> b \<notin> X \<and> cb_small x = small)"
    "sorted_wrt (\<lambda>b c. cache_block_less (the (h b)) (the (h c))) bs" "distinct bs"
proof -
  show sorted: "sorted_wrt (\<lambda>b c. cache_block_less (the (h b)) (the (h c))) bs"
    using assms by (simp add: pool_ok_def)
  show "b \<in> set bs \<longleftrightarrow> (\<exists>x. h b = Some x \<and> is_free x \<and> b \<notin> X \<and> cb_small x = small)"
    using assms by (simp add: pool_ok_def)
  from sorted show "distinct bs"
    by (induction bs) (auto simp: cache_block_less_key)
qed

lemma pool_erase_remove1:
  assumes "heap_ok segs h" "pool_ok X h small bs" "c \<in> set bs"
  shows "pool_erase h c bs = remove1 c bs"
proof -
  have "cache_block_less (the (h d)) (the (h c)) \<or> cache_block_less (the (h c)) (the (h d)) \<longleftrightarrow> d \<noteq> c"
    if d: "d \<in> set bs" for d
  proof -
    obtain x y where "h d = Some x" "h c = Some y" using d assms(3) pool_okD(1) [OF assms(2)] by blast
    then show ?thesis using heap_key_inj [OF assms(1), of d x c y]
      by (cases "d = c") (auto simp: cache_block_less_key neq_iff)
  qed
  then have "pool_erase h c bs = filter (\<lambda>d. d \<noteq> c) bs" by (simp add: pool_erase_def cong: filter_cong)
  then show ?thesis using pool_okD(3) [OF assms(2)] by (simp add: remove1_filter)
qed

lemma block_sum_reweight:
  assumes "finite (dom h)" "h c = Some x" "\<And>b y. b \<noteq> c \<Longrightarrow> f b y = g b y"
  shows "block_sum f h + g c x = block_sum g h + f c x"
proof -
  have "block_sum f (h(c := None)) = block_sum g (h(c := None))"
    by (rule block_sum_cong) (auto simp: assms(3) split: if_splits)
  then show ?thesis using block_sum_del [OF assms(1,2), of f] block_sum_del [OF assms(1,2), of g] by simp
qed

lemma upd_pool_fields [simp]:
  "a_heap (upd_pool small f s) = a_heap s" "a_segments (upd_pool small f s) = a_segments s"
  "a_next_id (upd_pool small f s) = a_next_id s" "a_registration_counter (upd_pool small f s) = a_registration_counter s"
  "a_allocated (upd_pool small f s) = a_allocated s" "a_stats (upd_pool small f s) = a_stats s"
  "a_history (upd_pool small f s) = a_history s" "a_bytes_cached (upd_pool small f s) = a_bytes_cached s"
  "a_events (upd_pool small f s) = a_events s" "a_max_cached_bytes (upd_pool small f s) = a_max_cached_bytes s"
  "a_driver (upd_pool small f s) = a_driver s"
  "pool_of sm (upd_pool small f s) = (if sm = small then f (pool_of sm s) else pool_of sm s)"
  by (auto simp: upd_pool_def pool_of_def)

lemma inv_hold:
  assumes inv: "ainv Q X k s" and c: "a_heap s c = Some x" "is_free x" "c \<notin> X" "cb_small x = small"
    and f: "f (pool_of small s) = remove1 c (pool_of small s)"
  shows "ainv Q (insert c X) (k - cb_size x) (upd_pool small f s)" "cb_size x \<le> k"
proof -
  have fin: "finite (dom (a_heap s))" by (rule heap_okD(1) [OF invD(2) [OF inv]])
  have e: "block_sum (cached_weight (insert c X)) (a_heap s) + cb_size x = block_sum (cached_weight X) (a_heap s)"
    using block_sum_reweight [OF fin c(1), of "cached_weight (insert c X)" "cached_weight X"] c
    by (simp add: cached_weight_def)
  then show "cb_size x \<le> k" using invD(7) [OF inv] by (simp add: sums_ok_def)
  show "ainv Q (insert c X) (k - cb_size x) (upd_pool small f s)"
  proof (rule invI; (simp; fail)?)
    show "pool_ok (insert c X) (a_heap (upd_pool small f s)) sm (pool_of sm (upd_pool small f s))" for sm
    proof -
      note p = invD(4) [OF inv, of sm]
      note d = pool_okD [OF p]
      have "sorted_wrt (\<lambda>b c. cache_block_less (the (a_heap s b)) (the (a_heap s c))) (filter (\<lambda>d. d \<noteq> c) (pool_of sm s))"
        by (rule sorted_wrt_filter [OF d(2)])
      moreover have "remove1 c (pool_of sm s) = filter (\<lambda>d. d \<noteq> c) (pool_of sm s)"
        using d(3) by (rule remove1_filter)
      ultimately have t: "sorted_wrt (\<lambda>b c. cache_block_less (the (a_heap s b)) (the (a_heap s c))) (remove1 c (pool_of sm s))"
        by simp
      have m: "set (remove1 c (pool_of sm s)) = {b. \<exists>x. a_heap s b = Some x \<and> is_free x \<and> b \<notin> insert c X \<and> cb_small x = sm}"
        using d(1,3) by auto
      show ?thesis
      proof (cases "sm = small")
        case True
        then show ?thesis using t m f by (simp add: pool_ok_def)
      next
        case False
        then have "remove1 c (pool_of sm s) = pool_of sm s" using d(1) [of c] c by (intro remove1_idem) auto
        then show ?thesis using t m False by (simp add: pool_ok_def)
      qed
    qed
    show "sums_ok (insert c X) (k - cb_size x) (segs_of (upd_pool small f s)) (a_heap (upd_pool small f s))
      (bytes_allocated (a_stats (upd_pool small f s))) (bytes_reserved (a_stats (upd_pool small f s)))"
      using invD(7) [OF inv] e by (auto simp: sums_ok_def)
    show "ids_ok (insert c X) (a_heap (upd_pool small f s)) (a_next_id (upd_pool small f s)) (a_registration_counter (upd_pool small f s))"
      using invD(3) [OF inv] c by (simp add: ids_ok_def)
  qed (use invD [OF inv] in simp_all)
qed

lemma inv_unhold:
  assumes inv: "ainv Q X k s" and b: "b \<in> X" "a_heap s b = Some x" "cb_small x = small"
  shows "ainv Q (X - {b}) (k + cb_size x) (upd_pool small (pool_insert (a_heap s) b) s)"
proof -
  have fin: "finite (dom (a_heap s))" by (rule heap_okD(1) [OF invD(2) [OF inv]])
  have fr: "is_free x" using invD(3) [OF inv] b by (auto simp: ids_ok_def)
  have e: "block_sum (cached_weight X) (a_heap s) + cb_size x = block_sum (cached_weight (X - {b})) (a_heap s)"
    using block_sum_reweight [OF fin b(2), of "cached_weight X" "cached_weight (X - {b})"] b fr
    by (simp add: cached_weight_def)
  show ?thesis
  proof (rule invI; (simp; fail)?)
    show "pool_ok (X - {b}) (a_heap (upd_pool small (pool_insert (a_heap s) b) s)) sm
        (pool_of sm (upd_pool small (pool_insert (a_heap s) b) s))" for sm
    proof -
      note p = invD(4) [OF inv, of sm]
      note d = pool_okD [OF p]
      have k: "\<forall>c\<in>set (pool_of sm s). block_key (the (a_heap s c)) \<noteq> block_key (the (a_heap s b))"
        using d(1) b heap_key_inj [OF invD(2) [OF inv]] by fastforce
      show ?thesis
      proof (cases "sm = small")
        case True
        then show ?thesis using sorted_pool_insert [OF k d(2)] set_pool_insert [OF k] d(1) b fr
          by (auto simp: pool_ok_def)
      next
        case False
        then show ?thesis using p b by (auto simp: pool_ok_def)
      qed
    qed
    show "sums_ok (X - {b}) (k + cb_size x) (segs_of (upd_pool small (pool_insert (a_heap s) b) s))
       (a_heap (upd_pool small (pool_insert (a_heap s) b) s))
      (bytes_allocated (a_stats (upd_pool small (pool_insert (a_heap s) b) s)))
      (bytes_reserved (a_stats (upd_pool small (pool_insert (a_heap s) b) s)))"
      using invD(7) [OF inv] e by (auto simp: sums_ok_def)
    show "ids_ok (X - {b}) (a_heap (upd_pool small (pool_insert (a_heap s) b) s))
      (a_next_id (upd_pool small (pool_insert (a_heap s) b) s))
      (a_registration_counter (upd_pool small (pool_insert (a_heap s) b) s))"
      using invD(3) [OF inv] by (simp add: ids_ok_def)
  qed (use invD [OF inv] in simp_all)
qed

section \<open>Rearranging blocks in hand\<close>

text \<open>
  A step that only rearranges blocks it holds (the ids in \<open>D\<close>) and otherwise touches nothing but
  links is invisible to the pools, the allocation map, the event queues and the counters.
\<close>

definition links_only :: "cache_block \<Rightarrow> cache_block \<Rightarrow> bool" where
  "links_only x y \<longleftrightarrow> (\<exists>p n. y = x\<lparr>cb_prev := p, cb_next := n\<rparr>)"

lemma links_only_refl [simp]: "links_only x x" "links_only x (x\<lparr>cb_next := n\<rparr>)" "links_only x (x\<lparr>cb_prev := n\<rparr>)"
proof -
  have e: "x = x\<lparr>cb_prev := cb_prev x, cb_next := cb_next x\<rparr>"
    "x\<lparr>cb_next := n\<rparr> = x\<lparr>cb_prev := cb_prev x, cb_next := n\<rparr>"
    "x\<lparr>cb_prev := n\<rparr> = x\<lparr>cb_prev := n, cb_next := cb_next x\<rparr>" by simp_all
  show "links_only x x" unfolding links_only_def using e(1) by blast
  show "links_only x (x\<lparr>cb_next := n\<rparr>)" unfolding links_only_def using e(2) by blast
  show "links_only x (x\<lparr>cb_prev := n\<rparr>)" unfolding links_only_def using e(3) by blast
qed

lemma links_onlyD:
  assumes "links_only x y"
  shows "cb_ptr y = cb_ptr x" "cb_size y = cb_size x" "cb_small y = cb_small x" "cb_allocated y = cb_allocated x"
    "cb_event_count y = cb_event_count x" "cb_stream_uses y = cb_stream_uses x" "block_key y = block_key x"
    "is_free y = is_free x"
  using assms by (auto simp: links_only_def block_key_def is_free_def)

definition rearranges :: "bid set \<Rightarrow> bid set \<Rightarrow> bid set \<Rightarrow> heap \<Rightarrow> heap \<Rightarrow> bool" where
  "rearranges D X X' h h' \<longleftrightarrow>
     (\<forall>c. c \<notin> D \<longrightarrow> rel_option links_only (h c) (h' c) \<and> (c \<in> X \<longleftrightarrow> c \<in> X')) \<and>
     (\<forall>c\<in>D. (\<forall>x. h c = Some x \<longrightarrow> is_free x \<and> c \<in> X) \<and> (\<forall>x. h' c = Some x \<longrightarrow> is_free x \<and> c \<in> X'))"

lemma rearranges_some:
  assumes "rearranges D X X' h h'" "c \<notin> D"
  shows "h c = Some x \<Longrightarrow> \<exists>y. h' c = Some y \<and> links_only x y" "h' c = Some y \<Longrightarrow> \<exists>x. h c = Some x \<and> links_only x y"
    "c \<in> X \<longleftrightarrow> c \<in> X'"
  using assms unfolding rearranges_def by (metis option.rel_cases option.distinct(1) option.inject)+

lemma rearranges_cases:
  assumes "rearranges D X X' h h'" "c \<notin> D"
  obtains "h c = None" "h' c = None" | x y where "h c = Some x" "h' c = Some y" "links_only x y"
  using assms unfolding rearranges_def by (cases "h c"; cases "h' c") auto

lemma rearranges_pool:
  assumes r: "rearranges D X X' h h'" and p: "pool_ok X h sm bs"
  shows "pool_ok X' h' sm bs"
proof -
  note d = pool_okD [OF p]
  have out: "c \<notin> D" if "c \<in> set bs" for c using that d(1) r by (auto simp: rearranges_def)
  have "sorted_wrt (\<lambda>b c. cache_block_less (the (h' b)) (the (h' c))) bs"
  proof (rule sorted_wrt_mono_rel [OF _ d(2)])
    fix b c assume b: "b \<in> set bs" and c: "c \<in> set bs" and l: "cache_block_less (the (h b)) (the (h c))"
    obtain x y where xy: "h b = Some x" "h c = Some y" using b c d(1) by blast
    obtain x' y' where xy': "h' b = Some x'" "h' c = Some y'" "links_only x x'" "links_only y y'"
      using rearranges_some(1) [OF r out [OF b] xy(1)] rearranges_some(1) [OF r out [OF c] xy(2)] by blast
    show "cache_block_less (the (h' b)) (the (h' c))"
      using l xy xy'(1,2) links_onlyD(7) [OF xy'(3)] links_onlyD(7) [OF xy'(4)] by (simp add: cache_block_less_key)
  qed
  moreover have "(\<exists>x. h' b = Some x \<and> is_free x \<and> b \<notin> X' \<and> cb_small x = sm) \<longleftrightarrow> b \<in> set bs" for b
  proof (cases "b \<in> D")
    case True
    then show ?thesis using out r by (auto simp: rearranges_def)
  next
    case False
    from rearranges_cases [OF r False] show ?thesis
      using rearranges_some(3) [OF r False] d(1) [of b] by cases (auto dest: links_onlyD)
  qed
  ultimately show ?thesis unfolding pool_ok_def by blast
qed

lemma rearranges_allocs:
  assumes r: "rearranges D X X' h h'" and p: "allocs_ok h al"
  shows "allocs_ok h' al"
proof -
  have "(\<exists>x. h' b = Some x \<and> cb_allocated x \<and> cb_ptr x = q) \<longleftrightarrow> (\<exists>x. h b = Some x \<and> cb_allocated x \<and> cb_ptr x = q)" for b q
  proof (cases "b \<in> D")
    case True
    then show ?thesis using r by (auto simp: rearranges_def is_free_def)
  next
    case False
    from rearranges_cases [OF r False] show ?thesis by cases (auto dest: links_onlyD)
  qed
  then show ?thesis using p by (simp add: allocs_ok_def)
qed

lemma rearranges_events:
  assumes r: "rearranges D X X' h h'" and p: "events_ok Q h"
  shows "events_ok Q h'"
proof -
  have out: "c \<notin> D" if c: "c \<in># Q" for c
  proof
    assume "c \<in> D"
    moreover obtain x where x: "h c = Some x" using p c by (auto simp: events_ok_def)
    ultimately have "cb_event_count x = 0" using r by (auto simp: rearranges_def is_free_def)
    then show False using p c x by (auto simp: events_ok_def not_in_iff [symmetric])
  qed
  have "cb_event_count x = int (count Q b) \<and> (b \<in># Q \<longrightarrow> \<not> cb_allocated x \<and> cb_stream_uses x = [])"
    if x: "h' b = Some x" for b x
  proof (cases "b \<in> D")
    case True
    then have "b \<notin># Q" "is_free x" using out x r by (auto simp: rearranges_def)
    then show ?thesis by (simp add: is_free_def not_in_iff)
  next
    case False
    then obtain y where "h b = Some y" "links_only y x" using rearranges_some(2) [OF r _ x] by blast
    then show ?thesis using p links_onlyD [of y x] by (auto simp: events_ok_def)
  qed
  moreover have "set_mset Q \<subseteq> dom h'"
  proof
    fix c assume c: "c \<in># Q"
    then obtain x where "h c = Some x" using p by (auto simp: events_ok_def)
    then show "c \<in> dom h'" using rearranges_some(1) [OF r out [OF c]] by blast
  qed
  ultimately show ?thesis by (simp add: events_ok_def)
qed

lemma rearranges_sum:
  assumes r: "rearranges D X X' h h'" and fin: "finite (dom h)" "finite (dom h')"
    and f: "link_blind f" "\<And>b x. b \<notin> D \<Longrightarrow> f b x = g b x"
      "\<And>b x. h b = Some x \<Longrightarrow> b \<in> D \<Longrightarrow> f b x = 0" "\<And>b x. h' b = Some x \<Longrightarrow> b \<in> D \<Longrightarrow> g b x = 0"
  shows "block_sum g h' = block_sum f h"
proof -
  have "block_sum g h' = (\<Sum>b\<in>dom h' - D. g b (the (h' b)))"
    unfolding block_sum_def using f(4) by (intro sum.mono_neutral_right [OF fin(2)]) auto
  also have "\<dots> = (\<Sum>b\<in>dom h - D. f b (the (h b)))"
  proof (rule sum.cong)
    show "dom h' - D = dom h - D" using rearranges_some [OF r] by blast
    fix b assume "b \<in> dom h - D"
    then obtain x y where "h b = Some x" "h' b = Some y" "links_only x y" "b \<notin> D"
      using rearranges_some(1) [OF r] by blast
    moreover have "f b y = f b x" using f(1) \<open>links_only x y\<close> by (auto simp: links_only_def link_blind_def)
    ultimately show "g b (the (h' b)) = f b (the (h b))" using f(2) [of b y] by simp
  qed
  also have "\<dots> = block_sum f h"
    unfolding block_sum_def using f(3) by (intro sum.mono_neutral_left [OF fin(1)]) auto
  finally show ?thesis .
qed

lemma inv_rearrange:
  assumes inv: "ainv Q X k s" and r: "rearranges D X X' (a_heap s) h'" and ok: "heap_ok (segs_of s) h'"
    and sz: "block_sum size_weight h' = block_sum size_weight (a_heap s)"
    and ids: "ids_ok X' h' n (a_registration_counter s)"
  shows "ainv Q X' k (s\<lparr>a_heap := h', a_next_id := n\<rparr>)"
proof -
  have fin: "finite (dom (a_heap s))" "finite (dom h')" using heap_okD(1) invD(2) [OF inv] ok by blast+
  have "block_sum (cached_weight X') h' = block_sum (cached_weight X) (a_heap s)"
    using r by (intro rearranges_sum [OF r fin])
      (auto simp: cached_weight_def rearranges_def is_free_def)
  moreover have "block_sum allocated_weight h' = block_sum allocated_weight (a_heap s)"
    using r by (intro rearranges_sum [OF r fin]) (auto simp: allocated_weight_def rearranges_def is_free_def)
  ultimately have "sums_ok X' k (segs_of s) h' (bytes_allocated (a_stats s)) (bytes_reserved (a_stats s))"
    using invD(7) [OF inv] sz by (simp add: sums_ok_def)
  then show ?thesis
    using invD [OF inv] ok ids rearranges_pool [OF r invD(4) [OF inv, of True]]
      rearranges_pool [OF r invD(4) [OF inv, of False]] rearranges_allocs [OF r] rearranges_events [OF r]
    by (simp add: ainv_def pool_of_def)
qed

section \<open>Merging and freeing\<close>

lemma join_rearranges:
  assumes "h l = Some x" "h r = Some y" "is_free x" "is_free y" "is_free m" "k = l \<or> k = r" "l \<noteq> r"
  shows "rearranges {l, r} {l, r} {k} h (join_blocks l r k x y m h)"
proof -
  have "rel_option links_only (h c) (join_blocks l r k x y m h c)" if "c \<noteq> l" "c \<noteq> r" for c
    using that assms(6) by (cases "h c") (auto simp: join_blocks_def)
  then show ?thesis using assms by (auto simp: rearranges_def join_blocks_def split: if_splits)
qed

lemma inv_join:
  assumes inv: "ainv Q {l, r} k s" and x: "a_heap s l = Some x" "cb_next x = Some r" and y: "a_heap s r = Some y"
    and m: "joined x y m" "is_free m" and b: "b = l \<or> b = r"
  shows "ainv Q {b} k (s\<lparr>a_heap := join_blocks l r b x y m (a_heap s)\<rparr>)"
proof -
  let ?h = "join_blocks l r b x y m (a_heap s)"
  note ok = invD(2) [OF inv]
  have fr: "is_free x" "is_free y" using invD(3) [OF inv] x(1) y by (auto simp: ids_ok_def)
  have ne: "l \<noteq> r" by (rule outer_neighbours(4) [OF ok x y])
  have "dom ?h \<subseteq> dom (a_heap s)" using x(1) y b by (auto simp: join_blocks_def dom_def split: if_splits)
  then have "ids_ok {b} ?h (a_next_id s) (a_registration_counter s)"
    using invD(3) [OF inv] m(2) by (auto simp: ids_ok_def join_blocks_def)
  moreover have "block_sum size_weight ?h = block_sum size_weight (a_heap s)"
    using join_block_sum [OF ok x y b link_blind_weights(3), of m] m(1) b
    by (simp add: size_weight_def joined_def)
  ultimately have "ainv Q {b} k (s\<lparr>a_heap := ?h, a_next_id := a_next_id s\<rparr>)"
    using inv_rearrange [OF inv join_rearranges [OF x(1) y fr m(2) b ne] join_heap_ok [OF ok x y m(1) b]] by blast
  then show ?thesis by simp
qed

definition same_rest :: "alloc_state \<Rightarrow> alloc_state \<Rightarrow> bool" where
  "same_rest s s' \<longleftrightarrow> a_bytes_cached s' = a_bytes_cached s \<and> a_events s' = a_events s \<and>
     a_allocated s' = a_allocated s \<and> a_segments s' = a_segments s \<and> a_stats s' = a_stats s \<and>
     a_max_cached_bytes s' = a_max_cached_bytes s \<and>
     (\<forall>c x. a_heap s c = Some x \<longrightarrow> \<not> is_free x \<longrightarrow> (\<exists>y. a_heap s' c = Some y \<and> links_only x y))"

lemma links_only_trans: "links_only x y \<Longrightarrow> links_only y z \<Longrightarrow> links_only x z"
  by (auto simp: links_only_def) blast

lemma same_rest_refl: "same_rest s s"
  unfolding same_rest_def using links_only_refl(1) by blast

lemma same_rest_trans: "same_rest s t \<Longrightarrow> same_rest t u \<Longrightarrow> same_rest s u"
  unfolding same_rest_def using links_only_trans links_onlyD(8) by metis

lemma try_merge_inv:
  assumes inv: "ainv Q {b} k s" and x: "a_heap s b = Some x" and src: "src = cb_prev x \<or> src = cb_next x"
  shows "\<exists>k' x'. ainv Q {b} k' (try_merge_locked b src s) \<and> a_heap (try_merge_locked b src s) b = Some x' \<and>
    k' + cb_size x' = k + cb_size x \<and> same_rest s (try_merge_locked b src s)"
proof (cases "\<exists>c y. src = Some c \<and> a_heap s c = Some y \<and> is_free y")
  case False
  have "try_merge_locked b src s = s"
  proof (cases src)
    case (Some c)
    obtain y where y: "a_heap s c = Some y"
      using src Some heap_prev [OF invD(2) [OF inv] x] heap_next [OF invD(2) [OF inv] x] by metis
    moreover have "0 \<le> cb_event_count y" using invD(6) [OF inv] y by (simp add: events_ok_def)
    ultimately show ?thesis using False Some by (auto simp: try_merge_locked_def is_free_def)
  qed (simp add: try_merge_locked_def)
  then show ?thesis using inv x same_rest_refl by auto
next
  case True
  then obtain c y where c: "src = Some c" "a_heap s c = Some y" "is_free y" by blast
  note ok = invD(2) [OF inv] and sok = invD(1) [OF inv]
  have cb: "c \<noteq> b" "cb_small y = cb_small x"
    using src c x heap_prev [OF ok x, of c] heap_next [OF ok x, of c] by (metis option.inject)+
  let ?s1 = "upd_pool (cb_small x) (pool_erase (a_heap s) c) s"
  have "c \<in> set (pool_of (cb_small x) s)" using pool_okD(1) [OF invD(4) [OF inv]] c cb by auto
  then have "pool_erase (a_heap s) c (pool_of (cb_small x) s) = remove1 c (pool_of (cb_small x) s)"
    by (rule pool_erase_remove1 [OF ok invD(4) [OF inv]])
  moreover have "c \<notin> {b}" using cb(1) by simp
  ultimately have h: "ainv Q {c, b} (k - cb_size y) ?s1" "cb_size y \<le> k"
    using inv_hold [OF inv c(2,3) _ cb(2), of "pool_erase (a_heap s) c"] by blast+
  have e: "try_merge_locked b src s = ?s1\<lparr>a_heap := merge_block b c (a_heap s)\<rparr>"
    using c x by (simp add: try_merge_locked_def is_free_def)
  have fx: "is_free x" using invD(3) [OF inv] x by (auto simp: ids_ok_def)
  have "\<exists>l r x1 y1 m. {l, r} = {b, c} \<and> a_heap s l = Some x1 \<and> cb_next x1 = Some r \<and> a_heap s r = Some y1 \<and>
      joined x1 y1 m \<and> is_free m \<and> merge_block b c (a_heap s) = join_blocks l r b x1 y1 m (a_heap s) \<and>
      cb_size m = cb_size x + cb_size y"
  proof (cases "cb_prev x = Some c")
    case True
    note j = merge_prev_join [OF ok sok x True c(2)]
    have "is_free (merged_prev x y)" "cb_size (merged_prev x y) = cb_size x + cb_size y"
      using fx by (simp_all add: is_free_def merged_prev_def)
    then show ?thesis using j x c(2)
      by (rule_tac exI [of _ c], rule_tac exI [of _ b], rule_tac exI [of _ y], rule_tac exI [of _ x],
          rule_tac exI [of _ "merged_prev x y"]) auto
  next
    case False
    then have n: "cb_next x = Some c" using src c(1) by simp
    note j = merge_next_join [OF ok sok x n c(2)]
    have "is_free (merged_next x y)" "cb_size (merged_next x y) = cb_size x + cb_size y"
      using fx by (simp_all add: is_free_def merged_next_def)
    then show ?thesis using j x n c(2)
      by (rule_tac exI [of _ b], rule_tac exI [of _ c], rule_tac exI [of _ x], rule_tac exI [of _ y],
          rule_tac exI [of _ "merged_next x y"]) auto
  qed
  then obtain l r x1 y1 m where j: "{l, r} = {b, c}" "a_heap s l = Some x1" "cb_next x1 = Some r" "a_heap s r = Some y1"
      "joined x1 y1 m" "is_free m" "merge_block b c (a_heap s) = join_blocks l r b x1 y1 m (a_heap s)"
      "cb_size m = cb_size x + cb_size y" by blast
  have bl: "b = l \<or> b = r" "{c, b} = {l, r}" using j(1) by auto
  have "ainv Q {b} (k - cb_size y) (?s1\<lparr>a_heap := join_blocks l r b x1 y1 m (a_heap ?s1)\<rparr>)"
    using inv_join [of Q l r "k - cb_size y" ?s1 x1 y1 m b] h(1) j(2-6) bl by simp
  then have "ainv Q {b} (k - cb_size y) (try_merge_locked b src s)" using e j(7) by simp
  moreover have "a_heap (try_merge_locked b src s) b = Some m" using e j(7) by (simp add: join_blocks_def)
  moreover have "same_rest s (try_merge_locked b src s)"
  proof -
    have "\<exists>w. join_blocks l r b x1 y1 m (a_heap s) d = Some w \<and> links_only z w"
      if "a_heap s d = Some z" "\<not> is_free z" for d z
    proof -
      have "d \<noteq> l" "d \<noteq> r" "d \<noteq> b" using that j(1) x c fx by (auto simp: doubleton_eq_iff)
      then show ?thesis using that by (auto simp: join_blocks_def)
    qed
    then show ?thesis using e j(7) by (simp add: same_rest_def)
  qed
  ultimately show ?thesis using h(2) j(8) by (intro exI [of _ "k - cb_size y"] exI [of _ m]) simp
qed

lemma free_block_inv:
  assumes inv: "ainv Q {b} (a_bytes_cached s) s"
  defines "s' \<equiv> free_block_locked b s"
  shows "ainv Q {} (a_bytes_cached s') s'" "a_events s' = a_events s" "a_allocated s' = a_allocated s"
    "a_segments s' = a_segments s" "a_stats s' = a_stats s" "a_max_cached_bytes s' = a_max_cached_bytes s"
    "a_heap s c = Some z \<Longrightarrow> \<not> is_free z \<Longrightarrow> \<exists>y. a_heap s' c = Some y \<and> links_only z y"
proof -
  obtain x where x: "a_heap s b = Some x" using invD(3) [OF inv] by (auto simp: ids_ok_def)
  let ?s1 = "try_merge_locked b (cb_prev x) s"
  obtain k1 x1 where m1: "ainv Q {b} k1 ?s1" "a_heap ?s1 b = Some x1" "k1 + cb_size x1 = a_bytes_cached s + cb_size x"
      "same_rest s ?s1" using try_merge_inv [OF inv x, of "cb_prev x"] by blast
  let ?s2 = "try_merge_locked b (cb_next x1) ?s1"
  obtain k2 x2 where m2: "ainv Q {b} k2 ?s2" "a_heap ?s2 b = Some x2" "k2 + cb_size x2 = k1 + cb_size x1"
      "same_rest ?s1 ?s2" using try_merge_inv [OF m1(1,2), of "cb_next x1"] by blast
  have rest: "same_rest s ?s2" by (rule same_rest_trans [OF m1(4) m2(4)])
  let ?s3 = "upd_pool (cb_small x2) (pool_insert (a_heap ?s2) b) ?s2"
  have i3: "ainv Q {} (k2 + cb_size x2) ?s3" using inv_unhold [OF m2(1) _ m2(2) refl] by simp
  have bc: "a_bytes_cached ?s2 = a_bytes_cached s" using rest by (simp add: same_rest_def)
  have "size_add (a_bytes_cached s) (cb_size x) = k2 + cb_size x2"
    using cached_plus_held [OF inv _ x] m1(3) m2(3) by (simp add: size_add_exact)
  then have s': "s' = record_trace_locked Free_completed (cb_ptr x2) (cb_size x) (cb_stream x2)
      (?s3\<lparr>a_bytes_cached := k2 + cb_size x2,
        a_peak_bytes_cached := max (a_peak_bytes_cached ?s3) (k2 + cb_size x2)\<rparr>)"
    using x m1(2) m2(2) bc by (simp add: s'_def free_block_locked_def Let_def)
  show "ainv Q {} (a_bytes_cached s') s'"
    unfolding s' using i3 by (simp add: inv_trace)
  show "a_events s' = a_events s" "a_allocated s' = a_allocated s" "a_segments s' = a_segments s"
    "a_stats s' = a_stats s" "a_max_cached_bytes s' = a_max_cached_bytes s"
    using rest by (simp_all add: s' same_rest_def)
  show "\<exists>y. a_heap s' c = Some y \<and> links_only z y" if "a_heap s c = Some z" "\<not> is_free z"
    using rest that by (simp add: s' same_rest_def)
qed

section \<open>Changing the flags of one block\<close>

lemma inv_reflag:
  assumes inv: "ainv Q X k s" and x: "a_heap s b = Some x" "same_shape x y"
    and X: "X' - {b} = X - {b}" "(is_free x \<and> b \<notin> X) = (is_free y \<and> b \<notin> X')" "b \<in> X' \<Longrightarrow> is_free y"
    and Q: "\<And>c. c \<noteq> b \<Longrightarrow> count Q' c = count Q c" "cb_event_count y = int (count Q' b)"
      "b \<in># Q' \<Longrightarrow> \<not> cb_allocated y \<and> cb_stream_uses y = []"
    and al: "allocs_ok ((a_heap s)(b \<mapsto> y)) al"
    and t: "bytes_allocated t + allocated_weight b x = bytes_allocated (a_stats s) + allocated_weight b y"
      "bytes_reserved t = bytes_reserved (a_stats s)"
  shows "ainv Q' X' k (s\<lparr>a_heap := (a_heap s)(b \<mapsto> y), a_allocated := al, a_stats := t\<rparr>)"
proof -
  let ?h = "(a_heap s)(b \<mapsto> y)"
  have fin: "finite (dom (a_heap s))" by (rule heap_okD(1) [OF invD(2) [OF inv]])
  have sh: "cb_size y = cb_size x" "cb_small y = cb_small x" "block_key y = block_key x"
    using x(2) by (auto simp: same_shape_def block_key_def)
  have mem: "c \<in> X' \<longleftrightarrow> c \<in> X" if "c \<noteq> b" for c using X(1) that by blast
  have pool: "pool_ok X' ?h sm (pool_of sm s)" for sm
  proof -
    note d = pool_okD [OF invD(4) [OF inv, of sm]]
    have "block_key (the (?h c)) = block_key (the (a_heap s c))" for c using x(1) sh by simp
    then have "sorted_wrt (\<lambda>b c. cache_block_less (the (?h b)) (the (?h c))) (pool_of sm s)"
      using d(2) by (simp add: cache_block_less_key)
    moreover have "c \<in> set (pool_of sm s) \<longleftrightarrow> (\<exists>z. ?h c = Some z \<and> is_free z \<and> c \<notin> X' \<and> cb_small z = sm)" for c
      using d(1) [of c] X(2) x(1) sh mem by (cases "c = b") auto
    ultimately show ?thesis unfolding pool_ok_def by blast
  qed
  have "events_ok Q' ?h"
  proof -
    have "c \<in># Q' \<longleftrightarrow> c \<in># Q" if "c \<noteq> b" for c using Q(1) [OF that] by (metis not_in_iff)
    then show ?thesis using invD(6) [OF inv] Q by (auto simp: events_ok_def)
  qed
  moreover have "sums_ok X' k (segs_of s) ?h (bytes_allocated t) (bytes_reserved t)"
  proof -
    have c: "block_sum (cached_weight X') ?h + cached_weight X' b x = block_sum (cached_weight X') (a_heap s) + cached_weight X' b y"
      by (rule block_sum_upd [OF fin x(1)])
    have "block_sum (cached_weight X') (a_heap s) + cached_weight X b x = block_sum (cached_weight X) (a_heap s) + cached_weight X' b x"
      using mem by (intro block_sum_reweight [OF fin x(1)]) (auto simp: cached_weight_def)
    moreover have "cached_weight X b x = cached_weight X' b y" using X(2) sh by (auto simp: cached_weight_def)
    ultimately have "block_sum (cached_weight X') ?h = k" using c invD(7) [OF inv] by (simp add: sums_ok_def)
    moreover have "block_sum allocated_weight ?h = bytes_allocated t"
      using block_sum_upd [OF fin x(1), of allocated_weight y] t(1) invD(7) [OF inv] by (simp add: sums_ok_def)
    moreover have "block_sum size_weight ?h = block_sum size_weight (a_heap s)"
      using block_sum_upd [OF fin x(1), of size_weight y] sh by (simp add: size_weight_def)
    ultimately show ?thesis using invD(7) [OF inv] t(2) by (simp add: sums_ok_def)
  qed
  moreover have "ids_ok X' ?h (a_next_id s) (a_registration_counter s)"
    using invD(3) [OF inv] x(1) X mem by (auto simp: ids_ok_def)
  moreover have "heap_ok (segs_of s) ?h" by (rule heap_ok_same_shape [OF invD(2) [OF inv] x])
  ultimately show ?thesis
    using invD(1,8) [OF inv] al pool [of True] pool [of False] by (simp add: ainv_def pool_of_def)
qed

text \<open>The same when neither the allocation flag nor a counter changes.\<close>

lemma inv_reflag_plain:
  assumes inv: "ainv Q X k s" and x: "a_heap s b = Some x" "same_shape x y" "cb_allocated y = cb_allocated x"
    and X: "X' - {b} = X - {b}" "(is_free x \<and> b \<notin> X) = (is_free y \<and> b \<notin> X')" "b \<in> X' \<Longrightarrow> is_free y"
    and Q: "\<And>c. c \<noteq> b \<Longrightarrow> count Q' c = count Q c" "cb_event_count y = int (count Q' b)"
      "b \<in># Q' \<Longrightarrow> \<not> cb_allocated y \<and> cb_stream_uses y = []"
  shows "ainv Q' X' k (s\<lparr>a_heap := (a_heap s)(b \<mapsto> y)\<rparr>)"
proof -
  have "allocs_ok ((a_heap s)(b \<mapsto> y)) (a_allocated s)"
    using invD(5) [OF inv] x by (auto simp: allocs_ok_def same_shape_def)
  moreover have "allocated_weight b y = allocated_weight b x" using x(2,3) by (simp add: allocated_weight_def same_shape_def)
  ultimately have "ainv Q' X' k (s\<lparr>a_heap := (a_heap s)(b \<mapsto> y), a_allocated := a_allocated s, a_stats := a_stats s\<rparr>)"
    by (intro inv_reflag [OF inv x(1,2) X Q]) simp_all
  then show ?thesis by simp
qed

end
