(* ===== verification/GPU_Steps.thy ===== *)
theory GPU_Steps
  imports GPU_Invariant
begin

text \<open>
  The steps the public operations of the allocator are made of: taking a block from a pool
  (with the best-fit property of the lookup), splitting it and handing it out, registering and
  releasing driver segments, trimming the cache, and completing events. Each keeps the
  invariant of \<open>GPU_Invariant\<close>.
\<close>

section \<open>Finding a block\<close>

lemma lower_bound_some:
  assumes "lower_bound h key bs = Some c" "sorted_wrt (\<lambda>b c. cache_block_less (the (h b)) (the (h c))) bs"
  shows "c \<in> set bs" "block_key key \<le> block_key (the (h c))"
    "d \<in> set bs \<Longrightarrow> block_key key \<le> block_key (the (h d)) \<Longrightarrow> block_key (the (h c)) \<le> block_key (the (h d))"
  using assms unfolding lower_bound_def
  by (induction bs) (auto simp: cache_block_less_key not_less split: if_splits intro: less_imp_le)

lemma lower_bound_none:
  "lower_bound h key bs = None \<longleftrightarrow> (\<forall>d\<in>set bs. block_key (the (h d)) < block_key key)"
  by (auto simp: lower_bound_def find_None_iff cache_block_less_key)

lemma block_key_le:
  "block_key x \<le> block_key y \<longleftrightarrow>
     cb_stream x < cb_stream y \<or> cb_stream x = cb_stream y \<and>
       (cb_size x < cb_size y \<or> cb_size x = cb_size y \<and>
         (cb_registration_counter x < cb_registration_counter y \<or>
          cb_registration_counter x = cb_registration_counter y \<and> cb_ptr x \<le> cb_ptr y))"
  by (simp add: block_key_def less_eq_prod_simp) auto

lemma search_key_le:
  assumes "0 < cb_registration_counter y"
  shows "block_key (new_cache_block 0 sz st small) \<le> block_key y \<longleftrightarrow>
     st < cb_stream y \<or> st = cb_stream y \<and> sz \<le> cb_size y"
  using assms by (auto simp: block_key_le new_cache_block_def)

lemma get_free_block_some:
  assumes inv: "ainv Q {} k s" and g: "get_free_block_locked small st sz s = (Some c, s')" and k: "k = a_bytes_cached s"
  shows "ainv Q {c} (a_bytes_cached s') s'" "a_heap s' = a_heap s"
    "\<exists>x. a_heap s c = Some x \<and> is_free x \<and> cb_stream x = st \<and> sz \<le> cb_size x \<and> cb_small x = small"
    "a_events s' = a_events s" "a_stats s' = a_stats s" "a_segments s' = a_segments s"
    "a_max_cached_bytes s' = a_max_cached_bytes s" "a_allocated s' = a_allocated s"
proof -
  note p = pool_okD [OF invD(4) [OF inv, of small]]
  have lb: "lower_bound (a_heap s) (new_cache_block 0 sz st small) (pool_of small s) = Some c"
    and st: "cb_stream (blk s c) = st"
    and s': "s' = (upd_pool small (remove1 c) s)\<lparr>a_bytes_cached := size_sub (a_bytes_cached s) (cb_size (blk s c))\<rparr>"
    using g by (auto simp: get_free_block_locked_def split: option.splits if_splits)
  obtain x where x: "a_heap s c = Some x" "is_free x" "cb_small x = small"
    using lower_bound_some(1) [OF lb p(2)] p(1) by blast
  have "0 < cb_registration_counter x" using heap_okD(3) [OF invD(2) [OF inv] x(1)] by (simp add: inside_ok_def)
  then have "sz \<le> cb_size x"
    using lower_bound_some(2) [OF lb p(2)] st x(1) by (simp add: search_key_le)
  then show "\<exists>x. a_heap s c = Some x \<and> is_free x \<and> cb_stream x = st \<and> sz \<le> cb_size x \<and> cb_small x = small"
    using x st by simp
  note h = inv_hold [OF inv x(1,2) _ x(3), of "remove1 c"]
  have "size_sub k (cb_size x) = k - cb_size x"
    using h(2) counter_bounds(1) [OF inv] by (simp add: size_sub_exact)
  then show "ainv Q {c} (a_bytes_cached s') s'" using h(1) x(1) k by (simp add: s')
  show "a_heap s' = a_heap s" "a_events s' = a_events s" "a_stats s' = a_stats s" "a_segments s' = a_segments s"
    "a_max_cached_bytes s' = a_max_cached_bytes s" "a_allocated s' = a_allocated s"
    by (simp_all add: s')
qed

lemma get_free_block_none: "get_free_block_locked small st sz s = (None, s') \<Longrightarrow> s' = s"
  by (auto simp: get_free_block_locked_def split: option.splits if_splits)

section \<open>Handing a block out\<close>

lemma split_rearranges:
  assumes ok: "heap_ok segs h" "segs_ok segs" and x: "h b = Some x" "is_free x" and nb: "h nb = None"
    and r: "0 < r" "r < cb_size x"
  shows "rearranges {b, nb} {b} {b, nb} h (split_block b nb r h)"
proof -
  note ap = split_block_apply [OF ok x(1) nb r]
  have "is_free (split_head x b r)" "is_free (split_tail x nb r)"
    using x(2) by (simp_all add: is_free_def split_head_def split_tail_def new_cache_block_def)
  moreover have "rel_option links_only (h c) (split_block b nb r h c)" if "c \<noteq> b" "c \<noteq> nb" for c
    using that by (cases "h c") (auto simp: ap)
  ultimately show ?thesis using x nb by (auto simp: rearranges_def ap split: if_splits)
qed

lemma should_split_less:
  assumes "should_split x r" "r \<le> cb_size x" "cb_size x < 2 ^ 64"
  shows "r < cb_size x"
  using assms by (auto simp: should_split_def Let_def size_sub_exact config_defs split: if_splits)

lemma split_found_inv:
  assumes inv: "ainv Q {b} (a_bytes_cached s) s" and x: "a_heap s b = Some x" and r: "0 < r" "r \<le> cb_size x"
    and sf: "split_found b r s = (b', s')"
  shows "ainv Q {b'} (a_bytes_cached s') s'" "\<exists>y. a_heap s' b' = Some y \<and> r \<le> cb_size y \<and> cb_size y \<le> cb_size x \<and>
      cb_ptr y = cb_ptr x \<and> cb_stream y = cb_stream x"
    "a_events s' = a_events s" "a_stats s' = a_stats s" "a_segments s' = a_segments s" "a_allocated s' = a_allocated s"
    "a_max_cached_bytes s' = a_max_cached_bytes s" "a_heap s c = Some z \<Longrightarrow> \<not> is_free z \<Longrightarrow> \<exists>y. a_heap s' c = Some y \<and> links_only z y"
proof -
  note ok = invD(2,1) [OF inv]
  have fx: "is_free x" using invD(3) [OF inv] x by (auto simp: ids_ok_def)
  have "ainv Q {b'} (a_bytes_cached s') s' \<and> (\<exists>y. a_heap s' b' = Some y \<and> r \<le> cb_size y \<and> cb_size y \<le> cb_size x \<and>
      cb_ptr y = cb_ptr x \<and> cb_stream y = cb_stream x) \<and>
    a_events s' = a_events s \<and> a_stats s' = a_stats s \<and> a_segments s' = a_segments s \<and> a_allocated s' = a_allocated s \<and>
    a_max_cached_bytes s' = a_max_cached_bytes s \<and>
    (\<forall>c z. a_heap s c = Some z \<longrightarrow> \<not> is_free z \<longrightarrow> (\<exists>y. a_heap s' c = Some y \<and> links_only z y))"
  proof (cases "should_split x r")
    case False
    then have "b' = b" "s' = s" using sf x by (auto simp: split_found_def)
    then show ?thesis using inv x r by auto
  next
    case True
    let ?nb = "a_next_id s"
    have rl: "r < cb_size x" using should_split_less [OF True r(2)] inside_ok_bound(2) [OF heap_okD(3) [OF ok(1) x] ok(2)] .
    have nb: "a_heap s ?nb = None" using invD(3) [OF inv] by (auto simp: ids_ok_def)
    let ?h = "split_block b ?nb r (a_heap s)"
    note ap = split_block_apply [OF ok x nb r(1) rl]
    have bnb: "b \<noteq> ?nb" using x nb by auto
    note rr = split_rearranges [OF ok x fx nb r(1) rl]
    have "block_sum size_weight ?h = block_sum size_weight (a_heap s)"
      using split_block_sum [OF ok x nb r(1) rl link_blind_weights(3)] rl
      by (simp add: size_weight_def split_head_def split_tail_def new_cache_block_def)
    moreover have "ids_ok {b, ?nb} ?h (Suc ?nb) (a_registration_counter s)"
    proof -
      have "dom ?h \<subseteq> insert ?nb (dom (a_heap s))" using x by (auto simp: ap dom_def split: if_splits)
      then show ?thesis using invD(3) [OF inv] rr by (auto simp: ids_ok_def less_Suc_eq rearranges_def ap)
    qed
    ultimately have i1: "ainv Q {b, ?nb} (a_bytes_cached s) (s\<lparr>a_heap := ?h, a_next_id := Suc ?nb\<rparr>)"
      using inv_rearrange [OF inv rr split_heap_ok [OF ok x nb r(1) rl]] by blast
    let ?s1 = "s\<lparr>a_heap := ?h, a_next_id := Suc ?nb\<rparr>"
    have t: "a_heap ?s1 b = Some (split_tail x ?nb r)" using bnb by (simp add: ap)
    have i2: "ainv Q {?nb} (a_bytes_cached s + (cb_size x - r))
        (upd_pool (cb_small x) (pool_insert ?h b) ?s1)"
      using inv_unhold [OF i1 _ t, of "cb_small x"] bnb by (simp add: split_tail_def insert_Diff_if)
    have "a_bytes_cached s + (cb_size x - r) < 2 ^ 64" using counter_bounds(1) [OF i2] .
    then have sz: "size_add (a_bytes_cached s) (cb_size x - r) = a_bytes_cached s + (cb_size x - r)"
      by (rule size_add_exact)
    have e: "b' = ?nb" "s' = (upd_pool (cb_small x) (pool_insert ?h b) ?s1)\<lparr>a_bytes_cached := a_bytes_cached s + (cb_size x - r)\<rparr>"
      using sf True x t sz by (auto simp: split_found_def Let_def split_tail_def)
    have "a_heap s' b' = Some (split_head x b r)" by (simp add: e ap)
    moreover have "\<exists>y. a_heap s' c = Some y \<and> links_only z y" if "a_heap s c = Some z" "\<not> is_free z" for c z
    proof -
      have "c \<noteq> b" "c \<noteq> ?nb" using that x fx nb by auto
      then show ?thesis using rearranges_some(1) [OF rr _ that(1)] by (simp add: e)
    qed
    moreover have "ainv Q {b'} (a_bytes_cached s') s'" using i2 by (simp add: e)
    ultimately show ?thesis using rl by (simp add: e split_head_def new_cache_block_def)
  qed
  then show "ainv Q {b'} (a_bytes_cached s') s'" "\<exists>y. a_heap s' b' = Some y \<and> r \<le> cb_size y \<and> cb_size y \<le> cb_size x \<and>
      cb_ptr y = cb_ptr x \<and> cb_stream y = cb_stream x"
    "a_events s' = a_events s" "a_stats s' = a_stats s" "a_segments s' = a_segments s" "a_allocated s' = a_allocated s"
    "a_max_cached_bytes s' = a_max_cached_bytes s" "a_heap s c = Some z \<Longrightarrow> \<not> is_free z \<Longrightarrow> \<exists>y. a_heap s' c = Some y \<and> links_only z y"
    by blast+
qed

lemma heap_ptr_inj:
  assumes "heap_ok segs h" "h b = Some x" "h c = Some y" "cb_ptr x = cb_ptr y"
  shows "b = c"
proof (rule ccontr)
  assume "b \<noteq> c"
  then have "disjoint x y" using heap_okD(4) [OF assms(1-3)] by simp
  then show False
    using assms(4) heap_okD(3) [OF assms(1,2)] heap_okD(3) [OF assms(1,3)] by (auto simp: disjoint_def inside_ok_def)
qed

lemma mark_allocated_inv:
  assumes inv: "ainv Q {b} k s" and x: "a_heap s b = Some x" and s'_def: "s' = mark_allocated b sz s"
  shows "ainv Q {} k s'" "map_of (a_allocated s') (cb_ptr x) = Some b"
    "a_heap s' = (a_heap s)(b \<mapsto> x\<lparr>cb_allocated := True, cb_requested_size := sz\<rparr>)"
    "a_events s' = a_events s" "a_bytes_cached s' = a_bytes_cached s" "a_segments s' = a_segments s"
    "a_max_cached_bytes s' = a_max_cached_bytes s" "bytes_reserved (a_stats s') = bytes_reserved (a_stats s)"
proof -
  let ?y = "x\<lparr>cb_allocated := True, cb_requested_size := sz\<rparr>" and ?h = "a_heap s"
  have fx: "is_free x" using invD(3) [OF inv] x by (auto simp: ids_ok_def)
  note ok = invD(2) [OF inv]
  have none: "map_of (a_allocated s) (cb_ptr x) = None"
  proof (rule ccontr)
    assume "map_of (a_allocated s) (cb_ptr x) \<noteq> None"
    then obtain c y where "?h c = Some y" "cb_allocated y" "cb_ptr y = cb_ptr x"
      using invD(5) [OF inv] unfolding allocs_ok_def by blast
    then show False using heap_ptr_inj [OF ok _ x] x fx by (auto simp: is_free_def)
  qed
  let ?al = "a_allocated s @ [(cb_ptr x, b)]"
  have mo: "map_of ?al = (map_of (a_allocated s))(cb_ptr x \<mapsto> b)"
    using none by (auto simp: map_add_def fun_eq_iff split: option.splits)
  have al: "allocs_ok (?h(b \<mapsto> ?y)) ?al"
    unfolding allocs_ok_def
  proof (intro conjI allI)
    show "distinct (map fst ?al)"
      using none invD(5) [OF inv] by (auto simp: allocs_ok_def map_of_eq_None_iff)
    fix p c
    have old: "map_of (a_allocated s) p = Some c \<longleftrightarrow> (\<exists>z. ?h c = Some z \<and> cb_allocated z \<and> cb_ptr z = p)"
      using invD(5) [OF inv] by (simp add: allocs_ok_def)
    show "map_of ?al p = Some c \<longleftrightarrow> (\<exists>z. (?h(b \<mapsto> ?y)) c = Some z \<and> cb_allocated z \<and> cb_ptr z = p)"
    proof (cases "c = b")
      case True
      have "map_of (a_allocated s) p \<noteq> Some b"
        using invD(5) [OF inv] x fx by (auto simp: allocs_ok_def is_free_def)
      then show ?thesis unfolding mo using True by (auto split: if_splits)
    next
      case False
      have "p \<noteq> cb_ptr x" if "?h c = Some z" "cb_ptr z = p" for z
        using heap_ptr_inj [OF ok that(1) x] that(2) False by auto
      then show ?thesis unfolding mo using old False by (auto split: if_splits)
    qed
  qed
  have held: "cb_size x + bytes_allocated (a_stats s) < 2 ^ 64"
  proof -
    have fin: "finite (dom ?h)" by (rule heap_okD(1) [OF ok])
    have "cb_size x + bytes_allocated (a_stats s) = block_sum allocated_weight (?h(b \<mapsto> ?y))"
      using block_sum_upd [OF fin x, of allocated_weight ?y] invD(7) [OF inv] fx
      by (simp add: sums_ok_def allocated_weight_def is_free_def)
    also have "\<dots> \<le> block_sum size_weight (?h(b \<mapsto> ?y))"
      by (rule block_sum_le) (simp add: allocated_weight_def size_weight_def)
    also have "\<dots> = block_sum size_weight ?h"
      using block_sum_upd [OF fin x, of size_weight ?y] by (simp add: size_weight_def)
    also have "\<dots> < 2 ^ 64" using segment_sum_bound [OF invD(1) [OF inv]] invD(7) [OF inv] by (simp add: sums_ok_def)
    finally show ?thesis .
  qed
  define t where "t = (a_stats s)\<lparr>successful_allocations := size_add (successful_allocations (a_stats s)) 1,
      bytes_allocated := cb_size x + bytes_allocated (a_stats s),
      peak_bytes_allocated := bump_peak (peak_bytes_allocated (a_stats s)) (cb_size x + bytes_allocated (a_stats s))\<rparr>"
  have t: "bytes_allocated t = bytes_allocated (a_stats s) + cb_size x" "bytes_reserved t = bytes_reserved (a_stats s)"
    by (simp_all add: t_def)
  have s': "s' = record_trace_locked Alloc (cb_ptr x) (cb_size x) (cb_stream x)
        (s\<lparr>a_heap := ?h(b \<mapsto> ?y), a_allocated := ?al, a_stats := t\<rparr>)"
    using none x held
    by (simp add: s'_def mark_allocated_def Let_def on_block_def upd_block_def upd_stats_def emplace_alist_def
        size_add_exact add.commute t_def)
  have "count Q b = 0" using invD(6) [OF inv] x fx by (auto simp: events_ok_def is_free_def)
  then have "ainv Q {} k (s\<lparr>a_heap := ?h(b \<mapsto> ?y), a_allocated := ?al, a_stats := t\<rparr>)"
    using fx t al by (intro inv_reflag [OF inv x])
      (auto simp: same_shape_def is_free_def allocated_weight_def not_in_iff [symmetric])
  then show "ainv Q {} k s'" unfolding s' by (rule inv_trace)
  show "map_of (a_allocated s') (cb_ptr x) = Some b" "a_heap s' = ?h(b \<mapsto> ?y)"
    "a_events s' = a_events s" "a_bytes_cached s' = a_bytes_cached s" "a_segments s' = a_segments s"
    "a_max_cached_bytes s' = a_max_cached_bytes s" "bytes_reserved (a_stats s') = bytes_reserved (a_stats s)"
    using mo t by (simp_all add: s')
qed

section \<open>Segments\<close>

lemma register_segment_inv:
  assumes inv: "ainv Q {} k s" and raw: "segs_of s (rs_ptr raw) = None" "segs_ok ((segs_of s)(rs_ptr raw \<mapsto> raw))"
    and r: "register_segment raw st small s = (b, s')"
  shows "ainv Q {b} k s'" "\<exists>x. a_heap s' = (a_heap s)(b \<mapsto> x) \<and> cb_size x = rs_size raw \<and> cb_stream x = st \<and> cb_ptr x = rs_ptr raw"
    "a_heap s b = None" "a_events s' = a_events s" "a_bytes_cached s' = a_bytes_cached s" "a_allocated s' = a_allocated s"
    "a_max_cached_bytes s' = a_max_cached_bytes s" "bytes_reserved (a_stats s') = bytes_reserved (a_stats s) + rs_size raw"
proof -
  let ?x = "(new_cache_block (rs_ptr raw) (rs_size raw) st small)
      \<lparr>cb_vm_backed := rs_vm raw, cb_registration_counter := a_registration_counter s + 1\<rparr>"
  let ?h = "(a_heap s)(b \<mapsto> ?x)" and ?segs = "(segs_of s)(rs_ptr raw \<mapsto> raw)"
  have b: "b = a_next_id s" using r by (simp add: register_segment_def Let_def)
  have nb: "a_heap s b = None" using invD(3) [OF inv] b by (auto simp: ids_ok_def)
  have fin: "finite (dom (a_heap s))" "finite (dom (segs_of s))"
    using heap_okD(1) [OF invD(2) [OF inv]] invD(1) [OF inv] by (simp_all add: segs_ok_def)
  have fx: "is_free ?x" by (simp add: is_free_def new_cache_block_def)
  have ok: "heap_ok ?segs ?h"
    using invD(3) [OF inv] by (intro heap_ok_add_segment [OF invD(2) [OF inv] raw(2) nb raw(1)])
      (simp_all add: new_cache_block_def ids_ok_def)
  have new_sum: "segment_sum ?segs = segment_sum (segs_of s) + rs_size raw" by (rule segment_sum_new [OF fin(2) raw(1)])
  have res: "size_add (bytes_reserved (a_stats s)) (rs_size raw) = bytes_reserved (a_stats s) + rs_size raw"
    using segment_sum_bound [OF raw(2)] new_sum invD(7) [OF inv] by (simp add: size_add_exact sums_ok_def)
  define t where "t = (a_stats s)\<lparr>driver_allocations := size_add (driver_allocations (a_stats s)) 1,
      bytes_reserved := bytes_reserved (a_stats s) + rs_size raw,
      peak_bytes_reserved := bump_peak (peak_bytes_reserved (a_stats s)) (bytes_reserved (a_stats s) + rs_size raw)\<rparr>"
  have s': "s' = record_trace_locked Segment_alloc (rs_ptr raw) (rs_size raw) st
      (s\<lparr>a_heap := ?h, a_next_id := Suc b, a_registration_counter := a_registration_counter s + 1,
         a_segments := a_segments s @ [(rs_ptr raw, raw)], a_stats := t\<rparr>)"
    using r raw(1) res by (auto simp: register_segment_def Let_def upd_stats_def emplace_alist_def t_def)
  have mo: "map_of (a_segments s @ [(rs_ptr raw, raw)]) = ?segs"
    using raw(1) by (auto simp: map_add_def fun_eq_iff split: option.splits)
  have rr: "rearranges {b} {} {b} (a_heap s) ?h"
    using nb fx by (auto simp: rearranges_def intro: option.rel_refl)
  have "sums_ok {b} k ?segs ?h (bytes_allocated t) (bytes_reserved t)"
  proof -
    have "block_sum (cached_weight {b}) ?h = block_sum (cached_weight {}) (a_heap s)"
      using rr by (intro rearranges_sum [OF rr]) (auto simp: fin cached_weight_def nb)
    then show ?thesis
      using block_sum_new [OF fin(1) nb, of allocated_weight ?x] block_sum_new [OF fin(1) nb, of size_weight ?x]
        invD(7) [OF inv] new_sum by (simp add: sums_ok_def t_def allocated_weight_def size_weight_def new_cache_block_def)
  qed
  moreover have "ids_ok {b} ?h (Suc b) (a_registration_counter s + 1)"
    using invD(3) [OF inv] b fx by (auto simp: ids_ok_def less_Suc_eq)
  ultimately have "ainv Q {b} k (s\<lparr>a_heap := ?h, a_next_id := Suc b, a_registration_counter := a_registration_counter s + 1,
         a_segments := a_segments s @ [(rs_ptr raw, raw)], a_stats := t\<rparr>)"
    using invD [OF inv] ok raw(2) rearranges_pool [OF rr invD(4) [OF inv, of True]]
      rearranges_pool [OF rr invD(4) [OF inv, of False]] rearranges_allocs [OF rr] rearranges_events [OF rr]
    by (simp add: ainv_def mo pool_of_def del: map_of_append)
  then show "ainv Q {b} k s'" unfolding s' by (rule inv_trace)
  show "\<exists>x. a_heap s' = (a_heap s)(b \<mapsto> x) \<and> cb_size x = rs_size raw \<and> cb_stream x = st \<and> cb_ptr x = rs_ptr raw"
    by (rule exI [of _ ?x]) (simp add: s' new_cache_block_def)
  show "a_heap s b = None" by (rule nb)
  show "a_events s' = a_events s" "a_bytes_cached s' = a_bytes_cached s" "a_allocated s' = a_allocated s"
    "a_max_cached_bytes s' = a_max_cached_bytes s" "bytes_reserved (a_stats s') = bytes_reserved (a_stats s) + rs_size raw"
    by (simp_all add: s' t_def)
qed

lemma segs_ok_del: "segs_ok segs \<Longrightarrow> segs_ok (segs(p := None))"
  unfolding segs_ok_def by (auto split: if_splits)

lemma release_segment_inv:
  assumes inv: "ainv Q {b} k s" and x: "a_heap s b = Some x" "\<not> is_split x" and s'_def: "s' = release_segment_locked b s"
  shows "ainv Q {} k s'" "a_heap s' = (a_heap s)(b := None)" "a_small s' = a_small s" "a_large s' = a_large s"
    "a_events s' = a_events s" "a_bytes_cached s' = a_bytes_cached s" "a_allocated s' = a_allocated s"
    "a_max_cached_bytes s' = a_max_cached_bytes s" "bytes_reserved (a_stats s') + cb_size x = bytes_reserved (a_stats s)"
    "\<exists>raw. segs_of s (cb_segment_base x) = Some raw \<and> a_driver s' = a_driver s @ free_segment raw \<and>
       segs_of s' = (segs_of s)(cb_segment_base x := None)"
proof -
  note ok = invD(2) [OF inv]
  have fin: "finite (dom (a_heap s))" "finite (dom (segs_of s))"
    using heap_okD(1) [OF ok] invD(1) [OF inv] by (simp_all add: segs_ok_def)
  obtain raw where raw: "segs_of s (cb_segment_base x) = Some raw" "rs_size raw = cb_size x"
    using whole_segment(2) [OF ok x] by blast
  have base: "cb_segment_base x \<noteq> 0" using invD(1) [OF inv] raw(1) by (auto simp: segs_ok_def)
  have fx: "is_free x" using invD(3) [OF inv] x(1) by (auto simp: ids_ok_def)
  have sum: "segment_sum ((segs_of s)(cb_segment_base x := None)) + cb_size x = bytes_reserved (a_stats s)"
    using segment_sum_del [OF fin(2) raw(1)] raw(2) invD(7) [OF inv] by (simp add: sums_ok_def)
  have sub: "size_sub (bytes_reserved (a_stats s)) (cb_size x) = bytes_reserved (a_stats s) - cb_size x"
    using sum counter_bounds(3) [OF inv] by (intro size_sub_exact) simp_all
  define t where "t = (a_stats s)\<lparr>driver_frees := size_add (driver_frees (a_stats s)) 1,
      cache_evictions := size_add (cache_evictions (a_stats s)) 1,
      bytes_reserved := bytes_reserved (a_stats s) - cb_size x\<rparr>"
  let ?s1 = "s\<lparr>a_segments := AList.delete (cb_segment_base x) (a_segments s), a_stats := t, a_heap := (a_heap s)(b := None)\<rparr>"
  have s': "s' = (record_trace_locked Segment_free (cb_ptr x) (cb_size x) (cb_stream x) ?s1)\<lparr>a_driver := a_driver s @ free_segment raw\<rparr>"
    using raw(1) base x(1) sub
    by (simp add: s'_def release_segment_locked_def Let_def upd_stats_def record_trace_locked_def t_def)
  have mo: "segs_of ?s1 = (segs_of s)(cb_segment_base x := None)" by (simp add: delete_conv')
  have rr: "rearranges {b} {b} {} (a_heap s) ((a_heap s)(b := None))"
    using x(1) fx by (auto simp: rearranges_def intro: option.rel_refl)
  have "sums_ok {} k (segs_of ?s1) (a_heap ?s1) (bytes_allocated t) (bytes_reserved t)"
  proof -
    have "block_sum (cached_weight {}) ((a_heap s)(b := None)) = block_sum (cached_weight {b}) (a_heap s)"
      using rr by (intro rearranges_sum [OF rr]) (auto simp: fin cached_weight_def)
    then show ?thesis unfolding mo
      using block_sum_del [OF fin(1) x(1), of allocated_weight] block_sum_del [OF fin(1) x(1), of size_weight]
        invD(7) [OF inv] sum fx by (simp add: sums_ok_def t_def allocated_weight_def size_weight_def is_free_def)
  qed
  moreover have "ids_ok {} ((a_heap s)(b := None)) (a_next_id s) (a_registration_counter s)"
    using invD(3) [OF inv] by (auto simp: ids_ok_def)
  moreover have "heap_ok (segs_of ?s1) (a_heap ?s1)" unfolding mo using heap_ok_remove_segment [OF ok x] by simp
  moreover have "segs_ok (segs_of ?s1)" unfolding mo by (rule segs_ok_del [OF invD(1) [OF inv]])
  ultimately have "ainv Q {} k ?s1"
    using invD [OF inv] rearranges_pool [OF rr invD(4) [OF inv, of True]]
      rearranges_pool [OF rr invD(4) [OF inv, of False]] rearranges_allocs [OF rr] rearranges_events [OF rr]
    by (simp add: ainv_def pool_of_def)
  then show "ainv Q {} k s'" unfolding s' using inv_trace by simp
  show "a_heap s' = (a_heap s)(b := None)" "a_small s' = a_small s" "a_large s' = a_large s"
    "a_events s' = a_events s" "a_bytes_cached s' = a_bytes_cached s" "a_allocated s' = a_allocated s"
    "a_max_cached_bytes s' = a_max_cached_bytes s" "bytes_reserved (a_stats s') + cb_size x = bytes_reserved (a_stats s)"
    using sum by (simp_all add: s' t_def)
  show "\<exists>raw. segs_of s (cb_segment_base x) = Some raw \<and> a_driver s' = a_driver s @ free_segment raw \<and>
       segs_of s' = (segs_of s)(cb_segment_base x := None)"
    using raw mo by (simp add: s')
qed

lemma evict_inv:
  assumes inv: "ainv Q {} (a_bytes_cached s) s" and b: "b \<in> set (pool_of small s)" "\<not> is_split (blk s b)"
    and s'_def: "s' = evict small b s"
  shows "ainv Q {} (a_bytes_cached s') s'" "a_heap s' = (a_heap s)(b := None)" "a_events s' = a_events s"
    "pool_of sm s' = (if sm = small then remove1 b (pool_of sm s) else pool_of sm s)" "a_allocated s' = a_allocated s"
    "a_max_cached_bytes s' = a_max_cached_bytes s" "a_bytes_cached s' + cb_size (blk s b) = a_bytes_cached s"
    "bytes_reserved (a_stats s') \<le> bytes_reserved (a_stats s)" "is_free (blk s b)" "a_heap s b \<noteq> None"
    "segs_of s' \<subseteq>\<^sub>m segs_of s"
proof -
  obtain x where x: "a_heap s b = Some x" "is_free x" "cb_small x = small"
    using b(1) pool_okD(1) [OF invD(4) [OF inv]] by blast
  let ?s0 = "s\<lparr>a_bytes_cached := size_sub (a_bytes_cached s) (cb_size x)\<rparr>"
  let ?s1 = "upd_pool small (pool_erase (a_heap s) b) ?s0"
  have i0: "ainv Q {} (a_bytes_cached s) ?s0" using inv by simp
  have pe: "pool_of sm ?s0 = pool_of sm s" for sm by (simp add: pool_of_def)
  have e: "pool_erase (a_heap s) b (pool_of small s) = remove1 b (pool_of small s)"
    by (rule pool_erase_remove1 [OF invD(2) [OF inv] invD(4) [OF inv] b(1)])
  have h: "ainv Q {b} (a_bytes_cached s - cb_size x) ?s1" "cb_size x \<le> a_bytes_cached s"
    using inv_hold [OF i0 _ x(2) _ x(3), of b "pool_erase (a_heap s) b"] x(1) e pe by auto
  have bc: "a_bytes_cached ?s1 = a_bytes_cached s - cb_size x"
    using h(2) counter_bounds(1) [OF inv] by (simp add: size_sub_exact)
  have s': "s' = release_segment_locked b ?s1" using x(1) by (simp add: s'_def evict_def)
  have nx: "\<not> is_split x" using b(2) x(1) by simp
  have x1: "a_heap ?s1 b = Some x" using x(1) by simp
  note r = release_segment_inv [OF h(1) x1 nx s']
  show "ainv Q {} (a_bytes_cached s') s'" using r(1,6) bc by simp
  show "a_heap s' = (a_heap s)(b := None)" "a_events s' = a_events s" "a_allocated s' = a_allocated s"
    "a_max_cached_bytes s' = a_max_cached_bytes s" using r by simp_all
  show "pool_of sm s' = (if sm = small then remove1 b (pool_of sm s) else pool_of sm s)"
  proof -
    have "pool_of sm s' = pool_of sm ?s1" using r(3,4) by (simp add: pool_of_def)
    then show ?thesis using e pe by simp
  qed
  show "a_bytes_cached s' + cb_size (blk s b) = a_bytes_cached s" using r(6) bc h(2) x(1) by simp
  show "bytes_reserved (a_stats s') \<le> bytes_reserved (a_stats s)" using r(9) by simp
  show "is_free (blk s b)" "a_heap s b \<noteq> None" using x by simp_all
  show "segs_of s' \<subseteq>\<^sub>m segs_of s" using r(10) by (auto simp: map_le_def split: if_splits)
qed

section \<open>What every step keeps\<close>

text \<open>
  The contract of an internal step between two points where no block is held: the invariant
  holds again, no live allocation moves or changes size, and the event queues are untouched.
\<close>

definition same_live :: "alloc_state \<Rightarrow> alloc_state \<Rightarrow> bool" where
  "same_live s s' \<longleftrightarrow> a_allocated s' = a_allocated s \<and>
     (\<forall>c x. a_heap s c = Some x \<longrightarrow> cb_allocated x \<longrightarrow> (\<exists>y. a_heap s' c = Some y \<and> links_only x y))"

definition step_ok :: "bid multiset \<Rightarrow> alloc_state \<Rightarrow> bid multiset \<Rightarrow> alloc_state \<Rightarrow> bool" where
  "step_ok Q s Q' s' \<longleftrightarrow> ainv Q' {} (a_bytes_cached s') s' \<and> same_live s s' \<and>
     a_events s' = a_events s \<and> a_max_cached_bytes s' = a_max_cached_bytes s \<and>
     bytes_reserved (a_stats s') \<le> bytes_reserved (a_stats s) \<and> segs_of s' \<subseteq>\<^sub>m segs_of s"

lemma same_live_refl: "same_live s s"
  unfolding same_live_def using links_only_refl(1) by blast

lemma same_live_trans:
  assumes "same_live s t" "same_live t u"
  shows "same_live s u"
  unfolding same_live_def
proof (intro conjI allI impI)
  show "a_allocated u = a_allocated s" using assms by (simp add: same_live_def)
  fix c x assume x: "a_heap s c = Some x" "cb_allocated x"
  then obtain y where y: "a_heap t c = Some y" "links_only x y" using assms(1) unfolding same_live_def by blast
  then have "cb_allocated y" using x(2) links_onlyD(4) by blast
  then obtain z where "a_heap u c = Some z" "links_only y z" using assms(2) y(1) unfolding same_live_def by blast
  then show "\<exists>z. a_heap u c = Some z \<and> links_only x z" using links_only_trans [OF y(2)] by blast
qed

lemma step_ok_refl: "ainv Q {} (a_bytes_cached s) s \<Longrightarrow> step_ok Q s Q s"
  by (simp add: step_ok_def same_live_refl)

lemma step_ok_trans: "step_ok Q s Q1 t \<Longrightarrow> step_ok Q1 t Q2 u \<Longrightarrow> step_ok Q s Q2 u"
  unfolding step_ok_def by (auto intro: same_live_trans map_le_trans)

lemma step_okD: "step_ok Q s Q' s' \<Longrightarrow> ainv Q' {} (a_bytes_cached s') s'"
  by (simp add: step_ok_def)

lemma step_ok_tick: "ainv Q {} (a_bytes_cached s) s \<Longrightarrow> step_ok Q s Q (tick s)"
  by (simp add: step_ok_def same_live_def)

lemma evict_step:
  assumes "ainv Q {} (a_bytes_cached s) s" "b \<in> set (pool_of small s)" "\<not> is_split (blk s b)"
  shows "step_ok Q s Q (evict small b s)"
proof -
  note e = evict_inv [OF assms refl]
  have "same_live s (evict small b s)"
    unfolding same_live_def using e(2,5,9,10) by (auto simp: is_free_def)
  then show ?thesis using e by (simp add: step_ok_def)
qed

lemma free_step:
  assumes "ainv Q {b} (a_bytes_cached s) s"
  shows "step_ok Q s Q (free_block_locked b s)"
proof -
  note f = free_block_inv [OF assms]
  have "same_live s (free_block_locked b s)"
    unfolding same_live_def using f(3,7) by (auto simp: is_free_def)
  then show ?thesis using f by (simp add: step_ok_def)
qed

section \<open>Trimming and flushing the cache\<close>

lemma trim_victim_fold:
  fixes sz :: "bid \<Rightarrow> nat" and sp :: "bid \<Rightarrow> bool"
  defines "step \<equiv> \<lambda>v b. if \<not> sp b \<and> (case v of None \<Rightarrow> True | Some u \<Rightarrow> sz b > sz u) then Some b else v"
  shows "(foldl step a bs = None \<longleftrightarrow> a = None \<and> (\<forall>b\<in>set bs. sp b)) \<and>
    (\<forall>v. foldl step a bs = Some v \<longrightarrow> (a = Some v \<or> v \<in> set bs \<and> \<not> sp v) \<and>
       (\<forall>u. a = Some u \<longrightarrow> sz u \<le> sz v) \<and> (\<forall>b\<in>set bs. \<not> sp b \<longrightarrow> sz b \<le> sz v))"
proof (induction bs arbitrary: a)
  case Nil
  then show ?case by auto
next
  case (Cons b bs)
  have s: "step a b = None \<longleftrightarrow> a = None \<and> sp b" by (simp add: step_def split: option.splits)
  have t: "step a b = Some u \<Longrightarrow> (a = Some u \<or> u = b \<and> \<not> sp b) \<and> (\<forall>w. a = Some w \<longrightarrow> sz w \<le> sz u) \<and>
      (\<not> sp b \<longrightarrow> sz b \<le> sz u)" for u
    by (auto simp: step_def split: if_splits option.splits)
  show ?case
  proof (cases "step a b")
    case None
    then show ?thesis using Cons.IH [of "step a b"] s by auto
  next
    case (Some u)
    then have "a \<noteq> None \<or> \<not> sp b" using s by auto
    then show ?thesis using Cons.IH [of "step a b"] Some t [OF Some] by (auto intro: order_trans)
  qed
qed

lemma trim_victim_none: "trim_victim s = None \<longleftrightarrow> (\<forall>b\<in>set (a_small s @ a_large s). is_split (blk s b))"
  using trim_victim_fold [of "\<lambda>b. is_split (blk s b)" "\<lambda>b. cb_size (blk s b)" None "a_small s @ a_large s"]
  unfolding trim_victim_def by blast

lemma trim_victim_some:
  assumes "trim_victim s = Some v"
  shows "v \<in> set (a_small s @ a_large s)" "\<not> is_split (blk s v)"
    "b \<in> set (a_small s @ a_large s) \<Longrightarrow> \<not> is_split (blk s b) \<Longrightarrow> cb_size (blk s b) \<le> cb_size (blk s v)"
  using assms trim_victim_fold [of "\<lambda>b. is_split (blk s b)" "\<lambda>b. cb_size (blk s b)" None "a_small s @ a_large s"]
  unfolding trim_victim_def by blast+

lemma victim_pool:
  assumes "ainv Q {} k s" "v \<in> set (a_small s @ a_large s)"
  shows "v \<in> set (pool_of (cb_small (blk s v)) s)"
  using assms pool_okD(1) [OF invD(4) [OF assms(1), of True]] pool_okD(1) [OF invD(4) [OF assms(1), of False]]
  by (auto simp: pool_of_def)

lemma trim_loop_step:
  assumes "ainv Q {} (a_bytes_cached s) s" "length (a_small s @ a_large s) \<le> n"
  shows "step_ok Q s Q (trim_loop n s) \<and> (a_bytes_cached (trim_loop n s) \<le> a_max_cached_bytes s \<or>
    trim_victim (trim_loop n s) = None)"
  using assms
proof (induction n arbitrary: s)
  case 0
  then have "trim_victim s = None" by (simp add: trim_victim_none)
  then show ?case using 0 step_ok_refl by simp
next
  case (Suc n)
  show ?case
  proof (cases "a_bytes_cached s > a_max_cached_bytes s \<and> trim_victim s \<noteq> None")
    case False
    then have "trim_loop (Suc n) s = s" by (auto split: option.splits)
    then show ?thesis using False Suc.prems(1) step_ok_refl by auto
  next
    case True
    then obtain v where v: "trim_victim s = Some v" by blast
    note tv = trim_victim_some(1,2) [OF v]
    note vp = victim_pool [OF Suc.prems(1) tv(1)]
    let ?s = "evict (cb_small (blk s v)) v s"
    note st = evict_step [OF Suc.prems(1) vp tv(2)]
    note ev = evict_inv [OF Suc.prems(1) vp tv(2) refl]
    have "length (pool_of True ?s) + length (pool_of False ?s) < length (pool_of True s) + length (pool_of False s)"
      using ev(4) [of True] ev(4) [of False] vp
      by (cases "cb_small (blk s v)") (auto simp: length_remove1 dest: length_pos_if_in_set)
    then have "length (a_small ?s @ a_large ?s) \<le> n" using Suc.prems(2) by (simp add: pool_of_def)
    from Suc.IH [OF step_okD [OF st] this]
    show ?thesis using True v st step_ok_trans [OF st] ev(6) by auto
  qed
qed

lemma trim_step:
  assumes "ainv Q {} (a_bytes_cached s) s"
  shows "step_ok Q s Q (trim_cache_locked s)"
    "a_max_cached_bytes s = SIZE_MAX \<or> a_bytes_cached (trim_cache_locked s) \<le> a_max_cached_bytes s \<or>
     (\<forall>b\<in>set (a_small (trim_cache_locked s) @ a_large (trim_cache_locked s)). is_split (blk (trim_cache_locked s) b))"
  using trim_loop_step [OF assms order_refl] step_ok_refl [OF assms]
  by (auto simp: trim_cache_locked_def trim_victim_none)

lemma release_pool_fold:
  assumes "ainv Q {} (a_bytes_cached s) s" "distinct bs" "set bs \<subseteq> set (pool_of small s)"
    "s' = foldl (evict_unsplit small) s bs"
  shows "step_ok Q s Q s' \<and> (\<forall>b\<in>set bs. a_heap s' b = None \<or> is_split (blk s b)) \<and>
    (\<forall>sm. set (pool_of sm s') \<subseteq> set (pool_of sm s)) \<and> (\<forall>b x. a_heap s' b = Some x \<longrightarrow> a_heap s b = Some x)"
  using assms
proof (induction bs arbitrary: s)
  case Nil
  then show ?case by (simp add: step_ok_refl)
next
  case (Cons b bs)
  show ?case
  proof (cases "is_split (blk s b)")
    case True
    then have "s' = foldl (evict_unsplit small) s bs" using Cons.prems(4) by (simp add: evict_unsplit_def [of small s b])
    then show ?thesis using Cons.IH [of s] Cons.prems(1-3) True by simp
  next
    case False
    let ?s1 = "evict small b s"
    have s': "s' = foldl (evict_unsplit small) ?s1 bs" using Cons.prems(4) False by (simp add: evict_unsplit_def [of small s b])
    have bp: "b \<in> set (pool_of small s)" using Cons.prems(3) by simp
    note st = evict_step [OF Cons.prems(1) bp False]
    note ev = evict_inv [OF Cons.prems(1) bp False refl]
    have d: "distinct (pool_of small s)" by (rule pool_okD(3) [OF invD(4) [OF Cons.prems(1)]])
    have sub: "set bs \<subseteq> set (pool_of small ?s1)"
      using Cons.prems(2,3) d by (auto simp: ev(4))
    have db: "distinct bs" "b \<notin> set bs" using Cons.prems(2) by simp_all
    note ih = Cons.IH [OF step_okD [OF st] db(1) sub s']
    have heap: "a_heap s c = Some x" if "a_heap ?s1 c = Some x" for c x
      using that by (auto simp: ev(2) split: if_splits)
    have gone: "a_heap s' b = None"
    proof (cases "a_heap s' b")
      case (Some x)
      then have "a_heap ?s1 b = Some x" using ih by blast
      then show ?thesis by (simp add: ev(2))
    qed
    have same: "blk ?s1 c = blk s c" if "c \<in> set bs" for c
      using that db(2) by (auto simp: ev(2))
    have "\<forall>c\<in>set bs. a_heap s' c = None \<or> is_split (blk s c)"
    proof
      fix c assume c: "c \<in> set bs"
      then have "a_heap s' c = None \<or> is_split (blk ?s1 c)" using ih by blast
      then show "a_heap s' c = None \<or> is_split (blk s c)" using same [OF c] by simp
    qed
    moreover have "set (pool_of sm s') \<subseteq> set (pool_of sm s)" for sm
    proof -
      have "set (pool_of sm ?s1) \<subseteq> set (pool_of sm s)"
        unfolding ev(4) by (cases "sm = small") (simp_all add: set_remove1_subset)
      moreover have "set (pool_of sm s') \<subseteq> set (pool_of sm ?s1)" using ih by blast
      ultimately show ?thesis by (rule subset_trans [rotated])
    qed
    ultimately show ?thesis using ih step_ok_trans [OF st] gone heap by simp
  qed
qed

text \<open>Flushing one pool: afterwards every block left in it shares its segment with another block.\<close>

lemma release_pool_step:
  assumes inv: "ainv Q {} (a_bytes_cached s) s" and s': "s' = release_pool_blocks_locked small s"
  shows "step_ok Q s Q s'" "b \<in> set (pool_of small s') \<Longrightarrow> is_split (blk s' b)"
    "set (pool_of sm s') \<subseteq> set (pool_of sm s)" "a_heap s' b = Some x \<Longrightarrow> a_heap s b = Some x"
proof -
  note f = release_pool_fold [OF inv pool_okD(3) [OF invD(4) [OF inv, of small]] subset_refl
      s' [unfolded release_pool_blocks_locked_def]]
  then show st: "step_ok Q s Q s'" and "set (pool_of sm s') \<subseteq> set (pool_of sm s)"
    and heap: "\<And>b x. a_heap s' b = Some x \<Longrightarrow> a_heap s b = Some x" by blast+
  show "is_split (blk s' b)" if b: "b \<in> set (pool_of small s')"
  proof -
    obtain x where x: "a_heap s' b = Some x" using pool_okD(1) [OF invD(4) [OF step_okD [OF st], of small]] b by blast
    have "b \<in> set (pool_of small s)" using f b by blast
    then have "is_split (blk s b)" using f x by auto
    then show ?thesis using heap [OF x] x by simp
  qed
qed

section \<open>Events\<close>

lemma count_event:
  assumes "ainv Q X k s" "a_heap s b = Some x"
  shows "cb_event_count x = int (count Q b)" "b \<in># Q \<Longrightarrow> \<not> cb_allocated x \<and> cb_stream_uses x = []"
  using invD(6) [OF assms(1)] assms(2) by (auto simp: events_ok_def)

lemma complete_event_step:
  assumes inv: "ainv (add_mset b Q) {} (a_bytes_cached s) s"
  shows "step_ok (add_mset b Q) s Q (complete_event e b s)"
proof -
  obtain x where x: "a_heap s b = Some x" using invD(6) [OF inv] by (auto simp: events_ok_def)
  note c = count_event [OF inv x]
  let ?y = "x\<lparr>cb_event_count := cb_event_count x - 1\<rparr>"
  let ?s1 = "s\<lparr>a_event_pool := a_event_pool s @ [e], a_heap := (a_heap s)(b \<mapsto> ?y)\<rparr>"
  let ?X = "if count Q b = 0 then {b} else {}"
  have e1: "on_block b (\<lambda>x. x\<lparr>cb_event_count := cb_event_count x - 1\<rparr>) (recycle_event_locked e s) = ?s1"
    using x by (simp add: on_block_def upd_block_def recycle_event_locked_def)
  have "ainv Q ?X (a_bytes_cached s) (s\<lparr>a_heap := (a_heap s)(b \<mapsto> ?y)\<rparr>)"
    by (rule inv_reflag_plain [OF inv x]) (use c in \<open>auto simp: same_shape_def is_free_def split: if_splits\<close>)
  then have i1: "ainv Q ?X (a_bytes_cached ?s1) ?s1" by (simp add: ainv_def)
  have live: "same_live s ?s1" using x c(2) by (auto simp: same_live_def)
  have z: "cb_event_count ?y = 0 \<longleftrightarrow> count Q b = 0" using c(1) by simp
  have e2: "complete_event e b s = (if count Q b = 0 then free_block_locked b ?s1 else ?s1)"
    using z unfolding complete_event_def e1 Let_def by simp
  show ?thesis
  proof (cases "count Q b = 0")
    case True
    then have "step_ok Q ?s1 Q (free_block_locked b ?s1)" using free_step [of Q b ?s1] i1 by simp
    moreover have "complete_event e b s = free_block_locked b ?s1" using e2 True by simp
    ultimately show ?thesis using same_live_trans [OF live] unfolding step_ok_def by simp
  next
    case False
    have "complete_event e b s = ?s1" "ainv Q {} (a_bytes_cached ?s1) ?s1"
      using e2 i1 by (simp_all only: False if_False)
    then show ?thesis using live unfolding step_ok_def by simp
  qed
qed

lemma drain_queue_step:
  assumes "ainv (mset (map snd q) + R) {} (a_bytes_cached s) s" "drain_queue w q s = ((r, q'), s')"
  shows "step_ok (mset (map snd q) + R) s (mset (map snd q') + R) s' \<and> (r \<noteq> None \<longrightarrow> r \<noteq> Some (Runtime_error ''cudaEventSynchronize''))"
  using assms
proof (induction w q s arbitrary: rule: drain_queue.induct)
  case (1 w s)
  then show ?case using step_ok_refl by auto
next
  case (2 w e b q s)
  let ?Q = "mset (map snd q) + R"
  have i: "ainv (add_mset b ?Q) {} (a_bytes_cached (tick s)) (tick s)" using 2(2) by simp
  have t: "step_ok (add_mset b ?Q) s (add_mset b ?Q) (tick s)" using step_ok_tick [of "add_mset b ?Q" s] 2(2) by simp
  show ?case
  proof (cases "w_event_query w (a_clock s) e = cudaSuccess")
    case True
    note c = complete_event_step [OF i, of e]
    have d: "drain_queue w q (complete_event e b (tick s)) = ((r, q'), s')" using 2(3) True by simp
    from 2(1) [OF refl True step_okD [OF c] d] show ?thesis
      using step_ok_trans [OF t step_ok_trans [OF c]] by auto
  next
    case False
    then show ?thesis using 2(3) t by (auto simp: Let_def split: if_splits)
  qed
qed

lemma queued_Cons [simp]: "queued ((st, q) # evs) = mset (map snd q) + queued evs" "queued [] = {#}"
  by (simp_all add: queued_def)

lemma drain_streams_step:
  assumes "ainv (queued evs + R) {} (a_bytes_cached s) s" "drain_streams w evs s = ((r, evs'), s')"
  shows "step_ok (queued evs + R) s (queued evs' + R) s' \<and> (r \<noteq> None \<longrightarrow> r \<noteq> Some (Runtime_error ''cudaEventSynchronize''))"
  using assms
proof (induction w evs s arbitrary: R r evs' s' rule: drain_streams.induct)
  case (1 w s)
  then show ?case using step_ok_refl by auto
next
  case (2 w st q evs s)
  obtain r1 q1 s1 where d: "drain_queue w q s = ((r1, q1), s1)" by (metis prod.exhaust)
  have i: "ainv (mset (map snd q) + (queued evs + R)) {} (a_bytes_cached s) s" using 2(2) by (simp add: add.assoc)
  note q = drain_queue_step [OF i d]
  show ?case
  proof (cases r1)
    case (Some x)
    then show ?thesis using 2(3) d q by (auto simp: add.assoc)
  next
    case None
    obtain r2 evs2 s2 where e: "drain_streams w evs s1 = ((r2, evs2), s2)" by (metis prod.exhaust)
    have i2: "ainv (queued evs + (mset (map snd q1) + R)) {} (a_bytes_cached s1) s1"
      using step_okD [OF conjunct1 [OF q]] by (simp add: ac_simps)
    note h = 2(1) [OF d [symmetric] refl None i2 e]
    have s': "r = r2" "s' = s2" "queued evs' = mset (map snd q1) + queued evs2"
      using 2(3) d None e by auto
    have "step_ok (queued ((st, q) # evs) + R) s (mset (map snd q1) + (queued evs + R)) s1"
      using q by (simp add: add.assoc)
    moreover have "step_ok (mset (map snd q1) + (queued evs + R)) s1 (queued evs' + R) s'"
      using h by (simp add: s' ac_simps)
    ultimately show ?thesis using step_ok_trans h s' by blast
  qed
qed

lemma sync_queue_step:
  assumes "ainv (mset (map snd q) + R) {} (a_bytes_cached s) s" "sync_queue w q s = (None, s')"
  shows "step_ok (mset (map snd q) + R) s R s'"
  using assms
proof (induction w q s rule: sync_queue.induct)
  case (1 w s)
  then show ?case using step_ok_refl by auto
next
  case (2 w e b q s)
  let ?Q = "mset (map snd q) + R"
  have i: "ainv (add_mset b ?Q) {} (a_bytes_cached (tick s)) (tick s)" using 2(2) by simp
  have t: "step_ok (add_mset b ?Q) s (add_mset b ?Q) (tick s)" using step_ok_tick [of "add_mset b ?Q" s] 2(2) by simp
  note c = complete_event_step [OF i, of e]
  have ok: "w_event_sync w (a_clock s) e = cudaSuccess" and d: "sync_queue w q (complete_event e b (tick s)) = (None, s')"
    using 2(3) by (auto split: if_splits)
  have "step_ok ?Q (complete_event e b (tick s)) R s'" using 2(1) [OF _ step_okD [OF c] d] ok by simp
  then show ?case using step_ok_trans [OF t step_ok_trans [OF c]] by simp
qed

lemma sync_streams_step:
  assumes "ainv (queued evs + R) {} (a_bytes_cached s) s" "sync_streams w evs s = ((None, evs'), s')"
  shows "step_ok (queued evs + R) s R s' \<and> evs' = []"
  using assms
proof (induction w evs s rule: sync_streams.induct)
  case (1 w s)
  then show ?case using step_ok_refl by auto
next
  case (2 w st q evs s)
  obtain s1 where d: "sync_queue w q s = (None, s1)" "sync_streams w evs s1 = ((None, evs'), s')"
    using 2(3) by (auto split: prod.splits option.splits)
  have "ainv (mset (map snd q) + (queued evs + R)) {} (a_bytes_cached s) s" using 2(2) by (simp add: add.assoc)
  note q = sync_queue_step [OF this d(1)]
  have "step_ok (queued evs + R) s1 R s' \<and> evs' = []" using 2(1) [OF d(1) [symmetric] refl step_okD [OF q] d(2)] .
  then show ?case using step_ok_trans q by (auto simp: add.assoc)
qed

lemma sync_queue_error: "sync_queue w q s = (Some x, s') \<Longrightarrow> x = Runtime_error ''cudaEventSynchronize''"
  by (induction w q s rule: sync_queue.induct) (auto split: if_splits)

lemma sync_streams_error: "sync_streams w evs s = ((Some x, evs'), s') \<Longrightarrow> x = Runtime_error ''cudaEventSynchronize''"
  by (induction w evs s rule: sync_streams.induct) (auto split: prod.splits option.splits dest: sync_queue_error)

end
