(* ===== verification/GPU_Operations.thy ===== *)
theory GPU_Operations
  imports GPU_Steps
begin

text \<open>
  The public operations of the caching allocator keep its invariant, whatever the CUDA runtime
  answers, as long as it hands out memory that is not in use. The one exception is an error of
  \<open>cudaEventSynchronize\<close> in the middle of a queue (\<open>sync_failed\<close>), which leaves processed
  entries queued.
\<close>

section \<open>The environment\<close>

text \<open>Memory the driver hands out lies in the address space and outside the segments in use.\<close>

definition fresh_range :: "segments \<Rightarrow> addr \<Rightarrow> nat \<Rightarrow> bool" where
  "fresh_range segs a n \<longleftrightarrow> 0 < a \<and> a + n \<le> 2 ^ 64 \<and>
     (\<forall>p r. segs p = Some r \<longrightarrow> p + rs_size r \<le> a \<or> a + n \<le> p)"

definition driver_ok :: "gpu_world \<Rightarrow> bool" where
  "driver_ok w \<longleftrightarrow> (\<forall>t segs n a.
     (api_reserve (w_api w t segs) n = Some a \<longrightarrow> fresh_range segs a n) \<and>
     (api_malloc (w_api w t segs) n = Inr a \<longrightarrow> fresh_range segs a n) \<and>
     (\<forall>g. api_granularity (w_api w t segs) = Some g \<longrightarrow> g \<le> 2 ^ 62))"

definition world_ok :: "gpu_world \<Rightarrow> bool" where
  "world_ok w \<longleftrightarrow> driver_ok w \<and>
     (\<forall>t s. alloc_inv s \<longrightarrow> alloc_inv (w_interfere w t s)) \<and>
     (\<forall>c s. alloc_inv s \<longrightarrow> alloc_inv (snd (w_callback w c s)))"

text \<open>A world in which nobody else uses the allocator while an operation runs.\<close>

definition quiet :: "gpu_world \<Rightarrow> bool" where
  "quiet w \<longleftrightarrow> (\<forall>t s. w_interfere w t s = s) \<and> (\<forall>c s. snd (w_callback w c s) = s)"

definition sync_failed :: "gpu_exn + 'a \<Rightarrow> bool" where
  "sync_failed r \<longleftrightarrow> r = Inl (Runtime_error ''cudaEventSynchronize'')"

lemma fresh_segment:
  assumes "segs_ok segs" "fresh_range segs (rs_ptr raw) (rs_size raw)" "0 < rs_size raw"
  shows "segs (rs_ptr raw) = None" "segs_ok (segs(rs_ptr raw \<mapsto> raw))"
proof -
  note f = assms(2) [unfolded fresh_range_def]
  show none: "segs (rs_ptr raw) = None"
  proof (cases "segs (rs_ptr raw)")
    case (Some r)
    then have "0 < rs_size r" using assms(1) by (auto simp: segs_ok_def)
    then show ?thesis using f Some assms(3) by fastforce
  qed
  have sep: "p + rs_size r \<le> rs_ptr raw \<or> rs_ptr raw + rs_size raw \<le> p" if "segs p = Some r" for p r
    using f that by blast
  show "segs_ok (segs(rs_ptr raw \<mapsto> raw))"
    unfolding segs_ok_def
  proof (intro conjI allI impI)
    show "finite (dom (segs(rs_ptr raw \<mapsto> raw)))" using assms(1) by (simp add: segs_ok_def)
    fix p r assume p: "(segs(rs_ptr raw \<mapsto> raw)) p = Some r"
    show "rs_ptr r = p" "0 < p" "0 < rs_size r" "p + rs_size r \<le> 2 ^ 64"
      using p f assms(1,3) by (auto simp: segs_ok_def split: if_splits)
    fix q t assume q: "(segs(rs_ptr raw \<mapsto> raw)) q = Some t" "p < q"
    have "segs p = Some r \<Longrightarrow> segs q = Some t \<Longrightarrow> p + rs_size r \<le> q"
      using assms(1) q(2) unfolding segs_ok_def by blast
    then show "p + rs_size r \<le> q"
      using p q sep [of p r] sep [of q t] by (auto split: if_splits)
  qed
qed

section \<open>Contracts of operations\<close>

definition op_ok :: "gpu_world \<Rightarrow> 'a op \<Rightarrow> bool" where
  "op_ok w m \<longleftrightarrow> (\<forall>s r s'. alloc_inv s \<longrightarrow> m s = (r, s') \<longrightarrow> \<not> sync_failed r \<longrightarrow>
     alloc_inv s' \<and> (quiet w \<longrightarrow> same_live s s'))"

lemma op_okD: "op_ok w m \<Longrightarrow> alloc_inv s \<Longrightarrow> m s = (r, s') \<Longrightarrow> \<not> sync_failed r \<Longrightarrow>
    alloc_inv s' \<and> (quiet w \<longrightarrow> same_live s s')"
  unfolding op_ok_def by blast

lemma op_ok_bind:
  assumes "op_ok w m" "\<And>x. op_ok w (f x)"
  shows "op_ok w (bind_op m f)"
  unfolding op_ok_def
proof (intro allI impI)
  fix s r s' assume a: "alloc_inv s" "bind_op m f s = (r, s')" "\<not> sync_failed r"
  show "alloc_inv s' \<and> (quiet w \<longrightarrow> same_live s s')"
  proof (cases "m s")
    case (Pair q t)
    show ?thesis
    proof (cases q)
      case (Inl e)
      then show ?thesis using a Pair op_okD [OF assms(1) a(1) Pair] by (auto simp: bind_op_def sync_failed_def)
    next
      case (Inr x)
      then have t: "alloc_inv t \<and> (quiet w \<longrightarrow> same_live s t)" using op_okD [OF assms(1) a(1) Pair] by (simp add: sync_failed_def)
      have "f x t = (r, s')" using a(2) Pair Inr by (simp add: bind_op_def)
      from op_okD [OF assms(2) conjunct1 [OF t] this a(3)] t show ?thesis using same_live_trans by blast
    qed
  qed
qed

lemma op_ok_modify:
  assumes "\<And>s. alloc_inv s \<Longrightarrow> step_ok (queued (a_events s)) s (queued (a_events s)) (f s)"
  shows "op_ok w (modify_op f)"
  using assms by (auto simp: op_ok_def modify_op_def alloc_inv_def step_ok_def)

lemma op_ok_return: "op_ok w (return_op x)"
  by (simp add: op_ok_def return_op_def same_live_refl)

lemma op_ok_when: "op_ok w m \<Longrightarrow> op_ok w (when_op P m)"
  by (auto simp: op_ok_def when_op_def same_live_refl)

lemma alloc_inv_stats:
  assumes "alloc_inv s" "\<And>t. bytes_allocated (f t) = bytes_allocated t" "\<And>t. bytes_reserved (f t) = bytes_reserved t"
  shows "alloc_inv (upd_stats f s)" "same_live s (upd_stats f s)"
  using assms inv_stats [OF assms(2,3)] by (auto simp: alloc_inv_def same_live_def)

lemma op_ok_stats:
  assumes "\<And>t. bytes_allocated (f t) = bytes_allocated t" "\<And>t. bytes_reserved (f t) = bytes_reserved t"
  shows "op_ok w (modify_op (upd_stats f))"
  using alloc_inv_stats [OF _ assms] by (auto simp: op_ok_def modify_op_def)

lemma op_ok_guard: "op_ok w (guard_op w')"
  by (auto simp: op_ok_def guard_op_def alloc_inv_def same_live_def split: sum.splits)

lemma guard_not_sync: "guard_op w s = (r, s') \<Longrightarrow> \<not> sync_failed r"
  by (auto simp: guard_op_def sync_failed_def device_guard_enter_def throw_on_cuda_error_def split: sum.splits if_splits)

lemma op_ok_process_events: "op_ok w (process_events_locked w')"
  unfolding process_events_locked_def
proof (rule op_ok_bind [OF op_ok_guard])
  fix u :: unit
  show "op_ok w (\<lambda>s. end_scan (drain_streams w' (a_events s) s))"
    unfolding op_ok_def
  proof (intro allI impI)
    fix s r s' assume a: "alloc_inv s" "end_scan (drain_streams w' (a_events s) s) = (r, s')"
    obtain q evs t where d: "drain_streams w' (a_events s) s = ((q, evs), t)" by (metis prod.exhaust)
    have "ainv (queued (a_events s) + {#}) {} (a_bytes_cached s) s" using a(1) by (simp add: alloc_inv_def)
    from drain_streams_step [OF this d]
    show "alloc_inv s' \<and> (quiet w \<longrightarrow> same_live s s')"
      using a(2) d by (auto simp: end_scan_def alloc_inv_def step_ok_def same_live_def)
  qed
qed

lemma op_ok_sync: "op_ok w (synchronize_and_free_events_locked w')"
  unfolding synchronize_and_free_events_locked_def
proof (intro op_ok_bind op_ok_stats op_ok_guard)
  fix u v :: unit
  show "op_ok w (\<lambda>s. end_scan (sync_streams w' (a_events s) s))"
    unfolding op_ok_def
  proof (intro allI impI)
    fix s r s' assume a: "alloc_inv s" "end_scan (sync_streams w' (a_events s) s) = (r, s')" "\<not> sync_failed r"
    obtain q evs t where d: "sync_streams w' (a_events s) s = ((q, evs), t)" by (metis prod.exhaust)
    have q: "q = None"
    proof (cases q)
      case (Some x)
      then show ?thesis using sync_streams_error [of w' "a_events s" s x evs t] d a(2,3)
        by (auto simp: end_scan_def sync_failed_def)
    qed simp
    have "ainv (queued (a_events s) + {#}) {} (a_bytes_cached s) s" using a(1) by (simp add: alloc_inv_def)
    from sync_streams_step [OF this d [unfolded q]]
    show "alloc_inv s' \<and> (quiet w \<longrightarrow> same_live s s')"
      using a(2) d q by (auto simp: end_scan_def alloc_inv_def step_ok_def same_live_def)
  qed
qed simp_all

lemma step_ok_alloc_inv:
  assumes "alloc_inv s" "step_ok (queued (a_events s)) s (queued (a_events s)) s'"
  shows "alloc_inv s'" "same_live s s'"
  using assms by (auto simp: alloc_inv_def step_ok_def)

lemma op_ok_release_cached: "op_ok w (release_cached_blocks_locked w')"
  unfolding release_cached_blocks_locked_def
proof (intro op_ok_bind op_ok_sync op_ok_modify)
  fix s assume "alloc_inv s"
  then have "ainv (queued (a_events s)) {} (a_bytes_cached s) s" by (simp add: alloc_inv_def)
  note a = release_pool_step(1) [OF this refl, of True]
  note b = release_pool_step(1) [OF step_okD [OF a] refl, of False]
  show "step_ok (queued (a_events s)) s (queued (a_events s))
     (release_pool_blocks_locked False (release_pool_blocks_locked True s))"
    by (rule step_ok_trans [OF a b])
qed

lemma op_ok_trim: "op_ok w (modify_op trim_cache_locked)"
  by (rule op_ok_modify) (simp add: alloc_inv_def trim_step(1))

lemma alloc_inv_trace: "alloc_inv s \<Longrightarrow> alloc_inv (record_trace_locked act p n st s)"
  by (simp add: alloc_inv_def inv_trace)

lemma same_live_trace: "same_live s (record_trace_locked act p n st s)"
  by (simp add: same_live_def)

lemma op_ok_fail_oom: "op_ok w (fail_oom_locked sz st)"
  unfolding op_ok_def
proof (intro allI impI)
  fix s r and s' :: alloc_state
  let ?f = "\<lambda>t. t\<lparr>num_ooms := size_add (num_ooms t) 1\<rparr> :: unified_cache_stats"
  assume a: "alloc_inv s" "fail_oom_locked sz st s = (r, s')"
  have s': "s' = record_trace_locked Oom 0 sz st (upd_stats ?f s)" using a(2) by (simp add: fail_oom_locked_def)
  have "alloc_inv (upd_stats ?f s)" "same_live s (upd_stats ?f s)" by (rule alloc_inv_stats [OF a(1)]; simp)+
  then show "alloc_inv s' \<and> (quiet w \<longrightarrow> same_live s s')"
    unfolding s' using alloc_inv_trace same_live_trans same_live_trace by blast
qed

section \<open>Obtaining a block\<close>

definition held :: "alloc_state \<Rightarrow> bid \<Rightarrow> nat \<Rightarrow> stream \<Rightarrow> bool" where
  "held s b n st \<longleftrightarrow> ainv (queued (a_events s)) {b} (a_bytes_cached s) s \<and>
     (\<exists>x. a_heap s b = Some x \<and> n \<le> cb_size x \<and> cb_stream x = st)"

definition gives_block :: "gpu_world \<Rightarrow> bid op \<Rightarrow> nat \<Rightarrow> stream \<Rightarrow> bool" where
  "gives_block w m n st \<longleftrightarrow> (\<forall>s r s'. alloc_inv s \<longrightarrow> m s = (r, s') \<longrightarrow> \<not> sync_failed r \<longrightarrow>
     (case r of Inl e \<Rightarrow> alloc_inv s' | Inr b \<Rightarrow> held s' b n st) \<and> (quiet w \<longrightarrow> same_live s s'))"

lemma gives_block_bind:
  assumes "op_ok w m" "\<And>x. gives_block w (f x) n st"
  shows "gives_block w (bind_op m f) n st"
  unfolding gives_block_def
proof (intro allI impI)
  fix s r s' assume a: "alloc_inv s" "bind_op m f s = (r, s')" "\<not> sync_failed r"
  obtain q t where q: "m s = (q, t)" by fastforce
  show "(case r of Inl e \<Rightarrow> alloc_inv s' | Inr b \<Rightarrow> held s' b n st) \<and> (quiet w \<longrightarrow> same_live s s')"
  proof (cases q)
    case (Inl e)
    then show ?thesis using a q op_okD [OF assms(1) a(1) q] by (auto simp: bind_op_def sync_failed_def)
  next
    case (Inr x)
    then have t: "alloc_inv t \<and> (quiet w \<longrightarrow> same_live s t)"
      using op_okD [OF assms(1) a(1) q] by (simp add: sync_failed_def)
    have "f x t = (r, s')" using a(2) q Inr by (simp add: bind_op_def)
    with assms(2) [of x] t a(3) show ?thesis unfolding gives_block_def using same_live_trans by blast
  qed
qed

lemma gives_block_throw: "op_ok w m \<Longrightarrow> (\<And>s. \<exists>e s'. m s = (Inl e, s')) \<Longrightarrow> gives_block w m n st"
  unfolding gives_block_def op_ok_def by (metis old.sum.simps(5) prod.inject)

lemma alloc_segment_block:
  assumes w: "world_ok w" and n: "0 < n" "n \<le> 2 ^ 63" and a: "alloc_inv s" "alloc_segment_unlocked w small st n retry s = (r, s')"
  shows "(case r of Inr (Some b) \<Rightarrow> held s' b n st | _ \<Rightarrow> alloc_inv s') \<and> (quiet w \<longrightarrow> same_live s s') \<and> \<not> sync_failed r"
proof -
  define s1 where "s1 = (if retry then upd_stats (\<lambda>t. t\<lparr>num_alloc_retries := size_add (num_alloc_retries t) 1\<rparr>) s else s)"
  define s2 where "s2 = w_interfere w (a_clock s1) (tick s1)"
  obtain q calls where m: "malloc_segment (w_api w (a_clock s2) (segs_of s2)) (a_device s2) n = (q, calls)" by fastforce
  define s3 where "s3 = (tick s2)\<lparr>a_driver := a_driver s2 @ calls\<rparr>"
  have "alloc_inv s1" "same_live s s1"
    unfolding s1_def using a(1) alloc_inv_stats [OF a(1), of "\<lambda>t. t\<lparr>num_alloc_retries := size_add (num_alloc_retries t) 1\<rparr>"]
    by (simp_all add: same_live_refl)
  then have "alloc_inv (tick s1)" "same_live s (tick s1)" by (simp_all add: alloc_inv_def same_live_def)
  then have i2: "alloc_inv s2" "quiet w \<longrightarrow> same_live s s2" using w by (auto simp: s2_def world_ok_def quiet_def)
  then have i3: "alloc_inv s3" "quiet w \<longrightarrow> same_live s s3" by (simp_all add: s3_def alloc_inv_def same_live_def)
  have e: "alloc_segment_unlocked w small st n retry s =
      (case q of
         Inl e \<Rightarrow> (Inl e, s3)
       | Inr (raw, err) \<Rightarrow>
           if rs_ptr raw = 0
           then if err \<noteq> cudaSuccess \<and> err \<noteq> cudaErrorMemoryAllocation
                then (Inl (Runtime_error ''cudaMalloc''), s3) else (Inr None, s3)
           else let (b, s4) = register_segment raw st small s3 in (Inr (Some b), s4))"
    using m unfolding alloc_segment_unlocked_def Let_def s1_def [symmetric] s2_def [symmetric] s3_def
    by simp
  show ?thesis
  proof (cases "\<exists>raw err. q = Inr (raw, err) \<and> rs_ptr raw \<noteq> 0")
    case False
    have "q \<noteq> Inl (Runtime_error ''cudaEventSynchronize'')"
      using m by (auto simp: malloc_segment_def device_guard_enter_def throw_on_cuda_error_def split: sum.splits if_splits prod.splits option.splits)
    then show ?thesis using False a(2) e i3 by (auto simp: sync_failed_def split: sum.splits if_splits)
  next
    case True
    then obtain raw err where raw: "q = Inr (raw, err)" "rs_ptr raw \<noteq> 0" by blast
    have g: "\<forall>g. api_granularity (w_api w (a_clock s2) (segs_of s2)) = Some g \<longrightarrow> g \<le> 2 ^ 62"
      using w by (simp add: world_ok_def driver_ok_def)
    note ms = malloc_segment_size [OF m [unfolded raw(1)] raw(2) n g]
    have fr: "fresh_range (segs_of s2) (rs_ptr raw) (rs_size raw)"
      using ms(2) w by (auto simp: world_ok_def driver_ok_def)
    have i3': "ainv (queued (a_events s3)) {} (a_bytes_cached s3) s3" using i3(1) by (simp add: alloc_inv_def)
    have seg: "segs_of s3 (rs_ptr raw) = None" "segs_ok ((segs_of s3)(rs_ptr raw \<mapsto> raw))"
      using fresh_segment [of "segs_of s3" raw] invD(1) [OF i3'] fr ms(1) n(1) by (simp_all add: s3_def)
    obtain b s4 where r: "register_segment raw st small s3 = (b, s4)" by fastforce
    note reg = register_segment_inv [OF i3' seg r]
    have rs: "r = Inr (Some b)" "s' = s4" using a(2) e raw r by simp_all
    have "held s' b n st" using reg(1,2,4,5) ms(1) by (auto simp: held_def rs)
    moreover have "same_live s3 s4" using reg(2,3,6) by (auto simp: same_live_def)
    ultimately show ?thesis using i3(2) same_live_trans by (auto simp: rs sync_failed_def)
  qed
qed

lemma alloc_from_driver_block:
  assumes w: "world_ok w" and n: "0 < n" "n \<le> 2 ^ 63"
  shows "gives_block w (alloc_from_driver w small st n sz) n st"
  unfolding alloc_from_driver_def
proof (rule gives_block_bind [OF op_ok_when [OF op_ok_release_cached]],
    rule gives_block_bind [OF op_ok_when [OF op_ok_fail_oom]])
  fix u v :: unit
  let ?retry = "bind_op (release_cached_blocks_locked w) (\<lambda>_. bind_op (alloc_segment_unlocked w small st n True)
      (\<lambda>b. case b of None \<Rightarrow> fail_oom_locked sz st | Some b \<Rightarrow> return_op b))"
  have oom: "gives_block w (fail_oom_locked sz st) n st"
    by (rule gives_block_throw [OF op_ok_fail_oom]) (simp add: fail_oom_locked_def)
  have seg: "gives_block w (bind_op (alloc_segment_unlocked w small st n retry) (\<lambda>b. case b of None \<Rightarrow> m | Some b \<Rightarrow> return_op b)) n st"
    if m: "gives_block w m n st" for m retry
    unfolding gives_block_def
  proof (intro allI impI)
    fix s r s' assume a: "alloc_inv s"
      "bind_op (alloc_segment_unlocked w small st n retry) (\<lambda>b. case b of None \<Rightarrow> m | Some b \<Rightarrow> return_op b) s = (r, s')"
      "\<not> sync_failed r"
    obtain q t where q: "alloc_segment_unlocked w small st n retry s = (q, t)" by fastforce
    note b = alloc_segment_block [OF w n a(1) q]
    show "(case r of Inl e \<Rightarrow> alloc_inv s' | Inr b \<Rightarrow> held s' b n st) \<and> (quiet w \<longrightarrow> same_live s s')"
    proof (cases "q = Inr None")
      case True
      then have t: "alloc_inv t" "quiet w \<longrightarrow> same_live s t" using b by simp_all
      have "m t = (r, s')" using a(2) q True by (simp add: bind_op_def)
      with m t a(3) show ?thesis unfolding gives_block_def using same_live_trans by blast
    next
      case False
      then show ?thesis using a(2) q b by (auto simp: bind_op_def return_op_def split: sum.splits option.splits)
    qed
  qed
  show "gives_block w (bind_op (alloc_segment_unlocked w small st n False)
      (\<lambda>b. case b of None \<Rightarrow> ?retry | Some b \<Rightarrow> return_op b)) n st"
    by (rule seg, rule gives_block_bind [OF op_ok_release_cached], rule seg [OF oom])
qed

section \<open>Allocation\<close>

definition live :: "alloc_state \<Rightarrow> addr \<rightharpoonup> nat" where
  "live s p = map_option (\<lambda>b. cb_size (blk s b)) (map_of (a_allocated s) p)"

lemma same_live_eq:
  assumes "same_live s s'" "allocs_ok (a_heap s) (a_allocated s)"
  shows "live s' = live s"
proof
  fix p
  show "live s' p = live s p"
  proof (cases "map_of (a_allocated s) p")
    case None
    then show ?thesis using assms(1) by (simp add: live_def same_live_def)
  next
    case (Some b)
    then obtain x where x: "a_heap s b = Some x" "cb_allocated x" using assms(2) by (auto simp: allocs_ok_def)
    then obtain y where "a_heap s' b = Some y" "links_only x y" using assms(1) unfolding same_live_def by blast
    then show ?thesis using Some x assms(1) links_onlyD(2) [of x y] by (simp add: live_def same_live_def)
  qed
qed

lemma run_callbacks_inv:
  assumes w: "world_ok w"
  shows "alloc_inv s \<Longrightarrow> run_callbacks w cs s = (f, s') \<Longrightarrow> alloc_inv s' \<and> (quiet w \<longrightarrow> s' = s)"
proof (induction cs arbitrary: s f s')
  case (Cons c cs)
  obtain g t where g: "w_callback w c s = (g, t)" by fastforce
  then have t: "alloc_inv t" "quiet w \<longrightarrow> t = s" using w Cons.prems(1) unfolding world_ok_def quiet_def by (metis snd_conv)+
  obtain h u where h: "run_callbacks w cs t = (h, u)" by fastforce
  then show ?case using Cons.IH [OF t(1) h] Cons.prems(2) g t(2) by auto
qed simp

lemma get_free_held:
  assumes "alloc_inv s" "get_free_block_locked small st n s = (Some b, s')"
  shows "held s' b n st" "same_live s s'"
proof -
  note g = get_free_block_some [OF assms(1) [unfolded alloc_inv_def] assms(2) refl]
  show "held s' b n st" using g(1-4) by (auto simp: held_def)
  show "same_live s s'" using g(2,8) by (simp add: same_live_def)
qed

lemma find_cached_block:
  assumes w: "world_ok w" and a: "alloc_inv s" "find_cached w small st n s = (q, s')"
  shows "(case q of None \<Rightarrow> alloc_inv s' | Some b \<Rightarrow> held s' b n st) \<and> (quiet w \<longrightarrow> same_live s s')"
proof (cases "get_free_block_locked small st n s")
  case (Pair g t)
  show ?thesis
  proof (cases g)
    case (Some b)
    then show ?thesis using a Pair get_free_held [of s small st n b t] by (auto simp: find_cached_def)
  next
    case None
    then have t: "t = s" using Pair get_free_block_none by blast
    obtain f u where f: "run_callbacks w (a_callbacks s) s = (f, u)" by fastforce
    note u = run_callbacks_inv [OF w a(1) f]
    obtain g2 v where v: "get_free_block_locked small st n u = (g2, v)" by fastforce
    have "find_cached w small st n s = (if f then (g2, v) else (None, u))"
      using Pair None t f v by (simp add: find_cached_def trigger_free_memory_callbacks_locked_def split: bool.splits)
    then show ?thesis
      using a(2) u v get_free_held [of u small st n _ v] get_free_block_none [of small st n u v] same_live_refl [of s]
      by (cases g2; cases f) auto
  qed
qed

lemma held_stats:
  assumes "\<And>t. bytes_allocated (f t) = bytes_allocated t" "\<And>t. bytes_reserved (f t) = bytes_reserved t"
  shows "held (upd_stats f s) b n st = held s b n st" "same_live s (upd_stats f s)"
  using inv_stats [OF assms] by (auto simp: held_def same_live_def)

lemma held_mono: "held s b n st \<Longrightarrow> m \<le> n \<Longrightarrow> held s b m st"
  by (auto simp: held_def)

lemma find_block_gives:
  assumes w: "world_ok w" and n: "0 < n" "n \<le> 2 ^ 63" "r \<le> n"
  shows "gives_block w (find_block w small st r n sz) r st"
  unfolding gives_block_def
proof (intro allI impI)
  fix s res s' assume a: "alloc_inv s" "find_block w small st r n sz s = (res, s')" "\<not> sync_failed res"
  obtain q t where q: "find_cached w small st r s = (q, t)" by fastforce
  note f = find_cached_block [OF w a(1) q]
  show "(case res of Inl e \<Rightarrow> alloc_inv s' | Inr b \<Rightarrow> held s' b r st) \<and> (quiet w \<longrightarrow> same_live s s')"
  proof (cases q)
    case (Some b)
    then have "res = Inr b" "s' = upd_stats (\<lambda>t. t\<lparr>cache_hits := size_add (cache_hits t) 1\<rparr>) t"
      using a(2) q by (simp_all add: find_block_def)
    then show ?thesis
      using f Some held_stats [of "\<lambda>t. t\<lparr>cache_hits := size_add (cache_hits t) 1\<rparr>" t] same_live_trans by auto
  next
    case None
    let ?t = "upd_stats (\<lambda>t. t\<lparr>cache_misses := size_add (cache_misses t) 1\<rparr>) t"
    have t: "alloc_inv ?t" "same_live t ?t" using alloc_inv_stats [of t "\<lambda>t. t\<lparr>cache_misses := size_add (cache_misses t) 1\<rparr>"] f None by auto
    have "alloc_from_driver w small st n sz ?t = (res, s')" using a(2) q None by (simp add: find_block_def)
    then have "(case res of Inl e \<Rightarrow> alloc_inv s' | Inr b \<Rightarrow> held s' b n st) \<and> (quiet w \<longrightarrow> same_live ?t s')"
      using alloc_from_driver_block [OF w n(1,2), of small st sz] t(1) a(3) unfolding gives_block_def by blast
    moreover have "quiet w \<longrightarrow> same_live s ?t" using f t(2) same_live_trans by blast
    ultimately show ?thesis using held_mono [OF _ n(3)] same_live_trans [of s ?t s'] by (cases res) simp_all
  qed
qed

lemma alloc_found_inv:
  assumes h: "held s b r st" "0 < r" and f: "alloc_found_block_locked b r sz s = (p, s')"
  shows "alloc_inv s'" "live s p = None" "\<exists>b' y. map_of (a_allocated s') p = Some b' \<and> a_heap s' b' = Some y \<and>
      r \<le> cb_size y \<and> cb_stream y = st \<and> cb_requested_size y = sz \<and> cb_ptr y = p \<and> live s' = (live s)(p \<mapsto> cb_size y)"
proof -
  obtain x where x: "a_heap s b = Some x" "r \<le> cb_size x" "cb_stream x = st" using h(1) by (auto simp: held_def)
  note inv = h(1) [unfolded held_def, THEN conjunct1]
  obtain b' s1 where sf: "split_found b r s = (b', s1)" by fastforce
  note sp = split_found_inv [OF inv x(1) h(2) x(2) sf]
  obtain y where y: "a_heap s1 b' = Some y" "r \<le> cb_size y" "cb_stream y = st" using sp(2) x(3) by auto
  have i1: "ainv (queued (a_events s1)) {b'} (a_bytes_cached s1) s1" using sp(1,3) by simp
  note mk = mark_allocated_inv [OF i1 y(1) refl, of sz]
  let ?y = "y\<lparr>cb_allocated := True, cb_requested_size := sz\<rparr>"
  have e: "s' = mark_allocated b' sz s1" "p = cb_ptr y"
    using f sf mk(3) by (auto simp: alloc_found_block_locked_def Let_def)
  show "alloc_inv s'" using mk(1,4,5) by (simp add: alloc_inv_def e)
  have "same_live s s1" using sp(6,8) by (auto simp: same_live_def is_free_def)
  then have l1: "live s1 = live s" using same_live_eq invD(5) [OF inv] by blast
  have fy: "is_free y" using invD(3) [OF i1] y(1) by (auto simp: ids_ok_def)
  have none: "map_of (a_allocated s1) p = None"
  proof (cases "map_of (a_allocated s1) p")
    case (Some c)
    then obtain z where "a_heap s1 c = Some z" "cb_allocated z" "cb_ptr z = p" using invD(5) [OF i1] by (auto simp: allocs_ok_def)
    then show ?thesis using heap_ptr_inj [OF invD(2) [OF i1] _ y(1)] y(1) fy e(2) by (auto simp: is_free_def)
  qed simp
  then show "live s p = None" unfolding l1 [symmetric] by (simp add: live_def)
  have al: "a_allocated s' = a_allocated s1 @ [(p, b')]"
    using none y(1) by (simp add: e mark_allocated_def Let_def on_block_def upd_block_def upd_stats_def emplace_alist_def)
  have "live s' q = ((live s1)(p \<mapsto> cb_size y)) q" for q
  proof (cases "q = p")
    case True
    then show ?thesis using mk(2,3) by (simp add: live_def e)
  next
    case False
    have "c \<noteq> b'" if "map_of (a_allocated s1) q = Some c" for c
      using that invD(5) [OF i1] y(1) fy by (auto simp: allocs_ok_def is_free_def)
    then show ?thesis using False mk(3) al by (auto simp: live_def e map_add_def split: option.splits)
  qed
  then have "live s' = (live s)(p \<mapsto> cb_size y)" using l1 by auto
  then show "\<exists>b' y. map_of (a_allocated s') p = Some b' \<and> a_heap s' b' = Some y \<and>
      r \<le> cb_size y \<and> cb_stream y = st \<and> cb_requested_size y = sz \<and> cb_ptr y = p \<and> live s' = (live s)(p \<mapsto> cb_size y)"
    using mk(2,3) y e by (intro exI [of _ b'] exI [of _ ?y]) simp
qed

lemma allocate_contract:
  assumes w: "world_ok w" and sz: "0 < sz" "sz \<le> 2 ^ 62" and a: "alloc_inv s" "allocate w sz st s = (r, s')" "\<not> sync_failed r"
  shows "alloc_inv s'" "case r of Inl e \<Rightarrow> quiet w \<longrightarrow> live s' = live s
    | Inr p \<Rightarrow> (\<exists>b y. map_of (a_allocated s') p = Some b \<and> a_heap s' b = Some y \<and> sz \<le> cb_size y \<and>
        cb_stream y = st \<and> cb_requested_size y = sz \<and> cb_ptr y = p \<and>
        (quiet w \<longrightarrow> live s p = None \<and> live s' = (live s)(p \<mapsto> cb_size y)))"
proof -
  let ?r = "round_request_size sz" and ?small = "round_request_size sz \<le> kSmallSize"
  let ?n = "segment_size_for ?r"
  have rr: "sz \<le> ?r" "0 < ?r" "?r \<le> sz + 512" using round_request_size_facts [of sz] sz by auto
  have "?r + 2097152 \<le> 2 ^ 64" using rr sz by simp
  note sg = segment_size_for_facts [OF this]
  have n: "0 < ?n" "?n \<le> 2 ^ 63" "?r \<le> ?n" using sg rr sz by simp_all
  let ?fb = "find_block w ?small st ?r ?n sz"
  let ?k = "\<lambda>b s1. let (p, s2) = alloc_found_block_locked b ?r sz s1 in (Inr p, trim_cache_locked s2) :: (gpu_exn + addr) \<times> alloc_state"
  have gb: "gives_block w (bind_op (process_events_locked w) (\<lambda>_. ?fb)) ?r st"
    by (rule gives_block_bind [OF op_ok_process_events find_block_gives [OF w n]])
  have e: "allocate w sz st s = bind_op (bind_op (process_events_locked w) (\<lambda>_. ?fb)) ?k s"
    using sz(1) by (auto simp: allocate_def impl_allocate_def Let_def bind_op_def split: prod.splits sum.splits)
  obtain q t where q: "bind_op (process_events_locked w) (\<lambda>_. ?fb) s = (q, t)" by fastforce
  have al: "allocs_ok (a_heap s) (a_allocated s)" using a(1) invD(5) by (auto simp: alloc_inv_def)
  have "alloc_inv s' \<and> (case r of Inl e \<Rightarrow> quiet w \<longrightarrow> live s' = live s
    | Inr p \<Rightarrow> (\<exists>b y. map_of (a_allocated s') p = Some b \<and> a_heap s' b = Some y \<and> sz \<le> cb_size y \<and>
        cb_stream y = st \<and> cb_requested_size y = sz \<and> cb_ptr y = p \<and>
        (quiet w \<longrightarrow> live s p = None \<and> live s' = (live s)(p \<mapsto> cb_size y))))"
  proof (cases q)
    case (Inl x)
    then have "r = Inl x" "s' = t" using a(2) e q by (simp_all add: bind_op_def)
    moreover have "alloc_inv t \<and> (quiet w \<longrightarrow> same_live s t)"
      using gb a(1,3) q Inl \<open>r = Inl x\<close> unfolding gives_block_def sync_failed_def by fastforce
    ultimately show ?thesis using same_live_eq [OF _ al] by simp
  next
    case (Inr b)
    have h: "held t b ?r st" "quiet w \<longrightarrow> same_live s t"
      using gb a(1) q Inr unfolding gives_block_def sync_failed_def by fastforce+
    obtain p u where p: "alloc_found_block_locked b ?r sz t = (p, u)" by fastforce
    then have rs: "r = Inr p" "s' = trim_cache_locked u" using a(2) e q Inr by (simp_all add: bind_op_def)
    note f = alloc_found_inv [OF h(1) rr(2) p]
    have iu: "ainv (queued (a_events u)) {} (a_bytes_cached u) u" using f(1) by (simp add: alloc_inv_def)
    note st = step_ok_alloc_inv [OF f(1) trim_step(1) [OF iu]]
    obtain b' y where y: "map_of (a_allocated u) p = Some b'" "a_heap u b' = Some y" "?r \<le> cb_size y" "cb_stream y = st"
        "cb_requested_size y = sz" "cb_ptr y = p" "live u = (live t)(p \<mapsto> cb_size y)" using f(3) by blast
    have "cb_allocated y" using invD(5) [OF iu] y(1,2) by (auto simp: allocs_ok_def)
    then obtain z where z: "a_heap s' b' = Some z" "links_only y z" "map_of (a_allocated s') p = Some b'"
      using st(2) y(1,2) unfolding same_live_def rs by auto
    have lz: "cb_size z = cb_size y" "cb_stream z = cb_stream y" "cb_requested_size z = cb_requested_size y" "cb_ptr z = cb_ptr y"
      using z(2) by (auto simp: links_only_def)
    have "live s' = live u" using same_live_eq [OF st(2) invD(5) [OF iu]] rs by simp
    moreover have "quiet w \<longrightarrow> live t = live s" using h(2) same_live_eq [OF _ al] by blast
    ultimately show ?thesis using st(1) z lz y rr(1) f(2) rs by auto
  qed
  then show "alloc_inv s'" "case r of Inl e \<Rightarrow> quiet w \<longrightarrow> live s' = live s
    | Inr p \<Rightarrow> (\<exists>b y. map_of (a_allocated s') p = Some b \<and> a_heap s' b = Some y \<and> sz \<le> cb_size y \<and>
        cb_stream y = st \<and> cb_requested_size y = sz \<and> cb_ptr y = p \<and>
        (quiet w \<longrightarrow> live s p = None \<and> live s' = (live s)(p \<mapsto> cb_size y)))" by blast+
qed

end
