(* ===== verification/GPU_Dealloc.thy ===== *)
theory GPU_Dealloc
  imports GPU_Operations
begin

text \<open>
  \<open>deallocate\<close> with its deferred path through the event queues, \<open>record_stream\<close>, and the
  remaining operations of the allocator; then the reachable states of a sequence of operations.
\<close>

section \<open>Recording events\<close>

lemma queued_queue_event [simp]: "queued (queue_event st (e, b) evs) = add_mset b (queued evs)"
  by (induction st "(e, b)" evs rule: queue_event.induct) auto

definition pending_block :: "alloc_state \<Rightarrow> bid \<Rightarrow> bool" where
  "pending_block s b \<longleftrightarrow>
     ainv (queued (a_events s)) (if b \<in># queued (a_events s) then {} else {b}) (a_bytes_cached s) s \<and>
     (\<exists>x. a_heap s b = Some x \<and> \<not> cb_allocated x \<and> cb_stream_uses x = [])"

lemma acquire_event_frame:
  "acquire_event_locked w s = (r, s') \<Longrightarrow>
     (\<forall>Q X k. ainv Q X k s' = ainv Q X k s) \<and> a_heap s' = a_heap s \<and> a_events s' = a_events s \<and>
     a_bytes_cached s' = a_bytes_cached s \<and> a_allocated s' = a_allocated s \<and> \<not> sync_failed r"
  by (auto simp: acquire_event_locked_def sync_failed_def split: if_splits sum.splits)

lemma pending_record:
  assumes p: "pending_block s b"
    and s'_def: "s' = on_block b (\<lambda>x. x\<lparr>cb_event_count := cb_event_count x + 1\<rparr>) ((tick s)\<lparr>a_events := queue_event st (e, b) (a_events s)\<rparr>)"
  shows "pending_block s' b" "same_live s s'"
proof -
  let ?Q = "queued (a_events s)"
  obtain x where x: "a_heap s b = Some x" "\<not> cb_allocated x" "cb_stream_uses x = []"
    and inv: "ainv ?Q (if b \<in># ?Q then {} else {b}) (a_bytes_cached s) s"
    using p by (auto simp: pending_block_def)
  let ?y = "x\<lparr>cb_event_count := cb_event_count x + 1\<rparr>"
  note c = count_event [OF inv x(1)]
  have "ainv (add_mset b ?Q) {} (a_bytes_cached s) (s\<lparr>a_heap := (a_heap s)(b \<mapsto> ?y)\<rparr>)"
    by (rule inv_reflag_plain [OF inv x(1)]) (use c x in \<open>auto simp: same_shape_def is_free_def split: if_splits\<close>)
  moreover have s': "s' = (tick s)\<lparr>a_events := queue_event st (e, b) (a_events s), a_heap := (a_heap s)(b \<mapsto> ?y)\<rparr>"
    using x(1) by (simp add: s'_def on_block_def upd_block_def)
  moreover have "a_heap s' b = Some ?y" by (simp add: s')
  ultimately show "pending_block s' b" using x by (simp add: pending_block_def ainv_def tick_def)
  show "same_live s s'" using x by (auto simp: s' same_live_def)
qed

lemma record_events_inv:
  assumes "pending_block s b" "record_events w b sts s = (r, s')"
  shows "pending_block s' b \<and> same_live s s' \<and> \<not> sync_failed r \<and> (r = Inr () \<longrightarrow> sts \<noteq> [] \<longrightarrow> b \<in># queued (a_events s'))
    \<and> queued (a_events s) \<subseteq># queued (a_events s')"
  using assms
proof (induction w b sts s rule: record_events.induct)
  case (1 w b s)
  then show ?case by (auto simp: sync_failed_def same_live_refl)
next
  case (2 w b st sts s)
  obtain q t where q: "acquire_event_locked w s = (q, t)" by fastforce
  note f = acquire_event_frame [OF q]
  have pt: "pending_block t b" "same_live s t" using 2(2) f by (simp_all add: pending_block_def same_live_def)
  show ?case
  proof (cases "\<exists>e. q = Inr e \<and> w_event_record w (a_clock t) e st = cudaSuccess")
    case False
    then have "pending_block s' b \<and> same_live s s' \<and> \<not> sync_failed r \<and> r \<noteq> Inr () \<and> a_events s' = a_events s"
      using 2(3) q pt f by (auto simp: sync_failed_def pending_block_def same_live_def split: sum.splits if_splits)
    then show ?thesis by simp
  next
    case True
    then obtain e where e: "q = Inr e" "w_event_record w (a_clock t) e st = cudaSuccess" by blast
    let ?t1 = "on_block b (\<lambda>x. x\<lparr>cb_event_count := cb_event_count x + 1\<rparr>) ((tick t)\<lparr>a_events := queue_event st (e, b) (a_events t)\<rparr>)"
    note pr = pending_record [OF pt(1) refl, of st e]
    have re: "record_events w b sts ?t1 = (r, s')" using 2(3) q e by simp
    have ev: "a_events ?t1 = queue_event st (e, b) (a_events t)" by (simp add: on_block_def)
    have "\<not> w_event_record w (a_clock t) e st \<noteq> cudaSuccess" using e(2) by simp
    from 2(1) [OF q [symmetric] e(1) this pr(1) re]
    have ih: "pending_block s' b" "same_live ?t1 s'" "\<not> sync_failed r" "queued (a_events ?t1) \<subseteq># queued (a_events s')" by blast+
    have "b \<in># queued (a_events s')" using ih(4) unfolding ev by (auto dest: mset_subset_eqD)
    moreover have "queued (a_events s) \<subseteq># queued (a_events s')"
      using ih(4) f unfolding ev by (metis mset_subset_eq_insertD queued_queue_event subset_mset.less_imp_le)
    ultimately show ?thesis using ih same_live_trans [OF pt(2) same_live_trans [OF pr(2)]] by blast
  qed
qed

lemma insert_events_contract:
  assumes a: "alloc_inv s" and x: "a_heap s b = Some x" "\<not> cb_allocated x" "cb_stream_uses x \<noteq> []"
    and r: "insert_events_locked w b s = (r, s')"
  shows "alloc_inv s' \<and> same_live s s' \<and> \<not> sync_failed r"
proof (cases "guard_op w s")
  case (Pair g t)
  have t: "alloc_inv t" "a_heap t = a_heap s" "same_live s t"
    using Pair a by (auto simp: guard_op_def alloc_inv_def same_live_def split: sum.splits)
  show ?thesis
  proof (cases g)
    case (Inl e)
    then show ?thesis using r Pair t guard_not_sync [OF Pair] by (auto simp: insert_events_locked_def bind_op_def sync_failed_def)
  next
    case (Inr u)
    let ?Q = "queued (a_events t)" and ?y = "x\<lparr>cb_stream_uses := []\<rparr>"
    let ?t1 = "on_block b (\<lambda>x. x\<lparr>cb_stream_uses := []\<rparr>) t"
    have inv: "ainv ?Q {} (a_bytes_cached t) t" using t(1) by (simp add: alloc_inv_def)
    have xt: "a_heap t b = Some x" using t(2) x(1) by simp
    note c = count_event [OF inv xt]
    have z: "b \<notin># ?Q" "count ?Q b = 0" using c(2) x(3) by (auto simp: not_in_iff [symmetric])
    have t1: "?t1 = t\<lparr>a_heap := (a_heap t)(b \<mapsto> ?y)\<rparr>" using xt by (simp add: on_block_def upd_block_def)
    have "ainv ?Q {b} (a_bytes_cached t) (t\<lparr>a_heap := (a_heap t)(b \<mapsto> ?y)\<rparr>)"
      by (rule inv_reflag_plain [OF inv xt]) (use c x z in \<open>auto simp: same_shape_def is_free_def\<close>)
    then have p: "pending_block ?t1 b" using z x t1 by (simp add: pending_block_def)
    have l1: "same_live t ?t1" using x xt by (auto simp: t1 same_live_def)
    obtain q v where q: "record_events w b (cb_stream_uses x) ?t1 = (q, v)" by fastforce
    note re = record_events_inv [OF p q]
    obtain y where y: "a_heap v b = Some y" and iv: "ainv (queued (a_events v)) (if b \<in># queued (a_events v) then {} else {b}) (a_bytes_cached v) v"
      using re by (auto simp: pending_block_def)
    have zc: "cb_event_count y = 0 \<longleftrightarrow> b \<notin># queued (a_events v)" using count_event(1) [OF iv y] by (simp add: not_in_iff)
    have sl: "same_live s v" using same_live_trans [OF t(3) same_live_trans [OF l1]] re by blast
    show ?thesis
    proof (cases "b \<notin># queued (a_events v)")
      case True
      then obtain ex where ex: "q = Inl ex" using re x(3) by (cases q) auto
      have iv': "ainv (queued (a_events v)) {b} (a_bytes_cached v) v" using iv True by simp
      note fr = free_step [OF iv']
      have "r = Inl ex" "s' = free_block_locked b v"
        using r Pair Inr q ex zc True y xt by (simp_all add: insert_events_locked_def bind_op_def Let_def)
      moreover have "a_events (free_block_locked b v) = a_events v" using fr by (simp add: step_ok_def)
      ultimately show ?thesis
        using fr re ex same_live_trans [OF sl] by (auto simp: step_ok_def alloc_inv_def sync_failed_def)
    next
      case False
      have "ainv (queued (a_events v)) {} (a_bytes_cached v) v" using iv False by simp
      moreover have "s' = v" "sync_failed r = sync_failed q"
        using r Pair Inr q zc False y xt
        by (auto simp: insert_events_locked_def bind_op_def Let_def sync_failed_def split: sum.splits if_splits)
      ultimately show ?thesis using re sl by (simp add: alloc_inv_def)
    qed
  qed
qed

section \<open>Deallocation\<close>

lemma unlink_inv:
  assumes a: "alloc_inv s" and p: "map_of (a_allocated s) p = Some b" and s'_def: "s' = unlink_allocation p b st s"
  shows "\<exists>y. a_heap s' b = Some y \<and> \<not> cb_allocated y \<and>
      ainv (queued (a_events s')) (if cb_stream_uses y = [] then {b} else {}) (a_bytes_cached s') s' \<and>
      live s' = (live s)(p := None)"
proof -
  let ?Q = "queued (a_events s)" and ?h = "a_heap s"
  have inv: "ainv ?Q {} (a_bytes_cached s) s" using a by (simp add: alloc_inv_def)
  note al = invD(5) [OF inv, unfolded allocs_ok_def, THEN conjunct2]
  obtain x where x: "?h b = Some x" "cb_allocated x" "cb_ptr x = p" using al p by blast
  define u where "u = (if st \<noteq> 0 \<and> st \<noteq> cb_stream x then insort_insert st (cb_stream_uses x) else cb_stream_uses x)"
  let ?y = "x\<lparr>cb_allocated := False, cb_stream_uses := u\<rparr>"
  have ne: "insort_insert st xs \<noteq> []" for xs :: "nat list" by (auto simp: insort_insert_key_def)
  have sub: "size_sub (bytes_allocated (a_stats s)) (cb_size x) = bytes_allocated (a_stats s) - cb_size x"
    and le: "cb_size x \<le> bytes_allocated (a_stats s)"
  proof -
    have "block_sum allocated_weight (?h(b := None)) + cb_size x = bytes_allocated (a_stats s)"
      using block_sum_del [OF heap_okD(1) [OF invD(2) [OF inv]] x(1), of allocated_weight] invD(7) [OF inv] x(2)
      by (simp add: sums_ok_def allocated_weight_def)
    then show le: "cb_size x \<le> bytes_allocated (a_stats s)" by simp
    show "size_sub (bytes_allocated (a_stats s)) (cb_size x) = bytes_allocated (a_stats s) - cb_size x"
      by (rule size_sub_exact [OF le counter_bounds(2) [OF inv]])
  qed
  define t where "t = (a_stats s)\<lparr>successful_frees := size_add (successful_frees (a_stats s)) 1,
      bytes_allocated := bytes_allocated (a_stats s) - cb_size x\<rparr>"
  let ?al = "AList.delete p (a_allocated s)"
  let ?s1 = "s\<lparr>a_heap := ?h(b \<mapsto> ?y), a_allocated := ?al, a_stats := t\<rparr>"
  have hist: "s' = ?s1\<lparr>a_history := a_history s'\<rparr>" "history_ok (a_history s')"
    unfolding s'_def using x sub invD(8) [OF inv]
    by (auto simp: unlink_allocation_def Let_def on_block_def upd_block_def upd_stats_def record_trace_locked_def
        t_def u_def history_ok_record)
  have nq: "b \<notin># ?Q" using count_event(2) [OF inv x(1)] x(2) by blast
  have c: "cb_event_count x = 0" "count ?Q b = 0"
    using count_event(1) [OF inv x(1)] not_in_iff [THEN iffD1, OF nq] by simp_all
  have mo: "map_of ?al = (map_of (a_allocated s))(p := None)" by (simp add: delete_conv')
  have "allocs_ok (?h(b \<mapsto> ?y)) ?al"
    unfolding allocs_ok_def mo
  proof (intro conjI allI)
    show "distinct (map fst ?al)" using invD(5) [OF inv] by (auto simp: allocs_ok_def intro: distinct_delete)
    fix q c
    show "((map_of (a_allocated s))(p := None)) q = Some c \<longleftrightarrow> (\<exists>z. (?h(b \<mapsto> ?y)) c = Some z \<and> cb_allocated z \<and> cb_ptr z = q)"
      using al [rule_format, of q c] p x by (cases "c = b"; cases "q = p") auto
  qed
  then have "ainv ?Q (if u = [] then {b} else {}) (a_bytes_cached s) ?s1"
    by (intro inv_reflag [OF inv x(1)])
      (use x c nq le in \<open>auto simp: same_shape_def is_free_def allocated_weight_def t_def split: if_splits\<close>)
  then have i1: "ainv ?Q (if u = [] then {b} else {}) (a_bytes_cached s) (?s1\<lparr>a_history := a_history s'\<rparr>)"
    using hist(2) by (simp add: ainv_def)
  have fields: "a_heap s' = ?h(b \<mapsto> ?y)" "a_allocated s' = ?al" "a_events s' = a_events s" "a_bytes_cached s' = a_bytes_cached s"
    by (subst hist(1), simp)+
  have "ainv (queued (a_events s')) (if u = [] then {b} else {}) (a_bytes_cached s') s'"
    unfolding fields(3,4) using i1 by (subst hist(1))
  moreover have "live s' q = ((live s)(p := None)) q" for q
  proof -
    have "c \<noteq> b" if "map_of (a_allocated s) q = Some c" "q \<noteq> p" for c using al that x by auto
    then show ?thesis using fields(1,2) mo by (cases "map_of (a_allocated s) q") (auto simp: live_def)
  qed
  ultimately show ?thesis using fields(1) by (intro exI [of _ ?y]) auto
qed

lemma process_events_no_sync: "process_events_locked w s = (r, s') \<Longrightarrow> alloc_inv s \<Longrightarrow> \<not> sync_failed r"
proof -
  assume p: "process_events_locked w s = (r, s')" and a: "alloc_inv s"
  obtain g t where g: "guard_op w s = (g, t)" by fastforce
  then have t: "alloc_inv t" using op_okD [OF op_ok_guard a g] guard_not_sync [OF g] by blast
  obtain q evs u where d: "drain_streams w (a_events t) t = ((q, evs), u)" by (metis prod.exhaust)
  have "ainv (queued (a_events t) + {#}) {} (a_bytes_cached t) t" using t by (simp add: alloc_inv_def)
  from drain_streams_step [OF this d] guard_not_sync [OF g] show ?thesis
    using p g d by (auto simp: process_events_locked_def bind_op_def end_scan_def sync_failed_def split: sum.splits option.splits)
qed

text \<open>Every error of the event machinery is a \<open>runtime_error\<close> of a CUDA call.\<close>

lemma guard_error: "guard_op w s = (Inl e, s') \<Longrightarrow> \<exists>m. e = Runtime_error m"
  by (auto simp: guard_op_def device_guard_enter_def throw_on_cuda_error_def split: sum.splits if_splits)

lemma drain_queue_error: "drain_queue w q s = ((Some e, q'), s') \<Longrightarrow> \<exists>m. e = Runtime_error m"
  by (induction w q s rule: drain_queue.induct) (auto simp: Let_def split: if_splits)

lemma drain_streams_error: "drain_streams w evs s = ((Some e, evs'), s') \<Longrightarrow> \<exists>m. e = Runtime_error m"
  by (induction w evs s arbitrary: evs' s' rule: drain_streams.induct)
    (auto split: prod.splits option.splits dest: drain_queue_error)

lemma process_events_error: "process_events_locked w s = (Inl e, s') \<Longrightarrow> \<exists>m. e = Runtime_error m"
  by (auto simp: process_events_locked_def bind_op_def end_scan_def split: prod.splits sum.splits option.splits
      dest: guard_error drain_streams_error)

lemma record_events_error: "record_events w b sts s = (Inl e, s') \<Longrightarrow> \<exists>m. e = Runtime_error m"
  by (induction w b sts s rule: record_events.induct)
    (auto simp: acquire_event_locked_def split: sum.splits if_splits prod.splits)

lemma insert_events_error: "insert_events_locked w b s = (Inl e, s') \<Longrightarrow> \<exists>m. e = Runtime_error m"
  by (auto simp: insert_events_locked_def bind_op_def Let_def split: prod.splits sum.splits
      dest: guard_error record_events_error)

lemma quiet_exists: "\<exists>w0 :: gpu_world. quiet w0"
  by (rule exI [of _ "undefined\<lparr>w_interfere := \<lambda>_ s. s, w_callback := \<lambda>_ s. (False, s)\<rparr>"]) (simp add: quiet_def)

lemma process_events_live:
  assumes "alloc_inv s" "process_events_locked w s = (r, s')"
  shows "alloc_inv s'" "live s' = live s"
proof -
  note ns = process_events_no_sync [OF assms(2,1)]
  show "alloc_inv s'" using op_okD [OF op_ok_process_events assms ns] by blast
  obtain w0 :: gpu_world where "quiet w0" using quiet_exists by blast
  then have "same_live s s'" using op_okD [OF op_ok_process_events assms ns] by blast
  then show "live s' = live s" using same_live_eq invD(5) assms(1) by (auto simp: alloc_inv_def)
qed

lemma deallocate_eq:
  "p \<noteq> 0 \<Longrightarrow> deallocate w p st = bind_op (process_events_locked w) (\<lambda>_ s.
     case map_of (a_allocated s) p of
       None \<Rightarrow> (Inl (Check_failed ''cuda_caching_allocator does not own the provided pointer''), s)
     | Some b \<Rightarrow>
         if \<not> cb_allocated (blk s b) then (Inl (Check_failed ''cuda_caching_allocator detected a double free''), s)
         else finish_dealloc w b (unlink_allocation p b st s))"
  by (simp add: deallocate_def)

lemma finish_dealloc_contract:
  assumes y: "a_heap s b = Some y" "\<not> cb_allocated y"
    and i1: "ainv (queued (a_events s)) (if cb_stream_uses y = [] then {b} else {}) (a_bytes_cached s) s"
    and f: "finish_dealloc w b s = (r, s')"
  shows "alloc_inv s' \<and> live s' = live s \<and> \<not> sync_failed r \<and> (\<forall>e. r = Inl e \<longrightarrow> (\<exists>m. e = Runtime_error m))"
proof -
  obtain g v where g: "(if cb_stream_uses y \<noteq> [] then insert_events_locked w b else modify_op (free_block_locked b)) s = (g, v)"
    by fastforce
  have v: "alloc_inv v \<and> same_live s v \<and> \<not> sync_failed g \<and> (\<forall>e. g = Inl e \<longrightarrow> (\<exists>m. e = Runtime_error m))"
  proof (cases "cb_stream_uses y = []")
    case True
    then have "ainv (queued (a_events s)) {b} (a_bytes_cached s) s" using i1 by simp
    then show ?thesis using free_step g True by (auto simp: modify_op_def step_ok_def alloc_inv_def sync_failed_def)
  next
    case False
    then have "alloc_inv s" using i1 by (simp add: alloc_inv_def)
    then show ?thesis using insert_events_contract [OF _ y False] insert_events_error [of w b s _ v] False g by auto
  qed
  have lv: "live v = live s" using v same_live_eq invD(5) [OF i1] by blast
  show ?thesis
  proof (cases g)
    case (Inl ex)
    then have "r = Inl ex" "s' = v" using f g y(1) by (simp_all add: bind_op_def finish_dealloc_def)
    then show ?thesis using v lv Inl by (auto simp: sync_failed_def)
  next
    case (Inr z)
    then have rs: "r = Inr ()" "s' = trim_cache_locked v"
      using f g y(1) by (simp_all add: bind_op_def modify_op_def finish_dealloc_def)
    have iv: "ainv (queued (a_events v)) {} (a_bytes_cached v) v" using v by (simp add: alloc_inv_def)
    note tr = step_ok_alloc_inv [OF conjunct1 [OF v] trim_step(1) [OF iv]]
    have "live s' = live v" using same_live_eq [OF tr(2) invD(5) [OF iv]] rs by simp
    then show ?thesis using tr(1) rs lv by (simp add: sync_failed_def)
  qed
qed

lemma deallocate_contract:
  assumes a: "alloc_inv s" "deallocate w p st s = (r, s')" "p \<noteq> 0"
  shows "alloc_inv s' \<and> \<not> sync_failed r \<and>
    (case r of
       Inr _ \<Rightarrow> live s p \<noteq> None \<and> live s' = (live s)(p := None)
     | Inl (Check_failed m) \<Rightarrow> live s p = None \<and> live s' = live s \<and>
         m = ''cuda_caching_allocator does not own the provided pointer''
     | Inl _ \<Rightarrow> live s' = live s \<or> live s' = (live s)(p := None))"
proof -
  obtain q t where q: "process_events_locked w s = (q, t)" by fastforce
  note t = process_events_live [OF a(1) q]
  show ?thesis
  proof (cases q)
    case (Inl e)
    obtain m where "e = Runtime_error m" using process_events_error q Inl by blast
    moreover have "r = Inl e" "s' = t" using a(2,3) q Inl by (simp_all add: deallocate_eq bind_op_def)
    ultimately show ?thesis using process_events_no_sync [OF q a(1)] Inl t by (simp add: sync_failed_def)
  next
    case (Inr u)
    show ?thesis
    proof (cases "map_of (a_allocated t) p")
      case None
      then have "live t p = None" by (simp add: live_def)
      then show ?thesis using a(2,3) q Inr None t by (auto simp: deallocate_eq bind_op_def sync_failed_def)
    next
      case (Some b)
      have it: "ainv (queued (a_events t)) {} (a_bytes_cached t) t" using t by (simp add: alloc_inv_def)
      obtain x where x: "a_heap t b = Some x" "cb_allocated x" using invD(5) [OF it] Some unfolding allocs_ok_def by blast
      obtain y where y: "a_heap (unlink_allocation p b st t) b = Some y" "\<not> cb_allocated y"
          and i1: "ainv (queued (a_events (unlink_allocation p b st t))) (if cb_stream_uses y = [] then {b} else {})
            (a_bytes_cached (unlink_allocation p b st t)) (unlink_allocation p b st t)"
          and l1: "live (unlink_allocation p b st t) = (live t)(p := None)" using unlink_inv [OF t(1) Some refl] by blast
      have "live t p \<noteq> None" using Some by (simp add: live_def)
      moreover have "finish_dealloc w b (unlink_allocation p b st t) = (r, s')"
        using a(2,3) q Inr Some x by (simp add: deallocate_eq bind_op_def)
      note fd = finish_dealloc_contract [OF y i1 this]
      ultimately show ?thesis using fd l1 t(2) by (cases r) auto
    qed
  qed
qed

section \<open>The other operations\<close>

lemma record_stream_contract:
  assumes "alloc_inv s" "record_stream p st s = (r, s')"
  shows "alloc_inv s' \<and> live s' = live s"
proof (cases "\<exists>b. p \<noteq> 0 \<and> st \<noteq> 0 \<and> map_of (a_allocated s) p = Some b \<and> st \<noteq> cb_stream (blk s b)")
  case False
  then have "s' = s" using assms(2) by (auto simp: record_stream_def split: option.splits if_splits)
  then show ?thesis using assms(1) by simp
next
  case True
  then obtain b where b: "p \<noteq> 0" "st \<noteq> 0" "map_of (a_allocated s) p = Some b" "st \<noteq> cb_stream (blk s b)" by blast
  have inv: "ainv (queued (a_events s)) {} (a_bytes_cached s) s" using assms(1) by (simp add: alloc_inv_def)
  obtain x where x: "a_heap s b = Some x" "cb_allocated x" using invD(5) [OF inv] b(3) unfolding allocs_ok_def by blast
  let ?y = "x\<lparr>cb_stream_uses := insort_insert st (cb_stream_uses x)\<rparr>"
  have s': "s' = s\<lparr>a_heap := (a_heap s)(b \<mapsto> ?y)\<rparr>"
    using assms(2) b x(1) by (auto simp: record_stream_def on_block_def upd_block_def)
  note c = count_event [OF inv x(1)]
  have "ainv (queued (a_events s)) {} (a_bytes_cached s) s'"
    unfolding s' by (rule inv_reflag_plain [OF inv x(1)]) (use x c in \<open>auto simp: same_shape_def is_free_def\<close>)
  moreover have "live s' = live s" using x(1) by (auto simp: live_def s' fun_eq_iff intro!: map_option_cong)
  ultimately show ?thesis by (simp add: alloc_inv_def s')
qed

lemma set_max_contract:
  assumes "alloc_inv s"
  shows "alloc_inv (set_max_cached_bytes n s)" "live (set_max_cached_bytes n s) = live s"
proof -
  let ?s = "s\<lparr>a_max_cached_bytes := n\<rparr>"
  have i: "alloc_inv ?s" "same_live s ?s" using assms by (simp_all add: alloc_inv_def same_live_def)
  have "ainv (queued (a_events ?s)) {} (a_bytes_cached ?s) ?s" using i(1) by (simp add: alloc_inv_def)
  note t = step_ok_alloc_inv [OF i(1) trim_step(1) [OF this]]
  show "alloc_inv (set_max_cached_bytes n s)" using t(1) by (simp add: set_max_cached_bytes_def)
  show "live (set_max_cached_bytes n s) = live s"
    using same_live_eq [OF same_live_trans [OF i(2) t(2)]] assms invD(5)
    by (auto simp: set_max_cached_bytes_def alloc_inv_def)
qed

lemma plain_ops_contract:
  assumes "alloc_inv s"
  shows "alloc_inv (reset_peak_stats s)" "alloc_inv (add_free_memory_callback c s)"
    "alloc_inv (clear_free_memory_callbacks s)" "alloc_inv (record_memory_history en n s)"
    "alloc_inv (snd (snapshot s))" "alloc_inv (snd (set_memory_fraction w scale f s))"
proof -
  show "alloc_inv (reset_peak_stats s)" using assms by (simp add: alloc_inv_def ainv_def reset_peak_stats_def)
  show "alloc_inv (add_free_memory_callback c s)" "alloc_inv (clear_free_memory_callbacks s)"
    using assms by (simp_all add: alloc_inv_def add_free_memory_callback_def clear_free_memory_callbacks_def)
  show "alloc_inv (record_memory_history en n s)"
    using assms by (simp add: alloc_inv_def ainv_def record_memory_history_def history_ok_set_enabled)
  show "alloc_inv (snd (snapshot s))" using assms by (simp add: snapshot_def Let_def alloc_inv_trace)
  show "alloc_inv (snd (set_memory_fraction w scale f s))"
    using assms by (auto simp: set_memory_fraction_def bind_op_def guard_op_def alloc_inv_def split: sum.splits)
qed

end
