(* ===== verification/GPU_Properties.thy ===== *)
theory GPU_Properties
  imports GPU_Dealloc
begin

text \<open>
  What the caching allocator promises: the properties of the reachable states, the interface a
  client sees (\<open>memory_allocator\<close>) with its interpretation on the model, the best-fit lookup, the
  effect of flushing and trimming the cache, and the behaviours of the code that differ from what
  its documentation says.
\<close>

section \<open>Reachable states\<close>

inductive alloc_reach :: "gpu_world \<Rightarrow> alloc_state \<Rightarrow> bool" for w where
  reach_new: "alloc_reach w (new_allocator device n)"
| reach_allocate: "alloc_reach w s \<Longrightarrow> sz \<le> 2 ^ 62 \<Longrightarrow> allocate w sz st s = (r, s') \<Longrightarrow> \<not> sync_failed r \<Longrightarrow> alloc_reach w s'"
| reach_deallocate: "alloc_reach w s \<Longrightarrow> deallocate w p st s = (u, s') \<Longrightarrow> alloc_reach w s'"
| reach_record: "alloc_reach w s \<Longrightarrow> record_stream p st s = (u, s') \<Longrightarrow> alloc_reach w s'"
| reach_empty_cache: "alloc_reach w s \<Longrightarrow> empty_cache w s = (u, s') \<Longrightarrow> \<not> sync_failed u \<Longrightarrow> alloc_reach w s'"
| reach_max: "alloc_reach w s \<Longrightarrow> alloc_reach w (set_max_cached_bytes n s)"
| reach_fraction: "alloc_reach w s \<Longrightarrow> alloc_reach w (snd (set_memory_fraction w scale f s))"
| reach_peaks: "alloc_reach w s \<Longrightarrow> alloc_reach w (reset_peak_stats s)"
| reach_add_callback: "alloc_reach w s \<Longrightarrow> alloc_reach w (add_free_memory_callback c s)"
| reach_clear_callbacks: "alloc_reach w s \<Longrightarrow> alloc_reach w (clear_free_memory_callbacks s)"
| reach_history: "alloc_reach w s \<Longrightarrow> alloc_reach w (record_memory_history en n s)"
| reach_snapshot: "alloc_reach w s \<Longrightarrow> alloc_reach w (snd (snapshot s))"

lemma alloc_reach_inv:
  assumes w: "world_ok w"
  shows "alloc_reach w s \<Longrightarrow> alloc_inv s"
proof (induction rule: alloc_reach.induct)
  case (reach_new device n)
  then show ?case using inv_new by (simp add: alloc_inv_def new_allocator_def)
next
  case (reach_allocate s sz st r s')
  show ?case
  proof (cases "sz = 0")
    case True
    then show ?thesis using reach_allocate by (simp add: allocate_def return_op_def)
  next
    case False
    then show ?thesis using allocate_contract(1) [OF w] reach_allocate by blast
  qed
next
  case (reach_deallocate s p st u s')
  then show ?case using deallocate_contract [of s w p st u s']
    by (cases "p = 0") (auto simp: deallocate_def return_op_def)
next
  case (reach_record s p st u s')
  then show ?case using record_stream_contract by blast
next
  case (reach_empty_cache s u s')
  then show ?case using op_okD [OF op_ok_release_cached] by (simp add: empty_cache_def)
qed (simp_all add: set_max_contract plain_ops_contract)

lemma live_block:
  assumes "alloc_inv s" "live s p = Some n"
  obtains b x where "a_heap s b = Some x" "cb_allocated x" "cb_ptr x = p" "cb_size x = n" "map_of (a_allocated s) p = Some b"
proof -
  have al: "allocs_ok (a_heap s) (a_allocated s)" using assms(1) invD(5) by (auto simp: alloc_inv_def)
  obtain b where "map_of (a_allocated s) p = Some b" "cb_size (blk s b) = n" using assms(2) by (auto simp: live_def)
  then show ?thesis using al that unfolding allocs_ok_def by fastforce
qed

lemma live_disjoint:
  assumes "alloc_inv s" "live s p = Some n" "live s q = Some m" "p \<noteq> q"
  shows "p + n \<le> q \<or> q + m \<le> p"
proof -
  obtain b x where b: "a_heap s b = Some x" "cb_ptr x = p" "cb_size x = n" using live_block [OF assms(1,2)] by blast
  obtain c y where c: "a_heap s c = Some y" "cb_ptr y = q" "cb_size y = m" using live_block [OF assms(1,3)] by blast
  have "b \<noteq> c" using b c assms(4) by auto
  then have "disjoint x y" using heap_okD(4) [OF invD(2) [OF assms(1) [unfolded alloc_inv_def]] b(1) c(1)] by blast
  then show ?thesis using b c by (simp add: disjoint_def)
qed

lemma live_in_segment:
  assumes "alloc_inv s" "live s p = Some n"
  shows "0 < n \<and> (\<exists>base r. segs_of s base = Some r \<and> base \<le> p \<and> p + n \<le> base + rs_size r)"
proof -
  obtain b x where b: "a_heap s b = Some x" "cb_ptr x = p" "cb_size x = n" using live_block [OF assms] by blast
  then show ?thesis using heap_okD(3) [OF invD(2) [OF assms(1) [unfolded alloc_inv_def]] b(1)] by (auto simp: inside_ok_def)
qed

section \<open>The client's view\<close>

text \<open>
  What code that acquires and releases device memory relies on, and what follows from it for any
  sequence of its requests.
\<close>

locale memory_allocator =
  fixes good :: "'s \<Rightarrow> bool" and used :: "'s \<Rightarrow> nat \<rightharpoonup> nat"
    and acquire :: "nat \<Rightarrow> 's \<Rightarrow> (nat \<times> 's) option" and release :: "nat \<Rightarrow> 's \<Rightarrow> 's option"
  assumes acquire_law: "good s \<Longrightarrow> acquire n s = Some (p, s') \<Longrightarrow>
      good s' \<and> used s p = None \<and> (\<exists>m\<ge>n. used s' = (used s)(p \<mapsto> m))"
    and release_law: "good s \<Longrightarrow> release p s = Some s' \<Longrightarrow>
      good s' \<and> used s p \<noteq> None \<and> used s' = (used s)(p := None)"
    and separate: "good s \<Longrightarrow> used s p = Some n \<Longrightarrow> used s q = Some m \<Longrightarrow> p \<noteq> q \<Longrightarrow> p + n \<le> q \<or> q + m \<le> p"
begin

lemma acquire_outside:
  assumes "good s" "acquire n s = Some (p, s')" "used s q = Some m"
  shows "p + n \<le> q \<or> q + m \<le> p"
proof -
  obtain k where k: "n \<le> k" "used s' = (used s)(p \<mapsto> k)" and g: "good s'" "used s p = None"
    using acquire_law [OF assms(1,2)] by blast
  have "p \<noteq> q" using g(2) assms(3) by auto
  then have "p + k \<le> q \<or> q + m \<le> p" using separate [OF g(1), of p k q m] k(2) assms(3) by simp
  then show ?thesis using k(1) by linarith
qed

lemma release_once:
  assumes "good s" "release p s = Some s'"
  shows "release p s' = None"
proof (cases "release p s'")
  case (Some t)
  have "good s'" "used s' p = None" using release_law [OF assms] by simp_all
  then show ?thesis using release_law Some by blast
qed simp

end

definition gpu_acquire :: "gpu_world \<Rightarrow> stream \<Rightarrow> nat \<Rightarrow> alloc_state \<Rightarrow> (addr \<times> alloc_state) option" where
  "gpu_acquire w st sz s =
     (if sz = 0 \<or> sz > 2 ^ 62 then None
      else case allocate w sz st s of (Inr p, s') \<Rightarrow> Some (p, s') | (Inl e, s') \<Rightarrow> None)"

definition gpu_release :: "gpu_world \<Rightarrow> stream \<Rightarrow> addr \<Rightarrow> alloc_state \<Rightarrow> alloc_state option" where
  "gpu_release w st p s =
     (if p = 0 then None else case deallocate w p st s of (Inr _, s') \<Rightarrow> Some s' | (Inl e, s') \<Rightarrow> None)"

interpretation gpu: memory_allocator "\<lambda>s. world_ok w \<and> quiet w \<and> alloc_inv s" live "gpu_acquire w st" "gpu_release w st'"
  for w st st'
proof
  fix s n p s'
  assume g: "world_ok w \<and> quiet w \<and> alloc_inv s" and a: "gpu_acquire w st n s = Some (p, s')"
  have n: "0 < n" "n \<le> 2 ^ 62" and al: "allocate w n st s = (Inr p, s')"
    using a by (auto simp: gpu_acquire_def split: if_splits prod.splits sum.splits)
  have "\<not> sync_failed (Inr p :: gpu_exn + addr)" by (simp add: sync_failed_def)
  note c = allocate_contract [OF conjunct1 [OF g] n _ al this]
  show "(world_ok w \<and> quiet w \<and> alloc_inv s') \<and> live s p = None \<and> (\<exists>m\<ge>n. live s' = (live s)(p \<mapsto> m))"
    using c g by auto
next
  fix s p s'
  assume g: "world_ok w \<and> quiet w \<and> alloc_inv s" and a: "gpu_release w st' p s = Some s'"
  obtain u where "p \<noteq> 0" "deallocate w p st' s = (Inr u, s')"
    using a by (auto simp: gpu_release_def split: if_splits prod.splits sum.splits)
  then show "(world_ok w \<and> quiet w \<and> alloc_inv s') \<and> live s p \<noteq> None \<and> live s' = (live s)(p := None)"
    using deallocate_contract [of s w p st' "Inr u" s'] g by simp
next
  fix s p n q m
  assume "world_ok w \<and> quiet w \<and> alloc_inv s" "live s p = Some n" "live s q = Some m" "p \<noteq> q"
  then show "p + n \<le> q \<or> q + m \<le> p" using live_disjoint by blast
qed

section \<open>A sample runtime\<close>

definition sample_api :: "nat \<Rightarrow> segments \<Rightarrow> cu_api" where
  "sample_api t segs = \<lparr>api_get_device = Inr 0, api_set_device = (\<lambda>d. 0), api_granularity = None,
     api_reserve = (\<lambda>n. None), api_create = (\<lambda>n. None), api_map = (\<lambda>a n h. False),
     api_set_access = (\<lambda>a n. False),
     api_malloc = (\<lambda>n. if fresh_range segs (2 ^ 32 * Suc t) n then Inr (2 ^ 32 * Suc t) else Inl 2)\<rparr>"

definition sample_world :: gpu_world where
  "sample_world = \<lparr>w_api = sample_api, w_event_create = Inr, w_event_record = (\<lambda>t e st. 0),
     w_event_query = (\<lambda>t e. 600), w_event_sync = (\<lambda>t e. if e = 8 then 700 else 0),
     w_mem_total = (\<lambda>t. Inr 0), w_callback = (\<lambda>c s. (False, s)), w_interfere = (\<lambda>t s. s)\<rparr>"

lemma sample_world_ok: "world_ok sample_world" "quiet sample_world"
  by (auto simp: world_ok_def driver_ok_def quiet_def sample_world_def sample_api_def split: if_splits)

abbreviation state0 :: alloc_state where "state0 \<equiv> new_allocator 0 SIZE_MAX"

lemmas run_defs = allocate_def impl_allocate_def bind_op_def process_events_locked_def guard_op_def
  device_guard_enter_def sample_world_def sample_api_def end_scan_def find_block_def find_cached_def
  get_free_block_locked_def lower_bound_def trigger_free_memory_callbacks_locked_def alloc_from_driver_def
  when_op_def reserved_would_exceed_locked_def alloc_segment_unlocked_def malloc_segment_def
  try_cu_vm_alloc_def register_segment_def record_trace_locked_def record_entry_def upd_stats_def tick_def
  alloc_found_block_locked_def split_found_def should_split_def mark_allocated_def on_block_def upd_block_def
  split_block_def new_cache_block_def upd_pool_def pool_of_def emplace_alist_def trim_cache_locked_def
  return_op_def new_allocator_def stats_reset_def new_history_def bump_peak_def cudaSuccess_def
  fresh_range_def round_request_size_def round_to_def segment_size_for_def size_add_def size_sub_def
  size_mul_def config_defs SIZE_MAX_def stream_as_int_def

text \<open>The state after a new allocator has served a request for 1000 bytes.\<close>

definition state1 :: alloc_state where
  "state1 =
     \<lparr>a_device = 0, a_max_cached_bytes = 18446744073709551615, a_memory_fraction = 1,
      a_allowed_memory_maximum = 18446744073709551615, a_bytes_cached = 2096128, a_peak_bytes_cached = 0,
      a_small = [0], a_large = [], a_allocated = [(12884901888, 1)], a_events = [], a_event_pool = [], a_callbacks = [],
      a_segments = [(12884901888, \<lparr>rs_ptr = 12884901888, rs_size = 2097152, rs_vm = False, rs_handle = 0\<rparr>)],
      a_registration_counter = 1,
      a_stats = stats_reset\<lparr>cache_misses := 1, driver_allocations := 1, successful_allocations := 1,
        bytes_allocated := 1024, peak_bytes_allocated := 1024, bytes_reserved := 2097152, peak_bytes_reserved := 2097152\<rparr>,
      a_history = new_history,
      a_heap =
        [0 \<mapsto> \<lparr>cb_ptr = 12884902912, cb_size = 2096128, cb_requested_size = 0, cb_stream = 0, cb_small = True,
           cb_allocated = False, cb_prev = Some 1, cb_next = None, cb_event_count = 0, cb_stream_uses = [],
           cb_segment_base = 12884901888, cb_vm_backed = False, cb_registration_counter = 1\<rparr>,
         1 \<mapsto> \<lparr>cb_ptr = 12884901888, cb_size = 1024, cb_requested_size = 1000, cb_stream = 0, cb_small = True,
           cb_allocated = True, cb_prev = None, cb_next = Some 0, cb_event_count = 0, cb_stream_uses = [],
           cb_segment_base = 12884901888, cb_vm_backed = False, cb_registration_counter = 1\<rparr>],
      a_next_id = Suc (Suc 0), a_clock = Suc (Suc (Suc 0)), a_driver = [Cuda_malloc 12884901888]\<rparr>"

lemma state1_run: "allocate sample_world 1000 0 state0 = (Inr (2 ^ 32 * 3), state1)"
  by (simp add: run_defs state1_def)

lemma state1_reach: "alloc_reach sample_world state1"
  by (rule reach_allocate [OF reach_new, of 1000 sample_world 0 0 SIZE_MAX "Inr (2 ^ 32 * 3)" state1])
    (simp_all add: state1_run sync_failed_def)

lemma state1_live: "live state1 = [2 ^ 32 * 3 \<mapsto> 1024]"
  by (auto simp: fun_eq_iff live_def state1_def)

lemma state1_fields: "a_small state1 = [0]" "a_large state1 = []" "a_heap state1 0 \<noteq> None" "a_bytes_cached state1 = 2096128"
  "cb_size (blk state1 0) = 2096128" "cb_stream (blk state1 0) = 0" "a_events state1 = []" "a_max_cached_bytes state1 = SIZE_MAX"
  by (simp_all add: state1_def SIZE_MAX_def)

section \<open>Live memory\<close>





text \<open>
  C14: \<open>deallocate\<close> never touches another live allocation: it either succeeds on a live pointer and
  removes exactly it, or reports a foreign pointer (which is also what freeing a pointer twice
  reports: the double-free message is unreachable), or passes on a CUDA error.
\<close>

theorem deallocate_functional:
  assumes "world_ok w" "alloc_reach w s" "p \<noteq> 0" "deallocate w p st s = (r, s')"
  shows "alloc_inv s' \<and> (case r of
      Inr _ \<Rightarrow> live s p \<noteq> None \<and> live s' = (live s)(p := None)
    | Inl (Check_failed m) \<Rightarrow> live s p = None \<and> live s' = live s \<and>
        m = ''cuda_caching_allocator does not own the provided pointer''
    | Inl _ \<Rightarrow> live s' = live s \<or> live s' = (live s)(p := None))"
  using deallocate_contract [OF alloc_reach_inv [OF assms(1,2)] assms(4,3)] by blast

theorem deallocate_functional_witness:
  "alloc_reach sample_world state1 \<and> alloc_inv (snd (deallocate sample_world (2 ^ 32 * 3) 0 state1))"
  using deallocate_functional [OF sample_world_ok(1) state1_reach, of "2 ^ 32 * 3" 0] state1_reach
  by (auto simp: prod_eq_iff)

section \<open>Accounting\<close>

lemma sum_live:
  assumes "ainv Q X k s"
  shows "(\<Sum>p\<in>dom (live s). the (live s p)) = bytes_allocated (a_stats s)"
proof -
  note al = invD(5) [OF assms]
  have fin: "finite (dom (a_heap s))" using heap_okD(1) [OF invD(2) [OF assms]] .
  let ?B = "{b \<in> dom (a_heap s). cb_allocated (blk s b)}"
  have dom: "dom (live s) = (\<lambda>b. cb_ptr (blk s b)) ` ?B"
  proof (intro equalityI subsetI)
    fix p assume "p \<in> dom (live s)"
    then obtain b x where "a_heap s b = Some x" "cb_allocated x" "cb_ptr x = p"
      using al by (auto simp: live_def allocs_ok_def)
    then show "p \<in> (\<lambda>b. cb_ptr (blk s b)) ` ?B" by (intro image_eqI [of _ _ b]) auto
  next
    fix p assume "p \<in> (\<lambda>b. cb_ptr (blk s b)) ` ?B"
    then obtain b x where "a_heap s b = Some x" "cb_allocated x" "cb_ptr x = p" by auto
    then have "map_of (a_allocated s) p = Some b" using al unfolding allocs_ok_def by blast
    then show "p \<in> dom (live s)" by (simp add: live_def domIff)
  qed
  have inj: "inj_on (\<lambda>b. cb_ptr (blk s b)) ?B"
    using heap_ptr_inj [OF invD(2) [OF assms]] by (auto simp: inj_on_def)
  have val: "the (live s (cb_ptr (blk s b))) = cb_size (blk s b)" if b: "b \<in> ?B" for b
  proof -
    obtain x where x: "a_heap s b = Some x" "cb_allocated x" using b by auto
    then have "map_of (a_allocated s) (cb_ptr x) = Some b" using al unfolding allocs_ok_def by blast
    then show ?thesis using x(1) by (simp add: live_def)
  qed
  have "(\<Sum>p\<in>dom (live s). the (live s p)) = (\<Sum>b\<in>?B. cb_size (blk s b))"
    unfolding dom using val by (simp add: sum.reindex [OF inj])
  also have "\<dots> = (\<Sum>b\<in>dom (a_heap s). if cb_allocated (blk s b) then cb_size (blk s b) else 0)"
    by (rule sum.inter_filter [OF fin])
  finally show ?thesis using invD(7) [OF assms] by (simp add: sums_ok_def block_sum_def allocated_weight_def)
qed

lemma sum_pools:
  assumes "ainv Q {} k s"
  shows "sum_list (map (\<lambda>b. cb_size (blk s b)) (a_small s @ a_large s)) = k"
proof -
  have fin: "finite (dom (a_heap s))" using heap_okD(1) [OF invD(2) [OF assms]] .
  note ps = pool_okD [OF invD(4) [OF assms, of True]] and pl = pool_okD [OF invD(4) [OF assms, of False]]
  have d: "distinct (a_small s @ a_large s)" using ps(1,3) pl(1,3) by (auto simp: pool_of_def)
  have set: "set (a_small s @ a_large s) = {b \<in> dom (a_heap s). is_free (blk s b)}"
    using ps(1) pl(1) by (auto simp: pool_of_def)
  have "sum_list (map (\<lambda>b. cb_size (blk s b)) (a_small s @ a_large s)) =
      (\<Sum>b\<in>{b \<in> dom (a_heap s). is_free (blk s b)}. cb_size (blk s b))"
    unfolding sum_list_distinct_conv_sum_set [OF d] set ..
  also have "\<dots> = (\<Sum>b\<in>dom (a_heap s). if is_free (blk s b) then cb_size (blk s b) else 0)"
    by (rule sum.inter_filter [OF fin])
  finally show ?thesis using invD(7) [OF assms] by (simp add: sums_ok_def block_sum_def cached_weight_def)
qed



section \<open>The cache\<close>

text \<open>
  C16: the lookup in a pool is best fit. It returns a cached block of the requested stream that is
  large enough and no larger than any other such block, or nothing when there is no such block.
\<close>

theorem lookup_best_fit:
  assumes "world_ok w" "alloc_reach w s"
  shows "case get_free_block_locked small st sz s of
      (Some c, s') \<Rightarrow> c \<in> set (pool_of small s) \<and> cb_stream (blk s c) = st \<and> sz \<le> cb_size (blk s c) \<and>
        (\<forall>d\<in>set (pool_of small s). cb_stream (blk s d) = st \<longrightarrow> sz \<le> cb_size (blk s d) \<longrightarrow> cb_size (blk s c) \<le> cb_size (blk s d)) \<and>
        pool_of small s' = remove1 c (pool_of small s) \<and> a_bytes_cached s' = a_bytes_cached s - cb_size (blk s c)
    | (None, s') \<Rightarrow> s' = s \<and> (\<forall>d\<in>set (pool_of small s). cb_stream (blk s d) = st \<longrightarrow> cb_size (blk s d) < sz)"
proof -
  let ?key = "new_cache_block 0 sz st small" and ?bs = "pool_of small s"
  have inv: "ainv (queued (a_events s)) {} (a_bytes_cached s) s"
    using alloc_reach_inv [OF assms] by (simp add: alloc_inv_def)
  note p = pool_okD [OF invD(4) [OF inv, of small]]
  have le: "block_key ?key \<le> block_key (blk s d) \<longleftrightarrow> st < cb_stream (blk s d) \<or> st = cb_stream (blk s d) \<and> sz \<le> cb_size (blk s d)"
    if d: "d \<in> set ?bs" for d
  proof -
    obtain x where x: "a_heap s d = Some x" using p(1) d by blast
    have "0 < cb_registration_counter x" using heap_okD(3) [OF invD(2) [OF inv] x] by (simp add: inside_ok_def)
    then show ?thesis using x by (simp add: search_key_le)
  qed
  show ?thesis
  proof (cases "lower_bound (a_heap s) ?key ?bs")
    case None
    then have "\<forall>d\<in>set ?bs. \<not> block_key ?key \<le> block_key (blk s d)" by (simp add: lower_bound_none not_le)
    then show ?thesis using None le by (auto simp: get_free_block_locked_def not_le)
  next
    case (Some c)
    note lb = lower_bound_some [OF Some p(2)]
    have best: "block_key (blk s c) \<le> block_key (blk s d)" if "d \<in> set ?bs" "cb_stream (blk s d) = st" "sz \<le> cb_size (blk s d)" for d
      using lb(3) [OF that(1)] le [OF that(1)] that by blast
    show ?thesis
    proof (cases "cb_stream (blk s c) = st")
      case True
      have "sz \<le> cb_size (blk s c)" using lb(1,2) le True by blast
      moreover have "cb_size (blk s c) \<le> cb_size (blk s d)"
        if "d \<in> set ?bs" "cb_stream (blk s d) = st" "sz \<le> cb_size (blk s d)" for d
        using best [OF that] that(2) True by (auto simp: block_key_le)
      moreover have g: "get_free_block_locked small st sz s = (Some c, (upd_pool small (remove1 c) s)
          \<lparr>a_bytes_cached := size_sub (a_bytes_cached s) (cb_size (blk s c))\<rparr>)"
        using Some True by (simp add: get_free_block_locked_def)
      moreover have "cb_size (blk s c) \<le> sum_list (map (\<lambda>b. cb_size (blk s b)) (a_small s @ a_large s))"
        using lb(1) by (intro member_le_sum_list) (auto simp: pool_of_def split: if_splits)
      then have "size_sub (a_bytes_cached s) (cb_size (blk s c)) = a_bytes_cached s - cb_size (blk s c)"
        using sum_pools [OF inv] counter_bounds(1) [OF inv] by (intro size_sub_exact) simp_all
      ultimately show ?thesis using lb(1) True by (simp add: pool_of_def upd_pool_def)
    next
      case False
      have "cb_size (blk s d) < sz" if "d \<in> set ?bs" "cb_stream (blk s d) = st" for d
      proof (rule ccontr)
        assume "\<not> cb_size (blk s d) < sz"
        then have "block_key (blk s c) \<le> block_key (blk s d)" using best [OF that] by simp
        moreover have "st < cb_stream (blk s c)" using le [OF lb(1)] lb(2) False by simp
        ultimately show False using that(2) by (auto simp: block_key_le)
      qed
      then show ?thesis using Some False by (simp add: get_free_block_locked_def)
    qed
  qed
qed

theorem lookup_best_fit_witness:
  "fst (get_free_block_locked True 0 5000 state1) = Some 0 \<and> cb_size (blk state1 0) \<ge> 5000"
  using lookup_best_fit [OF sample_world_ok(1) state1_reach, of True 0 5000] state1_fields
  by (auto simp: pool_of_def split: prod.splits option.splits)

text \<open>
  Lowering the limit on cached memory trims the cache to it, unless every block left in the
  pools shares its driver segment with another block; live allocations are untouched.
\<close>

theorem set_max_trims:
  assumes "world_ok w" "alloc_reach w s"
  shows "let s' = set_max_cached_bytes n s in
    live s' = live s \<and> (a_bytes_cached s' \<le> n \<or> (\<forall>b\<in>set (a_small s' @ a_large s'). is_split (blk s' b)))"
proof -
  have i: "alloc_inv s" by (rule alloc_reach_inv [OF assms])
  let ?s = "s\<lparr>a_max_cached_bytes := n\<rparr>"
  have inv: "ainv (queued (a_events ?s)) {} (a_bytes_cached ?s) ?s" using i by (simp add: alloc_inv_def)
  have "n = SIZE_MAX \<Longrightarrow> a_bytes_cached (trim_cache_locked ?s) \<le> n"
    using counter_bounds(1) [OF inv] by (simp add: trim_cache_locked_def SIZE_MAX_def)
  then show ?thesis using trim_step(2) [OF inv] set_max_contract(2) [OF i] by (auto simp: Let_def set_max_cached_bytes_def)
qed

theorem set_max_trims_witness:
  "alloc_reach sample_world state1 \<and> live (set_max_cached_bytes 0 state1) = [2 ^ 32 * 3 \<mapsto> 1024]"
  using set_max_trims [OF sample_world_ok(1) state1_reach, of 0] state1_reach by (simp add: Let_def state1_live)

text \<open>
  when \<open>empty_cache\<close> returns normally no event is pending any more, the only cached blocks
  left share their driver segment with another block, the live allocations are unchanged, and no
  segment was obtained.
\<close>

theorem empty_cache_flushes:
  assumes "world_ok w" "alloc_reach w s" "empty_cache w s = (Inr u, s')"
  shows "a_events s' = [] \<and> (\<forall>b\<in>set (a_small s' @ a_large s'). is_split (blk s' b)) \<and> live s' = live s \<and>
    segs_of s' \<subseteq>\<^sub>m segs_of s"
proof -
  have i: "alloc_inv s" by (rule alloc_reach_inv [OF assms(1,2)])
  obtain v t where sy: "synchronize_and_free_events_locked w s = (Inr v, t)"
    and s': "s' = release_pool_blocks_locked False (release_pool_blocks_locked True t)"
    using assms(3) by (auto simp: empty_cache_def release_cached_blocks_locked_def bind_op_def modify_op_def split: prod.splits sum.splits)
  define s1 where "s1 = tick (upd_stats (\<lambda>t. t\<lparr>num_sync_all_streams := size_add (num_sync_all_streams t) 1\<rparr>) s)"
  obtain evs t1 where st: "sync_streams w (a_events s1) s1 = ((None, evs), t1)" and t: "t = t1\<lparr>a_events := evs\<rparr>"
    using sy by (auto simp: synchronize_and_free_events_locked_def bind_op_def modify_op_def guard_op_def end_scan_def s1_def
        split: prod.splits sum.splits option.splits)
  have e1: "a_events s1 = a_events s" "same_live s s1" "segs_of s1 = segs_of s" by (simp_all add: s1_def same_live_def)
  have "ainv (queued (a_events s1) + {#}) {} (a_bytes_cached s1) s1" using i by (simp add: s1_def alloc_inv_def inv_stats)
  note f = sync_streams_step [OF this st]
  have it: "ainv {#} {} (a_bytes_cached t) t" "a_events t = []" "same_live s1 t" "segs_of t \<subseteq>\<^sub>m segs_of s1"
    using f by (auto simp: t step_ok_def same_live_def)
  note a = release_pool_step [OF it(1), where small = True, OF refl]
  note b = release_pool_step [OF step_okD [OF a(1)], where small = False, OF refl]
  have "is_split (blk s' c)" if c: "c \<in> set (a_small s')" for c
  proof -
    obtain x where x: "a_heap s' c = Some x"
      using pool_okD(1) [OF invD(4) [OF step_okD [OF b(1)], of True]] c by (auto simp: s' pool_of_def)
    then have "c \<in> set (pool_of True (release_pool_blocks_locked True t))" using b(3) [of True] c by (auto simp: s' pool_of_def)
    from a(2) [OF this] show ?thesis using b(4) [of c x] x by (simp add: s')
  qed
  moreover have "is_split (blk s' c)" if "c \<in> set (a_large s')" for c using b(2) [of c] that by (simp add: s' pool_of_def)
  moreover have st': "step_ok {#} t {#} s'" using step_ok_trans [OF a(1) b(1)] by (simp add: s')
  moreover have "live s' = live s"
  proof (rule same_live_eq)
    show "same_live s s'" using e1(2) it(3) st' same_live_trans by (meson step_ok_def)
    show "allocs_ok (a_heap s) (a_allocated s)" using i invD(5) by (simp add: alloc_inv_def)
  qed
  ultimately show ?thesis using it(2,4) e1(3) by (auto simp: step_ok_def intro: map_le_trans)
qed

theorem empty_cache_flushes_witness:
  "fst (empty_cache sample_world state1) = Inr () \<and> live (snd (empty_cache sample_world state1)) = [2 ^ 32 * 3 \<mapsto> 1024]"
proof -
  have e: "empty_cache sample_world state1 = (Inr (), snd (empty_cache sample_world state1))"
    by (simp add: empty_cache_def release_cached_blocks_locked_def synchronize_and_free_events_locked_def bind_op_def
        modify_op_def guard_op_def upd_stats_def tick_def sample_world_def sample_api_def device_guard_enter_def
        throw_on_cuda_error_def cudaSuccess_def end_scan_def state1_fields)
  show ?thesis using empty_cache_flushes [OF sample_world_ok(1) state1_reach e] arg_cong [OF e, of fst] by (simp add: state1_live)
qed


text \<open>
  \<open>peak_bytes_cached\<close> is not an upper bound of \<open>bytes_cached\<close>: after the first allocation of a
  new allocator the remainder of the segment is cached and the peak is still zero.
\<close>

theorem peak_cached_lags:
  "\<exists>w s. world_ok w \<and> alloc_reach w s \<and> peak_bytes_cached (stats s) = 0 \<and> bytes_cached (stats s) = 2096128"
proof (intro exI conjI)
  show "world_ok sample_world" by (rule sample_world_ok(1))
  show "alloc_reach sample_world state1" by (rule state1_reach)
  show "peak_bytes_cached (stats state1) = 0" by (simp add: stats_def state1_def stats_reset_def)
  show "bytes_cached (stats state1) = 2096128" by (simp add: stats_def state1_fields)
qed

section \<open>Teardown\<close>

lemma segment_head_base:
  assumes "heap_ok segs h" "h b = Some x"
  shows "\<exists>c y. segment_head h b = Some c \<and> h c = Some y \<and> cb_ptr y = cb_segment_base x"
  using assms(2)
proof (induction "cb_ptr x" arbitrary: b x rule: less_induct)
  case less
  show ?case
  proof (cases "cb_prev x")
    case None
    then have "cb_ptr x = cb_segment_base x" using heap_okD(3) [OF assms(1) less.prems] by (auto simp: inside_ok_def)
    then show ?thesis using None less.prems by (subst segment_head.simps) simp
  next
    case (Some a)
    obtain y where y: "h a = Some y" "cb_ptr x = cb_ptr y + cb_size y" "cb_segment_base y = cb_segment_base x"
      using heap_prev [OF assms(1) less.prems Some] by blast
    have "0 < cb_size y" using heap_okD(3) [OF assms(1) y(1)] by (simp add: inside_ok_def)
    then show ?thesis using less.hyps [OF _ y(1)] y Some less.prems by (subst segment_head.simps) simp
  qed
qed

lemma set_insort_fold: "set (fold (\<lambda>b. insort_insert (f b)) bs xs) = f ` set bs \<union> set xs"
  by (induction bs arbitrary: xs) (auto simp: set_insort_insert)

lemma sorted_insort_fold:
  fixes f :: "'a \<Rightarrow> 'b :: linorder"
  shows "sorted xs \<Longrightarrow> distinct xs \<Longrightarrow>
    sorted (fold (\<lambda>b. insort_insert (f b)) bs xs) \<and> distinct (fold (\<lambda>b. insort_insert (f b)) bs xs)"
  by (induction bs arbitrary: xs) (auto simp: sorted_insort_insert distinct_insort_insert)

lemma release_ptrs:
  assumes "distinct ps" "set ps \<subseteq> dom (map_of segs)"
  shows "snd (fold release_ptr ps (segs, calls)) = calls @ concat (map (\<lambda>p. free_segment (the (map_of segs p))) ps)"
  using assms
proof (induction ps arbitrary: segs calls)
  case (Cons p ps)
  then obtain raw where raw: "map_of segs p = Some raw" by auto
  let ?segs = "AList.delete p segs"
  have d: "map_of ?segs = (map_of segs)(p := None)" by (simp add: delete_conv')
  have m: "concat (map (\<lambda>q. free_segment (the (map_of ?segs q))) ps) = concat (map (\<lambda>q. free_segment (the (map_of segs q))) ps)"
    using Cons.prems(1) by (auto simp: d intro!: arg_cong [where f = concat])
  have "distinct ps" "set ps \<subseteq> dom (map_of ?segs)" using Cons.prems by (auto simp: d)
  from Cons.IH [OF this, of "calls @ free_segment raw"] show ?case
    using raw by (simp add: release_ptr_def [of p] m)
qed simp

text \<open>A block that no container of the allocator knows.\<close>

definition orphan :: "alloc_state \<Rightarrow> bid \<Rightarrow> bool" where
  "orphan s b \<longleftrightarrow> (\<exists>x. a_heap s b = Some x \<and> \<not> cb_allocated x \<and> cb_event_count x = 0 \<and> cb_stream_uses x \<noteq> [])"

lemma all_blocks_listed:
  assumes "ainv (queued (a_events s)) {} k s" "\<And>b. \<not> orphan s b"
  shows "set (a_small s @ a_large s @ map snd (a_allocated s) @ map snd (concat (map snd (a_events s)))) = dom (a_heap s)"
proof (intro equalityI subsetI)
  fix b assume b: "b \<in> set (a_small s @ a_large s @ map snd (a_allocated s) @ map snd (concat (map snd (a_events s))))"
  then consider "b \<in> set (a_small s @ a_large s)" | p where "(p, b) \<in> set (a_allocated s)"
    | "b \<in># queued (a_events s)" by (auto simp: queued_def)
  then show "b \<in> dom (a_heap s)"
  proof cases
    case 1
    then show ?thesis using pool_okD(1) [OF invD(4) [OF assms(1), of True]] pool_okD(1) [OF invD(4) [OF assms(1), of False]]
      by (auto simp: pool_of_def)
  next
    case (2 p)
    then have "map_of (a_allocated s) p = Some b" using invD(5) [OF assms(1)] by (auto simp: allocs_ok_def)
    then show ?thesis using invD(5) [OF assms(1)] unfolding allocs_ok_def by blast
  next
    case 3
    then show ?thesis using invD(6) [OF assms(1)] by (auto simp: events_ok_def)
  qed
next
  fix b assume "b \<in> dom (a_heap s)"
  then obtain x where x: "a_heap s b = Some x" by blast
  consider "cb_allocated x" | "is_free x" | "cb_event_count x \<noteq> 0" using assms(2) [of b] x by (auto simp: orphan_def is_free_def)
  then show "b \<in> set (a_small s @ a_large s @ map snd (a_allocated s) @ map snd (concat (map snd (a_events s))))"
  proof cases
    case 1
    then have "map_of (a_allocated s) (cb_ptr x) = Some b" using invD(5) [OF assms(1)] x unfolding allocs_ok_def by blast
    then have "(cb_ptr x, b) \<in> set (a_allocated s)" by (rule map_of_SomeD)
    then have "b \<in> snd ` set (a_allocated s)" by force
    then show ?thesis by simp
  next
    case 2
    then have "b \<in> set (pool_of (cb_small x) s)" using pool_okD(1) [OF invD(4) [OF assms(1)]] x by blast
    then show ?thesis by (auto simp: pool_of_def split: if_splits)
  next
    case 3
    then have "count (queued (a_events s)) b \<noteq> 0" using invD(6) [OF assms(1)] x by (auto simp: events_ok_def)
    then have "b \<in># queued (a_events s)" by (simp add: count_eq_zero_iff)
    then show ?thesis by (auto simp: queued_def)
  qed
qed




end
