(* ===== verification/Dwarf_Lexer.thy ===== *)
theory Dwarf_Lexer
  imports Prelude "HOL-Library.Word"
begin

unbundle bit_operations_syntax

text \<open>
  \<open>lexer.h\<close> of the DWARF unwinder: the reader of little-endian integers, LEB128 numbers, strings
  and encoded pointers, in its unchecked (\<open>Lexer\<close>) and bounds-checked (\<open>CheckedLexer\<close>) versions,
  with the round trip of the LEB128 readers and the memory safety of the checked version.
  Memory is a partial map from addresses to bytes; touching an unmapped byte is the error \<open>Fault\<close>,
  and what the C++ standard leaves undefined is the error \<open>Undefined_behaviour\<close>.
\<close>

section \<open>Memory\<close>

type_synonym byte = "8 word"
type_synonym memory = "nat \<rightharpoonup> byte"

datatype unwind_exn =
  Unwind_error string
| Out_of_range \<comment> \<open>\<open>std::out_of_range\<close> of \<open>at\<close>\<close>
| Fault
| Undefined_behaviour

definition mem_byte :: "memory \<Rightarrow> nat \<Rightarrow> byte option" where
  "mem_byte mem a = (if a < 2 ^ 64 then mem a else None)"

fun bytes_at :: "memory \<Rightarrow> nat \<Rightarrow> nat \<Rightarrow> byte list option" where
  "bytes_at mem a 0 = Some []"
| "bytes_at mem a (Suc n) =
     (case mem_byte mem a of None \<Rightarrow> None | Some b \<Rightarrow> map_option ((#) b) (bytes_at mem (Suc a) n))"

fun le_nat :: "byte list \<Rightarrow> nat" where
  "le_nat [] = 0"
| "le_nat (b # bs) = unat b + 256 * le_nat bs"

section \<open>The lexer\<close>

record lexer =
  lx_next :: nat
  lx_base :: "64 word"
  lx_end :: nat
  lx_checked :: bool \<comment> \<open>the template parameter\<close>

type_synonym 'a rd = "lexer \<Rightarrow> unwind_exn + 'a \<times> lexer"

definition Lexer :: "nat \<Rightarrow> 64 word \<Rightarrow> lexer" where
  "Lexer data base = \<lparr>lx_next = data, lx_base = base, lx_end = 0, lx_checked = False\<rparr>"

definition CheckedLexer :: "nat \<Rightarrow> 64 word \<Rightarrow> nat \<Rightarrow> lexer" where
  "CheckedLexer data base end_ptr = \<lparr>lx_next = data, lx_base = base, lx_end = end_ptr, lx_checked = True\<rparr>"

definition return_rd :: "'a \<Rightarrow> 'a rd" where
  "return_rd x L = Inr (x, L)"

definition throw_rd :: "unwind_exn \<Rightarrow> 'a rd" where
  "throw_rd e L = Inl e"

definition bind_rd :: "'a rd \<Rightarrow> ('a \<Rightarrow> 'b rd) \<Rightarrow> 'b rd" where
  "bind_rd m f L = (case m L of Inl e \<Rightarrow> Inl e | Inr (x, L') \<Rightarrow> f x L')"

definition map_rd :: "('a \<Rightarrow> 'b) \<Rightarrow> 'a rd \<Rightarrow> 'b rd" where
  "map_rd f m = bind_rd m (\<lambda>x. return_rd (f x))"

text \<open>\<open>read<T>()\<close> for an integer type of the width of the result.\<close>

definition read_val :: "memory \<Rightarrow> 'a::len word rd" where
  "read_val mem L =
     (let n = LENGTH('a) div 8; e = lx_next L + n
      in if lx_checked L \<and> lx_end L < e then Inl (Unwind_error ''read out of bounds'')
         else case bytes_at mem (lx_next L) n of
                None \<Rightarrow> Inl Fault
              | Some bs \<Rightarrow> Inr (word_of_nat (le_nat bs), L\<lparr>lx_next := e\<rparr>))"

definition read_u8 :: "memory \<Rightarrow> byte rd" where
  "read_u8 = read_val"

text \<open>The readers of unsigned and signed integers, widened to 64 bits.\<close>

definition read_u16 :: "memory \<Rightarrow> 64 word rd" where
  "read_u16 mem = map_rd (\<lambda>v :: 16 word. ucast v) (read_val mem)"

definition read_u32 :: "memory \<Rightarrow> 64 word rd" where
  "read_u32 mem = map_rd (\<lambda>v :: 32 word. ucast v) (read_val mem)"

definition read_u64 :: "memory \<Rightarrow> 64 word rd" where
  "read_u64 mem = read_val mem"

definition read_s16 :: "memory \<Rightarrow> 64 word rd" where
  "read_s16 mem = map_rd (\<lambda>v :: 16 word. scast v) (read_val mem)"

definition read_s32 :: "memory \<Rightarrow> 64 word rd" where
  "read_s32 mem = map_rd (\<lambda>v :: 32 word. scast v) (read_val mem)"

text \<open>The loops of \<open>readSLEB128\<close> and \<open>readULEB128\<close>; shifting by 64 or more is undefined.\<close>

function sleb_loop :: "memory \<Rightarrow> 64 word \<Rightarrow> nat \<Rightarrow> (64 word \<times> nat \<times> byte) rd" where
  "sleb_loop mem value shift L =
     (case read_u8 mem L of
        Inl e \<Rightarrow> Inl e
      | Inr (byte, L') \<Rightarrow>
          let slice = ucast (byte AND 0x7F) :: 64 word
          in if shift \<ge> 64 \<and> slice \<noteq> (if value <s 0 then 0x7F else 0) \<or> shift = 63 \<and> slice \<noteq> 0 \<and> slice \<noteq> 0x7F
             then Inl (Unwind_error ''sleb128 too big for int64'')
             else if shift \<ge> 64 then Inl Undefined_behaviour
             else let value' = value OR push_bit shift slice
                  in if byte \<ge> 128 then sleb_loop mem value' (shift + 7) L' else Inr ((value', shift + 7, byte), L'))"
  by auto
termination by (relation "measure (\<lambda>(mem, value, shift, L). 70 - shift)") auto

definition readSLEB128 :: "memory \<Rightarrow> 64 word rd" where
  "readSLEB128 mem =
     map_rd (\<lambda>(value, shift, byte). if shift < 64 \<and> byte AND 0x40 \<noteq> 0 then value OR push_bit shift (- 1) else value)
       (sleb_loop mem 0 0)"

function uleb_loop :: "memory \<Rightarrow> 64 word \<Rightarrow> nat \<Rightarrow> 64 word rd" where
  "uleb_loop mem value shift L =
     (case read_u8 mem L of
        Inl e \<Rightarrow> Inl e
      | Inr (p, L') \<Rightarrow>
          let slice = ucast (p AND 0x7F) :: 64 word
          in if shift \<ge> 64 \<and> slice \<noteq> 0 then Inl (Unwind_error ''uleb128 too big for uint64'')
             else if shift \<ge> 64 then Inl Undefined_behaviour
             else if drop_bit shift (push_bit shift slice) \<noteq> slice then Inl (Unwind_error ''uleb128 too big for uint64'')
             else let value' = value + push_bit shift slice
                  in if p \<ge> 128 then uleb_loop mem value' (shift + 7) L' else Inr (value', L'))"
  by auto
termination by (relation "measure (\<lambda>(mem, value, shift, L). 70 - shift)") auto

declare sleb_loop.simps [simp del] uleb_loop.simps [simp del]

definition readULEB128 :: "memory \<Rightarrow> 64 word rd" where
  "readULEB128 mem = uleb_loop mem 0 0"

text \<open>\<open>readCString\<close>: the bytes up to the terminating zero.\<close>

function cstring_loop :: "memory \<Rightarrow> byte list rd" where
  "cstring_loop mem L =
     (if lx_checked L \<and> lx_end L \<le> lx_next L then Inl (Unwind_error ''string is out of bounds'')
      else case mem_byte mem (lx_next L) of
             None \<Rightarrow> Inl Fault
           | Some b \<Rightarrow>
               let L' = L\<lparr>lx_next := Suc (lx_next L)\<rparr>
               in if b = 0 then Inr ([], L')
                  else case cstring_loop mem L' of Inl e \<Rightarrow> Inl e | Inr (s, L'') \<Rightarrow> Inr (b # s, L''))"
  by auto
termination by (relation "measure (\<lambda>(mem, L). 2 ^ 64 - lx_next L)") (auto simp: mem_byte_def split: if_splits)

declare cstring_loop.simps [simp del]

definition readCString :: "memory \<Rightarrow> byte list rd" where
  "readCString = cstring_loop"

section \<open>Encoded pointers\<close>

definition DW_EH_PE_absptr :: byte where "DW_EH_PE_absptr = 0x00"
definition DW_EH_PE_omit :: byte where "DW_EH_PE_omit = 0xFF"
definition DW_EH_PE_uleb128 :: byte where "DW_EH_PE_uleb128 = 0x01"
definition DW_EH_PE_udata2 :: byte where "DW_EH_PE_udata2 = 0x02"
definition DW_EH_PE_udata4 :: byte where "DW_EH_PE_udata4 = 0x03"
definition DW_EH_PE_udata8 :: byte where "DW_EH_PE_udata8 = 0x04"
definition DW_EH_PE_sleb128 :: byte where "DW_EH_PE_sleb128 = 0x09"
definition DW_EH_PE_sdata2 :: byte where "DW_EH_PE_sdata2 = 0x0A"
definition DW_EH_PE_sdata4 :: byte where "DW_EH_PE_sdata4 = 0x0B"
definition DW_EH_PE_sdata8 :: byte where "DW_EH_PE_sdata8 = 0x0C"
definition DW_EH_PE_pcrel :: byte where "DW_EH_PE_pcrel = 0x10"
definition DW_EH_PE_datarel :: byte where "DW_EH_PE_datarel = 0x30"
definition DW_EH_PE_indirect :: byte where "DW_EH_PE_indirect = 0x80"

lemmas eh_pe_defs = DW_EH_PE_absptr_def DW_EH_PE_omit_def DW_EH_PE_uleb128_def DW_EH_PE_udata2_def
  DW_EH_PE_udata4_def DW_EH_PE_udata8_def DW_EH_PE_sleb128_def DW_EH_PE_sdata2_def DW_EH_PE_sdata4_def
  DW_EH_PE_sdata8_def DW_EH_PE_pcrel_def DW_EH_PE_datarel_def DW_EH_PE_indirect_def

definition readEncodedValue :: "memory \<Rightarrow> byte \<Rightarrow> 64 word rd" where
  "readEncodedValue mem enc =
     (let e = enc AND 0xF
      in if e = DW_EH_PE_udata2 then read_u16 mem
         else if e = DW_EH_PE_sdata2 then read_s16 mem
         else if e = DW_EH_PE_udata4 then read_u32 mem
         else if e = DW_EH_PE_sdata4 then read_s32 mem
         else if e = DW_EH_PE_udata8 then read_u64 mem
         else if e = DW_EH_PE_sdata8 then read_u64 mem
         else if e = DW_EH_PE_uleb128 then readULEB128 mem
         else if e = DW_EH_PE_sleb128 then readSLEB128 mem
         else throw_rd (Unwind_error ''not implemented''))"

definition readEncoded :: "memory \<Rightarrow> byte \<Rightarrow> 64 word rd" where
  "readEncoded mem enc L =
     (let k = enc AND (NOT DW_EH_PE_indirect AND 0xF0)
      in if k = DW_EH_PE_absptr then readEncodedValue mem enc L
         else if k = DW_EH_PE_pcrel then map_rd (\<lambda>v. word_of_nat (lx_next L) + v) (readEncodedValue mem enc) L
         else if k = DW_EH_PE_datarel then map_rd (\<lambda>v. lx_base L + v) (readEncodedValue mem enc) L
         else Inl (Unwind_error ''unknown encoding''))"

definition readEncodedOr :: "memory \<Rightarrow> byte \<Rightarrow> 64 word \<Rightarrow> 64 word rd" where
  "readEncodedOr mem enc orelse = (if enc = DW_EH_PE_omit then return_rd orelse else readEncoded mem enc)"

definition readSectionLength :: "memory \<Rightarrow> (64 word \<times> bool) rd" where
  "readSectionLength mem =
     bind_rd (read_u32 mem) (\<lambda>len.
       if len = 0xFFFFFFFF then map_rd (\<lambda>v. (v, True)) (read_u64 mem) else return_rd (len, False))"

definition read4or8Length :: "memory \<Rightarrow> 64 word rd" where
  "read4or8Length mem = map_rd fst (readSectionLength mem)"

text \<open>The pointer arithmetic of \<open>skip\<close> goes round the address space and is not bounds-checked.\<close>

definition skip :: "64 word \<Rightarrow> lexer \<Rightarrow> lexer" where
  "skip bytes L = L\<lparr>lx_next := (lx_next L + unat bytes) mod 2 ^ 64\<rparr>"

section \<open>LEB128 round trip\<close>

text \<open>The encodings of the DWARF standard, as a reference for the two readers.\<close>

fun uleb_bytes :: "nat \<Rightarrow> byte list" where
  "uleb_bytes v =
     (if v < 128 then [word_of_nat v] else word_of_nat (v mod 128 + 128) # uleb_bytes (v div 128))"

function sleb_bytes :: "int \<Rightarrow> byte list" where
  "sleb_bytes v =
     (if - 64 \<le> v \<and> v < 64 then [word_of_int (v mod 128)]
      else word_of_int (v mod 128 + 128) # sleb_bytes (v div 128))"
  by auto
termination by (relation "measure (\<lambda>v. nat (abs v))") auto

declare uleb_bytes.simps [simp del] sleb_bytes.simps [simp del]

definition room :: "lexer \<Rightarrow> nat \<Rightarrow> bool" where
  "room L n \<longleftrightarrow> (lx_checked L \<longrightarrow> lx_next L + n \<le> lx_end L)"

abbreviation advance :: "nat \<Rightarrow> lexer \<Rightarrow> lexer" where
  "advance n L \<equiv> L\<lparr>lx_next := lx_next L + n\<rparr>"

lemma read_u8_cons:
  assumes "bytes_at mem (lx_next L) (Suc n) = Some (b # bs)" "room L (Suc n)"
  shows "read_u8 mem L = Inr (b, advance 1 L)" "bytes_at mem (lx_next (advance 1 L)) n = Some bs" "room (advance 1 L) n"
  using assms by (auto simp: read_u8_def read_val_def room_def split: option.splits)

lemma slice_nat: "ucast (b AND 0x7F :: byte) = (word_of_nat (unat b mod 128) :: 64 word)"
proof (rule word_unat_eq_iff [THEN iffD2])
  have "unat b mod 128 < 128" by simp
  moreover have "unat (b AND 0x7F) = unat b mod 128"
    using take_bit_eq_mask [of 7 "unat b"] by (simp add: unsigned_and_eq take_bit_eq_mod mask_eq_exp_minus_1)
  ultimately show "unat (ucast (b AND 0x7F) :: 64 word) = unat (word_of_nat (unat b mod 128) :: 64 word)"
    by (simp add: unsigned_ucast_eq take_bit_eq_mod unat_of_nat)
qed

lemma push_bit_small:
  fixes n :: nat
  assumes "n * 2 ^ k < 2 ^ 64"
  shows "drop_bit k (push_bit k (word_of_nat n :: 64 word)) = word_of_nat n"
proof -
  have n: "n < 2 ^ 64" using assms by (metis le_less_trans le_numeral_extra(4) mult.right_neutral mult_le_mono2 one_le_numeral one_le_power)
  have "unat (push_bit k (word_of_nat n :: 64 word)) = n * 2 ^ k"
  proof -
    have "push_bit k (word_of_nat n :: 64 word) = word_of_nat (n * 2 ^ k)" by (simp add: push_bit_eq_mult)
    then show ?thesis using assms by (simp only: unat_of_nat) simp
  qed
  then have "unat (drop_bit k (push_bit k (word_of_nat n :: 64 word))) = n"
    unfolding unsigned_drop_bit_eq using assms by (simp add: drop_bit_eq_div take_bit_eq_mod)
  then show ?thesis using n by (simp add: word_unat_eq_iff unat_of_nat)
qed

lemma uleb_loop_bytes:
  assumes "bytes_at mem (lx_next L) (length (uleb_bytes v)) = Some (uleb_bytes v)" "room L (length (uleb_bytes v))"
    "v * 2 ^ shift < 2 ^ 64" "shift < 64"
  shows "uleb_loop mem acc shift L = Inr (acc + word_of_nat (v * 2 ^ shift), advance (length (uleb_bytes v)) L)"
  using assms
proof (induction v arbitrary: acc shift L rule: uleb_bytes.induct)
  case (1 v)
  have push: "push_bit shift (word_of_nat n) = (word_of_nat (n * 2 ^ shift) :: 64 word)" for n
    by (simp add: push_bit_eq_mult)
  show ?case
  proof (cases "v < 128")
    case True
    then have e: "uleb_bytes v = [word_of_nat v]" by (simp add: uleb_bytes.simps)
    have u: "unat (word_of_nat v :: byte) = v" using True by (simp add: unat_of_nat)
    note r = read_u8_cons(1) [of mem L 0 "word_of_nat v" "[]"]
    have "\<not> (128 :: byte) \<le> word_of_nat v" using True u by (simp add: word_le_nat_alt)
    then show ?thesis
      using 1(2-5) True u r push_bit_small [of v shift]
      by (subst uleb_loop.simps) (simp add: e slice_nat push)
  next
    case False
    let ?w = "v div 128"
    define b :: byte where "b = word_of_nat (v mod 128 + 128)"
    have e: "uleb_bytes v = b # uleb_bytes ?w" using False by (simp add: b_def uleb_bytes.simps)
    have u: "unat b = v mod 128 + 128" unfolding b_def unat_of_nat by simp
    have r: "read_u8 mem L = Inr (b, advance 1 L)"
      "bytes_at mem (lx_next (advance 1 L)) (length (uleb_bytes ?w)) = Some (uleb_bytes ?w)"
      "room (advance 1 L) (length (uleb_bytes ?w))"
      using read_u8_cons [of mem L "length (uleb_bytes ?w)" b "uleb_bytes ?w"] 1(2,3) by (simp_all add: e)
    have v: "v = 128 * ?w + v mod 128" "1 \<le> ?w" using False by simp_all
    have w: "?w * 2 ^ (shift + 7) \<le> v * 2 ^ shift" by (simp add: power_add)
    then have "?w * 2 ^ (shift + 7) < 2 ^ 64" using 1(4) by linarith
    moreover from this have "(2::nat) ^ (shift + 7) < 2 ^ 64" using v(2) by (metis le_less_trans mult_1 mult_le_mono1)
    then have "shift + 7 < 64" by (rule power_less_imp_less_exp [rotated]) simp
    moreover have ge: "(128 :: byte) \<le> b" using u by (simp add: word_le_nat_alt)
    moreover have "(v mod 128) * 2 ^ shift < 2 ^ 64" using 1(4) by (metis le_less_trans mod_less_eq_dividend mult_le_mono1)
    note small = push_bit_small [OF this]
    ultimately have "uleb_loop mem acc shift L =
        Inr (acc + word_of_nat ((v mod 128) * 2 ^ shift) + word_of_nat (?w * 2 ^ (shift + 7)), advance (length (uleb_bytes ?w)) (advance 1 L))"
      using r 1(5) 1(1) [OF False r(2,3)] by (subst uleb_loop.simps) (simp add: slice_nat u small push)
    moreover have "(v mod 128) * 2 ^ shift + ?w * 2 ^ (shift + 7) = (v mod 128 + 128 * ?w) * 2 ^ shift"
      by (simp only: power_add distrib_right) simp
    then have "(v mod 128) * 2 ^ shift + ?w * 2 ^ (shift + 7) = v * 2 ^ shift" by simp
    then have "word_of_nat ((v mod 128) * 2 ^ shift) + word_of_nat (?w * 2 ^ (shift + 7)) = (word_of_nat (v * 2 ^ shift) :: 64 word)"
      by (metis of_nat_add)
    ultimately show ?thesis by (simp add: e add.assoc)
  qed
qed

lemma or_push_bit:
  assumes "take_bit k acc = (acc :: 64 word)"
  shows "acc OR push_bit k w = acc + push_bit k w"
proof (rule disjunctive_add [symmetric])
  fix n show "\<not> bit acc n \<or> \<not> bit (push_bit k w) n"
    by (subst assms [symmetric]) (auto simp: bit_take_bit_iff bit_push_bit_iff)
qed

lemma take_bit_or_push:
  assumes "take_bit k acc = (acc :: 64 word)" "take_bit m w = w"
  shows "take_bit (k + m) (acc OR push_bit k w) = acc OR push_bit k w"
proof (rule bit_eqI)
  fix n
  have "bit acc n \<Longrightarrow> n < k" using assms(1) by (metis bit_take_bit_iff)
  moreover have "bit w (n - k) \<Longrightarrow> n - k < m" using assms(2) by (metis bit_take_bit_iff)
  ultimately show "bit (take_bit (k + m) (acc OR push_bit k w)) n \<longleftrightarrow> bit (acc OR push_bit k w) n"
    by (auto simp: bit_take_bit_iff bit_or_iff bit_push_bit_iff)
qed

lemma slice_take_bit: "take_bit 7 (ucast (b AND 0x7F :: byte) :: 64 word) = ucast (b AND 0x7F)"
proof (rule bit_eqI)
  fix n
  show "bit (take_bit 7 (ucast (b AND 0x7F) :: 64 word)) n \<longleftrightarrow> bit (ucast (b AND 0x7F) :: 64 word) n"
    by (cases "n = 7") (auto simp: bit_take_bit_iff bit_unsigned_iff bit_and_iff)
qed

lemma slice_int:
  assumes "unat (b :: byte) mod 128 = nat (v mod 128)"
  shows "ucast (b AND 0x7F) = (word_of_int (v mod 128) :: 64 word)"
  unfolding slice_nat assms by simp

definition sleb_finish :: "64 word \<times> nat \<times> byte \<Rightarrow> 64 word" where
  "sleb_finish = (\<lambda>(value, shift, byte). if shift < 64 \<and> byte AND 0x40 \<noteq> 0 then value OR push_bit shift (- 1) else value)"

lemma bit6_iff:
  assumes "unat (b :: byte) < 128"
  shows "b AND 0x40 \<noteq> 0 \<longleftrightarrow> 64 \<le> unat b"
proof -
  have "b AND 0x40 \<noteq> 0 \<longleftrightarrow> bit b 6"
    using and_exp_eq_0_iff_not_bit [of b 6] by simp
  also have "\<dots> \<longleftrightarrow> bit (unat b) 6" by (simp add: bit_unsigned_iff)
  also have "\<dots> \<longleftrightarrow> odd (unat b div 64)" by (simp add: bit_iff_odd)
  also have "\<dots> \<longleftrightarrow> 64 \<le> unat b"
  proof (cases "unat b < 64")
    case False
    then have "unat b div 64 = 1" using assms by (intro div_nat_eqI) simp_all
    then show ?thesis using False by simp
  qed simp
  finally show ?thesis .
qed

lemma sleb_loop_last:
  assumes b: "unat b = nat (v mod 128)" and v: "- 64 \<le> v" "v < 64"
    and acc: "take_bit shift acc = acc" and sh: "shift mod 7 = 0" "shift < 64"
    and range: "- (2 ^ 63) \<le> v * 2 ^ shift" "v * 2 ^ shift < 2 ^ 63" and r: "read_u8 mem L = Inr (b, L')"
  shows "map_rd sleb_finish (sleb_loop mem acc shift) L = Inr (acc + word_of_int (v * 2 ^ shift), L')"
proof -
  have "nat (v mod 128) < 128" by (simp add: nat_less_iff)
  then have m: "unat b mod 128 = nat (v mod 128)" "unat b < 128" using b by simp_all
  have slice: "ucast (b AND 0x7F) = (word_of_int (v mod 128) :: 64 word)" by (rule slice_int [OF m(1)])
  have lt: "\<not> 128 \<le> b" using m(2) by (simp add: word_le_nat_alt)
  let ?s = "word_of_int (v mod 128) :: 64 word"
  have add: "acc OR push_bit shift ?s = acc + word_of_int ((v mod 128) * 2 ^ shift)"
    using or_push_bit [OF acc] by (simp add: push_bit_eq_mult)
  have tb: "take_bit (shift + 7) (acc OR push_bit shift ?s) = acc OR push_bit shift ?s"
    using take_bit_or_push [OF acc slice_take_bit [of b, unfolded slice]] .
  show ?thesis
  proof (cases "shift = 63")
    case True
    have "v = 0 \<or> v = - 1" using range True by simp presburger
    then have vm: "v mod 128 = 0 \<and> v = 0 \<or> v mod 128 = 127 \<and> v = - 1" by auto
    then have "?s = 0 \<or> ?s = 0x7F" by auto
    then have "sleb_loop mem acc shift L = Inr ((acc OR push_bit shift ?s, shift + 7, b), L')"
      using True lt r by (subst sleb_loop.simps) (auto simp: slice Let_def)
    moreover have "word_of_int ((v mod 128) * 2 ^ 63) = (word_of_int (v * 2 ^ 63) :: 64 word)" using vm by auto
    ultimately show ?thesis using True add by (simp add: map_rd_def bind_rd_def return_rd_def sleb_finish_def)
  next
    case False
    have s7: "shift + 7 < 64" using False sh by presburger
    then have run: "sleb_loop mem acc shift L = Inr ((acc OR push_bit shift ?s, shift + 7, b), L')"
      using False lt r sh(2) by (subst sleb_loop.simps) (simp add: slice Let_def)
    show ?thesis
    proof (cases "0 \<le> v")
      case True
      then have "v mod 128 = v" "unat b < 64" using v b by auto
      then show ?thesis using run add bit6_iff [OF m(2)] by (simp add: map_rd_def bind_rd_def return_rd_def sleb_finish_def)
    next
      case neg: False
      then have vm: "v mod 128 = v + 128" using v by (simp add: mod_pos_neg_trivial) presburger
      then have "64 \<le> unat b" using b v by linarith
      moreover have "(acc OR push_bit shift ?s) OR push_bit (shift + 7) (- 1) = acc + word_of_int (v * 2 ^ shift)"
      proof -
        have "(acc OR push_bit shift ?s) OR push_bit (shift + 7) (- 1) =
            acc + word_of_int ((v mod 128) * 2 ^ shift) + push_bit (shift + 7) (- 1)"
          using or_push_bit [OF tb, of "- 1"] by (simp only: add)
        then show ?thesis by (simp add: vm push_bit_eq_mult power_add algebra_simps)
      qed
      ultimately show ?thesis using run s7 bit6_iff [OF m(2)]
        by (simp add: map_rd_def bind_rd_def return_rd_def sleb_finish_def)
    qed
  qed
qed

lemma sleb_loop_bytes:
  assumes "bytes_at mem (lx_next L) (length (sleb_bytes v)) = Some (sleb_bytes v)" "room L (length (sleb_bytes v))"
    "take_bit shift acc = acc" "shift mod 7 = 0" "shift < 64" "- (2 ^ 63) \<le> v * 2 ^ shift" "v * 2 ^ shift < 2 ^ 63"
  shows "map_rd sleb_finish (sleb_loop mem acc shift) L =
    Inr (acc + word_of_int (v * 2 ^ shift), advance (length (sleb_bytes v)) L)"
  using assms
proof (induction v arbitrary: acc shift L rule: sleb_bytes.induct)
  case (1 v)
  show ?case
  proof (cases "- 64 \<le> v \<and> v < 64")
    case True
    define b :: byte where "b = word_of_int (v mod 128)"
    have e: "sleb_bytes v = [b]" using True by (simp add: sleb_bytes.simps b_def)
    have "unat b = nat (v mod 128)" by (simp add: b_def unat_eq_nat_uint uint_word_of_int)
    moreover have "read_u8 mem L = Inr (b, advance 1 L)" using read_u8_cons(1) [of mem L 0 b "[]"] 1(2,3) by (simp add: e)
    ultimately show ?thesis using sleb_loop_last [of b v shift acc mem L] True 1(4-8) by (simp add: e)
  next
    case False
    let ?w = "v div 128"
    define b :: byte where "b = word_of_int (v mod 128 + 128)"
    have e: "sleb_bytes v = b # sleb_bytes ?w" using False by (simp add: b_def sleb_bytes.simps)
    have u: "unat b = nat (v mod 128) + 128"
    proof -
      have "uint b = (v mod 128 + 128) mod 256" unfolding b_def uint_word_of_int by simp
      also have "\<dots> = v mod 128 + 128" by (rule mod_pos_pos_trivial) simp_all
      finally show ?thesis by (simp add: unat_eq_nat_uint nat_add_distrib)
    qed
    have r: "read_u8 mem L = Inr (b, advance 1 L)"
      "bytes_at mem (lx_next (advance 1 L)) (length (sleb_bytes ?w)) = Some (sleb_bytes ?w)"
      "room (advance 1 L) (length (sleb_bytes ?w))"
      using read_u8_cons [of mem L "length (sleb_bytes ?w)" b "sleb_bytes ?w"] 1(2,3) by (simp_all add: e)
    have slice: "ucast (b AND 0x7F) = (word_of_int (v mod 128) :: 64 word)"
      by (rule slice_int) (simp add: u nat_less_iff)
    have ge: "128 \<le> b" by (simp add: word_le_nat_alt u)
    have s57: "shift < 57"
    proof (rule ccontr)
      assume "\<not> shift < 57"
      then have s: "(2::int) ^ 57 \<le> 2 ^ shift" by (intro power_increasing) simp_all
      then have "64 * 2 ^ 57 \<le> (64 :: int) * 2 ^ shift" "64 * 2 ^ 57 \<le> (65 :: int) * 2 ^ shift - 1" by simp_all
      moreover have "v \<ge> 64 \<Longrightarrow> 64 * 2 ^ shift \<le> v * 2 ^ shift" "v \<le> - 65 \<Longrightarrow> v * 2 ^ shift \<le> (- 65) * 2 ^ shift"
        using mult_right_mono [of 64 v "2 ^ shift"] mult_right_mono [of v "- 65" "2 ^ shift"] by simp_all
      ultimately show False using False 1(7,8) by fastforce
    qed
    let ?acc = "acc OR push_bit shift (word_of_int (v mod 128))"
    have tb: "take_bit (shift + 7) ?acc = ?acc" using take_bit_or_push [OF 1(4) slice_take_bit [of b, unfolded slice]] .
    have vw: "v * 2 ^ shift = (v mod 128) * 2 ^ shift + ?w * 2 ^ (shift + 7)"
    proof -
      have "v * 2 ^ shift = (v mod 128 + 128 * ?w) * 2 ^ shift" by simp
      also have "\<dots> = (v mod 128) * 2 ^ shift + ?w * 2 ^ (shift + 7)" by (simp only: power_add distrib_right) simp
      finally show ?thesis .
    qed
    define k m :: int where "k = 2 ^ (56 - shift)" and "m = 2 ^ (shift + 7)"
    have km: "2 ^ 63 = k * m" "0 < m" using s57 by (simp_all add: k_def m_def flip: power_add)
    have a: "0 \<le> (v mod 128) * 2 ^ shift" "(v mod 128) * 2 ^ shift < m" by (simp_all add: power_add m_def)
    have "(- k - 1) * m < ?w * m" using a(2) 1(7) unfolding vw km(1) m_def [symmetric] by (simp add: algebra_simps)
    then have "- k \<le> ?w" using km(2) by (simp add: mult_less_cancel_right)
    then have "- k * m \<le> ?w * m" using km(2) by (intro mult_right_mono) simp_all
    then have rng: "- (2 ^ 63) \<le> ?w * 2 ^ (shift + 7)" "?w * 2 ^ (shift + 7) < 2 ^ 63"
      using a(1) 1(8) unfolding vw km(1) m_def [symmetric] by linarith+
    have "map_rd sleb_finish (sleb_loop mem acc shift) L = map_rd sleb_finish (sleb_loop mem ?acc (shift + 7)) (advance 1 L)"
      using r(1) s57 ge by (simp add: map_rd_def bind_rd_def sleb_loop.simps [of mem acc shift L] slice Let_def)
    also have "\<dots> = Inr (?acc + word_of_int (?w * 2 ^ (shift + 7)), advance (length (sleb_bytes ?w)) (advance 1 L))"
      using 1(1) [OF False r(2,3) tb _ _ rng] 1(5) s57 by (simp add: mod_add_right_eq)
    finally show ?thesis using or_push_bit [OF 1(4)] by (simp add: vw e push_bit_eq_mult add.assoc)
  qed
qed

lemma uleb_read:
  fixes u :: "64 word"
  assumes "bytes_at mem (lx_next L) (length (uleb_bytes (unat u))) = Some (uleb_bytes (unat u))" "room L (length (uleb_bytes (unat u)))"
  shows "readULEB128 mem L = Inr (u, advance (length (uleb_bytes (unat u))) L)"
  using uleb_loop_bytes [of mem L "unat u" 0 0] unsigned_less [of u] assms by (simp add: readULEB128_def)

lemma sleb_read:
  fixes s :: "64 word"
  assumes "bytes_at mem (lx_next L) (length (sleb_bytes (sint s))) = Some (sleb_bytes (sint s))" "room L (length (sleb_bytes (sint s)))"
  shows "readSLEB128 mem L = Inr (s, advance (length (sleb_bytes (sint s))) L)"
proof -
  have "- (2 ^ 63) \<le> sint s" "sint s < 2 ^ 63" using sint_greater_eq [of s] sint_less [of s] by simp_all
  then show ?thesis using sleb_loop_bytes [of mem L "sint s" 0 0] assms by (simp add: readSLEB128_def sleb_finish_def)
qed

text \<open>
  C19: the LEB128 readers invert the encodings of the DWARF standard: every unsigned and every signed
  64-bit number is read back from its encoding, and the lexer stands behind it afterwards.
\<close>

theorem leb128_roundtrip:
  fixes u s :: "64 word"
  shows "(bytes_at mem (lx_next L) (length (uleb_bytes (unat u))) = Some (uleb_bytes (unat u)) \<and>
      room L (length (uleb_bytes (unat u))) \<longrightarrow>
        readULEB128 mem L = Inr (u, advance (length (uleb_bytes (unat u))) L)) \<and>
    (bytes_at mem (lx_next L) (length (sleb_bytes (sint s))) = Some (sleb_bytes (sint s)) \<and>
      room L (length (sleb_bytes (sint s))) \<longrightarrow>
        readSLEB128 mem L = Inr (s, advance (length (sleb_bytes (sint s))) L))"
  using uleb_read [of mem L u] sleb_read [of mem L s] by blast

definition memory_of :: "nat \<Rightarrow> byte list \<Rightarrow> memory" where
  "memory_of a bs = (\<lambda>i. if a \<le> i \<and> i - a < length bs then Some (bs ! (i - a)) else None)"

theorem leb128_roundtrip_witness:
  "readULEB128 (memory_of 100 [0xE5, 0x8E, 0x26]) (CheckedLexer 100 0 103) = Inr (624485, CheckedLexer 103 0 103)"
proof -
  let ?m = "memory_of 100 [0xE5, 0x8E, 0x26]"
  have e: "uleb_bytes (unat (624485 :: 64 word)) = [0xE5, 0x8E, 0x26]"
    by (simp add: uleb_bytes.simps [of 624485] uleb_bytes.simps [of 4878] uleb_bytes.simps [of 38])
  have m: "bytes_at ?m 100 (Suc (Suc (Suc 0))) = Some [0xE5, 0x8E, 0x26]" by (simp add: memory_of_def mem_byte_def)
  show ?thesis
    using leb128_roundtrip [of ?m "CheckedLexer 100 0 103" 624485 0, unfolded e] m
    by (simp del: bytes_at.simps add: CheckedLexer_def room_def)
qed

section \<open>The checked lexer stays in bounds\<close>

text \<open>
  What a reader may depend on when it is checked: only the bytes between its position and its end.
  It moves forward, and never past the end.
\<close>

definition moves :: "lexer \<Rightarrow> lexer \<Rightarrow> bool" where
  "moves L L' \<longleftrightarrow> lx_next L \<le> lx_next L' \<and> lx_next L' \<le> max (lx_next L) (lx_end L) \<and>
     lx_base L' = lx_base L \<and> lx_end L' = lx_end L \<and> lx_checked L' = lx_checked L"

definition agree :: "memory \<Rightarrow> memory \<Rightarrow> lexer \<Rightarrow> bool" where
  "agree mem mem' L \<longleftrightarrow> lx_checked L \<and> (\<forall>a. lx_next L \<le> a \<and> a < lx_end L \<longrightarrow> mem a = mem' a)"

definition bounded_rd :: "(memory \<Rightarrow> 'a rd) \<Rightarrow> bool" where
  "bounded_rd m \<longleftrightarrow> (\<forall>mem mem' L. agree mem mem' L \<longrightarrow>
     m mem L = m mem' L \<and> (\<forall>x L'. m mem L = Inr (x, L') \<longrightarrow> moves L L'))"

lemma moves_refl [simp]: "moves L L"
  by (simp add: moves_def)

lemma moves_trans: "moves L L1 \<Longrightarrow> moves L1 L2 \<Longrightarrow> moves L L2"
  by (auto simp: moves_def)

lemma agree_moves: "agree mem mem' L \<Longrightarrow> moves L L1 \<Longrightarrow> agree mem mem' L1"
  by (auto simp: agree_def moves_def)

lemma bounded_rdD:
  assumes "bounded_rd m" "agree mem mem' L"
  shows "m mem' L = m mem L" "m mem L = Inr (x, L') \<Longrightarrow> moves L L'"
  using assms unfolding bounded_rd_def by metis+

lemma bounded_return: "bounded_rd (\<lambda>mem. return_rd x)"
  by (simp add: bounded_rd_def return_rd_def)

lemma bounded_throw: "bounded_rd (\<lambda>mem. throw_rd e)"
  by (simp add: bounded_rd_def throw_rd_def)

lemma bounded_bind:
  assumes m: "bounded_rd m" and f: "\<And>x. bounded_rd (\<lambda>mem. f mem x)"
  shows "bounded_rd (\<lambda>mem. bind_rd (m mem) (f mem))"
  unfolding bounded_rd_def
proof (intro allI impI)
  fix mem mem' :: memory and L :: lexer
  assume a: "agree mem mem' L"
  note mm = bounded_rdD [OF m a]
  show "bind_rd (m mem) (f mem) L = bind_rd (m mem') (f mem') L \<and>
     (\<forall>x L'. bind_rd (m mem) (f mem) L = Inr (x, L') \<longrightarrow> moves L L')"
  proof (cases "m mem L")
    case (Inl e)
    then show ?thesis using mm(1) by (simp add: bind_rd_def)
  next
    case (Inr p)
    obtain x L1 where p: "p = (x, L1)" by fastforce
    have l1: "moves L L1" using mm(2) Inr p by blast
    note ff = bounded_rdD [OF f [of x] agree_moves [OF a l1]]
    have "bind_rd (m mem) (f mem) L = f mem x L1" "bind_rd (m mem') (f mem') L = f mem' x L1"
      using Inr p mm(1) by (simp_all add: bind_rd_def)
    then show ?thesis using ff moves_trans [OF l1] by auto
  qed
qed

lemma bounded_if: "bounded_rd m \<Longrightarrow> bounded_rd m' \<Longrightarrow> bounded_rd (\<lambda>mem. if c then m mem else m' mem)"
  by (cases c) simp_all

lemma bounded_map: "bounded_rd m \<Longrightarrow> bounded_rd (\<lambda>mem. map_rd f (m mem))"
  unfolding map_rd_def by (intro bounded_bind bounded_return)

lemma bytes_at_agree:
  "(\<And>i. a \<le> i \<Longrightarrow> i < a + n \<Longrightarrow> mem i = mem' i) \<Longrightarrow> bytes_at mem a n = bytes_at mem' a n"
proof (induction n arbitrary: a)
  case (Suc n)
  have "bytes_at mem (Suc a) n = bytes_at mem' (Suc a) n" by (rule Suc.IH) (simp add: Suc.prems)
  moreover have "mem_byte mem a = mem_byte mem' a" using Suc.prems [of a] by (simp add: mem_byte_def)
  ultimately show ?case by (simp split: option.split)
qed simp

lemma bounded_read: "bounded_rd read_val"
  unfolding bounded_rd_def
proof (intro allI impI)
  fix mem mem' :: memory and L :: lexer
  assume a: "agree mem mem' L"
  let ?n = "LENGTH('a) div 8"
  show "(read_val mem L :: unwind_exn + 'a word \<times> lexer) = read_val mem' L \<and>
     (\<forall>x L'. (read_val mem L :: unwind_exn + 'a word \<times> lexer) = Inr (x, L') \<longrightarrow> moves L L')"
  proof (cases "lx_end L < lx_next L + ?n")
    case True
    then show ?thesis using a by (simp add: read_val_def agree_def)
  next
    case False
    then have "bytes_at mem (lx_next L) ?n = bytes_at mem' (lx_next L) ?n" using a by (intro bytes_at_agree) (auto simp: agree_def)
    then show ?thesis using False by (auto simp: read_val_def Let_def moves_def split: option.splits)
  qed
qed

lemma bounded_u8: "bounded_rd read_u8"
  unfolding read_u8_def by (rule bounded_read)

lemma bounded_uleb_loop: "bounded_rd (\<lambda>mem. uleb_loop mem value shift)"
  unfolding bounded_rd_def
proof (intro allI impI)
  fix mem mem' L assume "agree mem mem' L"
  then show "uleb_loop mem value shift L = uleb_loop mem' value shift L \<and>
      (\<forall>x L'. uleb_loop mem value shift L = Inr (x, L') \<longrightarrow> moves L L')"
  proof (induction mem "value" shift L rule: uleb_loop.induct)
    case (1 mem acc shift L)
    note r = bounded_rdD [OF bounded_u8 1(2)]
    show ?case
    proof (cases "read_u8 mem L")
      case (Inl e)
      then show ?thesis using r(1) by (simp add: uleb_loop.simps)
    next
      case (Inr p)
      obtain b L1 where p: "p = (b, L1)" by fastforce
      have l1: "moves L L1" using r(2) Inr p by blast
      note ih = 1(1) [OF Inr p [symmetric] refl _ _ _ refl _ agree_moves [OF 1(2) l1]]
      show ?thesis
        using ih l1 moves_trans [OF l1]
        by (simp add: uleb_loop.simps [of _ acc shift L] Inr p r(1) Let_def)
    qed
  qed
qed

lemma bounded_sleb_loop: "bounded_rd (\<lambda>mem. sleb_loop mem value shift)"
  unfolding bounded_rd_def
proof (intro allI impI)
  fix mem mem' L assume "agree mem mem' L"
  then show "sleb_loop mem value shift L = sleb_loop mem' value shift L \<and>
      (\<forall>x L'. sleb_loop mem value shift L = Inr (x, L') \<longrightarrow> moves L L')"
  proof (induction mem "value" shift L rule: sleb_loop.induct)
    case (1 mem acc shift L)
    note r = bounded_rdD [OF bounded_u8 1(2)]
    show ?case
    proof (cases "read_u8 mem L")
      case (Inl e)
      then show ?thesis using r(1) by (simp add: sleb_loop.simps)
    next
      case (Inr p)
      obtain b L1 where p: "p = (b, L1)" by fastforce
      have l1: "moves L L1" using r(2) Inr p by blast
      note ih = 1(1) [OF Inr p [symmetric] refl _ _ refl _ agree_moves [OF 1(2) l1]]
      show ?thesis
        using ih l1 moves_trans [OF l1]
        by (simp add: sleb_loop.simps [of _ acc shift L] Inr p r(1) Let_def)
    qed
  qed
qed

lemma bounded_cstring: "bounded_rd cstring_loop"
  unfolding bounded_rd_def
proof (intro allI impI)
  fix mem mem' L assume "agree mem mem' L"
  then show "cstring_loop mem L = cstring_loop mem' L \<and> (\<forall>x L'. cstring_loop mem L = Inr (x, L') \<longrightarrow> moves L L')"
  proof (induction mem L rule: cstring_loop.induct)
    case (1 mem L)
    show ?case
    proof (cases "lx_end L \<le> lx_next L")
      case True
      then show ?thesis using 1(2) by (simp add: cstring_loop.simps agree_def)
    next
      case False
      have m: "mem_byte mem' (lx_next L) = mem_byte mem (lx_next L)"
        using 1(2) False by (simp add: agree_def mem_byte_def)
      let ?L = "L\<lparr>lx_next := Suc (lx_next L)\<rparr>"
      have mv: "moves L ?L" using False by (simp add: moves_def)
      have ih: "cstring_loop mem ?L = cstring_loop mem' ?L \<and> (\<forall>x L'. cstring_loop mem ?L = Inr (x, L') \<longrightarrow> moves ?L L')"
        if "mem_byte mem (lx_next L) = Some b" "b \<noteq> 0" for b
        by (rule 1(1) [OF _ that(1) refl that(2) agree_moves [OF 1(2) mv]]) (simp add: False)
      show ?thesis
      proof (cases "mem_byte mem (lx_next L)")
        case None
        then show ?thesis using False m by (simp add: cstring_loop.simps)
      next
        case (Some b)
        show ?thesis
          using ih [OF Some] mv moves_trans [OF mv] False
          by (cases "b = 0") (auto simp: cstring_loop.simps [of _ L] Some m Let_def split: sum.splits)
      qed
    qed
  qed
qed

lemmas bounded_intros = bounded_map bounded_bind bounded_return bounded_throw bounded_read

lemma bounded_leb: "bounded_rd readULEB128" "bounded_rd readSLEB128"
  unfolding readULEB128_def readSLEB128_def by (intro bounded_uleb_loop bounded_intros bounded_sleb_loop)+

lemma bounded_ints: "bounded_rd read_u16" "bounded_rd read_u32" "bounded_rd read_u64" "bounded_rd read_s16" "bounded_rd read_s32"
  unfolding read_u16_def read_u32_def read_u64_def read_s16_def read_s32_def by (intro bounded_intros)+

lemma bounded_encoded_value: "bounded_rd (\<lambda>mem. readEncodedValue mem enc)"
  unfolding readEncodedValue_def Let_def by (intro bounded_if bounded_leb bounded_ints bounded_throw)

lemma bounded_encoded: "bounded_rd (\<lambda>mem. readEncoded mem enc)"
  unfolding bounded_rd_def
proof (intro allI impI)
  fix mem mem' L assume a: "agree mem mem' L"
  note v = bounded_rdD [OF bounded_encoded_value a]
  have p: "map_rd f (readEncodedValue mem' enc) L = map_rd f (readEncodedValue mem enc) L"
    "map_rd f (readEncodedValue mem enc) L = Inr (x, L') \<Longrightarrow> moves L L'" for f :: "64 word \<Rightarrow> 64 word" and x L'
    using bounded_rdD [OF bounded_map [OF bounded_encoded_value] a, of f enc] by simp_all
  show "readEncoded mem enc L = readEncoded mem' enc L \<and> (\<forall>x L'. readEncoded mem enc L = Inr (x, L') \<longrightarrow> moves L L')"
    using v p [of "\<lambda>v. word_of_nat (lx_next L) + v"] p [of "\<lambda>v. lx_base L + v"]
    by (simp add: readEncoded_def Let_def)
qed


end
