(* ===== verification/Range_Table.thy ===== *)
theory Range_Table
  imports Dwarf_Lexer "HOL-Library.Product_Lexorder"
begin

text \<open>
  \<open>range_table.h\<close>: a table from addresses to optional payloads that is sorted on demand and
  searched by \<open>std::upper_bound\<close>. Filled with the begin and the end of disjoint address ranges it
  is a finite map on intervals, which is what its clients (sections, debug info, line programs)
  rely on: the locale \<open>interval_index\<close>.
\<close>

section \<open>The table\<close>

record 'a range_table =
  rt_sorted :: bool
  rt_addresses :: "64 word list"
  rt_payloads :: "'a option list"

definition empty_table :: "'a range_table" where
  "empty_table = \<lparr>rt_sorted = True, rt_addresses = [0], rt_payloads = [None]\<rparr>"

definition add :: "64 word \<Rightarrow> 'a option \<Rightarrow> bool \<Rightarrow> 'a range_table \<Rightarrow> unwind_exn + 'a range_table" where
  "add address payload sorted_arg t =
     (if last (rt_addresses t) > address \<and> sorted_arg then Inl (Unwind_error ''expected addresses to be sorted'')
      else Inr \<lparr>rt_sorted = (if last (rt_addresses t) > address then False else rt_sorted t),
                rt_addresses = rt_addresses t @ [address], rt_payloads = rt_payloads t @ [payload]\<rparr>)"

text \<open>
  The order of the comparator of \<open>maybeSort\<close>. \<open>std::sort\<close> may order equivalent entries in any way;
  the model takes the stable order.
\<close>

definition entry_key :: "64 word \<times> 'a option \<Rightarrow> 64 word \<times> bool" where
  "entry_key x = (fst x, snd x \<noteq> None)"

definition maybeSort :: "'a range_table \<Rightarrow> 'a range_table" where
  "maybeSort t =
     (if rt_sorted t then t
      else let es = sort_key entry_key (zip (rt_addresses t) (rt_payloads t))
           in \<lparr>rt_sorted = True, rt_addresses = map fst es, rt_payloads = map snd es\<rparr>)"

text \<open>The number of leading elements \<open>std::upper_bound\<close> leaves behind in a sorted list.\<close>

definition upper_bound :: "64 word list \<Rightarrow> 64 word \<Rightarrow> nat" where
  "upper_bound xs a = length (takeWhile (\<lambda>x. \<not> a < x) xs)"

definition at_index :: "'b list \<Rightarrow> nat \<Rightarrow> unwind_exn + 'b" where
  "at_index xs i = (if i < length xs then Inr (xs ! i) else Inl Out_of_range)"

definition find_range :: "64 word \<Rightarrow> 'a range_table \<Rightarrow> (unwind_exn + 'a option) \<times> 'a range_table" where
  "find_range address t =
     (let t' = maybeSort t; i = upper_bound (rt_addresses t') address
      in (at_index (rt_payloads t') (if i = 0 then SIZE_MAX else i - 1), t'))"

definition table_size :: "'a range_table \<Rightarrow> nat" where
  "table_size t = length (rt_addresses t)"

definition back_address :: "'a range_table \<Rightarrow> 64 word \<times> 'a range_table" where
  "back_address t = (let t' = maybeSort t in (last (rt_addresses t'), t'))"

section \<open>Lookup\<close>

definition entries :: "'a range_table \<Rightarrow> (64 word \<times> 'a option) list" where
  "entries t = zip (rt_addresses t) (rt_payloads t)"

definition table_ok :: "'a range_table \<Rightarrow> bool" where
  "table_ok t \<longleftrightarrow> length (rt_addresses t) = length (rt_payloads t) \<and> (0, None) \<in> set (entries t) \<and>
     (rt_sorted t \<longrightarrow> sorted (rt_addresses t))"

lemma table_okD:
  assumes "table_ok t"
  shows "length (rt_addresses t) = length (rt_payloads t)" "(0, None) \<in> set (entries t)" "rt_addresses t \<noteq> []"
    "rt_sorted t \<Longrightarrow> sorted (rt_addresses t)" "map fst (entries t) = rt_addresses t" "map snd (entries t) = rt_payloads t"
  using assms by (auto simp: table_ok_def entries_def)

lemma empty_table_ok: "table_ok empty_table" "entries empty_table = [(0, None)]" "rt_sorted empty_table"
  by (simp_all add: table_ok_def empty_table_def entries_def)

lemma sorted_le_last: "sorted xs \<Longrightarrow> x \<in> set xs \<Longrightarrow> x \<le> last xs"
  by (induction xs) auto

lemma add_ok:
  assumes "table_ok t" "add a p s t = Inr t'"
  shows "table_ok t'" "entries t' = entries t @ [(a, p)]" "rt_sorted t' \<longleftrightarrow> rt_sorted t \<and> last (rt_addresses t) \<le> a"
proof -
  note t = table_okD [OF assms(1)]
  have t': "t' = \<lparr>rt_sorted = (if last (rt_addresses t) > a then False else rt_sorted t),
      rt_addresses = rt_addresses t @ [a], rt_payloads = rt_payloads t @ [p]\<rparr>"
    using assms(2) by (auto simp: add_def split: if_splits)
  show e: "entries t' = entries t @ [(a, p)]" using t(1) by (simp add: t' entries_def)
  show "rt_sorted t' \<longleftrightarrow> rt_sorted t \<and> last (rt_addresses t) \<le> a" by (auto simp: t' not_less)
  have "sorted (rt_addresses t @ [a])" if "rt_sorted t" "last (rt_addresses t) \<le> a"
  proof -
    have s: "sorted (rt_addresses t)" using t(4) that(1) .
    have "x \<le> last (rt_addresses t)" if "x \<in> set (rt_addresses t)" for x
      by (rule sorted_le_last [OF s that])
    then show ?thesis using s that(2) by (auto simp: sorted_append intro: order_trans)
  qed
  then show "table_ok t'" using t(1,2) e by (auto simp: table_ok_def t' not_less)
qed

lemma maybeSort_ok:
  assumes "table_ok t"
  shows "table_ok (maybeSort t)" "rt_sorted (maybeSort t)" "mset (entries (maybeSort t)) = mset (entries t)"
proof -
  note t = table_okD [OF assms]
  let ?es = "sort_key entry_key (entries t)"
  have srt: "sorted (map fst ?es)"
  proof -
    have "sorted (map entry_key ?es)" by simp
    then show ?thesis unfolding sorted_map by (rule sorted_wrt_mono_rel [rotated]) (auto simp: entry_key_def less_eq_prod_simp)
  qed
  show "rt_sorted (maybeSort t)" by (simp add: maybeSort_def Let_def)
  have e: "\<not> rt_sorted t \<Longrightarrow> entries (maybeSort t) = ?es" by (simp add: maybeSort_def Let_def entries_def zip_map_fst_snd)
  show "mset (entries (maybeSort t)) = mset (entries t)" by (cases "rt_sorted t") (simp_all add: e, simp add: maybeSort_def)
  show "table_ok (maybeSort t)"
    using assms srt by (cases "rt_sorted t") (auto simp: table_ok_def e, auto simp: maybeSort_def Let_def entries_def)
qed

text \<open>The last entry of a sorted list that is not above the address.\<close>

lemma upper_bound_entry:
  fixes es :: "(64 word \<times> 'a option) list" and a :: "64 word"
  assumes "sorted (map fst es)" "(0, None) \<in> set es"
  defines "i \<equiv> upper_bound (map fst es) a"
  shows "0 < i" "i \<le> length es" "fst (es ! (i - 1)) \<le> a" "\<And>j. j < length es \<Longrightarrow> fst (es ! j) \<le> a \<Longrightarrow> j < i"
proof -
  have len: "i = length (takeWhile (\<lambda>x. \<not> a < fst x) es)" by (simp add: i_def upper_bound_def takeWhile_map comp_def)
  show "i \<le> length es" unfolding len by (rule length_takeWhile_le)
  have below: "j < i" if "j < length es" "fst (es ! j) \<le> a" for j
  proof (rule ccontr)
    assume "\<not> j < i"
    then have "i < length es" using that(1) by simp
    then have "a < fst (es ! i)" using nth_length_takeWhile [of "\<lambda>x. \<not> a < fst x" es] by (simp add: len)
    also have "\<dots> \<le> fst (es ! j)" using assms(1) \<open>\<not> j < i\<close> that(1) by (simp add: sorted_iff_nth_mono)
    finally show False using that(2) by simp
  qed
  then show "\<And>j. j < length es \<Longrightarrow> fst (es ! j) \<le> a \<Longrightarrow> j < i" .
  obtain j where "j < length es" "es ! j = (0, None)" using assms(2) by (auto simp: in_set_conv_nth)
  then show "0 < i" using below [of j] by simp
  then have "i - 1 < i" by simp
  then show "fst (es ! (i - 1)) \<le> a"
    using set_takeWhileD [of "es ! (i - 1)" "\<lambda>x. \<not> a < fst x" es] nth_mem [of "i - 1" "takeWhile (\<lambda>x. \<not> a < fst x) es"]
    by (simp add: len takeWhile_nth not_less)
qed

lemma find_range_entry:
  assumes "table_ok t"
  shows "\<exists>b p. fst (find_range a t) = Inr p \<and> (b, p) \<in> set (entries t) \<and> b \<le> a \<and>
    (\<forall>c q. (c, q) \<in> set (entries t) \<longrightarrow> c \<le> a \<longrightarrow> c \<le> b) \<and>
    (sorted (map entry_key (entries (maybeSort t))) \<longrightarrow>
       (\<forall>c q. (c, q) \<in> set (entries t) \<longrightarrow> c \<le> a \<longrightarrow> entry_key (c, q) \<le> entry_key (b, p)))"
proof -
  let ?t = "maybeSort t" and ?es = "entries (maybeSort t)"
  note ms = maybeSort_ok [OF assms]
  note ok = table_okD [OF ms(1)]
  define i where "i = upper_bound (map fst ?es) a"
  have s: "sorted (map fst ?es)" using ok(4) [OF ms(2)] ok(5) by simp
  note ub = upper_bound_entry [OF s ok(2), where a = a, folded i_def]
  let ?x = "?es ! (i - 1)"
  have set: "set ?es = set (entries t)" using ms(3) by (metis set_mset_mset)
  have i: "i - 1 < length ?es" using ub(1,2) by simp
  have "length ?es = length (rt_payloads ?t)" using ok(6) by (metis length_map)
  moreover have "snd ?x = rt_payloads ?t ! (i - 1)" using i by (subst ok(6) [symmetric]) simp
  ultimately have "fst (find_range a t) = Inr (snd ?x)"
    using ub(1) i by (simp add: find_range_def Let_def i_def ok(5) at_index_def)
  moreover have "(fst ?x, snd ?x) \<in> set (entries t)" using i set by (metis nth_mem prod.collapse)
  moreover have "c \<le> fst ?x" if c: "(c, q) \<in> set (entries t)" "c \<le> a" for c q
  proof -
    obtain j where j: "j < length ?es" "?es ! j = (c, q)" using c(1) set by (metis in_set_conv_nth)
    then have "j \<le> i - 1" using ub(4) [of j] c(2) by simp
    then have "map fst ?es ! j \<le> map fst ?es ! (i - 1)" using s i by (intro sorted_nth_mono) simp_all
    then show ?thesis using j i by simp
  qed
  moreover have "entry_key (c, q) \<le> entry_key (fst ?x, snd ?x)"
    if k: "sorted (map entry_key ?es)" and c: "(c, q) \<in> set (entries t)" "c \<le> a" for c q
  proof -
    obtain j where j: "j < length ?es" "?es ! j = (c, q)" using c(1) set by (metis in_set_conv_nth)
    then have "j \<le> i - 1" using ub(4) [of j] c(2) by simp
    then have "map entry_key ?es ! j \<le> map entry_key ?es ! (i - 1)" using k i by (intro sorted_nth_mono) simp_all
    then show ?thesis using j i by simp
  qed
  ultimately show ?thesis using ub(3) by (intro exI [of _ "fst ?x"] exI [of _ "snd ?x"]) blast
qed

section \<open>Disjoint ranges\<close>

text \<open>How the clients enter a range: its begin with the payload, its end without.\<close>

definition add_range :: "64 word \<Rightarrow> 64 word \<Rightarrow> 'a \<Rightarrow> 'a range_table \<Rightarrow> unwind_exn + 'a range_table" where
  "add_range start end_addr payload t =
     (case add start (Some payload) False t of Inl e \<Rightarrow> Inl e | Inr t1 \<Rightarrow> add end_addr None False t1)"

fun build_ranges :: "(64 word \<times> 64 word \<times> 'a) list \<Rightarrow> 'a range_table \<Rightarrow> unwind_exn + 'a range_table" where
  "build_ranges [] t = Inr t"
| "build_ranges ((s, e, p) # rs) t =
     (case add_range s e p t of Inl x \<Rightarrow> Inl x | Inr t1 \<Rightarrow> build_ranges rs t1)"

fun disjoint_ranges :: "(64 word \<times> 64 word \<times> 'a) list \<Rightarrow> bool" where
  "disjoint_ranges [] \<longleftrightarrow> True"
| "disjoint_ranges ((s, e, p) # rs) \<longleftrightarrow>
     s < e \<and> (\<forall>(s', e', p') \<in> set rs. e \<le> s' \<or> e' \<le> s) \<and> disjoint_ranges rs"

lemma disjoint_rangesD:
  assumes "disjoint_ranges rs" "(s, e, p) \<in> set rs"
  shows "s < e" "(s', e', p') \<in> set rs \<Longrightarrow> (s', e', p') = (s, e, p) \<or> e \<le> s' \<or> e' \<le> s"
proof -
  show "s < e" using assms by (induction rs) auto
  show "(s', e', p') = (s, e, p) \<or> e \<le> s' \<or> e' \<le> s" if "(s', e', p') \<in> set rs"
    using assms that by (induction rs) fastforce+
qed

lemma add_unsorted: "\<exists>t'. add a p False t = Inr t'"
  by (simp add: add_def)

definition ordered_table :: "'a range_table \<Rightarrow> bool" where
  "ordered_table t \<longleftrightarrow> table_ok t \<and> snd (last (entries t)) = None \<and> (rt_sorted t \<longrightarrow> sorted (map entry_key (entries t)))"

lemma sorted_snoc: "sorted (xs @ [x]) \<longleftrightarrow> sorted xs \<and> (\<forall>y\<in>set xs. y \<le> x)"
  by (simp add: sorted_append)

lemma add_range_ok:
  assumes t: "ordered_table t" and "s < e"
  shows "\<exists>t'. add_range s e p t = Inr t' \<and> ordered_table t' \<and> entries t' = entries t @ [(s, Some p), (e, None)]"
proof -
  have ok: "table_ok t" using t by (simp add: ordered_table_def)
  obtain t1 where t1: "add s (Some p) False t = Inr t1" using add_unsorted by blast
  note a1 = add_ok [OF ok t1]
  obtain t2 where t2: "add e None False t1 = Inr t2" using add_unsorted by blast
  note a2 = add_ok [OF a1(1) t2]
  have ents: "entries t2 = entries t @ [(s, Some p), (e, None)]" using a1(2) a2(2) by simp
  have "sorted (map entry_key (entries t2))" if srt: "rt_sorted t2"
  proof -
    have s1: "rt_sorted t" "last (rt_addresses t) \<le> s" using a1(3) a2(3) srt by simp_all
    have k: "sorted (map entry_key (entries t))" using t s1(1) by (simp add: ordered_table_def)
    have ne: "entries t \<noteq> []" using table_okD(2) [OF ok] by auto
    have la: "fst (last (entries t)) = last (rt_addresses t)" using table_okD(5) [OF ok] ne by (metis last_map)
    have lst: "entry_key (last (entries t)) \<le> (s, True)"
      using la s1(2) t by (auto simp: entry_key_def ordered_table_def less_eq_prod_simp)
    have le: "y \<le> (s, True)" if "y \<in> set (map entry_key (entries t))" for y
      using sorted_le_last [OF k that] lst ne by (simp add: last_map)
    have se: "(s, True) \<le> (e, False)" using assms(2) by (simp add: less_eq_prod_simp)
    have "y \<le> (e, False)" if "y \<in> set (map entry_key (entries t) @ [(s, True)])" for y
    proof -
      have "y \<in> set (map entry_key (entries t)) \<or> y = (s, True)" using that by (simp del: set_map) blast
      then show ?thesis using le se order_trans by blast
    qed
    then have "sorted ((map entry_key (entries t) @ [(s, True)]) @ [(e, False)])"
      unfolding sorted_snoc using k le by blast
    then show ?thesis by (simp add: ents entry_key_def)
  qed
  then show ?thesis using t1 t2 a2(1) ents by (auto simp: add_range_def ordered_table_def)
qed

lemma build_ranges_ok:
  assumes "ordered_table t" "\<forall>(s, e, p)\<in>set rs. s < e"
  shows "\<exists>t'. build_ranges rs t = Inr t' \<and> ordered_table t' \<and>
    entries t' = entries t @ concat (map (\<lambda>(s, e, p). [(s, Some p), (e, None)]) rs)"
  using assms
proof (induction rs arbitrary: t)
  case (Cons r rs)
  obtain s e p where r: "r = (s, e, p)" by (cases r) auto
  obtain t1 where t1: "add_range s e p t = Inr t1" "ordered_table t1" "entries t1 = entries t @ [(s, Some p), (e, None)]"
    using add_range_ok [OF Cons.prems(1), of s e p] Cons.prems(2) r by auto
  then show ?case using Cons.IH [OF t1(2)] Cons.prems(2) r by auto
qed simp

lemma ordered_maybeSort:
  assumes "ordered_table t"
  shows "sorted (map entry_key (entries (maybeSort t)))"
proof (cases "rt_sorted t")
  case True
  then show ?thesis using assms by (simp add: ordered_table_def maybeSort_def)
next
  case False
  then have "entries (maybeSort t) = sort_key entry_key (entries t)"
    by (simp add: maybeSort_def Let_def entries_def zip_map_fst_snd)
  then show ?thesis by simp
qed

lemma range_entries:
  "(c, q) \<in> set (concat (map (\<lambda>(s, e, p). [(s, Some p), (e, None)]) rs)) \<longleftrightarrow>
     (\<exists>s e p. (s, e, p) \<in> set rs \<and> (c = s \<and> q = Some p \<or> c = e \<and> q = None))"
  by force

lemma find_disjoint:
  assumes d: "disjoint_ranges rs" and b: "build_ranges rs empty_table = Inr t"
  shows "(s, e, p) \<in> set rs \<Longrightarrow> s \<le> a \<Longrightarrow> a < e \<Longrightarrow> fst (find_range a t) = Inr (Some p)"
    and "(\<And>s e p. (s, e, p) \<in> set rs \<Longrightarrow> \<not> (s \<le> a \<and> a < e)) \<Longrightarrow> fst (find_range a t) = Inr None"
proof -
  have "ordered_table (empty_table :: 'a range_table)" by (simp add: ordered_table_def empty_table_ok entry_key_def)
  moreover have "\<forall>(s, e, p)\<in>set rs. s < e" using disjoint_rangesD(1) [OF d] by blast
  ultimately obtain t' where t': "build_ranges rs empty_table = Inr t'" "ordered_table t'"
      "entries t' = entries (empty_table :: 'a range_table) @ concat (map (\<lambda>(s, e, p). [(s, Some p), (e, None)]) rs)"
    using build_ranges_ok by blast
  have t: "ordered_table t" "table_ok t" and ents: "set (entries t) = insert (0, None) (set (concat (map (\<lambda>(s, e, p). [(s, Some p), (e, None)]) rs)))"
    using t' b by (simp_all add: ordered_table_def empty_table_ok)
  obtain c q where f: "fst (find_range a t) = Inr q" "(c, q) \<in> set (entries t)" "c \<le> a"
      and mx: "\<And>c' q'. (c', q') \<in> set (entries t) \<Longrightarrow> c' \<le> a \<Longrightarrow> entry_key (c', q') \<le> entry_key (c, q)"
    using find_range_entry [OF t(2), of a] ordered_maybeSort [OF t(1)] by metis
  have mem: "(c', q') \<in> set (entries t) \<longleftrightarrow> (c', q') = (0, None) \<or> (\<exists>s e p. (s, e, p) \<in> set rs \<and> (c' = s \<and> q' = Some p \<or> c' = e \<and> q' = None))" for c' q'
    unfolding ents insert_iff range_entries ..
  show "fst (find_range a t) = Inr (Some p)" if r: "(s, e, p) \<in> set rs" "s \<le> a" "a < e"
  proof -
    have "entry_key (s, Some p) \<le> entry_key (c, q)" using mx [of s "Some p"] r mem by blast
    then have k: "s < c \<or> s = c \<and> q \<noteq> None" by (auto simp: entry_key_def less_eq_prod_simp)
    then have "(c, q) \<noteq> (0, None)" by auto
    then obtain s' e' p' where r': "(s', e', p') \<in> set rs" "c = s' \<and> q = Some p' \<or> c = e' \<and> q = None" using mem f(2) by blast
    have "(s', e', p') = (s, e, p) \<or> e \<le> s' \<or> e' \<le> s" "s' < e'"
      using disjoint_rangesD(2) [OF d r(1) r'(1)] disjoint_rangesD(1) [OF d r'(1)] .
    then consider "(s', e', p') = (s, e, p)" | "e \<le> s'" "s' < e'" | "e' \<le> s" "s' < e'" by blast
    then have "q = Some p"
    proof cases
      case 1
      then show ?thesis using r'(2) k f(3) r(3) by auto
    next
      case 2
      then have "a < s'" "a < e'" using r(3) by order+
      then show ?thesis using r'(2) f(3) by auto
    next
      case 3
      then have "s' < s" by order
      then show ?thesis using r'(2) k 3(1) by auto
    qed
    then show ?thesis using f(1) by simp
  qed
  show "fst (find_range a t) = Inr None" if no: "\<And>s e p. (s, e, p) \<in> set rs \<Longrightarrow> \<not> (s \<le> a \<and> a < e)"
  proof (cases q)
    case (Some p)
    then have "\<exists>e. (c, e, p) \<in> set rs" using f(2) mem [of c q] by auto
    then obtain e where r: "(c, e, p) \<in> set rs" by blast
    have ce: "e \<le> a" "c < e" using no [OF r] f(3) disjoint_rangesD(1) [OF d r] by simp_all
    have "(e, None) \<in> set (entries t)" using r mem by blast
    then have "entry_key (e, None :: 'a option) \<le> entry_key (c, q)" by (rule mx [OF _ ce(1)])
    then show ?thesis using ce(2) by (auto simp: entry_key_def less_eq_prod_simp)
  qed (simp add: f(1))
qed

section \<open>The interface of the table\<close>

locale interval_index =
  fixes index :: "(64 word \<times> 64 word \<times> 'a) list \<Rightarrow> 't \<Rightarrow> bool"
    and lookup :: "64 word \<Rightarrow> 't \<Rightarrow> unwind_exn + 'a option"
  assumes lookup_in: "disjoint_ranges rs \<Longrightarrow> index rs t \<Longrightarrow> (s, e, p) \<in> set rs \<Longrightarrow> s \<le> a \<Longrightarrow> a < e \<Longrightarrow>
      lookup a t = Inr (Some p)"
    and lookup_out: "disjoint_ranges rs \<Longrightarrow> index rs t \<Longrightarrow> (\<And>s e p. (s, e, p) \<in> set rs \<Longrightarrow> \<not> (s \<le> a \<and> a < e)) \<Longrightarrow>
      lookup a t = Inr None"
begin

lemma lookup_find:
  assumes "disjoint_ranges rs" "index rs t"
  shows "lookup a t = Inr (map_option (\<lambda>(s, e, p). p) (List.find (\<lambda>(s, e, p). s \<le> a \<and> a < e) rs))"
proof (cases "List.find (\<lambda>(s, e, p). s \<le> a \<and> a < e) rs")
  case None
  then have "\<not> (s \<le> a \<and> a < e)" if "(s, e, p) \<in> set rs" for s e p using that by (auto simp: find_None_iff)
  then show ?thesis using lookup_out [OF assms] None by simp
next
  case (Some r)
  obtain s e p where r: "r = (s, e, p)" by (cases r) auto
  have "(s, e, p) \<in> set rs" "s \<le> a" "a < e" using Some r by (auto simp: find_Some_iff dest: nth_mem)
  then show ?thesis using lookup_in [OF assms] Some r by simp
qed

lemma lookup_order:
  assumes "disjoint_ranges rs" "index rs t" "disjoint_ranges rs'" "index rs' t'" "set rs' = set rs"
  shows "lookup a t' = lookup a t"
proof (cases "\<exists>s e p. (s, e, p) \<in> set rs \<and> s \<le> a \<and> a < e")
  case True
  then obtain s e p where r: "(s, e, p) \<in> set rs" "s \<le> a" "a < e" by blast
  then show ?thesis using lookup_in [OF assms(1,2) r] lookup_in [OF assms(3,4)] assms(5) by simp
next
  case False
  then have "lookup a t = Inr None" by (intro lookup_out [OF assms(1,2)]) blast
  moreover have "lookup a t' = Inr None" using False assms(5) by (intro lookup_out [OF assms(3,4)]) blast
  ultimately show ?thesis by simp
qed

end

interpretation ranges: interval_index "\<lambda>rs t. build_ranges rs empty_table = Inr t" "\<lambda>a t. fst (find_range a t)"
  by unfold_locales (fact find_disjoint)+

text \<open>
  C21: a table filled with disjoint address ranges in any order implements the finite map on
  intervals: filling it never throws, and a lookup returns the payload of the one range that
  contains the address, or nothing when no range does.
\<close>

theorem range_table_refines_intervals:
  assumes "disjoint_ranges rs"
  shows "\<exists>t. build_ranges rs empty_table = Inr t \<and>
    (\<forall>a. fst (find_range a t) = Inr (map_option (\<lambda>(s, e, p). p) (List.find (\<lambda>(s, e, p). s \<le> a \<and> a < e) rs)))"
proof -
  have "ordered_table (empty_table :: 'a range_table)" by (simp add: ordered_table_def empty_table_ok entry_key_def)
  moreover have "\<forall>(s, e, p)\<in>set rs. s < e" using disjoint_rangesD(1) [OF assms] by blast
  ultimately obtain t where "build_ranges rs (empty_table :: 'a range_table) = Inr t" using build_ranges_ok by blast
  then show ?thesis using ranges.lookup_find [OF assms] by blast
qed

theorem range_table_refines_intervals_witness:
  "\<exists>t. build_ranges [(20, 30, CHR ''b''), (10, 20, CHR ''a'')] empty_table = Inr t \<and>
     fst (find_range 20 t) = Inr (Some CHR ''b'') \<and> fst (find_range 19 t) = Inr (Some CHR ''a'') \<and>
     fst (find_range 30 t) = Inr None"
proof -
  have "disjoint_ranges [(20 :: 64 word, 30, CHR ''b''), (10, 20, CHR ''a'')]" by simp
  from range_table_refines_intervals [OF this] show ?thesis by auto
qed

end
