(* ===== verification/Dwarf_Frame.thy ===== *)
theory Dwarf_Frame
  imports Dwarf_Lexer
begin

unbundle bit_operations_syntax

text \<open>
  \<open>action.h\<close>, \<open>unwinder.h\<close> and \<open>fde.h\<close>: register recovery actions, the compiled unwinder of one
  code address, and the interpreter of the call frame instructions of a frame description entry.
  The instruction reader is shown to implement the instruction set of the DWARF standard on its
  encodings, and the compiled unwinder to compute what the actions it was built from say.
\<close>

section \<open>Actions\<close>

datatype action_kind = A_UNDEFINED | A_REG_PLUS_DATA | A_LOAD_CFA_OFFSET | A_REG_PLUS_DATA_DEREF

record action =
  act_kind :: action_kind
  act_reg :: "32 word"
  act_data :: "64 word"

definition D_RBP :: nat where "D_RBP = 6"
definition D_RSP :: nat where "D_RSP = 7"
definition D_RIP :: nat where "D_RIP = 16"
definition D_REG_SIZE :: nat where "D_REG_SIZE = 17"

definition act_undefined :: action where
  "act_undefined = \<lparr>act_kind = A_UNDEFINED, act_reg = - 1, act_data = 0\<rparr>"

definition regPlusData :: "32 word \<Rightarrow> 64 word \<Rightarrow> action" where
  "regPlusData reg off = \<lparr>act_kind = A_REG_PLUS_DATA, act_reg = reg, act_data = off\<rparr>"

definition regPlusDataDeref :: "32 word \<Rightarrow> 64 word \<Rightarrow> action" where
  "regPlusDataDeref reg off = \<lparr>act_kind = A_REG_PLUS_DATA_DEREF, act_reg = reg, act_data = off\<rparr>"

definition loadCfaOffset :: "64 word \<Rightarrow> action" where
  "loadCfaOffset off = \<lparr>act_kind = A_LOAD_CFA_OFFSET, act_reg = - 1, act_data = off\<rparr>"

section \<open>The compiled unwinder\<close>

record unwind_state =
  us_rip :: "64 word"
  us_rbp :: "64 word"
  us_rsp :: "64 word"

datatype unwinder_kind = STANDARD | END | UNKNOWN

record unwinder =
  uw_kind :: unwinder_kind
  uw_reg :: "32 word"
  uw_off :: "64 word"
  uw_rip_off :: "64 word"
  uw_rbp_off :: "64 word"
  uw_deref :: bool

definition INT64_MAX :: "64 word" where "INT64_MAX = 0x7FFFFFFFFFFFFFFF"

definition ebind :: "'e + 'a \<Rightarrow> ('a \<Rightarrow> 'e + 'b) \<Rightarrow> 'e + 'b" where
  "ebind m f = (case m of Inl e \<Rightarrow> Inl e | Inr x \<Rightarrow> f x)"

definition check :: "bool \<Rightarrow> unwind_exn + unit" where
  "check cond = (if cond then Inr () else Inl (Unwind_error ''Unwinding actions do not follow supported patterns''))"

definition make_unwinder :: "action \<Rightarrow> action \<Rightarrow> action \<Rightarrow> unwind_exn + unwinder" where
  "make_unwinder rsp rip rbp =
     (let u = \<lparr>uw_kind = (if act_kind rip = A_UNDEFINED then END else STANDARD), uw_reg = act_reg rsp,
               uw_off = act_data rsp, uw_rip_off = act_data rip,
               uw_rbp_off = (if act_kind rbp = A_UNDEFINED then INT64_MAX else act_data rbp),
               uw_deref = (act_kind rsp = A_REG_PLUS_DATA_DEREF)\<rparr>
      in ebind (check (act_reg rsp = of_nat D_RSP \<or> act_reg rsp = of_nat D_RBP)) (\<lambda>_.
         ebind (check (act_kind rip = A_UNDEFINED \<or> act_kind rip = A_LOAD_CFA_OFFSET)) (\<lambda>_.
         if act_kind rsp = A_REG_PLUS_DATA
         then ebind (check (act_kind rbp = A_LOAD_CFA_OFFSET \<or> act_kind rbp = A_UNDEFINED)) (\<lambda>_. Inr u)
         else if act_kind rsp = A_REG_PLUS_DATA_DEREF
         then if act_kind rbp = A_REG_PLUS_DATA_DEREF
              then ebind (check (act_reg rbp = act_reg rsp)) (\<lambda>_. Inr (u\<lparr>uw_rbp_off := uw_rbp_off u - act_data rsp\<rparr>))
              else ebind (check (act_kind rbp = A_UNDEFINED)) (\<lambda>_. Inr u)
         else ebind (check False) (\<lambda>_. Inr u))))"

definition unknown_unwinder :: unwinder where
  "unknown_unwinder = \<lparr>uw_kind = UNKNOWN, uw_reg = 0, uw_off = 0, uw_rip_off = 0, uw_rbp_off = 0, uw_deref = False\<rparr>"

definition terminator :: "unwinder \<Rightarrow> bool" where
  "terminator u \<longleftrightarrow> uw_kind u \<noteq> STANDARD"

definition isUnknown :: "unwinder \<Rightarrow> bool" where
  "isUnknown u \<longleftrightarrow> uw_kind u = UNKNOWN"

text \<open>\<open>*(int64_t*)a\<close>.\<close>

definition load64 :: "memory \<Rightarrow> 64 word \<Rightarrow> unwind_exn + 64 word" where
  "load64 mem a = (case bytes_at mem (unat a) 8 of None \<Rightarrow> Inl Fault | Some bs \<Rightarrow> Inr (word_of_nat (le_nat bs)))"

definition run_unwinder :: "memory \<Rightarrow> unwinder \<Rightarrow> unwind_state \<Rightarrow> unwind_exn + unwind_state" where
  "run_unwinder mem u cur =
     (let rsp = (if uw_reg u = of_nat D_RSP then us_rsp cur else us_rbp cur) + uw_off u
      in ebind (if uw_rbp_off u = INT64_MAX then Inr (us_rbp cur) else load64 mem (rsp + uw_rbp_off u)) (\<lambda>rbp.
         ebind (if uw_deref u then load64 mem rsp else Inr rsp) (\<lambda>rsp'.
         ebind (load64 mem (rsp' + uw_rip_off u)) (\<lambda>rip.
         Inr \<lparr>us_rip = rip, us_rbp = rbp, us_rsp = rsp'\<rparr>))))"

section \<open>Frame description entries\<close>

record table_state =
  ts_cfa :: action
  ts_registers :: "action list" \<comment> \<open>an array of \<open>D_REG_SIZE\<close> actions\<close>

definition initial_table :: table_state where
  "initial_table = \<lparr>ts_cfa = act_undefined, ts_registers = replicate D_REG_SIZE act_undefined\<rparr>"

record fde =
  fde_augmentation_string :: "byte list"
  fde_augmentation_length :: "64 word"
  fde_augmentation_length_fde :: "64 word"
  fde_code_alignment_factor :: "64 word"
  fde_data_alignment_factor :: "64 word"
  fde_ra_register :: "64 word"
  fde_lsda_enc :: byte
  fde_fde_enc :: byte
  fde_low_pc :: "64 word"
  fde_high_pc :: "64 word"
  fde_cie_begin :: nat
  fde_fde_begin :: nat
  fde_cie_end :: nat
  fde_fde_end :: nat
  fde_last_reg :: "64 word"
  fde_last_offset :: "64 word"
  fde_current_pc :: "64 word"
  fde_initial_state :: table_state
  fde_state_stack :: "table_state list" \<comment> \<open>the back of the vector is the head of the list\<close>

fun strstr :: "byte list \<Rightarrow> byte list \<Rightarrow> bool" where
  "strstr [] s \<longleftrightarrow> s = []"
| "strstr (b # bs) s \<longleftrightarrow> take (length s) (b # bs) = s \<or> strstr bs s"

text \<open>The loop over the augmentation string: the encodings it sets.\<close>

fun read_augmentation :: "memory \<Rightarrow> byte list \<Rightarrow> byte \<times> byte \<Rightarrow> (byte \<times> byte) rd" where
  "read_augmentation mem [] encs = return_rd encs"
| "read_augmentation mem (c # cs) (lsda, fenc) =
     (if c = 0x4C then bind_rd (read_u8 mem) (\<lambda>e. read_augmentation mem cs (e, fenc))
      else if c = 0x52 then bind_rd (read_u8 mem) (\<lambda>e. read_augmentation mem cs (lsda, e))
      else if c = 0x50 then bind_rd (read_u8 mem) (\<lambda>e. bind_rd (readEncoded mem e) (\<lambda>_. read_augmentation mem cs (lsda, fenc)))
      else if c = 0x53 then read_augmentation mem cs (lsda, fenc)
      else throw_rd (Unwind_error ''unknown augmentation string''))"

definition make_fde :: "memory \<Rightarrow> nat \<Rightarrow> unwind_exn + fde" where
  "make_fde mem data =
     ebind (read4or8Length mem (Lexer data 0)) (\<lambda>(len, L1).
     let fde_start = lx_next L1 in
     ebind (read_u32 mem L1) (\<lambda>(rel, L2).
     ebind (read4or8Length mem (Lexer (unat (word_of_nat fde_start - rel :: 64 word)) 0)) (\<lambda>(cie_length, C1).
     let cie_start = lx_next C1 in
     ebind (read_u32 mem C1) (\<lambda>(zero, C2).
     ebind (read_u8 mem C2) (\<lambda>(version, C3).
     ebind (readCString mem C3) (\<lambda>(aug, C4).
     if strstr aug [0x65, 0x68] then Inl (Unwind_error ''unsupported 'eh' augmentation string'')
     else
     ebind (readULEB128 mem C4) (\<lambda>(code_align, C5).
     ebind (readSLEB128 mem C5) (\<lambda>(data_align, C6).
     ebind ((if version = 1 then map_rd ucast (read_u8 mem) else readULEB128 mem) C6) (\<lambda>(ra, C7).
     ebind (if aug \<noteq> [] \<and> hd aug = 0x7A
            then ebind (readULEB128 mem C7) (\<lambda>(alen, C8).
                 ebind (read_augmentation mem (tl aug) (DW_EH_PE_omit, DW_EH_PE_absptr) (Lexer (lx_next C8) 0))
                   (\<lambda>((lsda, fenc), A). Inr (alen, lsda, fenc, C8)))
            else Inr (0, DW_EH_PE_omit, DW_EH_PE_absptr, C7)) (\<lambda>(alen, lsda, fenc, C9).
     let C10 = skip alen C9 in
     ebind (readEncoded mem fenc L2) (\<lambda>(low, L3).
     ebind (readEncodedValue mem fenc L3) (\<lambda>(pc_range, L4).
     ebind (if strstr aug [0x7A] then readULEB128 mem L4 else Inr (0, L4)) (\<lambda>(alen_fde, L5).
     ebind (readEncodedOr mem lsda 0 L5) (\<lambda>(_, L6).
     Inr \<lparr>fde_augmentation_string = aug, fde_augmentation_length = alen, fde_augmentation_length_fde = alen_fde,
          fde_code_alignment_factor = code_align, fde_data_alignment_factor = data_align, fde_ra_register = ra,
          fde_lsda_enc = lsda, fde_fde_enc = fenc, fde_low_pc = low, fde_high_pc = low + pc_range,
          fde_cie_begin = lx_next C10, fde_fde_begin = lx_next L6,
          fde_cie_end = (cie_start + unat cie_length) mod 2 ^ 64, fde_fde_end = (fde_start + unat len) mod 2 ^ 64,
          fde_last_reg = 0, fde_last_offset = 0, fde_current_pc = 0, fde_initial_state = initial_table,
          fde_state_stack = []\<rparr>))))))))))))))"

section \<open>Instructions\<close>

type_synonym fde_op = "fde \<Rightarrow> unwind_exn + fde"

text \<open>\<open>state()\<close> is the back of the stack, which has to exist.\<close>

definition state_of :: "fde \<Rightarrow> unwind_exn + table_state" where
  "state_of f = (case fde_state_stack f of [] \<Rightarrow> Inl Undefined_behaviour | s # ss \<Rightarrow> Inr s)"

definition set_state :: "table_state \<Rightarrow> fde \<Rightarrow> fde" where
  "set_state s f = f\<lparr>fde_state_stack := s # tl (fde_state_stack f)\<rparr>"

definition set_register :: "64 word \<Rightarrow> action \<Rightarrow> fde_op" where
  "set_register reg a f =
     ebind (state_of f) (\<lambda>s.
       if unat reg < length (ts_registers s)
       then Inr (set_state (s\<lparr>ts_registers := (ts_registers s)[unat reg := a]\<rparr>) f) else Inl Out_of_range)"

definition advance_raw :: "64 word \<Rightarrow> fde_op" where
  "advance_raw amount f = Inr (f\<lparr>fde_current_pc := fde_current_pc f + amount\<rparr>)"

definition advance_loc :: "64 word \<Rightarrow> fde_op" where
  "advance_loc amount f = advance_raw (amount * fde_code_alignment_factor f) f"

definition offset_op :: "64 word \<Rightarrow> 64 word \<Rightarrow> fde_op" where
  "offset_op reg off f =
     ebind (state_of f) (\<lambda>s.
       if of_nat (length (ts_registers s)) <s reg then Inr f
       else set_register reg (loadCfaOffset (off * fde_data_alignment_factor f)) f)"

definition restore_op :: "64 word \<Rightarrow> fde_op" where
  "restore_op reg f =
     ebind (state_of f) (\<lambda>s.
       if of_nat (length (ts_registers s)) <s reg then Inr f
       else if unat reg < length (ts_registers (fde_initial_state f))
            then set_register reg (ts_registers (fde_initial_state f) ! unat reg) f else Inl Out_of_range)"

definition def_cfa :: "64 word \<Rightarrow> 64 word \<Rightarrow> fde_op" where
  "def_cfa reg off f =
     ebind (state_of f) (\<lambda>s.
       Inr (set_state (s\<lparr>ts_cfa := regPlusData (ucast reg) off\<rparr>) (f\<lparr>fde_last_reg := reg, fde_last_offset := off\<rparr>)))"

definition def_cfa_register :: "64 word \<Rightarrow> fde_op" where
  "def_cfa_register reg f = def_cfa reg (fde_last_offset f) f"

definition def_cfa_offset :: "64 word \<Rightarrow> fde_op" where
  "def_cfa_offset off f = def_cfa (fde_last_reg f) off f"

definition remember_state :: fde_op where
  "remember_state f = ebind (state_of f) (\<lambda>s. Inr (f\<lparr>fde_state_stack := s # fde_state_stack f\<rparr>))"

definition restore_state :: fde_op where
  "restore_state f = ebind (state_of f) (\<lambda>s. Inr (f\<lparr>fde_state_stack := tl (fde_state_stack f)\<rparr>))"

definition undefined_op :: "64 word \<Rightarrow> fde_op" where
  "undefined_op reg = set_register reg act_undefined"

definition register_op :: "64 word \<Rightarrow> 64 word \<Rightarrow> fde_op" where
  "register_op reg rhs_reg = set_register reg (regPlusData (ucast reg) 0)"

definition set_cfa :: "action \<Rightarrow> fde_op" where
  "set_cfa a f = ebind (state_of f) (\<lambda>s. Inr (set_state (s\<lparr>ts_cfa := a\<rparr>) f))"

text \<open>The two expression instructions accept a base register with an addend only.\<close>

definition expression_tail :: "memory \<Rightarrow> 64 word \<Rightarrow> nat \<Rightarrow> fde_op rd" where
  "expression_tail mem reg end_ptr =
     bind_rd (read_u8 mem) (\<lambda>op.
       if op AND 0xF0 = 0x70
       then bind_rd (readSLEB128 mem) (\<lambda>addend L.
              if lx_next L = end_ptr then Inr (set_register reg (regPlusDataDeref (ucast (op AND 0xF)) addend), L)
              else Inl (Unwind_error ''Unsupported dwarf expression''))
       else throw_rd (Unwind_error ''Unsupported dwarf expression''))"

definition read_expression :: "memory \<Rightarrow> fde_op rd" where
  "read_expression mem =
     bind_rd (readULEB128 mem) (\<lambda>reg. bind_rd (readULEB128 mem) (\<lambda>len L.
       expression_tail mem reg ((lx_next L + unat len) mod 2 ^ 64) L))"

definition cfa_expression_end :: "memory \<Rightarrow> byte \<Rightarrow> 64 word \<Rightarrow> nat \<Rightarrow> fde_op rd" where
  "cfa_expression_end mem op addend end_ptr =
     bind_rd (read_u8 mem) (\<lambda>op2 L.
       if op2 = 0x06 \<and> lx_next L = end_ptr then Inr (set_cfa (regPlusDataDeref (ucast (op AND 0xF)) addend), L)
       else Inl (Unwind_error ''Unsupported def_cfa dwarf expression''))"

definition cfa_expression_tail :: "memory \<Rightarrow> nat \<Rightarrow> fde_op rd" where
  "cfa_expression_tail mem end_ptr =
     bind_rd (read_u8 mem) (\<lambda>op.
       if op AND 0xF0 = 0x70
       then bind_rd (readSLEB128 mem) (\<lambda>addend L.
              if lx_next L \<noteq> end_ptr then cfa_expression_end mem op addend end_ptr L
              else Inl (Unwind_error ''Unsupported def_cfa dwarf expression''))
       else throw_rd (Unwind_error ''Unsupported def_cfa dwarf expression''))"

definition read_def_cfa_expression :: "memory \<Rightarrow> fde_op rd" where
  "read_def_cfa_expression mem =
     bind_rd (readULEB128 mem) (\<lambda>len L. cfa_expression_tail mem ((lx_next L + unat len) mod 2 ^ 64) L)"

text \<open>The operation an instruction stands for; all of its operands are read before it is applied.\<close>

definition read_operation :: "memory \<Rightarrow> byte \<Rightarrow> fde_op rd" where
  "read_operation mem lowbits =
     (if lowbits = 0x00 then return_rd Inr
      else if lowbits = 0x02 then map_rd (\<lambda>d. advance_loc (ucast d)) (read_u8 mem)
      else if lowbits = 0x03 then map_rd advance_loc (read_u16 mem)
      else if lowbits = 0x04 then map_rd advance_loc (read_u32 mem)
      else if lowbits = 0x06 then map_rd restore_op (readULEB128 mem)
      else if lowbits = 0x07 then map_rd undefined_op (readULEB128 mem)
      else if lowbits = 0x09 then bind_rd (readULEB128 mem) (\<lambda>reg. map_rd (register_op reg) (readULEB128 mem))
      else if lowbits = 0x0C then bind_rd (readULEB128 mem) (\<lambda>reg. map_rd (def_cfa reg) (readULEB128 mem))
      else if lowbits = 0x0D then map_rd def_cfa_register (readULEB128 mem)
      else if lowbits = 0x0E then map_rd def_cfa_offset (readULEB128 mem)
      else if lowbits = 0x11 then bind_rd (readULEB128 mem) (\<lambda>reg. map_rd (offset_op reg) (readSLEB128 mem))
      else if lowbits = 0x0A then return_rd remember_state
      else if lowbits = 0x0B then return_rd restore_state
      else if lowbits = 0x2E then map_rd (\<lambda>_. Inr) (readULEB128 mem)
      else if lowbits = 0x10 then read_expression mem
      else if lowbits = 0x0F then read_def_cfa_expression mem
      else throw_rd (Unwind_error ''unknown op code''))"

definition read_instruction_op :: "memory \<Rightarrow> fde_op rd" where
  "read_instruction_op mem =
     bind_rd (read_u8 mem) (\<lambda>bc.
       let op = drop_bit 6 bc; lowbits = bc AND 0x3F
       in if op = 0 then read_operation mem lowbits
          else if op = 1 then return_rd (advance_loc (ucast lowbits))
          else if op = 2 then map_rd (offset_op (ucast lowbits)) (readULEB128 mem)
          else return_rd (restore_op (ucast lowbits)))"

definition readInstruction :: "memory \<Rightarrow> lexer \<Rightarrow> fde \<Rightarrow> unwind_exn + fde \<times> lexer" where
  "readInstruction mem L f =
     ebind (read_instruction_op mem L) (\<lambda>(g, L'). ebind (g f) (\<lambda>f'. Inr (f', L')))"

section \<open>Running a program\<close>

text \<open>A reader that succeeds leaves the lexer no earlier than it was.\<close>

definition forward_rd :: "'a rd \<Rightarrow> bool" where
  "forward_rd m \<longleftrightarrow> (\<forall>L x L'. m L = Inr (x, L') \<longrightarrow> lx_next L \<le> lx_next L')"

lemma forward_rdD: "forward_rd m \<Longrightarrow> m L = Inr (x, L') \<Longrightarrow> lx_next L \<le> lx_next L'"
  unfolding forward_rd_def by blast

lemma forward_bind:
  assumes "forward_rd m" "\<And>x. forward_rd (f x)"
  shows "forward_rd (bind_rd m f)"
  unfolding forward_rd_def
proof (intro allI impI)
  fix L x L' assume "bind_rd m f L = Inr (x, L')"
  then obtain y L1 where "m L = Inr (y, L1)" "f y L1 = Inr (x, L')"
    by (auto simp: bind_rd_def split: sum.splits)
  then show "lx_next L \<le> lx_next L'" using forward_rdD [OF assms(1)] forward_rdD [OF assms(2)] by (meson order_trans)
qed

lemma forward_simple: "forward_rd (return_rd x)" "forward_rd (throw_rd e)" "forward_rd (read_val mem)"
  by (auto simp: forward_rd_def return_rd_def throw_rd_def read_val_def Let_def split: if_splits option.splits)

lemma forward_map: "forward_rd m \<Longrightarrow> forward_rd (map_rd f m)"
  unfolding map_rd_def by (intro forward_bind forward_simple)

lemma forward_if: "forward_rd a \<Longrightarrow> forward_rd b \<Longrightarrow> forward_rd (if c then a else b)"
  by simp

lemma forward_ints: "forward_rd (read_u8 mem)" "forward_rd (read_u16 mem)" "forward_rd (read_u32 mem)" "forward_rd (read_u64 mem)"
  unfolding read_u8_def read_u16_def read_u32_def read_u64_def by (intro forward_map forward_simple)+

lemma forward_uleb_loop: "uleb_loop mem acc shift L = Inr (x, L') \<Longrightarrow> lx_next L \<le> lx_next L'"
proof (induction mem acc shift L rule: uleb_loop.induct)
  case (1 mem acc shift L)
  then obtain b L1 where b: "read_u8 mem L = Inr (b, L1)" by (auto simp: uleb_loop.simps [of mem acc shift L] split: sum.splits)
  note ih = 1(1) [OF b refl refl]
  have "lx_next L \<le> lx_next L1" using forward_rdD [OF forward_ints(1) b] .
  moreover have "lx_next L1 \<le> lx_next L'"
    using 1(2) ih b by (auto simp: uleb_loop.simps [of mem acc shift L] Let_def split: if_splits)
  ultimately show ?case by simp
qed

lemma forward_sleb_loop: "sleb_loop mem acc shift L = Inr (x, L') \<Longrightarrow> lx_next L \<le> lx_next L'"
proof (induction mem acc shift L rule: sleb_loop.induct)
  case (1 mem acc shift L)
  then obtain b L1 where b: "read_u8 mem L = Inr (b, L1)" by (auto simp: sleb_loop.simps [of mem acc shift L] split: sum.splits)
  note ih = 1(1) [OF b refl refl]
  have "lx_next L \<le> lx_next L1" using forward_rdD [OF forward_ints(1) b] .
  moreover have "lx_next L1 \<le> lx_next L'"
    using 1(2) ih b by (auto simp: sleb_loop.simps [of mem acc shift L] Let_def split: if_splits)
  ultimately show ?case by simp
qed

lemma forward_leb: "forward_rd (readULEB128 mem)" "forward_rd (readSLEB128 mem)"
proof -
  show "forward_rd (readULEB128 mem)" unfolding forward_rd_def readULEB128_def using forward_uleb_loop by blast
  have "forward_rd (sleb_loop mem 0 0)" unfolding forward_rd_def using forward_sleb_loop by blast
  then show "forward_rd (readSLEB128 mem)" unfolding readSLEB128_def by (rule forward_map)
qed

lemmas forward_intros = forward_bind forward_map forward_if forward_simple forward_ints forward_leb

lemma forward_depend: "(\<And>n. forward_rd (m n)) \<Longrightarrow> forward_rd (\<lambda>L. m (g (lx_next L)) L)"
  unfolding forward_rd_def by blast

lemma forward_guard: "forward_rd (\<lambda>L. if c L then Inr (g, L) else Inl e)"
  "forward_rd m \<Longrightarrow> forward_rd (\<lambda>L. if c L then m L else Inl e)"
  by (simp_all add: forward_rd_def)

lemma forward_expression: "forward_rd (read_expression mem)" "forward_rd (read_def_cfa_expression mem)"
proof -
  have t: "forward_rd (expression_tail mem reg n)" for reg n
    unfolding expression_tail_def by (intro forward_intros forward_guard(1))
  show "forward_rd (read_expression mem)"
    unfolding read_expression_def
  proof (intro forward_bind forward_leb)
    fix reg len :: "64 word"
    show "forward_rd (\<lambda>L. expression_tail mem reg ((lx_next L + unat len) mod 2 ^ 64) L)"
      by (rule forward_depend [of "expression_tail mem reg" "\<lambda>k. (k + unat len) mod 2 ^ 64"]) (rule t)
  qed
  have e: "forward_rd (cfa_expression_end mem op a n)" for op a n
    unfolding cfa_expression_end_def by (intro forward_intros forward_guard(1))
  have c: "forward_rd (cfa_expression_tail mem n)" for n
    unfolding cfa_expression_tail_def by (intro forward_intros forward_guard(2) e)
  show "forward_rd (read_def_cfa_expression mem)"
    unfolding read_def_cfa_expression_def
  proof (intro forward_bind forward_leb)
    fix len :: "64 word"
    show "forward_rd (\<lambda>L. cfa_expression_tail mem ((lx_next L + unat len) mod 2 ^ 64) L)"
      by (rule forward_depend [of "cfa_expression_tail mem" "\<lambda>k. (k + unat len) mod 2 ^ 64"]) (rule c)
  qed
qed

lemma forward_operation: "forward_rd (read_operation mem b)"
  unfolding read_operation_def by (intro forward_intros forward_expression)

lemma read_u8_advances: "read_u8 mem L = Inr (b, L') \<Longrightarrow> lx_next L' = Suc (lx_next L)"
  by (auto simp: read_u8_def read_val_def split: if_splits option.splits)

lemma readInstruction_advances:
  assumes "readInstruction mem L f = Inr (f', L')"
  shows "lx_next L < lx_next L'"
proof -
  obtain bc L1 where b: "read_u8 mem L = Inr (bc, L1)"
    using assms by (auto simp: readInstruction_def read_instruction_op_def ebind_def bind_rd_def split: sum.splits)
  let ?k = "\<lambda>bc. let op = drop_bit 6 bc; lowbits = bc AND 0x3F
       in if op = 0 then read_operation mem lowbits
          else if op = 1 then return_rd (advance_loc (ucast lowbits))
          else if op = 2 then map_rd (offset_op (ucast lowbits)) (readULEB128 mem)
          else return_rd (restore_op (ucast lowbits))"
  have k: "forward_rd (?k bc)" unfolding Let_def by (intro forward_intros forward_operation)
  obtain g where "?k bc L1 = Inr (g, L')"
    using assms b unfolding readInstruction_def read_instruction_op_def ebind_def bind_rd_def by (auto split: sum.splits)
  then have "lx_next L1 \<le> lx_next L'" by (rule forward_rdD [OF k])
  then show ?thesis using read_u8_advances [OF b] by simp
qed

text \<open>The loops of \<open>readUpTo\<close>: every instruction takes at least one byte, so they end.\<close>

function instruction_loop :: "memory \<Rightarrow> nat \<Rightarrow> 64 word \<Rightarrow> lexer \<Rightarrow> fde \<Rightarrow> unwind_exn + fde \<times> lexer" where
  "instruction_loop mem end_ptr addr L f =
     (if lx_next L < end_ptr \<and> fde_current_pc f \<le> addr
      then case readInstruction mem L f of
             Inl e \<Rightarrow> Inl e
           | Inr (f', L') \<Rightarrow> instruction_loop mem end_ptr addr L' f'
      else Inr (f, L))"
  by auto
termination
  by (relation "measure (\<lambda>(mem, end_ptr, addr, L, f). end_ptr - lx_next L)")
    (auto dest: readInstruction_advances)

declare instruction_loop.simps [simp del]

definition readUpTo :: "memory \<Rightarrow> 64 word \<Rightarrow> fde \<Rightarrow> unwind_exn + table_state \<times> fde" where
  "readUpTo mem addr f =
     (if addr < fde_low_pc f \<or> addr > fde_high_pc f then Inl (Unwind_error ''Address not in range'')
      else
        let f0 = f\<lparr>fde_state_stack := initial_table # fde_state_stack f, fde_current_pc := fde_low_pc f\<rparr> in
        ebind (instruction_loop mem (fde_cie_end f0) addr (Lexer (fde_cie_begin f0) 0) f0) (\<lambda>(f1, _).
        if fde_current_pc f1 > addr then ebind (state_of f1) (\<lambda>s. Inr (s, f1))
        else ebind (state_of f1) (\<lambda>s.
          let f2 = f1\<lparr>fde_initial_state := s\<rparr> in
          ebind (instruction_loop mem (fde_fde_end f2) addr (Lexer (fde_fde_begin f2) 0) f2) (\<lambda>(f3, _).
          ebind (if fde_current_pc f3 \<le> addr then advance_raw (addr - fde_current_pc f3) f3 else Inr f3) (\<lambda>f4.
          ebind (state_of f4) (\<lambda>s'. Inr (s', f4)))))))"

section \<open>The unwinder computes what the actions say\<close>

text \<open>The meaning of the actions in a frame: the canonical frame address and the saved registers.\<close>

definition reg_value :: "unwind_state \<Rightarrow> 32 word \<Rightarrow> 64 word" where
  "reg_value cur r = (if r = of_nat D_RSP then us_rsp cur else us_rbp cur)"

definition cfa_value :: "memory \<Rightarrow> unwind_state \<Rightarrow> action \<Rightarrow> unwind_exn + 64 word" where
  "cfa_value mem cur a =
     (let v = reg_value cur (act_reg a) + act_data a
      in if act_kind a = A_REG_PLUS_DATA_DEREF then load64 mem v else Inr v)"

definition saved_value :: "memory \<Rightarrow> unwind_state \<Rightarrow> 64 word \<Rightarrow> 64 word \<Rightarrow> action \<Rightarrow> unwind_exn + 64 word" where
  "saved_value mem cur cfa old a =
     (case act_kind a of
        A_UNDEFINED \<Rightarrow> Inr old
      | A_REG_PLUS_DATA \<Rightarrow> Inr (reg_value cur (act_reg a) + act_data a)
      | A_LOAD_CFA_OFFSET \<Rightarrow> load64 mem (cfa + act_data a)
      | A_REG_PLUS_DATA_DEREF \<Rightarrow> load64 mem (reg_value cur (act_reg a) + act_data a))"

definition frame_meaning :: "memory \<Rightarrow> action \<Rightarrow> action \<Rightarrow> action \<Rightarrow> unwind_state \<Rightarrow> unwind_exn + unwind_state" where
  "frame_meaning mem cfa rip rbp cur =
     ebind (cfa_value mem cur cfa) (\<lambda>c.
     ebind (saved_value mem cur c (us_rbp cur) rbp) (\<lambda>b.
     ebind (saved_value mem cur c (us_rip cur) rip) (\<lambda>i.
     Inr \<lparr>us_rip = i, us_rbp = b, us_rsp = c\<rparr>)))"

lemma load64_error: "load64 mem a = Inl e \<Longrightarrow> e = Fault"
  by (auto simp: load64_def split: option.splits)

text \<open>
  C22: an unwinder that could be built from the actions of a frame computes exactly what these
  actions mean, faults included, provided the frame has a return address and no saved-register
  offset collides with the value that marks the absence of one.
\<close>

theorem unwinder_matches_actions:
  assumes "make_unwinder cfa rip rbp = Inr u" "act_kind rip \<noteq> A_UNDEFINED"
    and "act_kind rbp = A_UNDEFINED \<or> uw_rbp_off u \<noteq> INT64_MAX"
  shows "\<not> terminator u \<and> run_unwinder mem u cur = frame_meaning mem cfa rip rbp cur"
proof -
  have rip: "act_kind rip = A_LOAD_CFA_OFFSET" and cfa: "act_kind cfa = A_REG_PLUS_DATA \<or> act_kind cfa = A_REG_PLUS_DATA_DEREF"
    using assms(1,2) by (auto simp: make_unwinder_def Let_def ebind_def check_def split: if_splits)
  have t: "\<not> terminator u"
    using assms(1,2) by (auto simp: make_unwinder_def Let_def ebind_def check_def terminator_def split: if_splits)
  let ?v = "reg_value cur (act_reg cfa) + act_data cfa"
  from cfa show ?thesis
  proof
    assume k: "act_kind cfa = A_REG_PLUS_DATA"
    then have u: "uw_reg u = act_reg cfa" "uw_off u = act_data cfa" "uw_rip_off u = act_data rip" "\<not> uw_deref u"
        "uw_rbp_off u = (if act_kind rbp = A_UNDEFINED then INT64_MAX else act_data rbp)"
        "act_kind rbp = A_LOAD_CFA_OFFSET \<or> act_kind rbp = A_UNDEFINED"
      using assms(1) by (auto simp: make_unwinder_def Let_def ebind_def check_def split: if_splits)
    show ?thesis
      using t u k rip assms(3)
      by (auto simp: run_unwinder_def frame_meaning_def cfa_value_def saved_value_def reg_value_def Let_def ebind_def)
  next
    assume k: "act_kind cfa = A_REG_PLUS_DATA_DEREF"
    then have u: "uw_reg u = act_reg cfa" "uw_off u = act_data cfa" "uw_rip_off u = act_data rip" "uw_deref u"
        "act_kind rbp = A_REG_PLUS_DATA_DEREF \<and> act_reg rbp = act_reg cfa \<and> uw_rbp_off u = act_data rbp - act_data cfa \<or>
         act_kind rbp = A_UNDEFINED \<and> uw_rbp_off u = INT64_MAX"
      using assms(1) by (auto simp: make_unwinder_def Let_def ebind_def check_def split: if_splits)
    have off: "?v + (act_data rbp - act_data cfa) = reg_value cur (act_reg cfa) + act_data rbp" by simp
    from u(5) show ?thesis
    proof
      assume r: "act_kind rbp = A_REG_PLUS_DATA_DEREF \<and> act_reg rbp = act_reg cfa \<and> uw_rbp_off u = act_data rbp - act_data cfa"
      have ne: "uw_rbp_off u \<noteq> INT64_MAX" using assms(3) r by simp
      have e: "run_unwinder mem u cur = ebind (load64 mem (reg_value cur (act_reg cfa) + act_data rbp)) (\<lambda>rbp.
         ebind (load64 mem ?v) (\<lambda>rsp. ebind (load64 mem (rsp + act_data rip)) (\<lambda>rip.
         Inr \<lparr>us_rip = rip, us_rbp = rbp, us_rsp = rsp\<rparr>)))"
        using u(1-4) r ne off by (simp add: run_unwinder_def Let_def reg_value_def)
      show ?thesis
        unfolding e using t k r rip
        by (auto simp: frame_meaning_def cfa_value_def saved_value_def ebind_def Let_def split: sum.splits dest!: load64_error)
    next
      assume "act_kind rbp = A_UNDEFINED \<and> uw_rbp_off u = INT64_MAX"
      then show ?thesis
        using t u k rip
        by (auto simp: run_unwinder_def frame_meaning_def cfa_value_def saved_value_def reg_value_def Let_def ebind_def)
    qed
  qed
qed

definition demo_stack :: memory where
  "demo_stack = memory_of 0x1000 [0x11, 0x11, 0x11, 0x11, 0x11, 0x11, 0x11, 0x11, 0x34, 0x12, 0, 0, 0, 0, 0, 0]"

theorem unwinder_matches_actions_witness:
  "\<exists>u. make_unwinder (regPlusData 7 16) (loadCfaOffset (- 8)) (loadCfaOffset (- 16)) = Inr u \<and>
     run_unwinder demo_stack u \<lparr>us_rip = 5, us_rbp = 6, us_rsp = 0x1000\<rparr> =
       Inr \<lparr>us_rip = 0x1234, us_rbp = 0x1111111111111111, us_rsp = 0x1010\<rparr>"
proof -
  let ?c = "regPlusData 7 16" and ?i = "loadCfaOffset (- 8)" and ?b = "loadCfaOffset (- 16)"
  let ?s = "\<lparr>us_rip = 5, us_rbp = 6, us_rsp = 0x1000\<rparr> :: unwind_state"
  define u where "u = \<lparr>uw_kind = STANDARD, uw_reg = 7, uw_off = 16, uw_rip_off = - 8, uw_rbp_off = - 16, uw_deref = False\<rparr>"
  have m: "make_unwinder ?c ?i ?b = Inr u"
    by (simp add: make_unwinder_def u_def ebind_def check_def regPlusData_def loadCfaOffset_def D_RSP_def)
  have "frame_meaning demo_stack ?c ?i ?b ?s = Inr \<lparr>us_rip = 0x1234, us_rbp = 0x1111111111111111, us_rsp = 0x1010\<rparr>"
  proof -
    have e8: "(8::nat) = Suc (Suc (Suc (Suc (Suc (Suc (Suc (Suc 0)))))))" by simp
    show ?thesis
      by (simp add: frame_meaning_def cfa_value_def saved_value_def reg_value_def regPlusData_def loadCfaOffset_def ebind_def
          load64_def [unfolded e8] demo_stack_def memory_of_def mem_byte_def D_RSP_def)
  qed
  moreover have "act_kind ?i \<noteq> A_UNDEFINED" "uw_rbp_off u \<noteq> INT64_MAX"
    by (simp_all add: loadCfaOffset_def u_def INT64_MAX_def)
  ultimately show ?thesis using unwinder_matches_actions [OF m, of demo_stack ?s] m by auto
qed

end
