(* ===== verification/Dwarf_Instructions.thy ===== *)
theory Dwarf_Instructions
  imports Dwarf_Frame
begin

unbundle bit_operations_syntax

text \<open>
  The instruction reader of \<open>fde.h\<close> against the instruction set of the DWARF standard: the encodings
  of the call frame instructions, what they mean, and that \<open>readInstruction\<close> and the loop of
  \<open>readUpTo\<close> execute an encoded program accordingly.
\<close>

section \<open>The instruction set\<close>

text \<open>The call frame instructions of the standard with their encodings and their effects.\<close>

datatype cfa_instr =
  Nop
| Advance nat
| Advance1 byte
| Advance2 "16 word"
| Advance4 "32 word"
| Offset nat "64 word"
| Offset_extended_sf "64 word" "64 word"
| Restore nat
| Restore_extended "64 word"
| Undefined "64 word"
| Register "64 word" "64 word"
| Def_cfa "64 word" "64 word"
| Def_cfa_register "64 word"
| Def_cfa_offset "64 word"
| Remember_state
| Restore_state
| GNU_args_size "64 word"
| Expression "64 word" nat "64 word"
| Def_cfa_expression nat "64 word"

fun le_bytes :: "nat \<Rightarrow> nat \<Rightarrow> byte list" where
  "le_bytes 0 v = []"
| "le_bytes (Suc n) v = word_of_nat (v mod 256) # le_bytes n (v div 256)"

abbreviation uleb :: "64 word \<Rightarrow> byte list" where "uleb u \<equiv> uleb_bytes (unat u)"
abbreviation sleb :: "64 word \<Rightarrow> byte list" where "sleb s \<equiv> sleb_bytes (sint s)"

fun encode_instr :: "cfa_instr \<Rightarrow> byte list" where
  "encode_instr Nop = [0x00]"
| "encode_instr (Advance d) = [word_of_nat (0x40 + d)]"
| "encode_instr (Advance1 d) = [0x02, d]"
| "encode_instr (Advance2 d) = 0x03 # le_bytes 2 (unat d)"
| "encode_instr (Advance4 d) = 0x04 # le_bytes 4 (unat d)"
| "encode_instr (Offset r v) = word_of_nat (0x80 + r) # uleb v"
| "encode_instr (Offset_extended_sf r v) = 0x11 # uleb r @ sleb v"
| "encode_instr (Restore r) = [word_of_nat (0xC0 + r)]"
| "encode_instr (Restore_extended r) = 0x06 # uleb r"
| "encode_instr (Undefined r) = 0x07 # uleb r"
| "encode_instr (Register r r') = 0x09 # uleb r @ uleb r'"
| "encode_instr (Def_cfa r v) = 0x0C # uleb r @ uleb v"
| "encode_instr (Def_cfa_register r) = 0x0D # uleb r"
| "encode_instr (Def_cfa_offset v) = 0x0E # uleb v"
| "encode_instr Remember_state = [0x0A]"
| "encode_instr Restore_state = [0x0B]"
| "encode_instr (GNU_args_size v) = 0x2E # uleb v"
| "encode_instr (Expression r b v) = 0x10 # uleb r @ uleb (word_of_nat (1 + length (sleb v))) @ word_of_nat (0x70 + b) # sleb v"
| "encode_instr (Def_cfa_expression b v) = 0x0F # uleb (word_of_nat (2 + length (sleb v))) @ word_of_nat (0x70 + b) # sleb v @ [0x06]"

definition instr_ok :: "cfa_instr \<Rightarrow> bool" where
  "instr_ok i =
     (case i of Advance d \<Rightarrow> d < 64 | Offset r v \<Rightarrow> r < 64 | Restore r \<Rightarrow> r < 64
      | Expression r b v \<Rightarrow> b < 16 | Def_cfa_expression b v \<Rightarrow> b < 16 | _ \<Rightarrow> True)"

fun instr_step :: "cfa_instr \<Rightarrow> fde_op" where
  "instr_step Nop = Inr"
| "instr_step (Advance d) = advance_loc (word_of_nat d)"
| "instr_step (Advance1 d) = advance_loc (ucast d)"
| "instr_step (Advance2 d) = advance_loc (ucast d)"
| "instr_step (Advance4 d) = advance_loc (ucast d)"
| "instr_step (Offset r v) = offset_op (word_of_nat r) v"
| "instr_step (Offset_extended_sf r v) = offset_op r v"
| "instr_step (Restore r) = restore_op (word_of_nat r)"
| "instr_step (Restore_extended r) = restore_op r"
| "instr_step (Undefined r) = undefined_op r"
| "instr_step (Register r r') = register_op r r'"
| "instr_step (Def_cfa r v) = def_cfa r v"
| "instr_step (Def_cfa_register r) = def_cfa_register r"
| "instr_step (Def_cfa_offset v) = def_cfa_offset v"
| "instr_step Remember_state = remember_state"
| "instr_step Restore_state = restore_state"
| "instr_step (GNU_args_size v) = Inr"
| "instr_step (Expression r b v) = set_register r (regPlusDataDeref (word_of_nat b) v)"
| "instr_step (Def_cfa_expression b v) = set_cfa (regPlusDataDeref (word_of_nat b) v)"

definition holds :: "memory \<Rightarrow> lexer \<Rightarrow> byte list \<Rightarrow> bool" where
  "holds mem L bs \<longleftrightarrow> bytes_at mem (lx_next L) (length bs) = Some bs \<and> room L (length bs)"

lemma bytes_at_append:
  "bytes_at mem a (length xs + n) = Some (xs @ ys) \<longleftrightarrow>
     bytes_at mem a (length xs) = Some xs \<and> bytes_at mem (a + length xs) n = Some ys"
  by (induction xs arbitrary: a) (auto split: option.splits)

lemma holds_append: "holds mem L (xs @ ys) \<Longrightarrow> holds mem L xs \<and> holds mem (advance (length xs) L) ys"
  by (auto simp: holds_def bytes_at_append room_def)

lemma holds_u8:
  assumes "holds mem L (b # bs)"
  shows "read_u8 mem L = Inr (b, advance 1 L)" "holds mem (advance 1 L) bs"
  using assms read_u8_cons [of mem L "length bs" b bs] by (simp_all add: holds_def)

lemma holds_uleb: "holds mem L (uleb u) \<Longrightarrow> readULEB128 mem L = Inr (u, advance (length (uleb u)) L)"
  by (simp add: holds_def uleb_read)

lemma holds_sleb: "holds mem L (sleb u) \<Longrightarrow> readSLEB128 mem L = Inr (u, advance (length (sleb u)) L)"
  by (simp add: holds_def sleb_read)

lemma le_nat_bytes: "le_nat (le_bytes n v) = v mod 256 ^ n" "length (le_bytes n v) = n"
  by (induction n arbitrary: v) (simp_all add: unat_of_nat mod_mult2_eq)

lemma holds_le:
  assumes "holds mem L (le_bytes n (unat (d :: 'a::len word)))" "n * 8 = LENGTH('a)"
  shows "read_val mem L = Inr (d, advance n L)"
proof -
  have "(256 :: nat) ^ n = (2 ^ 8) ^ n" by simp
  also have "\<dots> = 2 ^ (n * 8)" by (simp only: power_mult [symmetric] mult.commute)
  finally have "(256 :: nat) ^ n = 2 ^ LENGTH('a)" using assms(2) by simp
  then have "unat d mod 256 ^ n = unat d" using unsigned_less [of d] by simp
  moreover have "LENGTH('a) div 8 = n" unfolding assms(2) [symmetric] by simp
  ultimately show ?thesis
    using assms(1) by (auto simp: holds_def le_nat_bytes read_val_def room_def)
qed

lemma byte_parts:
  assumes "d < 64" "k < 4" "b = (word_of_nat (64 * k + d) :: byte)"
  shows "drop_bit 6 b = word_of_nat k" "ucast (b AND 0x3F) = (word_of_nat d :: 64 word)"
proof -
  have u: "unat b = 64 * k + d" using assms unfolding assms(3) unat_of_nat by simp
  have "unat (drop_bit 6 b) = k" unfolding unsigned_drop_bit_eq using u assms(1,2) by (simp add: drop_bit_eq_div take_bit_eq_mod)
  then show "drop_bit 6 b = word_of_nat k" by (simp add: word_unat_eq_iff unat_of_nat) (use assms(2) in simp)
  have "unat (b AND 0x3F) = unat b mod 64"
    using take_bit_eq_mask [of 6 "unat b"] by (simp add: unsigned_and_eq take_bit_eq_mod mask_eq_exp_minus_1)
  then have "unat (b AND 0x3F) = d" using u assms(1) by simp
  then show "ucast (b AND 0x3F) = (word_of_nat d :: 64 word)"
    using assms(1) by (simp add: word_unat_eq_iff unsigned_ucast_eq take_bit_eq_mod unat_of_nat)
qed

lemma breg_parts:
  assumes "r < 16" "b = (word_of_nat (0x70 + r) :: byte)"
  shows "b AND 0xF0 = 0x70" "ucast (b AND 0xF) = (word_of_nat r :: 32 word)"
proof -
  have u: "unat b = 0x70 + r" using assms(1) unfolding assms(2) unat_of_nat by simp
  have "(0x70 + r) mod 16 = r" using assms(1) by presburger
  then have m: "unat (b AND 0xF) = r"
    using take_bit_eq_mask [of 4 "unat b"] u by (simp add: unsigned_and_eq take_bit_eq_mod mask_eq_exp_minus_1)
  then show "ucast (b AND 0xF) = (word_of_nat r :: 32 word)"
    using assms(1) by (simp add: word_unat_eq_iff unsigned_ucast_eq take_bit_eq_mod unat_of_nat)
  have low: "b AND 0xF = word_of_nat r" using m assms(1) by (simp add: word_unat_eq_iff unat_of_nat)
  have "(b AND 0xF0) AND (b AND 0xF) = b AND (0xF0 AND 0xF)" by (simp only: ac_simps) simp
  then have "(b AND 0xF0) + (b AND 0xF) = (b AND 0xF0) OR (b AND 0xF)" by (intro disjunctive_add_eq_or) simp
  also have "\<dots> = b AND (0xF0 OR 0xF)" by (simp only: bit.conj_disj_distrib)
  also have "(0xF0 OR 0xF :: byte) = - 1" by simp
  finally show "b AND 0xF0 = 0x70" using low assms(2) by simp
qed

lemmas rd_defs = bind_rd_def map_rd_def return_rd_def throw_rd_def

text \<open>An instruction of the short form: two bits of operation, six bits of operand.\<close>

lemma read_short:
  assumes "holds mem L (b # bs)" "b = (word_of_nat (64 * k + d) :: byte)" "d < 64" "0 < k" "k < 4"
  shows "read_instruction_op mem L =
    (if k = 1 then Inr (advance_loc (word_of_nat d), advance 1 L)
     else if k = 2 then map_rd (offset_op (word_of_nat d)) (readULEB128 mem) (advance 1 L)
     else Inr (restore_op (word_of_nat d), advance 1 L))"
proof -
  note p = byte_parts [OF assms(3,5,2)]
  have "drop_bit 6 b = 1 \<longleftrightarrow> k = 1" "drop_bit 6 b = 2 \<longleftrightarrow> k = 2" "drop_bit 6 b \<noteq> 0"
    unfolding p(1) using assms(4,5) by (auto simp: word_unat_eq_iff unat_of_nat)
  then show ?thesis using holds_u8(1) [OF assms(1)]
    by (simp add: read_instruction_op_def bind_rd_def return_rd_def p(2) Let_def)
qed

lemma read_long:
  assumes "holds mem L (b # bs)" "unat b < 64"
  shows "read_instruction_op mem L = read_operation mem b (advance 1 L)" "holds mem (advance 1 L) bs"
proof -
  have "b = word_of_nat (64 * 0 + unat b)" by simp
  note p = byte_parts [OF assms(2) _ this]
  have u: "unat (b AND 0x3F) = unat b mod 64"
    using take_bit_eq_mask [of 6 "unat b"] by (simp add: unsigned_and_eq take_bit_eq_mod mask_eq_exp_minus_1)
  have "b AND 0x3F = b" using u assms(2) by (simp add: word_unat_eq_iff)
  then show "read_instruction_op mem L = read_operation mem b (advance 1 L)"
    using holds_u8(1) [OF assms(1)] p(1) by (simp add: read_instruction_op_def bind_rd_def Let_def)
  show "holds mem (advance 1 L) bs" by (rule holds_u8(2) [OF assms(1)])
qed

lemma read_uleb_op:
  assumes "holds mem L (b # uleb u)" "unat b < 64" "read_operation mem b = map_rd g (readULEB128 mem)"
  shows "read_instruction_op mem L = Inr (g u, advance (length (b # uleb u)) L)"
  using read_long [OF assms(1,2)] assms(3) holds_uleb by (simp add: rd_defs)

lemma read_two_uleb_op:
  assumes "holds mem L (b # uleb u @ uleb v)" "unat b < 64"
    "read_operation mem b = bind_rd (readULEB128 mem) (\<lambda>x. map_rd (g x) (readULEB128 mem))"
  shows "read_instruction_op mem L = Inr (g u v, advance (length (b # uleb u @ uleb v)) L)"
proof -
  note l = read_long [OF assms(1,2)] and h = holds_append [OF read_long(2) [OF assms(1,2)]]
  show ?thesis using l h assms(3) holds_uleb [OF conjunct1 [OF h]] holds_uleb [OF conjunct2 [OF h]]
    by (simp add: rd_defs add.assoc)
qed

lemma read_le_op:
  assumes "holds mem L (b # le_bytes n (unat (d :: 'a::len word)))" "n * 8 = LENGTH('a)" "unat b < 64"
    "read_operation mem b = map_rd g (map_rd ucast (read_val mem :: 'a word rd))"
  shows "read_instruction_op mem L = Inr (g (ucast d), advance (Suc n) L)"
  using read_long [OF assms(1,3)] assms(4) holds_le [OF _ assms(2)] by (simp add: rd_defs)

lemma sleb_length: "0 < length (sleb v)" "length (sleb v) \<le> 10"
proof -
  show "0 < length (sleb v)" by (subst sleb_bytes.simps) simp
  have len: "length (sleb_bytes x) \<le> Suc k" if "- (64 * 128 ^ k) \<le> x" "x < 64 * 128 ^ k" for x k
    using that
  proof (induction k arbitrary: x)
    case 0
    then show ?case by (subst sleb_bytes.simps) simp
  next
    case (Suc k)
    have "- m \<le> x div 128" "x div 128 < m" if "- (128 * m) \<le> x" "x < 128 * m" for m :: int
    proof -
      have "128 * (x div 128) + x mod 128 = x" "0 \<le> x mod 128" "x mod 128 < 128" by simp_all
      then show "- m \<le> x div 128" "x div 128 < m" using that by linarith+
    qed
    from this [of "64 * 128 ^ k"] have "- (64 * 128 ^ k) \<le> x div 128" "x div 128 < 64 * 128 ^ k" using Suc.prems by simp_all
    then show ?case using Suc.IH [of "x div 128"] by (subst sleb_bytes.simps) simp
  qed
  have "- (2 ^ 63) \<le> sint v" "sint v < 2 ^ 63" using sint_greater_eq [of v] sint_less [of v] by simp_all
  then show "length (sleb v) \<le> 10" using len [of 9 "sint v"] by simp
qed

lemma read_expression_op:
  assumes h: "holds mem L (0x10 # uleb r @ uleb (word_of_nat (1 + length (sleb v))) @ word_of_nat (0x70 + b) # sleb v)"
    and b: "b < 16" and room: "lx_next L + length (encode_instr (Expression r b v)) < 2 ^ 64"
  shows "read_instruction_op mem L = Inr (instr_step (Expression r b v), advance (length (encode_instr (Expression r b v))) L)"
proof -
  define n :: "64 word" where "n = word_of_nat (1 + length (sleb v))"
  define c :: byte where "c = word_of_nat (0x70 + b)"
  have len: "length (encode_instr (Expression r b v)) = Suc (length (uleb r) + length (uleb n) + Suc (length (sleb v)))"
    by (simp add: n_def)
  have n: "unat n = 1 + length (sleb v)" using sleb_length(2) [of v] unfolding n_def unat_of_nat by simp
  note bp = breg_parts [OF b c_def]
  note l = read_long [OF h [folded n_def c_def]]
  let ?L1 = "advance 1 L"
  let ?L2 = "advance (length (uleb r)) ?L1" and ?L3 = "advance (length (uleb n)) (advance (length (uleb r)) ?L1)"
  have h1: "holds mem ?L1 (uleb r)" "holds mem ?L2 (uleb n @ c # sleb v)" using holds_append l(2) by fastforce+
  have h2: "holds mem ?L2 (uleb n)" "holds mem ?L3 (c # sleb v)" using holds_append [OF h1(2)] by simp_all
  note h3 = holds_u8 [OF h2(2)]
  have "(lx_next ?L3 + unat n) mod 2 ^ 64 = lx_next ?L3 + (1 + length (sleb v))"
    using room unfolding len by (simp add: n)
  then show ?thesis
    unfolding len using l(1) holds_uleb [OF h1(1)] holds_uleb [OF h2(1)] h3(1) holds_sleb [OF h3(2)] bp
    by (simp add: read_operation_def read_expression_def expression_tail_def rd_defs add.assoc)
qed

lemma read_cfa_expression_op:
  assumes h: "holds mem L (0x0F # uleb (word_of_nat (2 + length (sleb v))) @ word_of_nat (0x70 + b) # sleb v @ [0x06])"
    and b: "b < 16" and room: "lx_next L + length (encode_instr (Def_cfa_expression b v)) < 2 ^ 64"
  shows "read_instruction_op mem L = Inr (instr_step (Def_cfa_expression b v), advance (length (encode_instr (Def_cfa_expression b v))) L)"
proof -
  define n :: "64 word" where "n = word_of_nat (2 + length (sleb v))"
  define c :: byte where "c = word_of_nat (0x70 + b)"
  have len: "length (encode_instr (Def_cfa_expression b v)) = Suc (length (uleb n) + Suc (length (sleb v) + 1))"
    by (simp add: n_def)
  have n: "unat n = 2 + length (sleb v)" using sleb_length(2) [of v] unfolding n_def unat_of_nat by simp
  note bp = breg_parts [OF b c_def]
  note l = read_long [OF h [folded n_def c_def]]
  let ?L1 = "advance 1 L"
  let ?L2 = "advance (length (uleb n)) ?L1"
  have h1: "holds mem ?L1 (uleb n)" "holds mem ?L2 (c # sleb v @ [0x06])" using holds_append l(2) by fastforce+
  note h2 = holds_u8 [OF h1(2)]
  let ?L3 = "advance 1 ?L2"
  have h3: "holds mem ?L3 (sleb v)" "holds mem (advance (length (sleb v)) ?L3) [0x06]" using holds_append [OF h2(2)] by simp_all
  note h4 = holds_u8(1) [OF h3(2)]
  have e: "(lx_next ?L2 + unat n) mod 2 ^ 64 = lx_next ?L2 + (2 + length (sleb v))"
    using room unfolding len by (simp add: n)
  have tail: "cfa_expression_tail mem (lx_next ?L2 + (2 + length (sleb v))) ?L2 =
      Inr (set_cfa (regPlusDataDeref (word_of_nat b) v), advance 1 (advance (length (sleb v)) ?L3))"
    using h2(1) holds_sleb [OF h3(1)] h4 bp
    by (simp add: cfa_expression_tail_def cfa_expression_end_def rd_defs)
  have "read_instruction_op mem L = cfa_expression_tail mem ((lx_next ?L2 + unat n) mod 2 ^ 64) ?L2"
    using l(1) holds_uleb [OF h1(1)] by (simp add: read_operation_def read_def_cfa_expression_def rd_defs)
  then show ?thesis unfolding e tail len by simp
qed

lemma read_offset_sf_op:
  assumes "holds mem L (0x11 # uleb u @ sleb v)"
  shows "read_instruction_op mem L = Inr (offset_op u v, advance (length (0x11 # uleb u @ sleb v)) L)"
proof -
  note l = read_long [OF assms] and h = holds_append [OF read_long(2) [OF assms]]
  show ?thesis using l h holds_uleb [OF conjunct1 [OF h]] holds_sleb [OF conjunct2 [OF h]]
    by (simp add: read_operation_def rd_defs add.assoc)
qed

lemma read_plain_op:
  assumes "holds mem L (b # bs)" "unat b < 64" "read_operation mem b = return_rd g"
  shows "read_instruction_op mem L = Inr (g, advance 1 L)"
  using read_long [OF assms(1,2)] assms(3) by (simp add: return_rd_def)

lemma read_encoded_instr:
  assumes "instr_ok i" "holds mem L (encode_instr i)" "lx_next L + length (encode_instr i) < 2 ^ 64"
  shows "read_instruction_op mem L = Inr (instr_step i, advance (length (encode_instr i)) L)"
proof (cases i)
  case Nop
  then show ?thesis using read_plain_op [of mem L 0 "[]" Inr] assms(2) by (simp add: read_operation_def)
next
  case (Advance d)
  then show ?thesis using read_short [of mem L "word_of_nat (64 * 1 + d)" "[]" 1 d] assms by (simp add: instr_ok_def)
next
  case (Advance1 d)
  then have "holds mem L (2 # [d])" using assms(2) by simp
  from read_long [OF this] holds_u8(1) [OF holds_u8(2) [OF this]] show ?thesis
    using Advance1 by (simp add: read_operation_def rd_defs)
next
  case (Advance2 d)
  then show ?thesis using read_le_op [of mem L 3 2 d advance_loc] assms(2)
    by (simp add: read_operation_def read_u16_def le_nat_bytes)
next
  case (Advance4 d)
  then show ?thesis using read_le_op [of mem L 4 4 d advance_loc] assms(2)
    by (simp add: read_operation_def read_u32_def le_nat_bytes)
next
  case (Offset r v)
  then have h: "holds mem L (word_of_nat (64 * 2 + r) # uleb v)" "r < 64" using assms by (simp_all add: instr_ok_def)
  show ?thesis using read_short [OF h(1) refl h(2)] holds_uleb [OF holds_u8(2) [OF h(1)]] Offset by (simp add: rd_defs)
next
  case (Offset_extended_sf r v)
  then show ?thesis using read_offset_sf_op assms(2) by simp
next
  case (Restore r)
  then show ?thesis using read_short [of mem L "word_of_nat (64 * 3 + r)" "[]" 3 r] assms by (simp add: instr_ok_def)
next
  case (Restore_extended r)
  then show ?thesis using read_uleb_op [of mem L 6 r restore_op] assms(2) by (simp add: read_operation_def)
next
  case (Undefined r)
  then show ?thesis using read_uleb_op [of mem L 7 r undefined_op] assms(2) by (simp add: read_operation_def)
next
  case (Register r r')
  then show ?thesis using read_two_uleb_op [of mem L 9 r r' register_op] assms(2) by (simp add: read_operation_def)
next
  case (Def_cfa r v)
  then show ?thesis using read_two_uleb_op [of mem L "0x0C" r v def_cfa] assms(2) by (simp add: read_operation_def)
next
  case (Def_cfa_register r)
  then show ?thesis using read_uleb_op [of mem L "0x0D" r def_cfa_register] assms(2) by (simp add: read_operation_def)
next
  case (Def_cfa_offset v)
  then show ?thesis using read_uleb_op [of mem L "0x0E" v def_cfa_offset] assms(2) by (simp add: read_operation_def)
next
  case Remember_state
  then show ?thesis using read_plain_op [of mem L "0x0A" "[]" remember_state] assms(2) by (simp add: read_operation_def)
next
  case Restore_state
  then show ?thesis using read_plain_op [of mem L "0x0B" "[]" restore_state] assms(2) by (simp add: read_operation_def)
next
  case (GNU_args_size v)
  then show ?thesis using read_uleb_op [of mem L "0x2E" v "\<lambda>_. Inr"] assms(2) by (simp add: read_operation_def)
next
  case (Expression r b v)
  then show ?thesis using read_expression_op [of mem L r v b] assms by (simp add: instr_ok_def)
next
  case (Def_cfa_expression b v)
  then show ?thesis using read_cfa_expression_op assms by (simp add: instr_ok_def)
qed

section \<open>Programs\<close>

text \<open>
  Running a program up to an address: instructions are executed as long as the location counter
  has not passed the address.
\<close>

fun run_program :: "64 word \<Rightarrow> cfa_instr list \<Rightarrow> fde_op" where
  "run_program addr [] f = Inr f"
| "run_program addr (i # is) f =
     (if fde_current_pc f \<le> addr then ebind (instr_step i f) (run_program addr is) else Inr f)"

lemma encode_instr_nonempty: "encode_instr i \<noteq> []"
  by (cases i) simp_all

text \<open>
  C23: on the encoding of a call frame program the loop of \<open>readUpTo\<close> executes exactly the
  instructions of the standard, in order, until the location counter passes the address; what an
  instruction throws is thrown.
\<close>

theorem cfa_loop_refines_program:
  assumes "list_all instr_ok is" "holds mem L (concat (map encode_instr is))"
    and "end_ptr = lx_next L + length (concat (map encode_instr is))" "end_ptr < 2 ^ 64"
  shows "map_sum id fst (instruction_loop mem end_ptr addr L f) = run_program addr is f"
  using assms
proof (induction "is" arbitrary: L f)
  case Nil
  then show ?case by (subst instruction_loop.simps) simp
next
  case (Cons i "is")
  have h: "holds mem L (encode_instr i)" "holds mem (advance (length (encode_instr i)) L) (concat (map encode_instr is))"
    using holds_append [of mem L "encode_instr i"] Cons.prems(2) by simp_all
  have r: "read_instruction_op mem L = Inr (instr_step i, advance (length (encode_instr i)) L)"
    using read_encoded_instr [OF _ h(1)] Cons.prems(1,3,4) by simp
  have lt: "lx_next L < end_ptr" using Cons.prems(3) encode_instr_nonempty [of i] by simp
  show ?case
  proof (cases "fde_current_pc f \<le> addr")
    case False
    then show ?thesis by (subst instruction_loop.simps) simp
  next
    case True
    show ?thesis
    proof (cases "instr_step i f")
      case (Inl e)
      then show ?thesis using True lt r by (subst instruction_loop.simps) (simp add: readInstruction_def ebind_def)
    next
      case (Inr f')
      have "map_sum id fst (instruction_loop mem end_ptr addr (advance (length (encode_instr i)) L) f') = run_program addr is f'"
        by (rule Cons.IH) (use Cons.prems h in \<open>simp_all add: add.assoc\<close>)
      then show ?thesis using True lt r Inr by (subst instruction_loop.simps) (simp add: readInstruction_def ebind_def)
    qed
  qed
qed

section \<open>The shape of the register table\<close>

definition table_shape :: "table_state \<Rightarrow> bool" where
  "table_shape s \<longleftrightarrow> length (ts_registers s) = D_REG_SIZE"

definition fde_shape :: "fde \<Rightarrow> bool" where
  "fde_shape f \<longleftrightarrow> list_all table_shape (fde_state_stack f) \<and> table_shape (fde_initial_state f)"

definition keeps_shape :: "fde_op \<Rightarrow> bool" where
  "keeps_shape g \<longleftrightarrow> (\<forall>f f'. fde_shape f \<longrightarrow> g f = Inr f' \<longrightarrow> fde_shape f')"

lemma state_of_shape: "fde_shape f \<Longrightarrow> state_of f = Inr s \<Longrightarrow> table_shape s \<and> fde_state_stack f \<noteq> []"
  by (auto simp: state_of_def fde_shape_def split: list.splits)

lemma set_state_shape: "fde_shape f \<Longrightarrow> table_shape s \<Longrightarrow> fde_shape (set_state s f)"
  by (cases "fde_state_stack f") (auto simp: fde_shape_def set_state_def)

lemma keeps_shape_ops:
  "keeps_shape (set_register reg a)" "keeps_shape (advance_loc n)" "keeps_shape (offset_op reg off)"
  "keeps_shape (restore_op reg)" "keeps_shape (def_cfa reg off)" "keeps_shape (def_cfa_register reg)"
  "keeps_shape (def_cfa_offset off)" "keeps_shape remember_state" "keeps_shape restore_state"
  "keeps_shape (undefined_op reg)" "keeps_shape (register_op reg r)" "keeps_shape (set_cfa a)" "keeps_shape Inr"
proof -
  show sr: "keeps_shape (set_register reg a)" for reg a
    unfolding keeps_shape_def set_register_def ebind_def
    by (auto dest: state_of_shape intro!: set_state_shape simp: table_shape_def split: sum.splits if_splits)
  show dc: "keeps_shape (def_cfa reg off)" for reg off
  proof -
    have "fde_shape (f\<lparr>fde_last_reg := reg, fde_last_offset := off\<rparr>)" if "fde_shape f" for f using that by (simp add: fde_shape_def)
    then show ?thesis unfolding keeps_shape_def def_cfa_def ebind_def
      by (auto dest: state_of_shape intro!: set_state_shape simp: table_shape_def split: sum.splits)
  qed
  show "keeps_shape (advance_loc n)" by (auto simp: keeps_shape_def advance_loc_def advance_raw_def fde_shape_def)
  show "keeps_shape (offset_op reg off)" "keeps_shape (restore_op reg)"
    using sr unfolding keeps_shape_def offset_op_def restore_op_def ebind_def by (auto split: sum.splits if_splits)
  show "keeps_shape (def_cfa_register reg)" "keeps_shape (def_cfa_offset off)"
    using dc unfolding keeps_shape_def def_cfa_register_def def_cfa_offset_def by blast+
  show "keeps_shape remember_state" "keeps_shape restore_state"
    unfolding keeps_shape_def remember_state_def restore_state_def ebind_def
    by (auto simp: fde_shape_def dest: state_of_shape split: sum.splits) (auto simp: state_of_def split: list.splits)
  show "keeps_shape (undefined_op reg)" "keeps_shape (register_op reg r)"
    unfolding undefined_op_def register_op_def by (rule sr)+
  show "keeps_shape (set_cfa a)" unfolding keeps_shape_def set_cfa_def ebind_def
    by (auto dest: state_of_shape intro!: set_state_shape simp: table_shape_def split: sum.splits)
  show "keeps_shape Inr" by (simp add: keeps_shape_def)
qed

text \<open>Readers that only yield operations which keep the shape.\<close>

definition shape_rd :: "fde_op rd \<Rightarrow> bool" where
  "shape_rd m \<longleftrightarrow> (\<forall>L g L'. m L = Inr (g, L') \<longrightarrow> keeps_shape g)"

lemma shape_rd_intros:
  "keeps_shape g \<Longrightarrow> shape_rd (return_rd g)" "shape_rd (throw_rd e)"
  "(\<And>x. keeps_shape (h x)) \<Longrightarrow> shape_rd (map_rd h m)"
  "(\<And>x. shape_rd (k x)) \<Longrightarrow> shape_rd (bind_rd m k)"
  "shape_rd a \<Longrightarrow> shape_rd b \<Longrightarrow> shape_rd (if c then a else b)"
  "keeps_shape g \<Longrightarrow> shape_rd (\<lambda>L. if d L then Inr (g, L) else Inl e)"
  "shape_rd a \<Longrightarrow> shape_rd (\<lambda>L. if d L then a L else Inl e)"
  by (auto simp: shape_rd_def rd_defs split: sum.splits)

lemma shape_expression: "shape_rd (read_expression mem)" "shape_rd (read_def_cfa_expression mem)"
proof -
  have "shape_rd (expression_tail mem reg n)" for reg n
    unfolding expression_tail_def by (intro shape_rd_intros keeps_shape_ops)
  then have "shape_rd (\<lambda>L. expression_tail mem reg ((lx_next L + unat (len :: 64 word)) mod 2 ^ 64) L)" for reg len
    by (auto simp: shape_rd_def)
  then show "shape_rd (read_expression mem)" unfolding read_expression_def by (intro shape_rd_intros(4))
  have e: "shape_rd (cfa_expression_end mem op a n)" for op a n
    unfolding cfa_expression_end_def by (intro shape_rd_intros keeps_shape_ops)
  have "shape_rd (cfa_expression_tail mem n)" for n
    unfolding cfa_expression_tail_def by (intro shape_rd_intros e)
  then have "shape_rd (\<lambda>L. cfa_expression_tail mem ((lx_next L + unat (len :: 64 word)) mod 2 ^ 64) L)" for len
    by (auto simp: shape_rd_def)
  then show "shape_rd (read_def_cfa_expression mem)" unfolding read_def_cfa_expression_def by (intro shape_rd_intros(4))
qed

lemma shape_instruction: "shape_rd (read_instruction_op mem)"
proof -
  have "shape_rd (read_operation mem b)" for b
    unfolding read_operation_def by (intro shape_rd_intros keeps_shape_ops shape_expression)
  then show ?thesis
    unfolding read_instruction_op_def Let_def by (intro shape_rd_intros keeps_shape_ops)
qed

lemma instruction_loop_shape:
  "fde_shape f \<Longrightarrow> instruction_loop mem end_ptr addr L f = Inr (f', L') \<Longrightarrow> fde_shape f'"
proof (induction mem end_ptr addr L f rule: instruction_loop.induct)
  case (1 mem end_ptr addr L f)
  show ?case
  proof (cases "lx_next L < end_ptr \<and> fde_current_pc f \<le> addr")
    case False
    then show ?thesis using 1(2,3) by (auto simp: instruction_loop.simps [of mem end_ptr addr L f] split: if_splits)
  next
    case True
    obtain f1 L1 where r: "readInstruction mem L f = Inr (f1, L1)"
      using 1(3) True by (auto simp: instruction_loop.simps [of mem end_ptr addr L f] split: sum.splits)
    then have "fde_shape f1" using shape_instruction [of mem] 1(2)
      by (auto simp: readInstruction_def ebind_def shape_rd_def keeps_shape_def split: sum.splits) blast
    then show ?thesis using 1(1) [OF True r refl] 1(3) True r by (simp add: instruction_loop.simps [of mem end_ptr addr L f])
  qed
qed

lemma ebind_Inr: "ebind m k = Inr y \<longleftrightarrow> (\<exists>x. m = Inr x \<and> k x = Inr y)"
  by (auto simp: ebind_def split: sum.splits)

definition yields :: "('a \<Rightarrow> bool) \<Rightarrow> 'e + 'a \<Rightarrow> bool" where
  "yields P m \<longleftrightarrow> (\<forall>x. m = Inr x \<longrightarrow> P x)"

lemma yields_intros:
  "(\<And>x. yields P (k x)) \<Longrightarrow> yields P (ebind m k)" "(\<And>a b. yields P (h a b)) \<Longrightarrow> yields P (case z of (a, b) \<Rightarrow> h a b)"
  "yields P m1 \<Longrightarrow> yields P m2 \<Longrightarrow> yields P (if c then m1 else m2)" "yields P (Inl e)" "P x \<Longrightarrow> yields P (Inr x)"
  by (auto simp: yields_def ebind_Inr split: prod.splits)

lemma make_fde_shape: "make_fde mem data = Inr f \<Longrightarrow> fde_shape f"
proof -
  have "yields fde_shape (make_fde mem data)"
    unfolding make_fde_def Let_def
    by (intro yields_intros) (simp add: fde_shape_def table_shape_def initial_table_def)
  then show "make_fde mem data = Inr f \<Longrightarrow> fde_shape f" by (simp add: yields_def)
qed


definition demo_fde :: fde where
  "demo_fde =
     \<lparr>fde_augmentation_string = [], fde_augmentation_length = 0, fde_augmentation_length_fde = 0,
      fde_code_alignment_factor = 1, fde_data_alignment_factor = - 8, fde_ra_register = 16,
      fde_lsda_enc = DW_EH_PE_omit, fde_fde_enc = DW_EH_PE_absptr, fde_low_pc = 0x4000, fde_high_pc = 0x4100,
      fde_cie_begin = 0, fde_fde_begin = 0, fde_cie_end = 0, fde_fde_end = 0,
      fde_last_reg = 0, fde_last_offset = 0, fde_current_pc = 0, fde_initial_state = initial_table,
      fde_state_stack = []\<rparr>"


theorem cfa_loop_refines_program_witness:
  "map_sum id fst (instruction_loop (memory_of 0 [0x0C, 0x07, 0x08]) 3 0x4000 (Lexer 0 0)
     (demo_fde\<lparr>fde_state_stack := [initial_table], fde_current_pc := 0x4000\<rparr>)) =
   run_program 0x4000 [Def_cfa 7 8] (demo_fde\<lparr>fde_state_stack := [initial_table], fde_current_pc := 0x4000\<rparr>)"
proof -
  have e: "concat (map encode_instr [Def_cfa 7 8]) = [0x0C, 0x07, 0x08]" by (simp add: uleb_bytes.simps)
  have "holds (memory_of 0 [0x0C, 0x07, 0x08]) (Lexer 0 0) [0x0C, 0x07, 0x08]"
    by (simp add: holds_def room_def Lexer_def memory_of_def mem_byte_def)
  then show ?thesis
    using cfa_loop_refines_program [of "[Def_cfa 7 8]" "memory_of 0 [0x0C, 0x07, 0x08]" "Lexer 0 0" 3] unfolding e
    by (simp add: instr_ok_def Lexer_def)
qed

text \<open>
  \<open>restore_state\<close> brings back the register table but not the register and offset that
  \<open>def_cfa_offset\<close> and \<open>def_cfa_register\<close> complete: after a remembered rule on register 7 is
  restored, a new offset is combined with the register used in between. And \<open>register_\<close> records
  the register itself instead of the one that holds its value.
\<close>

theorem restore_state_keeps_last_register:
  "\<exists>f'. run_program addr [Def_cfa 7 8, Remember_state, Def_cfa_register 6, Restore_state, Def_cfa_offset 16]
      (demo_fde\<lparr>fde_state_stack := [initial_table]\<rparr>) = Inr f' \<and>
     ts_cfa (hd (fde_state_stack f')) = regPlusData 6 16 \<and> ts_cfa (hd (fde_state_stack f')) \<noteq> regPlusData 7 16 \<and>
     register_op 3 5 f' = register_op 3 9 f'"
proof -
  show ?thesis
    by (simp add: demo_fde_def def_cfa_def def_cfa_register_def def_cfa_offset_def remember_state_def restore_state_def
        state_of_def set_state_def ebind_def register_op_def regPlusData_def)
qed

end
