(* ===== verification/Elf_Sections.thy ===== *)
theory Elf_Sections
  imports Range_Table Dwarf_Instructions
begin

unbundle bit_operations_syntax

text \<open>
  \<open>dwarf_symbolize_enums.h\<close>, \<open>mem_file.h\<close> and \<open>sections.h\<close>: the constants of the DWARF debug
  sections, a mapped ELF file with its section header table, the sections of a library, and the
  table of its function symbols. The system calls that open, measure and map the file are a
  parameter (\<open>file_answer\<close>), as is the C++ ABI's demangler.
\<close>

section \<open>Constants\<close>

definition DW_TAG_subprogram :: "64 word" where "DW_TAG_subprogram = 0x2E"
definition DW_TAG_inlined_subroutine :: "64 word" where "DW_TAG_inlined_subroutine = 0x1D"
definition DW_TAG_compile_unit :: "64 word" where "DW_TAG_compile_unit = 0x11"
definition DW_AT_sibling :: "64 word" where "DW_AT_sibling = 0x1"
definition DW_AT_name :: "64 word" where "DW_AT_name = 0x3"
definition DW_AT_stmt_list :: "64 word" where "DW_AT_stmt_list = 0x10"
definition DW_AT_addr_base :: "64 word" where "DW_AT_addr_base = 0x73"
definition DW_AT_rnglists_base :: "64 word" where "DW_AT_rnglists_base = 0x74"
definition DW_AT_low_pc :: "64 word" where "DW_AT_low_pc = 0x11"
definition DW_AT_high_pc :: "64 word" where "DW_AT_high_pc = 0x12"
definition DW_AT_specification :: "64 word" where "DW_AT_specification = 0x47"
definition DW_AT_abstract_origin :: "64 word" where "DW_AT_abstract_origin = 0x31"
definition DW_AT_linkage_name :: "64 word" where "DW_AT_linkage_name = 0x6E"
definition DW_AT_ranges :: "64 word" where "DW_AT_ranges = 0x55"
definition DW_AT_str_offsets_base :: "64 word" where "DW_AT_str_offsets_base = 0x72"
definition DW_FORM_addr :: "64 word" where "DW_FORM_addr = 0x01"
definition DW_FORM_block2 :: "64 word" where "DW_FORM_block2 = 0x03"
definition DW_FORM_block4 :: "64 word" where "DW_FORM_block4 = 0x04"
definition DW_FORM_data2 :: "64 word" where "DW_FORM_data2 = 0x05"
definition DW_FORM_data4 :: "64 word" where "DW_FORM_data4 = 0x06"
definition DW_FORM_data8 :: "64 word" where "DW_FORM_data8 = 0x07"
definition DW_FORM_string :: "64 word" where "DW_FORM_string = 0x08"
definition DW_FORM_block :: "64 word" where "DW_FORM_block = 0x09"
definition DW_FORM_block1 :: "64 word" where "DW_FORM_block1 = 0x0A"
definition DW_FORM_data1 :: "64 word" where "DW_FORM_data1 = 0x0B"
definition DW_FORM_flag :: "64 word" where "DW_FORM_flag = 0x0C"
definition DW_FORM_sdata :: "64 word" where "DW_FORM_sdata = 0x0D"
definition DW_FORM_strp :: "64 word" where "DW_FORM_strp = 0x0E"
definition DW_FORM_udata :: "64 word" where "DW_FORM_udata = 0x0F"
definition DW_FORM_ref_addr :: "64 word" where "DW_FORM_ref_addr = 0x10"
definition DW_FORM_ref1 :: "64 word" where "DW_FORM_ref1 = 0x11"
definition DW_FORM_ref2 :: "64 word" where "DW_FORM_ref2 = 0x12"
definition DW_FORM_ref4 :: "64 word" where "DW_FORM_ref4 = 0x13"
definition DW_FORM_ref8 :: "64 word" where "DW_FORM_ref8 = 0x14"
definition DW_FORM_ref_udata :: "64 word" where "DW_FORM_ref_udata = 0x15"
definition DW_FORM_indirect :: "64 word" where "DW_FORM_indirect = 0x16"
definition DW_FORM_sec_offset :: "64 word" where "DW_FORM_sec_offset = 0x17"
definition DW_FORM_exprloc :: "64 word" where "DW_FORM_exprloc = 0x18"
definition DW_FORM_flag_present :: "64 word" where "DW_FORM_flag_present = 0x19"
definition DW_FORM_strx :: "64 word" where "DW_FORM_strx = 0x1A"
definition DW_FORM_addrx :: "64 word" where "DW_FORM_addrx = 0x1B"
definition DW_FORM_ref_sup4 :: "64 word" where "DW_FORM_ref_sup4 = 0x1C"
definition DW_FORM_strp_sup :: "64 word" where "DW_FORM_strp_sup = 0x1D"
definition DW_FORM_data16 :: "64 word" where "DW_FORM_data16 = 0x1E"
definition DW_FORM_line_strp :: "64 word" where "DW_FORM_line_strp = 0x1F"
definition DW_FORM_ref_sig8 :: "64 word" where "DW_FORM_ref_sig8 = 0x20"
definition DW_FORM_implicit_const :: "64 word" where "DW_FORM_implicit_const = 0x21"
definition DW_FORM_loclistx :: "64 word" where "DW_FORM_loclistx = 0x22"
definition DW_FORM_rnglistx :: "64 word" where "DW_FORM_rnglistx = 0x23"
definition DW_FORM_ref_sup8 :: "64 word" where "DW_FORM_ref_sup8 = 0x24"
definition DW_FORM_strx1 :: "64 word" where "DW_FORM_strx1 = 0x25"
definition DW_FORM_strx2 :: "64 word" where "DW_FORM_strx2 = 0x26"
definition DW_FORM_strx3 :: "64 word" where "DW_FORM_strx3 = 0x27"
definition DW_FORM_strx4 :: "64 word" where "DW_FORM_strx4 = 0x28"
definition DW_FORM_addrx1 :: "64 word" where "DW_FORM_addrx1 = 0x29"
definition DW_FORM_addrx2 :: "64 word" where "DW_FORM_addrx2 = 0x2A"
definition DW_FORM_addrx3 :: "64 word" where "DW_FORM_addrx3 = 0x2B"
definition DW_FORM_addrx4 :: "64 word" where "DW_FORM_addrx4 = 0x2C"
definition DW_FORM_GNU_addr_index :: "64 word" where "DW_FORM_GNU_addr_index = 0x1F01"
definition DW_FORM_GNU_str_index :: "64 word" where "DW_FORM_GNU_str_index = 0x1F02"
definition DW_FORM_GNU_ref_alt :: "64 word" where "DW_FORM_GNU_ref_alt = 0x1F20"
definition DW_FORM_GNU_strp_alt :: "64 word" where "DW_FORM_GNU_strp_alt = 0x1F21"
definition DW_LNCT_path :: "64 word" where "DW_LNCT_path = 0x1"
definition DW_LNCT_directory_index :: "64 word" where "DW_LNCT_directory_index = 0x2"
definition DW_LNS_extended_op :: "byte" where "DW_LNS_extended_op = 0x00"
definition DW_LNE_end_sequence :: "byte" where "DW_LNE_end_sequence = 0x01"
definition DW_LNE_set_address :: "byte" where "DW_LNE_set_address = 0x02"
definition DW_LNS_copy :: "byte" where "DW_LNS_copy = 0x01"
definition DW_LNS_advance_pc :: "byte" where "DW_LNS_advance_pc = 0x02"
definition DW_LNS_advance_line :: "byte" where "DW_LNS_advance_line = 0x03"
definition DW_LNS_set_file :: "byte" where "DW_LNS_set_file = 0x04"
definition DW_LNS_const_add_pc :: "byte" where "DW_LNS_const_add_pc = 0x08"
definition DW_LNS_fixed_advance_pc :: "byte" where "DW_LNS_fixed_advance_pc = 0x09"
definition DW_RLE_end_of_list :: "byte" where "DW_RLE_end_of_list = 0x0"
definition DW_RLE_base_addressx :: "byte" where "DW_RLE_base_addressx = 0x1"
definition DW_RLE_startx_endx :: "byte" where "DW_RLE_startx_endx = 0x2"
definition DW_RLE_startx_length :: "byte" where "DW_RLE_startx_length = 0x3"
definition DW_RLE_offset_pair :: "byte" where "DW_RLE_offset_pair = 0x4"
definition DW_RLE_base_address :: "byte" where "DW_RLE_base_address = 0x5"
definition DW_RLE_start_end :: "byte" where "DW_RLE_start_end = 0x6"
definition DW_RLE_start_length :: "byte" where "DW_RLE_start_length = 0x7"

lemmas dw_form_defs = DW_FORM_addr_def DW_FORM_block2_def DW_FORM_block4_def DW_FORM_data2_def DW_FORM_data4_def 
  DW_FORM_data8_def DW_FORM_string_def DW_FORM_block_def DW_FORM_block1_def DW_FORM_data1_def 
  DW_FORM_flag_def DW_FORM_sdata_def DW_FORM_strp_def DW_FORM_udata_def DW_FORM_ref_addr_def 
  DW_FORM_ref1_def DW_FORM_ref2_def DW_FORM_ref4_def DW_FORM_ref8_def DW_FORM_ref_udata_def 
  DW_FORM_indirect_def DW_FORM_sec_offset_def DW_FORM_exprloc_def DW_FORM_flag_present_def DW_FORM_strx_def 
  DW_FORM_addrx_def DW_FORM_ref_sup4_def DW_FORM_strp_sup_def DW_FORM_data16_def DW_FORM_line_strp_def 
  DW_FORM_ref_sig8_def DW_FORM_implicit_const_def DW_FORM_loclistx_def DW_FORM_rnglistx_def DW_FORM_ref_sup8_def 
  DW_FORM_strx1_def DW_FORM_strx2_def DW_FORM_strx3_def DW_FORM_strx4_def DW_FORM_addrx1_def 
  DW_FORM_addrx2_def DW_FORM_addrx3_def DW_FORM_addrx4_def DW_FORM_GNU_addr_index_def DW_FORM_GNU_str_index_def 
  DW_FORM_GNU_ref_alt_def DW_FORM_GNU_strp_alt_def
lemmas dw_lns_defs = DW_LNS_extended_op_def DW_LNS_copy_def DW_LNS_advance_pc_def DW_LNS_advance_line_def DW_LNS_set_file_def DW_LNS_const_add_pc_def DW_LNS_fixed_advance_pc_def DW_LNE_end_sequence_def DW_LNE_set_address_def
lemmas dw_rle_defs = DW_RLE_end_of_list_def DW_RLE_base_addressx_def DW_RLE_startx_endx_def DW_RLE_startx_length_def DW_RLE_offset_pair_def DW_RLE_base_address_def DW_RLE_start_end_def DW_RLE_start_length_def

definition formSize :: "64 word \<Rightarrow> nat \<Rightarrow> nat option" where
  "formSize form sec_offset_size =
     (if form = DW_FORM_addr then Some 8
      else if form \<in> {DW_FORM_block2, DW_FORM_block4} then None
      else if form = DW_FORM_data2 then Some 2
      else if form = DW_FORM_data4 then Some 4
      else if form = DW_FORM_data8 then Some 8
      else if form \<in> {DW_FORM_string, DW_FORM_block, DW_FORM_block1} then None
      else if form \<in> {DW_FORM_data1, DW_FORM_flag} then Some 1
      else if form = DW_FORM_sdata then None
      else if form = DW_FORM_strp then Some sec_offset_size
      else if form = DW_FORM_udata then None
      else if form = DW_FORM_ref_addr then Some sec_offset_size
      else if form = DW_FORM_ref1 then Some 1
      else if form = DW_FORM_ref2 then Some 2
      else if form = DW_FORM_ref4 then Some 4
      else if form = DW_FORM_ref8 then Some 8
      else if form \<in> {DW_FORM_ref_udata, DW_FORM_indirect} then None
      else if form = DW_FORM_sec_offset then Some sec_offset_size
      else if form = DW_FORM_exprloc then None
      else if form = DW_FORM_flag_present then Some 0
      else if form \<in> {DW_FORM_strx, DW_FORM_addrx} then None
      else if form = DW_FORM_ref_sup4 then Some 4
      else if form = DW_FORM_strp_sup then Some sec_offset_size
      else if form = DW_FORM_data16 then Some 16
      else if form = DW_FORM_line_strp then Some sec_offset_size
      else if form = DW_FORM_ref_sig8 then Some 8
      else if form = DW_FORM_implicit_const then Some 0
      else if form \<in> {DW_FORM_loclistx, DW_FORM_rnglistx} then None
      else if form = DW_FORM_ref_sup8 then Some 8
      else if form = DW_FORM_strx1 then Some 1
      else if form = DW_FORM_strx2 then Some 2
      else if form = DW_FORM_strx3 then Some 3
      else if form = DW_FORM_strx4 then Some 4
      else if form = DW_FORM_addrx1 then Some 1
      else if form = DW_FORM_addrx2 then Some 2
      else if form = DW_FORM_addrx3 then Some 3
      else if form = DW_FORM_addrx4 then Some 4
      else None)"

section \<open>The mapped file\<close>

record elf_section =
  sec_data :: nat
  sec_size :: nat

definition null_section :: elf_section where
  "null_section = \<lparr>sec_data = 0, sec_size = 0\<rparr>"

definition section_lexer :: "elf_section \<Rightarrow> 64 word \<Rightarrow> lexer" where
  "section_lexer s off =
     CheckedLexer (size_add (sec_data s) (unat off)) (word_of_nat (sec_data s)) (size_add (sec_data s) (sec_size s))"

definition section_string :: "memory \<Rightarrow> elf_section \<Rightarrow> 64 word \<Rightarrow> unwind_exn + byte list" where
  "section_string mem s off = map_sum id fst (readCString mem (section_lexer s off))"

text \<open>What \<open>open\<close>, \<open>fstat\<close> and \<open>mmap\<close> answer for a file name, and what the constructor holds open.\<close>

record file_answer =
  fa_open :: bool
  fa_stat :: "nat option"
  fa_mmap :: "nat option"

datatype file_resource = File_descriptor | Mapping

record mem_file =
  mf_mem :: nat
  mf_n_bytes :: nat
  mf_shdr :: nat
  mf_shnum :: nat
  mf_strtab :: elf_section

definition load_le :: "memory \<Rightarrow> nat \<Rightarrow> nat \<Rightarrow> unwind_exn + nat" where
  "load_le mem a n = (case bytes_at mem (a mod 2 ^ 64) n of None \<Rightarrow> Inl Fault | Some bs \<Rightarrow> Inr (le_nat bs))"

definition getSection_at :: "memory \<Rightarrow> nat \<Rightarrow> nat \<Rightarrow> nat \<Rightarrow> unwind_exn + elf_section" where
  "getSection_at mem base n_bytes shdr =
     ebind (load_le mem (shdr + 24) 8) (\<lambda>sh_offset.
     ebind (load_le mem (shdr + 32) 8) (\<lambda>sh_size.
     if size_add sh_offset sh_size \<le> n_bytes
     then Inr \<lparr>sec_data = size_add base sh_offset, sec_size = sh_size\<rparr>
     else Inl (Unwind_error ''invalid section'')))"

text \<open>The checks of \<open>e_ident\<close>, \<open>e_version\<close> and \<open>e_machine\<close>: offset, width and expected value.\<close>

definition elf_checks :: "(nat \<times> nat \<times> nat) list" where
  "elf_checks = [(0, 1, 0x7F), (1, 1, 0x45), (2, 1, 0x4C), (3, 1, 0x46), (4, 1, 2), (6, 1, 1), (20, 4, 1), (18, 2, 62)]"

fun check_fields :: "memory \<Rightarrow> nat \<Rightarrow> (nat \<times> nat \<times> nat) list \<Rightarrow> unwind_exn + unit" where
  "check_fields mem base [] = Inr ()"
| "check_fields mem base ((off, n, v) # cs) =
     ebind (load_le mem (base + off) n) (\<lambda>x. if x = v then check_fields mem base cs else Inl (Unwind_error ''not an ELF file''))"

definition parse_elf :: "memory \<Rightarrow> nat \<Rightarrow> nat \<Rightarrow> unwind_exn + mem_file" where
  "parse_elf mem base n_bytes =
     ebind (check_fields mem base elf_checks) (\<lambda>_.
     ebind (load_le mem (base + 40) 8) (\<lambda>e_shoff.
     ebind (load_le mem (base + 60) 2) (\<lambda>e_shnum.
     if size_add e_shoff (size_mul 64 e_shnum) \<le> n_bytes
     then ebind (load_le mem (base + 62) 2) (\<lambda>e_shstrndx.
       if e_shstrndx < e_shnum
       then ebind (getSection_at mem base n_bytes (size_add base e_shoff + 64 * e_shstrndx)) (\<lambda>strtab.
         Inr \<lparr>mf_mem = base, mf_n_bytes = n_bytes, mf_shdr = size_add base e_shoff, mf_shnum = e_shnum, mf_strtab = strtab\<rparr>)
       else Inl (Unwind_error ''invalid strtab section offset''))
     else Inl (Unwind_error ''invalid section header table''))))"

text \<open>
  The constructor, with the resources it still holds when it is left. On an exception the
  destructor does not run.
\<close>

definition make_mem_file :: "memory \<Rightarrow> file_answer \<Rightarrow> (unwind_exn + mem_file) \<times> file_resource list" where
  "make_mem_file mem fa =
     (if \<not> fa_open fa then (Inl (Unwind_error ''failed to open''), [])
      else case fa_stat fa of
        None \<Rightarrow> (Inl (Unwind_error ''failed to stat''), [])
      | Some n_bytes \<Rightarrow>
          if \<not> n_bytes > 64 then (Inl (Unwind_error ''empty shared library''), [File_descriptor])
          else case fa_mmap fa of
            None \<Rightarrow> (Inl (Unwind_error ''failed to mmap''), [])
          | Some base \<Rightarrow> (parse_elf mem base n_bytes, [File_descriptor, Mapping]))"

definition ascii :: "string \<Rightarrow> byte list" where
  "ascii = map of_char"

fun find_section :: "memory \<Rightarrow> mem_file \<Rightarrow> byte list \<Rightarrow> nat list \<Rightarrow> unwind_exn + elf_section option" where
  "find_section mem f nm [] = Inr None"
| "find_section mem f nm (i # is) =
     ebind (load_le mem (mf_shdr f + 64 * i) 4) (\<lambda>sh_name.
     ebind (section_string mem (mf_strtab f) (word_of_nat sh_name)) (\<lambda>s.
     if s = nm then map_sum id Some (getSection_at mem (mf_mem f) (mf_n_bytes f) (mf_shdr f + 64 * i))
     else find_section mem f nm is))"

definition getSection :: "memory \<Rightarrow> mem_file \<Rightarrow> byte list \<Rightarrow> bool \<Rightarrow> unwind_exn + elf_section" where
  "getSection mem f nm is_optional =
     ebind (find_section mem f nm [0..<mf_shnum f]) (\<lambda>r.
       case r of Some s \<Rightarrow> Inr s
       | None \<Rightarrow> if is_optional then Inr null_section else Inl (Unwind_error ''has no section''))"

section \<open>The sections of a library\<close>

record sections =
  se_debug_info :: elf_section
  se_debug_abbrev :: elf_section
  se_debug_str :: elf_section
  se_debug_line :: elf_section
  se_debug_line_str :: elf_section
  se_debug_rnglists :: elf_section
  se_debug_ranges :: elf_section
  se_debug_addr :: elf_section
  se_symtab :: elf_section
  se_strtab :: elf_section
  se_debug_info_offsets :: "64 word range_table"
  se_symbol_table :: "64 word range_table"

definition new_sections :: sections where
  "new_sections =
     \<lparr>se_debug_info = null_section, se_debug_abbrev = null_section, se_debug_str = null_section,
      se_debug_line = null_section, se_debug_line_str = null_section, se_debug_rnglists = null_section,
      se_debug_ranges = null_section, se_debug_addr = null_section, se_symtab = null_section,
      se_strtab = null_section, se_debug_info_offsets = empty_table, se_symbol_table = empty_table\<rparr>"

text \<open>A member function that changes its object and may throw on the way.\<close>

definition and_then :: "(unwind_exn + unit) \<times> 's \<Rightarrow> ('s \<Rightarrow> (unwind_exn + 'a) \<times> 's) \<Rightarrow> (unwind_exn + 'a) \<times> 's" where
  "and_then r k = (case r of (Inl e, s) \<Rightarrow> (Inl e, s) | (Inr u, s) \<Rightarrow> k s)"

fun load_sections ::
    "memory \<Rightarrow> mem_file \<Rightarrow> (string \<times> bool \<times> (elf_section \<Rightarrow> sections \<Rightarrow> sections)) list \<Rightarrow> sections \<Rightarrow> (unwind_exn + unit) \<times> sections" where
  "load_sections mem f [] s = (Inr (), s)"
| "load_sections mem f ((nm, is_optional, store) # rest) s =
     (case getSection mem f (ascii nm) is_optional of
        Inl e \<Rightarrow> (Inl e, s)
      | Inr sec \<Rightarrow> load_sections mem f rest (store sec s))"

text \<open>\<open>Elf64_Sym\<close> is read as one value of 24 bytes.\<close>

type_synonym elf_sym = "192 word"

definition st_name :: "elf_sym \<Rightarrow> 32 word" where "st_name y = ucast y"
definition st_info :: "elf_sym \<Rightarrow> byte" where "st_info y = ucast (drop_bit 32 y)"
definition st_shndx :: "elf_sym \<Rightarrow> 16 word" where "st_shndx y = ucast (drop_bit 48 y)"
definition st_value :: "elf_sym \<Rightarrow> 64 word" where "st_value y = ucast (drop_bit 64 y)"
definition st_size :: "elf_sym \<Rightarrow> 64 word" where "st_size y = ucast (drop_bit 128 y)"

definition is_function :: "elf_sym \<Rightarrow> bool" where
  "is_function y \<longleftrightarrow> \<not> (st_shndx y = 0 \<or> st_info y AND 0xF \<noteq> 2)"

function symtab_loop :: "memory \<Rightarrow> nat \<Rightarrow> lexer \<Rightarrow> 64 word range_table \<Rightarrow> (unwind_exn + unit) \<times> 64 word range_table" where
  "symtab_loop mem end_ptr L t =
     (if lx_next L < end_ptr
      then case (read_val mem :: elf_sym rd) L of
             Inl e \<Rightarrow> (Inl e, t)
           | Inr (y, L') \<Rightarrow>
               if \<not> is_function y then symtab_loop mem end_ptr L' t
               else case add_range (st_value y) (st_value y + st_size y) (ucast (st_name y)) t of
                      Inl e \<Rightarrow> (Inl e, t)
                    | Inr t' \<Rightarrow> symtab_loop mem end_ptr L' t'
      else (Inr (), t))"
  by auto
termination
  by (relation "measure (\<lambda>(mem, end_ptr, L, t). end_ptr - lx_next L)")
    (auto simp: read_val_def Let_def split: if_splits option.splits)

declare symtab_loop.simps [simp del]

definition parseSymtab :: "memory \<Rightarrow> sections \<Rightarrow> (unwind_exn + unit) \<times> sections" where
  "parseSymtab mem s =
     (let (r, t) = symtab_loop mem (size_add (sec_data (se_symtab s)) (sec_size (se_symtab s)))
                     (section_lexer (se_symtab s) 0) (se_symbol_table s)
      in (r, s\<lparr>se_symbol_table := t\<rparr>))"

definition parse_sections :: "memory \<Rightarrow> file_answer \<Rightarrow> sections \<Rightarrow> (unwind_exn + unit) \<times> sections" where
  "parse_sections mem fa s =
     (case fst (make_mem_file mem fa) of
        Inl e \<Rightarrow> (Inl e, s)
      | Inr f \<Rightarrow>
          and_then (load_sections mem f
            [(''.strtab'', False, \<lambda>x. se_strtab_update (\<lambda>_. x)), (''.symtab'', True, \<lambda>x. se_symtab_update (\<lambda>_. x)),
             (''.debug_info'', True, \<lambda>x. se_debug_info_update (\<lambda>_. x))] s) (\<lambda>s1.
          and_then
            (if sec_size (se_debug_info s1) > 0
             then load_sections mem f
               [(''.debug_abbrev'', False, \<lambda>x. se_debug_abbrev_update (\<lambda>_. x)),
                (''.debug_str'', False, \<lambda>x. se_debug_str_update (\<lambda>_. x)),
                (''.debug_line'', False, \<lambda>x. se_debug_line_update (\<lambda>_. x)),
                (''.debug_line_str'', True, \<lambda>x. se_debug_line_str_update (\<lambda>_. x)),
                (''.debug_rnglists'', True, \<lambda>x. se_debug_rnglists_update (\<lambda>_. x)),
                (''.debug_addr'', True, \<lambda>x. se_debug_addr_update (\<lambda>_. x)),
                (''.debug_ranges'', True, \<lambda>x. se_debug_ranges_update (\<lambda>_. x))] s1
             else (Inr (), s1)) (parseSymtab mem)))"

definition readSegmentOffset :: "memory \<Rightarrow> bool \<Rightarrow> 64 word rd" where
  "readSegmentOffset mem is_64bit = (if is_64bit then read_u64 mem else read_u32 mem)"

definition lift_rd :: "unwind_exn + 'a \<Rightarrow> 'a rd" where
  "lift_rd r = (\<lambda>L. map_sum id (\<lambda>x. (x, L)) r)"

definition readString :: "memory \<Rightarrow> sections \<Rightarrow> 64 word \<Rightarrow> bool \<Rightarrow> byte list rd" where
  "readString mem s encoding is_64bit =
     (if encoding = DW_FORM_string then readCString mem
      else if encoding = DW_FORM_strp
      then bind_rd (readSegmentOffset mem is_64bit) (\<lambda>off. lift_rd (section_string mem (se_debug_str s) off))
      else if encoding = DW_FORM_line_strp
      then bind_rd (readSegmentOffset mem is_64bit) (\<lambda>off. lift_rd (section_string mem (se_debug_line_str s) off))
      else throw_rd (Unwind_error ''unsupported string encoding''))"

definition findDebugInfoOffset :: "64 word \<Rightarrow> sections \<Rightarrow> (unwind_exn + 64 word option) \<times> sections" where
  "findDebugInfoOffset address s =
     (let (r, t) = find_range address (se_debug_info_offsets s) in (r, s\<lparr>se_debug_info_offsets := t\<rparr>))"

definition compilationUnitCount :: "sections \<Rightarrow> nat" where
  "compilationUnitCount s = table_size (se_debug_info_offsets s) div 2"

definition addDebugInfoRange :: "64 word \<Rightarrow> 64 word \<Rightarrow> 64 word \<Rightarrow> sections \<Rightarrow> (unwind_exn + unit) \<times> sections" where
  "addDebugInfoRange start stop off s =
     (case add_range start stop off (se_debug_info_offsets s) of
        Inl e \<Rightarrow> (Inl e, s)
      | Inr t \<Rightarrow> (Inr (), s\<lparr>se_debug_info_offsets := t\<rparr>))"

definition demangle :: "(byte list \<Rightarrow> byte list option) \<Rightarrow> byte list \<Rightarrow> byte list" where
  "demangle cxa_demangle mangled = (case cxa_demangle mangled of Some s \<Rightarrow> s | None \<Rightarrow> mangled)"

definition findSubprogramName ::
    "(byte list \<Rightarrow> byte list option) \<Rightarrow> memory \<Rightarrow> 64 word \<Rightarrow> sections \<Rightarrow> (unwind_exn + byte list option) \<times> sections" where
  "findSubprogramName cxa_demangle mem address s =
     (let (r, t) = find_range address (se_symbol_table s); s' = s\<lparr>se_symbol_table := t\<rparr>
      in (ebind r (\<lambda>e. case e of
            None \<Rightarrow> Inr None
          | Some n \<Rightarrow> map_sum id (\<lambda>nm. Some (demangle cxa_demangle nm)) (section_string mem (se_strtab s) n)), s'))"


section \<open>Symbol lookup\<close>

definition function_ranges :: "elf_sym list \<Rightarrow> (64 word \<times> 64 word \<times> 64 word) list" where
  "function_ranges ys = map (\<lambda>y. (st_value y, st_value y + st_size y, ucast (st_name y))) (filter is_function ys)"

definition symtab_bytes :: "elf_sym list \<Rightarrow> byte list" where
  "symtab_bytes ys = concat (map (\<lambda>y. le_bytes 24 (unat y)) ys)"

lemma add_range_total: "\<exists>t'. add_range b e p t = Inr t'"
  using add_unsorted by (auto simp: add_range_def split: sum.split) (metis Inl_Inr_False)

lemma holds_sym:
  assumes "holds mem L (symtab_bytes (y # ys))"
  shows "(read_val mem :: elf_sym rd) L = Inr (y, advance 24 L)" "holds mem (advance 24 L) (symtab_bytes ys)"
proof -
  have h: "holds mem L (le_bytes 24 (unat y))" "holds mem (advance 24 L) (symtab_bytes ys)"
    using holds_append [of mem L "le_bytes 24 (unat y)" "symtab_bytes ys"] assms
    by (simp_all add: symtab_bytes_def le_nat_bytes)
  show "holds mem (advance 24 L) (symtab_bytes ys)" by (rule h(2))
  show "(read_val mem :: elf_sym rd) L = Inr (y, advance 24 L)" by (rule holds_le [OF h(1)]) simp
qed

lemma symtab_loop_build:
  assumes "holds mem L (symtab_bytes ys)" "end_ptr = lx_next L + 24 * length ys"
  shows "\<exists>t'. build_ranges (function_ranges ys) t = Inr t' \<and> symtab_loop mem end_ptr L t = (Inr (), t')"
  using assms
proof (induction ys arbitrary: L t)
  case Nil
  then show ?case by (simp add: function_ranges_def symtab_loop.simps)
next
  case (Cons y ys)
  note y = holds_sym [OF Cons.prems(1)]
  have IH: "\<exists>t'. build_ranges (function_ranges ys) t = Inr t' \<and> symtab_loop mem end_ptr (advance 24 L) t = (Inr (), t')" for t
    using Cons.IH [OF y(2), of t] Cons.prems(2) by simp
  obtain t1 where t1: "add_range (st_value y) (st_value y + st_size y) (ucast (st_name y) :: 64 word) t = Inr t1"
    using add_range_total [of "st_value y" "st_value y + st_size y" "ucast (st_name y)" t] by auto
  have "symtab_loop mem end_ptr L t = symtab_loop mem end_ptr (advance 24 L) (if is_function y then t1 else t)"
    using y(1) t1 Cons.prems(2) by (subst symtab_loop.simps) simp
  moreover have "build_ranges (function_ranges (y # ys)) t = build_ranges (function_ranges ys) (if is_function y then t1 else t)"
    using t1 by (simp add: function_ranges_def)
  ultimately show ?case using IH [of "if is_function y then t1 else t"] by simp
qed

lemma findSubprogramName_find:
  "fst (findSubprogramName dm mem a s) =
     ebind (fst (find_range a (se_symbol_table s))) (\<lambda>e. case e of
       None \<Rightarrow> Inr None
     | Some n \<Rightarrow> map_sum id (\<lambda>nm. Some (demangle dm nm)) (section_string mem (se_strtab s) n))"
  by (cases "find_range a (se_symbol_table s)") (simp add: findSubprogramName_def cong: option.case_cong)

text \<open>
  C27: the symbol table of a library is the map from the address ranges of its function symbols to
  their names: when the section holds the symbols and the ranges of the functions are disjoint,
  parsing it succeeds, and looking up an address gives the demangled name of the function that
  contains it, or nothing when no function does.
\<close>

theorem symbol_lookup:
  assumes "se_symbol_table s = empty_table" "sec_size (se_symtab s) = 24 * length ys"
    and "sec_data (se_symtab s) + sec_size (se_symtab s) < 2 ^ 64"
    and "holds mem (section_lexer (se_symtab s) 0) (symtab_bytes ys)" "disjoint_ranges (function_ranges ys)"
  shows "\<exists>s'. parseSymtab mem s = (Inr (), s') \<and>
    (\<forall>a. fst (findSubprogramName dm mem a s') =
      (case List.find (\<lambda>(b, e, n). b \<le> a \<and> a < e) (function_ranges ys) of
         None \<Rightarrow> Inr None
       | Some (b, e, n) \<Rightarrow> map_sum id (\<lambda>nm. Some (demangle dm nm)) (section_string mem (se_strtab s) n)))"
proof -
  have n: "lx_next (section_lexer (se_symtab s) 0) = sec_data (se_symtab s)"
    using assms(3) by (simp add: section_lexer_def CheckedLexer_def size_add_exact)
  obtain t where t: "build_ranges (function_ranges ys) empty_table = Inr t"
      "symtab_loop mem (sec_data (se_symtab s) + sec_size (se_symtab s)) (section_lexer (se_symtab s) 0) empty_table = (Inr (), t)"
    using symtab_loop_build [OF assms(4)] n assms(2) by metis
  have "parseSymtab mem s = (Inr (), s\<lparr>se_symbol_table := t\<rparr>)"
    using t(2) assms(1,3) by (simp add: parseSymtab_def size_add_exact)
  moreover have "fst (find_range a t) = Inr (map_option (\<lambda>(b, e, n). n) (List.find (\<lambda>(b, e, n). b \<le> a \<and> a < e) (function_ranges ys)))" for a
    by (rule ranges.lookup_find [OF assms(5) t(1)])
  ultimately show ?thesis
    by (intro exI [of _ "s\<lparr>se_symbol_table := t\<rparr>"])
      (auto simp: findSubprogramName_find ebind_def split: option.split)
qed

text \<open>Evaluation of byte lists at numerals.\<close>

lemma le_bytes_numeral: "le_bytes (numeral n) v = word_of_nat (v mod 256) # le_bytes (pred_numeral n) (v div 256)"
  by (simp only: numeral_eq_Suc [of n] le_bytes.simps)

lemma bytes_at_numeral:
  "bytes_at mem a (numeral n) =
     (case mem_byte mem a of None \<Rightarrow> None | Some b \<Rightarrow> map_option (Cons b) (bytes_at mem (Suc a) (pred_numeral n)))"
  by (simp add: numeral_eq_Suc [of n] split: option.split)

text \<open>A library with the one function \<open>main\<close> at \<open>0x400\<close>, of 32 bytes.\<close>

definition demo_sym :: elf_sym where
  "demo_sym = word_of_nat 0x2000000000000004000001000200000001"

definition demo_symtab :: "byte list" where
  "demo_symtab = [1, 0, 0, 0, 2, 0, 1, 0, 0, 4, 0, 0, 0, 0, 0, 0, 0x20, 0, 0, 0, 0, 0, 0, 0]"

definition demo_symbols_mem :: memory where
  "demo_symbols_mem = memory_of 0x1000 (demo_symtab @ [0, 0x6D, 0x61, 0x69, 0x6E, 0])"

definition demo_symbols_sections :: sections where
  "demo_symbols_sections = new_sections\<lparr>se_symtab := \<lparr>sec_data = 0x1000, sec_size = 24\<rparr>,
     se_strtab := \<lparr>sec_data = 0x1018, sec_size = 6\<rparr>\<rparr>"

lemma unat_demo_sym: "unat demo_sym = 0x2000000000000004000001000200000001"
proof -
  have "(2 :: nat) ^ 192 = 0x1000000000000000000000000000000000000000000000000" by simp
  then have "(0x2000000000000004000001000200000001 :: nat) < 2 ^ LENGTH(192)" by simp
  then show ?thesis unfolding demo_sym_def unat_of_nat by (rule mod_less)
qed

lemma symtab_bytes_single: "symtab_bytes [y] = le_bytes 24 (unat y)"
  by (simp add: symtab_bytes_def)

lemma demo_symtab_bytes: "symtab_bytes [demo_sym] = demo_symtab"
  unfolding symtab_bytes_single unat_demo_sym demo_symtab_def by (simp add: le_bytes_numeral)

lemma ucast_unat: "(ucast y :: 'b::len word) = word_of_nat (unat y)" for y :: "'a::len word"
  by simp

lemma unat_drop: "unat (drop_bit n y) = unat y div 2 ^ n" for y :: "'a::len word"
  by (rule trans [OF unat_drop_bit_eq drop_bit_eq_div])

lemma demo_fields:
  "st_name demo_sym = 1" "st_info demo_sym = 2" "st_shndx demo_sym = 1" "st_value demo_sym = 0x400" "st_size demo_sym = 0x20"
  unfolding st_name_def st_info_def st_shndx_def st_value_def st_size_def ucast_unat unat_drop unat_demo_sym
  by simp_all

lemma demo_function: "function_ranges [demo_sym] = [(0x400, 0x420, 1)]"
  by (simp add: function_ranges_def is_function_def demo_fields)

theorem symbol_lookup_witness:
  "\<exists>s'. parseSymtab demo_symbols_mem demo_symbols_sections = (Inr (), s') \<and>
     fst (findSubprogramName (\<lambda>_. None) demo_symbols_mem 0x410 s') = Inr (Some [0x6D, 0x61, 0x69, 0x6E]) \<and>
     fst (findSubprogramName (\<lambda>_. None) demo_symbols_mem 0x420 s') = Inr None"
proof -
  have h: "holds demo_symbols_mem (section_lexer (se_symtab demo_symbols_sections) 0) (symtab_bytes [demo_sym])"
    by (simp add: demo_symtab_bytes holds_def room_def demo_symbols_mem_def demo_symbols_sections_def new_sections_def
        section_lexer_def CheckedLexer_def size_add_def memory_of_def mem_byte_def demo_symtab_def)
  have n: "section_string demo_symbols_mem (se_strtab demo_symbols_sections) 1 = Inr [0x6D, 0x61, 0x69, 0x6E]"
    by (simp add: section_string_def demo_symbols_mem_def demo_symbols_sections_def readCString_def section_lexer_def CheckedLexer_def
        size_add_def memory_of_def mem_byte_def demo_symtab_def cstring_loop.simps)
  have d: "se_symbol_table demo_symbols_sections = empty_table" "sec_size (se_symtab demo_symbols_sections) = 24 * length [demo_sym]"
      "sec_data (se_symtab demo_symbols_sections) + sec_size (se_symtab demo_symbols_sections) < 2 ^ 64"
    by (simp_all add: demo_symbols_sections_def new_sections_def)
  have r: "disjoint_ranges (function_ranges [demo_sym])" by (simp add: demo_function)
  obtain s' where s': "parseSymtab demo_symbols_mem demo_symbols_sections = (Inr (), s')"
      "\<And>a. fst (findSubprogramName (\<lambda>_. None) demo_symbols_mem a s') =
        (case List.find (\<lambda>(b, e, n). b \<le> a \<and> a < e) (function_ranges [demo_sym]) of
           None \<Rightarrow> Inr None
         | Some (b, e, n) \<Rightarrow> map_sum id (\<lambda>nm. Some (demangle (\<lambda>_. None) nm)) (section_string demo_symbols_mem (se_strtab demo_symbols_sections) n))"
    using symbol_lookup [OF d h r, of "\<lambda>_. None"] by blast
  show ?thesis
    by (rule exI [of _ s']) (simp add: s' demo_function n demangle_def)
qed

end
