(* ===== verification/Debug_Info.thy ===== *)
theory Debug_Info
  imports Elf_Sections
begin

text \<open>
  \<open>debug_info.h\<close>: the header and the compile unit entry of one DWARF 4 or 5 unit, and the address
  ranges the unit covers. An exception discards the object, so every operation is a value of the
  sum type. The logging macros of the sources expand to nothing.
\<close>

section \<open>Progress of the readers\<close>

text \<open>A reader that succeeds has moved past at least one byte of the address space.\<close>

definition progress_rd :: "'a rd \<Rightarrow> bool" where
  "progress_rd m \<longleftrightarrow> (\<forall>L x L'. m L = Inr (x, L') \<longrightarrow> lx_next L < lx_next L' \<and> lx_next L < 2 ^ 64)"

lemma progress_rdD: "progress_rd m \<Longrightarrow> m L = Inr (x, L') \<Longrightarrow> lx_next L < lx_next L' \<and> lx_next L < 2 ^ 64"
  unfolding progress_rd_def by blast

lemma progress_u8: "progress_rd (read_u8 mem)"
  by (auto simp: progress_rd_def read_u8_def read_val_def Let_def mem_byte_def split: if_splits option.splits)

lemma progress_bind:
  assumes "progress_rd m" "\<And>x. forward_rd (f x)"
  shows "progress_rd (bind_rd m f)"
  unfolding progress_rd_def
proof (intro allI impI)
  fix L x L' assume "bind_rd m f L = Inr (x, L')"
  then obtain y L1 where "m L = Inr (y, L1)" "f y L1 = Inr (x, L')"
    by (auto simp: bind_rd_def split: sum.splits)
  then show "lx_next L < lx_next L' \<and> lx_next L < 2 ^ 64"
    using progress_rdD [OF assms(1)] forward_rdD [OF assms(2)] by (meson order_less_le_trans)
qed

lemma progress_val: "8 \<le> LENGTH('a::len) \<Longrightarrow> progress_rd (read_val mem :: 'a word rd)"
  unfolding progress_rd_def
proof (intro allI impI)
  fix L L' :: lexer and x :: "'a word"
  assume n: "8 \<le> LENGTH('a)" and r: "read_val mem L = Inr (x, L')"
  obtain k where k: "LENGTH('a) div 8 = Suc k" using n by (cases "LENGTH('a) div 8") auto
  then show "lx_next L < lx_next L' \<and> lx_next L < 2 ^ 64"
    using r by (auto simp: read_val_def Let_def mem_byte_def split: if_splits option.splits)
qed

lemma progress_u64: "progress_rd (read_u64 mem)"
  unfolding read_u64_def by (rule progress_val) simp

lemma progress_uleb: "progress_rd (readULEB128 mem)"
  unfolding progress_rd_def
proof (intro allI impI)
  fix L x L' assume r: "readULEB128 mem L = Inr (x, L')"
  obtain b L1 where b: "read_u8 mem L = Inr (b, L1)"
    using r by (auto simp: readULEB128_def uleb_loop.simps [of mem 0 0 L] split: sum.splits)
  have "lx_next L1 \<le> lx_next L'"
    using r b forward_uleb_loop by (auto simp: readULEB128_def uleb_loop.simps [of mem 0 0 L] Let_def split: if_splits)
  then show "lx_next L < lx_next L' \<and> lx_next L < 2 ^ 64" using progress_rdD [OF progress_u8 b] by simp
qed

lemma forward_lift: "forward_rd (lift_rd r)"
  by (cases r) (auto simp: forward_rd_def lift_rd_def)

lemma forward_progress: "progress_rd m \<Longrightarrow> forward_rd m"
  unfolding progress_rd_def forward_rd_def by (meson less_imp_le)

section \<open>The unit\<close>

record debug_info =
  di_line_number_program_offset :: "64 word option"
  di_offset :: "64 word"
  di_sec_offset_size :: nat
  di_length :: "64 word"
  di_end :: nat
  di_debug_abbrev_offset :: "64 word"
  di_is_64bit :: bool
  di_range_ptr :: "(64 word \<times> byte) option"
  di_lowpc :: "64 word"
  di_highpc :: "64 word option"
  di_version :: "64 word"
  di_address_base :: "64 word"
  di_rnglists_base :: "64 word option"

definition new_debug_info :: debug_info where
  "new_debug_info =
     \<lparr>di_line_number_program_offset = None, di_offset = 0, di_sec_offset_size = 0, di_length = 0, di_end = 0,
      di_debug_abbrev_offset = 0, di_is_64bit = False, di_range_ptr = None, di_lowpc = 0, di_highpc = None,
      di_version = 0, di_address_base = 0, di_rnglists_base = None\<rparr>"

text \<open>The lexer after a reader, for \<open>loc\<close>.\<close>

definition loc_rd :: "nat rd" where
  "loc_rd L = Inr (lx_next L, L)"

definition check_rd :: "bool \<Rightarrow> string \<Rightarrow> unit rd" where
  "check_rd cond msg = (if cond then return_rd () else throw_rd (Unwind_error msg))"

text \<open>The fields that follow the version: address size and abbreviation offset, in the order of the version.\<close>

definition read_unit_fields :: "memory \<Rightarrow> 64 word \<Rightarrow> bool \<Rightarrow> (byte \<times> 64 word) rd" where
  "read_unit_fields mem version is_64bit =
     (if version = 5
      then bind_rd (read_u8 mem) (\<lambda>unit_type.
           bind_rd (check_rd (unit_type = 1) ''unexpected unit type'') (\<lambda>_.
           bind_rd (read_u8 mem) (\<lambda>address_size.
           map_rd (Pair address_size) (readSegmentOffset mem is_64bit))))
      else bind_rd (readSegmentOffset mem is_64bit) (\<lambda>abbrev.
           map_rd (\<lambda>address_size. (address_size, abbrev)) (read_u8 mem)))"

definition parseHeader :: "memory \<Rightarrow> sections \<Rightarrow> 64 word \<Rightarrow> debug_info \<Rightarrow> unwind_exn + debug_info \<times> lexer" where
  "parseHeader mem s off d =
     bind_rd (readSectionLength mem) (\<lambda>(len, is_64bit).
     bind_rd loc_rd (\<lambda>here.
     bind_rd (read_u16 mem) (\<lambda>version.
     bind_rd (check_rd (version = 5 \<or> version = 4) ''unexpected dwarf version'') (\<lambda>_.
     bind_rd (read_unit_fields mem version is_64bit) (\<lambda>(address_size, abbrev).
     bind_rd (check_rd (address_size = 8) ''expected 64-bit dwarf'') (\<lambda>_.
     return_rd (d\<lparr>di_offset := off, di_length := len, di_is_64bit := is_64bit,
       di_sec_offset_size := (if is_64bit then 8 else 4), di_end := size_add here (unat len), di_version := version,
       di_debug_abbrev_offset := abbrev\<rparr>)))))))
     (section_lexer (se_debug_info s) off)"

definition read_in_section :: "memory \<Rightarrow> elf_section \<Rightarrow> 64 word \<Rightarrow> unwind_exn + 64 word" where
  "read_in_section mem sec off = map_sum id fst (read_u64 mem (section_lexer sec off))"

definition readEncodedForm :: "memory \<Rightarrow> sections \<Rightarrow> debug_info \<Rightarrow> 64 word \<Rightarrow> 64 word rd" where
  "readEncodedForm mem s d encoding =
     (if encoding \<in> {DW_FORM_data8, DW_FORM_addr} then read_u64 mem
      else if encoding = DW_FORM_data4 then read_u32 mem
      else if encoding = DW_FORM_addrx
      then bind_rd (readULEB128 mem) (\<lambda>idx. lift_rd (read_in_section mem (se_debug_addr s) (di_address_base d + 8 * idx)))
      else if encoding = DW_FORM_sec_offset then readSegmentOffset mem (di_is_64bit d)
      else if encoding = DW_FORM_rnglistx then readULEB128 mem
      else throw_rd (Unwind_error ''unexpected encoding''))"

definition skip_rd :: "64 word \<Rightarrow> unit rd" where
  "skip_rd n L = Inr ((), skip n L)"

text \<open>One attribute of the compile unit: the body of the loop of \<open>parseCompileUnit\<close>.\<close>

definition read_attribute :: "memory \<Rightarrow> sections \<Rightarrow> 64 word \<Rightarrow> 64 word \<Rightarrow> debug_info \<Rightarrow> debug_info rd" where
  "read_attribute mem s attr form d =
     (if attr = DW_AT_low_pc then map_rd (\<lambda>v. d\<lparr>di_lowpc := v\<rparr>) (readEncodedForm mem s d form)
      else if attr = DW_AT_high_pc
      then map_rd (\<lambda>v. d\<lparr>di_highpc := Some v, di_range_ptr := None\<rparr>) (readEncodedForm mem s d form)
      else if attr = DW_AT_addr_base
      then bind_rd (check_rd (form = DW_FORM_sec_offset) ''unexpected addr_base form'') (\<lambda>_.
           map_rd (\<lambda>v. d\<lparr>di_address_base := v\<rparr>) (readSegmentOffset mem (di_is_64bit d)))
      else if attr = DW_AT_rnglists_base
      then bind_rd (check_rd (form = DW_FORM_sec_offset) ''unexpected rnglists_base form'') (\<lambda>_.
           map_rd (\<lambda>v. d\<lparr>di_rnglists_base := Some v\<rparr>) (readSegmentOffset mem (di_is_64bit d)))
      else if form = DW_FORM_string then map_rd (\<lambda>_. d) (readCString mem)
      else if attr = DW_AT_stmt_list
      then bind_rd (check_rd (form = DW_FORM_sec_offset) ''unexpected stmt_list form'') (\<lambda>_.
           map_rd (\<lambda>v. d\<lparr>di_line_number_program_offset := Some v\<rparr>) (readSegmentOffset mem (di_is_64bit d)))
      else if form = DW_FORM_exprloc then map_rd (\<lambda>_. d) (bind_rd (readULEB128 mem) skip_rd)
      else if form = DW_FORM_block1 then map_rd (\<lambda>_. d) (bind_rd (read_u8 mem) (\<lambda>sz. skip_rd (ucast sz)))
      else if attr = DW_AT_ranges
      then map_rd (\<lambda>v. d\<lparr>di_range_ptr := Some (v, ucast form)\<rparr>) (readEncodedForm mem s d form)
      else if form \<in> {DW_FORM_udata, DW_FORM_rnglistx, DW_FORM_strx, DW_FORM_loclistx, DW_FORM_addrx}
      then map_rd (\<lambda>_. d) (readULEB128 mem)
      else if form = DW_FORM_sdata then map_rd (\<lambda>_. d) (readSLEB128 mem)
      else case formSize form (di_sec_offset_size d) of
             None \<Rightarrow> throw_rd (Unwind_error ''unsupported form in compilation unit'')
           | Some sz \<Rightarrow> map_rd (\<lambda>_. d) (skip_rd (word_of_nat sz)))"

text \<open>
  One attribute specification of an abbreviation: attribute, form and the constant of an implicit
  constant.
\<close>

definition read_attr_spec :: "memory \<Rightarrow> (64 word \<times> 64 word) rd" where
  "read_attr_spec mem =
     bind_rd (readULEB128 mem) (\<lambda>attr. bind_rd (readULEB128 mem) (\<lambda>form.
       if \<not> (attr = 0 \<and> form = 0) \<and> form = DW_FORM_implicit_const
       then map_rd (\<lambda>_. (attr, form)) (readSLEB128 mem) else return_rd (attr, form)))"

lemma progress_attr_spec: "progress_rd (read_attr_spec mem)"
  unfolding read_attr_spec_def by (intro progress_bind progress_uleb forward_intros)

function attribute_loop ::
    "memory \<Rightarrow> sections \<Rightarrow> lexer \<Rightarrow> lexer \<Rightarrow> debug_info \<Rightarrow> unwind_exn + debug_info \<times> lexer" where
  "attribute_loop mem s A L d =
     (case read_attr_spec mem A of
        Inl e \<Rightarrow> Inl e
      | Inr ((attr, form), A') \<Rightarrow>
          if attr = 0 \<and> form = 0 then Inr (d, L)
          else case read_attribute mem s attr form d L of
                 Inl e \<Rightarrow> Inl e
               | Inr (d', L') \<Rightarrow> attribute_loop mem s A' L' d')"
  by auto
termination
  by (relation "measure (\<lambda>(mem, s, A, L, d). 2 ^ 64 - lx_next A)") (auto dest!: progress_rdD [OF progress_attr_spec])

function skip_attrs :: "memory \<Rightarrow> lexer \<Rightarrow> unwind_exn + lexer" where
  "skip_attrs mem L =
     (case read_attr_spec mem L of
        Inl e \<Rightarrow> Inl e
      | Inr ((attr, form), L') \<Rightarrow> if attr = 0 \<and> form = 0 then Inr L' else skip_attrs mem L')"
  by auto
termination
  by (relation "measure (\<lambda>(mem, L). 2 ^ 64 - lx_next L)") (auto dest!: progress_rdD [OF progress_attr_spec])

declare attribute_loop.simps [simp del] skip_attrs.simps [simp del]

lemma skip_attrs_forward: "skip_attrs mem L = Inr L' \<Longrightarrow> lx_next L \<le> lx_next L'"
proof (induction mem L rule: skip_attrs.induct)
  case (1 mem L)
  then obtain a f L1 where r: "read_attr_spec mem L = Inr ((a, f), L1)"
    by (auto simp: skip_attrs.simps [of mem L] split: sum.splits)
  then have "lx_next L < lx_next L1" using progress_rdD [OF progress_attr_spec] by blast
  then show ?case using 1(1) [OF r refl refl] 1(2) r by (auto simp: skip_attrs.simps [of mem L] split: if_splits)
qed

definition read_abbrev_head :: "memory \<Rightarrow> (64 word \<times> 64 word) rd" where
  "read_abbrev_head mem =
     bind_rd (readULEB128 mem) (\<lambda>abbrev_code.
     bind_rd (check_rd (abbrev_code \<noteq> 0) ''could not find entry'') (\<lambda>_.
     bind_rd (readULEB128 mem) (\<lambda>tag.
     map_rd (\<lambda>_. (abbrev_code, tag)) (read_u8 mem))))"

lemma forward_check: "forward_rd (check_rd c msg)"
  unfolding check_rd_def by (intro forward_intros)

lemma progress_abbrev_head: "progress_rd (read_abbrev_head mem)"
  unfolding read_abbrev_head_def by (intro progress_bind progress_uleb forward_intros forward_check)

function abbrev_loop :: "memory \<Rightarrow> 64 word \<Rightarrow> lexer \<Rightarrow> unwind_exn + lexer" where
  "abbrev_loop mem entry L =
     (case read_abbrev_head mem L of
        Inl e \<Rightarrow> Inl e
      | Inr ((abbrev_code, tag), L1) \<Rightarrow>
          if abbrev_code = entry
          then if tag = DW_TAG_compile_unit then Inr L1 else Inl (Unwind_error ''first entry was not a compile unit'')
          else case skip_attrs mem L1 of Inl e \<Rightarrow> Inl e | Inr L2 \<Rightarrow> abbrev_loop mem entry L2)"
  by auto
termination
  by (relation "measure (\<lambda>(mem, entry, L). 2 ^ 64 - lx_next L)")
    (auto dest!: progress_rdD [OF progress_abbrev_head] skip_attrs_forward)

declare abbrev_loop.simps [simp del]

definition findAbbrev :: "memory \<Rightarrow> sections \<Rightarrow> 64 word \<Rightarrow> 64 word \<Rightarrow> unwind_exn + lexer" where
  "findAbbrev mem s off entry = abbrev_loop mem entry (section_lexer (se_debug_abbrev s) off)"

definition parseCompileUnit :: "memory \<Rightarrow> sections \<Rightarrow> lexer \<Rightarrow> debug_info \<Rightarrow> unwind_exn + debug_info \<times> lexer" where
  "parseCompileUnit mem s L d =
     ebind (readULEB128 mem L) (\<lambda>(entry, L1).
     ebind (findAbbrev mem s (di_debug_abbrev_offset d) entry) (\<lambda>A.
     attribute_loop mem s A L1 d))"

definition parse_unit :: "memory \<Rightarrow> sections \<Rightarrow> 64 word \<Rightarrow> debug_info \<Rightarrow> unwind_exn + debug_info" where
  "parse_unit mem s off d =
     ebind (parseHeader mem s off d) (\<lambda>(d1, L). map_sum id fst (parseCompileUnit mem s L d1))"

definition nextOffset :: "sections \<Rightarrow> debug_info \<Rightarrow> 64 word" where
  "nextOffset s d = word_of_nat (di_end d) - word_of_nat (sec_data (se_debug_info s))"

section \<open>Address ranges\<close>

function ranges4_loop ::
    "memory \<Rightarrow> 64 word \<Rightarrow> (64 word \<times> 64 word) list \<Rightarrow> lexer \<Rightarrow> unwind_exn + (64 word \<times> 64 word) list" where
  "ranges4_loop mem base acc L =
     (case bind_rd (read_u64 mem) (\<lambda>start. map_rd (Pair start) (read_u64 mem)) L of
        Inl e \<Rightarrow> Inl e
      | Inr ((start, stop), L') \<Rightarrow>
          if start = 0 \<and> stop = 0 then Inr acc
          else if start = - 1 then ranges4_loop mem stop acc L'
          else ranges4_loop mem base (acc @ [(base + start, base + stop)]) L')"
  by auto
termination
  by (relation "measure (\<lambda>(mem, base, acc, L). 2 ^ 64 - lx_next L)")
    (auto dest!: progress_rdD [OF progress_bind [OF progress_u64 forward_map [OF forward_ints(4)]]])

definition readRanges4 :: "memory \<Rightarrow> sections \<Rightarrow> debug_info \<Rightarrow> 64 word \<Rightarrow> unwind_exn + (64 word \<times> 64 word) list" where
  "readRanges4 mem s d off = ranges4_loop mem (di_lowpc d) [] (section_lexer (se_debug_ranges s) off)"

text \<open>One operation of a range list: the new base and the ranges it adds.\<close>

definition range_op :: "memory \<Rightarrow> sections \<Rightarrow> debug_info \<Rightarrow> byte \<Rightarrow> 64 word \<Rightarrow> (64 word \<times> (64 word \<times> 64 word) list) rd" where
  "range_op mem s d op base =
     (if op = DW_RLE_base_addressx then map_rd (\<lambda>b. (b, [])) (readEncodedForm mem s d DW_FORM_addrx)
      else if op = DW_RLE_startx_length
      then bind_rd (readEncodedForm mem s d DW_FORM_addrx) (\<lambda>b. map_rd (\<lambda>n. (base, [(b, b + n)])) (readULEB128 mem))
      else if op = DW_RLE_base_address then map_rd (\<lambda>b. (b, [])) (read_u64 mem)
      else if op = DW_RLE_offset_pair
      then bind_rd (readULEB128 mem) (\<lambda>b. map_rd (\<lambda>e. (base, [(base + b, base + e)])) (readULEB128 mem))
      else if op = DW_RLE_start_length
      then bind_rd (read_u64 mem) (\<lambda>b. map_rd (\<lambda>n. (base, [(b, b + n)])) (readULEB128 mem))
      else throw_rd (Unwind_error ''unknown range op''))"

lemma forward_encoded_form: "forward_rd (readEncodedForm mem s d enc)"
  unfolding readEncodedForm_def readSegmentOffset_def by (intro forward_intros forward_lift)

lemma forward_range_op: "forward_rd (range_op mem s d op base)"
  unfolding range_op_def by (intro forward_intros forward_encoded_form)

function ranges5_loop ::
    "memory \<Rightarrow> sections \<Rightarrow> debug_info \<Rightarrow> 64 word \<Rightarrow> (64 word \<times> 64 word) list \<Rightarrow> lexer \<Rightarrow> unwind_exn + (64 word \<times> 64 word) list" where
  "ranges5_loop mem s d base acc L =
     (case read_u8 mem L of
        Inl e \<Rightarrow> Inl e
      | Inr (op, L1) \<Rightarrow>
          if op = DW_RLE_end_of_list then Inr acc
          else case range_op mem s d op base L1 of
                 Inl e \<Rightarrow> Inl e
               | Inr ((base', rs), L2) \<Rightarrow> ranges5_loop mem s d base' (acc @ rs) L2)"
  by auto
termination
  by (relation "measure (\<lambda>(mem, s, d, base, acc, L). 2 ^ 64 - lx_next L)")
    (auto dest!: progress_rdD [OF progress_u8] forward_rdD [OF forward_range_op])

declare ranges4_loop.simps [simp del] ranges5_loop.simps [simp del]

definition readRanges5 :: "memory \<Rightarrow> sections \<Rightarrow> debug_info \<Rightarrow> 64 word \<Rightarrow> unwind_exn + (64 word \<times> 64 word) list" where
  "readRanges5 mem s d off = ranges5_loop mem s d 0 [] (section_lexer (se_debug_rnglists s) off)"

definition unit_ranges :: "memory \<Rightarrow> sections \<Rightarrow> debug_info \<Rightarrow> unwind_exn + (64 word \<times> 64 word) list" where
  "unit_ranges mem s d =
     (case di_range_ptr d of
        Some (ptr, form) \<Rightarrow>
          ebind (if form = ucast DW_FORM_rnglistx
                 then case di_rnglists_base d of
                        None \<Rightarrow> Inl (Unwind_error ''rnglistx but not rnglists_base_ set'')
                      | Some b \<Rightarrow>
                          map_sum id (\<lambda>(off, L). b + off)
                            (readSegmentOffset mem (di_is_64bit d)
                              (section_lexer (se_debug_rnglists s) (b + ptr * word_of_nat (di_sec_offset_size d))))
                 else Inr ptr)
            (\<lambda>off. if di_version d = 4 then readRanges4 mem s d off else readRanges5 mem s d off)
      | None \<Rightarrow> (case di_highpc d of None \<Rightarrow> Inr [] | Some h \<Rightarrow> Inr [(di_lowpc d, di_lowpc d + h)]))"


section \<open>Encoded range lists\<close>

text \<open>A range list of DWARF 4 and of DWARF 5, its encoding, and the ranges it denotes.\<close>

datatype range_pair = Range "64 word" "64 word" | New_base "64 word"

fun encode_pair :: "range_pair \<Rightarrow> byte list" where
  "encode_pair (Range b e) = le_bytes 8 (unat b) @ le_bytes 8 (unat e)"
| "encode_pair (New_base a) = le_bytes 8 (unat (- 1 :: 64 word)) @ le_bytes 8 (unat a)"

fun pair_ok :: "range_pair \<Rightarrow> bool" where
  "pair_ok (Range b e) \<longleftrightarrow> \<not> (b = 0 \<and> e = 0) \<and> b \<noteq> - 1"
| "pair_ok (New_base a) \<longleftrightarrow> True"

fun denote_pairs :: "range_pair list \<Rightarrow> 64 word \<Rightarrow> (64 word \<times> 64 word) list" where
  "denote_pairs [] base = []"
| "denote_pairs (Range b e # rs) base = (base + b, base + e) # denote_pairs rs base"
| "denote_pairs (New_base a # rs) base = denote_pairs rs a"

datatype range_entry =
  Base_addressx "64 word"
| Startx_length "64 word" "64 word"
| Offset_pair "64 word" "64 word"
| Base_address "64 word"
| Start_length "64 word" "64 word"

fun encode_entry :: "range_entry \<Rightarrow> byte list" where
  "encode_entry (Base_addressx i) = 0x01 # uleb i"
| "encode_entry (Startx_length i n) = 0x03 # uleb i @ uleb n"
| "encode_entry (Offset_pair b e) = 0x04 # uleb b @ uleb e"
| "encode_entry (Base_address a) = 0x05 # le_bytes 8 (unat a)"
| "encode_entry (Start_length b n) = 0x07 # le_bytes 8 (unat b) @ uleb n"

fun denote_entry :: "(64 word \<Rightarrow> unwind_exn + 64 word) \<Rightarrow> range_entry \<Rightarrow> 64 word \<Rightarrow> unwind_exn + 64 word \<times> (64 word \<times> 64 word) list" where
  "denote_entry addrx (Base_addressx i) base = map_sum id (\<lambda>a. (a, [])) (addrx i)"
| "denote_entry addrx (Startx_length i n) base = map_sum id (\<lambda>a. (base, [(a, a + n)])) (addrx i)"
| "denote_entry addrx (Offset_pair b e) base = Inr (base, [(base + b, base + e)])"
| "denote_entry addrx (Base_address a) base = Inr (a, [])"
| "denote_entry addrx (Start_length b n) base = Inr (base, [(b, b + n)])"

fun denote_entries :: "(64 word \<Rightarrow> unwind_exn + 64 word) \<Rightarrow> range_entry list \<Rightarrow> 64 word \<Rightarrow> unwind_exn + (64 word \<times> 64 word) list" where
  "denote_entries addrx [] base = Inr []"
| "denote_entries addrx (e # es) base =
     ebind (denote_entry addrx e base) (\<lambda>(base', rs). map_sum id (\<lambda>rs'. rs @ rs') (denote_entries addrx es base'))"

lemma holds_u64:
  assumes "holds mem L (le_bytes 8 (unat v) @ bs)"
  shows "read_u64 mem L = Inr (v, advance 8 L)" "holds mem (advance 8 L) bs"
proof -
  have h: "holds mem L (le_bytes 8 (unat v))" "holds mem (advance 8 L) bs"
    using holds_append [OF assms] by (simp_all add: le_nat_bytes)
  show "holds mem (advance 8 L) bs" by (rule h(2))
  show "read_u64 mem L = Inr (v, advance 8 L)" unfolding read_u64_def by (rule holds_le [OF h(1)]) simp
qed

lemma holds_uleb_then:
  assumes "holds mem L (uleb u @ bs)"
  shows "readULEB128 mem L = Inr (u, advance (length (uleb u)) L)" "holds mem (advance (length (uleb u)) L) bs"
  using holds_append [OF assms] holds_uleb by blast+

lemma holds_u64_pair:
  assumes "holds mem L (le_bytes 8 (unat u) @ le_bytes 8 (unat v) @ bs)"
  shows "bind_rd (read_u64 mem) (\<lambda>start. map_rd (Pair start) (read_u64 mem)) L = Inr ((u, v), advance 16 L)"
    "holds mem (advance 16 L) bs"
  using holds_u64 [OF assms] holds_u64 [OF holds_u64(2) [OF assms]] by (simp_all add: rd_defs add.assoc)

lemma le_bytes_zero: "le_bytes n 0 = replicate n 0"
  by (induction n) simp_all

lemma ranges4_loop_decode:
  assumes "holds mem L (concat (map encode_pair rs) @ replicate 16 0)" "list_all pair_ok rs"
  shows "ranges4_loop mem base acc L = Inr (acc @ denote_pairs rs base)"
  using assms
proof (induction rs arbitrary: base acc L)
  case Nil
  have "holds mem L (le_bytes 8 (unat (0 :: 64 word)) @ le_bytes 8 (unat (0 :: 64 word)) @ [])"
    using Nil(1) replicate_add [of 8 8 "0 :: byte"] by (simp add: le_bytes_zero)
  from holds_u64_pair(1) [OF this] show ?case by (subst ranges4_loop.simps) simp
next
  case (Cons r rs)
  show ?case
  proof (cases r)
    case (Range b e)
    have "holds mem L (le_bytes 8 (unat b) @ le_bytes 8 (unat e) @ concat (map encode_pair rs) @ replicate 16 0)"
      using Cons.prems(1) Range by simp
    note h = holds_u64_pair [OF this]
    show ?thesis using Cons.IH [OF h(2)] Cons.prems(2) Range h(1) by (subst ranges4_loop.simps) simp
  next
    case (New_base a)
    have "holds mem L (le_bytes 8 (unat (- 1 :: 64 word)) @ le_bytes 8 (unat a) @ concat (map encode_pair rs) @ replicate 16 0)"
      using Cons.prems(1) New_base by simp
    note h = holds_u64_pair [OF this]
    show ?thesis using Cons.IH [OF h(2)] Cons.prems(2) New_base h(1) by (subst ranges4_loop.simps) simp
  qed
qed

abbreviation addrx_of :: "memory \<Rightarrow> sections \<Rightarrow> debug_info \<Rightarrow> 64 word \<Rightarrow> unwind_exn + 64 word" where
  "addrx_of mem s d i \<equiv> read_in_section mem (se_debug_addr s) (di_address_base d + 8 * i)"

lemma holds_addrx:
  assumes "holds mem L (uleb i @ bs)"
  shows "readEncodedForm mem s d DW_FORM_addrx L =
    map_sum id (\<lambda>a. (a, advance (length (uleb i)) L)) (addrx_of mem s d i)"
  using holds_uleb_then(1) [OF assms]
  by (cases "addrx_of mem s d i") (simp_all add: readEncodedForm_def dw_form_defs rd_defs lift_rd_def)

lemma range_op_decode:
  assumes "holds mem L (encode_entry e @ bs)"
  shows "\<exists>op L1. read_u8 mem L = Inr (op, L1) \<and> op \<noteq> DW_RLE_end_of_list \<and>
    (case denote_entry (addrx_of mem s d) e base of
       Inl x \<Rightarrow> range_op mem s d op base L1 = Inl x
     | Inr r \<Rightarrow> \<exists>L2. range_op mem s d op base L1 = Inr (r, L2) \<and> holds mem L2 bs)"
proof (cases e)
  case (Base_addressx i)
  have h: "holds mem L (0x01 # uleb i @ bs)" using assms Base_addressx by simp
  note u = holds_u8 [OF h]
  show ?thesis using u(1) holds_addrx [OF u(2), of s d] holds_uleb_then(2) [OF u(2)] Base_addressx
    by (cases "addrx_of mem s d i") (auto simp: range_op_def dw_rle_defs rd_defs)
next
  case (Startx_length i n)
  have h: "holds mem L (0x03 # uleb i @ uleb n @ bs)" using assms Startx_length by simp
  note u = holds_u8 [OF h]
  show ?thesis
    using u(1) holds_addrx [OF u(2), of s d] holds_uleb_then [OF holds_uleb_then(2) [OF u(2)]] Startx_length
    by (cases "addrx_of mem s d i") (auto simp: range_op_def dw_rle_defs rd_defs)
next
  case (Offset_pair b n)
  have h: "holds mem L (0x04 # uleb b @ uleb n @ bs)" using assms Offset_pair by simp
  note u = holds_u8 [OF h]
  show ?thesis
    using u(1) holds_uleb_then(1) [OF u(2)] holds_uleb_then [OF holds_uleb_then(2) [OF u(2)]] Offset_pair
    by (auto simp: range_op_def dw_rle_defs rd_defs)
next
  case (Base_address a)
  have h: "holds mem L (0x05 # le_bytes 8 (unat a) @ bs)" using assms Base_address by simp
  note u = holds_u8 [OF h]
  show ?thesis using u(1) holds_u64 [OF u(2)] Base_address by (auto simp: range_op_def dw_rle_defs rd_defs)
next
  case (Start_length b n)
  have h: "holds mem L (0x07 # le_bytes 8 (unat b) @ uleb n @ bs)" using assms Start_length by simp
  note u = holds_u8 [OF h]
  show ?thesis using u(1) holds_u64(1) [OF u(2)] holds_uleb_then [OF holds_u64(2) [OF u(2)]] Start_length
    by (auto simp: range_op_def dw_rle_defs rd_defs)
qed

lemma ranges5_loop_decode:
  assumes "holds mem L (concat (map encode_entry es) @ [0])"
  shows "ranges5_loop mem s d base acc L =
    map_sum id (\<lambda>rs. acc @ rs) (denote_entries (addrx_of mem s d) es base)"
  using assms
proof (induction es arbitrary: base acc L)
  case Nil
  then have "holds mem L [0]" by simp
  from holds_u8(1) [OF this] show ?case by (subst ranges5_loop.simps) (simp add: dw_rle_defs)
next
  case (Cons e es)
  have h: "holds mem L (encode_entry e @ (concat (map encode_entry es) @ [0]))" using Cons.prems by simp
  obtain op L1 where op: "read_u8 mem L = Inr (op, L1)" "op \<noteq> DW_RLE_end_of_list"
      "case denote_entry (addrx_of mem s d) e base of
         Inl x \<Rightarrow> range_op mem s d op base L1 = Inl x
       | Inr r \<Rightarrow> \<exists>L2. range_op mem s d op base L1 = Inr (r, L2) \<and> holds mem L2 (concat (map encode_entry es) @ [0])"
    using range_op_decode [OF h, of s d base] by blast
  show ?case
  proof (cases "denote_entry (addrx_of mem s d) e base")
    case (Inl x)
    then show ?thesis using op by (subst ranges5_loop.simps) (simp add: ebind_def)
  next
    case (Inr r)
    obtain base' rs where r: "r = (base', rs)" by (cases r)
    obtain L2 where L2: "range_op mem s d op base L1 = Inr (r, L2)" "holds mem L2 (concat (map encode_entry es) @ [0])"
      using op(3) Inr by auto
    show ?thesis
      using op(1,2) L2(1) r Inr Cons.IH [OF L2(2), of base' "acc @ rs"]
      by (subst ranges5_loop.simps)
        (cases "denote_entries (addrx_of mem s d) es base'"; simp add: ebind_def)
  qed
qed


definition demo_ranges_mem :: memory where
  "demo_ranges_mem = memory_of 0x1000
     [0x10, 0, 0, 0, 0, 0, 0, 0, 0x20, 0, 0, 0, 0, 0, 0, 0, 0, 0, 0, 0, 0, 0, 0, 0, 0, 0, 0, 0, 0, 0, 0, 0, 0x04, 0x10, 0x20, 0]"

definition demo_units :: sections where
  "demo_units = new_sections\<lparr>se_debug_ranges := \<lparr>sec_data = 0x1000, sec_size = 32\<rparr>,
     se_debug_rnglists := \<lparr>sec_data = 0x1020, sec_size = 4\<rparr>\<rparr>"


end
