(* ===== verification/Line_Program.thy ===== *)
theory Line_Program
  imports Debug_Info
begin

text \<open>
  \<open>line_number_program.h\<close>: the header and the byte code of a DWARF 4 or 5 line number program, and
  the lookup of an address in the table the byte code builds. The object outlives an exception of
  \<open>parse\<close>, so the byte code is modelled with its state; an error while reading leaves the position
  of \<open>program_\<close> where the instruction began, which nothing observes afterwards. The fields a failing
  header has already set are not observable either, because the index of the program is empty then.
\<close>

section \<open>The program\<close>

record lp_entry =
  le_file :: "32 word"
  le_line :: "64 word"

definition default_entry :: lp_entry where
  "default_entry = \<lparr>le_file = 1, le_line = 1\<rparr>"

record line_program =
  lp_address :: "64 word"
  lp_shadow :: bool
  lp_parsed :: bool
  lp_current :: lp_entry
  lp_include_directories :: "byte list list"
  lp_file_names :: "byte list list"
  lp_file_directory_index :: "64 word list"
  lp_segment_selector_size :: byte
  lp_minimum_instruction_length :: byte
  lp_maximum_operations_per_instruction :: byte
  lp_line_base :: byte
  lp_line_range :: byte
  lp_opcode_base :: byte
  lp_default_is_stmt :: bool
  lp_program :: lexer
  lp_program_end :: nat
  lp_header_length :: "64 word"
  lp_length :: "64 word"
  lp_is_64bit :: bool
  lp_standard_opcode_lengths :: "byte list"
  lp_offset :: "64 word"
  lp_start_address :: "64 word"
  lp_program_index :: "64 word range_table"
  lp_all_programs :: "lp_entry range_table list"
  lp_ranges :: "lp_entry range_table"

definition new_line_program :: "64 word \<Rightarrow> line_program" where
  "new_line_program off =
     \<lparr>lp_address = 0, lp_shadow = False, lp_parsed = False, lp_current = default_entry, lp_include_directories = [],
      lp_file_names = [], lp_file_directory_index = [], lp_segment_selector_size = 0,
      lp_minimum_instruction_length = 0, lp_maximum_operations_per_instruction = 0, lp_line_base = 0,
      lp_line_range = 0, lp_opcode_base = 0, lp_default_is_stmt = False, lp_program = CheckedLexer 0 0 0,
      lp_program_end = 0, lp_header_length = 0, lp_length = 0, lp_is_64bit = False, lp_standard_opcode_lengths = [],
      lp_offset = off, lp_start_address = 0, lp_program_index = empty_table, lp_all_programs = [],
      lp_ranges = empty_table\<rparr>"

section \<open>The header\<close>

fun read_n :: "nat \<Rightarrow> 'a rd \<Rightarrow> 'a list rd" where
  "read_n 0 m = return_rd []"
| "read_n (Suc n) m = bind_rd m (\<lambda>x. map_rd (Cons x) (read_n n m))"

definition skipForm :: "64 word \<Rightarrow> bool \<Rightarrow> unit rd" where
  "skipForm form is_64bit =
     (case formSize form (if is_64bit then 8 else 4) of
        None \<Rightarrow> throw_rd (Unwind_error ''unsupported form'')
      | Some sz \<Rightarrow> skip_rd (word_of_nat sz))"

definition readData :: "memory \<Rightarrow> 64 word \<Rightarrow> 64 word rd" where
  "readData mem encoding =
     (if encoding = DW_FORM_data1 then map_rd ucast (read_u8 mem)
      else if encoding = DW_FORM_data2 then read_u16 mem
      else if encoding = DW_FORM_data4 then read_u32 mem
      else if encoding = DW_FORM_data8 then read_u64 mem
      else if encoding = DW_FORM_udata then readULEB128 mem
      else throw_rd (Unwind_error ''unsupported data encoding''))"

definition read_member :: "memory \<Rightarrow> (64 word \<times> 64 word) rd" where
  "read_member mem = bind_rd (readULEB128 mem) (\<lambda>ct. map_rd (Pair ct) (readULEB128 mem))"

text \<open>One directory and one file of a version 5 table, member by member.\<close>

fun read_directory ::
    "memory \<Rightarrow> sections \<Rightarrow> bool \<Rightarrow> (64 word \<times> 64 word) list \<Rightarrow> byte list list \<Rightarrow> byte list list rd" where
  "read_directory mem s is64 [] dirs = return_rd dirs"
| "read_directory mem s is64 ((ct, form) # ms) dirs =
     (if ct = DW_LNCT_path
      then bind_rd (readString mem s form is64) (\<lambda>d. read_directory mem s is64 ms (dirs @ [d]))
      else bind_rd (skipForm form is64) (\<lambda>_. read_directory mem s is64 ms dirs))"

fun read_file ::
    "memory \<Rightarrow> sections \<Rightarrow> bool \<Rightarrow> nat \<Rightarrow> (64 word \<times> 64 word) list \<Rightarrow> byte list list \<times> 64 word list \<Rightarrow>
       (byte list list \<times> 64 word list) rd" where
  "read_file mem s is64 ndirs [] files = return_rd files"
| "read_file mem s is64 ndirs ((ct, form) # ms) (names, idxs) =
     (if ct = DW_LNCT_path
      then bind_rd (readString mem s form is64) (\<lambda>n. read_file mem s is64 ndirs ms (names @ [n], idxs))
      else if ct = DW_LNCT_directory_index
      then bind_rd (readData mem form) (\<lambda>i.
           bind_rd (check_rd (unat i < ndirs) ''directory index out of range'') (\<lambda>_.
           read_file mem s is64 ndirs ms (names, idxs @ [i])))
      else bind_rd (skipForm form is64) (\<lambda>_. read_file mem s is64 ndirs ms (names, idxs)))"

fun repeat_rd :: "nat \<Rightarrow> ('a \<Rightarrow> 'a rd) \<Rightarrow> 'a \<Rightarrow> 'a rd" where
  "repeat_rd 0 m x = return_rd x"
| "repeat_rd (Suc n) m x = bind_rd (m x) (repeat_rd n m)"

definition read_tables5 ::
    "memory \<Rightarrow> sections \<Rightarrow> bool \<Rightarrow> byte \<Rightarrow> (byte list list \<times> byte list list \<times> 64 word list) rd" where
  "read_tables5 mem s is64 format_count =
     bind_rd (read_n (unat format_count) (read_member mem)) (\<lambda>directory_members.
     bind_rd (readULEB128 mem) (\<lambda>directories_count.
     bind_rd (repeat_rd (unat directories_count) (read_directory mem s is64 directory_members) []) (\<lambda>dirs.
     bind_rd (read_u8 mem) (\<lambda>file_format_count.
     bind_rd (read_n (unat file_format_count) (read_member mem)) (\<lambda>file_members.
     bind_rd (readULEB128 mem) (\<lambda>files_count.
     map_rd (Pair dirs) (repeat_rd (unat files_count) (read_file mem s is64 (length dirs) file_members) ([], []))))))))"

lemma cstring_progress: "cstring_loop mem L = Inr (x, L') \<Longrightarrow> lx_next L < lx_next L' \<and> lx_next L < 2 ^ 64"
proof (induction mem L arbitrary: x L' rule: cstring_loop.induct)
  case (1 mem L)
  then show ?case
    by (fastforce simp: cstring_loop.simps [of mem L] mem_byte_def Let_def split: if_splits option.splits sum.splits)
qed

lemma progress_cstring: "progress_rd (readCString mem)"
  unfolding progress_rd_def readCString_def using cstring_progress by blast

function read_strings4 :: "memory \<Rightarrow> byte list list \<Rightarrow> byte list list rd" where
  "read_strings4 mem acc L =
     (case readCString mem L of
        Inl e \<Rightarrow> Inl e
      | Inr (str, L') \<Rightarrow> if str = [] then Inr (acc, L') else read_strings4 mem (acc @ [str]) L')"
  by auto
termination
  by (relation "measure (\<lambda>(mem, acc, L). 2 ^ 64 - lx_next L)") (auto dest!: progress_rdD [OF progress_cstring])

definition read_file4 :: "memory \<Rightarrow> (byte list \<times> 64 word) option rd" where
  "read_file4 mem =
     bind_rd (readCString mem) (\<lambda>str.
       if str = [] then return_rd None
       else bind_rd (readULEB128 mem) (\<lambda>directory_index.
            bind_rd (readULEB128 mem) (\<lambda>mod_time.
            map_rd (\<lambda>file_length. Some (str, directory_index)) (readULEB128 mem))))"

lemma progress_file4: "progress_rd (read_file4 mem)"
  unfolding read_file4_def by (intro progress_bind progress_cstring forward_intros)

function read_files4 :: "memory \<Rightarrow> byte list list \<Rightarrow> 64 word list \<Rightarrow> (byte list list \<times> 64 word list) rd" where
  "read_files4 mem names idxs L =
     (case read_file4 mem L of
        Inl e \<Rightarrow> Inl e
      | Inr (None, L') \<Rightarrow> Inr ((names, idxs), L')
      | Inr (Some (str, i), L') \<Rightarrow> read_files4 mem (names @ [str]) (idxs @ [i]) L')"
  by auto
termination
  by (relation "measure (\<lambda>(mem, names, idxs, L). 2 ^ 64 - lx_next L)") (auto dest!: progress_rdD [OF progress_file4])

declare read_strings4.simps [simp del] read_files4.simps [simp del]

definition read_tables4 :: "memory \<Rightarrow> (byte list list \<times> byte list list \<times> 64 word list) rd" where
  "read_tables4 mem =
     bind_rd (read_strings4 mem [[]]) (\<lambda>dirs. map_rd (Pair dirs) (read_files4 mem [[]] [0]))"

text \<open>\<open>parse\<close> up to the byte code. The byte after the opcode lengths is read for both versions.\<close>

definition get_rd :: "lexer rd" where
  "get_rd L = Inr (L, L)"

definition read_line_header :: "memory \<Rightarrow> sections \<Rightarrow> line_program \<Rightarrow> line_program rd" where
  "read_line_header mem s p =
     bind_rd (readSectionLength mem) (\<lambda>(len, is64).
     bind_rd loc_rd (\<lambda>here.
     bind_rd (read_u16 mem) (\<lambda>version.
     bind_rd (check_rd (version = 5 \<or> version = 4) ''expected version 4 or 5'') (\<lambda>_.
     bind_rd (if version = 5
              then bind_rd (read_u8 mem) (\<lambda>address_size.
                   bind_rd (check_rd (address_size = 8) ''expected 64-bit dwarf'') (\<lambda>_. read_u8 mem))
              else return_rd (lp_segment_selector_size p)) (\<lambda>selector_size.
     bind_rd (readSegmentOffset mem is64) (\<lambda>header_length.
     bind_rd get_rd (\<lambda>after_length.
     bind_rd (read_u8 mem) (\<lambda>min_length.
     bind_rd (read_u8 mem) (\<lambda>max_ops.
     bind_rd (read_u8 mem) (\<lambda>is_stmt.
     bind_rd (read_u8 mem) (\<lambda>line_base.
     bind_rd (read_u8 mem) (\<lambda>line_range.
     bind_rd (read_u8 mem) (\<lambda>opcode_base.
     bind_rd (check_rd (line_range \<noteq> 0) ''line_range_ must be non-zero'') (\<lambda>_.
     bind_rd (read_n (unat opcode_base - 1) (read_u8 mem)) (\<lambda>lengths.
     bind_rd (read_u8 mem) (\<lambda>format_count.
     bind_rd (if version = 5 then read_tables5 mem s is64 format_count else read_tables4 mem) (\<lambda>(dirs, names, idxs).
     bind_rd (check_rd (max_ops = 1) ''maximum_operations_per_instruction_ must be 1'') (\<lambda>_.
     bind_rd (check_rd (min_length = 1) ''minimum_instruction_length_ must be 1'') (\<lambda>_.
     return_rd (p\<lparr>lp_length := len, lp_is_64bit := is64, lp_program_end := size_add here (unat len),
       lp_segment_selector_size := selector_size, lp_header_length := header_length,
       lp_program := skip header_length after_length, lp_minimum_instruction_length := min_length,
       lp_maximum_operations_per_instruction := max_ops, lp_default_is_stmt := (is_stmt \<noteq> 0),
       lp_line_base := line_base, lp_line_range := line_range, lp_opcode_base := opcode_base,
       lp_standard_opcode_lengths := (if opcode_base = 0 then [] else 0 # lengths),
       lp_include_directories := lp_include_directories p @ dirs, lp_file_names := lp_file_names p @ names,
       lp_file_directory_index := lp_file_directory_index p @ idxs\<rparr>))))))))))))))))))))"

section \<open>The byte code\<close>

type_synonym lp_op = "line_program \<Rightarrow> (unwind_exn + unit) \<times> line_program"

definition produceEntry :: lp_op where
  "produceEntry p =
     (if lp_shadow p then (Inr (), p)
      else let p1 = (if table_size (lp_ranges p) = 1 then p\<lparr>lp_start_address := lp_address p\<rparr> else p)
           in if unat (le_file (lp_current p)) < length (lp_file_names p)
              then case add (lp_address p) (Some (lp_current p)) True (lp_ranges p) of
                     Inl e \<Rightarrow> (Inl e, p1)
                   | Inr t \<Rightarrow> (Inr (), p1\<lparr>lp_ranges := t\<rparr>)
              else (Inl (Unwind_error ''file index out of range''), p1))"

definition endSequence :: lp_op where
  "endSequence p =
     (if lp_shadow p then (Inr (), p)
      else case add_range (lp_start_address p) (lp_address p) (word_of_nat (length (lp_all_programs p))) (lp_program_index p) of
             Inl e \<Rightarrow> (Inl e, p)
           | Inr t \<Rightarrow> (Inr (), p\<lparr>lp_program_index := t, lp_all_programs := lp_all_programs p @ [lp_ranges p],
               lp_ranges := empty_table\<rparr>))"

definition with_read :: "'a rd \<Rightarrow> ('a \<Rightarrow> lp_op) \<Rightarrow> lp_op" where
  "with_read m k p = (case m (lp_program p) of Inl e \<Rightarrow> (Inl e, p) | Inr (x, L) \<Rightarrow> k x (p\<lparr>lp_program := L\<rparr>))"

definition update_lp :: "(line_program \<Rightarrow> line_program) \<Rightarrow> lp_op" where
  "update_lp f p = (Inr (), f p)"

definition add_line :: "64 word \<Rightarrow> line_program \<Rightarrow> line_program" where
  "add_line n p = p\<lparr>lp_current := (lp_current p)\<lparr>le_line := le_line (lp_current p) + n\<rparr>\<rparr>"

definition special_opcode :: "byte \<Rightarrow> lp_op" where
  "special_opcode op p =
     (let op2 = unat op - unat (lp_opcode_base p); range = unat (lp_line_range p)
      in produceEntry (add_line (scast (lp_line_base p) + word_of_nat (op2 mod range))
           (p\<lparr>lp_address := lp_address p + word_of_nat (op2 div range)\<rparr>)))"

definition extended_opcode :: "memory \<Rightarrow> lp_op" where
  "extended_opcode mem =
     with_read (readULEB128 mem) (\<lambda>len. with_read (read_u8 mem) (\<lambda>extended_op.
       if extended_op = DW_LNE_end_sequence
       then (\<lambda>p. and_then (endSequence p) (update_lp (\<lambda>p. p\<lparr>lp_current := default_entry\<rparr>)))
       else if extended_op = DW_LNE_set_address
       then with_read (read_u64 mem) (\<lambda>a. update_lp (\<lambda>p. p\<lparr>lp_address := a, lp_shadow := (a = 0)\<rparr>))
       else update_lp (\<lambda>p. p\<lparr>lp_program := skip (len - 1) (lp_program p)\<rparr>)))"

definition standard_opcode :: "memory \<Rightarrow> byte \<Rightarrow> lp_op" where
  "standard_opcode mem op p =
     (if op = DW_LNS_extended_op then extended_opcode mem p
      else if op = DW_LNS_copy then produceEntry p
      else if op = DW_LNS_advance_pc
      then with_read (readULEB128 mem) (\<lambda>n. update_lp (\<lambda>p. p\<lparr>lp_address := lp_address p + n\<rparr>)) p
      else if op = DW_LNS_advance_line then with_read (readSLEB128 mem) (\<lambda>n. update_lp (add_line n)) p
      else if op = DW_LNS_set_file
      then with_read (readULEB128 mem) (\<lambda>n. update_lp (\<lambda>p. p\<lparr>lp_current := (lp_current p)\<lparr>le_file := ucast n\<rparr>\<rparr>)) p
      else if op = DW_LNS_const_add_pc
      then update_lp (\<lambda>p. p\<lparr>lp_address := lp_address p +
             word_of_nat ((255 - unat (lp_opcode_base p)) div unat (lp_line_range p))\<rparr>) p
      else if op = DW_LNS_fixed_advance_pc
      then with_read (read_u16 mem) (\<lambda>n. update_lp (\<lambda>p. p\<lparr>lp_address := lp_address p + n\<rparr>)) p
      else with_read (read_n (unat (lp_standard_opcode_lengths p ! unat op)) (readULEB128 mem)) (\<lambda>_. update_lp id) p)"

definition line_step :: "memory \<Rightarrow> lp_op" where
  "line_step mem =
     with_read (read_u8 mem) (\<lambda>op p.
       if op \<ge> lp_opcode_base p then special_opcode op p else standard_opcode mem op p)"

text \<open>\<open>readProgram\<close>; an extended operation may skip backwards, so the loop need not end.\<close>

partial_function (option) readProgram :: "memory \<Rightarrow> line_program \<Rightarrow> ((unwind_exn + unit) \<times> line_program) option" where
  "readProgram mem p =
     (if lx_next (lp_program p) < lp_program_end p
      then case line_step mem p of
             (Inl e, p') \<Rightarrow> Some (Inl e, p')
           | (Inr u, p') \<Rightarrow> readProgram mem p'
      else Some (Inr (), p))"

definition parse_line_program ::
    "memory \<Rightarrow> sections \<Rightarrow> line_program \<Rightarrow> ((unwind_exn + unit) \<times> line_program) option" where
  "parse_line_program mem s p =
     (if lp_parsed p then Some (Inr (), p)
      else let p0 = p\<lparr>lp_parsed := True\<rparr>
           in case read_line_header mem s p0 (section_lexer (se_debug_line s) (lp_offset p)) of
                Inl e \<Rightarrow> Some (Inl e, p0)
              | Inr (p1, L) \<Rightarrow> readProgram mem p1)"

definition find_entry :: "64 word \<Rightarrow> line_program \<Rightarrow> (unwind_exn + lp_entry option) \<times> line_program" where
  "find_entry address p =
     (let (r, t) = find_range address (lp_program_index p); p1 = p\<lparr>lp_program_index := t\<rparr>
      in case r of
           Inl e \<Rightarrow> (Inl e, p1)
         | Inr None \<Rightarrow> (Inr None, p1)
         | Inr (Some i) \<Rightarrow>
             if unat i < length (lp_all_programs p1)
             then let (r2, t2) = find_range address (lp_all_programs p1 ! unat i)
                  in (r2, p1\<lparr>lp_all_programs := (lp_all_programs p1)[unat i := t2]\<rparr>)
             else (Inl Out_of_range, p1))"

definition filename :: "64 word \<Rightarrow> line_program \<Rightarrow> unwind_exn + byte list" where
  "filename index p =
     ebind (at_index (lp_file_directory_index p) (unat index)) (\<lambda>di.
     ebind (at_index (lp_include_directories p) (unat di)) (\<lambda>dir.
     ebind (at_index (lp_file_names p) (unat index)) (\<lambda>nm. Inr (dir @ [0x2F] @ nm))))"

end
