(* ===== verification/Line_Table.thy ===== *)
theory Line_Table
  imports Line_Program
begin

text \<open>
  What a line number program means: a machine on the registers address, file and line that emits
  rows and closes sequences of them. The byte code loop refines this machine on encoded programs,
  and looking up an address gives the last row at or below it in the sequence that contains it.
\<close>

section \<open>The abstract machine\<close>

datatype line_op =
  Special byte
| Copy
| Advance_pc "64 word"
| Advance_line "64 word"
| Set_file "64 word"
| Const_add_pc
| Fixed_advance_pc "16 word"
| Other_op byte "64 word list"
| End_sequence "64 word"
| Set_address "64 word" "64 word"
| Unknown_extended byte "byte list"

type_synonym row = "64 word \<times> lp_entry"

record line_machine =
  lm_address :: "64 word"
  lm_shadow :: bool
  lm_entry :: lp_entry
  lm_start :: "64 word"
  lm_rows :: "row list"
  lm_sequences :: "(64 word \<times> 64 word \<times> row list) list"

text \<open>The constants of the header the byte code depends on.\<close>

record line_params =
  pm_line_base :: byte
  pm_line_range :: byte
  pm_opcode_base :: byte
  pm_lengths :: "byte list"
  pm_files :: nat

definition emit_row :: "line_params \<Rightarrow> line_machine \<Rightarrow> unwind_exn + line_machine" where
  "emit_row c a =
     (if lm_shadow a then Inr a
      else if pm_files c \<le> unat (le_file (lm_entry a)) then Inl (Unwind_error ''file index out of range'')
      else if lm_rows a \<noteq> [] \<and> lm_address a < fst (last (lm_rows a))
      then Inl (Unwind_error ''expected addresses to be sorted'')
      else Inr (a\<lparr>lm_start := (if lm_rows a = [] then lm_address a else lm_start a),
                  lm_rows := lm_rows a @ [(lm_address a, lm_entry a)]\<rparr>))"

definition close_sequence :: "line_machine \<Rightarrow> line_machine" where
  "close_sequence a =
     (if lm_shadow a then a
      else a\<lparr>lm_sequences := lm_sequences a @ [(lm_start a, lm_address a, lm_rows a)], lm_rows := []\<rparr>)"

fun machine_step :: "line_params \<Rightarrow> line_op \<Rightarrow> line_machine \<Rightarrow> unwind_exn + line_machine" where
  "machine_step c (Special op) a =
     (let k = unat op - unat (pm_opcode_base c); e = lm_entry a
      in emit_row c (a\<lparr>lm_address := lm_address a + word_of_nat (k div unat (pm_line_range c)),
           lm_entry := e\<lparr>le_line := le_line e + (scast (pm_line_base c) + word_of_nat (k mod unat (pm_line_range c)))\<rparr>\<rparr>))"
| "machine_step c Copy a = emit_row c a"
| "machine_step c (Advance_pc n) a = Inr (a\<lparr>lm_address := lm_address a + n\<rparr>)"
| "machine_step c (Advance_line n) a = Inr (a\<lparr>lm_entry := (lm_entry a)\<lparr>le_line := le_line (lm_entry a) + n\<rparr>\<rparr>)"
| "machine_step c (Set_file n) a = Inr (a\<lparr>lm_entry := (lm_entry a)\<lparr>le_file := ucast n\<rparr>\<rparr>)"
| "machine_step c Const_add_pc a =
     Inr (a\<lparr>lm_address := lm_address a + word_of_nat ((255 - unat (pm_opcode_base c)) div unat (pm_line_range c))\<rparr>)"
| "machine_step c (Fixed_advance_pc n) a = Inr (a\<lparr>lm_address := lm_address a + ucast n\<rparr>)"
| "machine_step c (Other_op op args) a = Inr a"
| "machine_step c (End_sequence len) a = Inr ((close_sequence a)\<lparr>lm_entry := default_entry\<rparr>)"
| "machine_step c (Set_address len v) a = Inr (a\<lparr>lm_address := v, lm_shadow := (v = 0)\<rparr>)"
| "machine_step c (Unknown_extended op data) a = Inr a"

fun run_machine :: "line_params \<Rightarrow> line_op list \<Rightarrow> line_machine \<Rightarrow> unwind_exn + line_machine" where
  "run_machine c [] a = Inr a"
| "run_machine c (i # is) a = ebind (machine_step c i a) (run_machine c is)"

fun encode_line_op :: "line_op \<Rightarrow> byte list" where
  "encode_line_op (Special op) = [op]"
| "encode_line_op Copy = [0x01]"
| "encode_line_op (Advance_pc n) = 0x02 # uleb n"
| "encode_line_op (Advance_line n) = 0x03 # sleb n"
| "encode_line_op (Set_file n) = 0x04 # uleb n"
| "encode_line_op Const_add_pc = [0x08]"
| "encode_line_op (Fixed_advance_pc n) = 0x09 # le_bytes 2 (unat n)"
| "encode_line_op (Other_op op args) = op # concat (map (\<lambda>u. uleb u) args)"
| "encode_line_op (End_sequence len) = 0x00 # uleb len @ [0x01]"
| "encode_line_op (Set_address len v) = 0x00 # uleb len @ 0x02 # le_bytes 8 (unat v)"
| "encode_line_op (Unknown_extended op data) = 0x00 # uleb (word_of_nat (1 + length data)) @ op # data"

text \<open>Which operations an encoding is an instruction of, for a header.\<close>

fun line_op_ok :: "line_params \<Rightarrow> line_op \<Rightarrow> bool" where
  "line_op_ok c (Special op) \<longleftrightarrow> pm_opcode_base c \<le> op"
| "line_op_ok c Copy \<longleftrightarrow> 1 < pm_opcode_base c"
| "line_op_ok c (Advance_pc n) \<longleftrightarrow> 2 < pm_opcode_base c"
| "line_op_ok c (Advance_line n) \<longleftrightarrow> 3 < pm_opcode_base c"
| "line_op_ok c (Set_file n) \<longleftrightarrow> 4 < pm_opcode_base c"
| "line_op_ok c Const_add_pc \<longleftrightarrow> 8 < pm_opcode_base c"
| "line_op_ok c (Fixed_advance_pc n) \<longleftrightarrow> 9 < pm_opcode_base c"
| "line_op_ok c (Other_op op args) \<longleftrightarrow>
     op < pm_opcode_base c \<and> op \<notin> {0, 1, 2, 3, 4, 8, 9} \<and> length args = unat (pm_lengths c ! unat op)"
| "line_op_ok c (End_sequence len) \<longleftrightarrow> 0 < pm_opcode_base c"
| "line_op_ok c (Set_address len v) \<longleftrightarrow> 0 < pm_opcode_base c"
| "line_op_ok c (Unknown_extended op data) \<longleftrightarrow> 0 < pm_opcode_base c \<and> op \<notin> {1, 2} \<and> length data < 2 ^ 63"

section \<open>Representation\<close>

definition table_of_rows :: "row list \<Rightarrow> lp_entry range_table" where
  "table_of_rows rows =
     \<lparr>rt_sorted = True, rt_addresses = 0 # map fst rows, rt_payloads = None # map (\<lambda>r. Some (snd r)) rows\<rparr>"

definition sequence_ranges :: "(64 word \<times> 64 word \<times> row list) list \<Rightarrow> (64 word \<times> 64 word \<times> 64 word) list" where
  "sequence_ranges qs = map (\<lambda>((b, e, rows), i). (b, e, word_of_nat i)) (zip qs [0..<length qs])"

definition params_of :: "line_program \<Rightarrow> line_params" where
  "params_of p = \<lparr>pm_line_base = lp_line_base p, pm_line_range = lp_line_range p, pm_opcode_base = lp_opcode_base p,
     pm_lengths = lp_standard_opcode_lengths p, pm_files = length (lp_file_names p)\<rparr>"

definition represents :: "line_program \<Rightarrow> line_machine \<Rightarrow> bool" where
  "represents p a \<longleftrightarrow>
     lp_address p = lm_address a \<and> lp_shadow p = lm_shadow a \<and> lp_current p = lm_entry a \<and>
     lp_start_address p = lm_start a \<and> lp_ranges p = table_of_rows (lm_rows a) \<and>
     lp_all_programs p = map (\<lambda>(b, e, rows). table_of_rows rows) (lm_sequences a) \<and>
     build_ranges (sequence_ranges (lm_sequences a)) empty_table = Inr (lp_program_index p)"

text \<open>What an instruction does not touch: the header and the file table.\<close>

definition same_header :: "line_program \<Rightarrow> line_program \<Rightarrow> bool" where
  "same_header p q \<longleftrightarrow> params_of q = params_of p \<and> lp_program_end q = lp_program_end p \<and>
     lp_include_directories q = lp_include_directories p \<and> lp_file_names q = lp_file_names p \<and>
     lp_file_directory_index q = lp_file_directory_index p"

lemma represents_set_program: "represents (p\<lparr>lp_program := L\<rparr>) a = represents p a"
  by (simp add: represents_def)

lemma build_ranges_snoc:
  "build_ranges (rs @ [(b, e, v)]) t =
     (case build_ranges rs t of Inl x \<Rightarrow> Inl x | Inr t1 \<Rightarrow> add_range b e v t1)"
  by (induction rs arbitrary: t) (auto split: sum.split)

lemma sequence_ranges_snoc:
  "sequence_ranges (qs @ [(b, e, rows)]) = sequence_ranges qs @ [(b, e, word_of_nat (length qs))]"
  by (simp add: sequence_ranges_def)

lemma table_of_rows_snoc:
  "add a (Some e) True (table_of_rows rows) =
     (if rows \<noteq> [] \<and> a < fst (last rows) then Inl (Unwind_error ''expected addresses to be sorted'')
      else Inr (table_of_rows (rows @ [(a, e)])))"
  by (cases "rows = []") (auto simp: add_def table_of_rows_def last_map)

lemma table_of_rows_size: "table_size (table_of_rows rows) = 1 \<longleftrightarrow> rows = []"
  by (simp add: table_size_def table_of_rows_def)

lemma table_of_rows_empty: "table_of_rows [] = empty_table"
  by (simp add: table_of_rows_def empty_table_def)

text \<open>An operation on the object that agrees with a step of the machine.\<close>

definition agrees :: "(unwind_exn + unit) \<times> line_program \<Rightarrow> unwind_exn + line_machine \<Rightarrow> line_program \<Rightarrow> lexer \<Rightarrow> bool" where
  "agrees r m p L \<longleftrightarrow> same_header p (snd r) \<and>
     (case m of
        Inl e \<Rightarrow> fst r = Inl e
      | Inr a \<Rightarrow> fst r = Inr () \<and> represents (snd r) a \<and> lp_program (snd r) = L)"

lemma produceEntry_agrees:
  assumes "represents p a" "params_of p = c"
  shows "agrees (produceEntry p) (emit_row c a) p (lp_program p)"
proof (cases "lm_shadow a")
  case True
  then show ?thesis using assms by (simp add: agrees_def produceEntry_def emit_row_def same_header_def represents_def)
next
  case False
  have f: "pm_files c = length (lp_file_names p)" using assms(2) by (auto simp: params_of_def)
  show ?thesis
    using assms(1) f False
    by (auto simp: agrees_def produceEntry_def emit_row_def same_header_def represents_def params_of_def Let_def
        table_of_rows_snoc table_of_rows_size simp del: One_nat_def)
qed

lemma endSequence_agrees:
  assumes "represents p a"
  shows "agrees (endSequence p) (Inr (close_sequence a)) p (lp_program p)"
proof (cases "lm_shadow a")
  case True
  then show ?thesis using assms by (simp add: agrees_def endSequence_def close_sequence_def same_header_def represents_def)
next
  case False
  obtain t where t: "add_range (lm_start a) (lm_address a) (word_of_nat (length (lm_sequences a))) (lp_program_index p) = Inr t"
    by (metis add_range_total)
  then show ?thesis
    using assms False
    by (simp add: agrees_def endSequence_def close_sequence_def same_header_def represents_def params_of_def
        build_ranges_snoc sequence_ranges_snoc table_of_rows_empty)
qed


section \<open>One instruction\<close>

lemma with_read_Inr: "m (lp_program p) = Inr (x, L) \<Longrightarrow> with_read m k p = k x (p\<lparr>lp_program := L\<rparr>)"
  by (simp add: with_read_def)

lemma agrees_set_program:
  "agrees r m (p\<lparr>lp_program := L\<rparr>) L' \<longleftrightarrow> agrees r m p L'"
  by (simp add: agrees_def same_header_def params_of_def)

lemma agrees_shift: "same_header p q \<Longrightarrow> agrees r m q L \<Longrightarrow> agrees r m p L"
  by (auto simp: agrees_def same_header_def)

lemma agrees_update:
  assumes "represents (f p) a" "same_header p (f p)" "lp_program (f p) = L"
  shows "agrees (update_lp f p) (Inr a) p L"
  using assms by (simp add: agrees_def update_lp_def)

lemma same_header_refl [simp]: "same_header p p"
  by (simp add: same_header_def)

lemma params_of_set [simp]:
  "params_of (p\<lparr>lp_program := L\<rparr>) = params_of p" "params_of (p\<lparr>lp_address := v\<rparr>) = params_of p"
  "params_of (p\<lparr>lp_current := e\<rparr>) = params_of p" "params_of (p\<lparr>lp_shadow := b\<rparr>) = params_of p"
  by (simp_all add: params_of_def)

lemma read_n_ulebs:
  assumes "holds mem L (concat (map (\<lambda>u. uleb u) us) @ bs)"
  shows "read_n (length us) (readULEB128 mem) L = Inr (us, advance (length (concat (map (\<lambda>u. uleb u) us))) L)"
  using assms
proof (induction us arbitrary: L)
  case Nil
  then show ?case by (simp add: rd_defs)
next
  case (Cons u us)
  have h: "holds mem L (uleb u @ (concat (map (\<lambda>u. uleb u) us) @ bs))" using Cons.prems by simp
  note u = holds_uleb_then [OF h]
  show ?case using u(1) Cons.IH [OF u(2)] by (simp add: rd_defs add.assoc)
qed

lemma holds_u16:
  assumes "holds mem L (le_bytes 2 (unat (d :: 16 word)) @ bs)"
  shows "read_u16 mem L = Inr (ucast d, advance 2 L)"
proof -
  have h: "holds mem L (le_bytes 2 (unat d))" using holds_append [OF assms] by blast
  have "read_val mem L = Inr (d, advance 2 L)" by (rule holds_le [OF h]) simp
  then show ?thesis by (simp add: read_u16_def rd_defs)
qed

lemma skip_data:
  assumes "holds mem L (data @ bs)" "lx_checked L" "lx_end L < 2 ^ 64" "length data < 2 ^ 63"
  shows "skip (word_of_nat (1 + length data) - 1) L = advance (length data) L"
proof -
  have "lx_next L + length data < 2 ^ 64" using assms(1-3) by (auto simp: holds_def room_def)
  moreover have "unat (word_of_nat (1 + length data) - 1 :: 64 word) = length data"
    using assms(4) by (simp add: unat_of_nat)
  ultimately show ?thesis by (simp add: skip_def)
qed

lemma line_step_read:
  assumes "holds mem (lp_program p) (op # bs)"
  shows "line_step mem p =
    (if lp_opcode_base p \<le> op then special_opcode op (p\<lparr>lp_program := advance 1 (lp_program p)\<rparr>)
     else standard_opcode mem op (p\<lparr>lp_program := advance 1 (lp_program p)\<rparr>))"
  using holds_u8(1) [OF assms] by (simp add: line_step_def with_read_def)


lemma line_step_standard:
  assumes "holds mem (lp_program p) (op # bs)" "op < lp_opcode_base p"
  shows "line_step mem p = standard_opcode mem op (p\<lparr>lp_program := advance 1 (lp_program p)\<rparr>)"
  using line_step_read [OF assms(1)] assms(2) by (auto dest: leD)

abbreviation after_op :: "line_op \<Rightarrow> line_program \<Rightarrow> lexer" where
  "after_op i p \<equiv> advance (length (encode_line_op i)) (lp_program p)"

lemmas standard_ops = standard_opcode_def dw_lns_defs

lemma extended_op_agrees:
  assumes h: "holds mem (lp_program p) (0x00 # bs)" and ob: "0 < lp_opcode_base p"
  shows "line_step mem p = extended_opcode mem (p\<lparr>lp_program := advance 1 (lp_program p)\<rparr>)"
  using line_step_read [OF h] ob by (auto simp: standard_ops not_le)

lemma line_step_simple:
  assumes h: "holds mem (lp_program p) (encode_line_op i @ bs)" and r: "represents p a" and c: "params_of p = c"
    and ok: "line_op_ok c i"
    and i: "case i of End_sequence _ \<Rightarrow> False | Set_address _ _ \<Rightarrow> False | Unknown_extended _ _ \<Rightarrow> False | _ \<Rightarrow> True"
  shows "agrees (line_step mem p) (machine_step c i a) p (after_op i p)"
proof -
  let ?p = "p\<lparr>lp_program := advance 1 (lp_program p)\<rparr>"
  have ob: "pm_opcode_base c = lp_opcode_base p" "pm_line_range c = lp_line_range p" "pm_line_base c = lp_line_base p"
      "pm_lengths c = lp_standard_opcode_lengths p"
    using c by (auto simp: params_of_def)
  have r1: "represents ?p a" using r by (simp add: represents_def)
  note R = r [unfolded represents_def]
  show ?thesis
  proof (cases i)
    case (Special op)
    have "holds mem (lp_program p) (op # bs)" using h Special by simp
    note st = line_step_read [OF this]
    let ?k = "unat op - unat (lp_opcode_base p)" and ?r = "unat (lp_line_range p)"
    let ?x = "lm_address a + word_of_nat (?k div ?r)"
      and ?e = "(lm_entry a)\<lparr>le_line := le_line (lm_entry a) + (scast (lp_line_base p) + word_of_nat (?k mod ?r))\<rparr>"
    let ?q = "p\<lparr>lp_program := after_op i p, lp_address := ?x, lp_current := ?e\<rparr>"
    have q: "represents ?q (a\<lparr>lm_address := ?x, lm_entry := ?e\<rparr>)" "params_of ?q = c" "same_header p ?q"
      using R c by (simp_all add: represents_def same_header_def params_of_def)
    have "line_step mem p = produceEntry ?q"
      using st ok Special ob R by (simp add: special_opcode_def add_line_def Let_def)
    moreover have "machine_step c i a = emit_row c (a\<lparr>lm_address := ?x, lm_entry := ?e\<rparr>)"
      using Special ob by (simp add: Let_def)
    ultimately show ?thesis using agrees_shift [OF q(3) produceEntry_agrees [OF q(1,2)]] by simp
  next
    case Copy
    have "holds mem (lp_program p) (1 # bs)" using h Copy by simp
    note st = line_step_standard [OF this]
    show ?thesis using st ok Copy c ob produceEntry_agrees [OF r1, of c]
      by (simp add: standard_ops agrees_set_program not_le)
  next
    case (Advance_pc n)
    have h1: "holds mem (lp_program p) (2 # uleb n @ bs)" using h Advance_pc by simp
    note st = line_step_standard [OF h1] and u = holds_uleb_then(1) [OF holds_u8(2) [OF h1]]
    show ?thesis using st ok Advance_pc ob u R
      by (simp add: standard_ops with_read_def update_lp_def agrees_def same_header_def params_of_def represents_def not_le)
  next
    case (Advance_line n)
    have h1: "holds mem (lp_program p) (3 # sleb n @ bs)" using h Advance_line by simp
    note st = line_step_standard [OF h1]
    have "holds mem (advance 1 (lp_program p)) (sleb n)" using holds_append [OF holds_u8(2) [OF h1]] by blast
    note u = holds_sleb [OF this]
    show ?thesis using st ok Advance_line ob u R
      by (simp add: standard_ops with_read_def update_lp_def add_line_def agrees_def same_header_def params_of_def represents_def not_le)
  next
    case (Set_file n)
    have h1: "holds mem (lp_program p) (4 # uleb n @ bs)" using h Set_file by simp
    note st = line_step_standard [OF h1] and u = holds_uleb_then(1) [OF holds_u8(2) [OF h1]]
    show ?thesis using st ok Set_file ob u R
      by (simp add: standard_ops with_read_def update_lp_def agrees_def same_header_def params_of_def represents_def not_le)
  next
    case Const_add_pc
    have "holds mem (lp_program p) (8 # bs)" using h Const_add_pc by simp
    note st = line_step_standard [OF this]
    show ?thesis using st ok Const_add_pc ob R
      by (simp add: standard_ops update_lp_def agrees_def same_header_def params_of_def represents_def not_le)
  next
    case (Fixed_advance_pc n)
    have h1: "holds mem (lp_program p) (9 # le_bytes 2 (unat n) @ bs)" using h Fixed_advance_pc by simp
    note st = line_step_standard [OF h1] and u = holds_u16 [OF holds_u8(2) [OF h1]]
    show ?thesis using st ok Fixed_advance_pc ob u R
      by (simp add: standard_ops with_read_def update_lp_def agrees_def same_header_def params_of_def represents_def
          not_le le_nat_bytes)
  next
    case (Other_op op args)
    have h1: "holds mem (lp_program p) (op # concat (map (\<lambda>u. uleb u) args) @ bs)" using h Other_op by simp
    note st = line_step_standard [OF h1] and u = read_n_ulebs [OF holds_u8(2) [OF h1]]
    show ?thesis using st ok Other_op ob u R
      by (simp add: standard_ops with_read_def update_lp_def agrees_def same_header_def params_of_def represents_def not_le)
  qed (use i in simp_all)
qed

lemma line_step_extended:
  assumes h: "holds mem (lp_program p) (encode_line_op i @ bs)" and r: "represents p a" and c: "params_of p = c"
    and ok: "line_op_ok c i" and L: "lx_checked (lp_program p)" "lx_end (lp_program p) < 2 ^ 64"
    and i: "case i of End_sequence _ \<Rightarrow> True | Set_address _ _ \<Rightarrow> True | Unknown_extended _ _ \<Rightarrow> True | _ \<Rightarrow> False"
  shows "agrees (line_step mem p) (machine_step c i a) p (after_op i p)"
proof -
  have ob: "pm_opcode_base c = lp_opcode_base p" using c by (auto simp: params_of_def)
  note R = r [unfolded represents_def]
  show ?thesis
  proof (cases i)
    case (End_sequence len)
    have h1: "holds mem (lp_program p) (0 # uleb len @ 1 # bs)" using h End_sequence by simp
    note st = extended_op_agrees [OF h1] and u = holds_uleb_then [OF holds_u8(2) [OF h1]]
    note v = holds_u8(1) [OF u(2)]
    let ?q = "p\<lparr>lp_program := after_op i p\<rparr>"
    have "represents ?q a" using r by (simp add: represents_def)
    from endSequence_agrees [OF this]
    have e: "agrees (endSequence ?q) (Inr (close_sequence a)) ?q (after_op i p)" by simp
    have "line_step mem p = and_then (endSequence ?q) (update_lp (\<lambda>p. p\<lparr>lp_current := default_entry\<rparr>))"
      using st ok ob u(1) v End_sequence by (simp add: extended_opcode_def with_read_def dw_lns_defs add.assoc)
    then show ?thesis using e End_sequence
      by (cases "endSequence ?q")
        (auto simp: agrees_def and_then_def update_lp_def same_header_def params_of_def represents_def)
  next
    case (Set_address len v)
    have h1: "holds mem (lp_program p) (0 # uleb len @ 2 # le_bytes 8 (unat v) @ bs)" using h Set_address by simp
    note st = extended_op_agrees [OF h1] and u = holds_uleb_then [OF holds_u8(2) [OF h1]]
    note w = holds_u8 [OF u(2)]
    note x = holds_u64(1) [OF w(2)]
    show ?thesis using st ok ob u(1) w(1) x Set_address R
      by (simp add: extended_opcode_def with_read_def update_lp_def dw_lns_defs agrees_def same_header_def params_of_def
          represents_def le_nat_bytes add.assoc)
  next
    case (Unknown_extended op data)
    have h1: "holds mem (lp_program p) (0 # uleb (word_of_nat (1 + length data)) @ op # data @ bs)"
      using h Unknown_extended by simp
    note st = extended_op_agrees [OF h1] and u = holds_uleb_then [OF holds_u8(2) [OF h1]]
    note w = holds_u8 [OF u(2)]
    have d: "length data < 2 ^ 63" using ok Unknown_extended by simp
    note x = skip_data [OF w(2) _ _ d]
    show ?thesis using st ok ob u(1) w(1) x L Unknown_extended R
      by (simp add: extended_opcode_def with_read_def update_lp_def dw_lns_defs agrees_def same_header_def params_of_def
          represents_def add.assoc)
  qed (use i in simp_all)
qed

lemma line_step_agrees:
  assumes "holds mem (lp_program p) (encode_line_op i @ bs)" "represents p a" "params_of p = c" "line_op_ok c i"
    "lx_checked (lp_program p)" "lx_end (lp_program p) < 2 ^ 64"
  shows "agrees (line_step mem p) (machine_step c i a) p (after_op i p)"
  using line_step_simple [OF assms(1-4)] line_step_extended [OF assms] by (cases i) simp_all


section \<open>The whole program\<close>

lemma encode_line_op_nonempty: "encode_line_op i \<noteq> []"
  by (cases i) simp_all

lemma same_header_trans: "same_header p q \<Longrightarrow> same_header q r \<Longrightarrow> same_header p r"
  by (simp add: same_header_def)

lemma readProgram_refines:
  assumes "holds mem (lp_program p) (concat (map encode_line_op ops))" "represents p a" "params_of p = c"
    "list_all (line_op_ok c) ops" "lx_checked (lp_program p)" "lx_end (lp_program p) < 2 ^ 64"
    "lp_program_end p = lx_next (lp_program p) + length (concat (map encode_line_op ops))"
  shows "case run_machine c ops a of
      Inl e \<Rightarrow> \<exists>p'. readProgram mem p = Some (Inl e, p')
    | Inr a' \<Rightarrow> \<exists>p'. readProgram mem p = Some (Inr (), p') \<and> represents p' a' \<and> same_header p p'"
  using assms
proof (induction ops arbitrary: p a)
  case Nil
  then show ?case by (subst readProgram.simps) simp
next
  case (Cons i ops)
  let ?bs = "concat (map encode_line_op ops)"
  have h: "holds mem (lp_program p) (encode_line_op i @ ?bs)" using Cons.prems(1) by simp
  have ok: "line_op_ok c i" "list_all (line_op_ok c) ops" using Cons.prems(4) by simp_all
  note st = line_step_agrees [OF h Cons.prems(2,3) ok(1) Cons.prems(5,6)]
  have go: "lx_next (lp_program p) < lp_program_end p" using Cons.prems(7) encode_line_op_nonempty [of i] by simp
  obtain r p1 where r: "line_step mem p = (r, p1)" by (cases "line_step mem p")
  have sh: "same_header p p1" using st r by (simp add: agrees_def)
  show ?case
  proof (cases "machine_step c i a")
    case (Inl e)
    then show ?thesis using st r go by (subst readProgram.simps) (simp add: agrees_def ebind_def)
  next
    case (Inr a1)
    then have p1: "r = Inr ()" "represents p1 a1" "lp_program p1 = after_op i p" using st r by (simp_all add: agrees_def)
    have next_op: "readProgram mem p = readProgram mem p1" using r p1(1) go by (subst readProgram.simps) simp
    have b: "holds mem (lp_program p1) ?bs" using holds_append [OF h] p1(3) by simp
    have "case run_machine c ops a1 of
        Inl e \<Rightarrow> \<exists>p'. readProgram mem p1 = Some (Inl e, p')
      | Inr a' \<Rightarrow> \<exists>p'. readProgram mem p1 = Some (Inr (), p') \<and> represents p' a' \<and> same_header p1 p'"
    proof (rule Cons.IH [OF b p1(2) _ ok(2)])
      show "params_of p1 = c" using sh Cons.prems(3) by (simp add: same_header_def)
      show "lx_checked (lp_program p1)" "lx_end (lp_program p1) < 2 ^ 64" using Cons.prems(5,6) p1(3) by simp_all
      show "lp_program_end p1 = lx_next (lp_program p1) + length ?bs"
        using sh Cons.prems(7) p1(3) by (simp add: same_header_def)
    qed
    then show ?thesis using next_op Inr sh by (auto simp: ebind_def split: sum.splits intro: same_header_trans)
  qed
qed

section \<open>Looking up an address\<close>

definition last_row :: "64 word \<Rightarrow> row list \<Rightarrow> lp_entry option" where
  "last_row x rows = (let rs = takeWhile (\<lambda>r. \<not> x < fst r) rows in if rs = [] then None else Some (snd (last rs)))"

definition lookup_line :: "(64 word \<times> 64 word \<times> row list) list \<Rightarrow> 64 word \<Rightarrow> lp_entry option" where
  "lookup_line qs x =
     (case List.find (\<lambda>(b, e, rows). b \<le> x \<and> x < e) qs of None \<Rightarrow> None | Some (b, e, rows) \<Rightarrow> last_row x rows)"

lemma find_rows: "find_range x (table_of_rows rows) = (Inr (last_row x rows), table_of_rows rows)"
proof -
  let ?tw = "takeWhile (\<lambda>r. \<not> x < fst r) rows"
  have u: "upper_bound (0 # map fst rows) x = Suc (length ?tw)"
    by (simp add: upper_bound_def takeWhile_map comp_def)
  have le: "length ?tw \<le> length rows" by (rule length_takeWhile_le)
  have "(None # map (\<lambda>r. Some (snd r)) rows) ! length ?tw = last_row x rows"
  proof (cases "?tw = []")
    case False
    then have "rows ! (length ?tw - 1) = last ?tw"
      by (metis last_conv_nth length_greater_0_conv diff_less takeWhile_nth zero_less_one)
    moreover have "length ?tw - 1 < length rows" using False le by (metis One_nat_def Suc_pred length_greater_0_conv less_eq_Suc_le)
    ultimately show ?thesis using False by (simp add: last_row_def Let_def nth_Cons')
  qed (simp add: last_row_def Let_def)
  then show ?thesis using u le by (simp add: find_range_def maybeSort_def table_of_rows_def Let_def at_index_def)
qed

lemma sequence_ranges_nth:
  assumes "i < length qs"
  shows "sequence_ranges qs ! i = (fst (qs ! i), fst (snd (qs ! i)), word_of_nat i)"
  using assms by (simp add: sequence_ranges_def split_def)

lemma sequence_ranges_length [simp]: "length (sequence_ranges qs) = length qs"
  by (simp add: sequence_ranges_def)

lemma find_sequence:
  assumes "length qs < 2 ^ 64"
  shows "case List.find (\<lambda>(b, e, v). b \<le> x \<and> x < e) (sequence_ranges qs) of
      None \<Rightarrow> lookup_line qs x = None
    | Some (b, e, v) \<Rightarrow> unat v < length qs \<and> lookup_line qs x = last_row x (snd (snd (qs ! unat v)))"
proof (cases "List.find (\<lambda>(b, e, v). b \<le> x \<and> x < e) (sequence_ranges qs)")
  case None
  have "\<not> (fst q \<le> x \<and> x < fst (snd q))" if q: "q \<in> set qs" for q
  proof -
    obtain i where i: "i < length qs" "qs ! i = q" using q by (auto simp: in_set_conv_nth)
    then have "sequence_ranges qs ! i \<in> set (sequence_ranges qs)" by simp
    then show ?thesis using None i by (auto simp: find_None_iff sequence_ranges_nth)
  qed
  then have "List.find (\<lambda>(b, e, rows). b \<le> x \<and> x < e) qs = None" by (auto simp: find_None_iff)
  then show ?thesis using None by (simp add: lookup_line_def)
next
  case (Some r)
  obtain i where i: "i < length qs" "r = sequence_ranges qs ! i"
      "case r of (b, e, v) \<Rightarrow> b \<le> x \<and> x < e"
      "\<forall>j < i. \<not> (case sequence_ranges qs ! j of (b, e, v) \<Rightarrow> b \<le> x \<and> x < e)"
    using Some by (auto simp: find_Some_iff)
  have "List.find (\<lambda>(b, e, rows). b \<le> x \<and> x < e) qs = Some (qs ! i)"
    using i by (auto simp: find_Some_iff sequence_ranges_nth split_def intro!: exI [of _ i])
  moreover have "unat (word_of_nat i :: 64 word) = i" using i(1) assms by (simp add: unat_of_nat)
  ultimately show ?thesis using Some i(1,2) by (simp add: lookup_line_def sequence_ranges_nth split_def)
qed

lemma find_entry_lookup:
  assumes "represents p a" "disjoint_ranges (sequence_ranges (lm_sequences a))" "length (lm_sequences a) < 2 ^ 64"
  shows "fst (find_entry x p) = Inr (lookup_line (lm_sequences a) x)"
proof -
  let ?qs = "lm_sequences a"
  have b: "build_ranges (sequence_ranges ?qs) empty_table = Inr (lp_program_index p)"
    and ps: "lp_all_programs p = map (\<lambda>(b, e, rows). table_of_rows rows) ?qs"
    using assms(1) by (simp_all add: represents_def)
  have f: "fst (find_range x (lp_program_index p)) =
      Inr (map_option (\<lambda>(b, e, v). v) (List.find (\<lambda>(b, e, v). b \<le> x \<and> x < e) (sequence_ranges ?qs)))"
    by (rule ranges.lookup_find [OF assms(2) b])
  obtain t where t: "find_range x (lp_program_index p) =
      (Inr (map_option (\<lambda>(b, e, v). v) (List.find (\<lambda>(b, e, v). b \<le> x \<and> x < e) (sequence_ranges ?qs))), t)"
    using f by (cases "find_range x (lp_program_index p)") simp
  show ?thesis
  proof (cases "List.find (\<lambda>(b, e, v). b \<le> x \<and> x < e) (sequence_ranges ?qs)")
    case None
    then show ?thesis using t find_sequence [OF assms(3), of x] by (simp add: find_entry_def)
  next
    case (Some r)
    obtain b e v where r: "r = (b, e, v)" by (cases r)
    have v: "unat v < length ?qs" "lookup_line ?qs x = last_row x (snd (snd (?qs ! unat v)))"
      using find_sequence [OF assms(3), of x] Some r by simp_all
    then have "lp_all_programs p ! unat v = table_of_rows (snd (snd (?qs ! unat v)))" by (simp add: ps split_def)
    then show ?thesis using t Some r v by (simp add: find_entry_def Let_def find_rows ps)
  qed
qed

text \<open>
  C29: a line number program refines the line table it denotes: executing the encoded operations
  ends, and fails exactly when the machine fails; when it succeeds and the sequences of the table
  are disjoint, looking up an address gives the file and line of the last row at or below the
  address in the sequence that contains it, and nothing outside every sequence.
\<close>

theorem line_table_lookup:
  assumes "holds mem (lp_program p) (concat (map encode_line_op ops))" "represents p a" "params_of p = c"
    and "list_all (line_op_ok c) ops" "lx_checked (lp_program p)" "lx_end (lp_program p) < 2 ^ 64"
    and "lp_program_end p = lx_next (lp_program p) + length (concat (map encode_line_op ops))"
  shows "\<exists>p'. readProgram mem p = Some (map_sum id (\<lambda>_. ()) (run_machine c ops a), p') \<and>
    (\<forall>a' x. run_machine c ops a = Inr a' \<and> disjoint_ranges (sequence_ranges (lm_sequences a')) \<and>
        length (lm_sequences a') < 2 ^ 64 \<longrightarrow>
      fst (find_entry x p') = Inr (lookup_line (lm_sequences a') x))"
  using readProgram_refines [OF assms] find_entry_lookup
  by (cases "run_machine c ops a") auto


definition demo_line_ops :: "line_op list" where
  "demo_line_ops = [Set_address 9 0x400, Advance_line 9, Copy, Special 75, Advance_pc 8, End_sequence 1]"

definition demo_line_bytes :: "byte list" where
  "demo_line_bytes = [0, 9, 2, 0, 4, 0, 0, 0, 0, 0, 0, 3, 9, 1, 75, 2, 8, 0, 1, 1]"

definition demo_line_program :: line_program where
  "demo_line_program = (new_line_program 0)\<lparr>lp_file_names := [[], [0x61]], lp_line_base := 0xFB, lp_line_range := 14,
     lp_opcode_base := 13, lp_standard_opcode_lengths := [0, 0, 1, 1, 1, 1, 0, 0, 0, 1, 0, 0, 1],
     lp_program := CheckedLexer 0x1000 0x1000 0x1014, lp_program_end := 0x1014\<rparr>"

definition demo_machine :: line_machine where
  "demo_machine = \<lparr>lm_address = 0, lm_shadow = False, lm_entry = default_entry, lm_start = 0, lm_rows = [], lm_sequences = []\<rparr>"

lemma demo_line_encoding: "concat (map encode_line_op demo_line_ops) = demo_line_bytes"
  by (simp add: demo_line_ops_def demo_line_bytes_def uleb_bytes.simps sleb_bytes.simps le_bytes_numeral)

lemma demo_line_run:
  "run_machine (params_of demo_line_program) demo_line_ops demo_machine =
     Inr \<lparr>lm_address = 0x40C, lm_shadow = False, lm_entry = default_entry, lm_start = 0x400, lm_rows = [],
          lm_sequences = [(0x400, 0x40C, [(0x400, \<lparr>le_file = 1, le_line = 10\<rparr>), (0x404, \<lparr>le_file = 1, le_line = 11\<rparr>)])]\<rparr>"
  by (simp add: demo_line_ops_def demo_machine_def default_entry_def demo_line_program_def new_line_program_def
      params_of_def ebind_def emit_row_def close_sequence_def Let_def)

theorem line_table_lookup_witness:
  "\<exists>p'. readProgram (memory_of 0x1000 demo_line_bytes) demo_line_program = Some (Inr (), p') \<and>
     fst (find_entry 0x405 p') = Inr (Some \<lparr>le_file = 1, le_line = 11\<rparr>) \<and> fst (find_entry 0x40C p') = Inr None"
proof -
  have h: "holds (memory_of 0x1000 demo_line_bytes) (lp_program demo_line_program) (concat (map encode_line_op demo_line_ops))"
    unfolding demo_line_encoding
    by (simp add: holds_def room_def demo_line_program_def CheckedLexer_def memory_of_def mem_byte_def demo_line_bytes_def)
  have r: "represents demo_line_program demo_machine"
    by (simp add: represents_def demo_line_program_def new_line_program_def demo_machine_def table_of_rows_empty sequence_ranges_def)
  have ok: "list_all (line_op_ok (params_of demo_line_program)) demo_line_ops"
    by (simp add: demo_line_ops_def params_of_def demo_line_program_def)
  have L: "lx_checked (lp_program demo_line_program)" "lx_end (lp_program demo_line_program) < 2 ^ 64"
      "lp_program_end demo_line_program = lx_next (lp_program demo_line_program) + length (concat (map encode_line_op demo_line_ops))"
    by (simp_all add: demo_line_program_def CheckedLexer_def demo_line_encoding demo_line_bytes_def)
  from line_table_lookup [OF h r refl ok L] show ?thesis
    unfolding demo_line_run
    by (auto simp: sequence_ranges_def lookup_line_def last_row_def)
qed

end
