(* ===== verification/Line_Limits.thy ===== *)
theory Line_Limits
  imports Line_Table
begin

text \<open>
  Two inputs on which \<open>line_number_program.h\<close> does not do what DWARF asks for: a version 4 header,
  and an extended operation with a huge length.
\<close>

section \<open>A version 4 header\<close>

text \<open>
  A version 4 line table in the layout of the standard: the opcode lengths are followed directly by
  the include directories (\<open>/usr\<close>), an empty string, one file (\<open>a\<close>, in directory 1) and an empty
  string. There is no format count, which version 5 introduced.
\<close>

definition version4_bytes :: "byte list" where
  "version4_bytes =
     [30, 0, 0, 0, 4, 0, 24, 0, 0, 0, 1, 1, 1, 0xFB, 14, 2, 0,
      0x2F, 0x75, 0x73, 0x72, 0, 0,
      0x61, 0, 1, 0, 0, 0,
      0, 0, 0, 0, 0]"

definition version4_sections :: sections where
  "version4_sections = new_sections\<lparr>se_debug_line := \<lparr>sec_data = 0x1000, sec_size = 34\<rparr>\<rparr>"

theorem version4_header_drops_byte:
  "\<exists>p L. read_line_header (memory_of 0x1000 version4_bytes) version4_sections (new_line_program 0)
      (section_lexer (se_debug_line version4_sections) 0) = Inr (p, L) \<and>
     lp_include_directories p = [[], [0x75, 0x73, 0x72]] \<and> lp_file_names p = [[], [0x61]] \<and>
     lp_file_directory_index p = [0, 1]"
  by (simp add: read_line_header_def version4_sections_def new_sections_def section_lexer_def CheckedLexer_def size_add_def
      rd_defs readSectionLength_def read_u32_def read_u16_def read_u8_def read_val_def bytes_at_numeral
      memory_of_def mem_byte_def version4_bytes_def loc_rd_def check_rd_def get_rd_def readSegmentOffset_def
      new_line_program_def read_tables4_def read_strings4.simps read_files4.simps read_file4_def readCString_def
      cstring_loop.simps readULEB128_def uleb_loop.simps Let_def)

section \<open>A loop that does not end\<close>

text \<open>
  The operation \<open>0x00\<close> with length \<open>2 ^ 64 - 11\<close> and an unknown extended opcode: it takes twelve
  bytes and then skips twelve bytes backwards.
\<close>

definition loop_bytes :: "byte list" where
  "loop_bytes = 0 # uleb (- 11) @ [0x80]"

definition loop_program :: line_program where
  "loop_program = demo_line_program\<lparr>lp_program := CheckedLexer 0x1000 0x1000 0x100C, lp_program_end := 0x100C\<rparr>"

lemma loop_bytes_eval: "uleb_bytes 18446744073709551605 = [0xF5, 0xFF, 0xFF, 0xFF, 0xFF, 0xFF, 0xFF, 0xFF, 0xFF, 0x01]"
  by (simp add: uleb_bytes.simps)

lemma loop_step: "line_step (memory_of 0x1000 loop_bytes) loop_program = (Inr (), loop_program)"
proof -
  let ?m = "memory_of 0x1000 loop_bytes" and ?p = loop_program
  have h: "holds ?m (lp_program ?p) (0 # uleb (- 11) @ [0x80])"
    by (simp add: loop_bytes_eval loop_bytes_def holds_def room_def loop_program_def CheckedLexer_def memory_of_def mem_byte_def)
  have ob: "0 < lp_opcode_base ?p" by (simp add: loop_program_def demo_line_program_def)
  note u = holds_uleb_then [OF holds_u8(2) [OF h]]
  note v = holds_u8(1) [OF u(2)]
  have L: "lp_program ?p = CheckedLexer 0x1000 0x1000 0x100C" by (simp add: loop_program_def)
  have "?p\<lparr>lp_program := skip (- 12) (advance 12 (lp_program ?p))\<rparr> = ?p"
    by (simp add: skip_def loop_program_def CheckedLexer_def)
  then show ?thesis
    using extended_op_agrees [OF h ob] u(1) v
    by (simp add: extended_opcode_def with_read_def dw_lns_defs update_lp_def loop_bytes_eval L CheckedLexer_def)
qed

theorem line_program_may_not_end:
  "lx_next (lp_program loop_program) < lp_program_end loop_program \<and>
   readProgram (memory_of 0x1000 loop_bytes) loop_program = None"
proof
  show go: "lx_next (lp_program loop_program) < lp_program_end loop_program"
    by (simp add: loop_program_def CheckedLexer_def)
  have "readProgram mem p = Some r \<Longrightarrow> \<not> (mem = memory_of 0x1000 loop_bytes \<and> p = loop_program)" for mem p r
  proof (induction rule: readProgram.raw_induct [rotated, consumes 1])
    case (1 loop mem p r)
    show ?case
    proof
      assume e: "mem = memory_of 0x1000 loop_bytes \<and> p = loop_program"
      have "loop mem p = Some r" using 1(2) loop_step go e by simp
      from 1(1) [OF this] e show False by blast
    qed
  qed
  then show "readProgram (memory_of 0x1000 loop_bytes) loop_program = None"
    by (cases "readProgram (memory_of 0x1000 loop_bytes) loop_program") auto
qed

end
