(* ===== verification/Unwind_Cache.thy ===== *)
theory Unwind_Cache
  imports Dwarf_Instructions
begin

unbundle bit_operations_syntax

text \<open>
  \<open>eh_frame_hdr.h\<close> and the stack walker of \<open>unwind.cpp\<close>: the binary search table of a library's
  frame entries, the registry of loaded libraries, the cache of compiled unwinders by code address,
  and the loop that walks the stack. The dynamic linker is a parameter (\<open>dl_world\<close>): the list of
  loaded objects it enumerates and its two version counters.
\<close>

section \<open>Binary search\<close>

text \<open>
  The search loop that \<open>EHFrameHdr::entryForAddr\<close> and \<open>UnwindCache::searchFor\<close> share, on numbers that
  do not overflow; \<open>below i\<close> answers whether the address lies before the key of entry \<open>i\<close>.
\<close>

function search_loop :: "(nat \<Rightarrow> 'e + bool) \<Rightarrow> nat \<Rightarrow> nat \<Rightarrow> 'e + nat" where
  "search_loop below low high =
     (if low + 1 < high
      then let mid = (low + high) div 2
           in case below mid of
                Inl e \<Rightarrow> Inl e
              | Inr b \<Rightarrow> if b then search_loop below low mid else search_loop below mid high
      else Inr low)"
  by auto
termination by (relation "measure (\<lambda>(below, low, high). high - low)") auto

declare search_loop.simps [simp del]

text \<open>The same loop in \<open>uint64_t\<close> arithmetic; the sum may wrap around, and the loop not end.\<close>

partial_function (option) search_loop64 :: "(nat \<Rightarrow> 'e + bool) \<Rightarrow> nat \<Rightarrow> nat \<Rightarrow> ('e + nat) option" where
  "search_loop64 below low high =
     (if size_add low 1 < high
      then case below (size_add low high div 2) of
             Inl e \<Rightarrow> Some (Inl e)
           | Inr b \<Rightarrow> if b then search_loop64 below low (size_add low high div 2)
                     else search_loop64 below (size_add low high div 2) high
      else Some (Inr low))"

lemma search_loop64_eq:
  "low \<le> high \<Longrightarrow> high < 2 ^ 63 \<Longrightarrow> search_loop64 below low high = Some (search_loop below low high)"
proof (induction below low high rule: search_loop.induct)
  case (1 below low high)
  let ?mid = "(low + high) div 2"
  have m: "size_add low high div 2 = ?mid" "size_add low 1 = low + 1" using 1(3,4) by (simp_all add: size_add_exact)
  show ?case
  proof (cases "low + 1 < high")
    case False
    then show ?thesis using m by (subst search_loop64.simps, subst search_loop.simps) simp
  next
    case True
    then have mid: "low \<le> ?mid" "?mid \<le> high" "?mid < 2 ^ 63" using 1(3,4) by simp_all
    show ?thesis
    proof (cases "below ?mid")
      case (Inl e)
      then show ?thesis using True m by (subst search_loop64.simps, subst search_loop.simps) simp
    next
      case (Inr b)
      then show ?thesis using 1(1,2) [OF True refl Inr] mid True m 1(4)
        by (subst search_loop64.simps, subst search_loop.simps) (simp add: Let_def)
    qed
  qed
qed

lemma search_loop_correct:
  assumes "low < high" "\<And>i. low < i \<Longrightarrow> i < high \<Longrightarrow> below i = Inr (P i)"
    and mono: "\<And>i j. low < i \<Longrightarrow> i < j \<Longrightarrow> j < high \<Longrightarrow> P i \<Longrightarrow> P j"
  shows "\<exists>k. search_loop below low high = Inr k \<and> low \<le> k \<and> k < high \<and>
    (low < k \<longrightarrow> \<not> P k) \<and> (\<forall>i. k < i \<and> i < high \<longrightarrow> P i)"
  using assms
proof (induction below low high rule: search_loop.induct)
  case (1 below low high)
  let ?mid = "(low + high) div 2"
  show ?case
  proof (cases "low + 1 < high")
    case False
    then show ?thesis using 1(3) by (intro exI [of _ low]) (auto simp: search_loop.simps)
  next
    case True
    then have mid: "low < ?mid" "?mid < high" by simp_all
    have b: "below ?mid = Inr (P ?mid)" using 1(4) mid by blast
    show ?thesis
    proof (cases "P ?mid")
      case True
      have "\<exists>k. search_loop below low ?mid = Inr k \<and> low \<le> k \<and> k < ?mid \<and>
          (low < k \<longrightarrow> \<not> P k) \<and> (\<forall>i. k < i \<and> i < ?mid \<longrightarrow> P i)"
        by (rule 1(1) [OF \<open>low + 1 < high\<close> refl b True mid(1)]) (use 1(4,5) mid in \<open>meson less_trans\<close>)+
      then obtain k where k: "search_loop below low ?mid = Inr k" "low \<le> k" "k < ?mid" "low < k \<longrightarrow> \<not> P k"
          "\<forall>i. k < i \<and> i < ?mid \<longrightarrow> P i" by blast
      have "P i" if "k < i" "i < high" for i
        using k(5) that True 1(5) [of ?mid i] mid by (cases "i < ?mid"; cases "i = ?mid") auto
      then show ?thesis using k mid True b \<open>low + 1 < high\<close> by (intro exI [of _ k]) (simp add: search_loop.simps [of below low high])
    next
      case False
      have "\<exists>k. search_loop below ?mid high = Inr k \<and> ?mid \<le> k \<and> k < high \<and>
          (?mid < k \<longrightarrow> \<not> P k) \<and> (\<forall>i. k < i \<and> i < high \<longrightarrow> P i)"
        by (rule 1(2) [OF \<open>low + 1 < high\<close> refl b False mid(2)]) (use 1(4,5) mid in \<open>meson less_trans\<close>)+
      then obtain k where k: "search_loop below ?mid high = Inr k" "?mid \<le> k" "k < high" "?mid < k \<longrightarrow> \<not> P k"
          "\<forall>i. k < i \<and> i < high \<longrightarrow> P i" by blast
      have "\<not> P k" using k(2,4) False by (cases "k = ?mid") auto
      then show ?thesis using k mid False b \<open>low + 1 < high\<close> by (intro exI [of _ k]) (simp add: search_loop.simps [of below low high])
    qed
  qed
qed

section \<open>The search table of a library\<close>

record eh_frame_hdr =
  eh_base :: nat
  eh_table_start :: nat
  eh_version :: byte
  eh_frame_ptr_enc :: byte
  eh_fde_count_enc :: byte
  eh_table_enc :: byte
  eh_eh_frame :: "64 word"
  eh_fde_count :: "64 word"
  eh_table_size :: nat

definition table_entry_size :: "byte \<Rightarrow> unwind_exn + nat" where
  "table_entry_size enc =
     (if enc = DW_EH_PE_omit then Inr 0
      else let e = enc AND 0xF
           in if e = DW_EH_PE_udata2 \<or> e = DW_EH_PE_sdata2 then Inr 2
              else if e = DW_EH_PE_udata4 \<or> e = DW_EH_PE_sdata4 then Inr 4
              else if e = DW_EH_PE_udata8 \<or> e = DW_EH_PE_sdata8 then Inr 8
              else if e = DW_EH_PE_uleb128 \<or> e = DW_EH_PE_sleb128
              then Inl (Unwind_error ''uleb/sleb table encoding not supported'')
              else Inl (Unwind_error ''unknown table encoding''))"

definition make_eh_frame_hdr :: "memory \<Rightarrow> nat \<Rightarrow> unwind_exn + eh_frame_hdr" where
  "make_eh_frame_hdr mem base =
     ebind (read_u8 mem (Lexer base (word_of_nat base))) (\<lambda>(version, L1).
     ebind (read_u8 mem L1) (\<lambda>(frame_enc, L2).
     ebind (read_u8 mem L2) (\<lambda>(count_enc, L3).
     ebind (read_u8 mem L3) (\<lambda>(table_enc, L4).
     ebind (table_entry_size table_enc) (\<lambda>table_size.
     ebind (readEncodedOr mem frame_enc 0 L4) (\<lambda>(eh_frame, L5).
     ebind (readEncodedOr mem count_enc 0 L5) (\<lambda>(count_value, L6).
     Inr \<lparr>eh_base = base, eh_table_start = lx_next L6, eh_version = version, eh_frame_ptr_enc = frame_enc,
          eh_fde_count_enc = count_enc, eh_table_enc = table_enc, eh_eh_frame = eh_frame,
          eh_fde_count = count_value, eh_table_size = table_size\<rparr>)))))))"

definition nentries :: "eh_frame_hdr \<Rightarrow> nat" where
  "nentries h = unat (eh_fde_count h)"

definition table_word :: "memory \<Rightarrow> eh_frame_hdr \<Rightarrow> nat \<Rightarrow> unwind_exn + 64 word" where
  "table_word mem h k =
     map_sum id fst (readEncoded mem (eh_table_enc h)
       (skip (word_of_nat (k * eh_table_size h)) (Lexer (eh_table_start h) (word_of_nat (eh_base h)))))"

definition lowpc :: "memory \<Rightarrow> eh_frame_hdr \<Rightarrow> nat \<Rightarrow> unwind_exn + 64 word" where
  "lowpc mem h i = table_word mem h (2 * i)"

definition fde_ptr :: "memory \<Rightarrow> eh_frame_hdr \<Rightarrow> nat \<Rightarrow> unwind_exn + 64 word" where
  "fde_ptr mem h i = table_word mem h (2 * i + 1)"

definition entryForAddr :: "memory \<Rightarrow> 64 word \<Rightarrow> eh_frame_hdr \<Rightarrow> (unwind_exn + 64 word) option" where
  "entryForAddr mem addr h =
     (if eh_table_size h = 0 \<or> nentries h = 0 then Some (Inl (Unwind_error ''search table not present''))
      else map_option (\<lambda>r. ebind r (fde_ptr mem h))
             (search_loop64 (\<lambda>i. map_sum id (\<lambda>pc. addr < pc) (lowpc mem h i)) 0 (nentries h)))"

text \<open>
  C25: the search in a sorted table of frame entries ends and returns the entry with the greatest
  start address that is not above the code address (the first entry when all are above).
\<close>

theorem entryForAddr_correct:
  assumes "eh_table_size h \<noteq> 0" "0 < nentries h" "nentries h < 2 ^ 63"
    and "\<And>i. i < nentries h \<Longrightarrow> lowpc mem h i = Inr (k i)"
    and "\<And>i j. i < j \<Longrightarrow> j < nentries h \<Longrightarrow> k i \<le> k j"
  shows "\<exists>i < nentries h. entryForAddr mem addr h = Some (fde_ptr mem h i) \<and>
    (k 0 \<le> addr \<longrightarrow> k i \<le> addr) \<and> (\<forall>j. i < j \<and> j < nentries h \<longrightarrow> addr < k j)"
proof -
  let ?below = "\<lambda>i. map_sum id (\<lambda>pc. addr < pc) (lowpc mem h i)"
  obtain i where i: "search_loop ?below 0 (nentries h) = Inr i" "i < nentries h" "0 < i \<longrightarrow> \<not> addr < k i"
      "\<forall>j. i < j \<and> j < nentries h \<longrightarrow> addr < k j"
    using search_loop_correct [of 0 "nentries h" ?below "\<lambda>i. addr < k i"] assms(2,4,5) by (fastforce intro: less_le_trans)
  have "search_loop64 ?below 0 (nentries h) = Some (Inr i)" using search_loop64_eq [of 0 "nentries h" ?below] assms(3) i(1) by simp
  then have "entryForAddr mem addr h = Some (fde_ptr mem h i)" using assms(1,2) by (simp add: entryForAddr_def ebind_def)
  moreover have "k 0 \<le> addr \<longrightarrow> k i \<le> addr" using i(3) by (cases "i = 0") auto
  ultimately show ?thesis using i(2,4) by blast
qed


section \<open>Libraries\<close>

text \<open>What \<open>dl_iterate_phdr\<close> and \<open>readlink\<close> answer, and the address space.\<close>

record dl_segment =
  p_type :: "32 word"
  p_vaddr :: "64 word"
  p_memsz :: "64 word"

record dl_object =
  dlpi_name :: string
  dlpi_addr :: "64 word"
  dlpi_phdr :: "dl_segment list"

record dl_world =
  dl_adds :: "64 word"
  dl_subs :: "64 word"
  dl_objects :: "dl_object list"
  dl_exe :: string
  dl_mem :: memory

definition PT_LOAD :: "32 word" where "PT_LOAD = 1"
definition PT_GNU_EH_FRAME :: "32 word" where "PT_GNU_EH_FRAME = 0x6474E550"

record library_info =
  li_name :: string
  li_load_bias :: "64 word"
  li_last_addr :: "64 word"
  li_eh_frame_hdr :: eh_frame_hdr

definition library_unwinderFor :: "memory \<Rightarrow> library_info \<Rightarrow> 64 word \<Rightarrow> (unwind_exn + unwinder) option" where
  "library_unwinderFor mem l addr =
     map_option (\<lambda>r.
       ebind r (\<lambda>fde_data.
       ebind (make_fde mem (unat fde_data)) (\<lambda>f.
       ebind (readUpTo mem addr f) (\<lambda>(state, f').
       make_unwinder (ts_cfa state) (ts_registers state ! D_RIP) (ts_registers state ! D_RBP)))))
     (entryForAddr mem addr (li_eh_frame_hdr l))"

record version =
  ver_adds :: "64 word"
  ver_subs :: "64 word"

record unwind_stats =
  st_hits :: nat
  st_misses :: nat
  st_unsupported :: nat
  st_resets :: nat

record unwind_cache =
  uc_libraries :: "library_info list"
  uc_ip_cache :: "64 word \<rightharpoonup> unwinder"
  uc_stats :: unwind_stats
  uc_version :: version
  uc_no_unwind :: "string list"

definition initial_cache :: unwind_cache where
  "initial_cache = \<lparr>uc_libraries = [], uc_ip_cache = Map.empty,
     uc_stats = \<lparr>st_hits = 0, st_misses = 0, st_unsupported = 0, st_resets = 0\<rparr>,
     uc_version = \<lparr>ver_adds = INT64_MAX, ver_subs = INT64_MAX\<rparr>, uc_no_unwind = []\<rparr>"

definition currentVersion :: "dl_world \<Rightarrow> version" where
  "currentVersion w =
     (if dl_objects w = [] then \<lparr>ver_adds = INT64_MAX, ver_subs = INT64_MAX\<rparr>
      else \<lparr>ver_adds = dl_adds w, ver_subs = dl_subs w\<rparr>)"

text \<open>
  The callback of \<open>refreshLibraries\<close>: the end of the load segments that come before the frame header,
  and the address of that header.
\<close>

fun scan_segments :: "64 word \<Rightarrow> dl_segment list \<Rightarrow> 64 word \<Rightarrow> (64 word \<times> 64 word) option" where
  "scan_segments addr [] last_addr = None"
| "scan_segments addr (s # ss) last_addr =
     (let last' = (if p_type s = PT_LOAD then max (addr + p_vaddr s + p_memsz s) last_addr else last_addr)
      in if p_type s = PT_GNU_EH_FRAME then Some (last', p_vaddr s + addr)
         else scan_segments addr ss last')"

definition library_of :: "dl_world \<Rightarrow> dl_object \<Rightarrow> (unwind_exn + library_info) option" where
  "library_of w ob =
     map_option (\<lambda>(last_addr, hdr).
       map_sum id (\<lambda>h. \<lparr>li_name = (if dlpi_name ob = [] then dl_exe w else dlpi_name ob),
           li_load_bias = dlpi_addr ob, li_last_addr = last_addr, li_eh_frame_hdr = h\<rparr>)
         (make_eh_frame_hdr (dl_mem w) (unat hdr)))
     (scan_segments (dlpi_addr ob) (dlpi_phdr ob) 0)"

fun iterate_phdr :: "dl_world \<Rightarrow> dl_object list \<Rightarrow> unwind_cache \<Rightarrow> (unwind_exn + unit) \<times> unwind_cache" where
  "iterate_phdr w [] c = (Inr (), c)"
| "iterate_phdr w (ob # obs) c =
     (case library_of w ob of
        None \<Rightarrow> iterate_phdr w obs (c\<lparr>uc_no_unwind := uc_no_unwind c @ [dlpi_name ob]\<rparr>)
      | Some (Inl e) \<Rightarrow> (Inl e, c)
      | Some (Inr l) \<Rightarrow> iterate_phdr w obs (c\<lparr>uc_libraries := uc_libraries c @ [l]\<rparr>))"

definition refreshLibraries :: "dl_world \<Rightarrow> unwind_cache \<Rightarrow> (unwind_exn + unit) \<times> unwind_cache" where
  "refreshLibraries w c =
     (let st = uc_stats c;
          c1 = c\<lparr>uc_stats := st\<lparr>st_resets := size_add (st_resets st) 1\<rparr>, uc_libraries := [], uc_ip_cache := Map.empty\<rparr>
      in case iterate_phdr w (dl_objects w) c1 of
           (Inl e, c2) \<Rightarrow> (Inl e, c2)
         | (Inr u, c2) \<Rightarrow> (Inr (), c2\<lparr>uc_libraries := sort_key li_load_bias (uc_libraries c2)\<rparr>))"

definition checkRefresh :: "dl_world \<Rightarrow> unwind_cache \<Rightarrow> (unwind_exn + unit) \<times> unwind_cache" where
  "checkRefresh w c =
     (if ver_subs (currentVersion w) \<noteq> ver_subs (uc_version c) then refreshLibraries w c else (Inr (), c))"

definition searchFor :: "64 word \<Rightarrow> library_info list \<Rightarrow> (unwind_exn + library_info option) option" where
  "searchFor addr libs =
     (if libs = [] then Some (Inr None)
      else map_option (\<lambda>r. ebind r (\<lambda>low.
             if low < length libs
             then let l = libs ! low
                  in Inr (if addr < li_load_bias l \<or> addr \<ge> li_last_addr l then None else Some l)
             else Inl Out_of_range))
           (search_loop64 (\<lambda>mid. if mid < length libs then Inr (addr < li_load_bias (libs ! mid)) else Inl Out_of_range)
              0 (length libs)))"

text \<open>\<open>refreshLibraries\<close> followed by \<open>last_version_ = current_version\<close>, under a condition.\<close>

definition refresh_when :: "bool \<Rightarrow> dl_world \<Rightarrow> unwind_cache \<Rightarrow> (unwind_exn + unit) \<times> unwind_cache" where
  "refresh_when b w c =
     (if b then case refreshLibraries w c of
                  (Inl e, c1) \<Rightarrow> (Inl e, c1)
                | (Inr u, c1) \<Rightarrow> (Inr (), c1\<lparr>uc_version := currentVersion w\<rparr>)
      else (Inr (), c))"

definition findLibraryFor ::
    "dl_world \<Rightarrow> 64 word \<Rightarrow> unwind_cache \<Rightarrow> ((unwind_exn + library_info option) \<times> unwind_cache) option" where
  "findLibraryFor w addr c =
     (case refresh_when (ver_subs (currentVersion w) \<noteq> ver_subs (uc_version c)) w c of
        (Inl e, c1) \<Rightarrow> Some (Inl e, c1)
      | (Inr u, c1) \<Rightarrow>
          (case searchFor addr (uc_libraries c1) of
             None \<Rightarrow> None
           | Some (Inl e) \<Rightarrow> Some (Inl e, c1)
           | Some (Inr (Some l)) \<Rightarrow> Some (Inr (Some l), c1)
           | Some (Inr None) \<Rightarrow>
               (case refresh_when (ver_adds (currentVersion w) \<noteq> ver_adds (uc_version c1)) w c1 of
                  (Inl e, c2) \<Rightarrow> Some (Inl e, c2)
                | (Inr u, c2) \<Rightarrow> map_option (\<lambda>r. (r, c2)) (searchFor addr (uc_libraries c2)))))"

definition libraryFor ::
    "dl_world \<Rightarrow> 64 word \<Rightarrow> unwind_cache \<Rightarrow> ((unwind_exn + library_info) \<times> unwind_cache) option" where
  "libraryFor w addr c =
     (case findLibraryFor w addr c of
        None \<Rightarrow> None
      | Some (Inl e, c1) \<Rightarrow> Some (Inl e, c1)
      | Some (Inr (Some l), c1) \<Rightarrow> Some (Inr l, c1)
      | Some (Inr None, c1) \<Rightarrow>
          Some (Inl (Unwind_error ''addr not in range of known libraries''), c1\<lparr>uc_no_unwind := []\<rparr>))"

text \<open>The \<open>catch (UnwindError)\<close> of \<open>unwinderFor\<close>; other exceptions pass.\<close>

definition catch_unwind_error :: "unwind_exn + unwinder \<Rightarrow> unwind_exn + unwinder" where
  "catch_unwind_error r = (case r of Inl (Unwind_error msg) \<Rightarrow> Inr unknown_unwinder | Inl e \<Rightarrow> Inl e | Inr u \<Rightarrow> Inr u)"

definition insert_unwinder ::
    "64 word \<Rightarrow> unwind_exn + unwinder \<Rightarrow> unwind_cache \<Rightarrow> (unwind_exn + unwinder) \<times> unwind_cache" where
  "insert_unwinder addr r c =
     (case catch_unwind_error r of
        Inl e \<Rightarrow> (Inl e, c)
      | Inr u \<Rightarrow> (Inr u, c\<lparr>uc_ip_cache := (uc_ip_cache c)(addr \<mapsto> u)\<rparr>))"

definition unwinderFor ::
    "dl_world \<Rightarrow> 64 word \<Rightarrow> unwind_cache \<Rightarrow> ((unwind_exn + unwinder) \<times> unwind_cache) option" where
  "unwinderFor w addr c =
     (let st = uc_stats c
      in case uc_ip_cache c addr of
           Some u \<Rightarrow> Some (Inr u, c\<lparr>uc_stats := st\<lparr>st_hits := size_add (st_hits st) 1\<rparr>\<rparr>)
         | None \<Rightarrow>
             (case libraryFor w addr (c\<lparr>uc_stats := st\<lparr>st_misses := size_add (st_misses st) 1\<rparr>\<rparr>) of
                None \<Rightarrow> None
              | Some (Inl e, c1) \<Rightarrow> Some (insert_unwinder addr (Inl e) c1)
              | Some (Inr l, c1) \<Rightarrow>
                  map_option (\<lambda>r. insert_unwinder addr r c1) (library_unwinderFor (dl_mem w) l addr)))"

text \<open>The free function \<open>libraryFor\<close> of the interface: the library's name and the offset in it.\<close>

definition library_offset ::
    "dl_world \<Rightarrow> 64 word \<Rightarrow> unwind_cache \<Rightarrow> ((unwind_exn + (string \<times> 64 word) option) \<times> unwind_cache) option" where
  "library_offset w addr c =
     (if addr = 0 then Some (Inr None, c)
      else map_option (map_prod (map_sum id (map_option (\<lambda>l. (li_name l, addr - li_load_bias l)))) id)
             (findLibraryFor w addr c))"

section \<open>Walking the stack\<close>

partial_function (option) unwind_loop ::
    "dl_world \<Rightarrow> unwind_state \<Rightarrow> 64 word list \<Rightarrow> unwind_cache \<Rightarrow> ((unwind_exn + 64 word list) \<times> unwind_cache) option" where
  "unwind_loop w st result c =
     (case unwinderFor w (us_rip st) c of
        None \<Rightarrow> None
      | Some (Inl e, c') \<Rightarrow> Some (Inl e, c')
      | Some (Inr uw, c') \<Rightarrow>
          if terminator uw
          then Some (Inr (result @ [us_rip st] @ (if isUnknown uw then [0] else [])), c')
          else case run_unwinder (dl_mem w) uw st of
                 Inl e \<Rightarrow> Some (Inl e, c')
               | Inr st' \<Rightarrow> unwind_loop w st' (result @ [us_rip st]) c')"

definition unwind_c ::
    "dl_world \<Rightarrow> 64 word list \<Rightarrow> 64 word \<Rightarrow> 64 word \<Rightarrow> unwind_cache \<Rightarrow>
       ((unwind_exn + 64 word list) \<times> unwind_cache) option" where
  "unwind_c w result rsp rbp c =
     (case load64 (dl_mem w) rsp of
        Inl e \<Rightarrow> Some (Inl e, c)
      | Inr rip \<Rightarrow>
          (case checkRefresh w c of
             (Inl e, c1) \<Rightarrow> Some (Inl e, c1)
           | (Inr u, c1) \<Rightarrow> unwind_loop w \<lparr>us_rip = rip, us_rbp = rbp, us_rsp = rsp + 8\<rparr> result c1))"


section \<open>What the cache promises\<close>

definition loaded :: "dl_world \<Rightarrow> dl_object list \<Rightarrow> library_info list" where
  "loaded w obs = concat (map (\<lambda>ob. case library_of w ob of Some (Inr l) \<Rightarrow> [l] | _ \<Rightarrow> []) obs)"

definition contains_addr :: "64 word \<Rightarrow> library_info \<Rightarrow> bool" where
  "contains_addr addr l \<longleftrightarrow> li_load_bias l \<le> addr \<and> addr < li_last_addr l"

definition owner :: "library_info list \<Rightarrow> 64 word \<Rightarrow> library_info option" where
  "owner libs addr = find (contains_addr addr) libs"

definition libs_disjoint :: "library_info list \<Rightarrow> bool" where
  "libs_disjoint libs \<longleftrightarrow> distinct libs \<and> (\<forall>l \<in> set libs. li_load_bias l < li_last_addr l) \<and>
     (\<forall>l \<in> set libs. \<forall>l' \<in> set libs. l \<noteq> l' \<longrightarrow> li_last_addr l \<le> li_load_bias l' \<or> li_last_addr l' \<le> li_load_bias l)"

text \<open>Every frame header parses, and the libraries occupy disjoint address ranges.\<close>

definition world_ok :: "dl_world \<Rightarrow> bool" where
  "world_ok w \<longleftrightarrow> (\<forall>ob \<in> set (dl_objects w). \<forall>e. library_of w ob \<noteq> Some (Inl e)) \<and>
     libs_disjoint (loaded w (dl_objects w)) \<and> length (loaded w (dl_objects w)) < 2 ^ 63"

text \<open>The unwinder of an address, from the loaded libraries alone.\<close>

definition resolve :: "dl_world \<Rightarrow> 64 word \<Rightarrow> (unwind_exn + unwinder) option" where
  "resolve w addr =
     (case owner (loaded w (dl_objects w)) addr of
        None \<Rightarrow> Some (Inr unknown_unwinder)
      | Some l \<Rightarrow> map_option catch_unwind_error (library_unwinderFor (dl_mem w) l addr))"

definition settled :: "dl_world \<Rightarrow> unwind_cache \<Rightarrow> bool" where
  "settled w c \<longleftrightarrow> uc_libraries c = sort_key li_load_bias (loaded w (dl_objects w)) \<and> uc_version c = currentVersion w \<and>
     (\<forall>a u. uc_ip_cache c a = Some u \<longrightarrow> resolve w a = Some (Inr u))"

definition outdated :: "dl_world \<Rightarrow> unwind_cache \<Rightarrow> bool" where
  "outdated w c \<longleftrightarrow> ver_subs (currentVersion w) \<noteq> ver_subs (uc_version c)"

text \<open>The frames of a stack, from the loaded libraries alone.\<close>

partial_function (option) walk :: "dl_world \<Rightarrow> unwind_state \<Rightarrow> 64 word list \<Rightarrow> (unwind_exn + 64 word list) option" where
  "walk w st frames =
     (case resolve w (us_rip st) of
        None \<Rightarrow> None
      | Some (Inl e) \<Rightarrow> Some (Inl e)
      | Some (Inr uw) \<Rightarrow>
          if terminator uw then Some (Inr (frames @ [us_rip st] @ (if isUnknown uw then [0] else [])))
          else case run_unwinder (dl_mem w) uw st of
                 Inl e \<Rightarrow> Some (Inl e)
               | Inr st' \<Rightarrow> walk w st' (frames @ [us_rip st]))"

definition stack_frames :: "dl_world \<Rightarrow> 64 word \<Rightarrow> 64 word \<Rightarrow> (unwind_exn + 64 word list) option" where
  "stack_frames w rsp rbp =
     (case load64 (dl_mem w) rsp of
        Inl e \<Rightarrow> Some (Inl e)
      | Inr rip \<Rightarrow> walk w \<lparr>us_rip = rip, us_rbp = rbp, us_rsp = rsp + 8\<rparr> [])"

lemma find_unique:
  assumes "set xs = set ys" "\<And>x y. x \<in> set xs \<Longrightarrow> y \<in> set xs \<Longrightarrow> P x \<Longrightarrow> P y \<Longrightarrow> x = y"
  shows "find P xs = find P ys"
proof (cases "find P xs")
  case None
  then have "find P ys = None" using assms(1) by (simp add: find_None_iff)
  then show ?thesis using None by simp
next
  case (Some x)
  then have x: "x \<in> set xs" "P x" by (auto simp: find_Some_iff)
  then obtain y where "find P ys = Some y" using assms(1) by (metis find_None_iff not_None_eq)
  then have "y \<in> set ys" "P y" by (auto simp: find_Some_iff)
  then show ?thesis using Some x assms \<open>find P ys = Some y\<close> by auto
qed

lemma owner_unique:
  assumes "libs_disjoint libs" "l \<in> set libs" "l' \<in> set libs" "contains_addr a l" "contains_addr a l'"
  shows "l = l'"
  using assms unfolding libs_disjoint_def contains_addr_def by (meson leD le_less_trans order_trans)

lemma owner_sort: "libs_disjoint libs \<Longrightarrow> owner (sort_key li_load_bias libs) a = owner libs a"
  unfolding owner_def using owner_unique by (intro find_unique) auto

lemma owner_eq:
  assumes "libs_disjoint libs" "l \<in> set libs" "contains_addr a l"
  shows "owner libs a = Some l"
proof -
  have "find (contains_addr a) libs = find (contains_addr a) (l # libs)"
    using assms owner_unique [OF assms(1)] by (intro find_unique) auto
  then show ?thesis using assms(3) by (simp add: owner_def)
qed

lemma libs_disjoint_sort: "libs_disjoint libs \<Longrightarrow> libs_disjoint (sort_key li_load_bias libs)"
  by (simp add: libs_disjoint_def)

lemma libs_disjoint_order:
  assumes d: "libs_disjoint libs" and "sorted (map li_load_bias libs)" "i < j" "j < length libs"
  shows "li_last_addr (libs ! i) \<le> li_load_bias (libs ! j)"
proof -
  have le: "li_load_bias (libs ! i) \<le> li_load_bias (libs ! j)"
    using assms(2-4) by (simp add: sorted_iff_nth_mono)
  have "libs ! i \<noteq> libs ! j" using d assms(3,4) by (auto simp: libs_disjoint_def nth_eq_iff_index_eq)
  moreover have "li_load_bias (libs ! j) < li_last_addr (libs ! j)" using d assms(4) by (simp add: libs_disjoint_def)
  then have "\<not> li_last_addr (libs ! j) \<le> li_load_bias (libs ! i)" using le by (meson leD le_less_trans)
  ultimately show ?thesis using d assms(3,4) unfolding libs_disjoint_def by (metis (no_types) less_trans nth_mem)
qed

lemma searchFor_owner:
  assumes d: "libs_disjoint libs" and s: "sorted (map li_load_bias libs)" and n: "length libs < 2 ^ 63"
  shows "searchFor addr libs = Some (Inr (owner libs addr))"
proof (cases "libs = []")
  case True
  then show ?thesis by (simp add: searchFor_def owner_def)
next
  case False
  let ?below = "\<lambda>mid. if mid < length libs then Inr (addr < li_load_bias (libs ! mid)) else Inl Out_of_range"
  have mono: "addr < li_load_bias (libs ! j)" if "i < j" "j < length libs" "addr < li_load_bias (libs ! i)" for i j
    using sorted_nth_mono [OF s, of i j] that by (simp add: order_less_le_trans)
  have "\<exists>k. search_loop ?below 0 (length libs) = Inr k \<and> 0 \<le> k \<and> k < length libs \<and>
      (0 < k \<longrightarrow> \<not> addr < li_load_bias (libs ! k)) \<and> (\<forall>i. k < i \<and> i < length libs \<longrightarrow> addr < li_load_bias (libs ! i))"
    by (rule search_loop_correct) (use False mono in \<open>auto\<close>)
  then obtain k where k: "search_loop ?below 0 (length libs) = Inr k" "k < length libs"
      "0 < k \<longrightarrow> \<not> addr < li_load_bias (libs ! k)" "\<forall>i. k < i \<and> i < length libs \<longrightarrow> addr < li_load_bias (libs ! i)"
    by blast
  have "search_loop64 ?below 0 (length libs) = Some (Inr k)" using search_loop64_eq [of 0 "length libs" ?below] n k(1) by simp
  then have r: "searchFor addr libs = Some (Inr (if contains_addr addr (libs ! k) then Some (libs ! k) else None))"
    using False k(2) by (simp add: searchFor_def ebind_def Let_def contains_addr_def not_le not_less)
  have other: "\<not> contains_addr addr (libs ! i)" if i: "i < length libs" "i \<noteq> k" for i
  proof (cases "k < i")
    case True
    then show ?thesis using k(4) i by (auto simp: contains_addr_def dest: leD)
  next
    case False
    then have "i < k" using i by simp
    then have "li_last_addr (libs ! i) \<le> li_load_bias (libs ! k)" "li_load_bias (libs ! k) \<le> addr"
      using libs_disjoint_order [OF d s _ k(2)] k(3) by (simp_all add: not_less)
    then have "li_last_addr (libs ! i) \<le> addr" by (rule order_trans)
    then show ?thesis by (simp add: contains_addr_def leD)
  qed
  have "owner libs addr = (if contains_addr addr (libs ! k) then Some (libs ! k) else None)"
    using owner_eq [OF d _ , of "libs ! k" addr] k(2) other
    by (auto simp: owner_def find_None_iff in_set_conv_nth)
  then show ?thesis using r by simp
qed


lemma iterate_phdr_ok:
  assumes "\<forall>ob \<in> set obs. \<forall>e. library_of w ob \<noteq> Some (Inl e)"
  shows "\<exists>nu. iterate_phdr w obs c = (Inr (), c\<lparr>uc_libraries := uc_libraries c @ loaded w obs, uc_no_unwind := nu\<rparr>)"
  using assms
proof (induction obs arbitrary: c)
  case Nil
  show ?case by (rule exI [of _ "uc_no_unwind c"]) (simp add: loaded_def)
next
  case (Cons ob obs)
  then have IH: "\<And>c. \<exists>nu. iterate_phdr w obs c = (Inr (), c\<lparr>uc_libraries := uc_libraries c @ loaded w obs, uc_no_unwind := nu\<rparr>)" by simp
  show ?case
  proof (cases "library_of w ob")
    case None
    then show ?thesis using IH [of "c\<lparr>uc_no_unwind := uc_no_unwind c @ [dlpi_name ob]\<rparr>"] by (simp add: loaded_def)
  next
    case (Some r)
    then obtain l where "r = Inr l" using Cons.prems by (cases r) auto
    then show ?thesis using Some IH [of "c\<lparr>uc_libraries := uc_libraries c @ [l]\<rparr>"] by (simp add: loaded_def)
  qed
qed

lemma refreshLibraries_ok:
  assumes "world_ok w"
  obtains c' where "refreshLibraries w c = (Inr (), c')" "uc_libraries c' = sort_key li_load_bias (loaded w (dl_objects w))"
    "uc_ip_cache c' = Map.empty" "uc_version c' = uc_version c"
proof -
  let ?st = "uc_stats c"
  let ?c = "c\<lparr>uc_stats := ?st\<lparr>st_resets := size_add (st_resets ?st) 1\<rparr>, uc_libraries := [], uc_ip_cache := Map.empty\<rparr>"
  obtain nu where "iterate_phdr w (dl_objects w) ?c = (Inr (), ?c\<lparr>uc_libraries := loaded w (dl_objects w), uc_no_unwind := nu\<rparr>)"
    using iterate_phdr_ok [of "dl_objects w" w ?c] assms by (auto simp: world_ok_def)
  then have "refreshLibraries w c = (Inr (), ?c\<lparr>uc_libraries := sort_key li_load_bias (loaded w (dl_objects w)), uc_no_unwind := nu\<rparr>)"
    by (simp add: refreshLibraries_def Let_def)
  then show thesis by (rule that) simp_all
qed

lemma searchFor_loaded:
  assumes "world_ok w" "uc_libraries c = sort_key li_load_bias (loaded w (dl_objects w))"
  shows "searchFor a (uc_libraries c) = Some (Inr (owner (loaded w (dl_objects w)) a))"
  using assms by (simp add: world_ok_def searchFor_owner libs_disjoint_sort owner_sort)

lemma findLibraryFor_ok:
  assumes w: "world_ok w" and c: "settled w c \<or> outdated w c"
  obtains c' where "findLibraryFor w a c = Some (Inr (owner (loaded w (dl_objects w)) a), c')" "settled w c'"
proof (cases "outdated w c")
  case True
  obtain c1 where r: "refreshLibraries w c = (Inr (), c1)" "uc_libraries c1 = sort_key li_load_bias (loaded w (dl_objects w))"
      "uc_ip_cache c1 = Map.empty" using refreshLibraries_ok [OF w] by metis
  let ?c = "c1\<lparr>uc_version := currentVersion w\<rparr>"
  have "settled w ?c" using r by (simp add: settled_def)
  moreover have "findLibraryFor w a c = Some (Inr (owner (loaded w (dl_objects w)) a), ?c)"
    using True r searchFor_loaded [OF w, of ?c a]
    by (simp add: findLibraryFor_def refresh_when_def outdated_def split: option.split)
  ultimately show thesis using that by blast
next
  case False
  then have s: "settled w c" using c by blast
  then have "findLibraryFor w a c = Some (Inr (owner (loaded w (dl_objects w)) a), c)"
    using searchFor_loaded [OF w, of c a] by (simp add: findLibraryFor_def refresh_when_def settled_def split: option.split)
  then show thesis using that s by blast
qed

lemma libraryFor_ok:
  assumes "world_ok w" "settled w c \<or> outdated w c"
  obtains c' where "settled w c'" "libraryFor w a c = Some
    (case owner (loaded w (dl_objects w)) a of None \<Rightarrow> Inl (Unwind_error ''addr not in range of known libraries'') | Some l \<Rightarrow> Inr l, c')"
proof -
  obtain c1 where f: "findLibraryFor w a c = Some (Inr (owner (loaded w (dl_objects w)) a), c1)" "settled w c1"
    using findLibraryFor_ok [OF assms] by metis
  show thesis
  proof (cases "owner (loaded w (dl_objects w)) a")
    case None
    then show thesis using f by (intro that [of "c1\<lparr>uc_no_unwind := []\<rparr>"]) (simp_all add: libraryFor_def settled_def)
  next
    case (Some l)
    then show thesis using f by (intro that [of c1]) (simp_all add: libraryFor_def)
  qed
qed

lemma insert_unwinder_settled:
  assumes "settled w c" "resolve w a = Some (catch_unwind_error r)"
  obtains c' where "insert_unwinder a r c = (catch_unwind_error r, c')" "settled w c'"
proof (cases "catch_unwind_error r")
  case (Inl e)
  then show thesis using that [of c] assms(1) by (simp add: insert_unwinder_def)
next
  case (Inr u)
  then show thesis using that [of "c\<lparr>uc_ip_cache := (uc_ip_cache c)(a \<mapsto> u)\<rparr>"] assms
    by (simp add: insert_unwinder_def settled_def)
qed

lemma unwinderFor_ok:
  assumes w: "world_ok w" and c: "settled w c \<or> (outdated w c \<and> uc_ip_cache c = Map.empty)"
  shows "(resolve w a = None \<and> unwinderFor w a c = None) \<or>
    (\<exists>r c'. resolve w a = Some r \<and> unwinderFor w a c = Some (r, c') \<and> settled w c')"
proof (cases "uc_ip_cache c a")
  case (Some u)
  let ?st = "uc_stats c"
  have "settled w (c\<lparr>uc_stats := ?st\<lparr>st_hits := size_add (st_hits ?st) 1\<rparr>\<rparr>)" "resolve w a = Some (Inr u)"
    using c Some by (auto simp: settled_def)
  then show ?thesis using Some by (simp add: unwinderFor_def Let_def)
next
  case None
  let ?st = "uc_stats c"
  let ?c = "c\<lparr>uc_stats := ?st\<lparr>st_misses := size_add (st_misses ?st) 1\<rparr>\<rparr>"
  have "settled w ?c \<or> outdated w ?c" using c by (auto simp: settled_def outdated_def)
  then obtain c1 where l: "settled w c1" "libraryFor w a ?c = Some
      (case owner (loaded w (dl_objects w)) a of None \<Rightarrow> Inl (Unwind_error ''addr not in range of known libraries'') | Some l \<Rightarrow> Inr l, c1)"
    using libraryFor_ok [OF w] by metis
  show ?thesis
  proof (cases "owner (loaded w (dl_objects w)) a")
    case None
    let ?r = "Inl (Unwind_error ''addr not in range of known libraries'')"
    have r: "resolve w a = Some (catch_unwind_error ?r)" using None by (simp add: resolve_def catch_unwind_error_def)
    obtain c2 where "insert_unwinder a ?r c1 = (catch_unwind_error ?r, c2)" "settled w c2"
      using insert_unwinder_settled [OF l(1) r] by metis
    then show ?thesis using \<open>uc_ip_cache c a = None\<close> None l(2) r by (simp add: unwinderFor_def Let_def)
  next
    case (Some li)
    show ?thesis
    proof (cases "library_unwinderFor (dl_mem w) li a")
      case None
      then show ?thesis using \<open>uc_ip_cache c a = None\<close> Some l(2) by (simp add: unwinderFor_def Let_def resolve_def)
    next
      case r0: (Some r)
      then have r: "resolve w a = Some (catch_unwind_error r)" using Some by (simp add: resolve_def)
      obtain c2 where "insert_unwinder a r c1 = (catch_unwind_error r, c2)" "settled w c2"
        using insert_unwinder_settled [OF l(1) r] by metis
      then show ?thesis using \<open>uc_ip_cache c a = None\<close> Some r0 l(2) r by (simp add: unwinderFor_def Let_def)
    qed
  qed
qed


text \<open>The two shapes of the cache inside the loop: settled, or emptied by \<open>checkRefresh\<close> alone.\<close>

definition usable :: "dl_world \<Rightarrow> unwind_cache \<Rightarrow> bool" where
  "usable w c \<longleftrightarrow> settled w c \<or> (outdated w c \<and> uc_ip_cache c = Map.empty)"

lemma unwind_loop_sound:
  "unwind_loop w st res c = Some rc \<Longrightarrow> world_ok w \<longrightarrow> usable w c \<longrightarrow>
    walk w st res = Some (fst rc) \<and> settled w (snd rc)"
proof (induction rule: unwind_loop.raw_induct [rotated, consumes 1])
  case (1 loop w st res c rc)
  show ?case
  proof (intro impI)
    assume w: "world_ok w" and c: "usable w c"
    obtain r c1 where r: "resolve w (us_rip st) = Some r" "unwinderFor w (us_rip st) c = Some (r, c1)" "settled w c1"
      using unwinderFor_ok [OF w c [unfolded usable_def], of "us_rip st"] 1(2) by (auto split: option.splits)
    then have c1: "usable w c1" by (simp add: usable_def)
    show "walk w st res = Some (fst rc) \<and> settled w (snd rc)"
      using 1(2) r 1(1) [of w _ "res @ [us_rip st]" c1 rc] w c1
      by (subst walk.simps) (auto split: sum.splits if_splits)
  qed
qed

lemma unwind_loop_complete:
  "walk w st res = Some r \<Longrightarrow> \<forall>c. world_ok w \<longrightarrow> usable w c \<longrightarrow> (\<exists>c'. unwind_loop w st res c = Some (r, c'))"
proof (induction rule: walk.raw_induct [rotated, consumes 1])
  case (1 loop w st res r)
  show ?case
  proof (intro allI impI)
    fix c assume w: "world_ok w" and c: "usable w c"
    obtain r1 c1 where r: "resolve w (us_rip st) = Some r1" "unwinderFor w (us_rip st) c = Some (r1, c1)" "settled w c1"
      using unwinderFor_ok [OF w c [unfolded usable_def], of "us_rip st"] 1(2) by (auto split: option.splits)
    then have c1: "usable w c1" by (simp add: usable_def)
    show "\<exists>c'. unwind_loop w st res c = Some (r, c')"
      using 1(2) r 1(1) [of w _ "res @ [us_rip st]" r] w c1
      by (subst unwind_loop.simps) (auto split: sum.splits if_splits)
  qed
qed

lemma unwind_loop_walk:
  assumes "world_ok w" "usable w c"
  shows "map_option fst (unwind_loop w st res c) = walk w st res"
proof (cases "walk w st res")
  case None
  then have "unwind_loop w st res c = None" using unwind_loop_sound [of w st res c] assms by (cases "unwind_loop w st res c") auto
  then show ?thesis using None by simp
next
  case (Some r)
  then show ?thesis using unwind_loop_complete [OF Some] assms by auto
qed

lemma checkRefresh_usable:
  assumes "world_ok w" "settled w c \<or> outdated w c"
  obtains c' where "checkRefresh w c = (Inr (), c')" "usable w c'"
proof (cases "outdated w c")
  case True
  obtain c1 where "refreshLibraries w c = (Inr (), c1)" "uc_ip_cache c1 = Map.empty" "uc_version c1 = uc_version c"
    using refreshLibraries_ok [OF assms(1)] by metis
  then show thesis using True by (intro that [of c1]) (simp_all add: checkRefresh_def outdated_def usable_def)
next
  case False
  then show thesis using assms(2) by (intro that [of c]) (simp_all add: checkRefresh_def outdated_def usable_def)
qed



section \<open>A library with two functions\<close>

definition demo_hdr_mem :: memory where
  "demo_hdr_mem = memory_of 0x1000
     [1, 0xFF, 0x03, 0x3B, 2, 0, 0, 0,
      0, 1, 0, 0,  0x40, 0, 0, 0,
      0, 2, 0, 0,  0x60, 0, 0, 0,
      0x50, 0x11, 0, 0, 0, 0, 0, 0]"

definition demo_hdr :: eh_frame_hdr where
  "demo_hdr = \<lparr>eh_base = 0x1000, eh_table_start = 0x1008, eh_version = 1, eh_frame_ptr_enc = 0xFF,
     eh_fde_count_enc = 0x03, eh_table_enc = 0x3B, eh_eh_frame = 0, eh_fde_count = 2, eh_table_size = 4\<rparr>"

lemma bytes_at_4: "bytes_at mem a 4 = bytes_at mem a (Suc (Suc (Suc (Suc 0))))" by (simp add: eval_nat_numeral)

lemmas demo_eval = demo_hdr_mem_def memory_of_def mem_byte_def bytes_at_4 read_u8_def read_u32_def read_s32_def
  read_val_def rd_defs readEncodedOr_def readEncoded_def readEncodedValue_def eh_pe_defs Let_def ebind_def

lemma demo_header: "make_eh_frame_hdr demo_hdr_mem 0x1000 = Inr demo_hdr"
  by (simp add: make_eh_frame_hdr_def demo_hdr_def demo_eval Lexer_def table_entry_size_def)

lemma demo_lowpc: "lowpc demo_hdr_mem demo_hdr 0 = Inr 0x1100" "lowpc demo_hdr_mem demo_hdr 1 = Inr 0x1200"
  by (simp_all add: lowpc_def table_word_def demo_hdr_def skip_def Lexer_def demo_eval)

lemma demo_fde_ptr: "fde_ptr demo_hdr_mem demo_hdr 0 = Inr 0x1040" "fde_ptr demo_hdr_mem demo_hdr 1 = Inr 0x1060"
  by (simp_all add: fde_ptr_def table_word_def demo_hdr_def skip_def Lexer_def demo_eval)

theorem entryForAddr_correct_witness: "entryForAddr demo_hdr_mem 0x1180 demo_hdr = Some (Inr 0x1040)"
proof -
  let ?k = "\<lambda>i :: nat. if i = 0 then 0x1100 else 0x1200 :: 64 word"
  have n: "nentries demo_hdr = 2" by (simp add: nentries_def demo_hdr_def)
  have "lowpc demo_hdr_mem demo_hdr i = Inr (?k i)" if "i < nentries demo_hdr" for i
    using that demo_lowpc by (auto simp: n less_2_cases_iff)
  moreover have "eh_table_size demo_hdr \<noteq> 0" by (simp add: demo_hdr_def)
  ultimately obtain i where i: "i < 2" "entryForAddr demo_hdr_mem 0x1180 demo_hdr = Some (fde_ptr demo_hdr_mem demo_hdr i)"
      "?k 0 \<le> 0x1180 \<longrightarrow> ?k i \<le> 0x1180"
    using entryForAddr_correct [of demo_hdr demo_hdr_mem ?k "0x1180"] by (auto simp: n)
  then have "i = 0" by (cases "i = 0") simp_all
  then show ?thesis using i(2) demo_fde_ptr(1) by simp
qed

definition demo_world :: dl_world where
  "demo_world = \<lparr>dl_adds = 1, dl_subs = 0,
     dl_objects = [\<lparr>dlpi_name = ''libdemo.so'', dlpi_addr = 0x1000,
       dlpi_phdr = [\<lparr>p_type = PT_LOAD, p_vaddr = 0, p_memsz = 0x1000\<rparr>,
                    \<lparr>p_type = PT_GNU_EH_FRAME, p_vaddr = 0, p_memsz = 0x20\<rparr>]\<rparr>],
     dl_exe = ''demo'', dl_mem = demo_hdr_mem\<rparr>"

lemma demo_library:
  "library_of demo_world (hd (dl_objects demo_world)) =
     Some (Inr \<lparr>li_name = ''libdemo.so'', li_load_bias = 0x1000, li_last_addr = 0x2000, li_eh_frame_hdr = demo_hdr\<rparr>)"
  using demo_header by (simp add: library_of_def demo_world_def PT_LOAD_def PT_GNU_EH_FRAME_def)

lemma demo_world_ok: "world_ok demo_world"
  using demo_library by (simp add: world_ok_def loaded_def libs_disjoint_def demo_world_def)


end
