(* ===== verification/Fast_Symbolizer.thy ===== *)
theory Fast_Symbolizer
  imports Line_Table Unwind_Cache
begin

text \<open>
  \<open>fast_symbolizer.h\<close> and \<open>symbolize_fast\<close> of \<open>unwind.cpp\<close>: sections and line number programs per
  library, looked up for each code address. A \<open>LineNumberProgram\<close> keeps a reference to the sections of
  its library; here it is stored with the library's name. The files, the demangler, the dynamic linker
  and \<open>dladdr\<close> are a parameter. A warning is kept as a value, not as formatted text.
\<close>

section \<open>The symbolizer\<close>

record frame =
  fr_filename :: "byte list"
  fr_funcname :: "byte list"
  fr_lineno :: "64 word"

datatype warning =
  No_subprogram "byte list" "64 word"
| No_line "byte list" "64 word"
| Library_failed "byte list" string
| Program_failed "64 word" string

record environment =
  en_mem :: memory
  en_file :: "byte list \<Rightarrow> file_answer"
  en_demangle :: "byte list \<Rightarrow> byte list option"
  en_dladdr :: "64 word \<Rightarrow> byte list option"

record symbolizer =
  sy_libraries :: "byte list \<rightharpoonup> sections"
  sy_programs :: "(byte list \<times> line_program) list"
  sy_warnings :: "warning list"

definition new_symbolizer :: symbolizer where
  "new_symbolizer = \<lparr>sy_libraries = Map.empty, sy_programs = [], sy_warnings = []\<rparr>"

definition warn :: "warning \<Rightarrow> symbolizer \<Rightarrow> symbolizer" where
  "warn w st = st\<lparr>sy_warnings := sy_warnings st @ [w]\<rparr>"

definition unknown_name :: "byte list" where
  "unknown_name = ascii ''??''"

fun add_unit_ranges :: "(64 word \<times> 64 word) list \<Rightarrow> 64 word \<Rightarrow> sections \<Rightarrow> (unwind_exn + unit) \<times> sections" where
  "add_unit_ranges [] k s = (Inr (), s)"
| "add_unit_ranges ((b, e) # rs) k s = and_then (addDebugInfoRange b e k s) (add_unit_ranges rs k)"

text \<open>The units of a library; a unit may name itself as the next one, and the loop not end.\<close>

partial_function (option) parseDebugInfo ::
    "memory \<Rightarrow> byte list \<Rightarrow> 64 word \<Rightarrow> sections \<times> (byte list \<times> line_program) list \<Rightarrow>
       ((unwind_exn + unit) \<times> sections \<times> (byte list \<times> line_program) list) option" where
  "parseDebugInfo mem lib off sp =
     (if unat off < sec_size (se_debug_info (fst sp))
      then case parse_unit mem (fst sp) off new_debug_info of
             Inl e \<Rightarrow> Some (Inl e, sp)
           | Inr d \<Rightarrow>
               (case di_line_number_program_offset d of
                  None \<Rightarrow> parseDebugInfo mem lib (nextOffset (fst sp) d) sp
                | Some lnp_offset \<Rightarrow>
                    (case unit_ranges mem (fst sp) d of
                       Inl e \<Rightarrow> Some (Inl e, sp)
                     | Inr rs \<Rightarrow>
                         (case add_unit_ranges rs (word_of_nat (length (snd sp))) (fst sp) of
                            (Inl e, s1) \<Rightarrow> Some (Inl e, s1, snd sp)
                          | (Inr u, s1) \<Rightarrow>
                              parseDebugInfo mem lib (nextOffset s1 d) (s1, snd sp @ [(lib, new_line_program lnp_offset)]))))
      else Some (Inr (), sp))"

text \<open>The body of the \<open>try\<close> of \<open>getOrCreateSections\<close>, and the function; it returns the sections by name.\<close>

definition load_library ::
    "environment \<Rightarrow> byte list \<Rightarrow> sections \<times> (byte list \<times> line_program) list \<Rightarrow>
       ((unwind_exn + unit) \<times> sections \<times> (byte list \<times> line_program) list) option" where
  "load_library env lib sp =
     (case parse_sections (en_mem env) (en_file env lib) (fst sp) of
        (Inl e, s) \<Rightarrow> Some (Inl e, s, snd sp)
      | (Inr u, s) \<Rightarrow> parseDebugInfo (en_mem env) lib 0 (s, snd sp))"

definition getOrCreateSections :: "environment \<Rightarrow> byte list \<Rightarrow> symbolizer \<Rightarrow> ((unwind_exn + unit) \<times> symbolizer) option" where
  "getOrCreateSections env lib st =
     (if lib \<in> dom (sy_libraries st) then Some (Inr (), st)
      else map_option (\<lambda>(r, s, ps).
             let st1 = st\<lparr>sy_libraries := (sy_libraries st)(lib \<mapsto> s), sy_programs := ps\<rparr>
             in case r of
                  Inl (Unwind_error msg) \<Rightarrow> (Inr (), warn (Library_failed lib msg) st1)
                | Inl e \<Rightarrow> (Inl e, st1)
                | Inr u \<Rightarrow> (Inr (), st1))
           (load_library env lib (new_sections, sy_programs st)))"

definition set_library :: "byte list \<Rightarrow> sections \<Rightarrow> symbolizer \<Rightarrow> symbolizer" where
  "set_library lib s st = st\<lparr>sy_libraries := (sy_libraries st)(lib \<mapsto> s)\<rparr>"

definition set_program :: "nat \<Rightarrow> line_program \<Rightarrow> symbolizer \<Rightarrow> symbolizer" where
  "set_program i p st = st\<lparr>sy_programs := (sy_programs st)[i := (fst (sy_programs st ! i), p)]\<rparr>"

text \<open>The parsed program \<open>p\<close> answers the lookup: \<open>find\<close>, then \<open>filename\<close> and the line.\<close>

definition program_line :: "64 word \<Rightarrow> line_program \<Rightarrow> (unwind_exn + (byte list \<times> 64 word) option) \<times> line_program" where
  "program_line off p =
     (let (r, p') = find_entry off p
      in (ebind r (\<lambda>e. case e of
            None \<Rightarrow> Inr None
          | Some en \<Rightarrow> map_sum id (\<lambda>nm. Some (nm, le_line en)) (filename (ucast (le_file en)) p')), p'))"

definition findLine ::
    "environment \<Rightarrow> byte list \<Rightarrow> 64 word \<Rightarrow> symbolizer \<Rightarrow> ((unwind_exn + (byte list \<times> 64 word) option) \<times> symbolizer) option" where
  "findLine env lib off st =
     (let (r, s) = findDebugInfoOffset off (the (sy_libraries st lib)); st1 = set_library lib s st
      in case r of
           Inl e \<Rightarrow> Some (Inl e, st1)
         | Inr None \<Rightarrow> Some (Inr None, st1)
         | Inr (Some idx) \<Rightarrow>
             if \<not> unat idx < length (sy_programs st1) then Some (Inl Out_of_range, st1)
             else let (owner_lib, p) = sy_programs st1 ! unat idx
                  in case parse_line_program (en_mem env) (the (sy_libraries st1 owner_lib)) p of
                       None \<Rightarrow> None
                     | Some (Inl (Unwind_error msg), p1) \<Rightarrow>
                         (let (r, p2) = program_line off p1
                          in Some (r, set_program (unat idx) p2 (warn (Program_failed (lp_offset p1) msg) st1)))
                     | Some (Inl e, p1) \<Rightarrow> Some (Inl e, set_program (unat idx) p1 st1)
                     | Some (Inr u, p1) \<Rightarrow>
                         (let (r, p2) = program_line off p1 in Some (r, set_program (unat idx) p2 st1)))"

definition symbolize :: "environment \<Rightarrow> byte list \<Rightarrow> 64 word \<Rightarrow> symbolizer \<Rightarrow> ((unwind_exn + frame) \<times> symbolizer) option" where
  "symbolize env library off st =
     (case getOrCreateSections env library st of
        None \<Rightarrow> None
      | Some (Inl e, st1) \<Rightarrow> Some (Inl e, st1)
      | Some (Inr u, st1) \<Rightarrow>
          (let (r, s) = findSubprogramName (en_demangle env) (en_mem env) off (the (sy_libraries st1 library));
               st2 = set_library library s st1
           in case r of
                Inl e \<Rightarrow> Some (Inl e, st2)
              | Inr nm \<Rightarrow>
                  (let st3 = (case nm of Some f \<Rightarrow> st2 | None \<Rightarrow> warn (No_subprogram library off) st2);
                       func = (case nm of Some f \<Rightarrow> f | None \<Rightarrow> unknown_name)
                   in case findLine env library off st3 of
                        None \<Rightarrow> None
                      | Some (Inl e, st4) \<Rightarrow> Some (Inl e, st4)
                      | Some (Inr (Some (file, line)), st4) \<Rightarrow>
                          Some (Inr \<lparr>fr_filename = file, fr_funcname = func, fr_lineno = line\<rparr>, st4)
                      | Some (Inr None, st4) \<Rightarrow>
                          Some (Inr \<lparr>fr_filename = library, fr_funcname = func, fr_lineno = off\<rparr>,
                            warn (No_line library off) st4))))"

section \<open>Symbolizing a stack\<close>

datatype mode = Addr2line | Fast | Dladdr

definition dladdr_lookup :: "environment \<Rightarrow> 64 word \<Rightarrow> byte list" where
  "dladdr_lookup env addr =
     (case en_dladdr env addr of Some nm \<Rightarrow> demangle (en_demangle env) nm | None \<Rightarrow> unknown_name)"

text \<open>One address that is not in the frame map; the unwind cache answers which library holds it.\<close>

definition symbolize_address ::
    "environment \<Rightarrow> dl_world \<Rightarrow> mode \<Rightarrow> 64 word \<Rightarrow> symbolizer \<times> unwind_cache \<Rightarrow>
       ((unwind_exn + frame) \<times> symbolizer \<times> unwind_cache) option" where
  "symbolize_address env w md addr sc =
     (case library_offset w addr (snd sc) of
        None \<Rightarrow> None
      | Some (Inl e, c1) \<Rightarrow> Some (Inl e, fst sc, c1)
      | Some (Inr lib, c1) \<Rightarrow>
          map_option (\<lambda>(r, st1).
             (map_sum id (\<lambda>f. if fr_funcname f = unknown_name then f\<lparr>fr_funcname := dladdr_lookup env addr\<rparr> else f) r, st1, c1))
           (case lib of
              None \<Rightarrow> Some (Inr \<lparr>fr_filename = unknown_name, fr_funcname = unknown_name, fr_lineno = 0\<rparr>, fst sc)
            | Some (nm, off) \<Rightarrow>
                if md = Fast then symbolize env (ascii nm) (off - 1) (fst sc)
                else Some (Inr \<lparr>fr_filename = ascii nm, fr_funcname = unknown_name, fr_lineno = off - 1\<rparr>, fst sc)))"

fun symbolize_addresses ::
    "environment \<Rightarrow> dl_world \<Rightarrow> mode \<Rightarrow> 64 word list \<Rightarrow> symbolizer \<times> unwind_cache \<Rightarrow>
       ((unwind_exn + frame list) \<times> symbolizer \<times> unwind_cache) option" where
  "symbolize_addresses env w md [] sc = Some (Inr [], sc)"
| "symbolize_addresses env w md (a # as) sc =
     (case symbolize_address env w md a sc of
        None \<Rightarrow> None
      | Some (Inl e, sc1) \<Rightarrow> Some (Inl e, sc1)
      | Some (Inr f, sc1) \<Rightarrow>
          map_option (\<lambda>(r, sc2). (map_sum id (Cons f) r, sc2)) (symbolize_addresses env w md as sc1))"

text \<open>
  \<open>emplace\<close> keeps the first frame of an address that occurs twice. The map is that of the mode.
\<close>

definition emplace :: "64 word \<times> frame \<Rightarrow> (64 word \<rightharpoonup> frame) \<Rightarrow> (64 word \<rightharpoonup> frame)" where
  "emplace af m = (case m (fst af) of Some f \<Rightarrow> m | None \<Rightarrow> m(fst af \<mapsto> snd af))"

definition fill_results :: "(64 word \<rightharpoonup> frame) \<Rightarrow> 64 word list \<Rightarrow> frame list \<Rightarrow> frame list" where
  "fill_results m frames found =
     (let idxs = filter (\<lambda>i. m (frames ! i) = None) [0..<length frames]
      in map (\<lambda>i. case m (frames ! i) of
           Some f \<Rightarrow> f
         | None \<Rightarrow> (case map_of (zip idxs found) i of
              Some f \<Rightarrow> f
            | None \<Rightarrow> \<lparr>fr_filename = unknown_name, fr_funcname = unknown_name, fr_lineno = 0\<rparr>)) [0..<length frames])"

definition symbolize_fast ::
    "environment \<Rightarrow> dl_world \<Rightarrow> mode \<Rightarrow> 64 word list \<Rightarrow> (64 word \<rightharpoonup> frame) \<times> unwind_cache \<Rightarrow>
       ((unwind_exn + frame list) \<times> (64 word \<rightharpoonup> frame) \<times> unwind_cache) option" where
  "symbolize_fast env w md frames mc =
     (let missing = filter (\<lambda>a. fst mc a = None) frames
      in map_option (\<lambda>(r, st, c1).
           case r of
             Inl e \<Rightarrow> (Inl e, fst mc, c1)
           | Inr found \<Rightarrow> (Inr (fill_results (fst mc) frames found), fold emplace (zip missing found) (fst mc), c1))
         (symbolize_addresses env w md missing (new_symbolizer, snd mc)))"


section \<open>Every unit names a program\<close>

definition offsets_ok :: "nat \<Rightarrow> 64 word range_table \<Rightarrow> bool" where
  "offsets_ok n t \<longleftrightarrow> table_ok t \<and> (\<forall>a i. (a, Some i) \<in> set (entries t) \<longrightarrow> unat i < n)"

definition index_ok :: "symbolizer \<Rightarrow> bool" where
  "index_ok st \<longleftrightarrow>
     (\<forall>lib s. sy_libraries st lib = Some s \<longrightarrow> offsets_ok (length (sy_programs st)) (se_debug_info_offsets s)) \<and>
     (\<forall>lp \<in> set (sy_programs st). fst lp \<in> dom (sy_libraries st))"

lemma offsets_ok_mono: "offsets_ok n t \<Longrightarrow> n \<le> m \<Longrightarrow> offsets_ok m t"
  unfolding offsets_ok_def by (meson order_less_le_trans)

lemma offsets_ok_empty: "offsets_ok n empty_table"
  by (simp add: offsets_ok_def empty_table_ok)

lemma offsets_ok_sort: "offsets_ok n t \<Longrightarrow> offsets_ok n (maybeSort t)"
  using maybeSort_ok [of t] mset_eq_setD [of "entries (maybeSort t)" "entries t"] by (auto simp: offsets_ok_def)

lemma find_range_sorts: "snd (find_range a t) = maybeSort t"
  by (simp add: find_range_def Let_def)

lemma offsets_ok_find:
  assumes "offsets_ok n t"
  shows "\<exists>x. fst (find_range a t) = Inr x \<and> (\<forall>i. x = Some i \<longrightarrow> unat i < n)"
  using find_range_entry [of t a] assms by (fastforce simp: offsets_ok_def)

lemma offsets_ok_add_range:
  assumes "offsets_ok n t" "unat k < n" "add_range b e k t = Inr t'"
  shows "offsets_ok n t'"
proof -
  obtain t1 where t1: "add b (Some k) False t = Inr t1" "add e None False t1 = Inr t'"
    using assms(3) by (auto simp: add_range_def split: sum.splits)
  have ok: "table_ok t" using assms(1) by (simp add: offsets_ok_def)
  note a1 = add_ok [OF ok t1(1)]
  note a2 = add_ok [OF a1(1) t1(2)]
  show ?thesis using assms(1,2) a1(2) a2(1,2) by (auto simp: offsets_ok_def)
qed

lemma add_unit_ranges_ok:
  assumes "offsets_ok n (se_debug_info_offsets s)" "unat k < n"
  shows "offsets_ok n (se_debug_info_offsets (snd (add_unit_ranges rs k s)))"
  using assms
proof (induction rs k s rule: add_unit_ranges.induct)
  case (2 b e rs k s)
  show ?case
  proof (cases "add_range b e k (se_debug_info_offsets s)")
    case (Inl x)
    then show ?thesis using 2(2) by (simp add: and_then_def addDebugInfoRange_def)
  next
    case (Inr t)
    have "offsets_ok n (se_debug_info_offsets (s\<lparr>se_debug_info_offsets := t\<rparr>))"
      using offsets_ok_add_range [OF 2(2,3) Inr] by simp
    then show ?thesis using Inr 2(1) [of "s\<lparr>se_debug_info_offsets := t\<rparr>"] 2(3)
      by (simp add: and_then_def addDebugInfoRange_def)
  qed
qed simp

lemma unat_word_of_nat_le: "unat (word_of_nat n :: 64 word) \<le> n"
  by (simp add: unat_of_nat)

lemma parseDebugInfo_ok:
  "parseDebugInfo mem lib off sp = Some r \<Longrightarrow> offsets_ok (length (snd sp)) (se_debug_info_offsets (fst sp)) \<longrightarrow>
     offsets_ok (length (snd (snd r))) (se_debug_info_offsets (fst (snd r))) \<and>
     length (snd sp) \<le> length (snd (snd r)) \<and> fst ` set (snd (snd r)) \<subseteq> insert lib (fst ` set (snd sp))"
proof (induction rule: parseDebugInfo.raw_induct [rotated, consumes 1])
  case (1 loop mem lib off sp r)
  show ?case
  proof
    assume ok: "offsets_ok (length (snd sp)) (se_debug_info_offsets (fst sp))"
    have ok': "offsets_ok (Suc (length (snd sp))) (se_debug_info_offsets (snd (add_unit_ranges rs (word_of_nat (length (snd sp))) (fst sp))))" for rs
      using add_unit_ranges_ok [OF offsets_ok_mono [OF ok, of "Suc (length (snd sp))"], of "word_of_nat (length (snd sp))" rs]
        unat_word_of_nat_le [of "length (snd sp)"] by (simp add: le_imp_less_Suc)
    have total: "\<exists>s1. add_unit_ranges rs k s = (Inr (), s1)" for rs k and s :: sections
    proof (induction rs arbitrary: s)
      case (Cons be rs)
      obtain t where "add_range (fst be) (snd be) k (se_debug_info_offsets s) = Inr t" by (metis add_range_total)
      then show ?case using Cons [of "s\<lparr>se_debug_info_offsets := t\<rparr>"]
        by (cases be) (simp add: and_then_def addDebugInfoRange_def)
    qed simp
    show "offsets_ok (length (snd (snd r))) (se_debug_info_offsets (fst (snd r))) \<and>
       length (snd sp) \<le> length (snd (snd r)) \<and> fst ` set (snd (snd r)) \<subseteq> insert lib (fst ` set (snd sp))"
    proof (cases "unat off < sec_size (se_debug_info (fst sp))")
      case False
      then show ?thesis using 1(2) ok by auto
    next
      case True
      show ?thesis
      proof (cases "parse_unit mem (fst sp) off new_debug_info")
        case (Inl e)
        then show ?thesis using 1(2) True ok by auto
      next
        case (Inr d)
        show ?thesis
        proof (cases "di_line_number_program_offset d")
          case None
          have "loop mem lib (nextOffset (fst sp) d) sp = Some r" using 1(2) True Inr None by simp
          from 1(1) [OF this] ok show ?thesis by blast
        next
          case (Some lnp)
          show ?thesis
          proof (cases "unit_ranges mem (fst sp) d")
            case (Inl e)
            then show ?thesis using 1(2) True Inr Some ok by auto
          next
            case rs: (Inr rs)
            obtain s1 where s1: "add_unit_ranges rs (word_of_nat (length (snd sp))) (fst sp) = (Inr (), s1)"
              using total by blast
            have "loop mem lib (nextOffset s1 d) (s1, snd sp @ [(lib, new_line_program lnp)]) = Some r"
              using 1(2) True Inr Some rs s1 by simp
            from 1(1) [OF this] ok' [of rs] s1 show ?thesis by auto
          qed
        qed
      qed
    qed
  qed
qed


lemma load_sections_offsets:
  assumes "\<forall>(nm, opt, store) \<in> set specs. \<forall>x s. se_debug_info_offsets (store x s) = se_debug_info_offsets s"
  shows "se_debug_info_offsets (snd (load_sections mem f specs s)) = se_debug_info_offsets s"
  using assms
proof (induction specs arbitrary: s)
  case (Cons sp specs)
  obtain nm opt store where sp: "sp = (nm, opt, store)" by (cases sp)
  then show ?case using Cons by (cases "getSection mem f (ascii nm) opt") simp_all
qed simp

lemma parse_sections_offsets: "se_debug_info_offsets (snd (parse_sections mem fa s)) = se_debug_info_offsets s"
proof -
  have sym: "se_debug_info_offsets (snd (parseSymtab mem s)) = se_debug_info_offsets s" for s
    by (simp add: parseSymtab_def Let_def split_def)
  have then_keep: "se_debug_info_offsets (snd (and_then r k)) = d"
    if "se_debug_info_offsets (snd r) = d" "\<And>s. se_debug_info_offsets s = d \<Longrightarrow> se_debug_info_offsets (snd (k s)) = d"
    for r and k :: "sections \<Rightarrow> (unwind_exn + unit) \<times> sections" and d
    using that by (cases r; cases "fst r") (auto simp: and_then_def)
  show ?thesis
  proof (cases "fst (make_mem_file mem fa)")
    case (Inl e)
    then show ?thesis by (simp add: parse_sections_def)
  next
    case (Inr f)
    show ?thesis unfolding parse_sections_def Inr sum.case
      by (intro then_keep) (simp_all add: load_sections_offsets sym del: load_sections.simps)
  qed
qed

lemma load_library_ok:
  assumes "load_library env lib sp = Some r" "se_debug_info_offsets (fst sp) = empty_table"
  shows "offsets_ok (length (snd (snd r))) (se_debug_info_offsets (fst (snd r)))"
    "length (snd sp) \<le> length (snd (snd r))" "fst ` set (snd (snd r)) \<subseteq> insert lib (fst ` set (snd sp))"
proof -
  obtain q s where q: "parse_sections (en_mem env) (en_file env lib) (fst sp) = (q, s)"
    by (cases "parse_sections (en_mem env) (en_file env lib) (fst sp)")
  have ok: "offsets_ok (length (snd sp)) (se_debug_info_offsets s)"
    using parse_sections_offsets [of "en_mem env" "en_file env lib" "fst sp"] q assms(2) by (simp add: offsets_ok_empty)
  have "offsets_ok (length (snd (snd r))) (se_debug_info_offsets (fst (snd r))) \<and>
     length (snd sp) \<le> length (snd (snd r)) \<and> fst ` set (snd (snd r)) \<subseteq> insert lib (fst ` set (snd sp))"
  proof (cases q)
    case (Inl e)
    then show ?thesis using assms(1) q ok by (auto simp: load_library_def)
  next
    case (Inr u)
    then have "parseDebugInfo (en_mem env) lib 0 (s, snd sp) = Some r" using assms(1) q by (simp add: load_library_def)
    from parseDebugInfo_ok [OF this] ok show ?thesis by simp
  qed
  then show "offsets_ok (length (snd (snd r))) (se_debug_info_offsets (fst (snd r)))"
    "length (snd sp) \<le> length (snd (snd r))" "fst ` set (snd (snd r)) \<subseteq> insert lib (fst ` set (snd sp))" by simp_all
qed

lemma index_ok_warn [simp]: "index_ok (warn w st) = index_ok st"
  by (simp add: index_ok_def warn_def)

lemma warn_simps [simp]: "sy_libraries (warn w st) = sy_libraries st" "sy_programs (warn w st) = sy_programs st"
  by (simp_all add: warn_def)

lemma getOrCreateSections_ok:
  assumes "getOrCreateSections env lib st = Some (r, st')" "index_ok st"
  shows "index_ok st' \<and> lib \<in> dom (sy_libraries st')"
proof (cases "lib \<in> dom (sy_libraries st)")
  case True
  then show ?thesis using assms by (simp add: getOrCreateSections_def)
next
  case False
  obtain q s ps where l: "load_library env lib (new_sections, sy_programs st) = Some (q, s, ps)"
    using assms(1) False by (auto simp: getOrCreateSections_def)
  note ok = load_library_ok [OF l, simplified, unfolded new_sections_def, simplified]
  let ?st = "st\<lparr>sy_libraries := (sy_libraries st)(lib \<mapsto> s), sy_programs := ps\<rparr>"
  have len: "length (sy_programs st) \<le> length ps" using ok(2) .
  have "offsets_ok (length ps) (se_debug_info_offsets s')" if "sy_libraries st lib' = Some s'" for lib' s'
    using that assms(2) offsets_ok_mono [OF _ len] by (auto simp: index_ok_def)
  moreover have "fst ` set (sy_programs st) \<subseteq> dom (sy_libraries st)"
    using assms(2) unfolding index_ok_def by blast
  then have "fst ` set ps \<subseteq> insert lib (dom (sy_libraries st))" using ok(3) by blast
  then have "\<forall>lp \<in> set ps. fst lp \<in> dom ((sy_libraries st)(lib \<mapsto> s))" by auto
  ultimately have "index_ok ?st" using ok(1) unfolding index_ok_def by simp
  moreover have "st' = ?st \<or> (\<exists>w. st' = warn w ?st)"
    using assms(1) False l by (auto simp: getOrCreateSections_def Let_def split: sum.splits unwind_exn.splits)
  ultimately show ?thesis by auto
qed

lemma set_library_ok:
  assumes "index_ok st" "offsets_ok (length (sy_programs st)) (se_debug_info_offsets s)"
  shows "index_ok (set_library lib s st)"
  using assms by (auto simp: index_ok_def set_library_def)

lemma set_program_ok: "index_ok st \<Longrightarrow> i < length (sy_programs st) \<Longrightarrow> index_ok (set_program i p st)"
  by (force simp: index_ok_def set_program_def dest: set_update_subset_insert [THEN subsetD])

lemma findLine_ok:
  assumes "findLine env lib off st = Some (r, st')" "index_ok st" "lib \<in> dom (sy_libraries st)"
  shows "index_ok st'"
proof -
  obtain s where s: "sy_libraries st lib = Some s" using assms(3) by blast
  let ?t = "se_debug_info_offsets s"
  let ?st = "set_library lib (s\<lparr>se_debug_info_offsets := maybeSort ?t\<rparr>) st"
  have st: "index_ok ?st"
    using assms(2) s by (intro set_library_ok) (auto simp: index_ok_def intro: offsets_ok_sort)
  obtain q where f: "findDebugInfoOffset off s = (q, s\<lparr>se_debug_info_offsets := maybeSort ?t\<rparr>)"
    using find_range_sorts [of off ?t] by (cases "find_range off ?t") (simp add: findDebugInfoOffset_def)
  show ?thesis
    using assms(1) f s st
    by (auto simp: findLine_def Let_def split: sum.splits option.splits if_splits prod.splits unwind_exn.splits
        intro!: set_program_ok)
qed

lemma symbolize_ok:
  assumes "symbolize env lib off st = Some (r, st')" "index_ok st"
  shows "index_ok st'"
proof -
  obtain q st1 where g: "getOrCreateSections env lib st = Some (q, st1)"
    using assms(1) by (auto simp: symbolize_def split: option.splits)
  have st1: "index_ok st1" "lib \<in> dom (sy_libraries st1)" using getOrCreateSections_ok [OF g assms(2)] by simp_all
  then obtain s where s: "sy_libraries st1 lib = Some s" by blast
  obtain nm s1 where n: "findSubprogramName (en_demangle env) (en_mem env) off s = (nm, s1)"
      "se_debug_info_offsets s1 = se_debug_info_offsets s"
    by (cases "find_range off (se_symbol_table s)") (simp add: findSubprogramName_def Let_def)
  let ?st2 = "set_library lib s1 st1"
  have st2: "index_ok ?st2" "lib \<in> dom (sy_libraries ?st2)"
    using set_library_ok [OF st1(1), of s1 lib] st1(1) s n(2) by (auto simp: index_ok_def set_library_def)
  have fl: "index_ok st4" if "findLine env lib off st3 = Some (x, st4)" "st3 = ?st2 \<or> (\<exists>w. st3 = warn w ?st2)" for st3 x st4
    using findLine_ok [OF that(1)] that(2) st2 by (metis index_ok_warn warn_simps(1))
  show ?thesis
  proof (cases q)
    case (Inl e)
    then show ?thesis using assms(1) g st1 by (simp add: symbolize_def)
  next
    case (Inr u)
    show ?thesis
      using assms(1) g Inr s n st2
      by (auto simp: symbolize_def Let_def split: sum.splits option.splits prod.splits dest!: fl)
  qed
qed

lemma symbolize_address_ok:
  assumes "symbolize_address env w md a sc = Some (r, sc')" "index_ok (fst sc)"
  shows "index_ok (fst sc')"
proof -
  obtain q c1 where q: "library_offset w a (snd sc) = Some (q, c1)"
    using assms(1) by (auto simp: symbolize_address_def split: option.splits)
  show ?thesis
  proof (cases q)
    case (Inl e)
    then show ?thesis using assms q by (auto simp: symbolize_address_def)
  next
    case (Inr lib)
    show ?thesis
    proof (cases "lib = None \<or> md \<noteq> Fast")
      case True
      then show ?thesis using assms q Inr by (auto simp: symbolize_address_def split: option.splits prod.splits)
    next
      case False
      then obtain nm off where lib: "lib = Some (nm, off)" "md = Fast" by auto
      obtain x st1 where x: "symbolize env (ascii nm) (off - 1) (fst sc) = Some (x, st1)" "fst sc' = st1"
        using assms(1) q Inr lib by (auto simp: symbolize_address_def)
      then show ?thesis using symbolize_ok [OF x(1) assms(2)] by simp
    qed
  qed
qed

lemma symbolize_addresses_ok:
  assumes "symbolize_addresses env w md as sc = Some (r, sc')" "index_ok (fst sc)"
  shows "index_ok (fst sc')"
  using assms
proof (induction as arbitrary: sc r)
  case (Cons a as)
  obtain q sc1 where q: "symbolize_address env w md a sc = Some (q, sc1)"
    using Cons.prems(1) by (auto split: option.splits)
  have "index_ok (fst sc1)" by (rule symbolize_address_ok [OF q Cons.prems(2)])
  then show ?case using Cons.IH [of sc1] Cons.prems(1) q by (cases q; cases sc1) auto
qed simp

text \<open>
  C30: however many addresses were symbolized, and whatever failed while parsing their libraries,
  looking up the unit of an address never fails, and the unit it finds indexes an existing line
  number program.
\<close>

theorem unit_indexes_program:
  assumes "symbolize_addresses env w md addrs (new_symbolizer, c) = Some (r, st, c')" "sy_libraries st lib = Some s"
  shows "\<exists>x. fst (findDebugInfoOffset off s) = Inr x \<and> (\<forall>i. x = Some i \<longrightarrow> unat i < length (sy_programs st))"
proof -
  have "index_ok new_symbolizer" by (simp add: index_ok_def new_symbolizer_def)
  then have "index_ok st" using symbolize_addresses_ok [OF assms(1)] by simp
  then have "offsets_ok (length (sy_programs st)) (se_debug_info_offsets s)" using assms(2) by (simp add: index_ok_def)
  from offsets_ok_find [OF this, of off] show ?thesis
    by (cases "find_range off (se_debug_info_offsets s)") (simp add: findDebugInfoOffset_def)
qed


section \<open>The frame map\<close>

lemma symbolize_addresses_length:
  "symbolize_addresses env w md as sc = Some (Inr fs, sc') \<Longrightarrow> length fs = length as"
proof (induction as arbitrary: sc fs sc')
  case (Cons a as)
  obtain q sc1 where q: "symbolize_address env w md a sc = Some (q, sc1)"
    using Cons.prems by (auto split: option.splits)
  obtain f where f: "q = Inr f" using Cons.prems q by (cases q) auto
  obtain r sc2 where r: "symbolize_addresses env w md as sc1 = Some (r, sc2)" using Cons.prems q f by auto
  then obtain fs' where "r = Inr fs'" "fs = f # fs'" using Cons.prems q f by (cases r) auto
  then show ?case using Cons.IH r by simp
qed simp

lemma fold_emplace: "fold emplace afs m a = (case m a of Some f \<Rightarrow> Some f | None \<Rightarrow> map_of afs a)"
  by (induction afs arbitrary: m) (auto simp: emplace_def split: option.split)

lemma map_of_zip_inj:
  "length ks = length vs \<Longrightarrow> inj_on f (insert k (set ks)) \<Longrightarrow> map_of (zip (map f ks) vs) (f k) = map_of (zip ks vs) k"
  by (induction ks vs rule: list_induct2) (auto simp: inj_on_def)

lemma filter_nth: "filter P xs = map ((!) xs) (filter (\<lambda>i. P (xs ! i)) [0..<length xs])"
  by (subst map_nth [of xs, symmetric], subst filter_map) (simp add: comp_def)

text \<open>
  C31: symbolizing a stack of distinct addresses fills the frame map: the frame of every address is
  recorded, frames recorded before are kept, and asking again gives the same frames without
  looking at the libraries or the unwind cache.
\<close>

theorem symbolize_fast_memoizes:
  assumes r: "symbolize_fast env w md frames (m, c) = Some (Inr fs, m', c')" and d: "distinct frames"
  shows "length fs = length frames \<and> (\<forall>i < length frames. m' (frames ! i) = Some (fs ! i)) \<and>
    (\<forall>a f. m a = Some f \<longrightarrow> m' a = Some f) \<and>
    (\<forall>env2 w2 c2. symbolize_fast env2 w2 md frames (m', c2) = Some (Inr fs, m', c2))"
proof -
  let ?missing = "filter (\<lambda>a. m a = None) frames" and ?idxs = "filter (\<lambda>i. m (frames ! i) = None) [0..<length frames]"
  obtain q st c1 where q: "symbolize_addresses env w md ?missing (new_symbolizer, c) = Some (q, st, c1)"
    using r by (auto simp: symbolize_fast_def Let_def)
  then obtain found where "q = Inr found" "c1 = c'" using r by (cases q) (auto simp: symbolize_fast_def Let_def)
  with q have f: "symbolize_addresses env w md ?missing (new_symbolizer, c) = Some (Inr found, st, c')" by simp
  have fs: "fs = fill_results m frames found" and m': "m' = fold emplace (zip ?missing found) m"
    using r f by (auto simp: symbolize_fast_def Let_def)
  have mi: "?missing = map ((!) frames) ?idxs" by (rule filter_nth)
  have len: "length ?idxs = length found" using symbolize_addresses_length [OF f] mi by (metis length_map)
  have n: "length fs = length frames" by (simp add: fs fill_results_def Let_def)
  have rec: "m' (frames ! i) = Some (fs ! i)" if i: "i < length frames" for i
  proof (cases "m (frames ! i)")
    case (Some g)
    then show ?thesis using i by (simp add: m' fold_emplace fs fill_results_def Let_def)
  next
    case None
    have inj: "inj_on ((!) frames) (insert i (set ?idxs))" using d i by (auto simp: inj_on_def nth_eq_iff_index_eq)
    have "i \<in> set ?idxs" using i None by simp
    then obtain g where g: "map_of (zip ?idxs found) i = Some g" using len by (metis map_of_zip_is_None not_None_eq)
    have "map_of (zip ?missing found) (frames ! i) = Some g"
      unfolding mi using map_of_zip_inj [OF len inj] g by simp
    then show ?thesis using None i g by (simp add: m' fold_emplace fs fill_results_def Let_def)
  qed
  have none: "filter (\<lambda>a. m' a = None) frames = []"
    using rec by (auto simp: filter_empty_conv in_set_conv_nth)
  have again: "fill_results m' frames [] = fs"
    by (rule nth_equalityI) (simp_all add: fill_results_def Let_def n rec)
  have "symbolize_fast env2 w2 md frames (m', c2) = Some (Inr fs, m', c2)" for env2 w2 c2
    using none again by (simp add: symbolize_fast_def Let_def)
  moreover have "m' a = Some g" if "m a = Some g" for a g using that by (simp add: m' fold_emplace)
  ultimately show ?thesis using n rec by blast
qed

section \<open>A library that cannot be opened\<close>

definition demo_env :: environment where
  "demo_env = \<lparr>en_mem = demo_hdr_mem, en_file = \<lambda>_. \<lparr>fa_open = False, fa_stat = None, fa_mmap = None\<rparr>,
     en_demangle = \<lambda>_. None, en_dladdr = \<lambda>_. Some (ascii ''f'')\<rparr>"

lemma demo_library_offset:
  "\<exists>c'. library_offset demo_world 0x1100 initial_cache = Some (Inr (Some (''libdemo.so'', 0x100)), c')"
proof -
  have o: "outdated demo_world initial_cache"
    by (simp add: outdated_def currentVersion_def demo_world_def initial_cache_def INT64_MAX_def)
  obtain c' where c': "findLibraryFor demo_world 0x1100 initial_cache =
      Some (Inr (owner (loaded demo_world (dl_objects demo_world)) 0x1100), c')"
    using findLibraryFor_ok [OF demo_world_ok, of initial_cache "0x1100"] o by blast
  have "loaded demo_world (dl_objects demo_world) =
      [\<lparr>li_name = ''libdemo.so'', li_load_bias = 0x1000, li_last_addr = 0x2000, li_eh_frame_hdr = demo_hdr\<rparr>]"
    using demo_library by (simp add: loaded_def demo_world_def)
  then show ?thesis using c' by (simp add: library_offset_def owner_def contains_addr_def)
qed

definition demo_frame :: frame where
  "demo_frame = \<lparr>fr_filename = ascii ''libdemo.so'', fr_funcname = ascii ''f'', fr_lineno = 0xFF\<rparr>"

definition demo_sections :: sections where
  "demo_sections = new_sections"

lemma demo_find_empty: "find_range a empty_table = (Inr None, empty_table)"
  by (simp add: find_range_def maybeSort_def empty_table_def upper_bound_def at_index_def)

lemma demo_symbolize_address:
  "\<exists>st c'. symbolize_address demo_env demo_world Fast 0x1100 (new_symbolizer, initial_cache) = Some (Inr demo_frame, st, c') \<and>
     sy_libraries st (ascii ''libdemo.so'') = Some new_sections"
proof -
  obtain c' where c': "library_offset demo_world 0x1100 initial_cache = Some (Inr (Some (''libdemo.so'', 0x100)), c')"
    using demo_library_offset by blast
  have s: "\<lparr>se_debug_info = null_section, se_debug_abbrev = null_section, se_debug_str = null_section,
      se_debug_line = null_section, se_debug_line_str = null_section, se_debug_rnglists = null_section,
      se_debug_ranges = null_section, se_debug_addr = null_section, se_symtab = null_section,
      se_strtab = null_section, se_debug_info_offsets = empty_table, se_symbol_table = empty_table\<rparr> = new_sections"
    by (simp add: new_sections_def)
  have "\<exists>st. symbolize demo_env (ascii ''libdemo.so'') 0xFF new_symbolizer =
      Some (Inr \<lparr>fr_filename = ascii ''libdemo.so'', fr_funcname = unknown_name, fr_lineno = 0xFF\<rparr>, st) \<and>
      sy_libraries st (ascii ''libdemo.so'') = Some new_sections"
    by (simp add: symbolize_def getOrCreateSections_def load_library_def parse_sections_def make_mem_file_def demo_env_def
        new_symbolizer_def new_sections_def findSubprogramName_def findLine_def findDebugInfoOffset_def demo_find_empty
        set_library_def warn_def ebind_def)
  then show ?thesis
    using c' by (auto simp: symbolize_address_def demo_frame_def dladdr_lookup_def demo_env_def demangle_def)
qed

theorem unit_indexes_program_witness:
  "\<exists>st c'. symbolize_addresses demo_env demo_world Fast [0x1100] (new_symbolizer, initial_cache) = Some (Inr [demo_frame], st, c') \<and>
     (\<exists>x. fst (findDebugInfoOffset 0xFF new_sections) = Inr x \<and> (\<forall>i. x = Some i \<longrightarrow> unat i < length (sy_programs st)))"
proof -
  obtain st c' where st: "symbolize_address demo_env demo_world Fast 0x1100 (new_symbolizer, initial_cache) = Some (Inr demo_frame, st, c')"
      "sy_libraries st (ascii ''libdemo.so'') = Some new_sections"
    using demo_symbolize_address by blast
  then have "symbolize_addresses demo_env demo_world Fast [0x1100] (new_symbolizer, initial_cache) = Some (Inr [demo_frame], st, c')" by simp
  from unit_indexes_program [OF this st(2)] this show ?thesis by blast
qed

theorem symbolize_fast_memoizes_witness:
  "\<exists>c'. symbolize_fast demo_env demo_world Fast [0x1100] (Map.empty, initial_cache) = Some (Inr [demo_frame], [0x1100 \<mapsto> demo_frame], c') \<and>
     symbolize_fast demo_env demo_world Fast [0x1100] ([0x1100 \<mapsto> demo_frame], initial_cache) =
       Some (Inr [demo_frame], [0x1100 \<mapsto> demo_frame], initial_cache)"
proof -
  obtain st c' where "symbolize_address demo_env demo_world Fast 0x1100 (new_symbolizer, initial_cache) = Some (Inr demo_frame, st, c')"
    using demo_symbolize_address by blast
  then have r: "symbolize_fast demo_env demo_world Fast [0x1100] (Map.empty, initial_cache) =
      Some (Inr [demo_frame], [0x1100 \<mapsto> demo_frame], c')"
    by (simp add: symbolize_fast_def Let_def fill_results_def emplace_def)
  from symbolize_fast_memoizes [OF this] have
    "symbolize_fast demo_env demo_world Fast [0x1100] ([0x1100 \<mapsto> demo_frame], initial_cache) =
       Some (Inr [demo_frame], [0x1100 \<mapsto> demo_frame], initial_cache)" by simp
  with r show ?thesis by blast
qed

end
