(* ===== verification/Annotations.thy ===== *)
theory Annotations
  imports Prelude "HOL-Library.Sublist"
begin

text \<open>
  Trace annotations: \<open>traceme_encode.h\<close> writes a name and its arguments as text, \<open>annotation_stack.cpp\<close>
  keeps the nested annotations of a thread in one string, and \<open>parse_annotation.cpp\<close> reads them back.
  A thread's data is a record; the atomics shared by the threads are the state \<open>annotation_globals\<close>.
\<close>

section \<open>Encoding\<close>

type_synonym trace_arg = "string \<times> string"

definition append_args :: "string \<Rightarrow> trace_arg list \<Rightarrow> string" where
  "append_args name args =
     (if args = [] then name
      else name @ ''#'' @ butlast (concat (map (\<lambda>(k, v). k @ ''='' @ v @ '','') args)) @ ''#'')"

definition traceme_encode :: "string \<Rightarrow> trace_arg list \<Rightarrow> string" where
  "traceme_encode name args = append_args name args"

definition append_metadata :: "string \<Rightarrow> string \<Rightarrow> string" where
  "append_metadata name new_metadata =
     (if new_metadata = [] then name
      else if name \<noteq> [] \<and> last name = CHR ''#''
      then butlast name @ '','' @ (if hd new_metadata = CHR ''#'' then tl new_metadata else new_metadata)
      else name @ new_metadata)"

definition traceme_op :: "string \<Rightarrow> string \<Rightarrow> string" where
  "traceme_op op_name op_type = op_name @ '':'' @ op_type"

definition traceme_op_override :: "string \<Rightarrow> string \<Rightarrow> string" where
  "traceme_op_override op_name op_type = ''#tf_op='' @ op_name @ '':'' @ op_type @ ''#''"

section \<open>Parsing\<close>

record annotation =
  an_name :: string
  an_metadata :: "(string \<times> string) list"

text \<open>\<open>std::isspace\<close> of the C locale.\<close>

definition isspace :: "char \<Rightarrow> bool" where
  "isspace c \<longleftrightarrow> c = CHR '' '' \<or> c = CHR 0x09 \<or> c = CHR 0x0A \<or> c = CHR 0x0B \<or> c = CHR 0x0C \<or> c = CHR 0x0D"

definition strip_whitespace :: "string \<Rightarrow> string" where
  "strip_whitespace str = rev (dropWhile isspace (rev (dropWhile isspace str)))"

text \<open>\<open>split_string\<close>, after \<open>splits\<close> pieces; a limit of zero is no limit.\<close>

function split_string :: "char \<Rightarrow> nat \<Rightarrow> nat \<Rightarrow> string \<Rightarrow> string list" where
  "split_string delimiter max_splits splits str =
     (if delimiter \<in> set str \<and> \<not> (max_splits > 0 \<and> splits \<ge> max_splits)
      then takeWhile (\<lambda>c. c \<noteq> delimiter) str #
           split_string delimiter max_splits (splits + 1) (tl (dropWhile (\<lambda>c. c \<noteq> delimiter) str))
      else [str])"
  by auto
termination
proof (relation "measure (\<lambda>(delimiter, max_splits, splits, str). length str)", goal_cases)
  case (2 delimiter max_splits splits str)
  then have "dropWhile (\<lambda>c. c \<noteq> delimiter) str \<noteq> []" by (auto simp: dropWhile_eq_Nil_conv)
  then have "length (tl (dropWhile (\<lambda>c. c \<noteq> delimiter) str)) < length (dropWhile (\<lambda>c. c \<noteq> delimiter) str)" by simp
  also have "\<dots> \<le> length str" by (rule length_dropWhile_le)
  finally show ?case by simp
qed simp

declare split_string.simps [simp del]

definition has_metadata :: "string \<Rightarrow> bool" where
  "has_metadata s \<longleftrightarrow> s \<noteq> [] \<and> last s = CHR ''#''"

definition split_name_and_metadata :: "string \<Rightarrow> string \<times> string" where
  "split_name_and_metadata s =
     (let parts = (if \<not> has_metadata s then [s] else take 2 (split_string CHR ''#'' 0 0 (butlast s)))
      in case parts of
           [] \<Rightarrow> ([], [])
         | [a] \<Rightarrow> (a, [])
         | a # b # _ \<Rightarrow> (a, b))"

text \<open>
  The stack of open quotes and brackets of \<open>split_pairs\<close> after one character.
\<close>

definition is_quote :: "char \<Rightarrow> bool" where "is_quote c \<longleftrightarrow> c = CHR 0x22 \<or> c = CHR 0x27"
definition is_open :: "char \<Rightarrow> bool" where "is_open c \<longleftrightarrow> c = CHR ''{'' \<or> c = CHR ''('' \<or> c = CHR ''[''"

definition matching_open :: "char \<Rightarrow> char option" where
  "matching_open c =
     (if c = CHR ''}'' then Some CHR ''{'' else if c = CHR '')'' then Some CHR ''(''
      else if c = CHR '']'' then Some CHR ''['' else None)"

definition quote_step :: "char \<Rightarrow> string \<Rightarrow> string" where
  "quote_step c qs =
     (if is_quote c then (if qs = [] \<or> hd qs \<noteq> c then c # qs else tl qs)
      else if is_open c then c # qs
      else case matching_open c of
             Some b \<Rightarrow> if qs \<noteq> [] \<and> hd qs = b then tl qs else qs
           | None \<Rightarrow> qs)"

definition keep_pair :: "string \<Rightarrow> string list" where
  "keep_pair cur = (if length cur > 1 then [cur] else [])"

fun pairs_loop :: "string \<Rightarrow> string \<Rightarrow> string \<Rightarrow> string list" where
  "pairs_loop qs cur [] = keep_pair cur"
| "pairs_loop qs cur (c # cs) =
     (if c = CHR '','' \<and> qs = [] then keep_pair cur @ pairs_loop qs [] cs
      else pairs_loop (quote_step c qs) (cur @ [c]) cs)"

definition split_pairs :: "string \<Rightarrow> string list" where
  "split_pairs metadata = pairs_loop [] [] metadata"

definition parse_pair :: "string \<Rightarrow> (string \<times> string) list" where
  "parse_pair pair =
     (case split_string CHR ''='' 1 0 pair of
        [k, v] \<Rightarrow>
          (let key = strip_whitespace k; val = strip_whitespace v
           in if key \<noteq> [] \<and> val \<noteq> [] then [(key, val)] else [])
      | _ \<Rightarrow> [])"

definition parse_metadata :: "string \<Rightarrow> (string \<times> string) list" where
  "parse_metadata metadata = concat (map parse_pair (split_pairs metadata))"

definition parse_annotation :: "string \<Rightarrow> annotation" where
  "parse_annotation s =
     (let (name, metadata) = split_name_and_metadata s
      in \<lparr>an_name = strip_whitespace name, an_metadata = parse_metadata metadata\<rparr>)"

text \<open>The text before and after the first \<open>::\<close>.\<close>

fun find_separator :: "string \<Rightarrow> (string \<times> string) option" where
  "find_separator [] = None"
| "find_separator (c # cs) =
     (if c = CHR '':'' \<and> cs \<noteq> [] \<and> hd cs = CHR '':'' then Some ([], tl cs)
      else map_option (\<lambda>(a, b). (c # a, b)) (find_separator cs))"

lemma find_separator_shorter: "find_separator s = Some (a, b) \<Longrightarrow> length b < length s"
  by (induction s arbitrary: a b rule: find_separator.induct) (auto split: if_splits)

definition parse_part :: "string \<Rightarrow> annotation list" where
  "parse_part part = (if part \<noteq> [] then [parse_annotation part] else [])"

function parse_annotation_stack :: "string \<Rightarrow> annotation list" where
  "parse_annotation_stack s =
     (case find_separator s of
        None \<Rightarrow> parse_part s
      | Some (part, rest) \<Rightarrow> parse_part part @ parse_annotation_stack rest)"
  by auto
termination by (relation "measure length") (auto dest: find_separator_shorter)

declare parse_annotation_stack.simps [simp del]

section \<open>The stack of a thread\<close>

record annotation_data =
  ad_generation :: "32 word"
  ad_stack :: "nat list" \<comment> \<open>innermost first\<close>
  ad_string :: string
  ad_scope_ids :: "64 word list" \<comment> \<open>innermost first\<close>

record annotation_globals =
  ag_generation :: "32 word"
  ag_scope_counter :: "64 word"

definition initial_data :: annotation_data where
  "initial_data = \<lparr>ad_generation = 0, ad_stack = [], ad_string = [], ad_scope_ids = []\<rparr>"

definition get_annotation_data :: "annotation_globals \<Rightarrow> annotation_data \<Rightarrow> annotation_data" where
  "get_annotation_data g d =
     (if ag_generation g \<noteq> ad_generation d
      then \<lparr>ad_generation = ag_generation g, ad_stack = [], ad_string = [], ad_scope_ids = []\<rparr> else d)"

text \<open>The result of \<open>fetch_add(1) + 1\<close>, drawn a second time when it is zero.\<close>

definition next_scope_id :: "annotation_globals \<Rightarrow> 64 word \<times> annotation_globals" where
  "next_scope_id g =
     (let i = ag_scope_counter g + 1; j = (if i = 0 then i + 1 else i)
      in (j, g\<lparr>ag_scope_counter := j\<rparr>))"

definition push_annotation :: "string \<Rightarrow> annotation_globals \<times> annotation_data \<Rightarrow> annotation_globals \<times> annotation_data" where
  "push_annotation name gd =
     (let d = get_annotation_data (fst gd) (snd gd); (i, g') = next_scope_id (fst gd)
      in (g', d\<lparr>ad_stack := length (ad_string d) # ad_stack d,
                ad_string := (if ad_string d \<noteq> [] then ad_string d @ ''::'' @ name else name),
                ad_scope_ids := i # ad_scope_ids d\<rparr>))"

text \<open>\<open>std::string::resize\<close>, which fills with null characters.\<close>

definition resize :: "nat \<Rightarrow> string \<Rightarrow> string" where
  "resize n s = take n s @ replicate (n - length s) (CHR 0x00)"

definition pop_annotation :: "annotation_globals \<times> annotation_data \<Rightarrow> annotation_globals \<times> annotation_data" where
  "pop_annotation gd =
     (let d = get_annotation_data (fst gd) (snd gd)
      in case ad_stack d of
           [] \<Rightarrow> (fst gd, d\<lparr>ad_string := [], ad_scope_ids := []\<rparr>)
         | n # ns \<Rightarrow> (fst gd, d\<lparr>ad_string := resize n (ad_string d), ad_stack := ns, ad_scope_ids := tl (ad_scope_ids d)\<rparr>))"

definition stack_get :: "annotation_globals \<times> annotation_data \<Rightarrow> string" where
  "stack_get gd = ad_string (get_annotation_data (fst gd) (snd gd))"

definition get_scope_range_ids :: "annotation_globals \<times> annotation_data \<Rightarrow> 64 word list" where
  "get_scope_range_ids gd = rev (ad_scope_ids (get_annotation_data (fst gd) (snd gd)))"

definition enable :: "bool \<Rightarrow> annotation_globals \<Rightarrow> annotation_globals" where
  "enable e g = g\<lparr>ag_generation := (if e then or (ag_generation g) 1 else and (ag_generation g + 1) (not 1))\<rparr>"

text \<open>
  The threads of the program share the atomics. Each call reads the generation once, so a run of the
  program is a sequence of calls, each by one thread.
\<close>

datatype 'n stack_op = Push 'n | Pop | Enable bool

record trace_state =
  ts_globals :: annotation_globals
  ts_thread :: "nat \<Rightarrow> annotation_data"

definition initial_trace :: trace_state where
  "initial_trace = \<lparr>ts_globals = \<lparr>ag_generation = 0, ag_scope_counter = 0\<rparr>, ts_thread = (\<lambda>_. initial_data)\<rparr>"

fun thread_op :: "string stack_op \<Rightarrow> annotation_globals \<times> annotation_data \<Rightarrow> annotation_globals \<times> annotation_data" where
  "thread_op (Push name) gd = push_annotation name gd"
| "thread_op Pop gd = pop_annotation gd"
| "thread_op (Enable e) gd = (enable e (fst gd), snd gd)"

definition trace_step :: "nat \<times> string stack_op \<Rightarrow> trace_state \<Rightarrow> trace_state" where
  "trace_step c st =
     (case thread_op (snd c) (ts_globals st, ts_thread st (fst c)) of
        (g, d) \<Rightarrow> \<lparr>ts_globals = g, ts_thread = (ts_thread st)(fst c := d)\<rparr>)"

definition thread_view :: "trace_state \<Rightarrow> nat \<Rightarrow> annotation_globals \<times> annotation_data" where
  "thread_view st t = (ts_globals st, ts_thread st t)"

section \<open>The round trip of an encoded event\<close>

lemma split_string_at:
  "d \<notin> set a \<Longrightarrow> \<not> (m > 0 \<and> n \<ge> m) \<Longrightarrow> split_string d m n (a @ d # b) = a # split_string d m (n + 1) b"
proof -
  assume "d \<notin> set a" "\<not> (m > 0 \<and> n \<ge> m)"
  moreover from \<open>d \<notin> set a\<close> have "dropWhile (\<lambda>c. c \<noteq> d) (a @ d # b) = d # b" "takeWhile (\<lambda>c. c \<noteq> d) (a @ d # b) = a"
    by (induction a) auto
  ultimately show ?thesis by (subst split_string.simps) auto
qed

lemma split_string_last: "d \<notin> set a \<or> (m > 0 \<and> n \<ge> m) \<Longrightarrow> split_string d m n a = [a]"
  by (subst split_string.simps) auto

text \<open>A text whose quotes and brackets close, without a comma outside of them.\<close>

fun scan :: "string \<Rightarrow> string \<Rightarrow> string option" where
  "scan qs [] = Some qs"
| "scan qs (c # cs) = (if c = CHR '','' \<and> qs = [] then None else scan (quote_step c qs) cs)"

definition balanced :: "string \<Rightarrow> bool" where
  "balanced s \<longleftrightarrow> scan [] s = Some []"

lemma scan_append: "scan qs a = Some rs \<Longrightarrow> scan qs (a @ b) = scan rs b"
  by (induction qs a rule: scan.induct) (auto split: if_splits)

lemma pairs_loop_scan: "scan qs p = Some rs \<Longrightarrow> pairs_loop qs cur (p @ s) = pairs_loop rs (cur @ p) s"
  by (induction qs p arbitrary: cur rule: scan.induct) (auto split: if_splits)

fun pairs_text :: "trace_arg list \<Rightarrow> string" where
  "pairs_text [] = []"
| "pairs_text [(k, v)] = k @ ''='' @ v"
| "pairs_text ((k, v) # a # args) = k @ ''='' @ v @ '','' @ pairs_text (a # args)"

lemma concat_pairs: "args \<noteq> [] \<Longrightarrow> concat (map (\<lambda>(k, v). k @ ''='' @ v @ '','') args) = pairs_text args @ '',''"
  by (induction args rule: pairs_text.induct) (simp_all del: concat.simps add: concat.simps(2))

lemma butlast_pairs: "butlast (concat (map (\<lambda>(k, v). k @ ''='' @ v @ '','') args)) = pairs_text args"
proof (cases "args = []")
  case False
  then show ?thesis unfolding concat_pairs[OF False] by (simp add: butlast_append)
qed simp

definition wf_arg :: "trace_arg \<Rightarrow> bool" where
  "wf_arg a \<longleftrightarrow> fst a \<noteq> [] \<and> snd a \<noteq> [] \<and> strip_whitespace (fst a) = fst a \<and> strip_whitespace (snd a) = snd a \<and>
     CHR ''='' \<notin> set (fst a) \<and> CHR ''#'' \<notin> set (fst a @ snd a) \<and> balanced (fst a) \<and> balanced (snd a)"

lemma balanced_pair: "wf_arg (k, v) \<Longrightarrow> scan [] (k @ ''='' @ v) = Some []"
  by (simp add: wf_arg_def balanced_def scan_append quote_step_def is_quote_def is_open_def matching_open_def)

lemma split_pairs_text:
  "args \<noteq> [] \<Longrightarrow> (\<forall>a\<in>set args. wf_arg a) \<Longrightarrow> split_pairs (pairs_text args) = map (\<lambda>(k, v). k @ ''='' @ v) args"
proof (induction args rule: pairs_text.induct)
  case (2 k v)
  then have "pairs_loop [] [] ((k @ ''='' @ v) @ []) = pairs_loop [] ([] @ (k @ ''='' @ v)) []"
    by (intro pairs_loop_scan balanced_pair) simp
  with 2 show ?case by (simp add: split_pairs_def keep_pair_def wf_arg_def length_greater_0_conv[symmetric] del: length_greater_0_conv)
next
  case (3 k v a args)
  then have "pairs_loop [] [] ((k @ ''='' @ v) @ ('','' @ pairs_text (a # args))) = pairs_loop [] ([] @ (k @ ''='' @ v)) ('','' @ pairs_text (a # args))"
    by (intro pairs_loop_scan balanced_pair) simp
  with 3 show ?case by (simp add: split_pairs_def keep_pair_def wf_arg_def length_greater_0_conv[symmetric] del: length_greater_0_conv)
qed simp

lemma parse_pair_text: "wf_arg (k, v) \<Longrightarrow> parse_pair (k @ ''='' @ v) = [(k, v)]"
  by (simp add: parse_pair_def wf_arg_def split_string_at split_string_last)

lemma parse_metadata_pairs: "(\<forall>a\<in>set args. wf_arg a) \<Longrightarrow> parse_metadata (pairs_text args) = args"
proof (cases "args = []")
  case True
  then show ?thesis by (simp add: parse_metadata_def split_pairs_def keep_pair_def)
next
  case False
  assume wf: "\<forall>a\<in>set args. wf_arg a"
  have "concat (map parse_pair (map (\<lambda>(k, v). k @ ''='' @ v) args)) = args"
    using wf by (induction args) (auto simp: parse_pair_text[simplified])
  with False wf show ?thesis by (simp add: parse_metadata_def split_pairs_text)
qed

definition wf_event :: "string \<times> trace_arg list \<Rightarrow> bool" where
  "wf_event e \<longleftrightarrow> fst e \<noteq> [] \<and> strip_whitespace (fst e) = fst e \<and> CHR ''#'' \<notin> set (fst e) \<and> last (fst e) \<noteq> CHR '':'' \<and>
     (\<forall>a\<in>set (snd e). wf_arg a) \<and> find_separator (traceme_encode (fst e) (snd e)) = None"

lemma no_hash_pairs: "(\<forall>a\<in>set args. wf_arg a) \<Longrightarrow> CHR ''#'' \<notin> set (pairs_text args)"
  by (induction args rule: pairs_text.induct) (auto simp: wf_arg_def)

definition event_annotation :: "string \<times> trace_arg list \<Rightarrow> annotation" where
  "event_annotation e = \<lparr>an_name = fst e, an_metadata = snd e\<rparr>"

lemma traceme_encode_pairs:
  "traceme_encode name args = (if args = [] then name else name @ ''#'' @ pairs_text args @ ''#'')"
  by (simp only: traceme_encode_def append_args_def butlast_pairs)

lemma parse_encoded: "wf_event e \<Longrightarrow> parse_annotation (traceme_encode (fst e) (snd e)) = event_annotation e"
proof (cases "snd e = []")
  case True
  assume "wf_event e"
  with True have "\<not> has_metadata (fst e)" by (auto simp: wf_event_def has_metadata_def dest: last_in_set)
  with True \<open>wf_event e\<close> parse_metadata_pairs[of "[]"] show ?thesis
    by (simp add: parse_annotation_def split_name_and_metadata_def traceme_encode_pairs wf_event_def event_annotation_def)
next
  case False
  assume wf: "wf_event e"
  from wf have "split_string CHR ''#'' 0 0 (fst e @ CHR ''#'' # pairs_text (snd e)) = [fst e, pairs_text (snd e)]"
    by (simp add: wf_event_def split_string_at split_string_last no_hash_pairs)
  with False wf show ?thesis
    by (simp add: parse_annotation_def split_name_and_metadata_def traceme_encode_pairs has_metadata_def butlast_append
        wf_event_def event_annotation_def parse_metadata_pairs)
qed

section \<open>The text of a stack\<close>

text \<open>The abstract stack lists the names from the innermost one; \<open>offsets\<close> are the lengths before each push.\<close>

fun stack_text :: "string list \<Rightarrow> string" where
  "stack_text [] = []"
| "stack_text (n # ns) = (if stack_text ns \<noteq> [] then stack_text ns @ ''::'' @ n else n)"

fun offsets :: "string list \<Rightarrow> nat list" where
  "offsets [] = []"
| "offsets (n # ns) = length (stack_text ns) # offsets ns"

lemma stack_text_Nil: "(\<forall>n\<in>set ns. n \<noteq> []) \<Longrightarrow> stack_text ns = [] \<longleftrightarrow> ns = []"
  by (cases ns) auto

lemma find_separator_append:
  "find_separator n = None \<Longrightarrow> n \<noteq> [] \<Longrightarrow> last n \<noteq> CHR '':'' \<Longrightarrow> find_separator (n @ ''::'' @ r) = Some (n, r)"
proof (induction n)
  case (Cons c n)
  show ?case
  proof (cases "n = []")
    case True
    with Cons.prems show ?thesis by simp
  next
    case False
    with Cons show ?thesis by (auto split: if_splits)
  qed
qed simp

lemma parse_stack_append:
  "find_separator n = None \<Longrightarrow> n \<noteq> [] \<Longrightarrow> last n \<noteq> CHR '':'' \<Longrightarrow>
   parse_annotation_stack (n @ ''::'' @ r) = parse_annotation n # parse_annotation_stack r"
proof -
  assume "find_separator n = None" "n \<noteq> []" "last n \<noteq> CHR '':''"
  from find_separator_append[OF this, of r] \<open>n \<noteq> []\<close> show ?thesis
    by (subst parse_annotation_stack.simps) (simp add: parse_part_def)
qed

fun join_names :: "string list \<Rightarrow> string" where
  "join_names [] = []"
| "join_names [n] = n"
| "join_names (n # m # ns) = n @ ''::'' @ join_names (m # ns)"

lemma join_names_snoc: "ns \<noteq> [] \<Longrightarrow> join_names (ns @ [n]) = join_names ns @ ''::'' @ n"
  by (induction ns rule: join_names.induct) auto

lemma stack_text_join: "(\<forall>n\<in>set ns. n \<noteq> []) \<Longrightarrow> stack_text ns = join_names (rev ns)"
proof (induction ns)
  case (Cons n ns)
  then show ?case by (cases "ns = []") (simp_all add: join_names_snoc[simplified] stack_text_Nil[symmetric])
qed simp

lemma parse_join:
  "(\<forall>n\<in>set ns. n \<noteq> [] \<and> last n \<noteq> CHR '':'' \<and> find_separator n = None) \<Longrightarrow>
   parse_annotation_stack (join_names ns) = map parse_annotation ns"
proof (induction ns rule: join_names.induct)
  case 1
  then show ?case by (subst parse_annotation_stack.simps) (simp add: parse_part_def)
next
  case (2 n)
  then show ?case by (subst parse_annotation_stack.simps) (simp add: parse_part_def)
next
  case (3 n m ns)
  then have "parse_annotation_stack (n @ ''::'' @ join_names (m # ns)) = parse_annotation n # parse_annotation_stack (join_names (m # ns))"
    by (intro parse_stack_append) auto
  with 3 show ?case by simp
qed

lemma encoded_event_ok:
  "wf_event e \<Longrightarrow> traceme_encode (fst e) (snd e) \<noteq> [] \<and> last (traceme_encode (fst e) (snd e)) \<noteq> CHR '':'' \<and>
     find_separator (traceme_encode (fst e) (snd e)) = None"
  by (auto simp: wf_event_def traceme_encode_pairs)

lemma parse_stack_text:
  "(\<forall>e\<in>set es. wf_event e) \<Longrightarrow>
   parse_annotation_stack (stack_text (map (\<lambda>e. traceme_encode (fst e) (snd e)) es)) = rev (map event_annotation es)"
  by (subst stack_text_join) (auto simp: encoded_event_ok rev_map parse_join parse_encoded)

section \<open>The calls refine a stack of names for each thread\<close>

text \<open>
  The promise of \<open>annotation_stack\<close>: a flag, and for each thread the names it has pushed since the last
  change of the flag.
\<close>

fun spec_step :: "nat \<times> 'n stack_op \<Rightarrow> bool \<times> (nat \<Rightarrow> 'n list) \<Rightarrow> bool \<times> (nat \<Rightarrow> 'n list)" where
  "spec_step (t, Push n) (b, f) = (b, f(t := n # f t))"
| "spec_step (t, Pop) (b, f) = (b, f(t := tl (f t)))"
| "spec_step (t, Enable e) (b, f) = (e, if e = b then f else (\<lambda>_. []))"

text \<open>
  A thread's data is either of the current generation and holds the stack, or some generations old, and
  then the stack is empty. Fewer than \<open>2 ^ 31\<close> calls cannot bring an old generation back.
\<close>

definition holds_stack :: "annotation_globals \<Rightarrow> annotation_data \<Rightarrow> string list \<Rightarrow> bool" where
  "holds_stack g d s \<longleftrightarrow>
     (ag_generation g = ad_generation d \<and> ad_string d = stack_text s \<and> ad_stack d = offsets s \<and>
        length (ad_scope_ids d) = length s) \<or>
     (unat (ad_generation d) < unat (ag_generation g) \<and> s = [])"

definition refines :: "nat \<Rightarrow> trace_state \<Rightarrow> bool \<times> (nat \<Rightarrow> string list) \<Rightarrow> bool" where
  "refines k st a \<longleftrightarrow>
     unat (ag_generation (ts_globals st)) \<le> k \<and> (fst a \<longleftrightarrow> odd (unat (ag_generation (ts_globals st)))) \<and>
     (\<forall>t. holds_stack (ts_globals st) (ts_thread st t) (snd a t))"

lemma odd_unat_word: "odd (unat (w :: 32 word)) \<longleftrightarrow> odd w"
  by (simp add: bit_0[symmetric] bit_unsigned_iff)

lemma unat_enable:
  fixes g :: annotation_globals
  assumes "unat (ag_generation g) < 2 ^ 31 - 1"
  shows "unat (ag_generation (enable e g)) =
     (if e \<longleftrightarrow> odd (unat (ag_generation g)) then unat (ag_generation g) else unat (ag_generation g) + 1)"
proof -
  let ?w = "ag_generation g"
  have suc: "unat (?w + 1) = unat ?w + 1" using assms by (simp add: unat_word_ariths)
  have clear: "and (?w + 1) (- 2) = (?w + 1) - of_bool (odd (?w + 1))"
    using unset_bit_eq_and_not[of 0 "?w + 1"] unset_bit_eq[of 0 "?w + 1"] by (simp add: bit_0)
  show ?thesis
  proof (cases "odd ?w")
    case True
    with suc show ?thesis by (simp add: enable_def or_one_eq odd_unat_word clear)
  next
    case False
    with suc show ?thesis by (simp add: enable_def or_one_eq odd_unat_word clear)
  qed
qed

lemma holds_stack_get:
  "holds_stack g d s \<Longrightarrow>
     ag_generation g = ad_generation (get_annotation_data g d) \<and> ad_string (get_annotation_data g d) = stack_text s \<and>
     ad_stack (get_annotation_data g d) = offsets s \<and> length (ad_scope_ids (get_annotation_data g d)) = length s"
  by (auto simp: holds_stack_def get_annotation_data_def)

lemma next_scope_id_generation: "ag_generation (snd (next_scope_id g)) = ag_generation g"
  by (simp add: next_scope_id_def Let_def)

lemma holds_stack_other: "holds_stack g d s \<Longrightarrow> ag_generation g' = ag_generation g \<Longrightarrow> holds_stack g' d s"
  by (simp add: holds_stack_def)

lemma holds_stackI:
  "ag_generation g = ad_generation d \<Longrightarrow> ad_string d = stack_text s \<Longrightarrow> ad_stack d = offsets s \<Longrightarrow>
   length (ad_scope_ids d) = length s \<Longrightarrow> holds_stack g d s"
  by (simp add: holds_stack_def)

lemma push_holds:
  "holds_stack g d s \<Longrightarrow> push_annotation n (g, d) = (g', d') \<Longrightarrow>
   ag_generation g' = ag_generation g \<and> holds_stack g' d' (n # s)"
  using next_scope_id_generation[of g] holds_stack_get[of g d s]
  by (auto simp: push_annotation_def Let_def intro!: holds_stackI split: prod.splits)

lemma resize_stack_text: "resize (length (stack_text s)) (stack_text (n # s)) = stack_text s"
  by (simp add: resize_def)

lemma pop_holds:
  "holds_stack g d s \<Longrightarrow> pop_annotation (g, d) = (g', d') \<Longrightarrow> g' = g \<and> holds_stack g d' (tl s)"
  using holds_stack_get[of g d s]
  by (cases s) (auto simp: pop_annotation_def Let_def resize_stack_text simp del: stack_text.simps(2) intro!: holds_stackI)

lemma enable_holds:
  "holds_stack g d s \<Longrightarrow> unat (ag_generation g) < 2 ^ 31 - 1 \<Longrightarrow>
   holds_stack (enable e g) d (if e \<longleftrightarrow> odd (unat (ag_generation g)) then s else [])"
proof -
  assume h: "holds_stack g d s" and lt: "unat (ag_generation g) < 2 ^ 31 - 1"
  show ?thesis
  proof (cases "e \<longleftrightarrow> odd (unat (ag_generation g))")
    case True
    with unat_enable[OF lt, of e] have "ag_generation (enable e g) = ag_generation g"
      by (simp add: word_unat_eq_iff)
    with True holds_stack_other[OF h] show ?thesis by simp
  next
    case False
    with unat_enable[OF lt, of e] have "unat (ag_generation (enable e g)) = unat (ag_generation g) + 1" by simp
    moreover from h have "unat (ad_generation d) \<le> unat (ag_generation g)" by (auto simp: holds_stack_def)
    ultimately show ?thesis using False by (simp add: holds_stack_def)
  qed
qed

lemma trace_step_refines:
  assumes "refines k st a" "k < 2 ^ 31 - 1"
  shows "refines (Suc k) (trace_step c st) (spec_step c a)"
proof -
  obtain t oper where c: "c = (t, oper)" by (cases c)
  obtain b f where a: "a = (b, f)" by (cases a)
  obtain g d where st: "ts_globals st = g" "ts_thread st t = d" by simp
  have h: "holds_stack g (ts_thread st u) (f u)" for u using assms(1) a st by (simp add: refines_def)
  then have ht: "holds_stack g d (f t)" using st by metis
  have lt: "unat (ag_generation g) < 2 ^ 31 - 1" using assms st by (simp add: refines_def)
  show ?thesis
  proof (cases oper)
    case (Push n)
    obtain g' d' where p: "push_annotation n (g, d) = (g', d')" by fastforce
    with push_holds[OF ht p] assms(1) h show ?thesis unfolding c a Push refines_def
      by (auto simp: trace_step_def st intro: holds_stack_other)
  next
    case Pop
    obtain g' d' where p: "pop_annotation (g, d) = (g', d')" by fastforce
    with pop_holds[OF ht p] assms(1) h show ?thesis unfolding c a Pop refines_def
      by (auto simp: trace_step_def st intro: holds_stack_other)
  next
    case (Enable e)
    have "holds_stack (enable e g) (ts_thread st u) (if e \<longleftrightarrow> odd (unat (ag_generation g)) then f u else [])" for u
      by (rule enable_holds[OF h lt])
    moreover from this[of t] have "holds_stack (enable e g) d (if e \<longleftrightarrow> odd (unat (ag_generation g)) then f t else [])"
      by (simp only: st)
    ultimately show ?thesis using unat_enable[OF lt, of e] assms(1) unfolding c a Enable refines_def
      by (auto simp: trace_step_def st split: if_splits)
  qed
qed

lemma run_refines:
  "refines k st a \<Longrightarrow> k + length cs < 2 ^ 31 \<Longrightarrow> refines (k + length cs) (fold trace_step cs st) (fold spec_step cs a)"
proof (induction cs arbitrary: k st a)
  case (Cons c cs)
  then have "refines (Suc k) (trace_step c st) (spec_step c a)" by (intro trace_step_refines) simp_all
  from Cons.IH[OF this] Cons.prems show ?case by simp
qed simp

lemma initial_refines: "refines 0 initial_trace (False, \<lambda>_. [])"
  by (simp add: refines_def initial_trace_def holds_stack_def initial_data_def)

section \<open>Scope range identifiers\<close>

definition scope_ids :: "trace_state \<Rightarrow> nat \<Rightarrow> 64 word set" where
  "scope_ids st t = set (ad_scope_ids (ts_thread st t))"

definition fresh_ids :: "nat \<Rightarrow> trace_state \<Rightarrow> bool" where
  "fresh_ids k st \<longleftrightarrow>
     unat (ag_scope_counter (ts_globals st)) \<le> k \<and>
     (\<forall>t. distinct (ad_scope_ids (ts_thread st t))) \<and>
     (\<forall>t. \<forall>i\<in>scope_ids st t. unat i \<le> unat (ag_scope_counter (ts_globals st))) \<and>
     (\<forall>t u. t \<noteq> u \<longrightarrow> scope_ids st t \<inter> scope_ids st u = {})"

lemma fresh_ids_update:
  assumes "fresh_ids k st" "set (ad_scope_ids d) \<subseteq> insert i (scope_ids st t)" "distinct (ad_scope_ids d)"
    "unat (ag_scope_counter (ts_globals st)) < unat i" "unat i \<le> unat (ag_scope_counter g)" "unat (ag_scope_counter g) \<le> m"
  shows "fresh_ids m \<lparr>ts_globals = g, ts_thread = (ts_thread st)(t := d)\<rparr>"
proof -
  let ?st = "\<lparr>ts_globals = g, ts_thread = (ts_thread st)(t := d)\<rparr>"
  have le: "unat j \<le> unat (ag_scope_counter (ts_globals st))" if "j \<in> scope_ids st u" for u j
    using assms(1) that by (auto simp: fresh_ids_def)
  have new: "i \<notin> scope_ids st u" for u using le[of i u] assms(4) by auto
  have ids: "scope_ids ?st u \<subseteq> (if u = t then insert i (scope_ids st t) else scope_ids st u)" for u
    using assms(2) by (auto simp: scope_ids_def)
  have "scope_ids ?st u \<inter> scope_ids ?st v = {}" if "u \<noteq> v" for u v
  proof -
    have "scope_ids st u \<inter> scope_ids st v = {}" using assms(1) that by (simp add: fresh_ids_def)
    with ids[of u] ids[of v] new[of u] new[of v] that show ?thesis by (auto split: if_splits)
  qed
  moreover have "unat j \<le> unat (ag_scope_counter g)" if "j \<in> scope_ids ?st u" for u j
  proof -
    from ids[of u] that have "j = i \<or> j \<in> scope_ids st u" by (auto split: if_splits)
    with le[of j u] assms(4,5) show ?thesis by auto
  qed
  ultimately show ?thesis using assms(1,3,6) by (auto simp: fresh_ids_def)
qed

lemma fresh_ids_subset:
  assumes "fresh_ids k st" "set (ad_scope_ids d) \<subseteq> scope_ids st t" "distinct (ad_scope_ids d)"
    "ag_scope_counter g = ag_scope_counter (ts_globals st)" "k \<le> m"
  shows "fresh_ids m \<lparr>ts_globals = g, ts_thread = (ts_thread st)(t := d)\<rparr>"
  using assms unfolding fresh_ids_def scope_ids_def by (auto split: if_splits) blast+

lemma next_scope_id_fresh:
  assumes "unat (ag_scope_counter g) < 2 ^ 63" "next_scope_id g = (i, g')"
  shows "unat i = unat (ag_scope_counter g) + 1 \<and> ag_scope_counter g' = i"
proof -
  have suc: "unat (ag_scope_counter g + 1) = unat (ag_scope_counter g) + 1" using assms(1) by (simp add: unat_word_ariths)
  then have "ag_scope_counter g + 1 \<noteq> 0" by (metis add_is_0 unat_0 zero_neq_one)
  with assms(2) suc show ?thesis by (auto simp: next_scope_id_def Let_def)
qed

lemma get_annotation_data_ids:
  "set (ad_scope_ids (get_annotation_data g d)) \<subseteq> set (ad_scope_ids d)"
  "distinct (ad_scope_ids d) \<Longrightarrow> distinct (ad_scope_ids (get_annotation_data g d))"
  by (auto simp: get_annotation_data_def)

lemma trace_step_fresh:
  assumes "fresh_ids k st" "k < 2 ^ 63"
  shows "fresh_ids (Suc k) (trace_step c st)"
proof -
  obtain t oper where c: "c = (t, oper)" by (cases c)
  let ?g = "ts_globals st" and ?d = "ts_thread st t"
  have dist: "distinct (ad_scope_ids (get_annotation_data ?g ?d))"
    using assms(1) by (intro get_annotation_data_ids) (simp add: fresh_ids_def)
  have sub: "set (ad_scope_ids (get_annotation_data ?g ?d)) \<subseteq> scope_ids st t"
    using get_annotation_data_ids(1)[of ?g ?d] by (simp add: scope_ids_def)
  show ?thesis
  proof (cases oper)
    case (Push n)
    obtain i g' where i: "next_scope_id ?g = (i, g')" by fastforce
    have cnt: "unat (ag_scope_counter ?g) \<le> k" using assms(1) by (simp add: fresh_ids_def)
    with next_scope_id_fresh[OF _ i] assms(2) have f: "unat i = unat (ag_scope_counter ?g) + 1" "ag_scope_counter g' = i" by auto
    have "i \<notin> scope_ids st t" using assms(1) f(1) by (fastforce simp: fresh_ids_def)
    with sub dist f cnt show ?thesis unfolding c Push trace_step_def
      by (auto simp: push_annotation_def Let_def i intro!: fresh_ids_update[OF assms(1), where i = i])
  next
    case Pop
    from sub dist show ?thesis unfolding c Pop trace_step_def
      by (auto simp: pop_annotation_def Let_def distinct_tl dest!: in_set_tl intro!: fresh_ids_subset[OF assms(1)] split: list.split)
  next
    case (Enable e)
    from assms(1) show ?thesis unfolding c Enable trace_step_def
      by (auto simp: enable_def scope_ids_def fresh_ids_def intro!: fresh_ids_subset[OF assms(1)])
  qed
qed

lemma run_fresh: "fresh_ids k st \<Longrightarrow> k + length cs < 2 ^ 63 \<Longrightarrow> fresh_ids (k + length cs) (fold trace_step cs st)"
proof (induction cs arbitrary: k st)
  case (Cons c cs)
  then have "fresh_ids (Suc k) (trace_step c st)" by (intro trace_step_fresh) simp_all
  from Cons.IH[OF this] Cons.prems show ?case by simp
qed simp

lemma initial_fresh: "fresh_ids 0 initial_trace"
  by (simp add: fresh_ids_def scope_ids_def initial_trace_def initial_data_def)

section \<open>Annotation stacks\<close>

definition encode_call :: "nat \<times> (string \<times> trace_arg list) stack_op \<Rightarrow> nat \<times> string stack_op" where
  "encode_call c = (fst c, map_stack_op (\<lambda>e. traceme_encode (fst e) (snd e)) (snd c))"

definition run_calls :: "(nat \<times> (string \<times> trace_arg list) stack_op) list \<Rightarrow> trace_state" where
  "run_calls cs = fold trace_step (map encode_call cs) initial_trace"

definition open_events :: "(nat \<times> (string \<times> trace_arg list) stack_op) list \<Rightarrow> nat \<Rightarrow> (string \<times> trace_arg list) list" where
  "open_events cs = snd (fold spec_step cs (False, \<lambda>_. []))"

lemma spec_step_encode:
  "spec_step (encode_call c) (b, \<lambda>t. map (\<lambda>e. traceme_encode (fst e) (snd e)) (f t)) =
     (fst (spec_step c (b, f)), \<lambda>t. map (\<lambda>e. traceme_encode (fst e) (snd e)) (snd (spec_step c (b, f)) t))"
  by (cases "(c, b, f)" rule: spec_step.cases) (auto simp: encode_call_def map_tl)

lemma spec_run_encode:
  "fold spec_step (map encode_call cs) (b, \<lambda>t. map (\<lambda>e. traceme_encode (fst e) (snd e)) (f t)) =
     (fst (fold spec_step cs (b, f)), \<lambda>t. map (\<lambda>e. traceme_encode (fst e) (snd e)) (snd (fold spec_step cs (b, f)) t))"
  by (induction cs arbitrary: b f) (auto simp: spec_step_encode)

lemma spec_step_events:
  "(\<forall>e\<in>set_stack_op (snd c). P e) \<Longrightarrow> (\<forall>t. \<forall>e\<in>set (f t). P e) \<Longrightarrow> \<forall>t. \<forall>e\<in>set (snd (spec_step c (b, f)) t). P e"
  by (cases "(c, b, f)" rule: spec_step.cases) (auto dest: in_set_tl)

lemma spec_run_events:
  "(\<forall>c\<in>set cs. \<forall>e\<in>set_stack_op (snd c). P e) \<Longrightarrow> (\<forall>t. \<forall>e\<in>set (f t). P e) \<Longrightarrow>
   \<forall>t. \<forall>e\<in>set (snd (fold spec_step cs (b, f)) t). P e"
proof (induction cs arbitrary: b f)
  case (Cons c cs)
  then have "\<forall>t. \<forall>e\<in>set (snd (spec_step c (b, f)) t). P e" by (intro spec_step_events) simp_all
  from Cons.IH[OF _ this, of "fst (spec_step c (b, f))"] Cons.prems show ?case by simp
qed simp



text \<open>
  Without a trailing \<open>#\<close> the whole text is the name, and a name with \<open>::\<close> of its own is read as two
  annotations.
\<close>

lemma unmatched_format_is_name: "\<not> has_metadata s \<Longrightarrow> parse_annotation s = \<lparr>an_name = strip_whitespace s, an_metadata = []\<rparr>"
  using parse_metadata_pairs[of "[]"] by (simp add: parse_annotation_def split_name_and_metadata_def)

lemma qualified_name_is_split: "parse_annotation_stack ''at::add'' = map parse_annotation [''at'', ''add'']"
  using parse_join[of "[''at'', ''add'']"] by simp

end
