(* ===== verification/Callback_Queue.thy ===== *)
theory Callback_Queue
  imports Prelude
begin

text \<open>
  \<open>threaded_callback_queue.h\<close> and \<open>.cpp\<close>: the queue on which the graph executor runs its nodes. Futures
  are named by the order of their creation, a thread is a stack of activation records, and a step of a
  thread is one critical section or one access to an atomic. Pushed tasks are code of the caller that does
  not use the queue; \<open>q_ran\<close> lists the tasks whose code has run. The number of workers is fixed.
\<close>

section \<open>Futures, threads and the queue\<close>

datatype status = CONSTRUCTING | ON_HOLD | ENQUEUED | RUNNING | READY

text \<open>
  What an invoker holds: a pushed function (with or without a return value), a call of
  \<open>handle_dependent_invoker\<close>, or the empty function of \<open>wait\<close>.
\<close>

datatype task = Task bool | Handle_dependent "nat list" nat | Empty_lambda

record future =
  fu_status :: status
  fu_dependents :: "nat list"
  fu_remaining :: int
  fu_index :: int
  fu_high :: bool
  fu_task :: task

definition new_future :: "status \<Rightarrow> task \<Rightarrow> future" where
  "new_future st t = \<lparr>fu_status = st, fu_dependents = [], fu_remaining = 0, fu_index = 0, fu_high = False, fu_task = t\<rparr>"

text \<open>
  The activation records: \<open>invoke\<close> before and after the call of the function, the loop of
  \<open>signal_dependent_shared_futures\<close> with the dependents left and the invokers to launch, the loop of
  \<open>handle_dependent_invoker\<close> (and its state between \<open>emplace_back\<close> and \<open>fetch_add\<close>), the loop of \<open>wait\<close>,
  its call of \<open>try_invoke\<close>, its final wait, the join of the destructor, and a worker that has left its loop.
\<close>

datatype frame =
    Invoke nat
  | Complete nat
  | Signal nat "nat list" "nat list"
  | Handle "nat list" nat
  | Count "nat list" nat
  | Scan "nat list" "nat list" bool
  | Try nat "nat list" "nat list" bool
  | Block "nat list" nat
  | Join
  | Exited

text \<open>The first \<open>q_clients\<close> threads call the queue, the others are its workers.\<close>

record cq =
  q_futures :: "future list"
  q_invokers :: "nat option list"
  q_stacks :: "frame list list"
  q_clients :: nat
  q_destroying :: bool
  q_ran :: "nat list"

definition new_queue :: "nat \<Rightarrow> nat \<Rightarrow> cq" where
  "new_queue clients workers =
     \<lparr>q_futures = [], q_invokers = [], q_stacks = replicate (clients + workers) [], q_clients = clients,
      q_destroying = False, q_ran = []\<rparr>"

definition upd_future :: "nat \<Rightarrow> (future \<Rightarrow> future) \<Rightarrow> cq \<Rightarrow> cq" where
  "upd_future f h s = s\<lparr>q_futures := (q_futures s)[f := h (q_futures s ! f)]\<rparr>"

definition set_status :: "nat \<Rightarrow> status \<Rightarrow> cq \<Rightarrow> cq" where
  "set_status f st = upd_future f (fu_status_update (\<lambda>_. st))"

definition add_remaining :: "nat \<Rightarrow> int \<Rightarrow> cq \<Rightarrow> cq" where
  "add_remaining f k = upd_future f (fu_remaining_update (\<lambda>n. n + k))"

definition set_stack :: "nat \<Rightarrow> frame list \<Rightarrow> cq \<Rightarrow> cq" where
  "set_stack i st s = s\<lparr>q_stacks := (q_stacks s)[i := st]\<rparr>"

abbreviation status_of :: "cq \<Rightarrow> nat \<Rightarrow> status" where
  "status_of s f \<equiv> fu_status (q_futures s ! f)"

section \<open>The deque of invokers\<close>

definition pop_front_nullptr :: "nat option list \<Rightarrow> nat option list" where
  "pop_front_nullptr q = dropWhile (\<lambda>x. x = None) q"

definition somes :: "nat option list \<Rightarrow> nat list" where
  "somes q = map the (filter (\<lambda>x. x \<noteq> None) q)"

definition front_invoker_index :: "future list \<Rightarrow> nat option list \<Rightarrow> int" where
  "front_invoker_index fs q = (case somes q of [] \<Rightarrow> 0 | f # _ \<Rightarrow> fu_index (fs ! f))"

definition back_invoker_index :: "future list \<Rightarrow> nat option list \<Rightarrow> int" where
  "back_invoker_index fs q = (case rev (somes q) of [] \<Rightarrow> -1 | f # _ \<Rightarrow> fu_index (fs ! f))"

fun launch_loop :: "nat list \<Rightarrow> int \<Rightarrow> future list \<Rightarrow> nat option list \<Rightarrow> future list \<times> nat option list" where
  "launch_loop [] index fs q = (fs, q)"
| "launch_loop (f # ls) index fs q =
     launch_loop ls (index - 1) (fs[f := (fs ! f)\<lparr>fu_index := index - 1, fu_status := ENQUEUED\<rparr>]) (Some f # q)"

definition launch :: "nat list \<Rightarrow> cq \<Rightarrow> cq" where
  "launch ls s =
     (if ls = [] then s
      else let q = pop_front_nullptr (q_invokers s);
               index = (if q = [] then int (length ls) else front_invoker_index (q_futures s) q);
               (fs, q') = launch_loop ls index (q_futures s) q
           in s\<lparr>q_futures := fs, q_invokers := q'\<rparr>)"

text \<open>The locked part of \<open>try_invoke\<close>: whether the invoker was taken out of the deque.\<close>

definition try_invoke :: "nat \<Rightarrow> cq \<Rightarrow> bool \<times> cq" where
  "try_invoke f s =
     (if status_of s f \<noteq> ENQUEUED then (False, s)
      else let q = pop_front_nullptr (q_invokers s); s1 = s\<lparr>q_invokers := q\<rparr>
           in if q = [] then (False, s1)
              else let index = fu_index (q_futures s ! f) - fu_index (q_futures s ! the (hd q))
                   in if index < 0 \<or> index \<ge> int (length q) \<or> q ! nat index \<noteq> Some f then (False, s1)
                      else (True, set_status f RUNNING (s1\<lparr>q_invokers :=
                              (if index = 0 then pop_front_nullptr (tl q) else q[nat index := None])\<rparr>)))"

section \<open>The steps of a thread\<close>

definition must_wait :: "nat list \<Rightarrow> cq \<Rightarrow> bool" where
  "must_wait ps s \<longleftrightarrow> (\<exists>p\<in>set ps. status_of s p \<noteq> READY)"

text \<open>A function with a return value runs under the mutex of its future.\<close>

definition locked :: "nat \<Rightarrow> cq \<Rightarrow> bool" where
  "locked p s \<longleftrightarrow> fu_task (q_futures s ! p) = Task True \<and> (\<exists>st\<in>set (q_stacks s). Complete p \<in> set st)"

definition on_hold :: "cq \<Rightarrow> bool" where
  "on_hold s \<longleftrightarrow> \<not> q_destroying s \<and> q_invokers s = []"

definition worker_pop :: "nat \<Rightarrow> cq \<Rightarrow> cq option" where
  "worker_pop i s =
     (if on_hold s then None
      else case pop_front_nullptr (q_invokers s) of
             [] \<Rightarrow> Some (set_stack i [Exited] (s\<lparr>q_invokers := []\<rparr>))
           | f # q \<Rightarrow> Some (set_stack i [Invoke (the f)] (set_status (the f) RUNNING
                              (s\<lparr>q_invokers := pop_front_nullptr q\<rparr>))))"

fun invoke_step :: "nat \<Rightarrow> frame list \<Rightarrow> nat \<Rightarrow> cq \<Rightarrow> cq" where
  "invoke_step i st f s =
     (case fu_task (q_futures s ! f) of
        Task v \<Rightarrow> set_stack i (Complete f # st) (s\<lparr>q_ran := q_ran s @ [f]\<rparr>)
      | Handle_dependent ps g \<Rightarrow> set_stack i (Handle ps g # Complete f # st) s
      | Empty_lambda \<Rightarrow> set_stack i (Complete f # st) s)"

fun signal_step :: "nat \<Rightarrow> frame list \<Rightarrow> nat \<Rightarrow> nat list \<Rightarrow> nat list \<Rightarrow> cq \<Rightarrow> cq" where
  "signal_step i st f [] ls s = set_stack i st (launch ls s)"
| "signal_step i st f (d # ds) ls s =
     (let s1 = add_remaining d (-1) s
      in if status_of s1 d = ON_HOLD \<and> fu_remaining (q_futures s1 ! d) = 0
         then if fu_high (q_futures s1 ! d) then set_stack i (Invoke d # Signal f ds ls # st) (set_status d RUNNING s1)
              else set_stack i (Signal f ds (ls @ [d]) # st) s1
         else set_stack i (Signal f ds ls # st) s1)"

fun handle_step :: "nat \<Rightarrow> frame list \<Rightarrow> nat list \<Rightarrow> nat \<Rightarrow> cq \<Rightarrow> cq option" where
  "handle_step i st (p # ps) g s =
     (if status_of s p = READY then Some (set_stack i (Handle ps g # st) s)
      else if locked p s then None
      else Some (set_stack i (Count ps g # st) (upd_future p (fu_dependents_update (\<lambda>ds. ds @ [g])) s)))"
| "handle_step i st [] g s =
     (if fu_remaining (q_futures s ! g) \<noteq> 0 then Some (set_stack i st (set_status g ON_HOLD s))
      else Some (set_stack i (Invoke g # st) (set_status g RUNNING s)))"

fun scan_step :: "nat \<Rightarrow> frame list \<Rightarrow> nat list \<Rightarrow> nat list \<Rightarrow> bool \<Rightarrow> cq \<Rightarrow> cq" where
  "scan_step i st (p # qs) ps flag s =
     (case status_of s p of
        ENQUEUED \<Rightarrow> set_stack i (Try p qs ps flag # st) s
      | READY \<Rightarrow> set_stack i (Scan qs ps flag # st) s
      | _ \<Rightarrow> set_stack i (Scan qs ps True # st) s)"
| "scan_step i st [] ps flag s =
     (if \<not> flag \<or> \<not> must_wait ps s then set_stack i st s
      else let e = length (q_futures s)
           in set_stack i (Handle ps e # Block ps e # st)
                (s\<lparr>q_futures := q_futures s @ [(new_future CONSTRUCTING Empty_lambda)\<lparr>fu_high := True\<rparr>]\<rparr>))"

definition workers_exited :: "cq \<Rightarrow> bool" where
  "workers_exited s \<longleftrightarrow> (\<forall>st\<in>set (drop (q_clients s) (q_stacks s)). st = [Exited])"

fun frame_step :: "nat \<Rightarrow> frame list \<Rightarrow> frame \<Rightarrow> cq \<Rightarrow> cq option" where
  "frame_step i st (Invoke f) s = Some (invoke_step i st f s)"
| "frame_step i st (Complete f) s =
     Some (set_stack i (Signal f (fu_dependents (q_futures s ! f)) [] # st) (set_status f READY s))"
| "frame_step i st (Signal f ds ls) s = Some (signal_step i st f ds ls s)"
| "frame_step i st (Handle ps g) s = handle_step i st ps g s"
| "frame_step i st (Count ps g) s = Some (set_stack i (Handle ps g # st) (add_remaining g 1 s))"
| "frame_step i st (Scan qs ps flag) s = Some (scan_step i st qs ps flag s)"
| "frame_step i st (Try p qs ps flag) s =
     (case try_invoke p s of
        (True, s1) \<Rightarrow> Some (set_stack i (Invoke p # Scan qs ps flag # st) s1)
      | (False, s1) \<Rightarrow> Some (set_stack i (Scan qs ps True # st) s1))"
| "frame_step i st (Block ps e) s = (if status_of s e = READY then Some (set_stack i st s) else None)"
| "frame_step i st Join s = (if workers_exited s then Some (set_stack i st s) else None)"
| "frame_step i st Exited s = None"

definition thread_step :: "nat \<Rightarrow> cq \<Rightarrow> cq option" where
  "thread_step i s =
     (if i < length (q_stacks s)
      then case q_stacks s ! i of
             [] \<Rightarrow> (if i < q_clients s then None else worker_pop i s)
           | fr # st \<Rightarrow> frame_step i st fr s
      else None)"

section \<open>The calls of the clients\<close>

datatype queue_call = Push bool | Push_dependent "nat list" bool | Wait "nat list" | Destroy

definition enqueue_back :: "task \<Rightarrow> cq \<Rightarrow> cq" where
  "enqueue_back t s =
     s\<lparr>q_futures := q_futures s @ [(new_future ENQUEUED t)\<lparr>fu_index := back_invoker_index (q_futures s) (q_invokers s) + 1\<rparr>],
       q_invokers := q_invokers s @ [Some (length (q_futures s))]\<rparr>"

definition push_dependent :: "nat list \<Rightarrow> bool \<Rightarrow> cq \<Rightarrow> cq" where
  "push_dependent ps v s =
     (if \<not> must_wait ps s then enqueue_back (Task v) s
      else enqueue_back (Handle_dependent ps (length (q_futures s)))
             (s\<lparr>q_futures := q_futures s @ [new_future CONSTRUCTING (Task v)]\<rparr>))"

fun call_body :: "nat \<Rightarrow> queue_call \<Rightarrow> cq \<Rightarrow> cq" where
  "call_body i (Push v) s = enqueue_back (Task v) s"
| "call_body i (Push_dependent ps v) s = push_dependent ps v s"
| "call_body i (Wait ps) s = set_stack i [Scan ps ps False] s"
| "call_body i Destroy s = set_stack i [Join] (s\<lparr>q_destroying := True\<rparr>)"

fun priors :: "queue_call \<Rightarrow> nat list" where
  "priors (Push_dependent ps v) = ps"
| "priors (Wait ps) = ps"
| "priors _ = []"

text \<open>
  A client calls when it is not in a call; the futures it names are ones it has been given (user tasks), and it
  destroys the queue when no client uses it, after which there are no calls.
\<close>

definition client_call :: "nat \<Rightarrow> queue_call \<Rightarrow> cq \<Rightarrow> cq option" where
  "client_call i c s =
     (if i < q_clients s \<and> i < length (q_stacks s) \<and> q_stacks s ! i = [] \<and> \<not> q_destroying s \<and> list_all (\<lambda>p. p < length (q_futures s)) (priors c) \<and>
         (c = Destroy \<longrightarrow> list_all (\<lambda>st. st = []) (take (q_clients s) (q_stacks s)))
      then Some (call_body i c s) else None)"

datatype queue_action = Call nat queue_call | Step nat

fun act :: "queue_action \<Rightarrow> cq \<Rightarrow> cq option" where
  "act (Call i c) s = client_call i c s"
| "act (Step i) s = thread_step i s"

fun act_all :: "queue_action list \<Rightarrow> cq \<Rightarrow> cq option" where
  "act_all [] s = Some s"
| "act_all (a # as) s = (case act a s of None \<Rightarrow> None | Some s1 \<Rightarrow> act_all as s1)"

end
