(* ===== verification/Callback_Tokens.thy ===== *)
theory Callback_Tokens
  imports Callback_Queue
begin

text \<open>
  Where the work of the queue is. A token stands for an entry of the deque, for an activation record that
  runs, launches or handles a future, or for a signal a future still has to receive; the status of a future
  and its counter of priors are determined by the tokens that name it. Every change of a future is one of a
  few moves of tokens.
\<close>

section \<open>Tokens\<close>

datatype token = Tq nat | Trun nat | Tlaunch nat | Thandle nat | Tcnt nat | Tpend nat

fun token_future :: "token \<Rightarrow> nat" where
  "token_future (Tq f) = f"
| "token_future (Trun f) = f"
| "token_future (Tlaunch f) = f"
| "token_future (Thandle f) = f"
| "token_future (Tcnt f) = f"
| "token_future (Tpend f) = f"

definition task_tokens :: "task \<Rightarrow> token multiset" where
  "task_tokens t = (case t of Handle_dependent ps g \<Rightarrow> {#Thandle g#} | _ \<Rightarrow> {#})"

definition future_tokens :: "future \<Rightarrow> token multiset" where
  "future_tokens fu =
     (if fu_status fu = READY then {#} else mset (map Tpend (fu_dependents fu))) +
     (if fu_status fu = ENQUEUED then task_tokens (fu_task fu) else {#})"

fun frame_tokens :: "task list \<Rightarrow> frame \<Rightarrow> token multiset" where
  "frame_tokens tk (Invoke f) = add_mset (Trun f) (task_tokens (tk ! f))"
| "frame_tokens tk (Complete f) = {#Trun f#}"
| "frame_tokens tk (Signal f ds ls) = mset (map Tpend ds) + mset (map Tlaunch ls)"
| "frame_tokens tk (Handle ps g) = {#Thandle g#}"
| "frame_tokens tk (Count ps g) = {#Tcnt g#}"
| "frame_tokens tk _ = {#}"

definition stack_tokens :: "task list \<Rightarrow> frame list \<Rightarrow> token multiset" where
  "stack_tokens tk st = sum_list (map (frame_tokens tk) st)"

definition all_tokens :: "future list \<Rightarrow> nat option list \<Rightarrow> frame list list \<Rightarrow> token multiset" where
  "all_tokens fs q sts =
     sum_list (map future_tokens fs) + mset (map Tq (somes q)) + sum_list (map (stack_tokens (map fu_task fs)) sts)"

abbreviation tokens :: "cq \<Rightarrow> token multiset" where
  "tokens s \<equiv> all_tokens (q_futures s) (q_invokers s) (q_stacks s)"

lemma stack_tokens_simps [simp]:
  "stack_tokens tk [] = {#}" "stack_tokens tk (fr # st) = frame_tokens tk fr + stack_tokens tk st"
  by (simp_all add: stack_tokens_def)

lemma sum_list_replace:
  fixes xs :: "'a multiset list"
  shows "i < length xs \<Longrightarrow> sum_list (xs[i := x]) + xs ! i = sum_list xs + x"
proof (induction xs arbitrary: i)
  case (Cons y xs)
  then show ?case by (cases i) (auto simp: ac_simps)
qed simp

lemma add_exchange:
  fixes a :: "'a multiset"
  shows "a' + x = a + y \<Longrightarrow> a' + q + r + x = a + q + r + y"
  by (metis add.assoc add.commute)

lemma all_tokens_stack:
  "i < length sts \<Longrightarrow> all_tokens fs q (sts[i := st]) + stack_tokens (map fu_task fs) (sts ! i) =
     all_tokens fs q sts + stack_tokens (map fu_task fs) st"
  using sum_list_replace[of i "map (stack_tokens (map fu_task fs)) sts" "stack_tokens (map fu_task fs) st"]
  by (simp add: all_tokens_def map_update add.assoc)

lemma all_tokens_future:
  assumes "f < length fs" "fu_task x = fu_task (fs ! f)"
  shows "all_tokens (fs[f := x]) q sts + future_tokens (fs ! f) = all_tokens fs q sts + future_tokens x"
proof -
  have "map fu_task (fs[f := x]) = map fu_task fs"
    using assms by (intro nth_equalityI) (auto simp: nth_list_update)
  moreover have "sum_list (map future_tokens (fs[f := x])) + future_tokens (fs ! f) = sum_list (map future_tokens fs) + future_tokens x"
    using sum_list_replace[of f "map future_tokens fs" "future_tokens x"] assms by (simp add: map_update)
  ultimately show ?thesis unfolding all_tokens_def by (metis add_exchange)
qed

lemma all_tokens_queue: "all_tokens fs q' sts + mset (map Tq (somes q)) = all_tokens fs q sts + mset (map Tq (somes q'))"
  by (simp add: all_tokens_def ac_simps)

lemma all_tokens_new:
  assumes "\<forall>st\<in>set sts. \<forall>f. Invoke f \<in> set st \<longrightarrow> f < length fs"
  shows "all_tokens (fs @ [x]) q sts = all_tokens fs q sts + future_tokens x"
proof -
  have "frame_tokens (map fu_task fs @ [fu_task x]) fr = frame_tokens (map fu_task fs) fr" if "st \<in> set sts" "fr \<in> set st" for st fr
    using assms that by (cases fr) (auto simp: nth_append)
  then have "stack_tokens (map fu_task fs @ [fu_task x]) st = stack_tokens (map fu_task fs) st" if "st \<in> set sts" for st
    using that unfolding stack_tokens_def by (intro arg_cong[of _ _ sum_list] map_cong) simp_all
  then have eq: "map (stack_tokens (map fu_task fs @ [fu_task x])) sts = map (stack_tokens (map fu_task fs)) sts"
    by (intro map_cong) simp_all
  show ?thesis unfolding all_tokens_def map_append list.map eq by (simp add: ac_simps)
qed

lemma frame_token_in:
  assumes "st \<in> set sts" "fr \<in> set st" "t \<in># frame_tokens (map fu_task fs) fr"
  shows "t \<in># all_tokens fs q sts"
proof -
  have "t \<in># stack_tokens (map fu_task fs) st"
    using assms(2,3) by (induction st) auto
  with assms(1) have "t \<in># sum_list (map (stack_tokens (map fu_task fs)) sts)"
    by (induction sts) auto
  then show ?thesis by (simp add: all_tokens_def)
qed

lemma future_token_in:
  assumes "f < length fs" "t \<in># future_tokens (fs ! f)"
  shows "t \<in># all_tokens fs q sts"
proof -
  have "t \<in># sum_list (map future_tokens fs)"
    using assms by (induction fs arbitrary: f) (auto simp: nth_Cons split: nat.splits)
  then show ?thesis by (simp add: all_tokens_def)
qed

lemma queue_token_in: "Some f \<in> set q \<Longrightarrow> Tq f \<in># all_tokens fs q sts"
  by (force simp: all_tokens_def somes_def)

section \<open>Futures and their tokens\<close>

definition is_handler :: "task \<Rightarrow> bool" where
  "is_handler t \<longleftrightarrow> (\<exists>ps g. t = Handle_dependent ps g)"

definition future_ok :: "token multiset \<Rightarrow> future \<Rightarrow> nat \<Rightarrow> bool" where
  "future_ok T fu f \<longleftrightarrow>
     count T (Tq f) = of_bool (fu_status fu = ENQUEUED) \<and>
     count T (Trun f) = of_bool (fu_status fu = RUNNING) \<and>
     count T (Thandle f) + count T (Tcnt f) = of_bool (fu_status fu = CONSTRUCTING) \<and>
     count T (Tlaunch f) = of_bool (fu_status fu = ON_HOLD \<and> fu_remaining fu = 0) \<and>
     fu_remaining fu = int (count T (Tpend f)) - int (count T (Tcnt f)) \<and>
     (fu_status fu \<noteq> CONSTRUCTING \<and> fu_status fu \<noteq> ON_HOLD \<longrightarrow> count T (Tpend f) = 0) \<and>
     (fu_status fu = CONSTRUCTING \<or> fu_status fu = ON_HOLD \<longrightarrow> \<not> is_handler (fu_task fu))"

definition tokens_ok :: "future list \<Rightarrow> token multiset \<Rightarrow> bool" where
  "tokens_ok fs T \<longleftrightarrow>
     (\<forall>f<length fs. future_ok T (fs ! f) f) \<and> (\<forall>t\<in>#T. token_future t < length fs)"

lemma tokens_okD: "tokens_ok fs T \<Longrightarrow> f < length fs \<Longrightarrow> future_ok T (fs ! f) f"
  by (simp add: tokens_ok_def)

lemma tokens_ok_bound: "tokens_ok fs T \<Longrightarrow> t \<in># T \<Longrightarrow> token_future t < length fs"
  by (simp add: tokens_ok_def)

lemma token_future_ok: "tokens_ok fs T \<Longrightarrow> t \<in># T \<Longrightarrow> token_future t < length fs \<and> future_ok T (fs ! token_future t) (token_future t) \<and> count T t > 0"
  by (auto simp: tokens_ok_def)

text \<open>The status a token gives away.\<close>

lemma token_Tq: "tokens_ok fs T \<Longrightarrow> Tq f \<in># T \<Longrightarrow> f < length fs \<and> fu_status (fs ! f) = ENQUEUED"
  by (drule (1) token_future_ok) (auto simp: future_ok_def of_bool_def simp del: count_greater_zero_iff split: if_splits)

lemma token_Trun: "tokens_ok fs T \<Longrightarrow> Trun f \<in># T \<Longrightarrow> f < length fs \<and> fu_status (fs ! f) = RUNNING"
  by (drule (1) token_future_ok) (auto simp: future_ok_def of_bool_def simp del: count_greater_zero_iff split: if_splits)

lemma token_Thandle: "tokens_ok fs T \<Longrightarrow> Thandle f \<in># T \<Longrightarrow> f < length fs \<and> fu_status (fs ! f) = CONSTRUCTING"
  by (drule (1) token_future_ok) (auto simp: future_ok_def of_bool_def simp del: count_greater_zero_iff split: if_splits)

lemma token_Tcnt: "tokens_ok fs T \<Longrightarrow> Tcnt f \<in># T \<Longrightarrow> f < length fs \<and> fu_status (fs ! f) = CONSTRUCTING"
  by (drule (1) token_future_ok) (auto simp: future_ok_def of_bool_def simp del: count_greater_zero_iff split: if_splits)

lemma token_Tlaunch:
  "tokens_ok fs T \<Longrightarrow> Tlaunch f \<in># T \<Longrightarrow> f < length fs \<and> fu_status (fs ! f) = ON_HOLD \<and> fu_remaining (fs ! f) = 0"
  by (drule (1) token_future_ok) (auto simp: future_ok_def of_bool_def simp del: count_greater_zero_iff split: if_splits)

lemma token_Tpend: "tokens_ok fs T \<Longrightarrow> Tpend f \<in># T \<Longrightarrow> f < length fs \<and> (fu_status (fs ! f) = CONSTRUCTING \<or> fu_status (fs ! f) = ON_HOLD)"
  by (drule (1) token_future_ok) (auto simp: future_ok_def of_bool_def simp del: count_greater_zero_iff split: if_splits)

section \<open>Moves\<close>

lemma count_move: "T' + A = T + B \<Longrightarrow> count T' t + count A t = count T t + count (B :: token multiset) t"
  by (metis count_union)

lemma future_ok_cong:
  "(\<And>t. token_future t = f \<Longrightarrow> count T' t = count T t) \<Longrightarrow> future_ok T' fu f = future_ok T fu f"
  by (simp add: future_ok_def)

lemma tokens_ok_move:
  assumes ok: "tokens_ok fs T" and f: "f < length fs" and mv: "T' + A = T + B"
    and A: "\<And>t. t \<in># A \<Longrightarrow> token_future t = f" and B: "\<And>t. t \<in># B \<Longrightarrow> token_future t = f"
    and x: "future_ok T' x f"
  shows "tokens_ok (fs[f := x]) T'"
proof -
  have other: "count T' t = count T t" if "token_future t \<noteq> f" for t
    using count_move[OF mv, of t] that A[of t] B[of t] by (metis add_0_right count_inI)
  have "future_ok T' (fs[f := x] ! g) g" if "g < length fs" for g
  proof (cases "g = f")
    case True
    then show ?thesis using f x by simp
  next
    case False
    then have "future_ok T' (fs ! g) g = future_ok T (fs ! g) g" by (intro future_ok_cong other) simp
    then show ?thesis using tokens_okD[OF ok that] False by simp
  qed
  moreover have "token_future t < length fs" if "t \<in># T'" for t
  proof (cases "token_future t = f")
    case False
    with other that have "t \<in># T" by (metis count_eq_zero_iff)
    then show ?thesis by (rule tokens_ok_bound[OF ok])
  qed (simp add: f)
  ultimately show ?thesis by (simp add: tokens_ok_def)
qed

lemma tokens_ok_new:
  assumes ok: "tokens_ok fs T" and mv: "T' = T + B" and B: "\<And>t. t \<in># B \<Longrightarrow> token_future t = length fs"
    and x: "future_ok B x (length fs)"
  shows "tokens_ok (fs @ [x]) T'"
proof -
  have new: "count T t = 0" if "token_future t = length fs" for t
    using tokens_ok_bound[OF ok, of t] that by (auto simp: not_in_iff[symmetric])
  have old: "count B t = 0" if "token_future t < length fs" for t
    using B[of t] that by (auto simp: not_in_iff[symmetric])
  have "future_ok T' ((fs @ [x]) ! g) g" if "g \<le> length fs" for g
  proof (cases "g = length fs")
    case True
    then have "future_ok T' x g = future_ok B x g" by (intro future_ok_cong) (simp add: mv new)
    then show ?thesis using x True by simp
  next
    case False
    then have "future_ok T' (fs ! g) g = future_ok T (fs ! g) g" using that by (intro future_ok_cong) (simp add: mv old)
    then show ?thesis using tokens_okD[OF ok, of g] that False by (simp add: nth_append)
  qed
  moreover have "token_future t \<le> length fs" if "t \<in># T'" for t
    using that tokens_ok_bound[OF ok, of t] B[of t] by (auto simp: mv intro: less_imp_le)
  ultimately show ?thesis by (auto simp: tokens_ok_def less_Suc_eq_le)
qed

lemma tokens_ok_same:
  assumes "tokens_ok fs T" "f < length fs" "fu_status x = fu_status (fs ! f)" "fu_remaining x = fu_remaining (fs ! f)"
    "fu_task x = fu_task (fs ! f)"
  shows "tokens_ok (fs[f := x]) T"
  using tokens_okD[OF assms(1,2)] assms(3-5)
  by (intro tokens_ok_move[OF assms(1,2), where A = "{#}" and B = "{#}"]) (simp_all add: future_ok_def)

lemma single_token:
  "t \<in># {#a :: token#} \<Longrightarrow> token_future a = f \<Longrightarrow> token_future t = f"
  "t \<in># {#a :: token, b#} \<Longrightarrow> token_future a = f \<Longrightarrow> token_future b = f \<Longrightarrow> token_future t = f"
  "t \<in># ({#} :: token multiset) \<Longrightarrow> token_future t = f"
  by auto

lemma move_counts:
  fixes T :: "token multiset"
  assumes "T' + A = T + B"
  shows "count T' (Tq f) + count A (Tq f) = count T (Tq f) + count B (Tq f) \<and>
     count T' (Trun f) + count A (Trun f) = count T (Trun f) + count B (Trun f) \<and>
     count T' (Tlaunch f) + count A (Tlaunch f) = count T (Tlaunch f) + count B (Tlaunch f) \<and>
     count T' (Thandle f) + count A (Thandle f) = count T (Thandle f) + count B (Thandle f) \<and>
     count T' (Tcnt f) + count A (Tcnt f) = count T (Tcnt f) + count B (Tcnt f) \<and>
     count T' (Tpend f) + count A (Tpend f) = count T (Tpend f) + count B (Tpend f)"
  by (intro conjI count_move assms)

lemma count_pos: "t \<in># T \<Longrightarrow> 0 < count T t"
  by simp

text \<open>Taking an enqueued future out of the deque, and the end of its run.\<close>

lemma move_run:
  assumes "tokens_ok fs T" "Tq f \<in># T" "T' + {#Tq f#} = T + {#Trun f#}"
  shows "tokens_ok (fs[f := (fs ! f)\<lparr>fu_status := RUNNING\<rparr>]) T'"
  using token_Tq[OF assms(1,2)] tokens_okD[OF assms(1), of f] move_counts[OF assms(3), of f]
  by (intro tokens_ok_move[OF assms(1) _ assms(3)]) (auto simp: future_ok_def)

lemma move_complete:
  assumes "tokens_ok fs T" "Trun f \<in># T" "T' + {#Trun f#} = T"
  shows "tokens_ok (fs[f := (fs ! f)\<lparr>fu_status := READY\<rparr>]) T'"
  using token_Trun[OF assms(1,2)] tokens_okD[OF assms(1), of f] move_counts[of T' "{#Trun f#}" T "{#}" f] assms(3)
  by (intro tokens_ok_move[OF assms(1), where A = "{#Trun f#}" and B = "{#}"]) (auto simp: future_ok_def)

text \<open>A signal of a prior: it lowers the counter, and the last one of a future on hold releases the future.\<close>

lemma move_signal:
  assumes "tokens_ok fs T" "Tpend d \<in># T" "\<not> (fu_status (fs ! d) = ON_HOLD \<and> fu_remaining (fs ! d) = 1)"
    "T' + {#Tpend d#} = T"
  shows "tokens_ok (fs[d := (fs ! d)\<lparr>fu_remaining := fu_remaining (fs ! d) - 1\<rparr>]) T'"
proof -
  have mv: "T' + {#Tpend d#} = T + {#}" using assms(4) by simp
  have d: "d < length fs" and st: "fu_status (fs ! d) = CONSTRUCTING \<or> fu_status (fs ! d) = ON_HOLD"
    using token_Tpend[OF assms(1,2)] by auto
  have "count T (Tpend d) = count T' (Tpend d) + 1" using move_counts[OF mv, of d] by simp
  then have "future_ok T' ((fs ! d)\<lparr>fu_remaining := fu_remaining (fs ! d) - 1\<rparr>) d"
    using move_counts[OF mv, of d] tokens_okD[OF assms(1) d] assms(3) st by (auto simp: future_ok_def)
  with d show ?thesis by (intro tokens_ok_move[OF assms(1) _ mv]) auto
qed

lemma last_signal_counts:
  assumes "tokens_ok fs T" "Tpend d \<in># T" "fu_status (fs ! d) = ON_HOLD \<and> fu_remaining (fs ! d) = 1"
  shows "d < length fs \<and> count T (Tq d) = 0 \<and> count T (Trun d) = 0 \<and> count T (Thandle d) = 0 \<and> count T (Tcnt d) = 0 \<and>
    count T (Tlaunch d) = 0 \<and> count T (Tpend d) = 1 \<and> \<not> is_handler (fu_task (fs ! d))"
proof -
  have "d < length fs" using token_Tpend[OF assms(1,2)] by simp
  moreover have "future_ok T (fs ! d) d" using tokens_okD[OF assms(1)] calculation by simp
  ultimately show ?thesis using assms(3) by (simp add: future_ok_def)
qed

lemma move_signal_launch:
  assumes "tokens_ok fs T" "Tpend d \<in># T" "fu_status (fs ! d) = ON_HOLD \<and> fu_remaining (fs ! d) = 1"
    "T' + {#Tpend d#} = T + {#Tlaunch d#}"
  shows "tokens_ok (fs[d := (fs ! d)\<lparr>fu_remaining := fu_remaining (fs ! d) - 1\<rparr>]) T'"
proof -
  note c = last_signal_counts[OF assms(1-3)]
  have "future_ok T' ((fs ! d)\<lparr>fu_remaining := fu_remaining (fs ! d) - 1\<rparr>) d"
    using move_counts[OF assms(4), of d] c assms(3) by (simp add: future_ok_def)
  with c show ?thesis by (intro tokens_ok_move[OF assms(1) _ assms(4)]) auto
qed

lemma move_signal_run:
  assumes "tokens_ok fs T" "Tpend d \<in># T" "fu_status (fs ! d) = ON_HOLD \<and> fu_remaining (fs ! d) = 1"
    "T' + {#Tpend d#} = T + {#Trun d#}"
  shows "tokens_ok (fs[d := (fs ! d)\<lparr>fu_remaining := fu_remaining (fs ! d) - 1, fu_status := RUNNING\<rparr>]) T'"
proof -
  note c = last_signal_counts[OF assms(1-3)]
  have "future_ok T' ((fs ! d)\<lparr>fu_remaining := fu_remaining (fs ! d) - 1, fu_status := RUNNING\<rparr>) d"
    using move_counts[OF assms(4), of d] c assms(3) by (simp add: future_ok_def)
  with c show ?thesis by (intro tokens_ok_move[OF assms(1) _ assms(4)]) auto
qed

lemma move_launch:
  assumes "tokens_ok fs T" "Tlaunch f \<in># T" "T' + {#Tlaunch f#} = T + {#Tq f#}"
  shows "tokens_ok (fs[f := (fs ! f)\<lparr>fu_index := k, fu_status := ENQUEUED\<rparr>]) T'"
  using token_Tlaunch[OF assms(1,2)] tokens_okD[OF assms(1), of f] move_counts[OF assms(3), of f]
  by (intro tokens_ok_move[OF assms(1) _ assms(3)]) (auto simp: future_ok_def)

text \<open>Registering with a prior, counting it, and the decision after the last prior.\<close>

lemma move_register:
  assumes "tokens_ok fs T" "Thandle g \<in># T" "T' + {#Thandle g#} = T + {#Tcnt g, Tpend g#}"
  shows "tokens_ok fs T'"
proof -
  have "tokens_ok (fs[g := fs ! g]) T'"
    using token_Thandle[OF assms(1,2)] tokens_okD[OF assms(1), of g] move_counts[OF assms(3), of g]
      count_pos[OF assms(2)]
    by (intro tokens_ok_move[OF assms(1) _ assms(3)]) (auto simp: future_ok_def)
  then show ?thesis by simp
qed

lemma move_count:
  assumes "tokens_ok fs T" "Tcnt g \<in># T" "T' + {#Tcnt g#} = T + {#Thandle g#}"
  shows "tokens_ok (fs[g := (fs ! g)\<lparr>fu_remaining := fu_remaining (fs ! g) + 1\<rparr>]) T'"
  using token_Tcnt[OF assms(1,2)] tokens_okD[OF assms(1), of g] move_counts[OF assms(3), of g] count_pos[OF assms(2)]
  by (intro tokens_ok_move[OF assms(1) _ assms(3)]) (auto simp: future_ok_def)

lemma move_hold:
  assumes "tokens_ok fs T" "Thandle g \<in># T" "fu_remaining (fs ! g) \<noteq> 0" "T' + {#Thandle g#} = T"
  shows "tokens_ok (fs[g := (fs ! g)\<lparr>fu_status := ON_HOLD\<rparr>]) T'"
  using token_Thandle[OF assms(1,2)] tokens_okD[OF assms(1), of g] move_counts[of T' "{#Thandle g#}" T "{#}" g] assms(3,4)
    count_pos[OF assms(2)]
  by (intro tokens_ok_move[OF assms(1), where A = "{#Thandle g#}" and B = "{#}"]) (auto simp: future_ok_def)

lemma move_start:
  assumes "tokens_ok fs T" "Thandle g \<in># T" "fu_remaining (fs ! g) = 0" "T' + {#Thandle g#} = T + {#Trun g#}"
  shows "tokens_ok (fs[g := (fs ! g)\<lparr>fu_status := RUNNING\<rparr>]) T'"
  using token_Thandle[OF assms(1,2)] tokens_okD[OF assms(1), of g] move_counts[OF assms(4), of g] assms(3)
    count_pos[OF assms(2)]
  by (intro tokens_ok_move[OF assms(1) _ assms(4)]) (auto simp: future_ok_def)

end
