(* ===== verification/Callback_Invariant.thy ===== *)
theory Callback_Invariant
  imports Callback_Tokens
begin

text \<open>
  The invariant of the callback queue: the tokens of a state determine its futures, the deque has no hole at
  its front, the activation records of a thread are nested as the calls of the code nest, and a prior is
  older than the futures that depend on it.
\<close>

section \<open>The invariant\<close>

fun deep_ok :: "task list \<Rightarrow> frame \<Rightarrow> bool" where
  "deep_ok tk (Complete f) = is_handler (tk ! f)"
| "deep_ok tk (Signal f ds ls) = True"
| "deep_ok tk (Scan qs ps flag) = True"
| "deep_ok tk (Block ps e) = True"
| "deep_ok tk _ = False"

fun frame_ok :: "nat \<Rightarrow> frame \<Rightarrow> bool" where
  "frame_ok n (Handle ps g) = (\<forall>p\<in>set ps. p < g)"
| "frame_ok n (Count ps g) = (\<forall>p\<in>set ps. p < g)"
| "frame_ok n (Scan qs ps flag) = (\<forall>p\<in>set qs \<union> set ps. p < n)"
| "frame_ok n (Try p qs ps flag) = (\<forall>p\<in>{p} \<union> set qs \<union> set ps. p < n)"
| "frame_ok n (Block ps e) = (e < n \<and> (\<forall>p\<in>set ps. p < e))"
| "frame_ok n _ = True"

definition stack_ok :: "future list \<Rightarrow> frame list \<Rightarrow> bool" where
  "stack_ok fs st \<longleftrightarrow> (\<forall>fr\<in>set st. frame_ok (length fs) fr) \<and> (\<forall>fr\<in>set (tl st). deep_ok (map fu_task fs) fr)"

definition future_wf :: "nat \<Rightarrow> nat \<Rightarrow> future \<Rightarrow> bool" where
  "future_wf n f fu \<longleftrightarrow>
     (\<forall>g\<in>set (fu_dependents fu). f < g) \<and>
     (\<forall>ps g. fu_task fu = Handle_dependent ps g \<longrightarrow> g < n \<and> (\<forall>p\<in>set ps. p < g))"

definition cq_inv :: "cq \<Rightarrow> bool" where
  "cq_inv s \<longleftrightarrow>
     tokens_ok (q_futures s) (tokens s) \<and>
     (q_invokers s \<noteq> [] \<longrightarrow> hd (q_invokers s) \<noteq> None) \<and>
     (\<forall>st\<in>set (q_stacks s). stack_ok (q_futures s) st) \<and>
     (\<forall>f<length (q_futures s). future_wf (length (q_futures s)) f (q_futures s ! f))"

lemma cq_invD:
  assumes "cq_inv s"
  shows "tokens_ok (q_futures s) (tokens s)" "q_invokers s \<noteq> [] \<Longrightarrow> hd (q_invokers s) \<noteq> None"
    "st \<in> set (q_stacks s) \<Longrightarrow> stack_ok (q_futures s) st"
    "f < length (q_futures s) \<Longrightarrow> future_wf (length (q_futures s)) f (q_futures s ! f)"
  using assms by (simp_all add: cq_inv_def)

lemma pop_front_id: "(q \<noteq> [] \<longrightarrow> hd q \<noteq> None) \<Longrightarrow> pop_front_nullptr q = q"
  by (cases q) (auto simp: pop_front_nullptr_def)

lemma somes_pop_front [simp]: "somes (pop_front_nullptr q) = somes q"
  by (induction q) (auto simp: somes_def pop_front_nullptr_def)

lemma hd_pop_front: "pop_front_nullptr q \<noteq> [] \<longrightarrow> hd (pop_front_nullptr q) \<noteq> None"
  unfolding pop_front_nullptr_def by (metis (mono_tags, lifting) hd_dropWhile)

lemma somes_simps [simp]: "somes [] = []" "somes (Some f # q) = f # somes q" "somes (None # q) = somes q"
  "somes (q @ r) = somes q @ somes r"
  by (simp_all add: somes_def)

section \<open>One future, the deque and one stack change\<close>

lemma tokens_step:
  assumes "f < length fs" "fu_task x = fu_task (fs ! f)" "i < length sts"
  shows "count (all_tokens (fs[f := x]) q' (sts[i := st])) t + count (future_tokens (fs ! f)) t +
      count (mset (map Tq (somes q))) t + count (stack_tokens (map fu_task fs) (sts ! i)) t =
    count (all_tokens fs q sts) t + count (future_tokens x) t + count (mset (map Tq (somes q'))) t +
      count (stack_tokens (map fu_task fs) st) t"
proof -
  have tk: "map fu_task (fs[f := x]) = map fu_task fs"
    using assms by (intro nth_equalityI) (auto simp: nth_list_update)
  have "count (all_tokens (fs[f := x]) q' (sts[i := st])) t + count (stack_tokens (map fu_task fs) (sts ! i)) t =
      count (all_tokens (fs[f := x]) q' sts) t + count (stack_tokens (map fu_task fs) st) t"
    using arg_cong[OF all_tokens_stack[OF assms(3), of "fs[f := x]" q' st], of "\<lambda>m. count m t"] tk by simp
  moreover have "count (all_tokens (fs[f := x]) q' sts) t + count (mset (map Tq (somes q))) t =
      count (all_tokens (fs[f := x]) q sts) t + count (mset (map Tq (somes q'))) t"
    using arg_cong[OF all_tokens_queue[of "fs[f := x]" q' sts q], of "\<lambda>m. count m t"] by simp
  moreover have "count (all_tokens (fs[f := x]) q sts) t + count (future_tokens (fs ! f)) t =
      count (all_tokens fs q sts) t + count (future_tokens x) t"
    using arg_cong[OF all_tokens_future[OF assms(1,2), of q sts], of "\<lambda>m. count m t"] by simp
  ultimately show ?thesis by linarith
qed

lemma tokens_stack_step:
  assumes "i < length sts"
  shows "count (all_tokens fs q (sts[i := st])) t + count (stack_tokens (map fu_task fs) (sts ! i)) t =
    count (all_tokens fs q sts) t + count (stack_tokens (map fu_task fs) st) t"
  using arg_cong[OF all_tokens_stack[OF assms, of fs q st], of "\<lambda>m. count m t"] by simp

lemma tokens_step_eq:
  assumes "f < length fs" "fu_task x = fu_task (fs ! f)" "i < length sts"
  shows "all_tokens (fs[f := x]) q' (sts[i := st]) + future_tokens (fs ! f) + mset (map Tq (somes q)) +
      stack_tokens (map fu_task fs) (sts ! i) =
    all_tokens fs q sts + future_tokens x + mset (map Tq (somes q')) + stack_tokens (map fu_task fs) st"
  by (rule multiset_eqI) (use tokens_step[OF assms, of q' st _ q] in simp)

text \<open>A top record and its tokens.\<close>

lemma top_token:
  "i < length (q_stacks s) \<Longrightarrow> q_stacks s ! i = fr # st \<Longrightarrow> t \<in># frame_tokens (map fu_task (q_futures s)) fr \<Longrightarrow> t \<in># tokens s"
  by (metis frame_token_in list.set_intros(1) nth_mem)

lemma stack_ok_of:
  "cq_inv s \<Longrightarrow> i < length (q_stacks s) \<Longrightarrow> q_stacks s ! i = st \<Longrightarrow> stack_ok (q_futures s) st"
  by (metis cq_invD(3) nth_mem)

text \<open>
  The rest of the invariant when one future and one stack change: the new stack is well formed, and so are the
  dependents of the future.
\<close>

lemma stack_ok_mono:
  assumes "stack_ok fs st" "map fu_task fs' = map fu_task fs"
  shows "stack_ok fs' st"
proof -
  have "length fs' = length fs" using assms(2) by (metis length_map)
  with assms show ?thesis by (simp add: stack_ok_def)
qed

lemma cq_inv_step:
  assumes inv: "cq_inv s" and f: "f < length (q_futures s)" "fu_task x = fu_task (q_futures s ! f)"
    and deps: "\<forall>g\<in>set (fu_dependents x). f < g"
    and q: "q' \<noteq> [] \<longrightarrow> hd q' \<noteq> None"
    and st: "stack_ok (q_futures s) st"
    and s': "q_futures s' = (q_futures s)[f := x]" "q_invokers s' = q'" "q_stacks s' = (q_stacks s)[i := st]"
    and tok: "tokens_ok (q_futures s') (tokens s')"
  shows "cq_inv s'"
proof -
  have tk: "map fu_task (q_futures s') = map fu_task (q_futures s)"
    using f s'(1) by (intro nth_equalityI) (auto simp: nth_list_update)
  have stacks: "\<forall>st\<in>set (q_stacks s'). stack_ok (q_futures s') st"
  proof
    fix u assume "u \<in> set (q_stacks s')"
    then have "u = st \<or> u \<in> set (q_stacks s)" using s'(3) set_update_subset_insert[of "q_stacks s" i st] by auto
    then have "stack_ok (q_futures s) u" using st cq_invD(3)[OF inv] by auto
    then show "stack_ok (q_futures s') u" by (rule stack_ok_mono[OF _ tk])
  qed
  have "future_wf (length (q_futures s)) f x" using cq_invD(4)[OF inv f(1)] f(2) deps by (simp add: future_wf_def)
  then have "future_wf (length (q_futures s')) g (q_futures s' ! g)" if "g < length (q_futures s')" for g
    using cq_invD(4)[OF inv, of g] that unfolding s'(1) by (cases "g = f") (simp_all add: nth_list_update)
  with q tok s'(2) stacks show ?thesis unfolding cq_inv_def by metis
qed

lemma cq_inv_stack_step:
  assumes inv: "cq_inv s" and st: "stack_ok (q_futures s) st"
    and s': "q_futures s' = q_futures s" "q_invokers s' = q_invokers s" "q_stacks s' = (q_stacks s)[i := st]"
    and tok: "tokens_ok (q_futures s') (tokens s')"
  shows "cq_inv s'"
proof -
  have "\<forall>st\<in>set (q_stacks s'). stack_ok (q_futures s') st"
    using st cq_invD(3)[OF inv] s' set_update_subset_insert[of "q_stacks s" i st] by auto
  then show ?thesis using inv tok s'(1,2) by (simp add: cq_inv_def)
qed

section \<open>Every step keeps the invariant\<close>

lemma fu_updates:
  "fu_remaining_update (\<lambda>n. n + k) fu = fu\<lparr>fu_remaining := fu_remaining fu + k\<rparr>"
  "fu_remaining_update (\<lambda>n. n - 1) fu = fu\<lparr>fu_remaining := fu_remaining fu - 1\<rparr>"
  "fu_dependents_update (\<lambda>ds. ds @ [g]) fu = fu\<lparr>fu_dependents := fu_dependents fu @ [g]\<rparr>"
  by (cases fu; simp)+

lemmas queue_defs = set_stack_def set_status_def add_remaining_def upd_future_def fu_updates

lemma future_tokens_eq:
  "future_tokens fu = (if fu_status fu = READY then {#} else mset (map Tpend (fu_dependents fu))) +
     (if fu_status fu = ENQUEUED then task_tokens (fu_task fu) else {#})"
  by (simp add: future_tokens_def)

lemma task_tokens_plain: "\<not> is_handler t \<Longrightarrow> task_tokens t = {#}"
  by (auto simp: task_tokens_def is_handler_def split: task.splits)

lemma move_eqI2: "X = Y \<Longrightarrow> (\<And>t. count X t = count Y t \<Longrightarrow> count A t = count B t) \<Longrightarrow> A = B"
  by (simp add: multiset_eqI)

lemma move_eqI: "(\<And>t. count A t = count B t) \<Longrightarrow> A = B"
  by (rule multiset_eqI)

lemma worker_pop_inv:
  assumes inv: "cq_inv s" and i: "i < length (q_stacks s)" "q_stacks s ! i = []" and step: "worker_pop i s = Some s'"
  shows "cq_inv s'"
proof (cases "q_invokers s")
  case Nil
  with step have s': "s' = set_stack i [Exited] (s\<lparr>q_invokers := []\<rparr>)"
    by (auto simp: worker_pop_def pop_front_nullptr_def split: if_splits)
  have "tokens s' = tokens s"
    using i tokens_stack_step[OF i(1), of "q_futures s" "q_invokers s" "[Exited]"]
    by (intro move_eqI) (simp add: s' set_stack_def Nil)
  with cq_invD(1)[OF inv] Nil show ?thesis unfolding s'
    by (intro cq_inv_stack_step[OF inv, of "[Exited]" _ i]) (auto simp: set_stack_def stack_ok_def)
next
  case (Cons x q)
  then obtain f where x: "x = Some f" using cq_invD(2)[OF inv] by auto
  have s': "s' = set_stack i [Invoke f] (set_status f RUNNING (s\<lparr>q_invokers := pop_front_nullptr q\<rparr>))"
    using step Cons x by (auto simp: worker_pop_def pop_front_nullptr_def split: if_splits)
  let ?fs = "q_futures s" and ?x = "(q_futures s ! f)\<lparr>fu_status := RUNNING\<rparr>"
  have Tq: "Tq f \<in># tokens s" using Cons x by (intro queue_token_in) simp
  note f = token_Tq[OF cq_invD(1)[OF inv] Tq]
  have mv: "tokens s' + {#Tq f#} = tokens s + {#Trun f#}"
  proof (rule move_eqI)
    fix t show "count (tokens s' + {#Tq f#}) t = count (tokens s + {#Trun f#}) t"
      using tokens_step[of f ?fs ?x i "q_stacks s" "pop_front_nullptr q" "[Invoke f]" t "q_invokers s"] f i Cons x
      by (auto simp: s' queue_defs future_tokens_eq)
  qed
  have "tokens_ok (q_futures s') (tokens s')"
    using move_run[OF cq_invD(1)[OF inv] Tq mv] by (simp add: s' queue_defs)
  then show ?thesis using f cq_invD(4)[OF inv, of f] hd_pop_front[of q]
    by (intro cq_inv_step[OF inv, of f ?x "pop_front_nullptr q" "[Invoke f]" _ i])
      (auto simp: s' queue_defs stack_ok_def future_wf_def)
qed

lemma invoke_step_inv:
  assumes inv: "cq_inv s" and i: "i < length (q_stacks s)" "q_stacks s ! i = Invoke f # st"
  shows "cq_inv (invoke_step i st f s)"
proof -
  let ?fs = "q_futures s"
  have ok: "stack_ok ?fs (Invoke f # st)" by (rule stack_ok_of[OF inv i])
  have f: "f < length ?fs" using token_Trun[OF cq_invD(1)[OF inv] top_token[OF i]] by simp
  define new where "new = (case fu_task (?fs ! f) of Handle_dependent ps g \<Rightarrow> [Handle ps g, Complete f] | _ \<Rightarrow> [Complete f])"
  have fs: "q_futures (invoke_step i st f s) = ?fs" and q: "q_invokers (invoke_step i st f s) = q_invokers s"
    and sts: "q_stacks (invoke_step i st f s) = (q_stacks s)[i := new @ st]"
    by (auto simp: set_stack_def new_def split: task.splits)
  have "tokens (invoke_step i st f s) = tokens s"
  proof (rule move_eqI)
    fix t show "count (tokens (invoke_step i st f s)) t = count (tokens s) t"
      unfolding fs q sts using tokens_stack_step[OF i(1), of ?fs "q_invokers s" "new @ st" t] i(2) f
      by (auto simp: new_def task_tokens_def split: task.splits if_splits)
  qed
  then have tok: "tokens_ok (q_futures (invoke_step i st f s)) (tokens (invoke_step i st f s))"
    using cq_invD(1)[OF inv] fs by simp
  have "\<forall>fr\<in>set new. frame_ok (length ?fs) fr" "\<forall>fr\<in>set (tl new). deep_ok (map fu_task ?fs) fr"
    using cq_invD(4)[OF inv f] f by (auto simp: new_def future_wf_def is_handler_def split: task.splits)
  moreover have "new \<noteq> []" by (simp add: new_def split: task.splits)
  ultimately have "stack_ok ?fs (new @ st)" using ok by (auto simp: stack_ok_def)
  from cq_inv_stack_step[OF inv this fs q sts tok] show ?thesis .
qed

lemma complete_step_inv:
  assumes inv: "cq_inv s" and i: "i < length (q_stacks s)" "q_stacks s ! i = Complete f # st"
  shows "cq_inv (set_stack i (Signal f (fu_dependents (q_futures s ! f)) [] # st) (set_status f READY s))" (is "cq_inv ?s'")
proof -
  let ?fs = "q_futures s" and ?x = "(q_futures s ! f)\<lparr>fu_status := READY\<rparr>" and ?ds = "fu_dependents (q_futures s ! f)"
  have ok: "stack_ok ?fs (Complete f # st)" by (rule stack_ok_of[OF inv i])
  have run: "Trun f \<in># tokens s" using top_token[OF i] by simp
  note f = token_Trun[OF cq_invD(1)[OF inv] run]
  have mv: "tokens ?s' + {#Trun f#} = tokens s"
  proof (rule move_eqI)
    fix t show "count (tokens ?s' + {#Trun f#}) t = count (tokens s) t"
      using tokens_step[of f ?fs ?x i "q_stacks s" "q_invokers s" "Signal f ?ds [] # st" t "q_invokers s"] f i
      by (auto simp: queue_defs future_tokens_eq)
  qed
  have "tokens_ok (q_futures ?s') (tokens ?s')"
    using move_complete[OF cq_invD(1)[OF inv] run mv] by (simp add: queue_defs)
  then show ?thesis using f cq_invD(4)[OF inv, of f] cq_invD(2)[OF inv] ok
    by (intro cq_inv_step[OF inv, of f ?x "q_invokers s" "Signal f ?ds [] # st" _ i])
      (auto simp: queue_defs stack_ok_def future_wf_def)
qed

text \<open>Launching the released invokers.\<close>

lemma launch_loop_shape:
  "launch_loop ls k fs q = (fs', q') \<Longrightarrow>
     q' = map Some (rev ls) @ q \<and> map fu_task fs' = map fu_task fs \<and> map fu_dependents fs' = map fu_dependents fs \<and>
     map fu_high fs' = map fu_high fs"
proof (induction ls arbitrary: k fs q)
  case (Cons f ls)
  let ?fs = "fs[f := (fs ! f)\<lparr>fu_index := k - 1, fu_status := ENQUEUED\<rparr>]"
  have "map fu_task ?fs = map fu_task fs" "map fu_dependents ?fs = map fu_dependents fs" "map fu_high ?fs = map fu_high fs"
    by (simp_all add: map_update list_update_same_conv) (metis list_update_beyond list_update_id map_update not_le nth_map)+
  with Cons.IH[of "k - 1" ?fs "Some f # q"] Cons.prems show ?case by simp
qed simp

lemma launch_loop_induct:
  assumes refl: "\<And>fs. R fs fs" and trans: "\<And>a b c. R a b \<Longrightarrow> R b c \<Longrightarrow> R a c"
    and step: "\<And>fs f k. f < length fs \<Longrightarrow> fu_status (fs ! f) = ON_HOLD \<Longrightarrow> \<not> is_handler (fu_task (fs ! f)) \<Longrightarrow>
      R fs (fs[f := (fs ! f)\<lparr>fu_index := k, fu_status := ENQUEUED\<rparr>])"
  shows "tokens_ok fs (all_tokens fs q sts + mset (map Tlaunch ls)) \<Longrightarrow> launch_loop ls k fs q = (fs', q') \<Longrightarrow>
     tokens_ok fs' (all_tokens fs' q' sts) \<and> R fs fs'"
proof (induction ls arbitrary: k fs q)
  case (Cons f ls)
  let ?x = "(fs ! f)\<lparr>fu_index := k - 1, fu_status := ENQUEUED\<rparr>" and ?T = "all_tokens fs q sts + mset (map Tlaunch (f # ls))"
  have l: "Tlaunch f \<in># ?T" by simp
  note f = token_Tlaunch[OF Cons.prems(1) l]
  have plain: "\<not> is_handler (fu_task (fs ! f))" using tokens_okD[OF Cons.prems(1)] f by (simp add: future_ok_def)
  have "all_tokens (fs[f := ?x]) (Some f # q) sts + mset (map Tq (somes q)) =
      all_tokens (fs[f := ?x]) q sts + mset (map Tq (somes (Some f # q)))"
    by (rule all_tokens_queue)
  moreover have "all_tokens (fs[f := ?x]) q sts + future_tokens (fs ! f) = all_tokens fs q sts + future_tokens ?x"
    using f by (intro all_tokens_future) simp_all
  ultimately have "all_tokens (fs[f := ?x]) (Some f # q) sts = add_mset (Tq f) (all_tokens fs q sts)"
    using f plain by (simp add: future_tokens_eq task_tokens_plain)
  then have "tokens_ok (fs[f := ?x]) (all_tokens (fs[f := ?x]) (Some f # q) sts + mset (map Tlaunch ls))"
    by (intro move_launch[OF Cons.prems(1) l]) simp
  from Cons.IH[OF this] Cons.prems(2) step[of f fs "k - 1"] f plain show ?case by (auto intro: trans)
qed (simp add: refl)

lemma launch_inv:
  assumes inv: "cq_inv s" and i: "i < length (q_stacks s)" "q_stacks s ! i = Signal f [] ls # st"
  shows "cq_inv (set_stack i st (launch ls s))"
proof -
  let ?fs = "q_futures s"
  have ok: "stack_ok ?fs st" using stack_ok_of[OF inv i] by (cases st) (auto simp: stack_ok_def)
  have tok: "all_tokens ?fs (q_invokers s) ((q_stacks s)[i := st]) + mset (map Tlaunch ls) = tokens s"
    using all_tokens_stack[OF i(1), of ?fs "q_invokers s" st] i(2) by (simp add: ac_simps)
  show ?thesis
  proof (cases "ls = []")
    case True
    then show ?thesis using tok cq_invD(1)[OF inv] i ok
      by (intro cq_inv_stack_step[OF inv, of st _ i]) (simp_all add: launch_def set_stack_def)
  next
    case False
    have pf: "pop_front_nullptr (q_invokers s) = q_invokers s" by (rule pop_front_id) (use cq_invD(2)[OF inv] in blast)
    obtain k fs' q' where l: "launch_loop ls k ?fs (q_invokers s) = (fs', q')"
      and s': "launch ls s = s\<lparr>q_futures := fs', q_invokers := q'\<rparr>"
      using False by (fastforce simp: launch_def Let_def pf split: prod.splits)
    note sh = launch_loop_shape[OF l]
    have len: "length fs' = length ?fs" using sh by (metis length_map)
    have "tokens_ok fs' (all_tokens fs' q' ((q_stacks s)[i := st]))"
      using launch_loop_induct[of "\<lambda>a b. True", OF _ _ _ _ l] tok cq_invD(1)[OF inv] by simp
    moreover have "stack_ok fs' u" if "u \<in> set ((q_stacks s)[i := st])" for u
      using that set_update_subset_insert[of "q_stacks s" i st] cq_invD(3)[OF inv] ok stack_ok_mono[of ?fs _ fs'] sh by blast
    moreover have "future_wf (length fs') g (fs' ! g)" if "g < length fs'" for g
    proof -
      have "fu_task (fs' ! g) = fu_task (?fs ! g)" "fu_dependents (fs' ! g) = fu_dependents (?fs ! g)"
        using sh that len by (metis nth_map)+
      then show ?thesis using cq_invD(4)[OF inv, of g] that len by (simp add: future_wf_def)
    qed
    moreover have "q' \<noteq> [] \<and> hd q' \<noteq> None" using sh False by (simp add: hd_map hd_append)
    ultimately show ?thesis unfolding s' cq_inv_def by (simp add: set_stack_def)
  qed
qed

text \<open>Signalling one dependent.\<close>

lemma signal_step_inv:
  assumes inv: "cq_inv s" and i: "i < length (q_stacks s)" "q_stacks s ! i = Signal f (d # ds) ls # st"
  shows "cq_inv (signal_step i st f (d # ds) ls s)"
proof -
  let ?fs = "q_futures s"
  define r where "r = signal_step i st f (d # ds) ls s"
  define x where "x = (?fs ! d)\<lparr>fu_remaining := fu_remaining (?fs ! d) - 1\<rparr>"
  have ok: "stack_ok ?fs (Signal f (d # ds) ls # st)" by (rule stack_ok_of[OF inv i])
  have pend: "Tpend d \<in># tokens s" using top_token[OF i] by simp
  note d = token_Tpend[OF cq_invD(1)[OF inv] pend]
  have deps: "\<forall>g\<in>set (fu_dependents (?fs ! d)). d < g" using cq_invD(4)[OF inv, of d] d by (simp add: future_wf_def)
  have q: "q_invokers s \<noteq> [] \<longrightarrow> hd (q_invokers s) \<noteq> None" using cq_invD(2)[OF inv] by blast
  have step: "all_tokens (?fs[d := y]) (q_invokers s) ((q_stacks s)[i := u]) + {#Tpend d#} + (mset (map Tpend ds) + mset (map Tlaunch ls)) +
      stack_tokens (map fu_task ?fs) st = tokens s + stack_tokens (map fu_task ?fs) u"
    if "y = x \<or> y = x\<lparr>fu_status := RUNNING\<rparr>" for y u
    by (rule move_eqI2[OF tokens_step_eq[of d ?fs y i "q_stacks s" "q_invokers s" u "q_invokers s"]])
      (use d i that in \<open>auto simp: x_def future_tokens_eq split: if_splits\<close>)
  consider (quiet) "\<not> (fu_status (?fs ! d) = ON_HOLD \<and> fu_remaining (?fs ! d) = 1)"
    | (high) "fu_status (?fs ! d) = ON_HOLD \<and> fu_remaining (?fs ! d) = 1" "fu_high (?fs ! d)"
    | (low) "fu_status (?fs ! d) = ON_HOLD \<and> fu_remaining (?fs ! d) = 1" "\<not> fu_high (?fs ! d)"
    by blast
  then have "cq_inv r"
  proof cases
    case quiet
    then have s': "r = set_stack i (Signal f ds ls # st) (upd_future d (\<lambda>_. x) s)"
      using d by (auto simp: r_def queue_defs x_def Let_def)
    have mv: "tokens r + {#Tpend d#} = tokens s"
      by (rule move_eqI2[OF step[OF disjI1[OF refl], of "Signal f ds ls # st"]]) (auto simp: s' queue_defs split: if_splits)
    have "tokens_ok (q_futures r) (tokens r)"
      using move_signal[OF cq_invD(1)[OF inv] pend quiet mv] by (simp add: s' queue_defs x_def)
    then show ?thesis using d deps q ok
      by (intro cq_inv_step[OF inv, of d x "q_invokers s" "Signal f ds ls # st" _ i]) (auto simp: s' queue_defs x_def stack_ok_def)
  next
    case high
    then have s': "r =
        set_stack i (Invoke d # Signal f ds ls # st) (upd_future d (\<lambda>_. x\<lparr>fu_status := RUNNING\<rparr>) s)"
      using d by (auto simp: r_def queue_defs x_def Let_def)
    have plain: "\<not> is_handler (fu_task (?fs ! d))" using tokens_okD[OF cq_invD(1)[OF inv]] d high by (simp add: future_ok_def)
    have mv: "tokens r + {#Tpend d#} = tokens s + {#Trun d#}"
      by (rule move_eqI2[OF step[OF disjI2[OF refl], of "Invoke d # Signal f ds ls # st"]]) (use d plain in \<open>auto simp: s' queue_defs task_tokens_plain split: if_splits\<close>)
    have "tokens_ok (q_futures r) (tokens r)"
      using move_signal_run[OF cq_invD(1)[OF inv] pend high(1) mv] by (simp add: s' queue_defs x_def)
    then show ?thesis using d deps q ok
      by (intro cq_inv_step[OF inv, of d "x\<lparr>fu_status := RUNNING\<rparr>" "q_invokers s" "Invoke d # Signal f ds ls # st" _ i])
        (auto simp: s' queue_defs x_def stack_ok_def)
  next
    case low
    then have s': "r = set_stack i (Signal f ds (ls @ [d]) # st) (upd_future d (\<lambda>_. x) s)"
      using d by (auto simp: r_def queue_defs x_def Let_def)
    have mv: "tokens r + {#Tpend d#} = tokens s + {#Tlaunch d#}"
      by (rule move_eqI2[OF step[OF disjI1[OF refl], of "Signal f ds (ls @ [d]) # st"]]) (auto simp: s' queue_defs split: if_splits)
    have "tokens_ok (q_futures r) (tokens r)"
      using move_signal_launch[OF cq_invD(1)[OF inv] pend low(1) mv] by (simp add: s' queue_defs x_def)
    then show ?thesis using d deps q ok
      by (intro cq_inv_step[OF inv, of d x "q_invokers s" "Signal f ds (ls @ [d]) # st" _ i]) (auto simp: s' queue_defs x_def stack_ok_def)
  qed  then show ?thesis by (simp only: r_def)
qed

text \<open>Registering with the priors.\<close>

lemma handle_step_inv:
  assumes inv: "cq_inv s" and i: "i < length (q_stacks s)" "q_stacks s ! i = Handle ps g # st"
    and step: "handle_step i st ps g s = Some s'"
  shows "cq_inv s'"
proof -
  let ?fs = "q_futures s"
  have ok: "stack_ok ?fs (Handle ps g # st)" by (rule stack_ok_of[OF inv i])
  have han: "Thandle g \<in># tokens s" using top_token[OF i] by simp
  note g = token_Thandle[OF cq_invD(1)[OF inv] han]
  have plain: "\<not> is_handler (fu_task (?fs ! g))" using tokens_okD[OF cq_invD(1)[OF inv]] g by (simp add: future_ok_def)
  have q: "q_invokers s \<noteq> [] \<longrightarrow> hd (q_invokers s) \<noteq> None" using cq_invD(2)[OF inv] by blast
  have deps: "\<forall>d\<in>set (fu_dependents (?fs ! g)). g < d" using cq_invD(4)[OF inv, of g] g by (simp add: future_wf_def)
  show ?thesis
  proof (cases ps)
    case Nil
    define x where "x = (?fs ! g)\<lparr>fu_status := (if fu_remaining (?fs ! g) \<noteq> 0 then ON_HOLD else RUNNING)\<rparr>"
    define new where "new = (if fu_remaining (?fs ! g) \<noteq> 0 then st else Invoke g # st)"
    have s': "s' = set_stack i new (upd_future g (\<lambda>_. x) s)"
      using step Nil g by (auto simp: queue_defs x_def new_def split: if_splits)
    have cnt: "tokens s' + {#Thandle g#} + stack_tokens (map fu_task ?fs) st = tokens s + stack_tokens (map fu_task ?fs) new"
      by (rule move_eqI2[OF tokens_step_eq[of g ?fs x i "q_stacks s" "q_invokers s" new "q_invokers s"]])
        (use g i in \<open>auto simp: s' queue_defs x_def future_tokens_eq split: if_splits\<close>)
    have "tokens_ok (q_futures s') (tokens s')"
    proof (cases "fu_remaining (?fs ! g) = 0")
      case True
      have mv: "tokens s' + {#Thandle g#} = tokens s + {#Trun g#}"
        by (rule move_eqI2[OF cnt]) (use True g plain in \<open>auto simp: new_def task_tokens_plain split: if_splits\<close>)
      show ?thesis using move_start[OF cq_invD(1)[OF inv] han True mv] True by (simp add: s' queue_defs x_def)
    next
      case False
      have mv: "tokens s' + {#Thandle g#} = tokens s"
        by (rule move_eqI2[OF cnt]) (use False in \<open>auto simp: new_def split: if_splits\<close>)
      show ?thesis using move_hold[OF cq_invD(1)[OF inv] han False mv] False by (simp add: s' queue_defs x_def)
    qed
    moreover have "stack_ok ?fs new" using ok by (cases st) (auto simp: new_def stack_ok_def)
    ultimately show ?thesis using g deps q
      by (intro cq_inv_step[OF inv, of g x "q_invokers s" new _ i]) (auto simp: s' queue_defs x_def)
  next
    case (Cons p qs)
    have pg: "p < g" "\<forall>p\<in>set qs. p < g" using ok Cons by (auto simp: stack_ok_def)
    show ?thesis
    proof (cases "status_of s p = READY")
      case True
      with step Cons have s': "s' = set_stack i (Handle qs g # st) s" by simp
      have "tokens s' = tokens s"
        by (rule move_eqI2[OF all_tokens_stack[OF i(1), of ?fs "q_invokers s" "Handle qs g # st"]]) (use i in \<open>auto simp: s' set_stack_def split: if_splits\<close>)
      then show ?thesis using cq_invD(1)[OF inv] ok Cons
        by (intro cq_inv_stack_step[OF inv, of "Handle qs g # st" _ i]) (auto simp: s' set_stack_def stack_ok_def)
    next
      case False
      define x where "x = (?fs ! p)\<lparr>fu_dependents := fu_dependents (?fs ! p) @ [g]\<rparr>"
      from False step Cons have s': "s' = set_stack i (Count qs g # st) (upd_future p (\<lambda>_. x) s)"
        by (auto simp: x_def upd_future_def fu_updates split: if_splits)
      have p: "p < length ?fs" using pg g by simp
      have mv: "tokens s' + {#Thandle g#} = tokens s + {#Tcnt g, Tpend g#}"
        by (rule move_eqI2[OF tokens_step_eq[of p ?fs x i "q_stacks s" "q_invokers s" "Count qs g # st" "q_invokers s"]]) (use p i False Cons in \<open>auto simp: s' queue_defs x_def future_tokens_eq split: if_splits\<close>)
      have "tokens_ok (q_futures s') (tokens s')"
        using tokens_ok_same[OF move_register[OF cq_invD(1)[OF inv] han mv] p, of x] by (simp add: s' queue_defs x_def)
      moreover have "\<forall>d\<in>set (fu_dependents x). p < d"
        using cq_invD(4)[OF inv p] pg by (auto simp: x_def future_wf_def)
      ultimately show ?thesis using p q ok Cons
        by (intro cq_inv_step[OF inv, of p x "q_invokers s" "Count qs g # st" _ i]) (auto simp: s' queue_defs x_def stack_ok_def)
    qed
  qed
qed

lemma count_step_inv:
  assumes inv: "cq_inv s" and i: "i < length (q_stacks s)" "q_stacks s ! i = Count ps g # st"
  shows "cq_inv (set_stack i (Handle ps g # st) (add_remaining g 1 s))" (is "cq_inv ?s'")
proof -
  let ?fs = "q_futures s"
  define x where "x = (?fs ! g)\<lparr>fu_remaining := fu_remaining (?fs ! g) + 1\<rparr>"
  have ok: "stack_ok ?fs (Count ps g # st)" by (rule stack_ok_of[OF inv i])
  have cnt: "Tcnt g \<in># tokens s" using top_token[OF i] by simp
  note g = token_Tcnt[OF cq_invD(1)[OF inv] cnt]
  have mv: "tokens ?s' + {#Tcnt g#} = tokens s + {#Thandle g#}"
    by (rule move_eqI2[OF tokens_step_eq[of g ?fs x i "q_stacks s" "q_invokers s" "Handle ps g # st" "q_invokers s"]]) (use g i in \<open>auto simp: queue_defs x_def future_tokens_eq split: if_splits\<close>)
  have "tokens_ok (q_futures ?s') (tokens ?s')"
    using move_count[OF cq_invD(1)[OF inv] cnt mv] by (simp add: queue_defs)
  then show ?thesis using g cq_invD(4)[OF inv, of g] cq_invD(2)[OF inv] ok
    by (intro cq_inv_step[OF inv, of g x "q_invokers s" "Handle ps g # st" _ i])
      (auto simp: queue_defs x_def stack_ok_def future_wf_def)
qed

text \<open>The loop of \<open>wait\<close>.\<close>

lemma plain_stack_inv:
  assumes inv: "cq_inv s" and i: "i < length (q_stacks s)"
    and tok: "stack_tokens (map fu_task (q_futures s)) st = stack_tokens (map fu_task (q_futures s)) (q_stacks s ! i)"
    and ok: "stack_ok (q_futures s) st"
  shows "cq_inv (set_stack i st s)"
proof -
  have "tokens (set_stack i st s) = tokens s"
    using all_tokens_stack[OF i, of "q_futures s" "q_invokers s" st] tok by (simp add: set_stack_def)
  then show ?thesis using cq_invD(1)[OF inv] ok
    by (intro cq_inv_stack_step[OF inv, of st _ i]) (simp_all add: set_stack_def)
qed

lemma stack_ok_tl: "stack_ok fs (fr # st) \<Longrightarrow> stack_ok fs st"
  by (cases st) (auto simp: stack_ok_def)

lemma future_tokens_new: "future_tokens (new_future CONSTRUCTING t) = {#}" "future_tokens (new_future ENQUEUED t) = task_tokens t"
  by (simp_all add: future_tokens_eq new_future_def)

lemma invoke_bound:
  assumes "cq_inv s" "st \<in> set (q_stacks s)" "Invoke f \<in> set st"
  shows "f < length (q_futures s)"
  using token_Trun[OF cq_invD(1)[OF assms(1)] frame_token_in[OF assms(2,3), of "Trun f" "q_futures s" "q_invokers s"]]
  by simp

lemma frame_ok_mono: "frame_ok n fr \<Longrightarrow> n \<le> m \<Longrightarrow> frame_ok m fr"
  by (cases fr) (auto dest!: bspec intro: less_le_trans)

lemma stack_ok_new:
  assumes inv: "cq_inv s" and u: "u \<in> set (q_stacks s)"
  shows "stack_ok (q_futures s @ xs) u"
proof -
  have ok: "stack_ok (q_futures s) u" by (rule cq_invD(3)[OF inv u])
  have "deep_ok (map fu_task (q_futures s @ xs)) fr" if fr: "fr \<in> set (tl u)" for fr
  proof -
    have "deep_ok (map fu_task (q_futures s)) fr" using ok fr by (simp add: stack_ok_def)
    moreover have "f < length (q_futures s)" if "fr = Complete f" for f
      using token_Trun[OF cq_invD(1)[OF inv] frame_token_in[OF u, of fr "Trun f"]] fr that by (cases u) auto
    ultimately show ?thesis by (cases fr) (auto simp: nth_append)
  qed
  then show ?thesis using ok frame_ok_mono[of "length (q_futures s)" _ "length (q_futures s @ xs)"]
    unfolding stack_ok_def by auto
qed

lemma future_wf_mono: "future_wf n f fu \<Longrightarrow> n \<le> m \<Longrightarrow> future_wf m f fu"
  unfolding future_wf_def by (meson less_le_trans)

lemma cq_inv_new_future:
  assumes inv: "cq_inv s" and wf: "future_wf (Suc (length (q_futures s))) (length (q_futures s)) x"
    and mv: "T = tokens s + B" "\<And>t. t \<in># B \<Longrightarrow> token_future t = length (q_futures s)" "future_ok B x (length (q_futures s))"
    and q: "q' \<noteq> [] \<longrightarrow> hd q' \<noteq> None"
    and s': "q_futures s' = q_futures s @ [x]" "q_invokers s' = q'" "q_stacks s' = q_stacks s" "T = tokens s'"
  shows "cq_inv s'"
proof -
  let ?fs = "q_futures s"
  have tok: "tokens_ok (q_futures s') (tokens s')"
    using tokens_ok_new[OF cq_invD(1)[OF inv] mv] s' by simp
  have st: "stack_ok (?fs @ [x]) u" if "u \<in> set (q_stacks s)" for u
    by (rule stack_ok_new[OF inv that])
  have "future_wf (Suc (length ?fs)) g (?fs ! g)" if "g < length ?fs" for g
    by (rule future_wf_mono[OF cq_invD(4)[OF inv that]]) simp
  with wf have "future_wf (length (q_futures s')) g (q_futures s' ! g)" if "g < length (q_futures s')" for g
    using that by (auto simp: s' nth_append less_Suc_eq)
  with tok q st s' show ?thesis unfolding cq_inv_def by (simp add: s'(1))
qed

lemma empty_frame: "frame_tokens tk fr = {#} \<Longrightarrow> frame_tokens tk' fr = {#}"
  by (cases fr) auto

lemma empty_stack: "stack_tokens tk st = {#} \<longleftrightarrow> (\<forall>fr\<in>set st. frame_tokens tk fr = {#})"
  by (induction st) auto

lemma empty_stack_any: "stack_tokens tk st = {#} \<Longrightarrow> stack_tokens tk' st = {#}"
  unfolding empty_stack using empty_frame by blast

lemma cq_inv_constructing:
  assumes inv: "cq_inv s" and t: "\<not> is_handler t"
    and s': "q_futures s' = q_futures s @ [(new_future CONSTRUCTING t)\<lparr>fu_high := h\<rparr>]"
      "q_invokers s' = q_invokers s" "q_stacks s' = (q_stacks s)[i := Handle ps (length (q_futures s)) # st]"
    and i: "i < length (q_stacks s)" "stack_tokens (map fu_task (q_futures s)) (q_stacks s ! i) = {#}"
      "stack_tokens (map fu_task (q_futures s')) st = {#}" "stack_ok (q_futures s @ [(new_future CONSTRUCTING t)\<lparr>fu_high := h\<rparr>]) (Handle ps (length (q_futures s)) # st)"
  shows "cq_inv s'"
proof -
  let ?n = "length (q_futures s)" and ?x = "(new_future CONSTRUCTING t)\<lparr>fu_high := h\<rparr>"
  have ft: "future_tokens ?x = {#}" by (simp add: future_tokens_eq new_future_def)
  have "all_tokens (q_futures s @ [?x]) (q_invokers s) (q_stacks s) = tokens s"
    using all_tokens_new[of "q_stacks s" "q_futures s" ?x "q_invokers s"] invoke_bound[OF inv] ft by simp
  moreover have "stack_tokens (map fu_task (q_futures s @ [?x])) (q_stacks s ! i) = {#}"
    using i(2) by (rule empty_stack_any)
  ultimately have tok: "tokens s' = tokens s + {#Thandle ?n#}"
    using all_tokens_stack[OF i(1), of "q_futures s @ [?x]" "q_invokers s" "Handle ps ?n # st"] i(3) s' by simp
  have "tokens_ok (q_futures s') (tokens s')"
    using tokens_ok_new[OF cq_invD(1)[OF inv] tok, of ?x] t s'(1) by (simp add: future_ok_def new_future_def)
  moreover have "stack_ok (q_futures s') u" if "u \<in> set (q_stacks s')" for u
    using stack_ok_new[OF inv, of _ "[?x]"] that i(4) set_update_subset_insert[of "q_stacks s" i "Handle ps ?n # st"] s'(1,3) by auto
  moreover have "future_wf (length (q_futures s')) g (q_futures s' ! g)" if "g < length (q_futures s')" for g
  proof (cases "g = ?n")
    case True
    then show ?thesis using t by (auto simp: s'(1) future_wf_def new_future_def is_handler_def)
  next
    case False
    then have "g < ?n" using that s'(1) by simp
    then show ?thesis using future_wf_mono[OF cq_invD(4)[OF inv], of g] s'(1) by (simp add: nth_append)
  qed
  ultimately show ?thesis using cq_invD(2)[OF inv] s'(2) unfolding cq_inv_def by auto
qed

lemma scan_step_inv:
  assumes inv: "cq_inv s" and i: "i < length (q_stacks s)" "q_stacks s ! i = Scan qs ps flag # st"
    and empty: "stack_tokens (map fu_task (q_futures s)) st = {#}"
  shows "cq_inv (scan_step i st qs ps flag s)"
proof -
  let ?fs = "q_futures s"
  have ok: "stack_ok ?fs (Scan qs ps flag # st)" by (rule stack_ok_of[OF inv i])
  show ?thesis
  proof (cases qs)
    case (Cons p rs)
    show ?thesis using plain_stack_inv[OF inv i(1), of "Try p rs ps flag # st"] plain_stack_inv[OF inv i(1), of "Scan rs ps flag # st"]
        plain_stack_inv[OF inv i(1), of "Scan rs ps True # st"] ok i(2) Cons
      by (cases "status_of s p") (auto simp: stack_ok_def)
  next
    case Nil
    show ?thesis
    proof (cases "\<not> flag \<or> \<not> must_wait ps s")
      case True
      then show ?thesis using plain_stack_inv[OF inv i(1), of st] i(2) Nil stack_ok_tl[OF ok] by simp
    next
      case False
      let ?e = "length ?fs" and ?x = "(new_future CONSTRUCTING Empty_lambda)\<lparr>fu_high := True\<rparr>"
      have "Scan qs ps flag # st \<in> set (q_stacks s)" using i by (metis nth_mem)
      then have "stack_ok (?fs @ [?x]) (Scan qs ps flag # st)" by (rule stack_ok_new[OF inv])
      then have "stack_ok (?fs @ [?x]) (Handle ps ?e # Block ps ?e # st)"
        using ok by (auto simp: stack_ok_def)
      moreover have "stack_tokens (map fu_task (?fs @ [?x])) (Block ps ?e # st) = {#}"
        using empty_stack_any[OF empty] by simp
      ultimately show ?thesis using False Nil i empty
        by (intro cq_inv_constructing[OF inv, of Empty_lambda _ True i ps "Block ps ?e # st"])
          (auto simp: set_stack_def is_handler_def Let_def)
    qed
  qed
qed

lemma try_invoke_inv:
  assumes inv: "cq_inv s" and i: "i < length (q_stacks s)" "q_stacks s ! i = Try p qs ps flag # st"
    and step: "frame_step i st (Try p qs ps flag) s = Some s'"
  shows "cq_inv s'"
proof -
  let ?fs = "q_futures s" and ?q = "q_invokers s"
  have ok: "stack_ok ?fs (Try p qs ps flag # st)" by (rule stack_ok_of[OF inv i])
  have pf: "pop_front_nullptr ?q = ?q" by (rule pop_front_id) (use cq_invD(2)[OF inv] in blast)
  obtain b s1 where t: "try_invoke p s = (b, s1)" by fastforce
  show ?thesis
  proof (cases b)
    case False
    then have "s1 = s" using t by (auto simp: try_invoke_def pf Let_def split: if_splits)
    with step t False have "s' = set_stack i (Scan qs ps True # st) s" by simp
    then show ?thesis using plain_stack_inv[OF inv i(1), of "Scan qs ps True # st"] ok i(2) by (auto simp: stack_ok_def)
  next
    case True
    let ?k = "fu_index (?fs ! p) - fu_index (?fs ! the (hd ?q))" and ?x = "(?fs ! p)\<lparr>fu_status := RUNNING\<rparr>"
    define q' where "q' = (if ?k = 0 then pop_front_nullptr (tl ?q) else ?q[nat ?k := None])"
    have st: "status_of s p = ENQUEUED" and k: "0 \<le> ?k" "nat ?k < length ?q" "?q ! nat ?k = Some p"
      and s1: "s1 = set_status p RUNNING (s\<lparr>q_invokers := q'\<rparr>)"
      using t True by (auto simp: try_invoke_def pf Let_def q'_def split: if_splits)
    with step t True have s': "s' = set_stack i (Invoke p # Scan qs ps flag # st) (set_status p RUNNING (s\<lparr>q_invokers := q'\<rparr>))" by simp
    have Tq: "Tq p \<in># tokens s" using k by (intro queue_token_in) (metis nth_mem)
    note p = token_Tq[OF cq_invD(1)[OF inv] Tq]
    have split: "mset (somes r) = mset (somes (r[j := None])) + {#p#}" if "j < length r" "r ! j = Some p" for r :: "nat option list" and j
      using that
    proof (induction r arbitrary: j)
      case (Cons y r)
      then show ?case by (cases j; cases y) auto
    qed simp
    have q': "mset (somes ?q) = mset (somes q') + {#p#}"
    proof (cases "?k = 0")
      case True
      with k obtain r where "?q = Some p # r" by (cases ?q) auto
      then show ?thesis by (simp add: q'_def True)
    next
      case False
      then show ?thesis unfolding q'_def using split[OF k(2,3)] by simp
    qed
    have hd: "q' \<noteq> [] \<longrightarrow> hd q' \<noteq> None"
    proof (cases "?k = 0")
      case True
      then show ?thesis using hd_pop_front[of "tl ?q"] by (simp add: q'_def)
    next
      case False
      with k(1) have "nat ?k \<noteq> 0" by simp
      then have "hd q' = hd ?q" using False k(2) by (cases ?q) (auto simp: q'_def split: nat.split)
      moreover have "?q \<noteq> []" using k(2) by auto
      ultimately show ?thesis using cq_invD(2)[OF inv] by simp
    qed
    have mv: "tokens s' + {#Tq p#} = tokens s + {#Trun p#}"
    proof (rule move_eqI2[OF tokens_step_eq[of p ?fs ?x i "q_stacks s" q' "Invoke p # Scan qs ps flag # st" ?q]])
      have "count (image_mset Tq (mset (somes ?q))) t = count (image_mset Tq (mset (somes q'))) t + count {#Tq p#} t" for t
        using q' by simp
      moreover fix t assume "count (all_tokens (?fs[p := ?x]) q' ((q_stacks s)[i := Invoke p # Scan qs ps flag # st]) + future_tokens (?fs ! p) +
          mset (map Tq (somes ?q)) + stack_tokens (map fu_task ?fs) (q_stacks s ! i)) t =
        count (tokens s + future_tokens ?x + mset (map Tq (somes q')) + stack_tokens (map fu_task ?fs) (Invoke p # Scan qs ps flag # st)) t"
      ultimately show "count (tokens s' + {#Tq p#}) t = count (tokens s + {#Trun p#}) t"
        using p i by (auto simp: s' queue_defs future_tokens_eq split: if_splits)
    qed (use p i in simp_all)
    have "tokens_ok (q_futures s') (tokens s')"
      using move_run[OF cq_invD(1)[OF inv] Tq mv] by (simp add: s' queue_defs)
    then show ?thesis using p cq_invD(4)[OF inv, of p] hd ok
      by (intro cq_inv_step[OF inv, of p ?x q' "Invoke p # Scan qs ps flag # st" _ i])
        (auto simp: s' queue_defs stack_ok_def future_wf_def)
  qed
qed

section \<open>Calls\<close>

lemma enqueue_back_inv:
  assumes inv: "cq_inv s" and t: "\<not> is_handler t"
  shows "cq_inv (enqueue_back t s)"
proof -
  let ?n = "length (q_futures s)" and ?x = "(new_future ENQUEUED t)\<lparr>fu_index := back_invoker_index (q_futures s) (q_invokers s) + 1\<rparr>"
  let ?q = "q_invokers s @ [Some (length (q_futures s))]"
  have "all_tokens (q_futures s @ [?x]) (q_invokers s) (q_stacks s) = tokens s"
    using all_tokens_new[of "q_stacks s" "q_futures s" ?x "q_invokers s"] invoke_bound[OF inv] t
    by (simp add: future_tokens_eq new_future_def task_tokens_plain)
  then have "all_tokens (q_futures s @ [?x]) ?q (q_stacks s) = tokens s + {#Tq ?n#}"
    using all_tokens_queue[of "q_futures s @ [?x]" ?q "q_stacks s" "q_invokers s"] by simp
  moreover have "hd ?q \<noteq> None" using cq_invD(2)[OF inv] by (cases "q_invokers s") auto
  ultimately show ?thesis using t
    by (intro cq_inv_new_future[OF inv, of ?x _ "{#Tq ?n#}" ?q])
      (auto simp: enqueue_back_def future_wf_def future_ok_def new_future_def is_handler_def)
qed

lemma push_dependent_inv:
  assumes inv: "cq_inv s" and ps: "\<forall>p\<in>set ps. p < length (q_futures s)"
  shows "cq_inv (push_dependent ps v s)"
proof (cases "must_wait ps s")
  case False
  then show ?thesis using enqueue_back_inv[OF inv, of "Task v"] by (simp add: push_dependent_def is_handler_def)
next
  case True
  let ?n = "length (q_futures s)" and ?x = "new_future CONSTRUCTING (Task v)"
  define k where "k = back_invoker_index (q_futures s @ [?x]) (q_invokers s) + 1"
  let ?y = "(new_future ENQUEUED (Handle_dependent ps ?n))\<lparr>fu_index := k\<rparr>"
  let ?q = "q_invokers s @ [Some (Suc ?n)]"
  define s' where "s' = push_dependent ps v s"
  have s': "q_futures s' = (q_futures s @ [?x]) @ [?y]" "q_invokers s' = ?q" "q_stacks s' = q_stacks s"
    using True by (simp_all add: s'_def push_dependent_def enqueue_back_def k_def)
  have "all_tokens (q_futures s @ [?x]) (q_invokers s) (q_stacks s) = tokens s"
    using all_tokens_new[of "q_stacks s" "q_futures s" ?x "q_invokers s"] invoke_bound[OF inv]
    by (simp add: future_tokens_new)
  then have "all_tokens ((q_futures s @ [?x]) @ [?y]) (q_invokers s) (q_stacks s) = tokens s + {#Thandle ?n#}"
    using all_tokens_new[of "q_stacks s" "q_futures s @ [?x]" ?y "q_invokers s"] invoke_bound[OF inv]
    by (fastforce simp: future_tokens_eq new_future_def task_tokens_def less_SucI)
  then have tok: "tokens s' = (tokens s + {#Thandle ?n#}) + {#Tq (Suc ?n)#}"
    using all_tokens_queue[of "(q_futures s @ [?x]) @ [?y]" ?q "q_stacks s" "q_invokers s"] by (simp add: s')
  have "tokens_ok (q_futures s @ [?x]) (tokens s + {#Thandle ?n#})"
    by (intro tokens_ok_new[OF cq_invD(1)[OF inv] refl]) (auto simp: future_ok_def new_future_def is_handler_def)
  from tokens_ok_new[OF this tok, of ?y] have "tokens_ok (q_futures s') (tokens s')"
    by (simp add: s'(1) future_ok_def new_future_def)
  moreover have "stack_ok (q_futures s') u" if "u \<in> set (q_stacks s')" for u
    using stack_ok_new[OF inv, of u "[?x, ?y]"] that by (simp add: s')
  moreover have "future_wf (length (q_futures s')) g (q_futures s' ! g)" if "g < length (q_futures s')" for g
  proof -
    have "g < Suc (Suc ?n)" using that by (simp add: s'(1))
    then consider "g < ?n" | "g = ?n" | "g = Suc ?n" by (auto simp: less_Suc_eq)
    then show ?thesis
    proof cases
      case 1
      then show ?thesis using future_wf_mono[OF cq_invD(4)[OF inv 1]] by (simp add: s'(1) nth_append)
    next
      case 2
      then show ?thesis by (simp add: s'(1) nth_append new_future_def future_wf_def)
    next
      case 3
      then show ?thesis using ps by (simp add: s'(1) nth_append new_future_def future_wf_def)
    qed
  qed
  moreover have "hd ?q \<noteq> None" using cq_invD(2)[OF inv] by (cases "q_invokers s") auto
  ultimately show ?thesis unfolding s'_def[symmetric] cq_inv_def by (auto simp: s'(2))
qed

end
