(* ===== verification/Callback_Threads.thy ===== *)
theory Callback_Threads
  imports Callback_Invariant
begin

text \<open>
  The shape of the stacks of clients and workers, and the preservation of the invariant by every step of a
  thread and every call of a client.
\<close>

section \<open>The shape of the stacks\<close>

text \<open>
  A client is outside of a call or in one, whose record is the lowest of its stack; a worker has left its loop
  or has only the records of the invokers it runs.
\<close>

fun is_work :: "frame \<Rightarrow> bool" where
  "is_work (Scan qs ps flag) = False"
| "is_work (Try p qs ps flag) = False"
| "is_work (Block ps e) = False"
| "is_work Join = False"
| "is_work Exited = False"
| "is_work _ = True"

definition client_stack :: "frame list \<Rightarrow> bool" where
  "client_stack st \<longleftrightarrow> st = [] \<or> (\<not> is_work (last st) \<and> last st \<noteq> Exited \<and> (\<forall>fr\<in>set (butlast st). is_work fr))"

definition worker_stack :: "frame list \<Rightarrow> bool" where
  "worker_stack st \<longleftrightarrow> st = [Exited] \<or> (\<forall>fr\<in>set st. is_work fr)"

definition shape_inv :: "cq \<Rightarrow> bool" where
  "shape_inv s \<longleftrightarrow> (\<forall>i<length (q_stacks s). if i < q_clients s then client_stack (q_stacks s ! i) else worker_stack (q_stacks s ! i))"

lemma client_stack_Cons: "client_stack (fr # st) \<longleftrightarrow> (if st = [] then \<not> is_work fr \<and> fr \<noteq> Exited else is_work fr \<and> client_stack st)"
  by (auto simp: client_stack_def)

lemma worker_stack_Cons: "worker_stack (fr # st) \<longleftrightarrow> (fr = Exited \<and> st = []) \<or> (is_work fr \<and> (\<forall>fr\<in>set st. is_work fr))"
  by (auto simp: worker_stack_def)

text \<open>A step of the top record replaces it by records of the same kind.\<close>

definition same_threads :: "nat \<Rightarrow> frame list \<Rightarrow> cq \<Rightarrow> cq \<Rightarrow> bool" where
  "same_threads i st s s' \<longleftrightarrow> q_stacks s' = (q_stacks s)[i := st] \<and> q_clients s' = q_clients s \<and> q_destroying s' = q_destroying s"

lemma launch_threads: "q_stacks (launch ls s) = q_stacks s" "q_clients (launch ls s) = q_clients s" "q_destroying (launch ls s) = q_destroying s"
  "q_ran (launch ls s) = q_ran s"
  by (simp_all add: launch_def Let_def split: prod.splits)

lemma try_invoke_threads:
  "try_invoke p s = (b, s') \<Longrightarrow> q_stacks s' = q_stacks s \<and> q_clients s' = q_clients s \<and> q_destroying s' = q_destroying s \<and> q_ran s' = q_ran s"
  by (auto simp: try_invoke_def Let_def set_status_def upd_future_def split: if_splits)

text \<open>The records a step of \<open>fr\<close> can leave on top.\<close>

lemma frame_step_threads:
  assumes "frame_step i st fr s = Some s'"
  shows "\<exists>top. same_threads i (top @ st) s s' \<and> Join \<notin> set top \<and>
    (if is_work fr then \<forall>f\<in>set top. is_work f
     else top = [] \<or> (\<not> is_work (last top) \<and> last top \<noteq> Exited \<and> (\<forall>f\<in>set (butlast top). is_work f)))"
proof (cases fr)
  case (Invoke f)
  define top where "top = (case fu_task (q_futures s ! f) of Handle_dependent ps g \<Rightarrow> [Handle ps g, Complete f] | _ \<Rightarrow> [Complete f])"
  have "same_threads i (top @ st) s s'"
    using assms Invoke by (cases "fu_task (q_futures s ! f)") (auto simp: same_threads_def set_stack_def top_def)
  moreover have "(\<forall>f\<in>set top. is_work f) \<and> Join \<notin> set top" by (simp add: top_def split: task.splits)
  ultimately show ?thesis using Invoke by auto
next
  case (Complete f)
  with assms show ?thesis
    by (intro exI[of _ "[Signal f (fu_dependents (q_futures s ! f)) []]"]) (auto simp: same_threads_def queue_defs)
next
  case (Signal f ds ls)
  show ?thesis
  proof (cases ds)
    case Nil
    with Signal assms show ?thesis by (intro exI[of _ "[]"]) (auto simp: same_threads_def set_stack_def launch_threads)
  next
    case (Cons d ds')
    let ?s1 = "add_remaining d (-1) s"
    have "\<exists>top\<in>{[Invoke d, Signal f ds' ls], [Signal f ds' (ls @ [d])], [Signal f ds' ls]}. same_threads i (top @ st) s s'"
      using assms Signal Cons by (auto simp: same_threads_def queue_defs Let_def split: if_splits)
    then obtain tp where "tp \<in> {[Invoke d, Signal f ds' ls], [Signal f ds' (ls @ [d])], [Signal f ds' ls]}" "same_threads i (tp @ st) s s'" by blast
    with Signal show ?thesis by (intro exI[of _ tp]) auto
  qed
next
  case (Handle ps g)
  show ?thesis
  proof (cases ps)
    case Nil
    have "\<exists>top\<in>{[], [Invoke g]}. same_threads i (top @ st) s s'"
      using assms Handle Nil by (auto simp: same_threads_def queue_defs split: if_splits)
    then obtain tp where "tp \<in> {[], [Invoke g]}" "same_threads i (tp @ st) s s'" by blast
    with Handle show ?thesis by (intro exI[of _ tp]) auto
  next
    case (Cons p qs)
    have "\<exists>top\<in>{[Handle qs g], [Count qs g]}. same_threads i (top @ st) s s'"
      using assms Handle Cons by (auto simp: same_threads_def queue_defs split: if_splits)
    then obtain tp where "tp \<in> {[Handle qs g], [Count qs g]}" "same_threads i (tp @ st) s s'" by blast
    with Handle show ?thesis by (intro exI[of _ tp]) auto
  qed
next
  case (Count ps g)
  with assms show ?thesis by (intro exI[of _ "[Handle ps g]"]) (auto simp: same_threads_def queue_defs)
next
  case (Scan qs ps flag)
  have "\<exists>top\<in>{[], [Handle ps (length (q_futures s)), Block ps (length (q_futures s))], [Try (hd qs) (tl qs) ps flag],
      [Scan (tl qs) ps flag], [Scan (tl qs) ps True]}. same_threads i (top @ st) s s'"
    using assms Scan by (cases qs) (auto simp: same_threads_def set_stack_def Let_def split: if_splits status.splits)
    then obtain tp where "tp \<in> {[], [Handle ps (length (q_futures s)), Block ps (length (q_futures s))], [Try (hd qs) (tl qs) ps flag],
      [Scan (tl qs) ps flag], [Scan (tl qs) ps True]}" "same_threads i (tp @ st) s s'" by blast
  with Scan show ?thesis by (intro exI[of _ tp]) auto
next
  case (Try p qs ps flag)
  obtain b s1 where t: "try_invoke p s = (b, s1)" by fastforce
  have "\<exists>top\<in>{[Invoke p, Scan qs ps flag], [Scan qs ps True]}. same_threads i (top @ st) s s'"
    using assms Try t try_invoke_threads[OF t] by (cases b) (auto simp: same_threads_def set_stack_def)
    then obtain tp where "tp \<in> {[Invoke p, Scan qs ps flag], [Scan qs ps True]}" "same_threads i (tp @ st) s s'" by blast
  with Try show ?thesis by (intro exI[of _ tp]) auto
next
  case (Block ps e)
  with assms show ?thesis by (intro exI[of _ "[]"]) (auto simp: same_threads_def set_stack_def split: if_splits)
next
  case Join
  with assms show ?thesis by (intro exI[of _ "[]"]) (auto simp: same_threads_def set_stack_def split: if_splits)
next
  case Exited
  with assms show ?thesis by simp
qed

lemma worker_pop_threads:
  "worker_pop i s = Some s' \<Longrightarrow>
     (q_invokers s = [] \<and> q_destroying s \<and> same_threads i [Exited] s s' \<or> (\<exists>f. same_threads i [Invoke f] s s') \<or> (hd (q_invokers s) = None \<and> same_threads i [Exited] s s'))"
  by (cases "q_invokers s") (auto simp: worker_pop_def on_hold_def pop_front_nullptr_def same_threads_def queue_defs split: if_splits list.splits)

lemma client_stack_append:
  "client_stack (fr # st) \<Longrightarrow> if is_work fr then \<forall>f\<in>set new. is_work f
     else new = [] \<or> (\<not> is_work (last new) \<and> last new \<noteq> Exited \<and> (\<forall>f\<in>set (butlast new). is_work f)) \<Longrightarrow> client_stack (new @ st)"
  by (cases "st = []") (auto simp: client_stack_def butlast_append split: if_splits)

lemma worker_stack_append:
  "worker_stack (fr # st) \<Longrightarrow> fr \<noteq> Exited \<Longrightarrow> if is_work fr then \<forall>f\<in>set new. is_work f else P \<Longrightarrow> worker_stack (new @ st)"
  by (auto simp: worker_stack_def split: if_splits)

lemma thread_step_threads:
  assumes shape: "shape_inv s" and step: "thread_step i s = Some s'"
  obtains st where "same_threads i st s s'" "i < length (q_stacks s)"
    "if i < q_clients s then client_stack st else worker_stack st"
proof (cases "q_stacks s ! i")
  case Nil
  with step have i: "i < length (q_stacks s)" "\<not> i < q_clients s" "worker_pop i s = Some s'"
    by (auto simp: thread_step_def split: if_splits)
  from worker_pop_threads[OF i(3)] obtain st where "same_threads i st s s'" "worker_stack st"
    by (auto simp: worker_stack_def)
  with i that show ?thesis by auto
next
  case (Cons fr st)
  with step have i: "i < length (q_stacks s)" "frame_step i st fr s = Some s'" by (auto simp: thread_step_def split: if_splits)
  from frame_step_threads[OF i(2)] obtain top where top: "same_threads i (top @ st) s s'"
    and top2: "if is_work fr then \<forall>f\<in>set top. is_work f
     else top = [] \<or> (\<not> is_work (last top) \<and> last top \<noteq> Exited \<and> (\<forall>f\<in>set (butlast top). is_work f))" by blast
  have "fr \<noteq> Exited" using i(2) by auto
  moreover have "if i < q_clients s then client_stack (fr # st) else worker_stack (fr # st)"
    using shape i(1) Cons unfolding shape_inv_def by metis
  ultimately have "if i < q_clients s then client_stack (top @ st) else worker_stack (top @ st)"
    using client_stack_append[OF _ top2] worker_stack_append[OF _ _ top2] by (auto split: if_splits)
  with top i(1) that show ?thesis by blast
qed

lemma thread_step_shape:
  assumes "shape_inv s" "thread_step i s = Some s'"
  shows "shape_inv s'"
proof -
  obtain st where "same_threads i st s s'" "i < length (q_stacks s)" "if i < q_clients s then client_stack st else worker_stack st"
    using assms by (rule thread_step_threads)
  then show ?thesis using assms(1) unfolding shape_inv_def same_threads_def by (simp add: nth_list_update)
qed

lemma thread_step_inv:
  assumes inv: "cq_inv s" and shape: "shape_inv s" and step: "thread_step i s = Some s'"
  shows "cq_inv s'"
proof (cases "q_stacks s ! i")
  case Nil
  with step show ?thesis by (intro worker_pop_inv[OF inv, of i]) (auto simp: thread_step_def split: if_splits)
next
  case (Cons fr st)
  with step have i: "i < length (q_stacks s)" "q_stacks s ! i = fr # st" and fs: "frame_step i st fr s = Some s'"
    by (auto simp: thread_step_def split: if_splits)
  have bottom: "st = []" if "\<not> is_work fr"
    using shape i that unfolding shape_inv_def by (metis client_stack_Cons worker_stack_Cons)
  show ?thesis
  proof (cases fr)
    case (Signal f ds ls)
    then show ?thesis using fs i signal_step_inv[OF inv i(1)] launch_inv[OF inv i(1)] by (cases ds) auto
  next
    case (Scan qs ps flag)
    then show ?thesis using fs i scan_step_inv[OF inv i(1)] bottom by auto
  next
    case (Block ps e)
    then show ?thesis using fs i plain_stack_inv[OF inv i(1), of st] stack_ok_tl[OF stack_ok_of[OF inv i]]
      by (auto split: if_splits)
  next
    case Join
    then show ?thesis using fs i plain_stack_inv[OF inv i(1), of st] stack_ok_tl[OF stack_ok_of[OF inv i]]
      by (auto split: if_splits)
  next
    case (Try p qs ps flag)
    show ?thesis by (rule try_invoke_inv[OF inv i(1)]) (use i fs Try in simp_all)
  next
    case (Handle ps g)
    then show ?thesis using fs i handle_step_inv[OF inv i(1)] by auto
  next
    case (Invoke f)
    then show ?thesis using fs i invoke_step_inv[OF inv i(1)] by auto
  next
    case (Complete f)
    then show ?thesis using fs i complete_step_inv[OF inv i(1)] by auto
  next
    case (Count ps g)
    then show ?thesis using fs i count_step_inv[OF inv i(1)] by auto
  qed (use fs in simp)
qed

lemma client_call_inv:
  assumes inv: "cq_inv s" and shape: "shape_inv s" and call: "client_call i c s = Some s'"
  shows "cq_inv s' \<and> shape_inv s'"
proof -
  have c: "i < length (q_stacks s)" "q_stacks s ! i = []" "\<forall>p\<in>set (priors c). p < length (q_futures s)" "i < q_clients s"
    and s': "s' = call_body i c s"
    using call by (auto simp: client_call_def list_all_iff split: if_splits)
  have "cq_inv s'"
  proof (cases c)
    case (Push v)
    then show ?thesis using enqueue_back_inv[OF inv, of "Task v"] s' by (simp add: is_handler_def)
  next
    case (Push_dependent ps v)
    then show ?thesis using push_dependent_inv[OF inv, of ps v] c s' by simp
  next
    case (Wait ps)
    then show ?thesis using plain_stack_inv[OF inv c(1), of "[Scan ps ps False]"] c s' by (simp add: stack_ok_def)
  next
    case Destroy
    have "cq_inv (set_stack i [Join] s)" using plain_stack_inv[OF inv c(1), of "[Join]"] c by (simp add: stack_ok_def)
    then show ?thesis using Destroy s' by (simp add: cq_inv_def set_stack_def)
  qed
  moreover have "shape_inv s'"
    using shape c s'
    by (cases c) (auto simp: shape_inv_def push_dependent_def enqueue_back_def set_stack_def nth_list_update client_stack_def split: if_splits)
  ultimately show ?thesis ..
qed

lemma act_inv: "cq_inv s \<Longrightarrow> shape_inv s \<Longrightarrow> act a s = Some s' \<Longrightarrow> cq_inv s' \<and> shape_inv s'"
  using client_call_inv[of s _ _ s'] thread_step_inv[of s _ s'] thread_step_shape[of s _ s'] by (cases a) simp_all

lemma new_queue_inv: "cq_inv (new_queue m n)" "shape_inv (new_queue m n)"
  by (auto simp: cq_inv_def new_queue_def tokens_ok_def all_tokens_def stack_ok_def shape_inv_def client_stack_def worker_stack_def
      sum_list_replicate)

end
