(* ===== verification/Callback_Progress.thy ===== *)
theory Callback_Progress
  imports Callback_Threads
begin

text \<open>
  The callback queue neither deadlocks nor runs for ever: every step uses up a bounded amount of work, and a
  state in which no thread can move has run every task and let every client return.
\<close>

section \<open>Work\<close>

definition task_work :: "task \<Rightarrow> nat" where
  "task_work t = (case t of Handle_dependent ps g \<Rightarrow> 3 * length ps + 1 | _ \<Rightarrow> 0)"

definition future_work :: "future \<Rightarrow> nat" where
  "future_work fu =
     (case fu_status fu of
        READY \<Rightarrow> 0
      | RUNNING \<Rightarrow> length (fu_dependents fu)
      | ENQUEUED \<Rightarrow> length (fu_dependents fu) + 4 + task_work (fu_task fu)
      | _ \<Rightarrow> length (fu_dependents fu) + 5)"

fun frame_work :: "task list \<Rightarrow> frame \<Rightarrow> nat" where
  "frame_work tk (Invoke f) = 3 + task_work (tk ! f)"
| "frame_work tk (Complete f) = 2"
| "frame_work tk (Signal f ds ls) = length ds + 1"
| "frame_work tk (Handle ps g) = 3 * length ps + 1"
| "frame_work tk (Count ps g) = 3 * length ps + 2"
| "frame_work tk (Scan qs ps flag) = 3 * length qs + 3 * length ps + 8"
| "frame_work tk (Try p qs ps flag) = 3 * length qs + 3 * length ps + 10"
| "frame_work tk (Block ps e) = 1"
| "frame_work tk Join = 1"
| "frame_work tk Exited = 0"

definition stack_work :: "task list \<Rightarrow> frame list \<Rightarrow> nat" where
  "stack_work tk st = (if st = [Exited] then 0 else 1 + sum_list (map (frame_work tk) st))"

definition work :: "cq \<Rightarrow> nat" where
  "work s = sum_list (map future_work (q_futures s)) + sum_list (map (stack_work (map fu_task (q_futures s))) (q_stacks s))"

lemma sum_list_exchange: "i < length xs \<Longrightarrow> sum_list (map h (xs[i := x])) + h (xs ! i) = sum_list (map h xs) + (h x :: nat)"
proof (induction xs arbitrary: i)
  case (Cons y xs)
  then show ?case by (cases i) auto
qed simp

lemma work_step:
  assumes "f < length (q_futures s)" "fu_task x = fu_task (q_futures s ! f)" "i < length (q_stacks s)"
    "q_futures s' = (q_futures s)[f := x]" "q_stacks s' = (q_stacks s)[i := st]"
  shows "work s' + future_work (q_futures s ! f) + stack_work (map fu_task (q_futures s)) (q_stacks s ! i) =
    work s + future_work x + stack_work (map fu_task (q_futures s)) st"
proof -
  have tk: "map fu_task (q_futures s') = map fu_task (q_futures s)"
    using assms by (intro nth_equalityI) (auto simp: nth_list_update)
  show ?thesis
    using sum_list_exchange[OF assms(1), of future_work x] sum_list_exchange[OF assms(3), of "stack_work (map fu_task (q_futures s))" st]
    unfolding work_def tk assms(5) unfolding assms(4) by linarith
qed

lemma work_stack_step:
  assumes "i < length (q_stacks s)" "q_futures s' = q_futures s" "q_stacks s' = (q_stacks s)[i := st]"
  shows "work s' + stack_work (map fu_task (q_futures s)) (q_stacks s ! i) = work s + stack_work (map fu_task (q_futures s)) st"
  using sum_list_exchange[OF assms(1), of "stack_work (map fu_task (q_futures s))" st] by (simp add: work_def assms)

lemma stack_work_Cons: "fr \<noteq> Exited \<Longrightarrow> stack_work tk (fr # st) = 1 + frame_work tk fr + sum_list (map (frame_work tk) st)"
  by (simp add: stack_work_def)

lemma stack_work_le: "stack_work tk st \<le> 1 + sum_list (map (frame_work tk) st)"
  by (simp add: stack_work_def)

lemma task_work_plain: "\<not> is_handler t \<Longrightarrow> task_work t = 0"
  by (auto simp: task_work_def is_handler_def split: task.splits)

lemma worker_pop_work:
  assumes inv: "cq_inv s" and i: "i < length (q_stacks s)" "q_stacks s ! i = []" and step: "worker_pop i s = Some s'"
  shows "work s' < work s"
proof (cases "q_invokers s")
  case Nil
  with step have s': "s' = set_stack i [Exited] (s\<lparr>q_invokers := []\<rparr>)"
    by (auto simp: worker_pop_def pop_front_nullptr_def split: if_splits)
  show ?thesis using work_stack_step[OF i(1), of s' "[Exited]"] i(2) by (simp add: s' set_stack_def stack_work_def)
next
  case (Cons x q)
  then obtain f where x: "x = Some f" using cq_invD(2)[OF inv] by auto
  have s': "s' = set_stack i [Invoke f] (set_status f RUNNING (s\<lparr>q_invokers := pop_front_nullptr q\<rparr>))"
    using step Cons x by (auto simp: worker_pop_def pop_front_nullptr_def split: if_splits)
  have "Tq f \<in># tokens s" using Cons x by (intro queue_token_in) simp
  note f = token_Tq[OF cq_invD(1)[OF inv] this]
  show ?thesis using work_step[of f s "(q_futures s ! f)\<lparr>fu_status := RUNNING\<rparr>" i s' "[Invoke f]"] f i
    by (simp add: s' queue_defs stack_work_def future_work_def)
qed

lemma launch_work:
  assumes inv: "cq_inv s" and i: "i < length (q_stacks s)" "q_stacks s ! i = Signal f [] ls # st"
  shows "work (set_stack i st (launch ls s)) < work s"
proof -
  let ?fs = "q_futures s" and ?tk = "map fu_task (q_futures s)"
  have tok: "all_tokens ?fs (q_invokers s) ((q_stacks s)[i := st]) + mset (map Tlaunch ls) = tokens s"
    using all_tokens_stack[OF i(1), of ?fs "q_invokers s" st] i(2) by (simp add: ac_simps)
  have pf: "pop_front_nullptr (q_invokers s) = q_invokers s" by (rule pop_front_id) (use cq_invD(2)[OF inv] in blast)
  have "sum_list (map future_work (q_futures (launch ls s))) \<le> sum_list (map future_work ?fs) \<and>
      map fu_task (q_futures (launch ls s)) = ?tk"
  proof (cases "ls = []")
    case False
    then obtain k fs' q' where l: "launch_loop ls k ?fs (q_invokers s) = (fs', q')"
      and s': "launch ls s = s\<lparr>q_futures := fs', q_invokers := q'\<rparr>"
      by (fastforce simp: launch_def Let_def pf split: prod.splits)
    have ok: "tokens_ok ?fs (all_tokens ?fs (q_invokers s) ((q_stacks s)[i := st]) + mset (map Tlaunch ls))"
      unfolding tok by (rule cq_invD(1)[OF inv])
    have "sum_list (map future_work fs') \<le> sum_list (map future_work ?fs)"
    proof -
      have "sum_list (map future_work (fs[f := (fs ! f)\<lparr>fu_index := k, fu_status := ENQUEUED\<rparr>])) \<le> sum_list (map future_work fs)"
        if "f < length fs" "fu_status (fs ! f) = ON_HOLD" "\<not> is_handler (fu_task (fs ! f))" for fs f k
        using sum_list_exchange[OF that(1), of future_work "(fs ! f)\<lparr>fu_index := k, fu_status := ENQUEUED\<rparr>"] that
        by (simp add: future_work_def task_work_plain)
      then show ?thesis
        using launch_loop_induct[of "\<lambda>a b. sum_list (map future_work b) \<le> sum_list (map future_work a)", OF _ _ _ ok l] by simp
    qed
    then show ?thesis using launch_loop_shape[OF l] s' by simp
  qed (simp add: launch_def)
  moreover have "sum_list (map (stack_work ?tk) ((q_stacks s)[i := st])) < sum_list (map (stack_work ?tk) (q_stacks s))"
    using sum_list_exchange[OF i(1), of "stack_work ?tk" st] stack_work_le[of ?tk st] i(2) by (simp add: stack_work_Cons)
  ultimately show ?thesis by (simp add: work_def set_stack_def launch_threads)
qed

lemma frame_step_work:
  assumes inv: "cq_inv s" and i: "i < length (q_stacks s)" "q_stacks s ! i = fr # st" and step: "frame_step i st fr s = Some s'"
  shows "work s' < work s"
proof -
  let ?fs = "q_futures s" and ?tk = "map fu_task (q_futures s)"
  have top: "t \<in># tokens s" if "t \<in># frame_tokens ?tk fr" for t by (rule top_token[OF i that])
  have old: "stack_work ?tk (q_stacks s ! i) = 1 + frame_work ?tk fr + sum_list (map (frame_work ?tk) st)"
    unfolding i(2) by (rule stack_work_Cons) (use step in auto)
  have stack: "work s' < work s" if "q_futures s' = ?fs" "q_stacks s' = (q_stacks s)[i := new @ st]"
      "sum_list (map (frame_work ?tk) new) < frame_work ?tk fr" for new
    using work_stack_step[OF i(1) that(1,2)] stack_work_le[of ?tk "new @ st"] old that(3) by simp
  have future: "work s' < work s" if "f < length ?fs" "fu_task x = fu_task (?fs ! f)" "q_futures s' = ?fs[f := x]"
      "q_stacks s' = (q_stacks s)[i := new @ st]"
      "future_work x + sum_list (map (frame_work ?tk) new) < future_work (?fs ! f) + frame_work ?tk fr" for f x new
    using work_step[OF that(1,2) i(1) that(3,4)] stack_work_le[of ?tk "new @ st"] old that(5) by simp
  show ?thesis
  proof (cases fr)
    case (Invoke f)
    have "f < length ?fs" using token_Trun[OF cq_invD(1)[OF inv] top] Invoke by simp
    then show ?thesis using step Invoke
        stack[of "[Complete f]"] stack[of "[Handle (case fu_task (?fs ! f) of Handle_dependent ps g \<Rightarrow> ps) (case fu_task (?fs ! f) of Handle_dependent ps g \<Rightarrow> g), Complete f]"]
      by (cases "fu_task (?fs ! f)") (auto simp: set_stack_def task_work_def)
  next
    case (Complete f)
    have "f < length ?fs" "status_of s f = RUNNING" using token_Trun[OF cq_invD(1)[OF inv] top] Complete by simp_all
    then show ?thesis using step Complete
        future[of f "(?fs ! f)\<lparr>fu_status := READY\<rparr>" "[Signal f (fu_dependents (?fs ! f)) []]"]
      by (auto simp: queue_defs future_work_def)
  next
    case (Signal f ds ls)
    show ?thesis
    proof (cases ds)
      case Nil
      then show ?thesis using launch_work[OF inv i(1)] i(2) Signal step by simp
    next
      case (Cons d ds')
      have d: "d < length ?fs" "status_of s d = CONSTRUCTING \<or> status_of s d = ON_HOLD"
        using token_Tpend[OF cq_invD(1)[OF inv] top] Signal Cons by simp_all
      have plain: "\<not> is_handler (fu_task (?fs ! d))" using tokens_okD[OF cq_invD(1)[OF inv] d(1)] d(2) by (simp add: future_ok_def)
      define x where "x = (?fs ! d)\<lparr>fu_remaining := fu_remaining (?fs ! d) - 1\<rparr>"
      show ?thesis using step Signal Cons d plain
          future[of d x "[Signal f ds' ls]"] future[of d x "[Signal f ds' (ls @ [d])]"]
          future[of d "x\<lparr>fu_status := RUNNING\<rparr>" "[Invoke d, Signal f ds' ls]"]
        by (auto simp: queue_defs x_def future_work_def task_work_plain Let_def split: if_splits)
    qed
  next
    case (Handle ps g)
    have g: "g < length ?fs" "status_of s g = CONSTRUCTING"
      using token_Thandle[OF cq_invD(1)[OF inv] top] Handle by simp_all
    have plain: "\<not> is_handler (fu_task (?fs ! g))" using tokens_okD[OF cq_invD(1)[OF inv] g(1)] g(2) by (simp add: future_ok_def)
    show ?thesis
    proof (cases ps)
      case Nil
      show ?thesis using step Handle Nil g plain
          future[of g "(?fs ! g)\<lparr>fu_status := ON_HOLD\<rparr>" "[]"] future[of g "(?fs ! g)\<lparr>fu_status := RUNNING\<rparr>" "[Invoke g]"]
        by (auto simp: queue_defs future_work_def task_work_plain split: if_splits)
    next
      case (Cons p qs)
      have "p < g" using stack_ok_of[OF inv i] Handle Cons by (simp add: stack_ok_def)
      then have p: "p < length ?fs" using g by simp
      show ?thesis
      proof (cases "status_of s p = READY")
        case True
        then show ?thesis using step Handle Cons stack[of "[Handle qs g]"] by (auto simp: set_stack_def)
      next
        case False
        then have "future_work ((?fs ! p)\<lparr>fu_dependents := fu_dependents (?fs ! p) @ [g]\<rparr>) = Suc (future_work (?fs ! p))"
          by (cases "status_of s p") (simp_all add: future_work_def)
        then show ?thesis using step Handle Cons False p
            future[of p "(?fs ! p)\<lparr>fu_dependents := fu_dependents (?fs ! p) @ [g]\<rparr>" "[Count qs g]"]
          by (auto simp: queue_defs split: if_splits)
      qed
    qed
  next
    case (Count ps g)
    have g: "g < length ?fs" "status_of s g = CONSTRUCTING" using token_Tcnt[OF cq_invD(1)[OF inv] top] Count by simp_all
    show ?thesis using step Count g future[of g "(?fs ! g)\<lparr>fu_remaining := fu_remaining (?fs ! g) + 1\<rparr>" "[Handle ps g]"]
      by (auto simp: queue_defs future_work_def)
  next
    case (Scan qs ps flag)
    show ?thesis
    proof (cases qs)
      case (Cons p rs)
      show ?thesis using step Scan Cons stack[of "[Try p rs ps flag]"] stack[of "[Scan rs ps flag]"] stack[of "[Scan rs ps True]"]
        by (cases "status_of s p") (auto simp: set_stack_def)
    next
      case Nil
      show ?thesis
      proof (cases "\<not> flag \<or> \<not> must_wait ps s")
        case True
        then show ?thesis using step Scan Nil stack[of "[]"] by (auto simp: set_stack_def)
      next
        case False
        let ?x = "(new_future CONSTRUCTING Empty_lambda)\<lparr>fu_high := True\<rparr>" and ?e = "length ?fs"
        have s': "q_futures s' = ?fs @ [?x]" "q_stacks s' = (q_stacks s)[i := Handle ps ?e # Block ps ?e # st]"
          using step Scan Nil False by (auto simp: set_stack_def Let_def)
        have same: "sum_list (map (frame_work (?tk @ [fu_task ?x])) u) = sum_list (map (frame_work ?tk) u)" if u: "u \<in> set (q_stacks s)" for u
        proof -
          have "frame_work (?tk @ [fu_task ?x]) f = frame_work ?tk f" if "f \<in> set u" for f
            using invoke_bound[OF inv u] that by (cases f) (auto simp: nth_append)
          then show ?thesis by (intro arg_cong[of _ _ sum_list] map_cong) simp_all
        qed
        then have sw: "stack_work (?tk @ [fu_task ?x]) u = stack_work ?tk u" if "u \<in> set (q_stacks s)" for u
          using that by (simp add: stack_work_def)
        then have eq: "map (stack_work (?tk @ [fu_task ?x])) (q_stacks s) = map (stack_work ?tk) (q_stacks s)"
          by (intro map_cong) simp_all
        have mem: "q_stacks s ! i \<in> set (q_stacks s)" using i(1) by simp
        then have "sum_list (map (frame_work (?tk @ [fu_task ?x])) st) = sum_list (map (frame_work ?tk) st)"
          using same[of "fr # st"] Scan i(2) by simp
        then have "sum_list (map (stack_work (?tk @ [fu_task ?x])) ((q_stacks s)[i := Handle ps ?e # Block ps ?e # st])) + stack_work ?tk (q_stacks s ! i) =
            sum_list (map (stack_work ?tk) (q_stacks s)) + (3 + 3 * length ps + sum_list (map (frame_work ?tk) st))"
          using sum_list_exchange[OF i(1), of "stack_work (?tk @ [fu_task ?x])" "Handle ps ?e # Block ps ?e # st"] sw[OF mem] arg_cong[OF eq, of sum_list]
          by (simp add: stack_work_Cons)
        then show ?thesis using old Scan Nil unfolding work_def s' by (simp add: future_work_def new_future_def)
      qed
    qed
  next
    case (Try p qs ps flag)
    obtain b s1 where t: "try_invoke p s = (b, s1)" by fastforce
    show ?thesis
    proof (cases b)
      case True
      then have "status_of s p = ENQUEUED" and fs: "q_futures s1 = ?fs[p := (?fs ! p)\<lparr>fu_status := RUNNING\<rparr>]" "q_stacks s1 = q_stacks s"
        using t by (auto simp: try_invoke_def Let_def queue_defs split: if_splits)
      moreover have "p < length ?fs" using stack_ok_of[OF inv i] Try by (simp add: stack_ok_def)
      ultimately show ?thesis using step Try t True
          future[of p "(?fs ! p)\<lparr>fu_status := RUNNING\<rparr>" "[Invoke p, Scan qs ps flag]"]
        by (auto simp: set_stack_def future_work_def)
    next
      case False
      then have "q_futures s1 = ?fs" "q_stacks s1 = q_stacks s" using t by (auto simp: try_invoke_def Let_def split: if_splits)
      with step Try t False show ?thesis using stack[of "[Scan qs ps True]"] by (auto simp: set_stack_def)
    qed
  next
    case (Block ps e)
    then show ?thesis using step stack[of "[]"] by (auto simp: set_stack_def split: if_splits)
  next
    case Join
    then show ?thesis using step stack[of "[]"] by (auto simp: set_stack_def split: if_splits)
  qed (use step in simp)
qed

lemma thread_step_work: "cq_inv s \<Longrightarrow> thread_step i s = Some s' \<Longrightarrow> work s' < work s"
  using worker_pop_work frame_step_work by (auto simp: thread_step_def split: if_splits list.splits)

section \<open>The end of the workers\<close>

text \<open>
  A worker leaves its loop only when the queue is destroyed and the deque is empty. From then on only workers
  have work, so while the deque holds an invoker some worker is there to take it.
\<close>

definition exit_inv :: "cq \<Rightarrow> bool" where
  "exit_inv s \<longleftrightarrow> q_clients s < length (q_stacks s) \<and>
     (\<not> q_destroying s \<longrightarrow> (\<forall>st\<in>set (q_stacks s). st \<noteq> [Exited] \<and> Join \<notin> set st)) \<and>
     (q_destroying s \<longrightarrow> (\<forall>i<q_clients s. i < length (q_stacks s) \<longrightarrow> q_stacks s ! i = [] \<or> q_stacks s ! i = [Join])) \<and>
     (q_invokers s = [] \<or> (\<exists>j<length (q_stacks s). q_clients s \<le> j \<and> q_stacks s ! j \<noteq> [Exited]))"

lemma frame_step_not_exited:
  assumes shape: "shape_inv s" and i: "i < length (q_stacks s)" "q_stacks s ! i = fr # st" and step: "frame_step i st fr s = Some s'"
  obtains new where "same_threads i new s s'" "new \<noteq> [Exited]" "Join \<in> set new \<Longrightarrow> Join \<in> set (q_stacks s ! i)"
    "q_stacks s ! i = [Join] \<Longrightarrow> new = []" "i < q_clients s \<or> q_clients s \<le> i \<and> (\<forall>f\<in>set new. is_work f)"
proof -
  from frame_step_threads[OF step] obtain top where top: "same_threads i (top @ st) s s'" "Join \<notin> set top"
    and top2: "if is_work fr then \<forall>f\<in>set top. is_work f
     else top = [] \<or> (\<not> is_work (last top) \<and> last top \<noteq> Exited \<and> (\<forall>f\<in>set (butlast top). is_work f))" by blast
  have ne: "fr \<noteq> Exited" using step by auto
  have sh: "if i < q_clients s then client_stack (fr # st) else worker_stack (fr # st)"
    using shape i unfolding shape_inv_def by metis
  then have sh': "if i < q_clients s then client_stack (top @ st) else worker_stack (top @ st)"
    using client_stack_append[OF _ top2] worker_stack_append[OF _ ne top2] by (auto split: if_splits)
  have work: "\<forall>f\<in>set (top @ st). is_work f" if "\<not> i < q_clients s"
    using sh top2 that ne by (auto simp: worker_stack_Cons)
  have "top @ st \<noteq> [Exited]"
  proof (cases "i < q_clients s")
    case True
    then show ?thesis using sh' by (auto simp: client_stack_def)
  next
    case False
    then have "\<forall>f\<in>set (top @ st). is_work f" by (rule work)
    then show ?thesis by (metis is_work.simps(5) list.set_intros(1))
  qed
  moreover have "top @ st = []" if "q_stacks s ! i = [Join]"
  proof -
    have "same_threads i [] s s'" using step that i by (auto simp: same_threads_def set_stack_def split: if_splits)
    then have "(q_stacks s)[i := top @ st] ! i = (q_stacks s)[i := []] ! i" using top(1) by (simp add: same_threads_def)
    then show ?thesis using i(1) by simp
  qed
  moreover have "Join \<in> set (top @ st) \<Longrightarrow> Join \<in> set (q_stacks s ! i)" using top(2) i(2) by auto
  ultimately show ?thesis using top(1) work that[of "top @ st"] by (meson not_le)
qed

lemma thread_step_exit:
  assumes inv: "cq_inv s" and shape: "shape_inv s" and ex: "exit_inv s" and step: "thread_step i s = Some s'"
  shows "exit_inv s'"
proof (cases "q_stacks s ! i")
  case Nil
  with step have i: "i < length (q_stacks s)" "\<not> i < q_clients s" and pop: "worker_pop i s = Some s'"
    by (auto simp: thread_step_def split: if_splits)
  show ?thesis
  proof (cases "q_invokers s")
    case Nil
    with pop have s': "s' = set_stack i [Exited] (s\<lparr>q_invokers := []\<rparr>)" and d: "q_destroying s"
      by (auto simp: worker_pop_def on_hold_def pop_front_nullptr_def split: if_splits)
    then show ?thesis using ex i by (auto simp: exit_inv_def set_stack_def)
  next
    case (Cons x q)
    then obtain f where "x = Some f" using cq_invD(2)[OF inv] by auto
    with Cons pop have st: "q_stacks s' = (q_stacks s)[i := [Invoke f]]" "q_clients s' = q_clients s" "q_destroying s' = q_destroying s"
      by (auto simp: worker_pop_def pop_front_nullptr_def queue_defs split: if_splits)
    have "\<forall>u\<in>set (q_stacks s'). u \<noteq> [Exited] \<and> Join \<notin> set u" if "\<not> q_destroying s"
      using ex that set_update_subset_insert[of "q_stacks s" i "[Invoke f]"] st(1) by (auto simp: exit_inv_def)
    moreover have "i < length (q_stacks s')" "q_stacks s' ! i \<noteq> [Exited]" using st i by simp_all
    ultimately show ?thesis using ex i st unfolding exit_inv_def
      by (metis length_list_update not_less nth_list_update_neq)
  qed
next
  case (Cons fr u)
  with step have i: "i < length (q_stacks s)" and fs: "frame_step i u fr s = Some s'"
    by (auto simp: thread_step_def split: if_splits)
  obtain new where new: "same_threads i new s s'" "new \<noteq> [Exited]" "Join \<in> set new \<Longrightarrow> Join \<in> set (q_stacks s ! i)" "q_stacks s ! i = [Join] \<Longrightarrow> new = []"
    "i < q_clients s \<or> q_clients s \<le> i \<and> (\<forall>f\<in>set new. is_work f)"
    using frame_step_not_exited[OF shape i Cons fs] by blast
  have st: "q_stacks s' = (q_stacks s)[i := new]" "q_clients s' = q_clients s" "q_destroying s' = q_destroying s"
    using new(1) by (simp_all add: same_threads_def)
  have none: "\<forall>v\<in>set (q_stacks s'). v \<noteq> [Exited] \<and> Join \<notin> set v" if "\<not> q_destroying s"
  proof -
    have "\<forall>v\<in>set (q_stacks s). v \<noteq> [Exited] \<and> Join \<notin> set v" using ex that by (simp add: exit_inv_def)
    moreover have "q_stacks s ! i \<in> set (q_stacks s)" using i by simp
    ultimately show ?thesis using set_update_subset_insert[of "q_stacks s" i new] st(1) new(2,3) by auto
  qed
  have idle: "q_stacks s' ! j = [] \<or> q_stacks s' ! j = [Join]" if "q_destroying s" "j < q_clients s" "j < length (q_stacks s)" for j
    using ex that new(4) i Cons st(1) by (cases "j = i") (auto simp: exit_inv_def)
  have "q_invokers s' = [] \<or> (\<exists>j<length (q_stacks s'). q_clients s \<le> j \<and> q_stacks s' ! j \<noteq> [Exited])"
  proof (cases "q_clients s \<le> i")
    case True
    then show ?thesis using i st(1) new(2) by (intro disjI2 exI[of _ i]) simp
  next
    case False
    show ?thesis
    proof (cases "q_destroying s")
      case True
      then have "q_stacks s ! i = [] \<or> q_stacks s ! i = [Join]" using ex False i unfolding exit_inv_def by simp
      then have "fr = Join" using Cons by simp
      then have "q_invokers s' = q_invokers s" using fs by (auto simp: set_stack_def split: if_splits)
      then show ?thesis using ex False st(1) unfolding exit_inv_def by (metis length_list_update nth_list_update_neq)
    next
      case nd: False
      have "q_clients s < length (q_stacks s)" using ex by (simp add: exit_inv_def)
      then have "q_stacks s' ! q_clients s \<in> set (q_stacks s')" using st(1) by simp
      with none[OF nd] \<open>q_clients s < length (q_stacks s)\<close> st(1) show ?thesis by (intro disjI2 exI[of _ "q_clients s"]) auto
    qed
  qed
  moreover have "q_clients s < length (q_stacks s)" using ex by (simp add: exit_inv_def)
  ultimately show ?thesis using none idle st unfolding exit_inv_def by simp
qed

lemma client_call_exit:
  assumes ex: "exit_inv s" and call: "client_call i c s = Some s'"
  shows "exit_inv s'"
proof -
  have c: "i < q_clients s" "i < length (q_stacks s)" "\<not> q_destroying s"
      "c = Destroy \<Longrightarrow> \<forall>st\<in>set (take (q_clients s) (q_stacks s)). st = []" and s': "s' = call_body i c s"
    using call by (auto simp: client_call_def list_all_iff split: if_splits)
  have w: "q_clients s < length (q_stacks s)" using ex by (simp add: exit_inv_def)
  have none: "\<forall>st\<in>set (q_stacks s). st \<noteq> [Exited] \<and> Join \<notin> set st" using ex c(3) by (simp add: exit_inv_def)
  have worker: "\<exists>j<length (q_stacks s). q_clients s \<le> j \<and> q_stacks s ! j \<noteq> [Exited]"
    using w none by (intro exI[of _ "q_clients s"]) simp
  have other: "(q_stacks s)[i := st] ! j = q_stacks s ! j" if "q_clients s \<le> j" for j st using c(1) that by auto
  show ?thesis
  proof (cases "c = Destroy")
    case True
    have "q_stacks s ! j = []" if "j < q_clients s" for j
    proof -
      have "take (q_clients s) (q_stacks s) ! j \<in> set (take (q_clients s) (q_stacks s))"
        using that w by (intro nth_mem) simp
      with c(4)[OF True] that show ?thesis by simp
    qed
    moreover obtain j where "j < length (q_stacks s)" "q_clients s \<le> j" "q_stacks s ! j \<noteq> [Exited]" using worker by blast
    then have "\<exists>j<length (q_stacks s'). q_clients s' \<le> j \<and> q_stacks s' ! j \<noteq> [Exited]"
      using True s' c(1) by (intro exI[of _ j]) (auto simp: set_stack_def)
    ultimately show ?thesis using True s' w c(1) by (simp add: exit_inv_def set_stack_def nth_list_update)
  next
    case False
    have "\<exists>st\<in>insert [] (range (\<lambda>ps. [Scan ps ps False])). q_stacks s' = (q_stacks s)[i := st]"
    proof -
      have "q_stacks s ! i = []" using call by (simp add: client_call_def split: if_splits)
      then have "(q_stacks s)[i := []] = q_stacks s" by (metis list_update_id)
      then show ?thesis using False s' by (cases c) (auto simp: set_stack_def push_dependent_def enqueue_back_def)
    qed
    then obtain u where u: "u \<in> insert [] (range (\<lambda>ps. [Scan ps ps False]))" "q_stacks s' = (q_stacks s)[i := u]" ..
    then have "u \<noteq> [Exited] \<and> Join \<notin> set u" by auto
    then have "\<forall>st\<in>set (q_stacks s'). st \<noteq> [Exited] \<and> Join \<notin> set st"
      using none set_update_subset_insert[of "q_stacks s" i u] u(2) by auto
    moreover have "q_clients s' = q_clients s" "length (q_stacks s') = length (q_stacks s)" "\<not> q_destroying s'"
        "\<And>j. q_clients s \<le> j \<Longrightarrow> q_stacks s' ! j = q_stacks s ! j"
      using False s' c(1,3) by (cases c; auto simp: set_stack_def push_dependent_def enqueue_back_def)+
    ultimately show ?thesis using w worker unfolding exit_inv_def by auto
  qed
qed

lemma new_queue_exit: "0 < n \<Longrightarrow> exit_inv (new_queue m n)"
  by (simp add: exit_inv_def new_queue_def)

definition queue_inv :: "cq \<Rightarrow> bool" where
  "queue_inv s \<longleftrightarrow> cq_inv s \<and> shape_inv s \<and> exit_inv s"

lemma act_queue_inv: "queue_inv s \<Longrightarrow> act a s = Some s' \<Longrightarrow> queue_inv s'"
  using act_inv[of s a s'] client_call_exit[of s] thread_step_exit[of s] by (cases a) (auto simp: queue_inv_def)

lemma act_all_queue_inv: "queue_inv s \<Longrightarrow> act_all as s = Some s' \<Longrightarrow> queue_inv s'"
  by (induction as arbitrary: s) (auto split: option.splits dest: act_queue_inv)

lemma new_queue_queue_inv: "0 < n \<Longrightarrow> queue_inv (new_queue m n)"
  by (simp add: queue_inv_def new_queue_inv new_queue_exit)

section \<open>No thread can move\<close>

lemma frame_step_blocked:
  assumes "frame_step i st fr s = None"
  shows "(\<exists>p ps g. fr = Handle (p # ps) g \<and> locked p s) \<or> (\<exists>ps e. fr = Block ps e \<and> status_of s e \<noteq> READY) \<or>
    (fr = Join \<and> \<not> workers_exited s) \<or> fr = Exited"
proof (cases fr)
  case (Handle ps g)
  with assms show ?thesis by (cases ps) (auto split: if_splits)
next
  case (Try p qs ps flag)
  with assms show ?thesis by (cases "try_invoke p s"; cases "fst (try_invoke p s)") auto
qed (use assms in \<open>auto split: if_splits\<close>)

lemma stuck_stack:
  assumes inv: "queue_inv s" and stuck: "\<And>i. thread_step i s = None" and i: "i < length (q_stacks s)"
  shows "q_stacks s ! i = [] \<or> q_stacks s ! i = [Exited] \<or> q_stacks s ! i = [Join] \<or>
    (\<exists>ps e. q_stacks s ! i = [Block ps e] \<and> status_of s e \<noteq> READY)"
proof (cases "q_stacks s ! i")
  case (Cons fr st)
  have step: "frame_step i st fr s = None" using stuck[of i] i Cons by (simp add: thread_step_def)
  have bottom: "st = []" if "\<not> is_work fr"
    using inv i Cons that unfolding queue_inv_def shape_inv_def by (metis client_stack_Cons worker_stack_Cons)
  have "\<not> locked p s" for p
  proof
    assume "locked p s"
    then obtain u where "u \<in> set (q_stacks s)" "Complete p \<in> set u" and t: "fu_task (q_futures s ! p) = Task True"
      by (auto simp: locked_def)
    then obtain j where j: "j < length (q_stacks s)" "Complete p \<in> set (q_stacks s ! j)" by (metis in_set_conv_nth)
    then obtain fr' st' where js: "q_stacks s ! j = fr' # st'" by (cases "q_stacks s ! j") auto
    have "stack_ok (q_futures s) (fr' # st')" using inv j(1) js by (intro stack_ok_of) (auto simp: queue_inv_def)
    moreover have "Trun p \<in># tokens s"
      using frame_token_in[OF nth_mem[OF j(1)] j(2), of "Trun p" "q_futures s" "q_invokers s"] by simp
    then have "p < length (q_futures s)" using inv token_Trun[of "q_futures s" "tokens s" p] by (simp add: queue_inv_def cq_inv_def)
    ultimately have "fr' = Complete p" using j(2) js t by (auto simp: stack_ok_def is_handler_def)
    with stuck[of j] j(1) js show False by (simp add: thread_step_def)
  qed
  with frame_step_blocked[OF step] bottom Cons show ?thesis by auto
qed simp

lemma stuck_tokens:
  assumes inv: "queue_inv s" and stuck: "\<And>i. thread_step i s = None"
  shows "q_invokers s = []" "\<And>st. st \<in> set (q_stacks s) \<Longrightarrow> stack_tokens tk st = {#}"
proof -
  show "q_invokers s = []"
  proof (rule ccontr)
    assume "q_invokers s \<noteq> []"
    then obtain j where j: "j < length (q_stacks s)" "q_clients s \<le> j" "q_stacks s ! j \<noteq> [Exited]"
      using inv by (auto simp: queue_inv_def exit_inv_def)
    have "worker_stack (q_stacks s ! j)" using inv j unfolding queue_inv_def shape_inv_def by (metis not_le)
    with stuck_stack[OF inv stuck j(1)] j(3) have "q_stacks s ! j = []" by (auto simp: worker_stack_def)
    with stuck[of j] j have "worker_pop j s = None" by (simp add: thread_step_def)
    with \<open>q_invokers s \<noteq> []\<close> show False by (simp add: worker_pop_def on_hold_def split: list.splits)
  qed
  show "stack_tokens tk st = {#}" if mem: "st \<in> set (q_stacks s)" for st
  proof -
    obtain i where i: "i < length (q_stacks s)" "q_stacks s ! i = st" using mem unfolding in_set_conv_nth by blast
    from stuck_stack[OF inv stuck i(1)] show ?thesis unfolding i(2) by auto
  qed
qed

lemma stuck_all_ready:
  assumes inv: "queue_inv s" and stuck: "\<And>i. thread_step i s = None" and f: "f < length (q_futures s)"
  shows "status_of s f = READY"
  using f
proof (induction f rule: less_induct)
  case (less f)
  have empty: "(\<And>st. st \<in> set sts \<Longrightarrow> h st = {#}) \<Longrightarrow> sum_list (map h sts) = {#}"
    for h :: "frame list \<Rightarrow> token multiset" and sts by (induction sts) auto
  have sum: "sum_list (map (stack_tokens (map fu_task (q_futures s))) (q_stacks s)) = {#}"
    by (rule empty) (rule stuck_tokens(2)[OF inv stuck])
  have tok: "tokens s = sum_list (map future_tokens (q_futures s))"
    using stuck_tokens(1)[OF inv stuck] sum by (simp add: all_tokens_def)
  have from_future: "\<exists>p<length (q_futures s). t \<in># future_tokens (q_futures s ! p)" if "t \<in># tokens s" for t
  proof -
    have "t \<in># sum_list (map future_tokens fs) \<Longrightarrow> \<exists>fu\<in>set fs. t \<in># future_tokens fu" for fs by (induction fs) auto
    with that tok show ?thesis by (metis in_set_conv_nth)
  qed
  have ok: "future_ok (tokens s) (q_futures s ! f) f" using inv less.prems by (auto simp: queue_inv_def dest: cq_invD(1) tokens_okD)
  have noq: "Tq g \<notin># tokens s" for g using from_future[of "Tq g"] by (auto simp: future_tokens_eq task_tokens_def split: if_splits task.splits)
  have noenq: "status_of s g \<noteq> ENQUEUED" if "g < length (q_futures s)" for g
  proof
    assume "status_of s g = ENQUEUED"
    moreover have "future_ok (tokens s) (q_futures s ! g) g" using inv that by (auto simp: queue_inv_def dest: cq_invD(1) tokens_okD)
    ultimately have "count (tokens s) (Tq g) = 1" by (simp add: future_ok_def)
    with noq[of g] show False by (metis count_eq_zero_iff zero_neq_one)
  qed
  have norun: "Trun g \<notin># tokens s" "Tlaunch g \<notin># tokens s" "Tcnt g \<notin># tokens s" for g
    using from_future[of "Trun g"] from_future[of "Tlaunch g"] from_future[of "Tcnt g"]
    by (auto simp: future_tokens_eq task_tokens_def split: if_splits task.splits)
  have nohandle: "Thandle g \<notin># tokens s" for g
    using from_future[of "Thandle g"] noenq by (auto simp: future_tokens_eq split: if_splits)
  have nopend: "Tpend f \<notin># tokens s"
  proof
    assume "Tpend f \<in># tokens s"
    from from_future[OF this] noenq obtain p where p: "p < length (q_futures s)" "status_of s p \<noteq> READY" "f \<in> set (fu_dependents (q_futures s ! p))"
      by (auto simp: future_tokens_eq split: if_splits)
    with inv have "p < f" by (auto simp: queue_inv_def future_wf_def dest: cq_invD(4))
    with less.IH[OF this p(1)] p(2) show False by simp
  qed
  have "count (tokens s) t = 0" if "t \<in> {Tq f, Trun f, Thandle f, Tcnt f, Tlaunch f, Tpend f}" for t
    using that noq norun nohandle nopend by (auto simp: not_in_iff[symmetric])
  then show ?case using ok by (cases "status_of s f") (auto simp: future_ok_def)
qed

lemma stuck_done:
  assumes inv: "queue_inv s" and stuck: "\<And>i. thread_step i s = None"
  shows "\<forall>f<length (q_futures s). status_of s f = READY"
    and "i < q_clients s \<Longrightarrow> q_stacks s ! i = []"
    and "q_destroying s \<Longrightarrow> workers_exited s"
proof -
  show ready: "\<forall>f<length (q_futures s). status_of s f = READY" using stuck_all_ready[OF inv stuck] by blast
  show exited: "workers_exited s" if "q_destroying s"
  proof -
    have "q_stacks s ! j = [Exited]" if j: "j < length (q_stacks s)" "q_clients s \<le> j" for j
    proof -
      have "worker_stack (q_stacks s ! j)" using inv j unfolding queue_inv_def shape_inv_def by (metis not_le)
      moreover have "q_stacks s ! j \<noteq> []"
      proof
        assume "q_stacks s ! j = []"
        with stuck[of j] j have "worker_pop j s = None" by (simp add: thread_step_def)
        with \<open>q_destroying s\<close> show False by (simp add: worker_pop_def on_hold_def split: list.splits)
      qed
      ultimately show ?thesis using stuck_stack[OF inv stuck j(1)] by (auto simp: worker_stack_def)
    qed
    then show ?thesis by (auto simp: workers_exited_def in_set_conv_nth)
  qed
  show "q_stacks s ! i = []" if i: "i < q_clients s"
  proof -
    have len: "i < length (q_stacks s)" using inv i by (auto simp: queue_inv_def exit_inv_def)
    have "client_stack (q_stacks s ! i)" using inv i len unfolding queue_inv_def shape_inv_def by metis
    moreover have "q_stacks s ! i \<noteq> [Block ps e] \<or> status_of s e = READY" for ps e
    proof -
      have "e < length (q_futures s)" if "q_stacks s ! i = [Block ps e]"
        using stack_ok_of[OF _ len that] inv by (simp add: stack_ok_def queue_inv_def)
      with ready show ?thesis by blast
    qed
    moreover have "q_stacks s ! i \<noteq> [Join]"
    proof
      assume j: "q_stacks s ! i = [Join]"
      with stuck[of i] len have nw: "\<not> workers_exited s" by (simp add: thread_step_def split: if_splits)
      have "Join \<in> set (q_stacks s ! i)" "q_stacks s ! i \<in> set (q_stacks s)" using nth_mem[OF len] by (simp_all add: j)
      then have "q_destroying s" using inv unfolding queue_inv_def exit_inv_def by blast
      with exited nw show False by simp
    qed
    ultimately show ?thesis using stuck_stack[OF inv stuck len] by (auto simp: client_stack_def)
  qed
qed

end
