(* ===== verification/Callback_Order.thy ===== *)
theory Callback_Order
  imports Callback_Progress
begin

text \<open>
  The order in which the callback queue runs tasks: a task runs at most once, a dependent task runs after its
  priors, and \<open>wait\<close> returns when its futures are ready.
\<close>

section \<open>Futures only move forward\<close>

definition future_le :: "future \<Rightarrow> future \<Rightarrow> bool" where
  "future_le x y \<longleftrightarrow> fu_task y = fu_task x \<and> set (fu_dependents x) \<subseteq> set (fu_dependents y) \<and>
     (fu_status x = READY \<longrightarrow> fu_status y = READY) \<and>
     (fu_status x = RUNNING \<longrightarrow> fu_status y = RUNNING \<or> fu_status y = READY) \<and>
     (fu_status x = ENQUEUED \<longrightarrow> fu_status y = ENQUEUED \<or> fu_status y = RUNNING \<or> fu_status y = READY)"

definition futures_le :: "future list \<Rightarrow> future list \<Rightarrow> bool" where
  "futures_le fs fs' \<longleftrightarrow> length fs \<le> length fs' \<and> (\<forall>f<length fs. future_le (fs ! f) (fs' ! f))"

lemma future_le_refl [simp]: "future_le x x"
  by (simp add: future_le_def)

lemma future_le_trans: "future_le x y \<Longrightarrow> future_le y z \<Longrightarrow> future_le x z"
  unfolding future_le_def by auto

lemma futures_le_refl [simp]: "futures_le fs fs"
  by (simp add: futures_le_def)

lemma futures_le_trans: "futures_le a b \<Longrightarrow> futures_le b c \<Longrightarrow> futures_le a c"
  unfolding futures_le_def by (meson future_le_trans le_trans less_le_trans)

lemma futures_le_update: "future_le (fs ! f) x \<Longrightarrow> futures_le fs (fs[f := x])"
  unfolding futures_le_def by (metis dual_order.refl future_le_refl length_list_update nth_list_update_eq nth_list_update_neq)

lemma futures_le_append: "futures_le fs (fs @ xs)"
  by (simp add: futures_le_def nth_append)

lemma futures_leD:
  assumes "futures_le fs fs'" "f < length fs"
  shows "f < length fs'" "fu_task (fs' ! f) = fu_task (fs ! f)" "g \<in> set (fu_dependents (fs ! f)) \<Longrightarrow> g \<in> set (fu_dependents (fs' ! f))"
    "fu_status (fs ! f) = READY \<Longrightarrow> fu_status (fs' ! f) = READY"
    "fu_status (fs ! f) = RUNNING \<Longrightarrow> fu_status (fs' ! f) = RUNNING \<or> fu_status (fs' ! f) = READY"
    "fu_status (fs ! f) = ENQUEUED \<Longrightarrow> fu_status (fs' ! f) = ENQUEUED \<or> fu_status (fs' ! f) = RUNNING \<or> fu_status (fs' ! f) = READY"
  using assms by (auto simp: futures_le_def future_le_def)

text \<open>One step does not take a future from the deque to its end.\<close>

definition no_jump :: "future list \<Rightarrow> future list \<Rightarrow> bool" where
  "no_jump fs fs' \<longleftrightarrow> (\<forall>f<length fs. fu_status (fs ! f) = ENQUEUED \<longrightarrow> fu_status (fs' ! f) \<noteq> READY)"

lemma no_jump_refl [simp]: "no_jump fs fs" "no_jump fs (fs @ xs)"
  by (simp_all add: no_jump_def nth_append)

lemma no_jump_update: "fu_status x \<noteq> READY \<or> fu_status (fs ! f) \<noteq> ENQUEUED \<Longrightarrow> no_jump fs (fs[f := x])"
  unfolding no_jump_def
proof (intro allI impI)
  fix g assume "fu_status x \<noteq> READY \<or> fu_status (fs ! f) \<noteq> ENQUEUED" "g < length fs" "fu_status (fs ! g) = ENQUEUED"
  then show "fu_status (fs[f := x] ! g) \<noteq> READY" by (cases "g = f") auto
qed

lemma launch_le:
  assumes inv: "cq_inv s" and i: "i < length (q_stacks s)" "q_stacks s ! i = Signal f [] ls # st"
  shows "futures_le (q_futures s) (q_futures (launch ls s)) \<and> no_jump (q_futures s) (q_futures (launch ls s))"
proof (cases "ls = []")
  case False
  let ?fs = "q_futures s"
  have tok: "all_tokens ?fs (q_invokers s) ((q_stacks s)[i := st]) + mset (map Tlaunch ls) = tokens s"
    using all_tokens_stack[OF i(1), of ?fs "q_invokers s" st] i(2) by (simp add: ac_simps)
  have pf: "pop_front_nullptr (q_invokers s) = q_invokers s" by (rule pop_front_id) (use cq_invD(2)[OF inv] in blast)
  from False obtain k fs' q' where l: "launch_loop ls k ?fs (q_invokers s) = (fs', q')"
    and s': "launch ls s = s\<lparr>q_futures := fs', q_invokers := q'\<rparr>"
    by (fastforce simp: launch_def Let_def pf split: prod.splits)
  have ok: "tokens_ok ?fs (all_tokens ?fs (q_invokers s) ((q_stacks s)[i := st]) + mset (map Tlaunch ls))"
    unfolding tok by (rule cq_invD(1)[OF inv])
  define R where "R a b \<longleftrightarrow> futures_le a b \<and> (\<forall>f<length a. fu_status (b ! f) = READY \<longrightarrow> fu_status (a ! f) = READY)" for a b
  have "R a c" if "R a b" "R b c" for a b c
    using that futures_le_trans[of a b c] unfolding R_def by (meson futures_leD(1))
  moreover have "R fs (fs[f := (fs ! f)\<lparr>fu_index := k, fu_status := ENQUEUED\<rparr>])" if "f < length fs" "fu_status (fs ! f) = ON_HOLD" for fs f k
    using that futures_le_update[of fs f "(fs ! f)\<lparr>fu_index := k, fu_status := ENQUEUED\<rparr>"]
    by (auto simp: R_def future_le_def nth_list_update)
  moreover have "R fs fs" for fs by (simp add: R_def)
  ultimately have "R ?fs fs'" using launch_loop_induct[of R, OF _ _ _ ok l] by blast
  then show ?thesis by (auto simp: s' R_def no_jump_def)
qed (simp add: launch_def)

text \<open>What a step does to the futures and which invokers it takes up.\<close>

definition takes_up :: "cq \<Rightarrow> frame list \<Rightarrow> bool" where
  "takes_up s new \<longleftrightarrow> (\<forall>f. Invoke f \<in> set new \<longrightarrow>
     f < length (q_futures s) \<and> status_of s f \<noteq> RUNNING \<and> status_of s f \<noteq> READY) \<and>
     (\<forall>f. Complete f \<in> set new \<longrightarrow> status_of s f = RUNNING) \<and>
     (\<forall>ps e. Block ps e \<in> set new \<longrightarrow> Handle ps e \<in> set new)"

definition no_new_handler :: "cq \<Rightarrow> cq \<Rightarrow> bool" where
  "no_new_handler s s' \<longleftrightarrow> (\<forall>f<length (q_futures s'). length (q_futures s) \<le> f \<longrightarrow> \<not> is_handler (fu_task (q_futures s' ! f)))"

lemma no_new_handler_length: "length (q_futures s') = length (q_futures s) \<Longrightarrow> no_new_handler s s'"
  by (simp add: no_new_handler_def)

lemma launch_length: "length (q_futures (launch ls s)) = length (q_futures s)"
proof -
  have "length (fst (launch_loop ls k fs q)) = length fs" for k fs q
    using launch_loop_shape[of ls k fs q] by (cases "launch_loop ls k fs q") (metis fst_conv length_map)
  then show ?thesis by (simp add: launch_def Let_def split: prod.splits) (metis fst_conv)
qed

definition ran_of :: "cq \<Rightarrow> frame \<Rightarrow> nat list" where
  "ran_of s fr = (case fr of Invoke f \<Rightarrow> (case fu_task (q_futures s ! f) of Task v \<Rightarrow> [f] | _ \<Rightarrow> []) | _ \<Rightarrow> [])"

lemma frame_step_effect:
  assumes inv: "cq_inv s" and i: "i < length (q_stacks s)" "q_stacks s ! i = fr # st" and step: "frame_step i st fr s = Some s'"
  obtains top where "q_stacks s' = (q_stacks s)[i := top @ st]" "takes_up s top"
    "futures_le (q_futures s) (q_futures s')" "q_ran s' = q_ran s @ ran_of s fr" "no_new_handler s s'" "no_jump (q_futures s) (q_futures s')"
proof -
  let ?fs = "q_futures s" and ?tk = "map fu_task (q_futures s)"
  have top: "t \<in># tokens s" if "t \<in># frame_tokens ?tk fr" for t by (rule top_token[OF i that])
  show ?thesis
  proof (cases fr)
    case (Invoke f)
    define tp where "tp = (case fu_task (?fs ! f) of Handle_dependent ps g \<Rightarrow> [Handle ps g, Complete f] | _ \<Rightarrow> [Complete f])"
    have "q_stacks s' = (q_stacks s)[i := tp @ st]" "q_ran s' = q_ran s @ ran_of s fr" "q_futures s' = ?fs"
      using step Invoke by (cases "fu_task (?fs ! f)"; auto simp: set_stack_def tp_def ran_of_def)+
    moreover have "status_of s f = RUNNING" using token_Trun[OF cq_invD(1)[OF inv] top] Invoke by simp
    then have "takes_up s tp" by (auto simp: takes_up_def tp_def split: task.splits)
    ultimately show ?thesis using that by (simp add: no_new_handler_length)
  next
    case (Complete f)
    have "future_le (?fs ! f) ((?fs ! f)\<lparr>fu_status := READY\<rparr>)" by (simp add: future_le_def)
    moreover have "no_jump ?fs (?fs[f := (?fs ! f)\<lparr>fu_status := READY\<rparr>])"
      using token_Trun[OF cq_invD(1)[OF inv] top] Complete by (intro no_jump_update) simp
    ultimately show ?thesis using futures_le_update step Complete that[of "[Signal f (fu_dependents (?fs ! f)) []]"]
      by (auto simp: queue_defs takes_up_def ran_of_def no_new_handler_length)
  next
    case (Signal f ds ls)
    show ?thesis
    proof (cases ds)
      case Nil
      then show ?thesis using launch_le[OF inv i(1)] i(2) Signal step that[of "[]"]
        by (auto simp: set_stack_def launch_threads launch_length takes_up_def ran_of_def no_new_handler_length)
    next
      case (Cons d ds')
      have d: "d < length ?fs" "status_of s d = CONSTRUCTING \<or> status_of s d = ON_HOLD"
        using token_Tpend[OF cq_invD(1)[OF inv] top] Signal Cons by simp_all
      define x where "x = (?fs ! d)\<lparr>fu_remaining := fu_remaining (?fs ! d) - 1\<rparr>"
      have "futures_le ?fs (?fs[d := x])" "futures_le ?fs (?fs[d := x\<lparr>fu_status := RUNNING\<rparr>])"
        "no_jump ?fs (?fs[d := x])" "no_jump ?fs (?fs[d := x\<lparr>fu_status := RUNNING\<rparr>])"
        using d by (auto intro!: futures_le_update no_jump_update simp: future_le_def x_def)
      then show ?thesis using step Signal Cons d that[of "[Signal f ds' ls]"] that[of "[Signal f ds' (ls @ [d])]"]
          that[of "[Invoke d, Signal f ds' ls]"]
        by (auto simp: queue_defs x_def Let_def takes_up_def ran_of_def no_new_handler_length split: if_splits)
    qed
  next
    case (Handle ps g)
    have g: "g < length ?fs" "status_of s g = CONSTRUCTING"
      using token_Thandle[OF cq_invD(1)[OF inv] top] Handle by simp_all
    have le: "futures_le ?fs (?fs[g := (?fs ! g)\<lparr>fu_status := ON_HOLD\<rparr>])" "futures_le ?fs (?fs[g := (?fs ! g)\<lparr>fu_status := RUNNING\<rparr>])"
      "futures_le ?fs (?fs[p := (?fs ! p)\<lparr>fu_dependents := fu_dependents (?fs ! p) @ [g]\<rparr>])"
      "no_jump ?fs (?fs[g := (?fs ! g)\<lparr>fu_status := ON_HOLD\<rparr>])" "no_jump ?fs (?fs[g := (?fs ! g)\<lparr>fu_status := RUNNING\<rparr>])" for p
      using g by (auto intro!: futures_le_update no_jump_update simp: future_le_def)
    have nj: "no_jump ?fs (?fs[p := (?fs ! p)\<lparr>fu_dependents := fu_dependents (?fs ! p) @ [g]\<rparr>])" for p
      by (intro no_jump_update) (cases "fu_status (?fs ! p)"; simp)
    show ?thesis
    proof (cases ps)
      case Nil
      show ?thesis using step Handle Nil g le(1,2,4,5) that[of "[]"] that[of "[Invoke g]"]
        by (auto simp: queue_defs takes_up_def ran_of_def no_new_handler_length split: if_splits)
    next
      case (Cons p qs)
      show ?thesis using step Handle Cons le(3)[of p] nj[of p] that[of "[Handle qs g]"] that[of "[Count qs g]"]
        by (auto simp: queue_defs takes_up_def ran_of_def no_new_handler_length split: if_splits)
    qed
  next
    case (Count ps g)
    have "future_le (?fs ! g) ((?fs ! g)\<lparr>fu_remaining := fu_remaining (?fs ! g) + 1\<rparr>)" by (simp add: future_le_def)
    moreover have "no_jump ?fs (?fs[g := (?fs ! g)\<lparr>fu_remaining := fu_remaining (?fs ! g) + 1\<rparr>])"
      by (intro no_jump_update) (cases "fu_status (?fs ! g)"; simp)
    ultimately show ?thesis using futures_le_update step Count that[of "[Handle ps g]"]
      by (auto simp: queue_defs takes_up_def ran_of_def no_new_handler_length)
  next
    case (Scan qs ps flag)
    show ?thesis
    proof (cases qs)
      case (Cons p rs)
      show ?thesis using step Scan Cons that[of "[Try p rs ps flag]"] that[of "[Scan rs ps flag]"] that[of "[Scan rs ps True]"]
        by (cases "status_of s p") (auto simp: set_stack_def takes_up_def ran_of_def no_new_handler_length)
    next
      case Nil
      show ?thesis using step Scan Nil that[of "[]"] that[of "[Handle ps (length ?fs), Block ps (length ?fs)]"] futures_le_append[of ?fs]
        by (auto simp: set_stack_def takes_up_def ran_of_def no_new_handler_def new_future_def is_handler_def less_Suc_eq nth_append Let_def split: if_splits)
    qed
  next
    case (Try p qs ps flag)
    obtain b s1 where t: "try_invoke p s = (b, s1)" by fastforce
    have p: "p < length ?fs" using stack_ok_of[OF inv i] Try by (simp add: stack_ok_def)
    note th = try_invoke_threads[OF t]
    show ?thesis
    proof (cases b)
      case True
      then have e: "status_of s p = ENQUEUED" and fs: "q_futures s1 = ?fs[p := (?fs ! p)\<lparr>fu_status := RUNNING\<rparr>]"
        using t by (auto simp: try_invoke_def Let_def queue_defs split: if_splits)
      have "futures_le ?fs (q_futures s1)" "no_jump ?fs (q_futures s1)"
        unfolding fs using e by (intro futures_le_update no_jump_update; simp add: future_le_def)+
      moreover have "length (q_futures s1) = length ?fs" using fs by simp
      ultimately show ?thesis using step Try t True e p th that[of "[Invoke p, Scan qs ps flag]"]
        by (auto simp: set_stack_def takes_up_def ran_of_def no_new_handler_length)
    next
      case False
      then have "q_futures s1 = ?fs" using t by (auto simp: try_invoke_def Let_def split: if_splits)
      with step Try t False th show ?thesis using that[of "[Scan qs ps True]"] by (auto simp: set_stack_def takes_up_def ran_of_def no_new_handler_length)
    qed
  next
    case (Block ps e)
    then show ?thesis using step that[of "[]"] by (auto simp: set_stack_def takes_up_def ran_of_def no_new_handler_length split: if_splits)
  next
    case Join
    then show ?thesis using step that[of "[]"] by (auto simp: set_stack_def takes_up_def ran_of_def no_new_handler_length split: if_splits)
  qed (use step in simp)
qed

lemma thread_step_effect:
  assumes inv: "cq_inv s" and step: "thread_step i s = Some s'"
  obtains top where "i < length (q_stacks s)" "q_stacks s' = (q_stacks s)[i := top @ tl (q_stacks s ! i)]" "takes_up s top"
    "futures_le (q_futures s) (q_futures s')"
    "q_ran s' = q_ran s @ (if q_stacks s ! i = [] then [] else ran_of s (hd (q_stacks s ! i)))" "no_new_handler s s'"
    "no_jump (q_futures s) (q_futures s')"
proof (cases "q_stacks s ! i")
  case (Cons fr st)
  with step have i: "i < length (q_stacks s)" "q_stacks s ! i = fr # st" "frame_step i st fr s = Some s'"
    by (auto simp: thread_step_def split: if_splits)
  obtain top where "q_stacks s' = (q_stacks s)[i := top @ st]" "takes_up s top"
    "futures_le (q_futures s) (q_futures s')" "q_ran s' = q_ran s @ ran_of s fr" "no_new_handler s s'" "no_jump (q_futures s) (q_futures s')"
    by (rule frame_step_effect[OF inv i])
  with i that[of top] show ?thesis by simp
next
  case Nil
  with step have i: "i < length (q_stacks s)" and pop: "worker_pop i s = Some s'"
    by (auto simp: thread_step_def split: if_splits)
  show ?thesis
  proof (cases "q_invokers s")
    case qn: Nil
    with pop have "s' = set_stack i [Exited] (s\<lparr>q_invokers := []\<rparr>)"
      by (auto simp: worker_pop_def pop_front_nullptr_def split: if_splits)
    then show ?thesis using that[of "[Exited]"] i Nil by (simp add: set_stack_def takes_up_def no_new_handler_def)
  next
    case qc: (Cons x q)
    then obtain f where x: "x = Some f" using cq_invD(2)[OF inv] by auto
    have s': "s' = set_stack i [Invoke f] (set_status f RUNNING (s\<lparr>q_invokers := pop_front_nullptr q\<rparr>))"
      using pop qc x by (auto simp: worker_pop_def pop_front_nullptr_def split: if_splits)
    have "Tq f \<in># tokens s" using qc x by (intro queue_token_in) simp
    note f = token_Tq[OF cq_invD(1)[OF inv] this]
    have "futures_le (q_futures s) ((q_futures s)[f := (q_futures s ! f)\<lparr>fu_status := RUNNING\<rparr>])"
      using f by (intro futures_le_update) (simp add: future_le_def)
    moreover have "no_jump (q_futures s) ((q_futures s)[f := (q_futures s ! f)\<lparr>fu_status := RUNNING\<rparr>])"
      by (intro no_jump_update) simp
    ultimately show ?thesis using that[of "[Invoke f]"] f i Nil by (simp add: s' queue_defs takes_up_def no_new_handler_def)
  qed
qed

section \<open>A task runs at most once\<close>

definition invoked :: "cq \<Rightarrow> nat \<Rightarrow> bool" where
  "invoked s f \<longleftrightarrow> (\<exists>st\<in>set (q_stacks s). Invoke f \<in> set st)"

definition ran_inv :: "cq \<Rightarrow> bool" where
  "ran_inv s \<longleftrightarrow> distinct (q_ran s) \<and>
     (\<forall>f\<in>set (q_ran s). f < length (q_futures s) \<and> (status_of s f = RUNNING \<or> status_of s f = READY) \<and> \<not> invoked s f)"

lemma invoke_unique:
  assumes inv: "cq_inv s" and i: "i < length (q_stacks s)" "q_stacks s ! i = Invoke f # st"
    and u: "u \<in> set ((q_stacks s)[i := st])"
  shows "Invoke f \<notin> set u"
proof
  assume "Invoke f \<in> set u"
  then have "Trun f \<in># all_tokens (q_futures s) (q_invokers s) ((q_stacks s)[i := st])"
    using frame_token_in[OF u] by simp
  then have "0 < count (all_tokens (q_futures s) (q_invokers s) ((q_stacks s)[i := st])) (Trun f)" by simp
  moreover have "count (all_tokens (q_futures s) (q_invokers s) ((q_stacks s)[i := st])) (Trun f) + 1 \<le> count (tokens s) (Trun f)"
    using arg_cong[OF all_tokens_stack[OF i(1), of "q_futures s" "q_invokers s" st], of "\<lambda>m. count m (Trun f)"] i(2) by simp
  ultimately have "count (tokens s) (Trun f) > 1" by linarith
  moreover have "f < length (q_futures s)" using token_Trun[OF cq_invD(1)[OF inv] top_token[OF i]] by simp
  then have "count (tokens s) (Trun f) \<le> 1" using tokens_okD[OF cq_invD(1)[OF inv]] by (simp add: future_ok_def)
  ultimately show False by simp
qed

lemma thread_step_ran:
  assumes inv: "cq_inv s" and ran: "ran_inv s" and step: "thread_step i s = Some s'"
  shows "ran_inv s'"
proof -
  obtain top where e: "i < length (q_stacks s)" "q_stacks s' = (q_stacks s)[i := top @ tl (q_stacks s ! i)]" "takes_up s top"
    "futures_le (q_futures s) (q_futures s')"
    "q_ran s' = q_ran s @ (if q_stacks s ! i = [] then [] else ran_of s (hd (q_stacks s ! i)))"
    by (rule thread_step_effect[OF inv step])
  have sub: "u \<in> set ((q_stacks s)[i := tl (q_stacks s ! i)]) \<or> u = top @ tl (q_stacks s ! i)" if "u \<in> set (q_stacks s')" for u
  proof -
    from that obtain j where "j < length (q_stacks s)" "u = q_stacks s' ! j" unfolding e(2) by (auto simp: in_set_conv_nth)
    then show ?thesis using e(1,2) by (cases "j = i") (auto simp: in_set_conv_nth)
  qed
  have old: "invoked s f \<or> f < length (q_futures s) \<and> status_of s f \<noteq> RUNNING \<and> status_of s f \<noteq> READY" if "invoked s' f" for f
  proof -
    from that obtain u where u: "u \<in> set (q_stacks s')" "Invoke f \<in> set u" by (auto simp: invoked_def)
    have mem: "q_stacks s ! i \<in> set (q_stacks s)" using e(1) by simp
    have "Invoke f \<in> set top \<or> Invoke f \<in> set (tl (q_stacks s ! i)) \<or> u \<in> set (q_stacks s)"
      using sub[OF u(1)] u(2) set_update_subset_insert[of "q_stacks s" i "tl (q_stacks s ! i)"] by auto
    then have "Invoke f \<in> set top \<or> invoked s f"
      using mem u(2) in_set_tl[of "Invoke f" "q_stacks s ! i"] unfolding invoked_def by blast
    then show ?thesis using e(3) by (auto simp: takes_up_def)
  qed
  have keep: "f < length (q_futures s') \<and> (status_of s' f = RUNNING \<or> status_of s' f = READY) \<and> \<not> invoked s' f" if "f \<in> set (q_ran s)" for f
    using ran that old[of f] futures_leD[OF e(4), of f] unfolding ran_inv_def by blast
  show ?thesis
  proof (cases "q_ran s' = q_ran s")
    case True
    then show ?thesis using ran keep by (simp add: ran_inv_def)
  next
    case False
    then obtain f st where f: "q_stacks s ! i = Invoke f # st" "q_ran s' = q_ran s @ [f]"
      using e(5) by (cases "q_stacks s ! i") (auto simp: ran_of_def split: frame.splits task.splits)
    have f_run: "f < length (q_futures s)" "status_of s f = RUNNING" using token_Trun[OF cq_invD(1)[OF inv] top_token[OF e(1) f(1)]] by simp_all
    have "Invoke f # st \<in> set (q_stacks s)" using nth_mem[OF e(1)] f(1) by simp
    then have "invoked s f" unfolding invoked_def by (metis list.set_intros(1))
    then have "f \<notin> set (q_ran s)" using ran by (auto simp: ran_inv_def)
    moreover have "\<not> invoked s' f"
    proof
      assume "invoked s' f"
      then obtain u where u: "u \<in> set (q_stacks s')" "Invoke f \<in> set u" by (auto simp: invoked_def)
      moreover have "Invoke f \<notin> set top" using e(3) f_run by (auto simp: takes_up_def)
      ultimately have "\<exists>v\<in>set ((q_stacks s)[i := st]). Invoke f \<in> set v"
        using sub[OF u(1)] f(1) e(1) by (auto intro: bexI[of _ st] simp: set_update_memI)
      with invoke_unique[OF inv e(1) f(1)] show False by blast
    qed
    ultimately show ?thesis using ran keep f_run futures_leD[OF e(4), of f] f(2) by (auto simp: ran_inv_def)
  qed
qed

section \<open>Priors first\<close>

text \<open>
  A prior \<open>p\<close> of \<open>g\<close> is handled when it is ready, when it will signal \<open>g\<close>, or when the loop of
  \<open>handle_dependent_invoker\<close> is still to come to it.
\<close>

definition handled :: "cq \<Rightarrow> nat \<Rightarrow> nat \<Rightarrow> bool" where
  "handled s g p \<longleftrightarrow> status_of s p = READY \<or> g \<in> set (fu_dependents (q_futures s ! p)) \<or>
     (\<exists>st\<in>set (q_stacks s). \<exists>qs. (Handle qs g \<in> set st \<or> Count qs g \<in> set st) \<and> p \<in> set qs)"

definition order_inv :: "cq \<Rightarrow> bool" where
  "order_inv s \<longleftrightarrow>
     (\<forall>h<length (q_futures s). \<forall>ps g. fu_task (q_futures s ! h) = Handle_dependent ps g \<longrightarrow>
        status_of s h = ENQUEUED \<or> invoked s h \<or> (\<forall>p\<in>set ps. handled s g p)) \<and>
     (\<forall>st\<in>set (q_stacks s). \<forall>ps e. Block ps e \<in> set st \<longrightarrow> (\<forall>p\<in>set ps. handled s e p))"

lemma handled_ready:
  assumes inv: "cq_inv s" and h: "handled s g p" and p: "p < length (q_futures s)" and g: "g < length (q_futures s)"
    "status_of s g \<noteq> CONSTRUCTING" "status_of s g \<noteq> ON_HOLD"
  shows "status_of s p = READY"
proof (rule ccontr)
  assume nr: "status_of s p \<noteq> READY"
  from h nr consider (dep) "g \<in> set (fu_dependents (q_futures s ! p))"
    | (frame) st qs where "st \<in> set (q_stacks s)" "Handle qs g \<in> set st \<or> Count qs g \<in> set st"
    by (auto simp: handled_def)
  then show False
  proof cases
    case dep
    then have "Tpend g \<in># tokens s" using nr by (intro future_token_in[OF p]) (simp add: future_tokens_eq)
    with token_Tpend[OF cq_invD(1)[OF inv]] g show False by auto
  next
    case frame
    then have "Thandle g \<in># tokens s \<or> Tcnt g \<in># tokens s"
      using frame_token_in[OF frame(1), of "Handle qs g" "Thandle g"] frame_token_in[OF frame(1), of "Count qs g" "Tcnt g"] by auto
    with token_Thandle[OF cq_invD(1)[OF inv], of g] token_Tcnt[OF cq_invD(1)[OF inv], of g] g show False by auto
  qed
qed

text \<open>Another thread's records stay, and the top record of the stepping thread hands on what it has left.\<close>

lemma handled_step:
  assumes inv: "cq_inv s" and step: "thread_step i s = Some s'" and p: "p < length (q_futures s)" and h: "handled s g p"
  shows "handled s' g p"
proof -
  obtain top where e: "i < length (q_stacks s)" "q_stacks s' = (q_stacks s)[i := top @ tl (q_stacks s ! i)]"
    "futures_le (q_futures s) (q_futures s')"
    by (rule thread_step_effect[OF inv step])
  note le = futures_leD[OF e(3) p]
  from h consider (old) "status_of s p = READY \<or> g \<in> set (fu_dependents (q_futures s ! p))"
    | (frame) j qs fr where "j < length (q_stacks s)" "fr \<in> set (q_stacks s ! j)" "fr = Handle qs g \<or> fr = Count qs g" "p \<in> set qs"
    unfolding handled_def by (metis in_set_conv_nth)
  then show ?thesis
  proof cases
    case old
    then show ?thesis using le by (auto simp: handled_def)
  next
    case frame
    have keep: "handled s' g p" if "k < length (q_stacks s')" "Handle rs g \<in> set (q_stacks s' ! k) \<or> Count rs g \<in> set (q_stacks s' ! k)" "p \<in> set rs" for k rs
      using that nth_mem[OF that(1)] unfolding handled_def by blast
    show ?thesis
    proof (cases "j = i")
      case False
      then show ?thesis using frame e by (intro keep[of j qs]) auto
    next
      case True
      then obtain fr' u where st: "q_stacks s ! i = fr' # u" using frame(2) by (cases "q_stacks s ! i") auto
      show ?thesis
      proof (cases "fr \<in> set u")
        case True
        then show ?thesis using frame e st by (intro keep[of i qs]) auto
      next
        case False
        then have fr': "fr' = fr" using frame(2) st \<open>j = i\<close> by auto
        have fs: "frame_step i u fr s = Some s'" using step st e(1) fr' by (simp add: thread_step_def)
        show ?thesis
        proof (cases "fr = Count qs g")
          case True
          then show ?thesis using fs frame(4) e(1) by (intro keep[of i qs]) (auto simp: queue_defs)
        next
          case False
          with frame(3,4) obtain q rs where qs: "fr = Handle (q # rs) g" "qs = q # rs" by (cases qs) auto
          show ?thesis
          proof (cases "status_of s q = READY")
            case True
            then have s': "s' = set_stack i (Handle rs g # u) s" using fs qs by simp
            show ?thesis
            proof (cases "p = q")
              case True
              then show ?thesis using le(4) \<open>status_of s q = READY\<close> by (simp add: handled_def)
            next
              case False
              then show ?thesis using s' frame(4) qs e(1) by (intro keep[of i rs]) (auto simp: set_stack_def)
            qed
          next
            case False
            then have s': "s' = set_stack i (Count rs g # u) (upd_future q (fu_dependents_update (\<lambda>ds. ds @ [g])) s)"
              using fs qs by (auto split: if_splits)
            show ?thesis
            proof (cases "p = q")
              case True
              then show ?thesis using s' p by (simp add: handled_def queue_defs)
            next
              case False
              then show ?thesis using s' frame(4) qs e(1) by (intro keep[of i rs]) (auto simp: queue_defs)
            qed
          qed
        qed
      qed
    qed
  qed
qed

lemma running_record:
  assumes "Trun f \<in># tokens s"
  shows "\<exists>st\<in>set (q_stacks s). Invoke f \<in> set st \<or> Complete f \<in> set st"
proof -
  have "Trun f \<notin># sum_list (map future_tokens fs)" for fs
    by (induction fs) (auto simp: future_tokens_eq task_tokens_def split: task.splits)
  then have "Trun f \<in># sum_list (map (stack_tokens (map fu_task (q_futures s))) (q_stacks s))"
    using assms by (auto simp: all_tokens_def)
  moreover have "t \<in># sum_list (map h sts) \<Longrightarrow> \<exists>st\<in>set sts. t \<in># h st" for h :: "frame list \<Rightarrow> token multiset" and t sts
    by (induction sts) auto
  ultimately obtain st where st: "st \<in> set (q_stacks s)" "Trun f \<in># stack_tokens (map fu_task (q_futures s)) st" by blast
  have "Invoke f \<in> set u \<or> Complete f \<in> set u" if "Trun f \<in># stack_tokens tk u" for u tk
    using that
  proof (induction u)
    case (Cons fr u)
    then show ?case by (cases fr) (auto simp: task_tokens_def split: task.splits)
  qed simp
  with st show ?thesis by blast
qed

lemma thread_step_order:
  assumes inv: "cq_inv s" and shape: "shape_inv s" and ord: "order_inv s" and step: "thread_step i s = Some s'"
  shows "order_inv s'"
proof -
  obtain top where e: "i < length (q_stacks s)" "q_stacks s' = (q_stacks s)[i := top @ tl (q_stacks s ! i)]" "takes_up s top"
    "futures_le (q_futures s) (q_futures s')" "no_new_handler s s'" "no_jump (q_futures s) (q_futures s')"
    by (rule thread_step_effect[OF inv step])
  note le = futures_leD[OF e(4)]
  have inv': "cq_inv s'" by (rule thread_step_inv[OF inv shape step])
  have mem: "q_stacks s ! i \<in> set (q_stacks s)" using e(1) by simp
  have frames: "fr \<in> set top \<or> (\<exists>v\<in>set (q_stacks s). fr \<in> set v)" if "u \<in> set (q_stacks s')" "fr \<in> set u" for u fr
  proof -
    have "u = top @ tl (q_stacks s ! i) \<or> u \<in> set (q_stacks s)"
      using that(1) e(2) set_update_subset_insert[of "q_stacks s" i "top @ tl (q_stacks s ! i)"] by auto
    then show ?thesis using that(2) mem in_set_tl[of fr "q_stacks s ! i"] by auto
  qed
  have stay: "top @ tl (q_stacks s ! i) \<in> set (q_stacks s')" using e(1,2) by (simp add: set_update_memI)
  have "status_of s' h = ENQUEUED \<or> invoked s' h \<or> (\<forall>p\<in>set ps. handled s' g p)"
    if h: "h < length (q_futures s')" and t: "fu_task (q_futures s' ! h) = Handle_dependent ps g" for h ps g
  proof -
    have hs: "h < length (q_futures s)" using e(5) h t by (auto simp: no_new_handler_def is_handler_def)
    have ts: "fu_task (q_futures s ! h) = Handle_dependent ps g" using le(2)[OF hs] t by simp
    have ps: "\<forall>p\<in>set ps. p < length (q_futures s)" using cq_invD(4)[OF inv hs] ts by (auto simp: future_wf_def)
    from ord hs ts consider (enq) "status_of s h = ENQUEUED" | (inv) "invoked s h" | (all) "\<forall>p\<in>set ps. handled s g p"
      unfolding order_inv_def by blast
    then show ?thesis
    proof cases
      case all
      then show ?thesis using handled_step[OF inv step] ps by blast
    next
      case enq
      show ?thesis
      proof (cases "status_of s' h = ENQUEUED")
        case False
        then have "status_of s' h = RUNNING \<or> status_of s' h = READY" using le(6)[OF hs enq] by blast
        then show ?thesis
        proof
          assume "status_of s' h = RUNNING"
          then have "count (tokens s') (Trun h) > 0" using tokens_okD[OF cq_invD(1)[OF inv'] h] by (simp add: future_ok_def)
          then obtain u where u: "u \<in> set (q_stacks s')" "Invoke h \<in> set u \<or> Complete h \<in> set u" using running_record[of h s'] by auto
          have "Complete h \<notin> set u"
          proof
            assume "Complete h \<in> set u"
            from frames[OF u(1) this] show False
            proof
              assume "Complete h \<in> set top"
              with e(3) enq show False by (auto simp: takes_up_def)
            next
              assume "\<exists>v\<in>set (q_stacks s). Complete h \<in> set v"
              then have "Trun h \<in># tokens s" using frame_token_in[where t = "Trun h" and fr = "Complete h"] by auto
              with token_Trun[OF cq_invD(1)[OF inv]] enq show False by auto
            qed
          qed
          with u show ?thesis by (auto simp: invoked_def)
        next
          assume ready: "status_of s' h = READY"
          then show ?thesis using e(6) hs enq by (simp add: no_jump_def)
        qed
      qed simp
    next
      case inv
      then obtain j where j: "j < length (q_stacks s)" "Invoke h \<in> set (q_stacks s ! j)" unfolding invoked_def by (metis in_set_conv_nth)
      show ?thesis
      proof (cases "j = i \<and> Invoke h \<notin> set (tl (q_stacks s ! i))")
        case False
        then have "Invoke h \<in> set (q_stacks s' ! j)" using j e(1,2) by (cases "j = i") auto
        moreover have "q_stacks s' ! j \<in> set (q_stacks s')" using j(1) e(2) by simp
        ultimately show ?thesis by (auto simp: invoked_def)
      next
        case True
        then obtain u where st: "q_stacks s ! i = Invoke h # u" using j by (cases "q_stacks s ! i") auto
        then have "s' = set_stack i (Handle ps g # Complete h # u) s" using step e(1) ts by (simp add: thread_step_def)
        then have "Handle ps g # Complete h # u \<in> set (q_stacks s')" using e(1) by (simp add: set_stack_def set_update_memI)
        then show ?thesis unfolding handled_def by (metis list.set_intros(1))
      qed
    qed
  qed
  moreover have "handled s' e' p" if u: "u \<in> set (q_stacks s')" and b: "Block ps e' \<in> set u" and p: "p \<in> set ps" for u ps e' p
  proof -
    from frames[OF u b] consider (new) "Block ps e' \<in> set top" | (old) v where "v \<in> set (q_stacks s)" "Block ps e' \<in> set v" by blast
    then show ?thesis
    proof cases
      case new
      then have "Handle ps e' \<in> set (top @ tl (q_stacks s ! i))" using e(3) by (auto simp: takes_up_def)
      then show ?thesis unfolding handled_def using stay p by blast
    next
      case old
      then have "handled s e' p" using ord p unfolding order_inv_def by blast
      moreover have "p < length (q_futures s)" using cq_invD(3)[OF inv old(1)] old(2) p by (force simp: stack_ok_def)
      ultimately show ?thesis by (intro handled_step[OF inv step])
    qed
  qed
  ultimately show ?thesis unfolding order_inv_def by blast
qed

end
