(* ===== verification/Callback_Properties.thy ===== *)
theory Callback_Properties
  imports Callback_Order
begin

text \<open>
  What the callback queue promises: every call completes, a task runs once and after its priors, \<open>wait\<close>
  returns when its futures are ready. At the end a lookup in the deque that misses a queued task.
\<close>

section \<open>Calls keep the order\<close>

lemma client_call_effect:
  assumes "client_call i c s = Some s'"
  obtains xs st where "i < length (q_stacks s)" "q_stacks s ! i = []" "q_futures s' = q_futures s @ xs"
    "q_stacks s' = (q_stacks s)[i := st]" "\<forall>fr\<in>set st. \<not> is_work fr \<and> (\<forall>ps e. fr \<noteq> Block ps e)" "q_ran s' = q_ran s"
    "\<forall>x\<in>set xs. is_handler (fu_task x) \<longrightarrow> fu_status x = ENQUEUED"
proof -
  have c: "i < length (q_stacks s)" "q_stacks s ! i = []" and s': "s' = call_body i c s"
    using assms by (auto simp: client_call_def split: if_splits)
  have same: "(q_stacks s)[i := []] = q_stacks s" using c by (metis list_update_id)
  show ?thesis
  proof (cases c)
    case (Push v)
    then show ?thesis using that[of _ "[]"] s' c same by (auto simp: enqueue_back_def is_handler_def new_future_def)
  next
    case (Push_dependent ps v)
    show ?thesis
    proof (cases "must_wait ps s")
      case True
      then show ?thesis using that[of "[new_future CONSTRUCTING (Task v), (new_future ENQUEUED (Handle_dependent ps (length (q_futures s))))
            \<lparr>fu_index := back_invoker_index (q_futures s @ [new_future CONSTRUCTING (Task v)]) (q_invokers s) + 1\<rparr>]" "[]"] s' Push_dependent c same
        by (auto simp: enqueue_back_def push_dependent_def is_handler_def new_future_def)
    next
      case False
      then show ?thesis using that[of _ "[]"] s' Push_dependent c same by (auto simp: enqueue_back_def push_dependent_def is_handler_def new_future_def)
    qed
  next
    case (Wait ps)
    then show ?thesis using that[of "[]" "[Scan ps ps False]"] s' c by (auto simp: set_stack_def)
  next
    case Destroy
    then show ?thesis using that[of "[]" "[Join]"] s' c by (auto simp: set_stack_def)
  qed
qed

lemma call_frames:
  assumes "i < length (q_stacks s)" "q_stacks s ! i = []" "q_stacks s' = (q_stacks s)[i := st]"
  shows "(\<exists>u\<in>set (q_stacks s'). fr \<in> set u) \<longleftrightarrow> fr \<in> set st \<or> (\<exists>u\<in>set (q_stacks s). fr \<in> set u)"
proof
  assume "\<exists>u\<in>set (q_stacks s'). fr \<in> set u"
  then show "fr \<in> set st \<or> (\<exists>u\<in>set (q_stacks s). fr \<in> set u)"
    using assms(3) set_update_subset_insert[of "q_stacks s" i st] by auto
next
  assume "fr \<in> set st \<or> (\<exists>u\<in>set (q_stacks s). fr \<in> set u)"
  then show "\<exists>u\<in>set (q_stacks s'). fr \<in> set u"
  proof
    assume "fr \<in> set st"
    then show ?thesis using assms by (metis set_update_memI)
  next
    assume "\<exists>u\<in>set (q_stacks s). fr \<in> set u"
    then obtain j where j: "j < length (q_stacks s)" "fr \<in> set (q_stacks s ! j)" by (metis in_set_conv_nth)
    then have "j \<noteq> i" using assms(2) by auto
    then show ?thesis using j assms(3) by (metis length_list_update nth_list_update_neq nth_mem)
  qed
qed

lemma handled_call:
  assumes "client_call i c s = Some s'" "p < length (q_futures s)" "handled s g p"
  shows "handled s' g p"
proof -
  obtain xs st where e: "i < length (q_stacks s)" "q_stacks s ! i = []" "q_futures s' = q_futures s @ xs" "q_stacks s' = (q_stacks s)[i := st]"
    by (rule client_call_effect[OF assms(1)])
  have fr: "(\<exists>u\<in>set (q_stacks s). f \<in> set u) \<Longrightarrow> (\<exists>u\<in>set (q_stacks s'). f \<in> set u)" for f
    using call_frames[OF e(1,2,4)] by blast
  from assms(2,3) e(3) show ?thesis unfolding handled_def by (simp add: nth_append) (meson fr)
qed

lemma client_call_order:
  assumes inv: "cq_inv s" and ord: "order_inv s" and call: "client_call i c s = Some s'"
  shows "order_inv s'"
proof -
  obtain xs st where e: "i < length (q_stacks s)" "q_stacks s ! i = []" "q_futures s' = q_futures s @ xs" "q_stacks s' = (q_stacks s)[i := st]"
      "\<forall>fr\<in>set st. \<not> is_work fr \<and> (\<forall>ps e. fr \<noteq> Block ps e)" "\<forall>x\<in>set xs. is_handler (fu_task x) \<longrightarrow> fu_status x = ENQUEUED"
    by (rule client_call_effect[OF call])
  note fr = call_frames[OF e(1,2,4)]
  have "status_of s' h = ENQUEUED \<or> invoked s' h \<or> (\<forall>p\<in>set ps. handled s' g p)"
    if h: "h < length (q_futures s')" and t: "fu_task (q_futures s' ! h) = Handle_dependent ps g" for h ps g
  proof (cases "h < length (q_futures s)")
    case False
    then have "q_futures s' ! h \<in> set xs" using h e(3) by (simp add: nth_append)
    then show ?thesis using e(6) t by (auto simp: is_handler_def)
  next
    case True
    then have ts: "fu_task (q_futures s ! h) = Handle_dependent ps g" "status_of s' h = status_of s h" using t e(3) by (simp_all add: nth_append)
    have "\<forall>p\<in>set ps. p < length (q_futures s)" using cq_invD(4)[OF inv True] ts by (auto simp: future_wf_def)
    moreover have "status_of s h = ENQUEUED \<or> invoked s h \<or> (\<forall>p\<in>set ps. handled s g p)"
      using ord True ts(1) unfolding order_inv_def by blast
    moreover have "invoked s h \<Longrightarrow> invoked s' h" using fr[of "Invoke h"] by (simp add: invoked_def)
    ultimately show ?thesis using handled_call[OF call] ts(2) by auto
  qed
  moreover have "handled s' e' p" if u: "u \<in> set (q_stacks s')" "Block ps e' \<in> set u" "p \<in> set ps" for u ps e' p
  proof -
    from u e(5) fr[of "Block ps e'"] obtain v where v: "v \<in> set (q_stacks s)" "Block ps e' \<in> set v" by blast
    then have "handled s e' p" using ord u(3) unfolding order_inv_def by blast
    moreover have "p < length (q_futures s)" using cq_invD(3)[OF inv v(1)] v(2) u(3) by (force simp: stack_ok_def)
    ultimately show ?thesis by (intro handled_call[OF call])
  qed
  ultimately show ?thesis unfolding order_inv_def by blast
qed

lemma client_call_ran:
  assumes ran: "ran_inv s" and call: "client_call i c s = Some s'"
  shows "ran_inv s'"
proof -
  obtain xs st where e: "i < length (q_stacks s)" "q_stacks s ! i = []" "q_futures s' = q_futures s @ xs" "q_stacks s' = (q_stacks s)[i := st]"
      "\<forall>fr\<in>set st. \<not> is_work fr \<and> (\<forall>ps e. fr \<noteq> Block ps e)" "q_ran s' = q_ran s"
    by (rule client_call_effect[OF call])
  have "invoked s' f \<longleftrightarrow> invoked s f" for f
    using call_frames[OF e(1,2,4), of "Invoke f"] e(5) by (auto simp: invoked_def)
  then show ?thesis using ran e(3,6) by (auto simp: ran_inv_def nth_append)
qed

definition run_inv :: "cq \<Rightarrow> bool" where
  "run_inv s \<longleftrightarrow> cq_inv s \<and> shape_inv s \<and> ran_inv s \<and> order_inv s"

lemma act_run_inv: "run_inv s \<Longrightarrow> act a s = Some s' \<Longrightarrow> run_inv s'"
  using act_inv[of s a s'] client_call_order[of s] client_call_ran[of s] thread_step_order[of s] thread_step_ran[of s]
  by (cases a) (auto simp: run_inv_def)

lemma act_all_run_inv: "run_inv s \<Longrightarrow> act_all as s = Some s' \<Longrightarrow> run_inv s'"
  by (induction as arbitrary: s) (auto split: option.splits dest: act_run_inv)

lemma new_queue_run_inv: "run_inv (new_queue m n)"
  by (simp add: run_inv_def new_queue_inv) (auto simp: ran_inv_def order_inv_def new_queue_def)

lemma act_all_append: "act_all (as @ bs) s = (case act_all as s of None \<Rightarrow> None | Some s1 \<Rightarrow> act_all bs s1)"
  by (induction as arbitrary: s) (auto split: option.split)

lemma act_futures_le: "run_inv s \<Longrightarrow> act a s = Some s' \<Longrightarrow> futures_le (q_futures s) (q_futures s')"
proof (cases a)
  case (Call i c)
  assume "run_inv s" "act a s = Some s'"
  then have "client_call i c s = Some s'" using Call by simp
  then show ?thesis by (rule client_call_effect) (simp add: futures_le_append)
next
  case (Step i)
  assume "run_inv s" "act a s = Some s'"
  then have "cq_inv s" "thread_step i s = Some s'" using Step by (simp_all add: run_inv_def)
  then show ?thesis by (rule thread_step_effect)
qed

lemma act_all_futures_le: "run_inv s \<Longrightarrow> act_all as s = Some s' \<Longrightarrow> futures_le (q_futures s) (q_futures s')"
proof (induction as arbitrary: s)
  case (Cons a as)
  then obtain s1 where s1: "act a s = Some s1" "act_all as s1 = Some s'" by (auto split: option.splits)
  from futures_le_trans[OF act_futures_le[OF Cons.prems(1) s1(1)] Cons.IH[OF act_run_inv[OF Cons.prems(1) s1(1)] s1(2)]]
  show ?case .
qed simp

lemma priors_ready:
  assumes inv: "run_inv s" and h: "h < length (q_futures s)" "fu_task (q_futures s ! h) = Handle_dependent ps g"
    and g: "status_of s g = RUNNING \<or> status_of s g = READY" and p: "p \<in> set ps"
  shows "status_of s p = READY"
proof -
  have cq: "cq_inv s" and ord: "order_inv s" using inv by (simp_all add: run_inv_def)
  have b: "p < length (q_futures s)" "g < length (q_futures s)" using cq_invD(4)[OF cq h(1)] h(2) p by (auto simp: future_wf_def)
  have nt: "Thandle g \<notin># tokens s" using token_Thandle[OF cq_invD(1)[OF cq], of g] g by auto
  have "status_of s h \<noteq> ENQUEUED"
    using nt future_token_in[OF h(1), of "Thandle g"] h(2) by (auto simp: future_tokens_eq task_tokens_def)
  moreover have "\<not> invoked s h"
  proof
    assume "invoked s h"
    then obtain st where "st \<in> set (q_stacks s)" "Invoke h \<in> set st" by (auto simp: invoked_def)
    from frame_token_in[OF this, of "Thandle g" "q_futures s" "q_invokers s"] nt h show False by (simp add: task_tokens_def)
  qed
  ultimately have "handled s g p" using ord h p unfolding order_inv_def by blast
  with handled_ready[OF cq] b g show ?thesis by auto
qed

section \<open>The call of \<open>wait\<close>\<close>

text \<open>The stack of a client in \<open>wait\<close>, with the futures that are ready.\<close>

definition scanned :: "nat list \<Rightarrow> (nat \<Rightarrow> bool) \<Rightarrow> frame list \<Rightarrow> nat list \<Rightarrow> bool" where
  "scanned ps R xs qs \<longleftrightarrow> (\<forall>p\<in>set ps. p \<in> set qs \<or> R p \<or> (xs \<noteq> [] \<and> (last xs = Invoke p \<or> last xs = Complete p)))"

inductive wait_stack :: "nat list \<Rightarrow> (nat \<Rightarrow> bool) \<Rightarrow> frame list \<Rightarrow> bool" for ps R where
  returned: "\<forall>p\<in>set ps. R p \<Longrightarrow> wait_stack ps R []"
| scanning: "flag \<or> scanned ps R xs qs \<Longrightarrow> wait_stack ps R (xs @ [Scan qs ps flag])"
| trying: "flag \<or> (\<forall>p\<in>set ps. p = q \<or> p \<in> set qs \<or> R p) \<Longrightarrow> wait_stack ps R [Try q qs ps flag]"
| blocked: "wait_stack ps R (xs @ [Block ps e])"

lemma wait_stack_mono:
  assumes "wait_stack ps R st" "\<And>p. p \<in> set ps \<Longrightarrow> R p \<Longrightarrow> R' p"
  shows "wait_stack ps R' st"
  using assms(1)
proof cases
  case (scanning flag xs qs)
  then have "flag \<or> scanned ps R' xs qs" using assms(2) unfolding scanned_def by blast
  with scanning(1) show ?thesis by (auto intro: wait_stack.scanning)
next
  case (trying flag q qs)
  then have "flag \<or> (\<forall>p\<in>set ps. p = q \<or> p \<in> set qs \<or> R' p)" using assms(2) by blast
  with trying(1) show ?thesis by (auto intro: wait_stack.trying)
qed (use assms(2) in \<open>auto intro: wait_stack.intros\<close>)

lemma wait_stack_cases:
  assumes "wait_stack ps R st"
  shows "st = [] \<and> (\<forall>p\<in>set ps. R p) \<or> (\<exists>xs qs flag. st = xs @ [Scan qs ps flag] \<and> (flag \<or> scanned ps R xs qs)) \<or>
    (\<exists>q qs flag. st = [Try q qs ps flag] \<and> (flag \<or> (\<forall>p\<in>set ps. p = q \<or> p \<in> set qs \<or> R p))) \<or> (\<exists>xs e. st = xs @ [Block ps e])"
  using assms by cases auto

definition wait_inv :: "nat list \<Rightarrow> nat \<Rightarrow> cq \<Rightarrow> bool" where
  "wait_inv ps c s \<longleftrightarrow> c < length (q_stacks s) \<and> c < q_clients s \<and> (\<forall>p\<in>set ps. p < length (q_futures s)) \<and>
     wait_stack ps (\<lambda>p. status_of s p = READY) (q_stacks s ! c)"

lemma wait_invI:
  assumes "wait_inv ps c s" "futures_le (q_futures s) (q_futures s')" "length (q_stacks s') = length (q_stacks s)" "q_clients s' = q_clients s"
    "wait_stack ps (\<lambda>p. status_of s p = READY \<or> status_of s' p = READY) (q_stacks s' ! c)"
  shows "wait_inv ps c s'"
proof -
  have le: "p < length (q_futures s')" "status_of s p = READY \<Longrightarrow> status_of s' p = READY" if "p \<in> set ps" for p
    using assms(1) that futures_leD[OF assms(2), of p] by (auto simp: wait_inv_def)
  have "wait_stack ps (\<lambda>p. status_of s' p = READY) (q_stacks s' ! c)"
    by (rule wait_stack_mono[OF assms(5)]) (use le in blast)
  with assms(1,3,4) le show ?thesis by (simp add: wait_inv_def)
qed

lemma wait_step_work:
  assumes run: "run_inv s" and w: "wait_inv ps c s" and st: "q_stacks s ! c = fr # xs @ [l]" and step: "thread_step c s = Some s'"
  shows "wait_inv ps c s'"
proof -
  have cq: "cq_inv s" using run by (simp add: run_inv_def)
  have c: "c < length (q_stacks s)" "c < q_clients s" and ps: "\<forall>p\<in>set ps. p < length (q_futures s)"
    and ws: "wait_stack ps (\<lambda>p. status_of s p = READY) (fr # xs @ [l])" using w st by (simp_all add: wait_inv_def)
  have fs: "frame_step c (xs @ [l]) fr s = Some s'" using step st c by (simp add: thread_step_def)
  obtain top where e: "q_stacks s' = (q_stacks s)[c := top @ xs @ [l]]" "futures_le (q_futures s) (q_futures s')"
    by (rule frame_step_effect[OF cq c(1) st fs])
  have "q_clients s' = q_clients s" using frame_step_threads[OF fs] by (auto simp: same_threads_def)
  moreover have new: "q_stacks s' ! c = (top @ xs) @ [l]" using e(1) c by simp
  have "wait_stack ps (\<lambda>p. status_of s p = READY \<or> status_of s' p = READY) ((top @ xs) @ [l])" (is ?W)
    using ws
  proof cases
    case (scanning flag ys qs)
    note old = scanning(2)
    have "(fr # xs) @ [l] = ys @ [Scan qs ps flag]" using scanning(1) by simp
    then have l: "l = Scan qs ps flag" "ys = fr # xs" by (simp_all del: append_Cons)
    have "status_of s' p = READY \<or> (top \<noteq> [] \<and> (last top = Invoke p \<or> last top = Complete p))" if p: "p \<in> set ps" "fr = Invoke p \<or> fr = Complete p" for p
    proof (cases "fr = Complete p")
      case True
      then show ?thesis using fs p ps by (auto simp: queue_defs)
    next
      case False
      then have i: "fr = Invoke p" using p by simp
      define tp where "tp = (case fu_task (q_futures s ! p) of Handle_dependent ps g \<Rightarrow> [Handle ps g, Complete p] | _ \<Rightarrow> [Complete p])"
      have "q_stacks s' = (q_stacks s)[c := tp @ xs @ [l]]"
        using fs i by (cases "fu_task (q_futures s ! p)") (auto simp: set_stack_def tp_def)
      then have "tp = top" using e(1) c by (metis append_same_eq nth_list_update_eq)
      then show ?thesis by (auto simp: tp_def split: task.splits)
    qed
    then have "flag \<or> scanned ps (\<lambda>p. status_of s p = READY \<or> status_of s' p = READY) (top @ xs) qs"
      using old unfolding scanned_def l(2) by (cases "xs = []") auto
    then show ?W unfolding l(1) by (rule wait_stack.scanning)
  next
    case (blocked ys e)
    then have "(fr # xs) @ [l] = ys @ [Block ps e]" by simp
    then have "l = Block ps e" by (simp del: append_Cons)
    then show ?W using wait_stack.blocked[of ps _ "top @ xs" e] by simp
  qed auto
  ultimately show ?thesis using wait_invI[OF w e(2)] e(1) new by simp
qed

lemma blocked_priors:
  assumes run: "run_inv s" and st: "st \<in> set (q_stacks s)" "Block ps e \<in> set st" and e: "status_of s e = READY" and p: "p \<in> set ps"
  shows "status_of s p = READY"
proof -
  have cq: "cq_inv s" using run by (simp add: run_inv_def)
  have "handled s e p" using run st p unfolding run_inv_def order_inv_def by blast
  moreover have "e < length (q_futures s)" "p < e" using cq_invD(3)[OF cq st(1)] st(2) p by (force simp: stack_ok_def)+
  ultimately show ?thesis using handled_ready[OF cq] e by auto
qed

lemma wait_step_bottom:
  assumes run: "run_inv s" and w: "wait_inv ps c s" and st: "q_stacks s ! c = [fr]" and step: "thread_step c s = Some s'"
  shows "wait_inv ps c s'"
proof -
  have c: "c < length (q_stacks s)" and ws: "wait_stack ps (\<lambda>p. status_of s p = READY) [fr]" using w st by (simp_all add: wait_inv_def)
  have fs: "frame_step c [] fr s = Some s'" using step st c by (simp add: thread_step_def)
  have le: "futures_le (q_futures s) (q_futures s')" using act_futures_le[OF run, of "Step c"] step by simp
  have same: "length (q_stacks s') = length (q_stacks s)" "q_clients s' = q_clients s"
    using frame_step_threads[OF fs] by (auto simp: same_threads_def)
  let ?R = "\<lambda>p. status_of s p = READY \<or> status_of s' p = READY"
  from wait_stack_cases[OF ws] consider
    (scan) qs flag where "fr = Scan qs ps flag" "flag \<or> (\<forall>p\<in>set ps. p \<in> set qs \<or> status_of s p = READY)"
    | (attempt) q qs flag where "fr = Try q qs ps flag" "flag \<or> (\<forall>p\<in>set ps. p = q \<or> p \<in> set qs \<or> status_of s p = READY)"
    | (block) e where "fr = Block ps e"
    by (auto simp: Cons_eq_append_conv scanned_def)
  then have "wait_stack ps ?R (q_stacks s' ! c)"
  proof cases
    case scan
    show ?thesis
    proof (cases qs)
      case (Cons q rs)
      show ?thesis
      proof (cases "status_of s q = ENQUEUED \<or> status_of s q = READY")
        case False
        then have "q_stacks s' ! c = [] @ [Scan rs ps True]"
          using fs scan(1) c Cons by (cases "status_of s q") (auto simp: set_stack_def)
        then show ?thesis by (metis wait_stack.scanning)
      next
        case True
        then have "q_stacks s' ! c = (if status_of s q = READY then [] @ [Scan rs ps flag] else [Try q rs ps flag])"
          using fs scan(1) c Cons by (auto simp: set_stack_def)
        moreover have "flag \<or> (\<forall>p\<in>set ps. p = q \<or> p \<in> set rs \<or> ?R p)" using scan(2) Cons by auto
        moreover have "status_of s q = READY \<Longrightarrow> flag \<or> scanned ps ?R [] rs" using scan(2) Cons by (auto simp: scanned_def)
        ultimately show ?thesis using wait_stack.scanning[of flag ps ?R "[]" rs] wait_stack.trying[of flag ps q rs ?R]
          by (auto split: if_splits)
      qed
    next
      case Nil
      show ?thesis
      proof (cases "\<not> flag \<or> \<not> must_wait ps s")
        case True
        then have "q_stacks s' ! c = []" using fs scan(1) Nil c by (auto simp: set_stack_def)
        moreover have "\<forall>p\<in>set ps. status_of s p = READY" using True scan(2) Nil by (auto simp: must_wait_def)
        ultimately show ?thesis using wait_stack.returned[of ps ?R] by simp
      next
        case False
        then have "q_stacks s' ! c = [Handle ps (length (q_futures s))] @ [Block ps (length (q_futures s))]"
          using fs scan(1) Nil c by (auto simp: set_stack_def Let_def)
        then show ?thesis by (metis wait_stack.blocked)
      qed
    qed
  next
    case attempt
    obtain b s1 where t: "try_invoke q s = (b, s1)" by fastforce
    have "q_stacks s1 = q_stacks s" using try_invoke_threads[OF t] by simp
    then have "q_stacks s' ! c = [Invoke q] @ [Scan qs ps flag] \<or> q_stacks s' ! c = [] @ [Scan qs ps True]"
      using fs attempt(1) t c by (cases b) (auto simp: set_stack_def)
    moreover have "flag \<or> scanned ps ?R [Invoke q] qs" using attempt(2) by (auto simp: scanned_def)
    ultimately show ?thesis using wait_stack.scanning[of flag ps ?R "[Invoke q]" qs] wait_stack.scanning[of True ps ?R "[]" qs] by auto
  next
    case block
    then have r: "status_of s e = READY" and s': "q_stacks s' ! c = []" using fs c by (auto simp: set_stack_def split: if_splits)
    have "\<forall>p\<in>set ps. status_of s p = READY"
      using blocked_priors[OF run nth_mem[OF c] _ r] st block by simp
    then show ?thesis using wait_stack.returned[of ps ?R] s' by simp
  qed
  then show ?thesis by (rule wait_invI[OF w le same])
qed

lemma act_wait:
  assumes run: "run_inv s" and w: "wait_inv ps c s" and a: "act a s = Some s'" and nc: "\<And>cl. a \<noteq> Call c cl"
  shows "wait_inv ps c s'"
proof -
  have le: "futures_le (q_futures s) (q_futures s')" by (rule act_futures_le[OF run a])
  have cq: "cq_inv s" and shape: "shape_inv s" using run by (simp_all add: run_inv_def)
  show ?thesis
  proof (cases "a = Step c \<and> q_stacks s ! c \<noteq> []")
    case True
    then have step: "thread_step c s = Some s'" using a by simp
    show ?thesis
    proof (cases "tl (q_stacks s ! c) = []")
      case True
      then obtain fr where "q_stacks s ! c = [fr]" using \<open>a = Step c \<and> q_stacks s ! c \<noteq> []\<close> by (cases "q_stacks s ! c") auto
      then show ?thesis by (rule wait_step_bottom[OF run w _ step])
    next
      case False
      then obtain fr ys where ys: "q_stacks s ! c = fr # ys" "ys \<noteq> []" by (cases "q_stacks s ! c") auto
      then obtain xs l where xs: "ys = xs @ [l]" by (metis append_butlast_last_id)
      then show ?thesis using wait_step_work[OF run w _ step] ys by simp
    qed
  next
    case False
    have "q_stacks s' ! c = q_stacks s ! c \<and> length (q_stacks s') = length (q_stacks s) \<and> q_clients s' = q_clients s"
    proof (cases a)
      case (Call i cl)
      then have "client_call i cl s = Some s'" "i \<noteq> c" using a nc by auto
      then show ?thesis by (cases cl) (auto simp: client_call_def set_stack_def enqueue_back_def push_dependent_def split: if_splits)
    next
      case (Step i)
      then have st: "thread_step i s = Some s'" using a by simp
      show ?thesis
      proof (cases "i = c")
        case True
        then have "q_stacks s ! c = []" using False Step by simp
        then show ?thesis using st True w by (simp add: thread_step_def wait_inv_def split: if_splits)
      next
        case ic: False
        obtain u where "same_threads i u s s'" by (rule thread_step_threads[OF shape st])
        then show ?thesis using ic by (simp add: same_threads_def)
      qed
    qed
    moreover have "wait_stack ps (\<lambda>p. status_of s p = READY \<or> status_of s' p = READY) (q_stacks s ! c)"
      using w by (auto simp: wait_inv_def intro: wait_stack_mono)
    ultimately show ?thesis by (intro wait_invI[OF w le]) simp_all
  qed
qed

lemma act_all_wait:
  "run_inv s \<Longrightarrow> wait_inv ps c s \<Longrightarrow> act_all as s = Some s' \<Longrightarrow> (\<And>cl. Call c cl \<notin> set as) \<Longrightarrow> wait_inv ps c s'"
proof (induction as arbitrary: s)
  case (Cons a as)
  then obtain s1 where s1: "act a s = Some s1" "act_all as s1 = Some s'" by (auto split: option.splits)
  have nc: "a \<noteq> Call c cl" for cl using Cons.prems(4)[of cl] by auto
  have "Call c cl \<notin> set as" for cl using Cons.prems(4)[of cl] by simp
  with Cons.IH[OF act_run_inv[OF Cons.prems(1) s1(1)] act_wait[OF Cons.prems(1,2) s1(1) nc] s1(2)] show ?case by blast
qed simp

section \<open>Properties\<close>

lemma step_work: "queue_inv s \<Longrightarrow> act_all (map Step js) s = Some s' \<Longrightarrow> length js + work s' \<le> work s"
proof (induction js arbitrary: s)
  case (Cons j js)
  then obtain s1 where s1: "thread_step j s = Some s1" "act_all (map Step js) s1 = Some s'" by (auto split: option.splits)
  have "queue_inv s1" using act_queue_inv[OF Cons.prems(1), of "Step j"] s1(1) by simp
  with Cons.IH[OF this s1(2)] thread_step_work[of s j s1] Cons.prems(1) s1(1) show ?case by (simp add: queue_inv_def)
qed simp

text \<open>
  C33: A queue with at least one worker neither deadlocks nor runs for ever. After any sequence of calls and
  steps, whatever the interleaving, only a bounded number of steps can follow without a new call; and when no
  thread can take a step, every future is ready, every client has returned from its call, and every worker of
  a queue that is being destroyed has left its loop.
\<close>

theorem callback_queue_completes:
  assumes "0 < n" "act_all as (new_queue m n) = Some s"
  shows "(\<forall>js s'. act_all (map Step js) s = Some s' \<longrightarrow> length js \<le> work s) \<and>
    ((\<forall>i. thread_step i s = None) \<longrightarrow>
       (\<forall>f<length (q_futures s). status_of s f = READY) \<and> (\<forall>i<q_clients s. q_stacks s ! i = []) \<and>
       (q_destroying s \<longrightarrow> workers_exited s))"
proof -
  have inv: "queue_inv s" by (rule act_all_queue_inv[OF new_queue_queue_inv[OF assms(1)] assms(2)])
  have "length js \<le> work s" if "act_all (map Step js) s = Some s'" for js s'
    using step_work[OF inv that] by simp
  with stuck_done[OF inv] show ?thesis by blast
qed

theorem callback_queue_completes_witness:
  "\<exists>s. act_all [Call 0 (Push True), Call 0 (Push_dependent [0] False), Call 0 Destroy] (new_queue 1 2) = Some s \<and>
     (\<forall>js s'. act_all (map Step js) s = Some s' \<longrightarrow> length js \<le> 21)"
proof -
  let ?as = "[Call 0 (Push True), Call 0 (Push_dependent [0] False), Call 0 Destroy]"
  have "map_option work (act_all ?as (new_queue 1 2)) = Some 21" by code_simp
  then obtain s where s: "act_all ?as (new_queue 1 2) = Some s" "work s = 21" by auto
  from callback_queue_completes[OF _ s(1)] s show ?thesis by auto
qed

text \<open>
  C34: Every pushed function runs at most once; and when the function of \<open>push_dependent\<close> has run, all futures
  it was pushed with were ready before that, whatever other calls were made and however the threads took
  turns.
\<close>

theorem dependent_task_runs_after_priors:
  assumes "act_all as (new_queue m n) = Some s0" "client_call c (Push_dependent ps v) s0 = Some s1"
    "act_all bs s1 = Some s" "thread_step i s = Some s'"
  shows "distinct (q_ran s') \<and>
    (length (q_futures s0) \<in> set (q_ran s') \<longrightarrow> (\<forall>p\<in>set ps. status_of s p = READY))"
proof -
  have r0: "run_inv s0" by (rule act_all_run_inv[OF new_queue_run_inv assms(1)])
  have r1: "run_inv s1" using act_run_inv[OF r0, of "Call c (Push_dependent ps v)"] assms(2) by simp
  have r: "run_inv s" by (rule act_all_run_inv[OF r1 assms(3)])
  have r': "run_inv s'" using act_run_inv[OF r, of "Step i"] assms(4) by simp
  have le: "futures_le (q_futures s1) (q_futures s)" by (rule act_all_futures_le[OF r1 assms(3)])
  have le': "futures_le (q_futures s) (q_futures s')" using act_futures_le[OF r, of "Step i"] assms(4) by simp
  have call: "s1 = push_dependent ps v s0" "\<forall>p\<in>set ps. p < length (q_futures s0)"
    using assms(2) by (auto simp: client_call_def list_all_iff split: if_splits)
  have "status_of s p = READY"
    if g: "length (q_futures s0) \<in> set (q_ran s')" and p: "p \<in> set ps" for p
  proof (cases "must_wait ps s0")
    case False
    then have "status_of s0 p = READY" "p < length (q_futures s0)" using p call(2) by (auto simp: must_wait_def)
    moreover have "futures_le (q_futures s0) (q_futures s1)"
      using act_futures_le[OF r0, of "Call c (Push_dependent ps v)"] assms(2) by simp
    ultimately show ?thesis using futures_leD(1,4)[of "q_futures s0" "q_futures s1" p] futures_leD(4)[OF le] by auto
  next
    case True
    let ?n = "length (q_futures s0)"
    have fs: "length (q_futures s1) = ?n + 2" "fu_task (q_futures s1 ! Suc ?n) = Handle_dependent ps ?n" "fu_task (q_futures s1 ! ?n) = Task v"
      using True call(1) by (simp_all add: push_dependent_def enqueue_back_def nth_append new_future_def)
    have t: "Suc ?n < length (q_futures s)" "fu_task (q_futures s ! Suc ?n) = Handle_dependent ps ?n"
      using futures_leD(1,2)[OF le, of "Suc ?n"] fs by simp_all
    have "?n \<in> set (q_ran s')" using g by simp
    moreover have ran: "status_of s ?n = RUNNING \<or> status_of s ?n = READY"
    proof -
      have cq: "cq_inv s" using r by (simp add: run_inv_def)
      obtain top where e: "i < length (q_stacks s)"
        "q_ran s' = q_ran s @ (if q_stacks s ! i = [] then [] else ran_of s (hd (q_stacks s ! i)))"
        by (rule thread_step_effect[OF cq assms(4)])
      from calculation e(2) consider "?n \<in> set (q_ran s)" | st where "q_stacks s ! i = Invoke ?n # st"
        by (cases "q_stacks s ! i") (auto simp: ran_of_def split: frame.splits task.splits)
      then show ?thesis
      proof cases
        case 1
        then show ?thesis using r by (auto simp: run_inv_def ran_inv_def)
      next
        case 2
        then show ?thesis using token_Trun[OF cq_invD(1)[OF cq] top_token[OF e(1) 2]] by simp
      qed
    qed
    ultimately show ?thesis using priors_ready[OF r t ran p] by simp
  qed
  then show ?thesis using r' by (auto simp: run_inv_def ran_inv_def)
qed

theorem dependent_task_runs_after_priors_witness:
  "\<exists>s0 s1 s s'. act_all [Call 0 (Push True)] (new_queue 1 2) = Some s0 \<and> client_call 0 (Push_dependent [0] False) s0 = Some s1 \<and>
     act_all (map Step [1, 2, 2, 2, 2, 2, 2, 2, 1, 1, 1, 1, 1]) s1 = Some s \<and> thread_step 1 s = Some s' \<and>
     q_ran s' = [0, 1] \<and> status_of s 0 = READY"
proof -
  have "Option.bind (act_all [Call 0 (Push True)] (new_queue 1 2)) (\<lambda>s0. Option.bind (client_call 0 (Push_dependent [0] False) s0)
      (\<lambda>s1. Option.bind (act_all (map Step [1, 2, 2, 2, 2, 2, 2, 2, 1, 1, 1, 1, 1]) s1)
        (\<lambda>s. map_option (\<lambda>s'. (length (q_futures s0), q_ran s')) (thread_step 1 s)))) = Some (1, [0, 1])"
    by code_simp
  then obtain s0 s1 s s' where r: "act_all [Call 0 (Push True)] (new_queue 1 2) = Some s0"
    "client_call 0 (Push_dependent [0] False) s0 = Some s1" "act_all (map Step [1, 2, 2, 2, 2, 2, 2, 2, 1, 1, 1, 1, 1]) s1 = Some s"
    "thread_step 1 s = Some s'" "length (q_futures s0) = 1" "q_ran s' = [0, 1]"
    by (auto simp: bind_eq_Some_conv)
  from dependent_task_runs_after_priors[OF r(1-4)] r show ?thesis by simp
qed

text \<open>
  C35: A call of \<open>wait\<close> returns only when every future it was called with is ready, whatever the other clients
  and the workers do meanwhile, and also when the waiting thread runs some of them itself.
\<close>

theorem wait_returns_when_ready:
  assumes "act_all as (new_queue m n) = Some s0" "client_call c (Wait ps) s0 = Some s1"
    "act_all bs s1 = Some s" "\<forall>a\<in>set bs. \<forall>cl. a \<noteq> Call c cl" "q_stacks s ! c = []"
  shows "\<forall>p\<in>set ps. status_of s p = READY"
proof -
  have r0: "run_inv s0" by (rule act_all_run_inv[OF new_queue_run_inv assms(1)])
  have r1: "run_inv s1" using act_run_inv[OF r0, of "Call c (Wait ps)"] assms(2) by simp
  have "wait_inv ps c s1"
    using assms(2) wait_stack.scanning[of False ps _ "[]" ps]
    by (auto simp: client_call_def list_all_iff wait_inv_def set_stack_def scanned_def split: if_splits)
  then have "wait_inv ps c s" using assms(4) by (intro act_all_wait[OF r1 _ assms(3)]) auto
  then show ?thesis using assms(5) wait_stack_cases[of ps "\<lambda>p. status_of s p = READY" "[]"] by (auto simp: wait_inv_def)
qed

theorem wait_returns_when_ready_witness:
  "\<exists>s0 s1 s. act_all [Call 0 (Push True), Call 0 (Push_dependent [0] False)] (new_queue 1 2) = Some s0 \<and>
     client_call 0 (Wait [0, 1]) s0 = Some s1 \<and> act_all (map Step [0, 0, 0, 0, 0, 0, 1, 1, 1, 1, 1, 1, 1, 0]) s1 = Some s \<and>
     status_of s 0 = READY \<and> status_of s 1 = READY"
proof -
  have "Option.bind (act_all [Call 0 (Push True), Call 0 (Push_dependent [0] False)] (new_queue 1 2)) (\<lambda>s0. Option.bind (client_call 0 (Wait [0, 1]) s0)
      (\<lambda>s1. map_option (\<lambda>s. q_stacks s ! 0) (act_all (map Step [0, 0, 0, 0, 0, 0, 1, 1, 1, 1, 1, 1, 1, 0]) s1))) = Some []"
    by code_simp
  then obtain s0 s1 s where r: "act_all [Call 0 (Push True), Call 0 (Push_dependent [0] False)] (new_queue 1 2) = Some s0"
    "client_call 0 (Wait [0, 1]) s0 = Some s1" "act_all (map Step [0, 0, 0, 0, 0, 0, 1, 1, 1, 1, 1, 1, 1, 0]) s1 = Some s" "q_stacks s ! 0 = []"
    by (auto simp: bind_eq_Some_conv)
  from wait_returns_when_ready[OF r(1-3) _ r(4)] r show ?thesis by auto
qed

section \<open>A lookup that misses\<close>

text \<open>
  \<open>push\<close> numbers a task after the last queued one that has not been taken by \<open>try_invoke\<close>. When the last
  entry of the deque has been taken, the new task gets the number of the hole, which lies one position before
  it; \<open>try_invoke\<close> then does not find the task, and a client that could run it itself waits for a worker.
\<close>

lemma try_invoke_misses_queued_task:
  "\<exists>s. act_all ([Call 0 (Push True), Call 0 (Push True), Call 0 (Wait [1])] @ replicate 6 (Step 0) @ [Call 0 (Push True)])
       (new_queue 1 1) = Some s \<and>
     q_invokers s = [Some 0, None, Some 2] \<and> status_of s 2 = ENQUEUED \<and> \<not> fst (try_invoke 2 s)"
proof -
  let ?as = "[Call 0 (Push True), Call 0 (Push True), Call 0 (Wait [1])] @ replicate 6 (Step 0) @ [Call 0 (Push True)]"
  have "map_option (\<lambda>s. (q_invokers s, status_of s 2, fst (try_invoke 2 s))) (act_all ?as (new_queue 1 1)) =
      Some ([Some 0, None, Some 2], ENQUEUED, False)" by code_simp
  then show ?thesis by auto
qed

end
