(* ===== verification/Lock_Free_Queue.thy ===== *)
theory Lock_Free_Queue
  imports Prelude
begin

text \<open>
  \<open>lock_free_queue.h\<close>: the queue in which a thread records its trace events. One producer pushes, one
  consumer pops or clears, without a lock; \<open>end_\<close> is the only field both access. Every step is one access
  to memory that the other side could see, so that a list of steps is an interleaving of the two.
\<close>

section \<open>Blocks, the queue and its two users\<close>

text \<open>Blocks live at addresses; a slot is \<open>None\<close> while no element is constructed in it.\<close>

record 'a block =
  b_start :: nat
  b_next :: "nat option"
  b_slots :: "'a option list"

text \<open>Where the producer and the consumer are in their code, with their local variables.\<close>

datatype producer = Resting | Linking nat | Publishing nat

datatype 'a consumer = Waiting | Popping nat | Popped 'a | Clearing nat | Cleared nat

text \<open>The elements pushed, the calls in the order in which they take effect, and the results of \<open>pop\<close>.\<close>

datatype 'a fifo_call = Enqueue 'a | Dequeue | Empty_all

record 'a lfq =
  q_blocks :: "nat \<Rightarrow> 'a block option"
  q_fresh :: nat
  q_start_block :: nat
  q_start :: nat
  q_end_block :: nat
  q_end :: nat
  q_producer :: producer
  q_consumer :: "'a consumer"
  q_pushed :: "'a list"
  q_history :: "'a fifo_call list"
  q_results :: "'a option list"

definition new_block :: "nat \<Rightarrow> nat \<Rightarrow> 'a block" where
  "new_block n start = \<lparr>b_start = start, b_next = None, b_slots = replicate n None\<rparr>"

definition new_lfq :: "nat \<Rightarrow> 'a lfq" where
  "new_lfq n =
     \<lparr>q_blocks = [0 \<mapsto> new_block n 0], q_fresh = 1, q_start_block = 0, q_start = 0, q_end_block = 0, q_end = 0,
      q_producer = Resting, q_consumer = Waiting, q_pushed = [], q_history = [], q_results = []\<rparr>"

section \<open>The steps\<close>

text \<open>
  \<open>None\<close> is undefined behaviour: an access to a block that is not allocated, a slot outside of it, an element
  constructed over another one, or the use of an element that is not there.
\<close>

definition emplace_slot :: "nat \<Rightarrow> nat \<Rightarrow> 'a \<Rightarrow> (nat \<Rightarrow> 'a block option) \<Rightarrow> (nat \<Rightarrow> 'a block option) option" where
  "emplace_slot a i x bs =
     (case bs a of
        None \<Rightarrow> None
      | Some b \<Rightarrow> (if b_start b \<le> i \<and> i - b_start b < length (b_slots b) \<and> b_slots b ! (i - b_start b) = None
                  then Some (bs(a \<mapsto> b\<lparr>b_slots := (b_slots b)[i - b_start b := Some x]\<rparr>)) else None))"

definition consume_slot :: "nat \<Rightarrow> nat \<Rightarrow> (nat \<Rightarrow> 'a block option) \<Rightarrow> ('a \<times> (nat \<Rightarrow> 'a block option)) option" where
  "consume_slot a i bs =
     (case bs a of
        None \<Rightarrow> None
      | Some b \<Rightarrow> (if b_start b \<le> i \<and> i - b_start b < length (b_slots b)
                  then map_option (\<lambda>x. (x, bs(a \<mapsto> b\<lparr>b_slots := (b_slots b)[i - b_start b := None]\<rparr>)))
                         (b_slots b ! (i - b_start b))
                  else None))"

text \<open>\<open>push\<close>: construct the element, append a block when the last one is full, then publish the new end.\<close>

definition push_emplace :: "'a \<Rightarrow> 'a lfq \<Rightarrow> 'a lfq option" where
  "push_emplace x s =
     map_option (\<lambda>bs. s\<lparr>q_blocks := bs, q_producer := Linking (q_end s + 1), q_pushed := q_pushed s @ [x]\<rparr>)
       (emplace_slot (q_end_block s) (q_end s) x (q_blocks s))"

definition push_link :: "nat \<Rightarrow> nat \<Rightarrow> 'a lfq \<Rightarrow> 'a lfq option" where
  "push_link n e s =
     (case q_blocks s (q_end_block s) of
        None \<Rightarrow> None
      | Some b \<Rightarrow> (if e - b_start b = n
                  then Some (s\<lparr>q_blocks := (q_blocks s)(q_fresh s \<mapsto> new_block n e, q_end_block s \<mapsto> b\<lparr>b_next := Some (q_fresh s)\<rparr>),
                               q_fresh := q_fresh s + 1, q_end_block := q_fresh s, q_producer := Publishing e\<rparr>)
                  else Some (s\<lparr>q_producer := Publishing e\<rparr>)))"

definition push_publish :: "nat \<Rightarrow> 'a lfq \<Rightarrow> 'a lfq" where
  "push_publish e s =
     s\<lparr>q_end := e, q_producer := Resting, q_history := q_history s @ [Enqueue (last (q_pushed s))]\<rparr>"

text \<open>\<open>pop_impl\<close> in two steps: take the element, and delete a block that is used up.\<close>

definition pop_take :: "'a lfq \<Rightarrow> ('a \<times> 'a lfq) option" where
  "pop_take s =
     map_option (\<lambda>(x, bs). (x, s\<lparr>q_blocks := bs, q_start := q_start s + 1\<rparr>))
       (consume_slot (q_start_block s) (q_start s) (q_blocks s))"

definition pop_free :: "nat \<Rightarrow> 'a lfq \<Rightarrow> 'a lfq option" where
  "pop_free n s =
     (case q_blocks s (q_start_block s) of
        None \<Rightarrow> None
      | Some b \<Rightarrow> (if q_start s - b_start b = n
                  then map_option (\<lambda>a. s\<lparr>q_blocks := (q_blocks s)(q_start_block s := None), q_start_block := a\<rparr>) (b_next b)
                  else Some s))"

definition return_pop :: "'a option \<Rightarrow> 'a lfq \<Rightarrow> 'a lfq" where
  "return_pop r s = s\<lparr>q_consumer := Waiting, q_results := q_results s @ [r]\<rparr>"

definition goto :: "'a consumer \<Rightarrow> 'a lfq \<Rightarrow> 'a lfq" where
  "goto c s = s\<lparr>q_consumer := c\<rparr>"

definition log_call :: "'a fifo_call \<Rightarrow> 'a lfq \<Rightarrow> 'a lfq" where
  "log_call c s = s\<lparr>q_history := q_history s @ [c]\<rparr>"

text \<open>A step of the consumer inside \<open>pop\<close> or \<open>clear\<close>; the local variable \<open>e\<close> is the end it has read.\<close>

fun consumer_step :: "nat \<Rightarrow> 'a consumer \<Rightarrow> 'a lfq \<Rightarrow> 'a lfq option" where
  "consumer_step n (Popping e) s =
     (if q_start s \<noteq> e then map_option (\<lambda>(x, s1). goto (Popped x) s1) (pop_take s) else Some (return_pop None s))"
| "consumer_step n (Popped x) s = map_option (return_pop (Some x)) (pop_free n s)"
| "consumer_step n (Clearing e) s =
     (if q_start s \<noteq> e then map_option (\<lambda>(x, s1). goto (Cleared e) s1) (pop_take s) else Some (goto Waiting s))"
| "consumer_step n (Cleared e) s = map_option (goto (Clearing e)) (pop_free n s)"
| "consumer_step n Waiting s = Some s"

datatype 'a lfq_action = Start_push 'a | Producer | Start_pop | Start_clear | Consumer

text \<open>An action of a thread that is not at the point of its code the action belongs to does nothing.\<close>

fun lfq_step :: "nat \<Rightarrow> 'a lfq_action \<Rightarrow> 'a lfq \<Rightarrow> 'a lfq option" where
  "lfq_step n (Start_push x) s = (if q_producer s = Resting then push_emplace x s else Some s)"
| "lfq_step n Producer s =
     (case q_producer s of
        Resting \<Rightarrow> Some s
      | Linking e \<Rightarrow> push_link n e s
      | Publishing e \<Rightarrow> Some (push_publish e s))"
| "lfq_step n Start_pop s =
     (case q_consumer s of Waiting \<Rightarrow> Some (goto (Popping (q_end s)) (log_call Dequeue s)) | _ \<Rightarrow> Some s)"
| "lfq_step n Start_clear s =
     (case q_consumer s of Waiting \<Rightarrow> Some (goto (Clearing (q_end s)) (log_call Empty_all s)) | _ \<Rightarrow> Some s)"
| "lfq_step n Consumer s = consumer_step n (q_consumer s) s"

fun lfq_run :: "nat \<Rightarrow> 'a lfq_action list \<Rightarrow> 'a lfq \<Rightarrow> 'a lfq option" where
  "lfq_run n [] s = Some s"
| "lfq_run n (a # as) s = (case lfq_step n a s of None \<Rightarrow> None | Some s1 \<Rightarrow> lfq_run n as s1)"

section \<open>The abstract queue\<close>

text \<open>A history denotes the results of its calls of \<open>pop\<close> and the elements left in a first-in first-out queue.\<close>

fun fifo :: "'a fifo_call list \<Rightarrow> 'a list \<Rightarrow> 'a option list \<times> 'a list" where
  "fifo [] q = ([], q)"
| "fifo (Enqueue x # cs) q = fifo cs (q @ [x])"
| "fifo (Empty_all # cs) q = fifo cs []"
| "fifo (Dequeue # cs) q =
     (case q of
        [] \<Rightarrow> (let (rs, q') = fifo cs [] in (None # rs, q'))
      | x # q1 \<Rightarrow> (let (rs, q') = fifo cs q1 in (Some x # rs, q')))"

section \<open>The chain of blocks\<close>

text \<open>
  The blocks at addresses \<open>as\<close> hold the cells \<open>f\<close> from index \<open>base\<close> on, \<open>n\<close> of them each, and nothing else is
  allocated.
\<close>

definition chain_at :: "nat \<Rightarrow> (nat \<Rightarrow> 'a option) \<Rightarrow> nat \<Rightarrow> nat list \<Rightarrow> nat \<Rightarrow> 'a block" where
  "chain_at n f base as j = \<lparr>b_start = base + j * n, b_next = (if Suc j < length as then Some (as ! Suc j) else None),
     b_slots = map f [base + j * n..<base + j * n + n]\<rparr>"

definition chain :: "nat \<Rightarrow> (nat \<Rightarrow> 'a option) \<Rightarrow> nat \<Rightarrow> nat list \<Rightarrow> (nat \<Rightarrow> 'a block option) \<Rightarrow> bool" where
  "chain n f base as bs \<longleftrightarrow> as \<noteq> [] \<and> distinct as \<and> dom bs = set as \<and>
     (\<forall>j<length as. bs (as ! j) = Some (chain_at n f base as j))"

lemma chain_block: "chain n f base as bs \<Longrightarrow> j < length as \<Longrightarrow> bs (as ! j) = Some (chain_at n f base as j)"
  by (simp add: chain_def)

lemma map_upt_other: "\<not> (a \<le> i \<and> i < b) \<Longrightarrow> map (f(i := y)) [a..<b] = map f [a..<b]"
  by (auto simp: fun_upd_def)

lemma map_upt_update: "a \<le> i \<Longrightarrow> i < b \<Longrightarrow> (map f [a..<b])[i - a := y] = map (f(i := y)) [a..<b]"
  by (rule nth_equalityI) (auto simp: nth_list_update)

lemma block_range_unique:
  assumes "base + j * n \<le> i" "i < base + j * n + n" "base + k * n \<le> i" "i < base + k * n + n"
  shows "j = (k :: nat)"
proof -
  have "j * n < Suc k * n" "k * n < Suc j * n" using assms by auto
  then show ?thesis by (metis less_Suc_eq linorder_neqE_nat mult_less_cancel2 not_less_eq)
qed

lemma chain_set:
  assumes "chain n f base as bs" "j < length as" "base + j * n \<le> i" "i < base + j * n + n" "bs (as ! j) = Some b"
  shows "chain n (f(i := y)) base as (bs(as ! j \<mapsto> b\<lparr>b_slots := (b_slots b)[i - b_start b := y]\<rparr>))"
proof -
  let ?b = "b\<lparr>b_slots := (b_slots b)[i - b_start b := y]\<rparr>"
  have b: "b = chain_at n f base as j" using chain_block [OF assms(1,2)] assms(5) by simp
  have "(bs(as ! j \<mapsto> ?b)) (as ! k) = Some (chain_at n (f(i := y)) base as k)" if k: "k < length as" for k
  proof (cases "k = j")
    case True
    have "?b = chain_at n (f(i := y)) base as j"
      using map_upt_update [OF assms(3,4), of f y] b by (simp add: chain_at_def del: map_eq_conv)
    then show ?thesis using True by simp
  next
    case False
    have "map (f(i := y)) [base + k * n..<base + k * n + n] = map f [base + k * n..<base + k * n + n]"
      using block_range_unique [OF assms(3,4), of k] False by (intro map_upt_other) auto
    then have "chain_at n (f(i := y)) base as k = chain_at n f base as k" by (simp only: chain_at_def)
    moreover have "as ! k \<noteq> as ! j" using k assms(1,2) False by (simp add: chain_def nth_eq_iff_index_eq)
    ultimately show ?thesis using chain_block [OF assms(1) k] by simp
  qed
  moreover have "insert (as ! j) (set as) = set as" using assms(2) by auto
  ultimately show ?thesis using assms(1) unfolding chain_def by simp
qed

lemma chain_emplace:
  assumes "chain n f base as bs" "j < length as" "base + j * n \<le> i" "i < base + j * n + n" "f i = None"
  shows "\<exists>bs'. emplace_slot (as ! j) i x bs = Some bs' \<and> chain n (f(i \<mapsto> x)) base as bs'"
  using chain_block [OF assms(1,2)] chain_set [OF assms(1-4), of _ "Some x"] assms(3-5)
  by (simp add: emplace_slot_def chain_at_def)

lemma chain_consume:
  assumes "chain n f base as bs" "j < length as" "base + j * n \<le> i" "i < base + j * n + n" "f i = Some x"
  shows "\<exists>bs'. consume_slot (as ! j) i bs = Some (x, bs') \<and> chain n (f(i := None)) base as bs'"
  using chain_block [OF assms(1,2)] chain_set [OF assms(1-4), of _ None] assms(3-5)
  by (simp add: consume_slot_def chain_at_def)

lemma chain_link:
  assumes "chain n f base as bs" "a \<notin> set as" "\<forall>i\<ge>base + length as * n. f i = None" "bs (last as) = Some b"
  shows "chain n f base (as @ [a]) (bs(a \<mapsto> new_block n (base + length as * n), last as \<mapsto> b\<lparr>b_next := Some a\<rparr>))"
proof -
  let ?bs = "bs(a \<mapsto> new_block n (base + length as * n), last as \<mapsto> b\<lparr>b_next := Some a\<rparr>)"
  have ne: "as \<noteq> []" using assms(1) by (simp add: chain_def)
  then obtain L where L: "length as = Suc L" "last as = as ! L" by (metis last_conv_nth length_0_conv not0_implies_Suc diff_Suc_1)
  have b: "b = chain_at n f base as L" using chain_block [OF assms(1), of L] assms(4) L by simp
  have new: "map f [base + length as * n..<base + length as * n + n] = replicate n None"
    using assms(3) by (intro nth_equalityI) auto
  have fresh: "as ! j \<noteq> a" if "j < length as" for j using assms(2) nth_mem [OF that] by auto
  have "?bs ((as @ [a]) ! j) = Some (chain_at n f base (as @ [a]) j)" if j: "j < length (as @ [a])" for j
  proof -
    consider "j = length as" | "j = L" | "j < L" using j L by fastforce
    then show ?thesis
    proof cases
      case 1
      then have "(as @ [a]) ! j = a" by simp
      then show ?thesis using 1 new fresh [of L] L by (simp add: new_block_def chain_at_def)
    next
      case 2
      then show ?thesis using b L by (simp add: nth_append chain_at_def)
    next
      case 3
      then have "as ! j \<noteq> as ! L" using assms(1) L by (simp add: chain_def nth_eq_iff_index_eq)
      then show ?thesis using 3 chain_block [OF assms(1), of j] fresh [of j] L by (simp add: nth_append chain_at_def)
    qed
  qed
  moreover have "dom ?bs = set (as @ [a])" using assms(1) ne by (auto simp: chain_def)
  ultimately show ?thesis using assms(1,2) unfolding chain_def by simp
qed

lemma chain_free:
  assumes "chain n f base as bs" "1 < length as"
  shows "chain n f (base + n) (tl as) (bs(hd as := None))"
proof -
  obtain a cs where as: "as = a # cs" "cs \<noteq> []" using assms(2) by (cases as) auto
  have "bs (cs ! j) = Some (chain_at n f (base + n) cs j)" if "j < length cs" for j
    using chain_block [OF assms(1), of "Suc j"] that as by (simp add: chain_at_def algebra_simps)
  moreover have "cs ! j \<noteq> a" if "j < length cs" for j using assms(1) as nth_mem [OF that] by (auto simp: chain_def)
  ultimately show ?thesis using assms(1) as by (auto simp: chain_def)
qed

section \<open>The invariant\<close>

definition cell :: "'a lfq \<Rightarrow> nat \<Rightarrow> 'a option" where
  "cell s i = (if q_start s \<le> i \<and> i < length (q_pushed s) then Some (q_pushed s ! i) else None)"

text \<open>The index of the first element that no call has removed yet, and the results that calls still owe.\<close>

fun logical_start :: "'a lfq \<Rightarrow> 'a consumer \<Rightarrow> nat" where
  "logical_start s (Popping e) = (if q_start s = e then q_start s else q_start s + 1)"
| "logical_start s (Clearing e) = e"
| "logical_start s (Cleared e) = e"
| "logical_start s _ = q_start s"

fun owed :: "'a lfq \<Rightarrow> 'a consumer \<Rightarrow> 'a option list" where
  "owed s (Popping e) = [if q_start s = e then None else Some (q_pushed s ! q_start s)]"
| "owed s (Popped x) = [Some x]"
| "owed s _ = []"

fun consumer_ok :: "nat \<Rightarrow> nat \<Rightarrow> 'a lfq \<Rightarrow> 'a consumer \<Rightarrow> bool" where
  "consumer_ok n base s Waiting = (q_start s < base + n)"
| "consumer_ok n base s (Popping e) = (q_start s < base + n \<and> q_start s \<le> e \<and> e \<le> q_end s)"
| "consumer_ok n base s (Clearing e) = (q_start s < base + n \<and> q_start s \<le> e \<and> e \<le> q_end s)"
| "consumer_ok n base s (Popped x) = (base < q_start s)"
| "consumer_ok n base s (Cleared e) = (base < q_start s \<and> q_start s \<le> e \<and> e \<le> q_end s)"

fun producer_ok :: "nat \<Rightarrow> nat \<Rightarrow> 'a lfq \<Rightarrow> producer \<Rightarrow> bool" where
  "producer_ok n cap s Resting = (length (q_pushed s) = q_end s \<and> cap \<le> q_end s + n)"
| "producer_ok n cap s (Linking e) = (length (q_pushed s) = e \<and> q_end s + 1 = e \<and> cap \<le> q_end s + n)"
| "producer_ok n cap s (Publishing e) = (length (q_pushed s) = e \<and> q_end s + 1 = e \<and> e < cap \<and> cap \<le> e + n)"

definition lfq_shape :: "nat \<Rightarrow> nat \<Rightarrow> nat list \<Rightarrow> 'a lfq \<Rightarrow> bool" where
  "lfq_shape n base as s \<longleftrightarrow>
     chain n (cell s) base as (q_blocks s) \<and> q_start_block s = hd as \<and> q_end_block s = last as \<and>
     (\<forall>a\<in>set as. a < q_fresh s) \<and> n dvd base \<and>
     base \<le> q_start s \<and> q_start s \<le> base + n \<and> q_start s \<le> q_end s \<and> q_end s < base + length as * n \<and>
     consumer_ok n base s (q_consumer s) \<and> producer_ok n (base + length as * n) s (q_producer s)"

definition enqueued :: "'a fifo_call list \<Rightarrow> 'a list" where
  "enqueued h = concat (map (\<lambda>c. case c of Enqueue x \<Rightarrow> [x] | _ \<Rightarrow> []) h)"

lemma enqueued_append [simp]: "enqueued (h @ [c]) = enqueued h @ (case c of Enqueue x \<Rightarrow> [x] | _ \<Rightarrow> [])"
  by (simp add: enqueued_def)

definition history_ok :: "'a lfq \<Rightarrow> bool" where
  "history_ok s \<longleftrightarrow> enqueued (q_history s) = take (q_end s) (q_pushed s) \<and>
     fifo (q_history s) [] =
     (q_results s @ owed s (q_consumer s), drop (logical_start s (q_consumer s)) (take (q_end s) (q_pushed s)))"

definition lfq_inv :: "nat \<Rightarrow> 'a lfq \<Rightarrow> bool" where
  "lfq_inv n s \<longleftrightarrow> (\<exists>base as. lfq_shape n base as s) \<and> history_ok s"

lemma fifo_append:
  "fifo (h @ h') q = (let (r1, q1) = fifo h q; (r2, q2) = fifo h' q1 in (r1 @ r2, q2))"
  by (induction h q rule: fifo.induct) (auto split: list.splits prod.splits simp: Let_def)

lemma lfq_shapeD:
  assumes "lfq_shape n base as s"
  shows "chain n (cell s) base as (q_blocks s)" "q_start_block s = as ! 0" "q_end_block s = as ! (length as - 1)" "0 < length as"
    "q_fresh s \<notin> set as" "base \<le> q_start s" "q_start s \<le> base + n" "q_start s \<le> q_end s" "q_end s < base + length as * n"
    "consumer_ok n base s (q_consumer s)" "producer_ok n (base + length as * n) s (q_producer s)" "q_end s \<le> length (q_pushed s)"
    "n dvd base" "\<forall>a\<in>set as. a < q_fresh s"
proof -
  have "as \<noteq> []" using assms by (auto simp: lfq_shape_def chain_def)
  then show "chain n (cell s) base as (q_blocks s)" "q_start_block s = as ! 0" "q_end_block s = as ! (length as - 1)" "0 < length as"
    "q_fresh s \<notin> set as" "base \<le> q_start s" "q_start s \<le> base + n" "q_start s \<le> q_end s" "q_end s < base + length as * n"
    "consumer_ok n base s (q_consumer s)" "producer_ok n (base + length as * n) s (q_producer s)"
    "n dvd base" "\<forall>a\<in>set as. a < q_fresh s"
    using assms by (auto simp: lfq_shape_def hd_conv_nth last_conv_nth)
  then show "q_end s \<le> length (q_pushed s)" by (cases "q_producer s") auto
qed

lemma last_block_bounds: "0 < length as \<Longrightarrow> base + length as * n = base + (length as - 1) * n + (n :: nat)"
  by (cases "length as") auto

lemma new_lfq_inv:
  assumes "0 < n"
  shows "lfq_inv n (new_lfq n)"
proof -
  have "chain n (cell (new_lfq n)) 0 [0] (q_blocks (new_lfq n))"
    by (auto simp: chain_def chain_at_def new_lfq_def new_block_def cell_def intro!: nth_equalityI)
  then have "lfq_shape n 0 [0] (new_lfq n)" using assms by (simp add: lfq_shape_def new_lfq_def)
  then show ?thesis by (auto simp: lfq_inv_def history_ok_def new_lfq_def enqueued_def)
qed

section \<open>Every step keeps it\<close>

lemma push_emplace_inv:
  assumes "lfq_inv n s" "q_producer s = Resting"
  shows "\<exists>s'. push_emplace x s = Some s' \<and> lfq_inv n s'"
proof -
  obtain base as where sh: "lfq_shape n base as s" and h: "history_ok s" using assms(1) by (auto simp: lfq_inv_def)
  note d = lfq_shapeD [OF sh]
  let ?L = "length as - 1"
  have p: "length (q_pushed s) = q_end s" "base + ?L * n \<le> q_end s" "q_end s < base + ?L * n + n"
    using d(9,11) assms(2) last_block_bounds [OF d(4), of base n] by auto
  then obtain bs where bs: "emplace_slot (q_end_block s) (q_end s) x (q_blocks s) = Some bs"
      "chain n ((cell s)(q_end s \<mapsto> x)) base as bs"
    using chain_emplace [OF d(1), of ?L "q_end s" x] d(3,4) by (auto simp: cell_def)
  let ?s = "s\<lparr>q_blocks := bs, q_producer := Linking (q_end s + 1), q_pushed := q_pushed s @ [x]\<rparr>"
  have "cell ?s = (cell s)(q_end s \<mapsto> x)" using p(1) d(8) by (auto simp: cell_def nth_append)
  moreover have c: "consumer_ok n b ?s c = consumer_ok n b s c" for b c by (cases c) auto
  ultimately have "lfq_shape n base as ?s" using sh bs(2) p assms(2) by (simp add: lfq_shape_def)
  moreover have "owed ?s (q_consumer s) = owed s (q_consumer s)" using d(10) p(1) by (cases "q_consumer s") (auto simp: nth_append)
  moreover have "logical_start ?s c = logical_start s c" for c by (cases c) auto
  ultimately show ?thesis using h bs(1) p(1) by (auto simp: push_emplace_def lfq_inv_def history_ok_def)
qed

lemma push_link_inv:
  assumes "lfq_inv n s" "q_producer s = Linking e" "0 < n"
  shows "\<exists>s'. push_link n e s = Some s' \<and> lfq_inv n s'"
proof -
  obtain base as where sh: "lfq_shape n base as s" and h: "history_ok s" using assms(1) by (auto simp: lfq_inv_def)
  note d = lfq_shapeD [OF sh]
  let ?L = "length as - 1"
  have b: "q_blocks s (q_end_block s) = Some (chain_at n (cell s) base as ?L)" using chain_block [OF d(1), of ?L] d(3,4) by simp
  have cap: "base + length as * n = base + ?L * n + n" by (rule last_block_bounds [OF d(4)])
  have e: "length (q_pushed s) = e" "q_end s + 1 = e" "base + ?L * n \<le> q_end s" using d(11) assms(2) cap by auto
  show ?thesis
  proof (cases "e - (base + ?L * n) = n")
    case True
    then have full: "e = base + length as * n" using cap e by linarith
    let ?s = "s\<lparr>q_blocks := (q_blocks s)(q_fresh s \<mapsto> new_block n e, q_end_block s \<mapsto> (chain_at n (cell s) base as ?L)\<lparr>b_next := Some (q_fresh s)\<rparr>),
                q_fresh := q_fresh s + 1, q_end_block := q_fresh s, q_producer := Publishing e\<rparr>"
    have "chain n (cell s) base (as @ [q_fresh s]) (q_blocks ?s)"
      using chain_link [OF d(1,5)] b d(3,4) e(1) full by (auto simp: cell_def last_conv_nth)
    moreover have "cell ?s = cell s" by (auto simp: cell_def)
    moreover have c: "consumer_ok n b ?s c = consumer_ok n b s c" for b c by (cases c) auto
    ultimately have "lfq_shape n base (as @ [q_fresh s]) ?s"
      using sh d(4,9) e full assms(3) by (auto simp: lfq_shape_def)
    moreover have "owed ?s c = owed s c" "logical_start ?s c = logical_start s c" for c by (cases c; simp)+
    moreover have "push_link n e s = Some ?s" using b True by (simp add: push_link_def chain_at_def)
    ultimately show ?thesis using h by (auto simp: lfq_inv_def history_ok_def)
  next
    case False
    let ?s = "s\<lparr>q_producer := Publishing e\<rparr>"
    have "e < base + length as * n" using False cap e d(9) by linarith
    moreover have "cell ?s = cell s" by (auto simp: cell_def)
    moreover have c: "consumer_ok n b ?s c = consumer_ok n b s c" for b c by (cases c) auto
    ultimately have "lfq_shape n base as ?s" using sh e cap assms(2) by (auto simp: lfq_shape_def)
    moreover have "owed ?s c = owed s c" "logical_start ?s c = logical_start s c" for c by (cases c; simp)+
    moreover have "push_link n e s = Some ?s" using b False by (simp add: push_link_def chain_at_def)
    ultimately show ?thesis using h by (auto simp: lfq_inv_def history_ok_def)
  qed
qed

lemma push_publish_inv:
  assumes "lfq_inv n s" "q_producer s = Publishing e"
  shows "lfq_inv n (push_publish e s)"
proof -
  obtain base as where sh: "lfq_shape n base as s" and h: "history_ok s" using assms(1) by (auto simp: lfq_inv_def)
  note d = lfq_shapeD [OF sh]
  have e: "length (q_pushed s) = e" "q_end s + 1 = e" "e < base + length as * n" "base + length as * n \<le> e + n"
    using d(11) assms(2) by auto
  let ?s = "push_publish e s"
  have eq: "cell ?s = cell s" "owed ?s c = owed s c" "logical_start ?s c = logical_start s c" for c
    by (auto simp: cell_def push_publish_def) (cases c; simp)+
  have c: "consumer_ok n base s c \<Longrightarrow> consumer_ok n base ?s c" for c using e(2) by (cases c) (auto simp: push_publish_def)
  have shape: "lfq_shape n base as ?s" using sh e c [OF d(10)] eq(1) by (auto simp: lfq_shape_def push_publish_def)
  have le: "logical_start s (q_consumer s) \<le> q_end s" using d(8,10) by (cases "q_consumer s") auto
  have snoc: "take e (q_pushed s) = take (q_end s) (q_pushed s) @ [last (q_pushed s)]"
    using e(1,2) by (metis append_butlast_last_id butlast_conv_take diff_add_inverse2 length_0_conv order_refl take_all zero_neq_one add_is_0)
  have "drop (logical_start s (q_consumer s)) (take e (q_pushed s)) =
      drop (logical_start s (q_consumer s)) (take (q_end s) (q_pushed s) @ [last (q_pushed s)])"
    by (simp only: snoc)
  also have "\<dots> = drop (logical_start s (q_consumer s)) (take (q_end s) (q_pushed s)) @ [last (q_pushed s)]"
    using e(1,2) le by simp
  finally have "history_ok ?s" using h eq(2,3) snoc by (simp add: history_ok_def fifo_append push_publish_def)
  then show ?thesis using shape by (auto simp: lfq_inv_def)
qed

text \<open>The consumer takes an element: its index is below the end it has read, which the producer has published.\<close>

lemma pop_take_shape:
  assumes "lfq_shape n base as s" "q_start s < base + n" "q_start s < q_end s"
    "consumer_ok n base (s\<lparr>q_start := q_start s + 1\<rparr>) c"
  shows "\<exists>bs. pop_take s = Some (q_pushed s ! q_start s, s\<lparr>q_blocks := bs, q_start := q_start s + 1\<rparr>) \<and>
    lfq_shape n base as (goto c (s\<lparr>q_blocks := bs, q_start := q_start s + 1\<rparr>))"
proof -
  note d = lfq_shapeD [OF assms(1)]
  have "cell s (q_start s) = Some (q_pushed s ! q_start s)" using assms(3) d(12) by (simp add: cell_def)
  then obtain bs where bs: "consume_slot (q_start_block s) (q_start s) (q_blocks s) = Some (q_pushed s ! q_start s, bs)"
      "chain n ((cell s)(q_start s := None)) base as bs"
    using chain_consume [OF d(1), of 0 "q_start s"] d(2,4,6) assms(2) by auto
  let ?s = "goto c (s\<lparr>q_blocks := bs, q_start := q_start s + 1\<rparr>)"
  have "cell ?s = (cell s)(q_start s := None)" by (auto simp: cell_def goto_def)
  moreover have "producer_ok n cap ?s p = producer_ok n cap s p" for cap p by (cases p) (auto simp: goto_def)
  moreover have "consumer_ok n base ?s c = consumer_ok n base (s\<lparr>q_start := q_start s + 1\<rparr>) c" by (cases c) (auto simp: goto_def)
  ultimately have "lfq_shape n base as ?s" using assms bs(2) by (auto simp: lfq_shape_def goto_def)
  then show ?thesis using bs(1) by (auto simp: pop_take_def)
qed

text \<open>It deletes a block only when the next one is linked, and it is then the first of the chain.\<close>

lemma pop_free_shape:
  assumes "lfq_shape n base as s" "0 < n" "q_consumer s = Popped x \<or> q_consumer s = Cleared e0"
    "\<And>b. q_start s < b + n \<Longrightarrow> b \<le> q_start s \<Longrightarrow> consumer_ok n b s c"
  shows "\<exists>bs a base' as'. pop_free n s = Some (s\<lparr>q_blocks := bs, q_start_block := a\<rparr>) \<and>
    lfq_shape n base' as' (goto c (s\<lparr>q_blocks := bs, q_start_block := a\<rparr>))"
proof -
  note d = lfq_shapeD [OF assms(1)]
  have c: "consumer_ok n b (goto c (s\<lparr>q_blocks := bs, q_start_block := a\<rparr>)) c = consumer_ok n b s c" for b bs a
    by (cases c) (auto simp: goto_def)
  have p: "producer_ok n cap (goto c (s\<lparr>q_blocks := bs, q_start_block := a\<rparr>)) p = producer_ok n cap s p" for cap p bs a
    by (cases p) (auto simp: goto_def)
  have cell: "cell (goto c (s\<lparr>q_blocks := bs, q_start_block := a\<rparr>)) = cell s" for bs a by (auto simp: cell_def goto_def)
  have blk: "q_blocks s (q_start_block s) = Some (chain_at n (cell s) base as 0)" using chain_block [OF d(1), of 0] d(2,4) by simp
  show ?thesis
  proof (cases "q_start s - base = n")
    case True
    then have start: "q_start s = base + n" using d(6) assms(2) by linarith
    then have "n < length as * n" using d(8,9) by linarith
    then have two: "1 < length as" by (cases "length as") auto
    let ?bs = "(q_blocks s)(q_start_block s := None)"
    let ?s = "s\<lparr>q_blocks := ?bs, q_start_block := as ! 1\<rparr>"
    have as: "as = as ! 0 # tl as" "tl as \<noteq> []" using two by (cases as; auto)+
    have "chain n (cell s) (base + n) (tl as) ?bs" using chain_free [OF d(1) two] d(2) as by (metis list.sel(1))
    moreover have "hd (tl as) = as ! 1" "last (tl as) = last as" using two as by (cases as; auto simp: hd_conv_nth)+
    moreover have "set (tl as) \<subseteq> set as" using as by (metis set_subset_Cons)
    moreover have "base + n + (length as - 1) * n = base + length as * n" using two by (cases "length as") auto
    then have "producer_ok n (base + n + (length as - 1) * n) s (q_producer s)"
        "q_end s < base + n + (length as - 1) * n" using d(9,11) by (simp_all only:)
    ultimately have "lfq_shape n (base + n) (tl as) (goto c ?s)"
      using assms(1,2) assms(4) [of "base + n"] start c p cell by (auto simp: lfq_shape_def goto_def)
    moreover have "pop_free n s = Some ?s" using blk True two by (simp add: pop_free_def chain_at_def)
    ultimately show ?thesis by blast
  next
    case False
    then have "q_start s < base + n" using d(6,7) by linarith
    then have "lfq_shape n base as (goto c (s\<lparr>q_blocks := q_blocks s, q_start_block := q_start_block s\<rparr>))"
      using assms(1) assms(4) [of base] d(6) c [where bs = "q_blocks s" and a = "q_start_block s"]
        p [where bs = "q_blocks s" and a = "q_start_block s"] cell [where bs = "q_blocks s" and a = "q_start_block s"]
      by (auto simp: lfq_shape_def goto_def)
    moreover have "pop_free n s = Some (s\<lparr>q_blocks := q_blocks s, q_start_block := q_start_block s\<rparr>)"
      using blk False by (simp add: pop_free_def chain_at_def)
    ultimately show ?thesis by blast
  qed
qed

lemma consumer_step_inv:
  fixes s :: "'a lfq"
  assumes "lfq_inv n s" "0 < n"
  shows "\<exists>s'. consumer_step n (q_consumer s) s = Some s' \<and> lfq_inv n s'"
proof -
  obtain base as where sh: "lfq_shape n base as s" and h: "history_ok s" using assms(1) by (auto simp: lfq_inv_def)
  note d = lfq_shapeD [OF sh]
  show ?thesis
  proof (cases "q_consumer s")
    case Waiting
    then show ?thesis using assms(1) by simp
  next
    case (Popping e)
    then have e: "q_start s < base + n" "q_start s \<le> e" "e \<le> q_end s" using d(10) by auto
    show ?thesis
    proof (cases "q_start s = e")
      case True
      have c: "cell (return_pop None s) = cell s" "producer_ok n cap (return_pop None s) p = producer_ok n cap s p" for cap p
        by (auto simp: cell_def return_pop_def) (cases p; simp)+
      then have "lfq_shape n base as (return_pop None s)" using sh e(1) by (auto simp: lfq_shape_def return_pop_def)
      then show ?thesis using Popping True h by (auto simp: lfq_inv_def history_ok_def return_pop_def)
    next
      case False
      then obtain bs where bs: "pop_take s = Some (q_pushed s ! q_start s, s\<lparr>q_blocks := bs, q_start := q_start s + 1\<rparr>)"
          "lfq_shape n base as (goto (Popped (q_pushed s ! q_start s)) (s\<lparr>q_blocks := bs, q_start := q_start s + 1\<rparr>))"
        using pop_take_shape [OF sh e(1), of "Popped (q_pushed s ! q_start s)"] e d(6) by auto
      then show ?thesis using Popping False h by (auto simp: lfq_inv_def history_ok_def goto_def)
    qed
  next
    case (Popped x)
    then obtain bs a base' as' where "pop_free n s = Some (s\<lparr>q_blocks := bs, q_start_block := a\<rparr>)"
        "lfq_shape n base' as' (goto Waiting (s\<lparr>q_blocks := bs, q_start_block := a\<rparr>))"
      using pop_free_shape [OF sh assms(2), of x _ Waiting] by auto
    moreover have "lfq_shape n b cs (return_pop r t) = lfq_shape n b cs (goto Waiting t)" for b cs r and t :: "'a lfq"
    proof -
      have "cell (return_pop r t) = cell (goto Waiting t)" "producer_ok n cap (return_pop r t) p = producer_ok n cap (goto Waiting t) p" for cap p
        by (auto simp: cell_def return_pop_def goto_def) (cases p; simp)+
      then show ?thesis by (simp add: lfq_shape_def return_pop_def goto_def)
    qed
    ultimately have "lfq_shape n base' as' (return_pop (Some x) (s\<lparr>q_blocks := bs, q_start_block := a\<rparr>))"
        "consumer_step n (q_consumer s) s = Some (return_pop (Some x) (s\<lparr>q_blocks := bs, q_start_block := a\<rparr>))"
      using Popped by simp_all
    moreover have "history_ok (return_pop (Some x) (s\<lparr>q_blocks := bs, q_start_block := a\<rparr>))"
      using Popped h by (simp add: history_ok_def return_pop_def)
    ultimately show ?thesis unfolding lfq_inv_def by blast
  next
    case (Clearing e)
    then have e: "q_start s < base + n" "q_start s \<le> e" "e \<le> q_end s" using d(10) by auto
    show ?thesis
    proof (cases "q_start s = e")
      case True
      have "cell (goto Waiting s) = cell s" "producer_ok n cap (goto Waiting s) p = producer_ok n cap s p" for cap p
        by (auto simp: cell_def goto_def) (cases p; simp)+
      then have "lfq_shape n base as (goto Waiting s)" using sh e(1) by (auto simp: lfq_shape_def goto_def)
      then show ?thesis using Clearing True h by (auto simp: lfq_inv_def history_ok_def goto_def)
    next
      case False
      then obtain bs where bs: "pop_take s = Some (q_pushed s ! q_start s, s\<lparr>q_blocks := bs, q_start := q_start s + 1\<rparr>)"
          "lfq_shape n base as (goto (Cleared e) (s\<lparr>q_blocks := bs, q_start := q_start s + 1\<rparr>))"
        using pop_take_shape [OF sh e(1), of "Cleared e"] e d(6) by auto
      then show ?thesis using Clearing False h by (auto simp: lfq_inv_def history_ok_def goto_def)
    qed
  next
    case (Cleared e)
    then have e: "q_start s \<le> e" "e \<le> q_end s" using d(10) by auto
    then obtain bs a base' as' where "pop_free n s = Some (s\<lparr>q_blocks := bs, q_start_block := a\<rparr>)"
        "lfq_shape n base' as' (goto (Clearing e) (s\<lparr>q_blocks := bs, q_start_block := a\<rparr>))"
      using pop_free_shape [OF sh assms(2), of _ e "Clearing e"] Cleared by auto
    then show ?thesis using Cleared h by (auto simp: lfq_inv_def history_ok_def goto_def)
  qed
qed

lemma start_call_inv:
  assumes "lfq_inv n s" "q_consumer s = Waiting" "(c, h) \<in> {(Popping (q_end s), Dequeue), (Clearing (q_end s), Empty_all)}"
  shows "lfq_inv n (goto c (log_call h s))"
proof -
  obtain base as where sh: "lfq_shape n base as s" and h: "history_ok s" using assms(1) by (auto simp: lfq_inv_def)
  note d = lfq_shapeD [OF sh]
  let ?s = "goto c (log_call h s)"
  have "cell ?s = cell s" by (auto simp: cell_def goto_def log_call_def)
  moreover have "producer_ok n cap ?s p = producer_ok n cap s p" for cap p by (cases p) (auto simp: goto_def log_call_def)
  ultimately have "lfq_shape n base as ?s" using sh assms(2,3) by (auto simp: lfq_shape_def goto_def log_call_def)
  moreover have "q_start s = q_end s \<or> q_start s < q_end s \<and>
      drop (q_start s) (take (q_end s) (q_pushed s)) = q_pushed s ! q_start s # drop (Suc (q_start s)) (take (q_end s) (q_pushed s))"
    using d(8,12) Cons_nth_drop_Suc [of "q_start s" "take (q_end s) (q_pushed s)"] by fastforce
  then have "history_ok ?s" using h assms(2,3) d(12)
    by (auto simp: history_ok_def goto_def log_call_def fifo_append)
  ultimately show ?thesis by (auto simp: lfq_inv_def)
qed

lemma lfq_step_inv:
  assumes "lfq_inv n s" "0 < n"
  shows "\<exists>s'. lfq_step n a s = Some s' \<and> lfq_inv n s'"
proof (cases a)
  case (Start_push x)
  then show ?thesis using push_emplace_inv [OF assms(1)] assms(1) by simp
next
  case Producer
  then show ?thesis using push_link_inv [OF assms(1) _ assms(2)] push_publish_inv [OF assms(1)] assms(1)
    by (cases "q_producer s") auto
next
  case Start_pop
  then show ?thesis using start_call_inv [OF assms(1)] assms(1) by (cases "q_consumer s") auto
next
  case Start_clear
  then show ?thesis using start_call_inv [OF assms(1)] assms(1) by (cases "q_consumer s") auto
next
  case Consumer
  then show ?thesis using consumer_step_inv [OF assms] by simp
qed

lemma lfq_run_inv: "lfq_inv n s \<Longrightarrow> 0 < n \<Longrightarrow> \<exists>s'. lfq_run n as s = Some s' \<and> lfq_inv n s'"
proof (induction as arbitrary: s)
  case (Cons a as)
  then obtain s1 where "lfq_step n a s = Some s1" "lfq_inv n s1" using lfq_step_inv by blast
  then show ?case using Cons by simp
qed simp

section \<open>The queue in use\<close>

text \<open>A call of \<open>push\<close>, \<open>pop\<close> or \<open>clear\<close> that runs to its end; \<open>clear\<close> takes as many steps as it needs.\<close>

definition lfq_push :: "nat \<Rightarrow> 'a \<Rightarrow> 'a lfq \<Rightarrow> 'a lfq option" where
  "lfq_push n x s = lfq_run n [Start_push x, Producer, Producer] s"

definition lfq_pop :: "nat \<Rightarrow> 'a lfq \<Rightarrow> ('a option \<times> 'a lfq) option" where
  "lfq_pop n s = map_option (\<lambda>s1. (last (q_results s1), s1)) (lfq_run n [Start_pop, Consumer, Consumer] s)"

partial_function (option) finish_call :: "nat \<Rightarrow> 'a lfq \<Rightarrow> 'a lfq option" where
  "finish_call n s =
     (case q_consumer s of
        Waiting \<Rightarrow> Some s
      | _ \<Rightarrow> (case lfq_step n Consumer s of None \<Rightarrow> None | Some s1 \<Rightarrow> finish_call n s1))"

definition lfq_clear :: "nat \<Rightarrow> 'a lfq \<Rightarrow> 'a lfq option" where
  "lfq_clear n s = (case lfq_step n Start_clear s of None \<Rightarrow> None | Some s1 \<Rightarrow> finish_call n s1)"

definition at_rest :: "nat \<Rightarrow> 'a lfq \<Rightarrow> bool" where
  "at_rest n s \<longleftrightarrow> lfq_inv n s \<and> q_producer s = Resting \<and> q_consumer s = Waiting"

definition lfq_contents :: "'a lfq \<Rightarrow> 'a list" where
  "lfq_contents s = drop (q_start s) (q_pushed s)"

lemma call_fields [simp]:
  "q_consumer (return_pop r s) = Waiting" "q_start (return_pop r s) = q_start s" "q_end (return_pop r s) = q_end s"
  "q_pushed (return_pop r s) = q_pushed s" "q_producer (return_pop r s) = q_producer s" "q_results (return_pop r s) = q_results s @ [r]"
  by (simp_all add: return_pop_def)

lemma new_lfq_at_rest: "0 < n \<Longrightarrow> at_rest n (new_lfq n)"
  using new_lfq_inv [of n] by (simp add: at_rest_def new_lfq_def)

lemma push_fields:
  "push_emplace x s = Some s1 \<Longrightarrow> q_producer s1 = Linking (q_end s + 1) \<and> q_pushed s1 = q_pushed s @ [x] \<and>
     q_consumer s1 = q_consumer s \<and> q_start s1 = q_start s"
  "push_link n e s = Some s1 \<Longrightarrow> q_producer s1 = Publishing e \<and> q_pushed s1 = q_pushed s \<and>
     q_consumer s1 = q_consumer s \<and> q_start s1 = q_start s"
  by (auto simp: push_emplace_def push_link_def split: option.splits if_splits)

lemma lfq_push_law:
  assumes "at_rest n s" "0 < n"
  shows "\<exists>s'. lfq_push n x s = Some s' \<and> at_rest n s' \<and> lfq_contents s' = lfq_contents s @ [x]"
proof -
  have inv: "lfq_inv n s" and p: "q_producer s = Resting" and c: "q_consumer s = Waiting" using assms(1) by (auto simp: at_rest_def)
  obtain s' where s': "lfq_push n x s = Some s'" "lfq_inv n s'" using lfq_run_inv [OF inv assms(2)] unfolding lfq_push_def by blast
  have "q_start s \<le> length (q_pushed s)" using inv lfq_shapeD(8,12) unfolding lfq_inv_def by (meson le_trans)
  with s' have "q_producer s' = Resting \<and> q_consumer s' = Waiting \<and> lfq_contents s' = lfq_contents s @ [x]"
    using p c by (auto simp: lfq_push_def lfq_contents_def push_publish_def split: option.splits dest!: push_fields)
  then show ?thesis using s' by (simp add: at_rest_def)
qed

lemma at_rest_bounds:
  assumes "at_rest n s"
  shows "q_end s = length (q_pushed s)" "q_start s \<le> q_end s" "lfq_contents s = [] \<longleftrightarrow> q_start s = q_end s"
proof -
  obtain base as where "lfq_shape n base as s" using assms by (auto simp: at_rest_def lfq_inv_def)
  note d = lfq_shapeD [OF this]
  show a: "q_end s = length (q_pushed s)" "q_start s \<le> q_end s" using d(8,11) assms by (auto simp: at_rest_def)
  show "lfq_contents s = [] \<longleftrightarrow> q_start s = q_end s" using a by (auto simp: lfq_contents_def)
qed

lemma pop_take_fields:
  assumes "lfq_inv n s" "q_consumer s = Popping e \<or> q_consumer s = Clearing e" "q_start s \<noteq> e" "pop_take s = Some (x, s1)"
  shows "x = q_pushed s ! q_start s \<and> q_pushed s1 = q_pushed s \<and> q_start s1 = Suc (q_start s) \<and> q_end s1 = q_end s \<and>
    q_producer s1 = q_producer s \<and> q_results s1 = q_results s"
proof -
  obtain base as where sh: "lfq_shape n base as s" using assms(1) by (auto simp: lfq_inv_def)
  note d = lfq_shapeD [OF sh]
  have "q_start s < base + n" "q_start s < q_end s" using d(10) assms(2,3) by auto
  then show ?thesis using pop_take_shape [OF sh, of "Popped x"] d(6) assms(4) by auto
qed

lemma pop_free_fields:
  "pop_free n s = Some s1 \<Longrightarrow> q_pushed s1 = q_pushed s \<and> q_start s1 = q_start s \<and> q_end s1 = q_end s \<and>
     q_producer s1 = q_producer s \<and> q_results s1 = q_results s"
  by (auto simp: pop_free_def split: option.splits if_splits)

lemma lfq_pop_law:
  assumes "at_rest n s" "0 < n"
  shows "\<exists>s'. lfq_pop n s = Some (case lfq_contents s of [] \<Rightarrow> None | x # _ \<Rightarrow> Some x, s') \<and> at_rest n s' \<and>
    lfq_contents s' = tl (lfq_contents s)"
proof -
  have inv: "lfq_inv n s" and p: "q_producer s = Resting" and c: "q_consumer s = Waiting" using assms(1) by (auto simp: at_rest_def)
  note b = at_rest_bounds [OF assms(1)]
  obtain s' where s': "lfq_run n [Start_pop, Consumer, Consumer] s = Some s'" "lfq_inv n s'"
    using lfq_run_inv [OF inv assms(2)] by blast
  let ?s1 = "goto (Popping (q_end s)) (log_call Dequeue s)"
  have inv1: "lfq_inv n ?s1" using start_call_inv [OF inv c] by blast
  have f: "q_start ?s1 = q_start s" "q_end ?s1 = q_end s" "q_pushed ?s1 = q_pushed s" "q_producer ?s1 = Resting"
      "q_consumer ?s1 = Popping (q_end s)" "q_results ?s1 = q_results s" using p by (simp_all add: goto_def log_call_def)
  show ?thesis
  proof (cases "q_start s = q_end s")
    case True
    then have "s' = return_pop None ?s1" using s'(1) c f by simp
    then show ?thesis using s' b True f by (auto simp: lfq_pop_def at_rest_def return_pop_def lfq_contents_def)
  next
    case False
    then obtain x s2 s3 where t: "pop_take ?s1 = Some (x, s2)" "pop_free n (goto (Popped x) s2) = Some s3" "s' = return_pop (Some x) s3"
      using s'(1) c f by (auto simp: goto_def split: option.splits)
    note t1 = pop_take_fields [OF inv1, of "q_end s", unfolded f, OF _ False t(1)]
    have "q_pushed s3 = q_pushed s \<and> q_start s3 = Suc (q_start s) \<and> q_producer s3 = Resting \<and> x = q_pushed s ! q_start s"
      using t1 pop_free_fields [OF t(2)] by (simp add: goto_def)
    moreover have "lfq_contents s = q_pushed s ! q_start s # drop (Suc (q_start s)) (q_pushed s)"
      using False b by (simp add: lfq_contents_def Cons_nth_drop_Suc)
    ultimately show ?thesis using s' t(3) by (auto simp: lfq_pop_def at_rest_def return_pop_def lfq_contents_def)
  qed
qed

lemma finish_clear:
  assumes "lfq_inv n s" "0 < n" "q_consumer s = Clearing (q_end s)" "q_producer s = Resting"
  shows "\<exists>s'. finish_call n s = Some s' \<and> at_rest n s' \<and> lfq_contents s' = []"
  using assms
proof (induction "q_end s - q_start s" arbitrary: s rule: less_induct)
  case less
  obtain base as where "lfq_shape n base as s" using less.prems(1) by (auto simp: lfq_inv_def)
  note d = lfq_shapeD [OF this]
  show ?case
  proof (cases "q_start s = q_end s")
    case True
    have "lfq_inv n (goto Waiting s)" using consumer_step_inv [OF less.prems(1,2)] less.prems(3) True by simp
    moreover have "finish_call n s = Some (goto Waiting s)"
      using less.prems(3) True by (simp add: finish_call.simps goto_def)
    ultimately show ?thesis using True d(11) less.prems(4) by (auto simp: at_rest_def lfq_contents_def goto_def)
  next
    case False
    then obtain x s1 where t: "pop_take s = Some (x, s1)" "lfq_inv n (goto (Cleared (q_end s)) s1)"
      using consumer_step_inv [OF less.prems(1,2)] less.prems(3) by auto
    obtain s2 where u: "pop_free n (goto (Cleared (q_end s)) s1) = Some s2" "lfq_inv n (goto (Clearing (q_end s)) s2)"
      using consumer_step_inv [OF t(2) less.prems(2)] by (auto simp: goto_def)
    have f: "q_start s2 = Suc (q_start s)" "q_end s2 = q_end s" "q_producer s2 = Resting"
      using pop_take_fields [OF less.prems(1) _ False t(1)] pop_free_fields [OF u(1)] less.prems(3,4) by (auto simp: goto_def)
    have "q_end s - Suc (q_start s) < q_end s - q_start s" using False d(8) by simp
    then obtain s' where "finish_call n (goto (Clearing (q_end s)) s2) = Some s'" "at_rest n s'" "lfq_contents s' = []"
      using less.hyps [of "goto (Clearing (q_end s)) s2"] u(2) f less.prems(2) by (auto simp: goto_def)
    moreover have "finish_call n s = finish_call n (goto (Clearing (q_end s)) s2)"
      using less.prems(3) False t(1) u(1)
      by (simp add: finish_call.simps [of n s] finish_call.simps [of n "goto (Cleared (q_end s)) s1"]) (simp add: goto_def)
    ultimately show ?thesis by simp
  qed
qed

lemma lfq_clear_law:
  assumes "at_rest n s" "0 < n"
  shows "\<exists>s'. lfq_clear n s = Some s' \<and> at_rest n s' \<and> lfq_contents s' = []"
proof -
  have inv: "lfq_inv n s" and p: "q_producer s = Resting" and c: "q_consumer s = Waiting" using assms(1) by (auto simp: at_rest_def)
  let ?s = "goto (Clearing (q_end s)) (log_call Empty_all s)"
  have "lfq_inv n ?s" using start_call_inv [OF inv c] by blast
  then have "\<exists>s'. finish_call n ?s = Some s' \<and> at_rest n s' \<and> lfq_contents s' = []"
    using p by (intro finish_clear [OF _ assms(2)]) (simp_all add: goto_def log_call_def)
  then show ?thesis using c by (simp add: lfq_clear_def)
qed

text \<open>What the recorder of a thread needs of its queue.\<close>

locale event_queue =
  fixes ready :: "'q \<Rightarrow> bool"
    and contents :: "'q \<Rightarrow> 'a list"
    and push :: "'a \<Rightarrow> 'q \<Rightarrow> 'q option"
    and pop :: "'q \<Rightarrow> ('a option \<times> 'q) option"
    and clear :: "'q \<Rightarrow> 'q option"
  assumes push_law: "ready q \<Longrightarrow> \<exists>q'. push x q = Some q' \<and> ready q' \<and> contents q' = contents q @ [x]"
    and pop_law: "ready q \<Longrightarrow> \<exists>q'. pop q = Some (case contents q of [] \<Rightarrow> None | x # _ \<Rightarrow> Some x, q') \<and> ready q' \<and>
      contents q' = tl (contents q)"
    and clear_law: "ready q \<Longrightarrow> \<exists>q'. clear q = Some q' \<and> ready q' \<and> contents q' = []"
begin

lemma push_some: "ready q \<Longrightarrow> push x q = Some q' \<Longrightarrow> ready q' \<and> contents q' = contents q @ [x]"
  using push_law [of q x] by auto

lemma pop_empty: "ready q \<Longrightarrow> contents q = [] \<Longrightarrow> \<exists>q'. pop q = Some (None, q') \<and> ready q' \<and> contents q' = []"
  using pop_law by fastforce

lemma pop_nonempty: "ready q \<Longrightarrow> contents q = x # xs \<Longrightarrow> \<exists>q'. pop q = Some (Some x, q') \<and> ready q' \<and> contents q' = xs"
  using pop_law by fastforce

end

interpretation recorder_queue: event_queue "\<lambda>s. 0 < n \<and> at_rest n s" lfq_contents "lfq_push n" "lfq_pop n" "lfq_clear n" for n
proof (unfold_locales, goal_cases)
  case (1 q x)
  then show ?case using lfq_push_law [of n q x] by auto
next
  case (2 q)
  then show ?case using lfq_pop_law [of n q] by auto
next
  case (3 q)
  then show ?case using lfq_clear_law [of n q] by auto
qed

section \<open>Every interleaving is a first-in first-out queue\<close>

lemma live_blocks:
  assumes "lfq_inv n s" "0 < n" "q_consumer s = Waiting" "q_producer s = Resting"
  shows "card (dom (q_blocks s)) = q_end s div n - q_start s div n + 1"
proof -
  obtain base as where "lfq_shape n base as s" using assms(1) by (auto simp: lfq_inv_def)
  note d = lfq_shapeD [OF this]
  obtain k where k: "base = n * k" using d(13) by blast
  have "q_start s div n = k" using d(6,10) assms(2,3) k by (intro div_nat_eqI) (auto simp: algebra_simps)
  moreover have "q_end s div n = k + length as - 1"
  proof (rule div_nat_eqI)
    show "n * (k + length as - 1) \<le> q_end s" using d(4,11) assms(4) k by (cases "length as") (auto simp: algebra_simps)
    show "q_end s < n * Suc (k + length as - 1)" using d(4,9) k by (cases "length as") (auto simp: algebra_simps)
  qed
  moreover have "card (dom (q_blocks s)) = length as" using d(1) by (auto simp: chain_def distinct_card)
  ultimately show ?thesis using d(4) by simp
qed

text \<open>
  C36: The queue is linearizable and memory safe. However the steps of the producer and of the consumer
  interleave, none of them touches a block that is not allocated or a slot that holds no element; the results
  of \<open>pop\<close> are those of a first-in first-out queue in which a push takes effect when it publishes the end and a
  \<open>pop\<close> or \<open>clear\<close> when it reads it, up to the one call that may still be running; and between calls exactly
  the blocks from the first to the last used index are allocated.
\<close>

theorem lock_free_queue_linearizable:
  assumes "0 < n"
  shows "\<exists>s. lfq_run n as (new_lfq n) = Some s \<and>
    (\<exists>r. fst (fifo (q_history s) []) = q_results s @ r \<and> length r \<le> 1 \<and> (q_consumer s = Waiting \<longrightarrow> r = [])) \<and>
    enqueued (q_history s) = take (q_end s) (q_pushed s) \<and>
    (q_consumer s = Waiting \<and> q_producer s = Resting \<longrightarrow> card (dom (q_blocks s)) = q_end s div n - q_start s div n + 1)"
proof -
  obtain s where s: "lfq_run n as (new_lfq n) = Some s" "lfq_inv n s" using lfq_run_inv [OF new_lfq_inv] assms by blast
  then have h: "history_ok s" by (simp add: lfq_inv_def)
  have "length (owed s (q_consumer s)) \<le> 1" "q_consumer s = Waiting \<Longrightarrow> owed s (q_consumer s) = []" by (cases "q_consumer s"; simp)+
  then show ?thesis using s h live_blocks [OF s(2) assms] by (auto simp: history_ok_def)
qed

theorem lock_free_queue_linearizable_witness:
  "(case lfq_run 2 [Start_push (7::nat), Producer, Producer, Start_push 8, Start_pop, Producer, Consumer, Producer, Consumer, Start_pop, Consumer]
      (new_lfq 2) of None \<Rightarrow> False | Some s \<Rightarrow> q_results s = [Some 7] \<and> fst (fifo (q_history s) []) = [Some 7, Some 8])"
proof -
  let ?as = "[Start_push (7::nat), Producer, Producer, Start_push 8, Start_pop, Producer, Consumer, Producer, Consumer, Start_pop, Consumer]"
  have "\<exists>s. lfq_run 2 ?as (new_lfq 2) = Some s" using lock_free_queue_linearizable [of 2 ?as] by auto
  moreover have "q_results (the (lfq_run 2 ?as (new_lfq 2))) = [Some 7]"
    "fst (fifo (q_history (the (lfq_run 2 ?as (new_lfq 2)))) []) = [Some 7, Some 8]" by code_simp+
  ultimately show ?thesis by auto
qed

end
