(* ===== verification/Trace_Recorder.thy ===== *)
theory Trace_Recorder
  imports Lock_Free_Queue
begin

unbundle bit_operations_syntax

text \<open>
  \<open>traceme.h\<close>, \<open>traceme_recorder.h/.cpp\<close> and \<open>per_thread.h\<close>: threads record events in queues of their own, and a
  session collects the queues and joins the halves of activities that were started and ended separately.
  Calls of \<open>push\<close>, \<open>pop\<close> and \<open>clear\<close> are taken as a whole here; \<open>Lock_Free_Queue\<close> shows that this is what
  their interleavings amount to. Time stamps are nanoseconds and are taken as integers.
\<close>

section \<open>Events\<close>

record trace_event =
  ev_name :: string
  ev_start :: int
  ev_end :: int

definition is_complete :: "trace_event \<Rightarrow> bool" where
  "is_complete e \<longleftrightarrow> ev_start e > 0 \<and> ev_end e > 0"

definition is_start :: "trace_event \<Rightarrow> bool" where
  "is_start e \<longleftrightarrow> ev_end e < 0"

definition is_end :: "trace_event \<Rightarrow> bool" where
  "is_end e \<longleftrightarrow> ev_start e < 0"

definition activity_id :: "trace_event \<Rightarrow> int" where
  "activity_id e = (if is_start e then - ev_end e else if is_end e then - ev_start e else 1)"

section \<open>Joining the halves of activities\<close>

text \<open>
  The tracker holds the start events by activity and the addresses of the end events that have not found
  theirs: the index of the thread in the result and of the event in the thread.
\<close>

record split_event_tracker =
  start_events :: "int \<Rightarrow> trace_event option"
  end_events :: "(nat \<times> nat) list"

definition new_tracker :: split_event_tracker where
  "new_tracker = \<lparr>start_events = Map.empty, end_events = []\<rparr>"

definition merge_start :: "trace_event \<Rightarrow> trace_event \<Rightarrow> trace_event" where
  "merge_start st e = e\<lparr>ev_name := ev_name st, ev_start := ev_start st\<rparr>"

definition FindStartAndMerge :: "trace_event \<Rightarrow> split_event_tracker \<Rightarrow> (trace_event \<times> split_event_tracker) option" where
  "FindStartAndMerge e tr =
     (case start_events tr (activity_id e) of
        None \<Rightarrow> None
      | Some st \<Rightarrow> Some (merge_start st e, tr\<lparr>start_events := (start_events tr)(activity_id e := None)\<rparr>))"

definition AddStart :: "trace_event \<Rightarrow> split_event_tracker \<Rightarrow> split_event_tracker" where
  "AddStart e tr =
     (case start_events tr (activity_id e) of
        None \<Rightarrow> tr\<lparr>start_events := (start_events tr)(activity_id e \<mapsto> e)\<rparr>
      | Some _ \<Rightarrow> tr)"

definition AddEnd :: "nat \<times> nat \<Rightarrow> trace_event \<Rightarrow> split_event_tracker \<Rightarrow> trace_event \<times> split_event_tracker" where
  "AddEnd a e tr =
     (case FindStartAndMerge e tr of
        Some r \<Rightarrow> r
      | None \<Rightarrow> (e, tr\<lparr>end_events := end_events tr @ [a]\<rparr>))"

definition take_event :: "nat \<Rightarrow> trace_event \<Rightarrow> trace_event list \<times> split_event_tracker \<Rightarrow> trace_event list \<times> split_event_tracker" where
  "take_event t e = (\<lambda>(evs, tr).
     if is_start e then (evs, AddStart e tr)
     else if is_end e then (case AddEnd (t, length evs) e tr of (e1, tr1) \<Rightarrow> (evs @ [e1], tr1))
     else (evs @ [e], tr))"

text \<open>\<open>Consume\<close> pops until the queue is empty; \<open>t\<close> is the index the thread will have in the result.\<close>

partial_function (option) consume_queue ::
  "nat \<Rightarrow> nat \<Rightarrow> trace_event lfq \<Rightarrow> trace_event list \<times> split_event_tracker \<Rightarrow> ((trace_event list \<times> split_event_tracker) \<times> trace_event lfq) option" where
  "consume_queue n t q st =
     (case lfq_pop n q of
        None \<Rightarrow> None
      | Some (None, q1) \<Rightarrow> Some (st, q1)
      | Some (Some e, q1) \<Rightarrow> consume_queue n t q1 (take_event t e st))"

definition merge_at :: "nat \<times> nat \<Rightarrow> trace_event list list \<times> split_event_tracker \<Rightarrow> trace_event list list \<times> split_event_tracker" where
  "merge_at a = (\<lambda>(evs, tr). case a of (t, p) \<Rightarrow>
     (case FindStartAndMerge (evs ! t ! p) tr of
        None \<Rightarrow> (evs, tr)
      | Some (e, tr1) \<Rightarrow> (evs[t := (evs ! t)[p := e]], tr1)))"

definition HandleCrossThreadEvents :: "trace_event list list \<times> split_event_tracker \<Rightarrow> trace_event list list" where
  "HandleCrossThreadEvents = (\<lambda>(evs, tr). fst (foldl (\<lambda>st a. merge_at a st) (evs, tr) (end_events tr)))"

section \<open>The recorders of the threads\<close>

text \<open>
  Each thread has a name of its own here that is never used again, and an identifier of the operating
  system. The registry lists the recorders that are registered, with whether their thread is alive; its
  order stands for the unspecified order of the map of the code.
\<close>

record recorder =
  rc_thread :: nat
  rc_tid :: nat
  rc_queue :: "trace_event lfq"
  rc_alive :: bool

record tracing =
  tr_level :: int
  tr_filter :: u64
  tr_recorders :: "recorder list"
  tr_recording :: bool
  tr_exited :: "nat list"

definition kTracingDisabled :: int where
  "kTracingDisabled = -1"

definition kDefaultTraceFilter :: u64 where
  "kDefaultTraceFilter = -1"

definition new_tracing :: tracing where
  "new_tracing = \<lparr>tr_level = kTracingDisabled, tr_filter = kDefaultTraceFilter, tr_recorders = [], tr_recording = False, tr_exited = []\<rparr>"

definition active :: "int \<Rightarrow> tracing \<Rightarrow> bool" where
  "active level s \<longleftrightarrow> tr_level s \<ge> level"

definition check_filter :: "u64 \<Rightarrow> tracing \<Rightarrow> bool" where
  "check_filter f s \<longleftrightarrow> tr_filter s AND f \<noteq> 0"

definition StartRecording :: "tracing \<Rightarrow> tracing" where
  "StartRecording s = s\<lparr>tr_recording := True\<rparr>"

definition StopRecording :: "tracing \<Rightarrow> recorder list \<times> tracing" where
  "StopRecording s = (tr_recorders s, s\<lparr>tr_recorders := filter rc_alive (tr_recorders s), tr_recording := False\<rparr>)"

definition Register :: "recorder \<Rightarrow> tracing \<Rightarrow> tracing" where
  "Register r s = s\<lparr>tr_recorders := tr_recorders s @ [r]\<rparr>"

definition Unregister :: "nat \<Rightarrow> tracing \<Rightarrow> tracing" where
  "Unregister k s =
     (if \<not> tr_recording s then s\<lparr>tr_recorders := filter (\<lambda>r. rc_thread r \<noteq> k) (tr_recorders s)\<rparr>
      else s\<lparr>tr_recorders := map (\<lambda>r. if rc_thread r = k then r\<lparr>rc_alive := False\<rparr> else r) (tr_recorders s)\<rparr>)"

text \<open>Running an operation on the queue of each recorder in turn.\<close>

fun each_queue :: "(trace_event lfq \<Rightarrow> trace_event lfq option) \<Rightarrow> recorder list \<Rightarrow> recorder list option" where
  "each_queue h [] = Some []"
| "each_queue h (r # rs) =
     (case h (rc_queue r) of
        None \<Rightarrow> None
      | Some q \<Rightarrow> map_option ((#) (r\<lparr>rc_queue := q\<rparr>)) (each_queue h rs))"

definition clear :: "nat \<Rightarrow> tracing \<Rightarrow> tracing option" where
  "clear n s = map_option (\<lambda>rs. (StartRecording s)\<lparr>tr_recorders := rs\<rparr>) (each_queue (lfq_clear n) (tr_recorders s))"

type_synonym thread_events = "nat \<times> trace_event list"

text \<open>The loop of \<open>consume\<close> over the recorders: the result so far, the tracker, and the recorders with their queues.\<close>

fun consume_all :: "nat \<Rightarrow> recorder list \<Rightarrow> thread_events list \<times> split_event_tracker \<Rightarrow>
    ((thread_events list \<times> split_event_tracker) \<times> recorder list) option" where
  "consume_all n [] st = Some (st, [])"
| "consume_all n (r # rs) (res, tr) =
     (case consume_queue n (length res) (rc_queue r) ([], tr) of
        None \<Rightarrow> None
      | Some ((evs, tr1), q) \<Rightarrow>
          map_option (\<lambda>(st, rs1). (st, r\<lparr>rc_queue := q\<rparr> # rs1))
            (consume_all n rs (if evs = [] then res else res @ [(rc_tid r, evs)], tr1)))"

definition consume :: "nat \<Rightarrow> tracing \<Rightarrow> (thread_events list \<times> tracing) option" where
  "consume n s =
     (case consume_all n (fst (StopRecording s)) ([], new_tracker) of
        None \<Rightarrow> None
      | Some ((res, tr), rs) \<Rightarrow>
          Some (zip (map fst res) (HandleCrossThreadEvents (map snd res, tr)), (snd (StopRecording s))\<lparr>tr_recorders := filter rc_alive rs\<rparr>))"

definition start :: "nat \<Rightarrow> int \<Rightarrow> u64 \<Rightarrow> tracing \<Rightarrow> (bool \<times> tracing) option" where
  "start n level filt s =
     (let s1 = s\<lparr>tr_filter := filt\<rparr>
      in if tr_level s1 = kTracingDisabled
         then map_option (\<lambda>s2. (True, s2)) (clear n (s1\<lparr>tr_level := (if level > 0 then level else 0)\<rparr>))
         else Some (False, s1))"

definition stop :: "nat \<Rightarrow> tracing \<Rightarrow> (thread_events list \<times> tracing) option" where
  "stop n s =
     (if tr_level s \<noteq> kTracingDisabled
      then map_option (\<lambda>(evs, s1). (evs, s1\<lparr>tr_filter := kDefaultTraceFilter\<rparr>)) (consume n (s\<lparr>tr_level := kTracingDisabled\<rparr>))
      else Some ([], s\<lparr>tr_filter := kDefaultTraceFilter\<rparr>))"

text \<open>\<open>record\<close> makes the recorder of a thread when the thread calls it for the first time.\<close>

definition Get :: "nat \<Rightarrow> nat \<Rightarrow> nat \<Rightarrow> tracing \<Rightarrow> tracing" where
  "Get n k tid s =
     (if \<exists>r\<in>set (tr_recorders s). rc_thread r = k then s
      else Register \<lparr>rc_thread = k, rc_tid = tid, rc_queue = new_lfq n, rc_alive = True\<rparr> s)"

definition record_event :: "nat \<Rightarrow> nat \<Rightarrow> nat \<Rightarrow> trace_event \<Rightarrow> tracing \<Rightarrow> tracing option" where
  "record_event n k tid e s =
     (let s1 = Get n k tid s
      in map_option (\<lambda>rs. s1\<lparr>tr_recorders := rs\<rparr>)
           (those (map (\<lambda>r. if rc_thread r = k then map_option (\<lambda>q. r\<lparr>rc_queue := q\<rparr>) (lfq_push n e (rc_queue r)) else Some r)
              (tr_recorders s1))))"

definition exit_thread :: "nat \<Rightarrow> tracing \<Rightarrow> tracing" where
  "exit_thread k s = (Unregister k s)\<lparr>tr_exited := k # tr_exited s\<rparr>"

section \<open>The interface of traced code\<close>

text \<open>A \<open>traceme\<close> object is its name and its start time, zero when it is not traced.\<close>

definition kUntracedActivity :: int where
  "kUntracedActivity = 0"

definition traceme :: "string \<Rightarrow> int \<Rightarrow> u64 \<Rightarrow> int \<Rightarrow> tracing \<Rightarrow> string \<times> int" where
  "traceme name level filt now s =
     (if active level s \<and> check_filter filt s then (name, now) else ('''', kUntracedActivity))"

definition traceme_stop :: "nat \<Rightarrow> nat \<Rightarrow> nat \<Rightarrow> string \<times> int \<Rightarrow> int \<Rightarrow> tracing \<Rightarrow> tracing option" where
  "traceme_stop n k tid obj now s =
     (if snd obj \<noteq> kUntracedActivity \<and> active 1 s
      then record_event n k tid \<lparr>ev_name = fst obj, ev_start = snd obj, ev_end = now\<rparr> s else Some s)"

text \<open>The identifiers of activities: a number for each thread that asks for one, and a counter per thread.\<close>

record id_state =
  id_next_thread :: u32
  id_threads :: "nat \<Rightarrow> (u32 \<times> u32) option"

definition new_ids :: id_state where
  "new_ids = \<lparr>id_next_thread = 1, id_threads = Map.empty\<rparr>"

definition new_activity_id :: "nat \<Rightarrow> id_state \<Rightarrow> u64 \<times> id_state" where
  "new_activity_id k s =
     (let (tid, c, s1) = (case id_threads s k of
            Some (tid, c) \<Rightarrow> (tid, c, s)
          | None \<Rightarrow> (id_next_thread s, 0, s\<lparr>id_next_thread := id_next_thread s + 1\<rparr>))
      in (push_bit 32 (scast tid) OR ucast c, s1\<lparr>id_threads := (id_threads s1)(k \<mapsto> (tid, c + 1))\<rparr>))"

definition activity_start :: "nat \<Rightarrow> nat \<Rightarrow> nat \<Rightarrow> string \<Rightarrow> int \<Rightarrow> u64 \<Rightarrow> int \<Rightarrow> tracing \<times> id_state \<Rightarrow> (int \<times> tracing \<times> id_state) option" where
  "activity_start n k tid name level filt now = (\<lambda>(s, ids).
     if active level s \<and> check_filter filt s
     then (case new_activity_id k ids of (i, ids1) \<Rightarrow>
            map_option (\<lambda>s1. (sint i, s1, ids1))
              (record_event n k tid \<lparr>ev_name = name, ev_start = now, ev_end = - sint i\<rparr> s))
     else Some (kUntracedActivity, s, ids))"

definition activity_end :: "nat \<Rightarrow> nat \<Rightarrow> nat \<Rightarrow> int \<Rightarrow> int \<Rightarrow> tracing \<Rightarrow> tracing option" where
  "activity_end n k tid i now s =
     (if i \<noteq> kUntracedActivity \<and> active 1 s
      then record_event n k tid \<lparr>ev_name = '''', ev_start = - i, ev_end = now\<rparr> s else Some s)"

definition instant_activity :: "nat \<Rightarrow> nat \<Rightarrow> nat \<Rightarrow> string \<Rightarrow> int \<Rightarrow> u64 \<Rightarrow> int \<Rightarrow> tracing \<Rightarrow> tracing option" where
  "instant_activity n k tid name level filt now s =
     (if active level s \<and> check_filter filt s
      then record_event n k tid \<lparr>ev_name = name, ev_start = now, ev_end = now\<rparr> s else Some s)"

section \<open>Programs that trace\<close>

text \<open>
  The calls of the threads and of the session, in the order in which they take effect. A thread that has
  exited does nothing any more.
\<close>

datatype trace_action =
    Start_session int u64
  | Stop_session
  | Scope_end nat "string \<times> int" int
  | Activity_start nat string int u64 int
  | Activity_end nat int int
  | Instant nat string int u64 int
  | Exit_thread nat

type_synonym trace_state = "tracing \<times> id_state"

fun thread_of :: "trace_action \<Rightarrow> nat option" where
  "thread_of (Scope_end k obj now) = Some k"
| "thread_of (Activity_start k name level filt now) = Some k"
| "thread_of (Activity_end k i now) = Some k"
| "thread_of (Instant k name level filt now) = Some k"
| "thread_of (Exit_thread k) = Some k"
| "thread_of _ = None"

fun trace_call :: "nat \<Rightarrow> (nat \<Rightarrow> nat) \<Rightarrow> trace_action \<Rightarrow> trace_state \<Rightarrow> trace_state option" where
  "trace_call n os (Start_session level filt) (s, ids) = map_option (\<lambda>(b, s1). (s1, ids)) (start n level filt s)"
| "trace_call n os Stop_session (s, ids) = map_option (\<lambda>(evs, s1). (s1, ids)) (stop n s)"
| "trace_call n os (Scope_end k obj now) (s, ids) = map_option (\<lambda>s1. (s1, ids)) (traceme_stop n k (os k) obj now s)"
| "trace_call n os (Activity_start k name level filt now) st = map_option snd (activity_start n k (os k) name level filt now st)"
| "trace_call n os (Activity_end k i now) (s, ids) = map_option (\<lambda>s1. (s1, ids)) (activity_end n k (os k) i now s)"
| "trace_call n os (Instant k name level filt now) (s, ids) =
     map_option (\<lambda>s1. (s1, ids)) (instant_activity n k (os k) name level filt now s)"
| "trace_call n os (Exit_thread k) (s, ids) = Some (exit_thread k s, ids)"

definition trace_act :: "nat \<Rightarrow> (nat \<Rightarrow> nat) \<Rightarrow> trace_action \<Rightarrow> trace_state \<Rightarrow> trace_state option" where
  "trace_act n os a st =
     (case thread_of a of
        Some k \<Rightarrow> (if k \<in> set (tr_exited (fst st)) then Some st else trace_call n os a st)
      | None \<Rightarrow> trace_call n os a st)"

fun trace_run :: "nat \<Rightarrow> (nat \<Rightarrow> nat) \<Rightarrow> trace_action list \<Rightarrow> trace_state \<Rightarrow> trace_state option" where
  "trace_run n os [] st = Some st"
| "trace_run n os (a # as) st = (case trace_act n os a st of None \<Rightarrow> None | Some st1 \<Rightarrow> trace_run n os as st1)"

section \<open>What a session collects\<close>

text \<open>
  The specification of \<open>consume\<close>: the start events of all threads are set aside, and an end event gets the
  name and the start time of the start event of its activity, if there is one.
\<close>

definition starts :: "trace_event list \<Rightarrow> int \<Rightarrow> trace_event option" where
  "starts evs = map_of (map (\<lambda>e. (activity_id e, e)) (filter is_start evs))"

definition join_start :: "(int \<Rightarrow> trace_event option) \<Rightarrow> trace_event \<Rightarrow> trace_event" where
  "join_start S e = (if is_end e then (case S (activity_id e) of None \<Rightarrow> e | Some st \<Rightarrow> merge_start st e) else e)"

definition collected :: "(nat \<times> trace_event list) list \<Rightarrow> thread_events list" where
  "collected ts =
     (let S = starts (concat (map snd ts))
      in filter (\<lambda>(tid, evs). evs \<noteq> []) (map (\<lambda>(tid, evs). (tid, map (join_start S) (filter (\<lambda>e. \<not> is_start e) evs))) ts))"

text \<open>No activity is started twice or ended twice.\<close>

definition paired :: "trace_event list \<Rightarrow> bool" where
  "paired evs \<longleftrightarrow> distinct (map activity_id (filter is_start evs)) \<and>
     distinct (map activity_id (filter is_end (filter (\<lambda>e. \<not> is_start e) evs)))"

lemma consume_queue_eq:
  assumes "0 < n" "at_rest n q"
  shows "\<exists>q'. consume_queue n t q st = Some (fold (take_event t) (lfq_contents q) st, q') \<and> at_rest n q' \<and> lfq_contents q' = []"
  using assms(2)
proof (induction "lfq_contents q" arbitrary: q st)
  case Nil
  then obtain q' where "lfq_pop n q = Some (None, q')" "at_rest n q'" "lfq_contents q' = []"
    using recorder_queue.pop_empty [of n q] assms(1) by auto
  then show ?case using Nil by (simp add: consume_queue.simps Nil(1) [symmetric])
next
  case (Cons e es)
  then obtain q1 where q1: "lfq_pop n q = Some (Some e, q1)" "at_rest n q1" "lfq_contents q1 = es"
    using recorder_queue.pop_nonempty [of n q e es] assms(1) by auto
  then obtain q' where "consume_queue n t q1 (take_event t e st) = Some (fold (take_event t) es (take_event t e st), q')"
      "at_rest n q'" "lfq_contents q' = []"
    using Cons(1) [of q1] by blast
  then show ?case using q1 Cons(2) by (simp add: consume_queue.simps [of n t q] Cons(2) [symmetric])
qed

text \<open>While the events are read: \<open>D\<close> are the activities whose start was seen, \<open>M\<close> those that are joined.\<close>

definition joined :: "(int \<Rightarrow> trace_event option) \<Rightarrow> int set \<Rightarrow> trace_event \<Rightarrow> trace_event" where
  "joined S M e = (if is_end e \<and> activity_id e \<in> M then merge_start (the (S (activity_id e))) e else e)"

definition end_ids :: "trace_event list \<Rightarrow> int set" where
  "end_ids evs = activity_id ` set (filter is_end evs)"

text \<open>The places of the end events that are not joined.\<close>

definition pending :: "trace_event list list \<Rightarrow> int set \<Rightarrow> (nat \<times> nat) set" where
  "pending raws M = {(t, p). t < length raws \<and> p < length (raws ! t) \<and> is_end (raws ! t ! p) \<and> activity_id (raws ! t ! p) \<notin> M}"

definition tracker_ok :: "(int \<Rightarrow> trace_event option) \<Rightarrow> int set \<Rightarrow> int set \<Rightarrow> trace_event list list \<Rightarrow> trace_event list list \<Rightarrow>
    split_event_tracker \<Rightarrow> bool" where
  "tracker_ok S D M raws outs tr \<longleftrightarrow>
     outs = map (map (joined S M)) raws \<and> start_events tr = S |` (D - M) \<and> D \<subseteq> dom S \<and> M \<subseteq> D \<and> M \<subseteq> end_ids (concat raws) \<and>
     distinct (end_events tr) \<and> set (end_events tr) = pending raws M"

lemma end_idsI: "e \<in> set es \<Longrightarrow> is_end e \<Longrightarrow> activity_id e \<in> end_ids es"
  by (auto simp: end_ids_def)

lemma end_ids_Nil [simp]: "end_ids [] = {}"
  by (simp add: end_ids_def)

lemma end_ids_append [simp]: "end_ids (es @ fs) = end_ids es \<union> end_ids fs"
  by (auto simp: end_ids_def)

lemma joined_other: "i \<notin> end_ids es \<Longrightarrow> map (joined S (insert i M)) es = map (joined S M) es"
  by (auto simp: joined_def end_ids_def)

lemma joined_others: "i \<notin> end_ids (concat raws) \<Longrightarrow> map (map (joined S (insert i M))) raws = map (map (joined S M)) raws"
  by (induction raws) (auto simp: joined_other)

lemma pending_end_snoc:
  "pending (rs @ [r @ [e]]) M = pending (rs @ [r]) M \<union> (if is_end e \<and> activity_id e \<notin> M then {(length rs, length r)} else {})"
  by (auto simp: pending_def nth_append less_Suc_eq split: if_splits)

lemma pending_empty: "pending (rs @ [[]]) M = pending rs M"
  by (auto simp: pending_def nth_append less_Suc_eq split: if_splits)

lemma pending_end_id: "(t, p) \<in> pending raws M \<Longrightarrow> activity_id (raws ! t ! p) \<in> end_ids (concat raws)"
  by (intro end_idsI) (use nth_mem in \<open>fastforce simp: pending_def\<close>)+

lemma pending_other: "i \<notin> end_ids (concat raws) \<Longrightarrow> pending raws (insert i M) = pending raws M"
  using pending_end_id [of _ _ raws M] by (fastforce simp: pending_def)

lemma take_event_ok:
  assumes "tracker_ok S D M (raws @ [raw]) (outs @ [out]) tr" "length raws = t"
    "is_start e \<Longrightarrow> S (activity_id e) = Some e \<and> activity_id e \<notin> D"
    "\<not> is_start e \<Longrightarrow> is_end e \<Longrightarrow> activity_id e \<notin> end_ids (concat raws @ raw)"
  shows "\<exists>out' tr' M'. take_event t e (out, tr) = (out', tr') \<and>
    tracker_ok S (if is_start e then insert (activity_id e) D else D) M' (raws @ [if is_start e then raw else raw @ [e]]) (outs @ [out']) tr'"
proof -
  let ?i = "activity_id e"
  have ok: "outs = map (map (joined S M)) raws" "out = map (joined S M) raw" "start_events tr = S |` (D - M)" "D \<subseteq> dom S" "M \<subseteq> D"
      "M \<subseteq> end_ids (concat raws @ raw)" "distinct (end_events tr)" "set (end_events tr) = pending (raws @ [raw]) M"
    using assms(1) by (auto simp: tracker_ok_def)
  consider (s) "is_start e" | (e) "\<not> is_start e" "is_end e" | (c) "\<not> is_start e" "\<not> is_end e" by blast
  then show ?thesis
  proof cases
    case s
    then have S: "S ?i = Some e" "?i \<notin> D" using assms(3) by auto
    then have "?i \<notin> M" using ok(5) by auto
    then have "S |` (insert ?i D - M) = (S |` (D - M))(?i \<mapsto> e)" using S by (auto simp: restrict_map_def)
    then have "tracker_ok S (insert ?i D) M (raws @ [raw]) (outs @ [out]) (AddStart e tr)"
      using assms(1) ok S by (auto simp: tracker_ok_def AddStart_def)
    then show ?thesis using s by (auto simp: take_event_def)
  next
    case e
    then have new: "?i \<notin> end_ids (concat (raws @ [raw]))" using assms(4) by simp
    then have nm: "?i \<notin> M" using ok(6) by auto
    show ?thesis
    proof (cases "?i \<in> D")
      case True
      then obtain st where st: "S ?i = Some st" "start_events tr ?i = Some st" using ok(3,4) nm by auto
      let ?M = "insert ?i M" and ?tr = "tr\<lparr>start_events := (start_events tr)(?i := None)\<rparr>"
      have "set (end_events tr) = pending (raws @ [raw @ [e]]) ?M"
        unfolding pending_end_snoc pending_other [OF new] using ok(8) by simp
      moreover have "map (joined S ?M) raw = map (joined S M) raw" "map (map (joined S ?M)) raws = map (map (joined S M)) raws"
        using new joined_other [of ?i raw S M] joined_others [of ?i raws S M] by simp_all
      moreover have "joined S ?M e = merge_start st e" using e(2) st(1) by (simp add: joined_def)
      moreover have "(S |` (D - M))(?i := None) = S |` (D - ?M)" by (auto simp: restrict_map_def)
      moreover have "?i \<in> end_ids [e]" using e(2) by (simp add: end_ids_def)
      ultimately have "tracker_ok S D ?M (raws @ [raw @ [e]]) (outs @ [out @ [merge_start st e]]) ?tr"
        using ok True by (auto simp: tracker_ok_def)
      then show ?thesis using e st(2) by (auto simp: take_event_def AddEnd_def FindStartAndMerge_def)
    next
      case False
      then have none: "start_events tr ?i = None" using ok(3) by (simp add: restrict_map_def)
      let ?tr = "tr\<lparr>end_events := end_events tr @ [(t, length out)]\<rparr>"
      have len: "length out = length raw" using ok(2) by simp
      have "set (end_events ?tr) = pending (raws @ [raw @ [e]]) M"
        unfolding pending_end_snoc using ok(8) e(2) nm len assms(2) by simp
      moreover have "distinct (end_events ?tr)" using ok(7,8) len assms(2) by (auto simp: pending_def)
      moreover have "joined S M e = e" using nm by (simp add: joined_def)
      ultimately have "tracker_ok S D M (raws @ [raw @ [e]]) (outs @ [out @ [e]]) ?tr"
        using ok by (auto simp: tracker_ok_def)
      then show ?thesis using e none by (auto simp: take_event_def AddEnd_def FindStartAndMerge_def)
    qed
  next
    case c
    have "tracker_ok S D M (raws @ [raw @ [e]]) (outs @ [out @ [e]]) tr"
      unfolding tracker_ok_def pending_end_snoc using ok c by (auto simp: joined_def)
    then show ?thesis using c by (auto simp: take_event_def)
  qed
qed

text \<open>All events of one thread, and of all threads.\<close>

definition start_ids :: "trace_event list \<Rightarrow> int set" where
  "start_ids evs = activity_id ` set (filter is_start evs)"

definition part_ok :: "(int \<Rightarrow> trace_event option) \<Rightarrow> int set \<Rightarrow> int set \<Rightarrow> trace_event list \<Rightarrow> bool" where
  "part_ok S D E evs \<longleftrightarrow> (\<forall>e\<in>set evs. is_start e \<longrightarrow> S (activity_id e) = Some e) \<and>
     distinct (map activity_id (filter is_start evs)) \<and> start_ids evs \<inter> D = {} \<and>
     distinct (map activity_id (filter is_end (filter (\<lambda>e. \<not> is_start e) evs))) \<and>
     end_ids (filter (\<lambda>e. \<not> is_start e) evs) \<inter> E = {}"

lemma part_ok_append:
  assumes "part_ok S D E (es @ fs)"
  shows "part_ok S D E es" "part_ok S (D \<union> start_ids es) (E \<union> end_ids (filter (\<lambda>e. \<not> is_start e) es)) fs"
proof -
  have "activity_id ` set (filter is_start es) = start_ids es" for es by (simp add: start_ids_def)
  moreover have "activity_id ` {x \<in> set es. \<not> is_start x \<and> is_end x} = end_ids (filter (\<lambda>e. \<not> is_start e) es)" for es
    by (auto simp: end_ids_def)
  moreover have "start_ids (es @ fs) = start_ids es \<union> start_ids fs" by (auto simp: start_ids_def)
  ultimately show "part_ok S D E es" "part_ok S (D \<union> start_ids es) (E \<union> end_ids (filter (\<lambda>e. \<not> is_start e) es)) fs"
    using assms unfolding part_ok_def by (simp_all add: Int_Un_distrib Int_Un_distrib2 Int_commute)
qed

lemma part_ok_Cons:
  assumes "part_ok S D E (e # evs)"
  shows "is_start e \<Longrightarrow> S (activity_id e) = Some e \<and> activity_id e \<notin> D \<and> part_ok S (insert (activity_id e) D) E evs"
    "\<not> is_start e \<Longrightarrow> part_ok S D (E \<union> end_ids [e]) evs" "\<not> is_start e \<Longrightarrow> is_end e \<Longrightarrow> activity_id e \<notin> E"
proof -
  have p: "part_ok S D E [e]" "part_ok S (D \<union> start_ids [e]) (E \<union> end_ids (filter (\<lambda>e. \<not> is_start e) [e])) evs"
    using part_ok_append [of S D E "[e]" evs] assms by simp_all
  show "is_start e \<Longrightarrow> S (activity_id e) = Some e \<and> activity_id e \<notin> D \<and> part_ok S (insert (activity_id e) D) E evs"
    "\<not> is_start e \<Longrightarrow> part_ok S D (E \<union> end_ids [e]) evs" "\<not> is_start e \<Longrightarrow> is_end e \<Longrightarrow> activity_id e \<notin> E"
    using p by (auto simp: part_ok_def start_ids_def end_ids_def)
qed

lemma fold_take_event_ok:
  assumes "tracker_ok S D M (raws @ [raw]) (outs @ [out]) tr" "length raws = t" "part_ok S D (end_ids (concat raws @ raw)) evs"
  shows "\<exists>out' tr' M'. fold (take_event t) evs (out, tr) = (out', tr') \<and>
    tracker_ok S (D \<union> start_ids evs) M' (raws @ [raw @ filter (\<lambda>e. \<not> is_start e) evs]) (outs @ [out']) tr'"
  using assms
proof (induction evs arbitrary: D M raw out tr)
  case Nil
  then show ?case by (auto simp: start_ids_def)
next
  case (Cons e evs)
  note c = part_ok_Cons [OF Cons.prems(3)]
  obtain out1 tr1 M1 where step: "take_event t e (out, tr) = (out1, tr1)"
      "tracker_ok S (if is_start e then insert (activity_id e) D else D) M1 (raws @ [if is_start e then raw else raw @ [e]]) (outs @ [out1]) tr1"
    using take_event_ok [OF Cons.prems(1,2), of e] c by blast
  have "part_ok S (if is_start e then insert (activity_id e) D else D) (end_ids (concat raws @ (if is_start e then raw else raw @ [e]))) evs"
    using c(1,2) by (auto simp: Un_assoc)
  then obtain out' tr' M' where "fold (take_event t) evs (out1, tr1) = (out', tr')"
      "tracker_ok S ((if is_start e then insert (activity_id e) D else D) \<union> start_ids evs) M'
        (raws @ [(if is_start e then raw else raw @ [e]) @ filter (\<lambda>e. \<not> is_start e) evs]) (outs @ [out']) tr'"
    using Cons.IH [OF step(2) Cons.prems(2)] by blast
  moreover have "(if is_start e then insert (activity_id e) D else D) \<union> start_ids evs = D \<union> start_ids (e # evs)"
    by (auto simp: start_ids_def)
  moreover have "(if is_start e then raw else raw @ [e]) @ filter (\<lambda>e. \<not> is_start e) evs = raw @ filter (\<lambda>e. \<not> is_start e) (e # evs)"
    by simp
  ultimately show ?case using step(1) by auto
qed

text \<open>The pure part of \<open>consume_all\<close>: it reads the contents of the queues.\<close>

fun collect :: "(nat \<times> trace_event list) list \<Rightarrow> thread_events list \<times> split_event_tracker \<Rightarrow> thread_events list \<times> split_event_tracker" where
  "collect [] st = st"
| "collect ((tid, evs) # ts) (res, tr) =
     (case fold (take_event (length res)) evs ([], tr) of
        (out, tr1) \<Rightarrow> collect ts (if out = [] then res else res @ [(tid, out)], tr1))"

definition nonempty_parts :: "(nat \<times> trace_event list) list \<Rightarrow> (nat \<times> trace_event list) list" where
  "nonempty_parts ts = filter (\<lambda>(tid, evs). evs \<noteq> []) (map (\<lambda>(tid, evs). (tid, filter (\<lambda>e. \<not> is_start e) evs)) ts)"

lemma tracker_ok_empty: "tracker_ok S D M (raws @ [[]]) (outs @ [[]]) tr \<longleftrightarrow> tracker_ok S D M raws outs tr"
  by (auto simp: tracker_ok_def pending_empty)

lemma collect_ok:
  assumes "tracker_ok S D M raws (map snd res) tr" "length raws = length res" "part_ok S D (end_ids (concat raws)) (concat (map snd ts))"
  shows "\<exists>res' tr' M'. collect ts (res, tr) = (res', tr') \<and> map fst res' = map fst res @ map fst (nonempty_parts ts) \<and>
    tracker_ok S (D \<union> start_ids (concat (map snd ts))) M' (raws @ map snd (nonempty_parts ts)) (map snd res') tr'"
  using assms
proof (induction ts arbitrary: D M raws res tr)
  case Nil
  then show ?case by (auto simp: nonempty_parts_def start_ids_def)
next
  case (Cons te ts)
  obtain tid evs where te: "te = (tid, evs)" by force
  let ?f = "filter (\<lambda>e. \<not> is_start e) evs"
  have p: "part_ok S D (end_ids (concat raws)) evs" "part_ok S (D \<union> start_ids evs) (end_ids (concat raws @ ?f)) (concat (map snd ts))"
    using part_ok_append [of S D "end_ids (concat raws)" evs] Cons.prems(3) te by simp_all
  obtain out tr1 M1 where s: "fold (take_event (length res)) evs ([], tr) = (out, tr1)"
      "tracker_ok S (D \<union> start_ids evs) M1 (raws @ [?f]) (map snd res @ [out]) tr1"
    using fold_take_event_ok [of S D M raws "[]" "map snd res" "[]" tr "length res" evs] Cons.prems(1,2) p(1) tracker_ok_empty by auto
  have out: "out = [] \<longleftrightarrow> ?f = []" using s(2) by (auto simp: tracker_ok_def)
  let ?res = "if out = [] then res else res @ [(tid, out)]" and ?raws = "if out = [] then raws else raws @ [?f]"
  have "tracker_ok S (D \<union> start_ids evs) M1 ?raws (map snd ?res) tr1" using s(2) out tracker_ok_empty by auto
  moreover have "length ?raws = length ?res" using Cons.prems(2) by simp
  moreover have "part_ok S (D \<union> start_ids evs) (end_ids (concat ?raws)) (concat (map snd ts))" using p(2) out by auto
  ultimately obtain res' tr' M' where r: "collect ts (?res, tr1) = (res', tr')" "map fst res' = map fst ?res @ map fst (nonempty_parts ts)"
      "tracker_ok S (D \<union> start_ids evs \<union> start_ids (concat (map snd ts))) M' (?raws @ map snd (nonempty_parts ts)) (map snd res') tr'"
    using Cons.IH by blast
  have "start_ids (concat (map snd (te # ts))) = start_ids evs \<union> start_ids (concat (map snd ts))" using te by (auto simp: start_ids_def)
  moreover have "nonempty_parts (te # ts) = (if out = [] then [] else [(tid, ?f)]) @ nonempty_parts ts"
    using te out by (simp add: nonempty_parts_def)
  ultimately show ?case using r s(1) te by (auto simp: Un_assoc split: if_splits)
qed

text \<open>The second pass over the end events that wait for a start of another thread.\<close>

lemma distinct_filter_position:
  "distinct (map g (filter P xs)) \<Longrightarrow> p < length xs \<Longrightarrow> P (xs ! p) \<Longrightarrow> q < length xs \<Longrightarrow> P (xs ! q) \<Longrightarrow> g (xs ! p) = g (xs ! q) \<Longrightarrow> p = q"
proof (induction xs arbitrary: p q)
  case (Cons x xs)
  have "g x \<noteq> g (xs ! i)" "g (xs ! i) \<noteq> g x" if "P x" "i < length xs" "P (xs ! i)" for i
    using Cons.prems(1) that by (auto simp: image_iff)
  then show ?case using Cons.prems Cons.IH [of "p - 1" "q - 1"] by (cases p; cases q) (auto split: if_splits)
qed simp

lemma distinct_positions:
  assumes "distinct (map g (filter P (concat xss)))" "t < length xss" "p < length (xss ! t)" "P (xss ! t ! p)"
    "t' < length xss" "p' < length (xss ! t')" "P (xss ! t' ! p')" "g (xss ! t ! p) = g (xss ! t' ! p')"
  shows "t = t' \<and> p = p'"
  using assms
proof (induction xss arbitrary: t t')
  case (Cons xs xss)
  have in1: "x \<in> set (filter P xs)" if "q < length xs" "x = xs ! q" "P x" for q x using that by auto
  have in2: "x \<in> set (filter P (concat xss))" if "u < length xss" "q < length (xss ! u)" "x = xss ! u ! q" "P x" for u q x
  proof -
    have "xss ! u \<in> set xss" "x \<in> set (xss ! u)" using that by simp_all
    then show ?thesis using that(4) by auto
  qed
  have disj: "g ` set (filter P xs) \<inter> g ` set (filter P (concat xss)) = {}" "distinct (map g (filter P xs))"
      "distinct (map g (filter P (concat xss)))"
    using Cons.prems(1) by auto
  show ?case
  proof (cases t; cases t')
    assume z: "t = 0" "t' = 0"
    then show ?thesis using distinct_filter_position [OF disj(2)] Cons.prems(3,4,6-8) by simp
  next
    fix n assume z: "t = 0" "t' = Suc n"
    then show ?thesis using disj(1) in1 [of p] in2 [of n p'] Cons.prems(3-8) by fastforce
  next
    fix n assume z: "t = Suc n" "t' = 0"
    then show ?thesis using disj(1) in1 [of p'] in2 [of n p] Cons.prems(2-8) by fastforce
  next
    fix n m assume z: "t = Suc n" "t' = Suc m"
    then show ?thesis using Cons.IH [OF disj(3), of n m] Cons.prems(2-8) by simp
  qed
qed simp

lemma merge_update:
  assumes "distinct (map activity_id (filter is_end (concat raws)))" "(t, p) \<in> pending raws M" "S (activity_id (raws ! t ! p)) = Some st"
    "outs = map (map (joined S M)) raws"
  shows "outs[t := (outs ! t)[p := merge_start st (raws ! t ! p)]] = map (map (joined S (insert (activity_id (raws ! t ! p)) M))) raws"
proof -
  let ?i = "activity_id (raws ! t ! p)"
  have tp: "t < length raws" "p < length (raws ! t)" "is_end (raws ! t ! p)" using assms(2) by (auto simp: pending_def)
  have other: "joined S (insert ?i M) (raws ! u ! q) = joined S M (raws ! u ! q)"
    if "u < length raws" "q < length (raws ! u)" "\<not> (u = t \<and> q = p)" for u q
    using distinct_positions [OF assms(1) that(1,2) _ tp] that(3) by (auto simp: joined_def)
  have self: "joined S (insert ?i M) (raws ! t ! p) = merge_start st (raws ! t ! p)" using tp(3) assms(3) by (simp add: joined_def)
  show ?thesis
  proof (rule nth_equalityI)
    fix u assume "u < length (outs[t := (outs ! t)[p := merge_start st (raws ! t ! p)]])"
    then have u: "u < length raws" using assms(4) by simp
    show "outs[t := (outs ! t)[p := merge_start st (raws ! t ! p)]] ! u = map (map (joined S (insert ?i M))) raws ! u"
      by (rule nth_equalityI) (use u tp other self assms(4) in \<open>auto simp: nth_list_update\<close>)
  qed (simp add: assms(4))
qed

lemma cross_pass:
  assumes "distinct (map activity_id (filter is_end (concat raws)))" "start_events tr = S |` (D - M)" "outs = map (map (joined S M)) raws"
    "D \<subseteq> dom S" "set ps \<subseteq> pending raws M" "distinct ps"
  shows "fst (foldl (\<lambda>st a. merge_at a st) (outs, tr) ps) =
    map (map (joined S (M \<union> ((\<lambda>(t, p). activity_id (raws ! t ! p)) ` set ps \<inter> D)))) raws"
  using assms(2-)
proof (induction ps arbitrary: M outs tr)
  case (Cons a ps)
  obtain t p where a: "a = (t, p)" by force
  let ?e = "raws ! t ! p"
  let ?i = "activity_id ?e"
  have tp: "(t, p) \<in> pending raws M" "t < length raws" "p < length (raws ! t)" "is_end ?e" "?i \<notin> M"
    using Cons.prems(4) a by (auto simp: pending_def)
  have o: "outs ! t ! p = ?e" using Cons.prems(2) tp by (simp add: joined_def)
  show ?case
  proof (cases "?i \<in> D")
    case True
    then obtain st where st: "S ?i = Some st" using Cons.prems(3) by auto
    let ?tr = "tr\<lparr>start_events := (start_events tr)(?i := None)\<rparr>" and ?outs = "outs[t := (outs ! t)[p := merge_start st ?e]]"
    have step: "merge_at a (outs, tr) = (?outs, ?tr)"
      using a o st True tp(5) Cons.prems(1) by (simp add: merge_at_def FindStartAndMerge_def restrict_map_def)
    have "start_events ?tr = S |` (D - insert ?i M)" using Cons.prems(1) by (auto simp: restrict_map_def)
    moreover have "?outs = map (map (joined S (insert ?i M))) raws" by (rule merge_update [OF assms(1) tp(1) st Cons.prems(2)])
    moreover have "set ps \<subseteq> pending raws (insert ?i M)"
    proof
      fix b assume b: "b \<in> set ps"
      obtain u q where uq: "b = (u, q)" by force
      have in': "(u, q) \<in> pending raws M" "(u, q) \<noteq> (t, p)" using b uq Cons.prems(4,5) a by auto
      then have "activity_id (raws ! u ! q) \<noteq> ?i"
        using distinct_positions [OF assms(1), of u q t p] tp by (auto simp: pending_def)
      then show "b \<in> pending raws (insert ?i M)" using in' uq by (auto simp: pending_def)
    qed
    ultimately have "fst (foldl (\<lambda>st a. merge_at a st) (?outs, ?tr) ps) =
      map (map (joined S (insert ?i M \<union> ((\<lambda>(t, p). activity_id (raws ! t ! p)) ` set ps \<inter> D)))) raws"
      using Cons.IH [of ?tr "insert ?i M" ?outs] Cons.prems(3,5) by simp
    moreover have "insert ?i M \<union> ((\<lambda>(t, p). activity_id (raws ! t ! p)) ` set ps \<inter> D) =
      M \<union> ((\<lambda>(t, p). activity_id (raws ! t ! p)) ` set (a # ps) \<inter> D)" using a True by auto
    ultimately show ?thesis using step by simp
  next
    case False
    then have "merge_at a (outs, tr) = (outs, tr)"
      using a o Cons.prems(1) by (simp add: merge_at_def FindStartAndMerge_def restrict_map_def)
    moreover have "M \<union> ((\<lambda>(t, p). activity_id (raws ! t ! p)) ` set ps \<inter> D) =
      M \<union> ((\<lambda>(t, p). activity_id (raws ! t ! p)) ` set (a # ps) \<inter> D)" using a False by auto
    ultimately show ?thesis using Cons.IH [of tr M outs] Cons.prems by simp
  qed
qed simp

lemma handle_cross_ok:
  assumes "tracker_ok S (dom S) M raws outs tr" "distinct (map activity_id (filter is_end (concat raws)))"
  shows "HandleCrossThreadEvents (outs, tr) = map (map (join_start S)) raws"
proof -
  let ?ids = "(\<lambda>(t, p). activity_id (raws ! t ! p)) ` set (end_events tr)"
  have "HandleCrossThreadEvents (outs, tr) = map (map (joined S (M \<union> (?ids \<inter> dom S)))) raws"
    using cross_pass [OF assms(2), of tr S "dom S" M outs "end_events tr"] assms(1)
    by (simp add: HandleCrossThreadEvents_def tracker_ok_def)
  moreover have "joined S (M \<union> (?ids \<inter> dom S)) e = join_start S e" if raw: "raw \<in> set raws" "e \<in> set raw" for e raw
  proof (cases "is_end e")
    case True
    obtain t p where tp: "t < length raws" "raw = raws ! t" "p < length raw" "e = raw ! p" using raw by (metis in_set_conv_nth)
    have "activity_id e \<in> M \<union> ?ids"
      using tp True assms(1) by (force simp: tracker_ok_def pending_def)
    moreover have "M \<subseteq> dom S" using assms(1) by (auto simp: tracker_ok_def)
    ultimately show ?thesis by (auto simp: joined_def join_start_def split: option.splits)
  qed (simp add: joined_def join_start_def)
  ultimately show ?thesis by simp
qed

lemma dom_starts: "dom (starts evs) = start_ids evs"
  by (auto simp: starts_def start_ids_def dom_map_of_conv_image_fst image_iff)

lemma starts_lookup:
  "distinct (map activity_id (filter is_start evs)) \<Longrightarrow> e \<in> set evs \<Longrightarrow> is_start e \<Longrightarrow> starts evs (activity_id e) = Some e"
  by (auto simp: starts_def intro!: map_of_is_SomeI simp: comp_def)

text \<open>\<open>consume\<close> on the contents of the queues.\<close>

lemma collect_collected:
  assumes "paired (concat (map snd ts))" "collect ts ([], new_tracker) = (res, tr)"
  shows "zip (map fst res) (HandleCrossThreadEvents (map snd res, tr)) = collected ts"
proof -
  let ?S = "starts (concat (map snd ts))" and ?raws = "map snd (nonempty_parts ts)"
  have "tracker_ok ?S {} {} [] (map snd []) new_tracker" by (simp add: tracker_ok_def new_tracker_def pending_def)
  moreover have "part_ok ?S {} (end_ids (concat [])) (concat (map snd ts))"
    using assms(1) starts_lookup by (auto simp: part_ok_def paired_def)
  ultimately obtain M where r: "map fst res = map fst (nonempty_parts ts)" "tracker_ok ?S (start_ids (concat (map snd ts))) M ?raws (map snd res) tr"
    using collect_ok [of ?S "{}" "{}" "[]" "[]" new_tracker ts] assms(2) by auto
  have "concat ?raws = filter (\<lambda>e. \<not> is_start e) (concat (map snd ts))"
    by (induction ts) (auto simp: nonempty_parts_def)
  then have "distinct (map activity_id (filter is_end (concat ?raws)))" using assms(1) by (simp only: paired_def)
  then have "HandleCrossThreadEvents (map snd res, tr) = map (map (join_start ?S)) ?raws"
    using handle_cross_ok r(2) dom_starts by metis
  moreover have "zip (map fst ys) (map (map h) (map snd ys)) = map (\<lambda>(tid, evs). (tid, map h evs)) ys" for h :: "trace_event \<Rightarrow> trace_event" and ys :: "(nat \<times> trace_event list) list"
    by (induction ys) auto
  moreover have "map (\<lambda>(tid, evs). (tid, map h evs)) (nonempty_parts ts) =
      filter (\<lambda>(tid, evs). evs \<noteq> []) (map (\<lambda>(tid, evs). (tid, map h (filter (\<lambda>e. \<not> is_start e) evs))) ts)" for h
    by (induction ts) (auto simp: nonempty_parts_def)
  ultimately show ?thesis using r(1) by (simp add: collected_def Let_def)
qed

end
