(* ===== verification/Trace_Session.thy ===== *)
theory Trace_Session
  imports Trace_Recorder
begin

text \<open>
  What a tracing session returns: the events its threads recorded since it was started, thread by thread and
  in order, with the halves of activities joined, whatever the threads and other sessions do meanwhile.
\<close>

section \<open>The state of the recorders\<close>

definition tracing_ok :: "nat \<Rightarrow> (nat \<Rightarrow> nat) \<Rightarrow> tracing \<Rightarrow> bool" where
  "tracing_ok n os s \<longleftrightarrow> (\<forall>r\<in>set (tr_recorders s). at_rest n (rc_queue r) \<and> rc_tid r = os (rc_thread r) \<and> (rc_thread r \<in> set (tr_exited s) \<longrightarrow> \<not> rc_alive r)) \<and>
     distinct (map rc_thread (tr_recorders s)) \<and> (\<not> tr_recording s \<longrightarrow> (\<forall>r\<in>set (tr_recorders s). rc_alive r))"

text \<open>What a thread has in its queue.\<close>

definition recorded :: "tracing \<Rightarrow> nat \<Rightarrow> trace_event list" where
  "recorded s k = (case filter (\<lambda>r. rc_thread r = k) (tr_recorders s) of [] \<Rightarrow> [] | r # _ \<Rightarrow> lfq_contents (rc_queue r))"

lemma recorded_in:
  assumes "distinct (map rc_thread (tr_recorders s))" "r \<in> set (tr_recorders s)"
  shows "recorded s (rc_thread r) = lfq_contents (rc_queue r)"
proof -
  obtain xs ys where d: "tr_recorders s = xs @ r # ys" using assms(2) by (meson split_list)
  then have "rc_thread r \<notin> rc_thread ` set xs" using assms(1) by simp
  then have "\<forall>x\<in>set xs. rc_thread x \<noteq> rc_thread r" by (metis image_eqI)
  then have "filter (\<lambda>r'. rc_thread r' = rc_thread r) xs = []" by simp
  then show ?thesis using d by (simp add: recorded_def)
qed

lemma recorded_out: "k \<notin> rc_thread ` set (tr_recorders s) \<Longrightarrow> recorded s k = []"
proof -
  assume "k \<notin> rc_thread ` set (tr_recorders s)"
  then have "\<forall>x\<in>set (tr_recorders s). rc_thread x \<noteq> k" by (metis image_eqI)
  then have "filter (\<lambda>r. rc_thread r = k) (tr_recorders s) = []" by simp
  then show ?thesis by (simp add: recorded_def)
qed

lemma new_tracing_ok: "tracing_ok n os new_tracing"
  by (simp add: tracing_ok_def new_tracing_def)

lemma each_queue_ok:
  assumes "\<And>q. at_rest n q \<Longrightarrow> \<exists>q'. h q = Some q' \<and> at_rest n q' \<and> lfq_contents q' = c q" "\<forall>r\<in>set rs. at_rest n (rc_queue r)"
  shows "\<exists>rs'. each_queue h rs = Some rs' \<and> map (\<lambda>r. (rc_thread r, rc_tid r, rc_alive r)) rs' = map (\<lambda>r. (rc_thread r, rc_tid r, rc_alive r)) rs \<and>
    map (\<lambda>r. lfq_contents (rc_queue r)) rs' = map (\<lambda>r. c (rc_queue r)) rs \<and> (\<forall>r\<in>set rs'. at_rest n (rc_queue r))"
  using assms(2)
proof (induction rs)
  case (Cons r rs)
  obtain q where "h (rc_queue r) = Some q" "at_rest n q" "lfq_contents q = c (rc_queue r)" using assms(1) Cons.prems by force
  moreover obtain rs' where "each_queue h rs = Some rs'"
      "map (\<lambda>r. (rc_thread r, rc_tid r, rc_alive r)) rs' = map (\<lambda>r. (rc_thread r, rc_tid r, rc_alive r)) rs"
      "map (\<lambda>r. lfq_contents (rc_queue r)) rs' = map (\<lambda>r. c (rc_queue r)) rs" "\<forall>r\<in>set rs'. at_rest n (rc_queue r)"
    using Cons by auto
  ultimately show ?case by auto
qed simp

text \<open>Two lists of recorders that agree but for their queues.\<close>

lemma same_threads:
  assumes "map (\<lambda>r. (rc_thread r, rc_tid r, rc_alive r)) rs' = map (\<lambda>r. (rc_thread r, rc_tid r, rc_alive r)) rs"
  shows "map rc_thread rs' = map rc_thread rs" "map rc_tid rs' = map rc_tid rs"
    "r' \<in> set rs' \<Longrightarrow> \<exists>r\<in>set rs. rc_thread r = rc_thread r' \<and> rc_alive r = rc_alive r' \<and> rc_tid r = rc_tid r'"
proof -
  show "map rc_thread rs' = map rc_thread rs" "map rc_tid rs' = map rc_tid rs"
    using arg_cong [OF assms, of "map fst"] arg_cong [OF assms, of "map (\<lambda>x. fst (snd x))"] by (simp_all add: comp_def)
  assume "r' \<in> set rs'"
  then have "(rc_thread r', rc_tid r', rc_alive r') \<in> set (map (\<lambda>r. (rc_thread r, rc_tid r, rc_alive r)) rs')" by force
  then show "\<exists>r\<in>set rs. rc_thread r = rc_thread r' \<and> rc_alive r = rc_alive r' \<and> rc_tid r = rc_tid r'" unfolding assms by auto
qed

lemma clear_ok:
  assumes "tracing_ok n os s" "0 < n"
  shows "\<exists>s'. clear n s = Some s' \<and> tracing_ok n os s' \<and> (\<forall>k. recorded s' k = []) \<and> tr_recording s' \<and> tr_level s' = tr_level s \<and>
    tr_filter s' = tr_filter s \<and> tr_exited s' = tr_exited s"
proof -
  obtain rs where rs: "each_queue (lfq_clear n) (tr_recorders s) = Some rs" "\<forall>r\<in>set rs. at_rest n (rc_queue r)"
      "map (\<lambda>r. (rc_thread r, rc_tid r, rc_alive r)) rs = map (\<lambda>r. (rc_thread r, rc_tid r, rc_alive r)) (tr_recorders s)"
      "map (\<lambda>r. lfq_contents (rc_queue r)) rs = map (\<lambda>r. []) (tr_recorders s)"
    using each_queue_ok [of n "lfq_clear n" "\<lambda>_. []" "tr_recorders s"] lfq_clear_law assms by (auto simp: tracing_ok_def)
  let ?s = "(StartRecording s)\<lparr>tr_recorders := rs\<rparr>"
  have "rc_tid r = os (rc_thread r) \<and> (rc_thread r \<in> set (tr_exited s) \<longrightarrow> \<not> rc_alive r)" if "r \<in> set rs" for r
    using same_threads(3) [OF rs(3) that] assms(1) by (auto simp: tracing_ok_def)
  then have ok: "tracing_ok n os ?s" using assms(1) rs(2) same_threads(1) [OF rs(3)] by (simp add: tracing_ok_def StartRecording_def)
  have empty: "lfq_contents (rc_queue r) = []" if "r \<in> set rs" for r
    using rs(4) that by (metis (no_types, lifting) in_set_conv_nth length_map nth_map)
  have "recorded ?s k = []" for k
  proof (cases "k \<in> rc_thread ` set rs")
    case True
    then obtain r where "r \<in> set rs" "k = rc_thread r" by auto
    then show ?thesis using recorded_in [of ?s r] ok empty by (simp add: tracing_ok_def)
  next
    case False
    then show ?thesis using recorded_out [of k ?s] by simp
  qed
  then show ?thesis using rs(1) ok same_threads [OF rs(3)] by (auto simp: clear_def StartRecording_def)
qed

lemma those_map: "(\<And>x. x \<in> set xs \<Longrightarrow> f x = Some (g x)) \<Longrightarrow> those (map f xs) = Some (map g xs)"
  by (induction xs) auto

lemma recorded_map:
  assumes "\<And>r. rc_thread (g r) = rc_thread r" "\<And>r. r \<in> set rs \<Longrightarrow> lfq_contents (rc_queue (g r)) = lfq_contents (rc_queue r) @ (if rc_thread r = k then es else [])"
    "k \<in> rc_thread ` set rs"
  shows "recorded (s\<lparr>tr_recorders := map g rs\<rparr>) k' = recorded (s\<lparr>tr_recorders := rs\<rparr>) k' @ (if k' = k then es else [])"
proof -
  have f: "filter (\<lambda>r. rc_thread r = k') (map g rs) = map g (filter (\<lambda>r. rc_thread r = k') rs)" by (simp add: filter_map comp_def assms(1))
  show ?thesis
  proof (cases "filter (\<lambda>r. rc_thread r = k') rs")
    case Nil
    then have "k' \<noteq> k" using assms(3) by (auto simp: filter_empty_conv)
    then show ?thesis using f Nil by (simp add: recorded_def)
  next
    case (Cons r rs')
    then have "r \<in> set (filter (\<lambda>r. rc_thread r = k') rs)" by simp
    then have "r \<in> set rs" "rc_thread r = k'" by simp_all
    then show ?thesis using f Cons assms(2) by (simp add: recorded_def)
  qed
qed

lemma Get_ok:
  assumes "tracing_ok n os s" "0 < n" "k \<notin> set (tr_exited s)"
  shows "tracing_ok n os (Get n k (os k) s)" "recorded (Get n k (os k) s) k' = recorded s k'"
    "k \<in> rc_thread ` set (tr_recorders (Get n k (os k) s))" "tr_level (Get n k (os k) s) = tr_level s" "tr_filter (Get n k (os k) s) = tr_filter s"
    "tr_recording (Get n k (os k) s) = tr_recording s" "tr_exited (Get n k (os k) s) = tr_exited s"
proof -
  show "tracing_ok n os (Get n k (os k) s)"
    using assms new_lfq_at_rest [of n] by (auto simp: tracing_ok_def Get_def Register_def)
  show "recorded (Get n k (os k) s) k' = recorded s k'"
    using new_lfq_def lfq_contents_def
    by (auto simp: Get_def Register_def recorded_def filter_empty_conv new_lfq_def lfq_contents_def split: list.splits)
  show "k \<in> rc_thread ` set (tr_recorders (Get n k (os k) s))" "tr_level (Get n k (os k) s) = tr_level s" "tr_filter (Get n k (os k) s) = tr_filter s"
    "tr_recording (Get n k (os k) s) = tr_recording s" "tr_exited (Get n k (os k) s) = tr_exited s"
    by (auto simp: Get_def Register_def)
qed

lemma record_ok:
  assumes "tracing_ok n os s" "0 < n" "k \<notin> set (tr_exited s)"
  shows "\<exists>s'. record_event n k (os k) e s = Some s' \<and> tracing_ok n os s' \<and>
    (\<forall>k'. recorded s' k' = recorded s k' @ (if k' = k then [e] else [])) \<and>
    tr_level s' = tr_level s \<and> tr_filter s' = tr_filter s \<and> tr_recording s' = tr_recording s \<and> tr_exited s' = tr_exited s"
proof -
  let ?s = "Get n k (os k) s"
  note g = Get_ok [OF assms]
  define h :: "recorder \<Rightarrow> recorder" where "h r = (if rc_thread r = k then r\<lparr>rc_queue := the (lfq_push n e (rc_queue r))\<rparr> else r)" for r
  have push: "\<exists>q. lfq_push n e (rc_queue r) = Some q \<and> at_rest n q \<and> lfq_contents q = lfq_contents (rc_queue r) @ [e]"
    if "r \<in> set (tr_recorders ?s)" for r
    using lfq_push_law [of n "rc_queue r" e] g(1) that assms(2) by (auto simp: tracing_ok_def)
  have "those (map (\<lambda>r. if rc_thread r = k then map_option (\<lambda>q. r\<lparr>rc_queue := q\<rparr>) (lfq_push n e (rc_queue r)) else Some r) (tr_recorders ?s))
      = Some (map h (tr_recorders ?s))"
    by (rule those_map) (use push in \<open>fastforce simp: h_def\<close>)
  then have r: "record_event n k (os k) e s = Some (?s\<lparr>tr_recorders := map h (tr_recorders ?s)\<rparr>)" by (simp add: record_event_def Let_def)
  have th: "rc_thread (h r) = rc_thread r" "rc_tid (h r) = rc_tid r" "rc_alive (h r) = rc_alive r" for r by (simp_all add: h_def)
  have q: "at_rest n (rc_queue (h r)) \<and> lfq_contents (rc_queue (h r)) = lfq_contents (rc_queue r) @ (if rc_thread r = k then [e] else [])"
    if "r \<in> set (tr_recorders ?s)" for r
    using push [OF that] g(1) that by (auto simp: h_def tracing_ok_def)
  have "tracing_ok n os (?s\<lparr>tr_recorders := map h (tr_recorders ?s)\<rparr>)" using g(1) q th by (auto simp: tracing_ok_def comp_def)
  moreover have "recorded (?s\<lparr>tr_recorders := map h (tr_recorders ?s)\<rparr>) k' = recorded s k' @ (if k' = k then [e] else [])" for k'
    using recorded_map [of h "tr_recorders ?s" k "[e]" ?s k'] th q g(2,3) by simp
  ultimately show ?thesis using r g(4-7) by simp
qed

lemma consume_all_eq:
  assumes "0 < n" "\<forall>r\<in>set rs. at_rest n (rc_queue r)"
  shows "\<exists>rs'. consume_all n rs st = Some (collect (map (\<lambda>r. (rc_tid r, lfq_contents (rc_queue r))) rs) st, rs') \<and>
    map (\<lambda>r. (rc_thread r, rc_tid r, rc_alive r)) rs' = map (\<lambda>r. (rc_thread r, rc_tid r, rc_alive r)) rs \<and> (\<forall>r\<in>set rs'. at_rest n (rc_queue r))"
  using assms(2)
proof (induction rs arbitrary: st)
  case (Cons r rs)
  obtain res tr where st: "st = (res, tr)" by force
  obtain evs tr1 where f: "fold (take_event (length res)) (lfq_contents (rc_queue r)) ([], tr) = (evs, tr1)" by force
  obtain q where "consume_queue n (length res) (rc_queue r) ([], tr) = Some ((evs, tr1), q)" "at_rest n q"
    using consume_queue_eq [of n "rc_queue r" "length res" "([], tr)"] assms(1) Cons.prems f by auto
  moreover obtain rs' where "consume_all n rs (if evs = [] then res else res @ [(rc_tid r, evs)], tr1) =
      Some (collect (map (\<lambda>r. (rc_tid r, lfq_contents (rc_queue r))) rs) (if evs = [] then res else res @ [(rc_tid r, evs)], tr1), rs')"
      "map (\<lambda>r. (rc_thread r, rc_tid r, rc_alive r)) rs' = map (\<lambda>r. (rc_thread r, rc_tid r, rc_alive r)) rs" "\<forall>r\<in>set rs'. at_rest n (rc_queue r)"
    using Cons.IH [of "(if evs = [] then res else res @ [(rc_tid r, evs)], tr1)"] Cons.prems by (meson list.set_intros(2))
  ultimately show ?case using st f by auto
qed simp

lemma stop_ok:
  assumes "tracing_ok n os s" "0 < n"
  shows "\<exists>evs s'. stop n s = Some (evs, s') \<and> tracing_ok n os s' \<and> tr_level s' = kTracingDisabled \<and> tr_exited s' = tr_exited s \<and>
    (tr_level s \<noteq> kTracingDisabled \<longrightarrow>
      (let ts = map (\<lambda>k. (os k, recorded s k)) (map rc_thread (tr_recorders s))
       in paired (concat (map snd ts)) \<longrightarrow> evs = collected ts))"
proof (cases "tr_level s = kTracingDisabled")
  case True
  then show ?thesis using assms(1) by (simp add: stop_def tracing_ok_def)
next
  case False
  let ?s = "s\<lparr>tr_level := kTracingDisabled\<rparr>"
  let ?ts = "map (\<lambda>r. (rc_tid r, lfq_contents (rc_queue r))) (tr_recorders s)"
  obtain res tr where c: "collect ?ts ([], new_tracker) = (res, tr)" by force
  obtain rs where rs: "consume_all n (tr_recorders s) ([], new_tracker) = Some ((res, tr), rs)" "\<forall>r\<in>set rs. at_rest n (rc_queue r)"
      "map (\<lambda>r. (rc_thread r, rc_tid r, rc_alive r)) rs = map (\<lambda>r. (rc_thread r, rc_tid r, rc_alive r)) (tr_recorders s)"
    using consume_all_eq [of n "tr_recorders s" "([], new_tracker)"] assms c by (auto simp: tracing_ok_def)
  let ?evs = "zip (map fst res) (HandleCrossThreadEvents (map snd res, tr))"
  let ?s' = "s\<lparr>tr_level := kTracingDisabled, tr_recorders := filter rc_alive rs, tr_recording := False, tr_filter := kDefaultTraceFilter\<rparr>"
  have "stop n s = Some (?evs, ?s')" using False rs(1) by (simp add: stop_def consume_def StopRecording_def)
  moreover have "tracing_ok n os ?s'"
  proof -
    have "rc_tid r = os (rc_thread r) \<and> (rc_thread r \<in> set (tr_exited s) \<longrightarrow> \<not> rc_alive r)" if "r \<in> set rs" for r
      using same_threads(3) [OF rs(3) that] assms(1) by (auto simp: tracing_ok_def)
    moreover have "distinct (map rc_thread (filter rc_alive rs))"
      using assms(1) same_threads(1) [OF rs(3)] by (simp add: tracing_ok_def distinct_map_filter)
    ultimately show ?thesis using rs(2) by (auto simp: tracing_ok_def)
  qed
  moreover have "?ts = map (\<lambda>k. (os k, recorded s k)) (map rc_thread (tr_recorders s))"
    using assms(1) recorded_in by (auto simp: tracing_ok_def)
  then have "let ts = map (\<lambda>k. (os k, recorded s k)) (map rc_thread (tr_recorders s)) in paired (concat (map snd ts)) \<longrightarrow> ?evs = collected ts"
    using collect_collected [OF _ c] by (simp only: Let_def) blast
  ultimately show ?thesis by (intro exI [of _ ?evs] exI [of _ ?s']) simp
qed

lemma start_ok:
  assumes "tracing_ok n os s" "0 < n"
  shows "\<exists>b s'. start n level filt s = Some (b, s') \<and> tracing_ok n os s' \<and> tr_exited s' = tr_exited s \<and>
    (b \<longleftrightarrow> tr_level s = kTracingDisabled) \<and> tr_level s' \<noteq> kTracingDisabled \<and>
    (b \<longrightarrow> (\<forall>k. recorded s' k = []) \<and> tr_recording s') \<and>
    (\<not> b \<longrightarrow> (\<forall>k. recorded s' k = recorded s k) \<and> tr_recording s' = tr_recording s \<and> tr_level s' = tr_level s)"
proof (cases "tr_level s = kTracingDisabled")
  case True
  let ?s = "s\<lparr>tr_filter := filt, tr_level := (if level > 0 then level else 0)\<rparr>"
  have "tracing_ok n os ?s" using assms(1) by (simp add: tracing_ok_def)
  then show ?thesis using True clear_ok [OF _ assms(2), of os ?s] by (auto simp: start_def Let_def kTracingDisabled_def)
next
  case False
  then show ?thesis using assms(1) by (auto simp: start_def Let_def tracing_ok_def recorded_def)
qed

lemma exit_ok:
  assumes "tracing_ok n os s"
  shows "tracing_ok n os (exit_thread k s)" "tr_level (exit_thread k s) = tr_level s" "tr_recording (exit_thread k s) = tr_recording s"
    "tr_recording s \<Longrightarrow> recorded (exit_thread k s) k' = recorded s k'"
proof -
  have "(\<lambda>x. rc_thread (if rc_thread x = k then x\<lparr>rc_alive := False\<rparr> else x)) = (rc_thread :: recorder \<Rightarrow> nat)" by auto
  then show "tracing_ok n os (exit_thread k s)"
    using assms by (auto simp: tracing_ok_def exit_thread_def Unregister_def comp_def distinct_map_filter)
  show "tr_level (exit_thread k s) = tr_level s" "tr_recording (exit_thread k s) = tr_recording s"
    by (simp_all add: exit_thread_def Unregister_def)
  assume "tr_recording s"
  moreover have "filter (\<lambda>r. rc_thread r = k') (map h rs) = map h (filter (\<lambda>r. rc_thread r = k') rs)"
    if "\<And>r. rc_thread (h r) = rc_thread r" for h :: "recorder \<Rightarrow> recorder" and rs using that by (simp add: filter_map comp_def)
  ultimately show "recorded (exit_thread k s) k' = recorded s k'"
    by (simp add: recorded_def exit_thread_def Unregister_def split: list.splits)
qed

section \<open>Identifiers of activities\<close>

lemma sint_word_of_nat: "n < 2 ^ 63 \<Longrightarrow> sint (word_of_nat n :: u64) = int n"
  by (simp add: signed_of_nat signed_take_bit_int_eq_self_iff)

lemma sint_word_of_nat_32: "n < 2 ^ 31 \<Longrightarrow> sint (word_of_nat n :: u32) = int n"
  by (simp add: signed_of_nat signed_take_bit_int_eq_self_iff)

lemma unat_u32_bound: "unat (c :: u32) < 2 ^ 32"
  using unsigned_less [of c] by simp

lemma scast_small:
  fixes tid :: u32
  assumes "unat tid < 2 ^ 31"
  shows "(scast tid :: u64) = word_of_nat (unat tid)"
proof -
  have "sint tid = int (unat tid)" using sint_word_of_nat_32 [OF assms] by simp
  then have "word_of_int (sint tid) = (word_of_int (int (unat tid)) :: u64)" by (rule arg_cong)
  then show ?thesis by simp
qed

lemma activity_id_value:
  fixes tid c :: u32
  assumes "unat tid < 2 ^ 31"
  shows "sint (push_bit 32 (scast tid :: u64) OR ucast c) = int (unat tid * 2 ^ 32 + unat c)"
proof -
  have "push_bit 32 (scast tid :: u64) AND ucast c = 0"
    by (rule bit_eqI) (auto simp: bit_simps dest: bit_imp_le_length)
  then have "push_bit 32 (scast tid :: u64) OR ucast c = push_bit 32 (scast tid) + ucast c" by (rule disjunctive_add_eq_or [symmetric])
  also have "\<dots> = word_of_nat (unat tid * 2 ^ 32 + unat c)" using scast_small [OF assms] by (simp add: push_bit_eq_mult)
  finally have "push_bit 32 (scast tid :: u64) OR ucast c = word_of_nat (unat tid * 2 ^ 32 + unat c)" .
  moreover have "unat tid * 2 ^ 32 + unat c < 2 ^ 63" using assms unat_u32_bound [of c] by simp
  ultimately show ?thesis using sint_word_of_nat by metis
qed

text \<open>
  After at most \<open>m\<close> calls of \<open>new_activity_id\<close>: the numbers of the threads are small and distinct, and the
  identifiers \<open>U\<close> given so far are below the counters of their threads.
\<close>

definition ids_ok :: "nat \<Rightarrow> id_state \<Rightarrow> int set \<Rightarrow> bool" where
  "ids_ok m ids U \<longleftrightarrow> 1 \<le> unat (id_next_thread ids) \<and> unat (id_next_thread ids) \<le> m + 1 \<and>
     (\<forall>k tid c. id_threads ids k = Some (tid, c) \<longrightarrow> 1 \<le> unat tid \<and> unat tid < unat (id_next_thread ids) \<and> unat c \<le> m) \<and>
     (\<forall>k k' tid c c'. id_threads ids k = Some (tid, c) \<longrightarrow> id_threads ids k' = Some (tid, c') \<longrightarrow> k = k') \<and>
     (\<forall>i\<in>U. \<exists>k tid c c0. id_threads ids k = Some (tid, c) \<and> c0 < unat c \<and> i = int (unat tid * 2 ^ 32 + c0))"

lemma ids_okI:
  assumes "1 \<le> unat (id_next_thread ids)" "unat (id_next_thread ids) \<le> m + 1"
    "\<And>k tid c. id_threads ids k = Some (tid, c) \<Longrightarrow> 1 \<le> unat tid \<and> unat tid < unat (id_next_thread ids) \<and> unat c \<le> m"
    "\<And>k k' tid c c'. id_threads ids k = Some (tid, c) \<Longrightarrow> id_threads ids k' = Some (tid, c') \<Longrightarrow> k = k'"
    "\<And>i. i \<in> U \<Longrightarrow> \<exists>k tid c c0. id_threads ids k = Some (tid, c) \<and> c0 < unat c \<and> i = int (unat tid * 2 ^ 32 + c0)"
  shows "ids_ok m ids U"
  using assms unfolding ids_ok_def by blast

lemma new_ids_ok: "ids_ok 0 new_ids {}"
  by (simp add: ids_ok_def new_ids_def)

lemma id_parts: "a * 2 ^ 32 + c = b * 2 ^ 32 + d \<Longrightarrow> c < 2 ^ 32 \<Longrightarrow> d < 2 ^ 32 \<Longrightarrow> a = b \<and> c = (d :: nat)"
proof -
  assume h: "a * 2 ^ 32 + c = b * 2 ^ 32 + d" "c < 2 ^ 32" "d < 2 ^ 32"
  have "a = b" using arg_cong [OF h(1), of "\<lambda>x. x div 2 ^ 32"] h(2,3) by simp
  then show ?thesis using h(1) by simp
qed

lemma unat_suc: "unat (w :: u32) + 1 < 2 ^ 32 \<Longrightarrow> unat (w + 1) = unat w + 1"
  by (simp add: unat_word_ariths)

lemma new_activity_id_ok:
  assumes "ids_ok m ids U" "m < 2 ^ 31 - 2" "new_activity_id k ids = (i, ids')"
  shows "0 < sint i" "sint i \<notin> U" "ids_ok (Suc m) ids' (insert (sint i) U)"
proof -
  obtain tid c ids1 where n: "(tid, c, ids1) = (case id_threads ids k of Some (tid, c) \<Rightarrow> (tid, c, ids)
      | None \<Rightarrow> (id_next_thread ids, 0, ids\<lparr>id_next_thread := id_next_thread ids + 1\<rparr>))"
    "i = push_bit 32 (scast tid) OR ucast c" "ids' = ids1\<lparr>id_threads := (id_threads ids1)(k \<mapsto> (tid, c + 1))\<rparr>"
    using assms(3) by (auto simp: new_activity_id_def Let_def split: option.splits)
  let ?T = "id_threads ids" and ?nx = "unat (id_next_thread ids)"
  have m: "m < 2147483646" using assms(2) by simp
  have d: "1 \<le> ?nx" "?nx \<le> m + 1" "\<And>k tid c. ?T k = Some (tid, c) \<Longrightarrow> 1 \<le> unat tid \<and> unat tid < ?nx \<and> unat c \<le> m"
      "\<And>k k' tid c c'. ?T k = Some (tid, c) \<Longrightarrow> ?T k' = Some (tid, c') \<Longrightarrow> k = k'"
      "\<And>i. i \<in> U \<Longrightarrow> \<exists>k tid c c0. ?T k = Some (tid, c) \<and> c0 < unat c \<and> i = int (unat tid * 2 ^ 32 + c0)"
    using assms(1) unfolding ids_ok_def by blast+
  have nx: "unat (id_next_thread ids + 1) = ?nx + 1" using d(2) m by (intro unat_suc) simp
  have old: "?T k = Some (tid, c) \<and> ids1 = ids \<or> ?T k = None \<and> tid = id_next_thread ids \<and> c = 0 \<and> ids1 = ids\<lparr>id_next_thread := id_next_thread ids + 1\<rparr>"
    using n(1) by (auto split: option.splits)
  have tid: "1 \<le> unat tid" "unat tid \<le> m + 1" "unat c \<le> m" "unat tid < unat (id_next_thread ids1)" "unat (id_next_thread ids1) \<le> m + 2"
      "?nx \<le> unat (id_next_thread ids1)"
    using old d(1,2) d(3) [of k tid c] nx by auto
  have c1: "unat (c + 1) = unat c + 1" using tid(3) m by (intro unat_suc) simp
  have i: "sint i = int (unat tid * 2 ^ 32 + unat c)" using activity_id_value [of tid c] tid(2) m n(2) by simp
  show "0 < sint i" unfolding i of_nat_0_less_iff using tid(1) by simp
  have others: "k' = k" if "?T k' = Some (tid, c')" for k' c'
    using old d(3) [OF that] d(4) [OF that, of k c] by auto
  show "sint i \<notin> U"
  proof
    assume "sint i \<in> U"
    then obtain k' tid' c' c0 where u: "?T k' = Some (tid', c')" "c0 < unat c'" "sint i = int (unat tid' * 2 ^ 32 + c0)"
      using d(5) by blast
    have "unat tid = unat tid' \<and> unat c = c0"
      using id_parts [of "unat tid" "unat c" "unat tid'" c0] u(2,3) i unat_u32_bound [of c] unat_u32_bound [of c'] by linarith
    then have "tid' = tid" "unat c = c0" by (simp_all add: word_unat_eq_iff)
    then show False using others [of k' c'] u(1,2) old by auto
  qed
  have T: "id_threads ids' = ?T(k \<mapsto> (tid, c + 1))" "id_next_thread ids' = id_next_thread ids1" using n(3) old by auto
  have N1: "\<exists>k' tid' c' c0. id_threads ids' k' = Some (tid', c') \<and> c0 < unat c' \<and> j = int (unat tid' * 2 ^ 32 + c0)"
    if j: "j \<in> insert (sint i) U" for j
  proof (cases "j = sint i")
    case True
    then show ?thesis using T i c1 by (intro exI [of _ k] exI [of _ tid] exI [of _ "c + 1"] exI [of _ "unat c"]) simp
  next
    case False
    then obtain k' tid' c' c0 where u: "?T k' = Some (tid', c')" "c0 < unat c'" "j = int (unat tid' * 2 ^ 32 + c0)"
      using j d(5) by blast
    show ?thesis
    proof (cases "k' = k")
      case True
      then have "tid' = tid" "c' = c" using u(1) old by auto
      then show ?thesis using u T c1 by (intro exI [of _ k] exI [of _ tid] exI [of _ "c + 1"] exI [of _ c0]) simp
    next
      case False
      then show ?thesis using u T by (intro exI [of _ k'] exI [of _ tid'] exI [of _ c'] exI [of _ c0]) simp
    qed
  qed
  have N2: "1 \<le> unat tid' \<and> unat tid' < unat (id_next_thread ids') \<and> unat c' \<le> Suc m" if "id_threads ids' k' = Some (tid', c')" for k' tid' c'
    using that T tid c1 d(3) [of k' tid' c'] by (auto split: if_splits)
  have N3: "k' = k''" if "id_threads ids' k' = Some (tid', c')" "id_threads ids' k'' = Some (tid', c'')" for k' k'' tid' c' c''
    using that T others d(4) [of k' tid' c' k''] by (auto split: if_splits)
  have N0: "1 \<le> unat (id_next_thread ids')" "unat (id_next_thread ids') \<le> Suc m + 1" using T(2) tid(5,6) d(1) by simp_all
  show "ids_ok (Suc m) ids' (insert (sint i) U)" by (rule ids_okI [OF N0]) (erule N2, erule (1) N3, erule N1)
qed

section \<open>The events a program records\<close>

text \<open>The event that a call records, with the thread that records it.\<close>

fun call_event :: "trace_action \<Rightarrow> trace_state \<Rightarrow> (nat \<times> trace_event) list" where
  "call_event (Scope_end k obj now) (s, ids) =
     (if snd obj \<noteq> kUntracedActivity \<and> active 1 s then [(k, \<lparr>ev_name = fst obj, ev_start = snd obj, ev_end = now\<rparr>)] else [])"
| "call_event (Activity_start k name level filt now) (s, ids) =
     (if active level s \<and> check_filter filt s
      then [(k, \<lparr>ev_name = name, ev_start = now, ev_end = - sint (fst (new_activity_id k ids))\<rparr>)] else [])"
| "call_event (Activity_end k i now) (s, ids) =
     (if i \<noteq> kUntracedActivity \<and> active 1 s then [(k, \<lparr>ev_name = '''', ev_start = - i, ev_end = now\<rparr>)] else [])"
| "call_event (Instant k name level filt now) (s, ids) =
     (if active level s \<and> check_filter filt s then [(k, \<lparr>ev_name = name, ev_start = now, ev_end = now\<rparr>)] else [])"
| "call_event _ st = []"

definition event_of :: "trace_action \<Rightarrow> trace_state \<Rightarrow> (nat \<times> trace_event) list" where
  "event_of a st = (case thread_of a of Some k \<Rightarrow> (if k \<in> set (tr_exited (fst st)) then [] else call_event a st) | None \<Rightarrow> [])"

fun trace_log :: "nat \<Rightarrow> (nat \<Rightarrow> nat) \<Rightarrow> trace_action list \<Rightarrow> trace_state \<Rightarrow> (nat \<times> trace_event) list" where
  "trace_log n os [] st = []"
| "trace_log n os (a # as) st =
     event_of a st @ (case trace_act n os a st of None \<Rightarrow> [] | Some st1 \<Rightarrow> trace_log n os as st1)"

definition events_of :: "nat \<Rightarrow> (nat \<times> trace_event) list \<Rightarrow> trace_event list" where
  "events_of k log = map snd (filter (\<lambda>x. fst x = k) log)"

lemma events_of_Nil [simp]: "events_of k [] = []"
  by (simp add: events_of_def)

lemma events_of_Cons [simp]: "events_of k (x # log) = (if fst x = k then [snd x] else []) @ events_of k log"
  by (simp add: events_of_def)

lemma events_of_append [simp]: "events_of k (log @ log') = events_of k log @ events_of k log'"
  by (simp add: events_of_def)

definition session_open :: "tracing \<Rightarrow> bool" where
  "session_open s \<longleftrightarrow> tr_level s \<noteq> kTracingDisabled \<and> tr_recording s"

fun next_ids :: "trace_action \<Rightarrow> trace_state \<Rightarrow> id_state" where
  "next_ids (Activity_start k name level filt now) (s, ids) =
     (if k \<notin> set (tr_exited s) \<and> active level s \<and> check_filter filt s then snd (new_activity_id k ids) else ids)"
| "next_ids _ (s, ids) = ids"

definition act_ok :: "nat \<Rightarrow> (nat \<Rightarrow> nat) \<Rightarrow> trace_action \<Rightarrow> trace_state \<Rightarrow> tracing \<Rightarrow> bool" where
  "act_ok n os a st s' \<longleftrightarrow> trace_act n os a st = Some (s', next_ids a st) \<and> tracing_ok n os s' \<and>
     (session_open (fst st) \<and> a \<noteq> Stop_session \<longrightarrow> session_open s' \<and> (\<forall>k. recorded s' k = recorded (fst st) k @ events_of k (event_of a st)))"

lemma record_act_ok:
  assumes "tracing_ok n os s" "0 < n" "thread_of a = Some k" "k \<notin> set (tr_exited s)" "event_of a (s, ids) = [(k, e)]" "a \<noteq> Stop_session"
    "\<And>s'. record_event n k (os k) e s = Some s' \<Longrightarrow> trace_call n os a (s, ids) = Some (s', next_ids a (s, ids))"
  shows "\<exists>s'. act_ok n os a (s, ids) s'"
proof -
  obtain s' where s': "record_event n k (os k) e s = Some s'" "tracing_ok n os s'"
      "\<And>k'. recorded s' k' = recorded s k' @ (if k' = k then [e] else [])" "tr_level s' = tr_level s" "tr_recording s' = tr_recording s"
    using record_ok [OF assms(1,2,4), of e] by blast
  have "trace_act n os a (s, ids) = Some (s', next_ids a (s, ids))" using assms(3,4) assms(7) [OF s'(1)] by (simp add: trace_act_def)
  then show ?thesis using s' assms(5) by (intro exI [of _ s']) (simp add: act_ok_def session_open_def)
qed

lemma silent_act_ok:
  assumes "tracing_ok n os s" "trace_act n os a (s, ids) = Some (s, next_ids a (s, ids))" "event_of a (s, ids) = []"
  shows "\<exists>s'. act_ok n os a (s, ids) s'"
  using assms by (intro exI [of _ s]) (simp add: act_ok_def)

lemma trace_act_ok:
  assumes "tracing_ok n os s" "0 < n"
  shows "\<exists>s'. act_ok n os a (s, ids) s'"
proof (cases "\<exists>k. thread_of a = Some k \<and> k \<in> set (tr_exited s)")
  case True
  then obtain k where "thread_of a = Some k" "k \<in> set (tr_exited s)" by blast
  then show ?thesis using assms by (intro silent_act_ok) (cases a; simp add: trace_act_def event_of_def)+
next
  case False
  note ok = assms and rec = record_act_ok [OF assms] and sil = silent_act_ok [OF assms(1)]
  show ?thesis
  proof (cases a)
    case (Start_session level filt)
    obtain b s' where "start n level filt s = Some (b, s')" "tracing_ok n os s'" "b \<longleftrightarrow> tr_level s = kTracingDisabled"
        "\<not> b \<longrightarrow> (\<forall>k. recorded s' k = recorded s k) \<and> tr_recording s' = tr_recording s \<and> tr_level s' = tr_level s"
      using start_ok [OF ok] by blast
    then show ?thesis using Start_session
      by (intro exI [of _ s']) (auto simp: act_ok_def trace_act_def event_of_def session_open_def)
  next
    case Stop_session
    obtain evs s' where "stop n s = Some (evs, s')" "tracing_ok n os s'" using stop_ok [OF ok] by blast
    then show ?thesis using Stop_session by (intro exI [of _ s']) (simp add: act_ok_def trace_act_def)
  next
    case (Exit_thread k)
    then show ?thesis using exit_ok [OF ok(1), of k] False
      by (intro exI [of _ "exit_thread k s"]) (simp add: act_ok_def trace_act_def event_of_def session_open_def)
  next
    case (Scope_end k obj now)
    show ?thesis
    proof (cases "snd obj \<noteq> kUntracedActivity \<and> active 1 s")
      case True
      then show ?thesis using False Scope_end by (intro rec) (auto simp: event_of_def traceme_stop_def)
    next
      case f: False
      then show ?thesis using False Scope_end by (intro sil) (auto simp: event_of_def traceme_stop_def trace_act_def)
    qed
  next
    case (Activity_start k name level filt now)
    show ?thesis
    proof (cases "active level s \<and> check_filter filt s")
      case True
      then show ?thesis using False Activity_start by (intro rec) (auto simp: event_of_def activity_start_def split: prod.splits)
    next
      case f: False
      then show ?thesis using False Activity_start by (intro sil) (auto simp: event_of_def activity_start_def trace_act_def)
    qed
  next
    case (Activity_end k i now)
    show ?thesis
    proof (cases "i \<noteq> kUntracedActivity \<and> active 1 s")
      case True
      then show ?thesis using False Activity_end by (intro rec) (auto simp: event_of_def activity_end_def)
    next
      case f: False
      then show ?thesis using False Activity_end by (intro sil) (auto simp: event_of_def activity_end_def trace_act_def)
    qed
  next
    case (Instant k name level filt now)
    show ?thesis
    proof (cases "active level s \<and> check_filter filt s")
      case True
      then show ?thesis using False Instant by (intro rec) (auto simp: event_of_def instant_activity_def)
    next
      case f: False
      then show ?thesis using False Instant by (intro sil) (auto simp: event_of_def instant_activity_def trace_act_def)
    qed
  qed
qed

lemma trace_run_ok:
  assumes "0 < n" "tracing_ok n os s"
  shows "\<exists>s' ids'. trace_run n os as (s, ids) = Some (s', ids') \<and> tracing_ok n os s' \<and>
    (session_open s \<and> Stop_session \<notin> set as \<longrightarrow>
       session_open s' \<and> (\<forall>k. recorded s' k = recorded s k @ events_of k (trace_log n os as (s, ids))))"
  using assms(2)
proof (induction as arbitrary: s ids)
  case (Cons a as)
  obtain s1 where "act_ok n os a (s, ids) s1" using trace_act_ok [OF Cons.prems assms(1)] by blast
  then have s1: "trace_act n os a (s, ids) = Some (s1, next_ids a (s, ids))" "tracing_ok n os s1"
      "session_open s \<and> a \<noteq> Stop_session \<longrightarrow> session_open s1 \<and> (\<forall>k. recorded s1 k = recorded s k @ events_of k (event_of a (s, ids)))"
    by (simp_all add: act_ok_def)
  show ?case using Cons.IH [OF s1(2), of "next_ids a (s, ids)"] s1(1,3) by auto
qed simp

section \<open>The identifiers in the log\<close>

text \<open>
  A client of the recorder: clocks are positive, an activity is ended with an identifier that \<open>activity_start\<close>
  returned (or with the zero of an activity that is not traced).
\<close>

fun timed :: "trace_action \<Rightarrow> bool" where
  "timed (Scope_end k obj now) \<longleftrightarrow> 0 \<le> snd obj \<and> 0 < now"
| "timed (Activity_start k name level filt now) \<longleftrightarrow> 0 < now"
| "timed (Activity_end k i now) \<longleftrightarrow> 0 \<le> i \<and> 0 < now"
| "timed (Instant k name level filt now) \<longleftrightarrow> 0 < now"
| "timed _ \<longleftrightarrow> True"

fun activities :: "trace_action list \<Rightarrow> nat" where
  "activities [] = 0"
| "activities (a # as) = (case a of Activity_start k name level filt now \<Rightarrow> 1 | _ \<Rightarrow> 0) + activities as"

fun ended :: "trace_action list \<Rightarrow> int list" where
  "ended [] = []"
| "ended (a # as) = (case a of Activity_end k i now \<Rightarrow> (if i = kUntracedActivity then [] else [i]) | _ \<Rightarrow> []) @ ended as"

definition log_starts :: "(nat \<times> trace_event) list \<Rightarrow> int list" where
  "log_starts log = map activity_id (filter is_start (map snd log))"

definition log_ends :: "(nat \<times> trace_event) list \<Rightarrow> int list" where
  "log_ends log = map activity_id (filter is_end (filter (\<lambda>e. \<not> is_start e) (map snd log)))"

lemma log_append [simp]:
  "log_starts (l @ l') = log_starts l @ log_starts l'" "log_ends (l @ l') = log_ends l @ log_ends l'"
  "log_starts [] = []" "log_ends [] = []"
  by (simp_all add: log_starts_def log_ends_def)

lemma paired_log: "paired (map snd log) \<longleftrightarrow> distinct (log_starts log) \<and> distinct (log_ends log)"
  by (simp add: paired_def log_starts_def log_ends_def)

lemma ids_ok_mono: "ids_ok m ids U \<Longrightarrow> m \<le> m' \<Longrightarrow> ids_ok m' ids U"
  unfolding ids_ok_def by (meson add_mono_thms_linordered_semiring(3) le_trans)

lemmas event_kinds = event_of_def log_starts_def log_ends_def is_start_def is_end_def activity_id_def kUntracedActivity_def

lemma event_ids:
  assumes "ids_ok m ids U" "m < 2 ^ 31 - 2" "timed a"
  shows "distinct (log_starts (event_of a (s, ids))) \<and> set (log_starts (event_of a (s, ids))) \<inter> U = {} \<and>
    ids_ok (m + activities [a]) (next_ids a (s, ids)) (U \<union> set (log_starts (event_of a (s, ids))))"
proof (cases "\<exists>k name level filt now. a = Activity_start k name level filt now \<and> k \<notin> set (tr_exited s) \<and> active level s \<and> check_filter filt s")
  case True
  then obtain k name level filt now where a: "a = Activity_start k name level filt now" "k \<notin> set (tr_exited s)" "active level s \<and> check_filter filt s"
    by blast
  obtain i ids' where n: "new_activity_id k ids = (i, ids')" by force
  note ok = new_activity_id_ok [OF assms(1,2) n]
  have "log_starts (event_of a (s, ids)) = [sint i]" using a n ok(1) by (simp add: event_kinds)
  then show ?thesis using a n ok(2,3) by simp
next
  case False
  have "log_starts (event_of a (s, ids)) = []" using False assms(3) by (cases a) (auto simp: event_kinds)
  moreover have "next_ids a (s, ids) = ids" using False by (cases a) auto
  ultimately show ?thesis using ids_ok_mono [OF assms(1)] by simp
qed

lemma event_ends: "timed a \<Longrightarrow> log_ends (event_of a st) = [] \<or> log_ends (event_of a st) = ended [a]"
  by (cases st; cases a) (auto simp: event_kinds)

lemma log_ids:
  assumes "0 < n" "tracing_ok n os s" "ids_ok m ids U" "m + activities as < 2 ^ 31 - 2" "\<forall>a\<in>set as. timed a" "distinct (ended as)"
  shows "distinct (log_starts (trace_log n os as (s, ids))) \<and> set (log_starts (trace_log n os as (s, ids))) \<inter> U = {} \<and>
    distinct (log_ends (trace_log n os as (s, ids))) \<and> set (log_ends (trace_log n os as (s, ids))) \<subseteq> set (ended as)"
  using assms(2-)
proof (induction as arbitrary: s ids m U)
  case (Cons a as)
  obtain s1 where "act_ok n os a (s, ids) s1" using trace_act_ok [OF Cons.prems(1) assms(1)] by blast
  then have s1: "trace_act n os a (s, ids) = Some (s1, next_ids a (s, ids))" "tracing_ok n os s1" by (simp_all add: act_ok_def)
  have m: "m < 2 ^ 31 - 2" "m + activities [a] + activities as < 2 ^ 31 - 2" using Cons.prems(3) by simp_all
  have t: "timed a" "\<forall>a\<in>set as. timed a" using Cons.prems(4) by simp_all
  obtain E where E: "ended [a] = E" by blast
  have e: "ended (a # as) = E @ ended as" unfolding E [symmetric] by simp
  have d: "distinct (ended as)" "set (ended [a]) \<inter> set (ended as) = {}" "distinct (ended [a])"
    unfolding E using Cons.prems(5) unfolding e by simp_all
  note ev = event_ids [OF Cons.prems(2) m(1) t(1), of s]
  note ih = Cons.IH [OF s1(2) conjunct2 [OF conjunct2 [OF ev]] m(2) t(2) d(1)]
  have l: "trace_log n os (a # as) (s, ids) = event_of a (s, ids) @ trace_log n os as (s1, next_ids a (s, ids))" using s1(1) by simp
  show ?case unfolding l e using ev ih d [unfolded E] event_ends [OF t(1), of "(s, ids)", unfolded E] by auto
qed simp

text \<open>What a program does to the identifiers while no one looks at its log.\<close>

lemma run_ids:
  assumes "0 < n" "tracing_ok n os s" "ids_ok m ids U" "m + activities as < 2 ^ 31 - 2" "\<forall>a\<in>set as. timed a"
    "trace_run n os as (s, ids) = Some (s', ids')"
  shows "\<exists>U'. ids_ok (m + activities as) ids' U'"
  using assms(2-)
proof (induction as arbitrary: s ids m U)
  case (Cons a as)
  obtain s1 where "act_ok n os a (s, ids) s1" using trace_act_ok [OF Cons.prems(1) assms(1)] by blast
  then have s1: "trace_act n os a (s, ids) = Some (s1, next_ids a (s, ids))" "tracing_ok n os s1" by (simp_all add: act_ok_def)
  have m: "m < 2 ^ 31 - 2" "m + activities [a] + activities as < 2 ^ 31 - 2" using Cons.prems(3) by simp_all
  note ev = event_ids [OF Cons.prems(2) m(1), of a s]
  then show ?case using Cons.IH [OF s1(2) _ m(2)] Cons.prems(4,5) s1(1) by (auto simp: add.assoc)
qed auto

section \<open>The session\<close>

lemma mset_concat_events:
  assumes "distinct ks" "fst ` set log \<subseteq> set ks"
  shows "mset (concat (map (\<lambda>k. events_of k log) ks)) = mset (map snd log)"
  using assms(2)
proof (induction log)
  case Nil
  then show ?case by (induction ks) auto
next
  case (Cons x log)
  have "mset (concat (map (\<lambda>k. events_of k (x # log)) ks')) = (if fst x \<in> set ks' then {#snd x#} else {#}) + mset (concat (map (\<lambda>k. events_of k log) ks'))"
    if "distinct ks'" for ks'
    using that by (induction ks') auto
  then show ?case using Cons assms(1) by simp
qed

lemma paired_perm: "mset xs = mset ys \<Longrightarrow> paired xs \<longleftrightarrow> paired ys"
proof -
  assume h: "mset xs = mset ys"
  have "mset (map activity_id (filter is_start xs)) = mset (map activity_id (filter is_start ys))"
    "mset (map activity_id (filter is_end (filter (\<lambda>e. \<not> is_start e) xs))) = mset (map activity_id (filter is_end (filter (\<lambda>e. \<not> is_start e) ys)))"
    using h by simp_all
  then show ?thesis unfolding paired_def by (metis mset_eq_imp_distinct_iff)
qed

lemma starts_perm:
  assumes "mset xs = mset ys" "paired xs"
  shows "starts xs = starts ys"
proof
  fix i
  have p: "distinct (map activity_id (filter is_start xs))" "distinct (map activity_id (filter is_start ys))"
    using assms paired_perm [OF assms(1)] by (simp_all add: paired_def)
  show "starts xs i = starts ys i"
  proof (cases "i \<in> start_ids xs")
    case True
    then obtain e where "e \<in> set xs" "is_start e" "activity_id e = i" by (auto simp: start_ids_def)
    then show ?thesis using starts_lookup [OF p(1)] starts_lookup [OF p(2)] mset_eq_setD [OF assms(1)] by auto
  next
    case False
    then have "i \<notin> dom (starts xs)" "i \<notin> dom (starts ys)"
      using mset_eq_setD [OF assms(1)] by (simp_all add: dom_starts start_ids_def)
    then show ?thesis by (auto simp: domIff)
  qed
qed

lemma collected_map:
  assumes "distinct ks"
  shows "\<exists>ks'. filter (\<lambda>(tid, evs). evs \<noteq> []) (map (\<lambda>(tid, evs). (tid, h evs)) (map (\<lambda>k. (os k, g k)) ks)) = map (\<lambda>k. (os k, h (g k))) ks' \<and>
    distinct ks' \<and> set ks' = {k \<in> set ks. h (g k) \<noteq> []}"
  using assms by (intro exI [of _ "filter (\<lambda>k. h (g k) \<noteq> []) ks"]) (simp add: filter_map comp_def)

text \<open>The end of a session in a program that starts one and does not stop it.\<close>

lemma stop_collects:
  assumes "0 < n" "tracing_ok n os s1" "session_open s1" "\<And>k. recorded s1 k = []" "Stop_session \<notin> set acts" "log = trace_log n os acts (s1, ids)"
    "paired (map snd log)"
  shows "\<exists>s2 ids2 s3 ks. trace_run n os acts (s1, ids) = Some (s2, ids2) \<and> distinct ks \<and> tr_level s3 = kTracingDisabled \<and>
    stop n s2 = Some (map (\<lambda>k. (os k, map (join_start (starts (map snd log))) (filter (\<lambda>e. \<not> is_start e) (events_of k log)))) ks, s3) \<and>
    set ks = {k. filter (\<lambda>e. \<not> is_start e) (events_of k log) \<noteq> []}"
proof -
  obtain s2 ids2 where s2: "trace_run n os acts (s1, ids) = Some (s2, ids2)" "tracing_ok n os s2" "session_open s2"
      "\<And>k. recorded s2 k = events_of k log"
    using trace_run_ok [OF assms(1,2), of acts ids] assms(3-6) by auto
  let ?ks = "map rc_thread (tr_recorders s2)"
  let ?ts = "map (\<lambda>k. (os k, events_of k log)) ?ks"
  have d: "distinct ?ks" using s2(2) by (simp add: tracing_ok_def)
  have out: "k \<in> set ?ks" if "events_of k log \<noteq> []" for k using recorded_out [of k s2] s2(4) that by auto
  have out': "k \<in> set ?ks" if "filter (\<lambda>e. \<not> is_start e) (events_of k log) \<noteq> []" for k using that by (intro out) auto
  have "fst ` set log \<subseteq> set ?ks"
  proof
    fix k assume "k \<in> fst ` set log"
    then have "events_of k log \<noteq> []" by (auto simp: events_of_def filter_empty_conv)
    then show "k \<in> set ?ks" by (rule out)
  qed
  then have ms: "mset (concat (map snd ?ts)) = mset (map snd log)" using mset_concat_events [OF d] by (simp add: comp_def)
  have pr: "paired (concat (map snd ?ts))" "starts (concat (map snd ?ts)) = starts (map snd log)"
    using paired_perm [OF ms] starts_perm [OF ms] assms(7) by blast+
  obtain evs s3 where s3: "stop n s2 = Some (evs, s3)" "tr_level s3 = kTracingDisabled" "evs = collected ?ts"
    using stop_ok [OF s2(2) assms(1)] s2(3,4) pr(1) by (auto simp: session_open_def Let_def)
  let ?j = "\<lambda>evs. map (join_start (starts (map snd log))) (filter (\<lambda>e. \<not> is_start e) evs)"
  have c: "collected ?ts = filter (\<lambda>(tid, evs). evs \<noteq> []) (map (\<lambda>(tid, evs). (tid, ?j evs)) (map (\<lambda>k. (os k, events_of k log)) ?ks))"
    unfolding collected_def Let_def pr(2) ..
  obtain ks where ks: "collected ?ts = map (\<lambda>k. (os k, ?j (events_of k log))) ks" "distinct ks" "set ks = {k \<in> set ?ks. ?j (events_of k log) \<noteq> []}"
    using collected_map [OF d, of ?j os "\<lambda>k. events_of k log"] unfolding c [symmetric] by blast
  have set: "set ks = {k. filter (\<lambda>e. \<not> is_start e) (events_of k log) \<noteq> []}" unfolding ks(3) using out' by (simp only: map_is_Nil_conv) blast
  have "stop n s2 = Some (map (\<lambda>k. (os k, ?j (events_of k log))) ks, s3)" using s3(1) unfolding s3(3) ks(1) .
  then show ?thesis using s2(1) ks(2) s3(2) set by blast
qed

lemma session_start_ok:
  assumes "0 < n" "trace_run n os acts0 (new_tracing, new_ids) = Some (s0, ids0)" "start n level filt s0 = Some (True, s1)"
    "\<forall>a\<in>set (acts0 @ acts). timed a" "distinct (ended acts)" "activities acts0 + activities acts < 2 ^ 31 - 2"
  shows "tracing_ok n os s1" "session_open s1" "recorded s1 k = []" "paired (map snd (trace_log n os acts (s1, ids0)))"
proof -
  have ok0: "tracing_ok n os s0" using trace_run_ok [OF assms(1) new_tracing_ok, of os acts0 new_ids] assms(2) by auto
  show s1: "tracing_ok n os s1" "session_open s1" "recorded s1 k = []"
    using start_ok [OF ok0 assms(1), of level filt] assms(3) by (auto simp: session_open_def)
  have "\<forall>a\<in>set acts0. timed a" "\<forall>a\<in>set acts. timed a" "0 + activities acts0 < 2 ^ 31 - 2" using assms(4,6) by auto
  moreover from this obtain U where "ids_ok (0 + activities acts0) ids0 U"
    using run_ids [OF assms(1) new_tracing_ok new_ids_ok _ _ assms(2)] by blast
  ultimately show "paired (map snd (trace_log n os acts (s1, ids0)))"
    using log_ids [OF assms(1) s1(1), of "0 + activities acts0" ids0 U acts] assms(5,6) by (simp add: paired_log)
qed


text \<open>
  Two threads: thread 7 starts an activity and exits, thread 3 records a scope, a failed second start, and
  thread 3 ends the activity.
\<close>

definition demo_acts :: "trace_action list" where
  "demo_acts = [Activity_start 7 ''step'' 1 1 10, Scope_end 3 (''load'', 11) 20, Start_session 2 1, Exit_thread 7, Activity_end 3 4294967296 30]"

definition demo_session :: tracing where
  "demo_session = \<lparr>tr_level = 1, tr_filter = 1, tr_recorders = [], tr_recording = True, tr_exited = []\<rparr>"

definition demo_log :: "(nat \<times> trace_event) list" where
  "demo_log = [(7, \<lparr>ev_name = ''step'', ev_start = 10, ev_end = -4294967296\<rparr>), (3, \<lparr>ev_name = ''load'', ev_start = 11, ev_end = 20\<rparr>),
     (3, \<lparr>ev_name = '''', ev_start = -4294967296, ev_end = 30\<rparr>)]"

lemma demo_start: "start 2 1 1 new_tracing = Some (True, demo_session)"
  by (simp add: start_def clear_def new_tracing_def StartRecording_def demo_session_def Let_def)

lemma demo_log: "demo_log = trace_log 2 Suc demo_acts (demo_session, new_ids)"
  by code_simp


end
