(* ===== verification/Trace_Plane.thy ===== *)
theory Trace_Plane
  imports Trace_Session Annotations
begin

text \<open>
  \<open>xplane.h\<close>, \<open>xplane_builder.h/.cpp\<close> and \<open>host_tracer_utils.cpp\<close>: the events that a session collected become
  lines of a plane, one for each thread. The vectors of a plane move when they grow, so that a pointer to a line
  is the allocation and the index, and is good while the vector has not moved; how far a vector grows
  (\<open>grow\<close>), the order in which \<open>std::sort\<close> leaves equal lines (\<open>sort_lines\<close>) and \<open>std::stod\<close> are arguments.
  Time stamps are integers.
\<close>

section \<open>Planes\<close>

datatype 'd stat_value = Double_value 'd | Uint_value u64 | Int_value int | Str_value string | Bytes_value "u8 list"

record 'd xstat =
  st_metadata_id :: int
  st_ref_value :: bool
  st_value :: "'d stat_value"

datatype event_data = Offset int | Occurrences int int

record 'd xevent =
  xe_metadata_id :: int
  xe_data :: event_data
  xe_duration_ps :: int
  xe_stats :: "'d xstat list"

record event_metadata =
  em_id :: int
  em_name :: string
  em_display_name :: string

record stat_metadata =
  sm_id :: int
  sm_name :: string

record 'd xline =
  xl_id :: int
  xl_display_id :: int
  xl_name :: string
  xl_display_name :: string
  xl_timestamp_ns :: int
  xl_duration_ps :: int
  xl_events :: "'d xevent list"

text \<open>A \<open>std::map\<close> is a list of its entries by increasing key.\<close>

record 'd xplane =
  xp_id :: int
  xp_name :: string
  xp_lines :: "'d xline list"
  xp_capacity :: nat
  xp_allocation :: nat
  xp_event_metadata :: "(int \<times> event_metadata) list"
  xp_stat_metadata :: "(int \<times> stat_metadata) list"

definition new_xevent :: "'d xevent" where
  "new_xevent = \<lparr>xe_metadata_id = 0, xe_data = Offset 0, xe_duration_ps = 0, xe_stats = []\<rparr>"

definition new_xline :: "'d xline" where
  "new_xline = \<lparr>xl_id = 0, xl_display_id = 0, xl_name = '''', xl_display_name = '''', xl_timestamp_ns = 0, xl_duration_ps = 0, xl_events = []\<rparr>"

definition new_xplane :: "'d xplane" where
  "new_xplane = \<lparr>xp_id = 0, xp_name = '''', xp_lines = [], xp_capacity = 0, xp_allocation = 0, xp_event_metadata = [], xp_stat_metadata = []\<rparr>"

definition new_event_metadata :: event_metadata where
  "new_event_metadata = \<lparr>em_id = 0, em_name = '''', em_display_name = ''''\<rparr>"

definition new_stat_metadata :: stat_metadata where
  "new_stat_metadata = \<lparr>sm_id = 0, sm_name = ''''\<rparr>"

definition offset_ps :: "'d xevent \<Rightarrow> int" where
  "offset_ps e = (case xe_data e of Offset d \<Rightarrow> d | Occurrences d n \<Rightarrow> 0)"

text \<open>\<open>operator[]\<close> of a map: the value \<open>f v\<close> in place of \<open>v\<close>, which is \<open>d\<close> when the key is new.\<close>

fun map_update :: "int \<Rightarrow> ('v \<Rightarrow> 'v) \<Rightarrow> 'v \<Rightarrow> (int \<times> 'v) list \<Rightarrow> (int \<times> 'v) list" where
  "map_update k f d [] = [(k, f d)]"
| "map_update k f d ((k', v) # m) =
     (if k < k' then (k, f d) # (k', v) # m else if k = k' then (k, f v) # m else (k', v) # map_update k f d m)"

section \<open>The builder\<close>

text \<open>The builder finds the metadata by name and the lines by identifier. A pointer into a map is its key.\<close>

record 'd plane_builder =
  pb_plane :: "'d xplane"
  pb_last_event_id :: int
  pb_last_stat_id :: int
  pb_event_by_name :: "string \<Rightarrow> int option"
  pb_stat_by_name :: "string \<Rightarrow> int option"
  pb_line_by_id :: "int \<Rightarrow> (nat \<times> nat) option"

definition emplace_new :: "'k \<Rightarrow> 'v \<Rightarrow> ('k \<Rightarrow> 'v option) \<Rightarrow> 'k \<Rightarrow> 'v option" where
  "emplace_new k v m = (case m k of None \<Rightarrow> m(k \<mapsto> v) | Some _ \<Rightarrow> m)"

definition xplane_builder :: "'d xplane \<Rightarrow> 'd plane_builder" where
  "xplane_builder p =
     \<lparr>pb_plane = p,
      pb_last_event_id = fold (\<lambda>(k, md) n. max n (em_id md)) (xp_event_metadata p) 0,
      pb_last_stat_id = fold (\<lambda>(k, md) n. max n (sm_id md)) (xp_stat_metadata p) 0,
      pb_event_by_name = fold (\<lambda>(k, md) m. if em_name md = [] then m else emplace_new (em_name md) k m) (xp_event_metadata p) Map.empty,
      pb_stat_by_name = fold (\<lambda>(k, md) m. if sm_name md = [] then m else emplace_new (sm_name md) k m) (xp_stat_metadata p) Map.empty,
      pb_line_by_id = fold (\<lambda>(i, l) m. emplace_new (xl_id l) (xp_allocation p, i) m) (enumerate 0 (xp_lines p)) Map.empty\<rparr>"

definition get_or_create_event_metadata :: "string \<Rightarrow> 'd plane_builder \<Rightarrow> int \<times> 'd plane_builder" where
  "get_or_create_event_metadata name b =
     (case pb_event_by_name b name of
        Some k \<Rightarrow> (k, b)
      | None \<Rightarrow>
          (let k = pb_last_event_id b + 1; p = pb_plane b
           in (k, b\<lparr>pb_last_event_id := k, pb_event_by_name := (pb_event_by_name b)(name \<mapsto> k),
                    pb_plane := p\<lparr>xp_event_metadata :=
                      map_update k (\<lambda>md. md\<lparr>em_id := k, em_name := name\<rparr>) new_event_metadata (xp_event_metadata p)\<rparr>\<rparr>)))"

definition get_or_create_stat_metadata :: "string \<Rightarrow> 'd plane_builder \<Rightarrow> int \<times> 'd plane_builder" where
  "get_or_create_stat_metadata name b =
     (case pb_stat_by_name b name of
        Some k \<Rightarrow> (k, b)
      | None \<Rightarrow>
          (let k = pb_last_stat_id b + 1; p = pb_plane b
           in (k, b\<lparr>pb_last_stat_id := k, pb_stat_by_name := (pb_stat_by_name b)(name \<mapsto> k),
                    pb_plane := p\<lparr>xp_stat_metadata :=
                      map_update k (\<lambda>md. md\<lparr>sm_id := k, sm_name := name\<rparr>) new_stat_metadata (xp_stat_metadata p)\<rparr>\<rparr>)))"

definition event_md :: "int \<Rightarrow> 'd xplane \<Rightarrow> event_metadata" where
  "event_md k p = (case map_of (xp_event_metadata p) k of None \<Rightarrow> new_event_metadata | Some md \<Rightarrow> md)"

definition stat_md :: "int \<Rightarrow> 'd xplane \<Rightarrow> stat_metadata" where
  "stat_md k p = (case map_of (xp_stat_metadata p) k of None \<Rightarrow> new_stat_metadata | Some md \<Rightarrow> md)"

definition add_lines :: "(nat \<Rightarrow> nat) \<Rightarrow> 'd xplane \<Rightarrow> 'd xplane" where
  "add_lines grow p =
     (if length (xp_lines p) < xp_capacity p then p\<lparr>xp_lines := xp_lines p @ [new_xline]\<rparr>
      else p\<lparr>xp_lines := xp_lines p @ [new_xline], xp_capacity := grow (xp_capacity p), xp_allocation := xp_allocation p + 1\<rparr>)"

text \<open>An access through a pointer to a line; \<open>None\<close> when the pointer is dangling.\<close>

definition the_line :: "nat \<times> nat \<Rightarrow> 'd plane_builder \<Rightarrow> 'd xline option" where
  "the_line r b =
     (if fst r = xp_allocation (pb_plane b) \<and> snd r < length (xp_lines (pb_plane b)) then Some (xp_lines (pb_plane b) ! snd r) else None)"

definition set_line :: "nat \<times> nat \<Rightarrow> ('d xline \<Rightarrow> 'd xline) \<Rightarrow> 'd plane_builder \<Rightarrow> 'd plane_builder option" where
  "set_line r f b =
     map_option (\<lambda>l. b\<lparr>pb_plane := (pb_plane b)\<lparr>xp_lines := (xp_lines (pb_plane b))[snd r := f l]\<rparr>\<rparr>) (the_line r b)"

definition get_or_create_line :: "(nat \<Rightarrow> nat) \<Rightarrow> int \<Rightarrow> 'd plane_builder \<Rightarrow> ((nat \<times> nat) \<times> 'd plane_builder) option" where
  "get_or_create_line grow line_id b =
     (case pb_line_by_id b line_id of
        Some r \<Rightarrow> Some (r, b)
      | None \<Rightarrow>
          (let p = add_lines grow (pb_plane b); r = (xp_allocation p, length (xp_lines p) - 1)
           in map_option (\<lambda>b1. (r, b1))
                (set_line r (\<lambda>l. l\<lparr>xl_id := line_id\<rparr>) (b\<lparr>pb_plane := p, pb_line_by_id := (pb_line_by_id b)(line_id \<mapsto> r)\<rparr>))))"

section \<open>Conversion of the events\<close>

text \<open>\<open>std::stoll\<close>: the value and the number of characters read, \<open>None\<close> when it throws.\<close>

definition digit_value :: "char \<Rightarrow> int" where
  "digit_value c = of_char c - 48"

definition is_digit :: "char \<Rightarrow> bool" where
  "is_digit c \<longleftrightarrow> 48 \<le> (of_char c :: nat) \<and> (of_char c :: nat) \<le> 57"

definition stoll :: "string \<Rightarrow> (int \<times> nat) option" where
  "stoll s =
     (let s1 = dropWhile isspace s;
          signed = s1 \<noteq> [] \<and> (hd s1 = CHR ''-'' \<or> hd s1 = CHR ''+'');
          ds = takeWhile is_digit (if signed then tl s1 else s1);
          v = (if signed \<and> hd s1 = CHR ''-'' then -1 else 1) * foldl (\<lambda>n c. 10 * n + digit_value c) 0 ds
      in if ds = [] \<or> v < - (2 ^ 63) \<or> 2 ^ 63 \<le> v then None
         else Some (v, length s - length s1 + (if signed then 1 else 0) + length ds))"

definition parse_stat_value :: "(string \<Rightarrow> ('d \<times> nat) option) \<Rightarrow> string \<Rightarrow> 'd stat_value" where
  "parse_stat_value stod s =
     (case stoll s of
        Some (i, pos) \<Rightarrow> if pos = length s then Int_value i
          else (case stod s of Some (d, pos) \<Rightarrow> if pos = length s then Double_value d else Str_value s | None \<Rightarrow> Str_value s)
      | None \<Rightarrow> (case stod s of Some (d, pos) \<Rightarrow> if pos = length s then Double_value d else Str_value s | None \<Rightarrow> Str_value s))"

text \<open>\<open>may_add_display_name\<close>: \<open>find_colon\<close> is \<open>find(':')\<close> with the text after it.\<close>

fun find_colon :: "string \<Rightarrow> string option" where
  "find_colon [] = None"
| "find_colon (c # s) = (if c = CHR '':'' then Some s else find_colon s)"

fun rfind_separator :: "string \<Rightarrow> string option" where
  "rfind_separator (c # d # s) =
     (case rfind_separator (d # s) of
        Some t \<Rightarrow> Some t
      | None \<Rightarrow> if c = CHR '':'' \<and> d = CHR '':'' then Some s else None)"
| "rfind_separator s = None"

definition derived_display_name :: "string \<Rightarrow> string" where
  "derived_display_name name0 =
     (let name = rev (dropWhile isspace (rev name0))
      in case find_colon name of
           Some op_type \<Rightarrow>
             if op_type \<noteq> [] then op_type
             else if take 10 name = ''Iterator::'' then (case rfind_separator name of Some t \<Rightarrow> t | None \<Rightarrow> []) else []
         | None \<Rightarrow> if take 10 name = ''Iterator::'' then (case rfind_separator name of Some t \<Rightarrow> t | None \<Rightarrow> []) else [])"

definition may_add_display_name :: "int \<Rightarrow> 'd plane_builder \<Rightarrow> 'd plane_builder" where
  "may_add_display_name k b =
     (let p = pb_plane b
      in if em_display_name (event_md k p) \<noteq> [] then b
         else b\<lparr>pb_plane := p\<lparr>xp_event_metadata :=
           map_update k (\<lambda>md. md\<lparr>em_display_name := derived_display_name (em_name md)\<rparr>) new_event_metadata (xp_event_metadata p)\<rparr>\<rparr>)"

text \<open>The statistics of an event, one for each argument of its annotation.\<close>

fun add_stats :: "(string \<Rightarrow> ('d \<times> nat) option) \<Rightarrow> (string \<times> string) list \<Rightarrow> 'd plane_builder \<Rightarrow> 'd xstat list \<times> 'd plane_builder" where
  "add_stats stod [] b = ([], b)"
| "add_stats stod ((key, v) # args) b =
     (let (k, b1) = get_or_create_stat_metadata key b; (stats, b2) = add_stats stod args b1
      in (\<lparr>st_metadata_id = sm_id (stat_md k (pb_plane b1)), st_ref_value = False, st_value = parse_stat_value stod v\<rparr> # stats, b2))"

definition nano_to_pico :: "int \<Rightarrow> int" where
  "nano_to_pico ns = ns * 1000"

definition timed_event :: "int \<Rightarrow> int \<Rightarrow> int \<Rightarrow> int \<Rightarrow> 'd xevent" where
  "timed_event line_ts start_ns end_ns md =
     (let off = nano_to_pico (start_ns - line_ts)
      in \<lparr>xe_metadata_id = md, xe_data = Offset off, xe_duration_ps = nano_to_pico (end_ns - line_ts) - off, xe_stats = []\<rparr>)"

definition convert_event :: "(string \<Rightarrow> ('d \<times> nat) option) \<Rightarrow> int \<Rightarrow> nat \<times> nat \<Rightarrow> trace_event \<Rightarrow> 'd plane_builder \<Rightarrow> 'd plane_builder option" where
  "convert_event stod start_ts r e b =
     (if \<not> is_complete e \<or> ev_start e < start_ts then Some b
      else
        (let annot = (if has_metadata (ev_name e) then parse_annotation (ev_name e) else \<lparr>an_name = ev_name e, an_metadata = []\<rparr>);
             (k, b1) = get_or_create_event_metadata (an_name annot) b;
             b2 = may_add_display_name k b1
         in case the_line r b2 of
              None \<Rightarrow> None
            | Some l \<Rightarrow>
                (let ev = timed_event (xl_timestamp_ns l) (ev_start e) (ev_end e) (em_id (event_md k (pb_plane b2)));
                     (stats, b3) = add_stats stod (an_metadata annot) b2
                 in set_line r (\<lambda>l. l\<lparr>xl_events := xl_events l @ [ev\<lparr>xe_stats := stats\<rparr>]\<rparr>) b3)))"

fun convert_events :: "(string \<Rightarrow> ('d \<times> nat) option) \<Rightarrow> int \<Rightarrow> nat \<times> nat \<Rightarrow> trace_event list \<Rightarrow> 'd plane_builder \<Rightarrow> 'd plane_builder option" where
  "convert_events stod start_ts r [] b = Some b"
| "convert_events stod start_ts r (e # es) b =
     (case convert_event stod start_ts r e b of None \<Rightarrow> None | Some b1 \<Rightarrow> convert_events stod start_ts r es b1)"

text \<open>A thread of the result of a session: its identifier, its name and its events.\<close>

type_synonym named_events = "nat \<times> string \<times> trace_event list"

definition convert_thread :: "(nat \<Rightarrow> nat) \<Rightarrow> (string \<Rightarrow> ('d \<times> nat) option) \<Rightarrow> int \<Rightarrow> named_events \<Rightarrow> 'd plane_builder \<Rightarrow> 'd plane_builder option" where
  "convert_thread grow stod start_ts = (\<lambda>(tid, name, es) b.
     case get_or_create_line grow (int tid) b of
       None \<Rightarrow> None
     | Some (r, b1) \<Rightarrow>
         (case set_line r (\<lambda>l. l\<lparr>xl_name := name, xl_timestamp_ns := start_ts\<rparr>) b1 of
            None \<Rightarrow> None
          | Some b2 \<Rightarrow> convert_events stod start_ts r es b2))"

fun convert_threads :: "(nat \<Rightarrow> nat) \<Rightarrow> (string \<Rightarrow> ('d \<times> nat) option) \<Rightarrow> int \<Rightarrow> named_events list \<Rightarrow> 'd plane_builder \<Rightarrow> 'd plane_builder option" where
  "convert_threads grow stod start_ts [] b = Some b"
| "convert_threads grow stod start_ts (t # ts) b =
     (case convert_thread grow stod start_ts t b of None \<Rightarrow> None | Some b1 \<Rightarrow> convert_threads grow stod start_ts ts b1)"

text \<open>The comparison of lines by name, and \<open>std::sort\<close> with it.\<close>

fun text_less :: "string \<Rightarrow> string \<Rightarrow> bool" where
  "text_less s [] = False"
| "text_less [] (d # t) = True"
| "text_less (c # s) (d # t) = ((of_char c :: nat) < of_char d \<or> (c = d \<and> text_less s t))"

definition shown_line_name :: "'d xline \<Rightarrow> string" where
  "shown_line_name l = (if xl_display_name l = [] then xl_name l else xl_display_name l)"

definition xlines_by_name :: "'d xline \<Rightarrow> 'd xline \<Rightarrow> bool" where
  "xlines_by_name a b = text_less (shown_line_name a) (shown_line_name b)"

definition sorts_lines :: "('d xline list \<Rightarrow> 'd xline list) \<Rightarrow> bool" where
  "sorts_lines sort_lines \<longleftrightarrow> (\<forall>ls. mset (sort_lines ls) = mset ls \<and> sorted_wrt (\<lambda>a b. \<not> xlines_by_name b a) (sort_lines ls))"

definition convert_complete_events_to_xplane ::
  "(nat \<Rightarrow> nat) \<Rightarrow> ('d xline list \<Rightarrow> 'd xline list) \<Rightarrow> (string \<Rightarrow> ('d \<times> nat) option) \<Rightarrow> int \<Rightarrow> named_events list \<Rightarrow> 'd xplane \<Rightarrow> 'd xplane option" where
  "convert_complete_events_to_xplane grow sort_lines stod start_ts ts p =
     map_option (\<lambda>b. (pb_plane b)\<lparr>xp_lines := sort_lines (xp_lines (pb_plane b))\<rparr>)
       (convert_threads grow stod start_ts ts (xplane_builder p))"

section \<open>Metadata\<close>

lemma map_le_Some: "m \<subseteq>\<^sub>m m' \<Longrightarrow> m k = Some v \<Longrightarrow> m' k = Some v"
  by (metis domI map_le_def)

lemma map_update_keys: "fst ` set (map_update k f d m) = insert k (fst ` set m)"
proof (induction m)
  case (Cons kv m)
  then show ?case by (cases kv) (simp add: insert_commute)
qed simp

lemma map_update_sorted: "sorted_wrt (<) (map fst m) \<Longrightarrow> sorted_wrt (<) (map fst (map_update k f d m))"
proof (induction m)
  case (Cons kv m)
  have "fst ` set (map_update k f d m) = insert k (fst ` set m)" by (rule map_update_keys)
  then have "\<forall>k''\<in>set (map fst (map_update k f d m)). fst kv < k''" if "fst kv < k" using that Cons.prems by simp
  then show ?case using Cons by (cases kv) auto
qed simp

lemma map_of_map_update:
  "sorted_wrt (<) (map fst m) \<Longrightarrow> map_of (map_update k f d m) = (map_of m)(k \<mapsto> f (case map_of m k of None \<Rightarrow> d | Some v \<Rightarrow> v))"
proof (induction m)
  case (Cons kv m)
  obtain k' v where kv: "kv = (k', v)" by force
  have new: "map_of m k = None" if "k < k'"
  proof -
    have "k \<notin> fst ` set m" using Cons.prems kv that by auto
    then show ?thesis by (simp add: map_of_eq_None_iff)
  qed
  show ?case using Cons new kv by (auto simp: fun_eq_iff split: option.splits)
qed (simp add: fun_eq_iff)

text \<open>
  The metadata of a builder that started from an empty plane: sorted, each entry under its name, and with its
  display name. \<open>last\<close> is the last identifier given.
\<close>

definition table_ok :: "int \<Rightarrow> (string \<Rightarrow> int option) \<Rightarrow> ('v \<Rightarrow> string) \<Rightarrow> ('v \<Rightarrow> int) \<Rightarrow> (int \<times> 'v) list \<Rightarrow> bool" where
  "table_ok n names nm ident m \<longleftrightarrow> sorted_wrt (<) (map fst m) \<and> (\<forall>k\<in>fst ` set m. k \<le> n) \<and>
     (\<forall>k v. map_of m k = Some v \<longrightarrow> ident v = k \<and> names (nm v) = Some k) \<and>
     (\<forall>s k. names s = Some k \<longrightarrow> (\<exists>v. map_of m k = Some v \<and> nm v = s))"

lemma table_ok_add:
  assumes "table_ok n names nm ident m" "names s = None" "nm (f d) = s" "ident (f d) = n + 1"
  shows "table_ok (n + 1) (names(s \<mapsto> n + 1)) nm ident (map_update (n + 1) f d m)"
    "map_of (map_update (n + 1) f d m) = (map_of m)(n + 1 \<mapsto> f d)" "map_of m (n + 1) = None"
proof -
  have so: "sorted_wrt (<) (map fst m)" and le: "\<forall>k\<in>fst ` set m. k \<le> n" using assms(1) by (simp_all add: table_ok_def)
  have "n + 1 \<notin> fst ` set m" using le by auto
  then show new: "map_of m (n + 1) = None" by (simp add: map_of_eq_None_iff)
  then show m: "map_of (map_update (n + 1) f d m) = (map_of m)(n + 1 \<mapsto> f d)" using map_of_map_update [OF so, of "n + 1" f d] by simp
  have "\<forall>k\<in>fst ` set (map_update (n + 1) f d m). k \<le> n + 1" using le unfolding map_update_keys by auto
  moreover have "nm v \<noteq> s" "ident v = k" "names (nm v) = Some k" if "map_of m k = Some v" for k v
    using assms(1,2) that by (auto simp: table_ok_def)
  moreover have "names s' \<noteq> Some (n + 1)" for s' using assms(1) new unfolding table_ok_def by (metis option.distinct(1))
  ultimately show "table_ok (n + 1) (names(s \<mapsto> n + 1)) nm ident (map_update (n + 1) f d m)"
    using assms map_update_sorted [OF so] unfolding table_ok_def m by auto
qed

definition builder_ok :: "'d plane_builder \<Rightarrow> bool" where
  "builder_ok b \<longleftrightarrow> table_ok (pb_last_event_id b) (pb_event_by_name b) em_name em_id (xp_event_metadata (pb_plane b)) \<and>
     table_ok (pb_last_stat_id b) (pb_stat_by_name b) sm_name sm_id (xp_stat_metadata (pb_plane b)) \<and>
     (\<forall>k md. map_of (xp_event_metadata (pb_plane b)) k = Some md \<longrightarrow> em_display_name md = derived_display_name (em_name md))"

text \<open>The metadata of \<open>b1\<close> has that of \<open>b\<close>, and nothing else of the plane has changed.\<close>

definition adds_metadata :: "'d plane_builder \<Rightarrow> 'd plane_builder \<Rightarrow> bool" where
  "adds_metadata b b1 \<longleftrightarrow> builder_ok b1 \<and> pb_line_by_id b1 = pb_line_by_id b \<and> xp_lines (pb_plane b1) = xp_lines (pb_plane b) \<and>
     xp_allocation (pb_plane b1) = xp_allocation (pb_plane b) \<and> xp_capacity (pb_plane b1) = xp_capacity (pb_plane b) \<and>
     xp_name (pb_plane b1) = xp_name (pb_plane b) \<and>
     map_of (xp_event_metadata (pb_plane b)) \<subseteq>\<^sub>m map_of (xp_event_metadata (pb_plane b1)) \<and>
     map_of (xp_stat_metadata (pb_plane b)) \<subseteq>\<^sub>m map_of (xp_stat_metadata (pb_plane b1))"

lemma adds_metadata_refl: "builder_ok b \<Longrightarrow> adds_metadata b b"
  by (simp add: adds_metadata_def)

lemma adds_metadata_trans: "adds_metadata b b1 \<Longrightarrow> adds_metadata b1 b2 \<Longrightarrow> adds_metadata b b2"
  unfolding adds_metadata_def by (metis map_le_trans)

text \<open>The entry of a name, with its display name.\<close>

definition name_event :: "string \<Rightarrow> 'd plane_builder \<Rightarrow> int \<times> 'd plane_builder" where
  "name_event name b = (let (k, b1) = get_or_create_event_metadata name b in (k, may_add_display_name k b1))"

lemma name_event_ok:
  assumes "builder_ok b" "name_event name b = (k, b1)"
  shows "adds_metadata b b1"
    "map_of (xp_event_metadata (pb_plane b1)) k = Some \<lparr>em_id = k, em_name = name, em_display_name = derived_display_name name\<rparr>"
proof -
  let ?m = "xp_event_metadata (pb_plane b)"
  have t: "table_ok (pb_last_event_id b) (pb_event_by_name b) em_name em_id ?m"
    and disp: "\<And>k md. map_of ?m k = Some md \<Longrightarrow> em_display_name md = derived_display_name (em_name md)"
    using assms(1) by (auto simp: builder_ok_def)
  have "adds_metadata b b1 \<and> map_of (xp_event_metadata (pb_plane b1)) k =
      Some \<lparr>em_id = k, em_name = name, em_display_name = derived_display_name name\<rparr>"
  proof (cases "pb_event_by_name b name")
    case (Some k')
    then obtain md where md: "map_of ?m k' = Some md" "em_name md = name" "em_id md = k'" using t unfolding table_ok_def by blast
    have md': "md = \<lparr>em_id = k', em_name = name, em_display_name = derived_display_name name\<rparr>" using md disp [OF md(1)] by (cases md) simp
    have so: "sorted_wrt (<) (map fst ?m)" using t by (simp add: table_ok_def)
    have r: "k = k'" "b1 = may_add_display_name k' b" using assms(2) Some by (auto simp: name_event_def get_or_create_event_metadata_def)
    show ?thesis
    proof (cases "derived_display_name name = []")
      case False
      then have "b1 = b" using r md(1) md' by (simp add: may_add_display_name_def Let_def event_md_def)
      then show ?thesis using r md(1) md' adds_metadata_refl [OF assms(1)] by simp
    next
      case True
      let ?m1 = "map_update k' (\<lambda>md. md\<lparr>em_display_name := derived_display_name (em_name md)\<rparr>) new_event_metadata ?m"
      have b1: "b1 = b\<lparr>pb_plane := (pb_plane b)\<lparr>xp_event_metadata := ?m1\<rparr>\<rparr>"
        using True r md(1) md' by (simp add: may_add_display_name_def Let_def event_md_def)
      have same: "map_of ?m1 = map_of ?m"
        using map_of_map_update [OF so, of k'] md(1) md' by (simp add: fun_upd_idem)
      have "k' \<in> fst ` set ?m" using md(1) by (metis image_eqI fst_conv map_of_SomeD)
      then have "fst ` set ?m1 = fst ` set ?m" unfolding map_update_keys by (rule insert_absorb)
      then have "table_ok (pb_last_event_id b) (pb_event_by_name b) em_name em_id ?m1"
        using t map_update_sorted [OF so] unfolding table_ok_def same by simp
      then have "builder_ok b1" using assms(1) b1 same by (simp add: builder_ok_def)
      then show ?thesis using md(1) md' same unfolding r(1) by (simp add: adds_metadata_def b1)
    qed
  next
    case None
    let ?k = "pb_last_event_id b + 1" and ?f = "\<lambda>md. md\<lparr>em_id := pb_last_event_id b + 1, em_name := name\<rparr>"
    let ?g = "\<lambda>md. md\<lparr>em_display_name := derived_display_name (em_name md)\<rparr>"
    let ?m1 = "map_update ?k ?f new_event_metadata ?m"
    let ?m2 = "map_update ?k ?g new_event_metadata ?m1"
    note a = table_ok_add [OF t None, of ?f new_event_metadata]
    have m1: "map_of ?m1 = (map_of ?m)(?k \<mapsto> ?f new_event_metadata)" using a(2) by simp
    have so1: "sorted_wrt (<) (map fst ?m1)" using a(1) by (simp add: table_ok_def)
    have m2: "map_of ?m2 = (map_of ?m)(?k \<mapsto> ?g (?f new_event_metadata))"
      using map_of_map_update [OF so1, of ?k ?g] unfolding m1 by simp
    have k2: "fst ` set ?m2 = fst ` set ?m1" unfolding map_update_keys by auto
    have r: "k = ?k" "b1 = b\<lparr>pb_last_event_id := ?k, pb_event_by_name := (pb_event_by_name b)(name \<mapsto> ?k), pb_plane := (pb_plane b)\<lparr>xp_event_metadata := ?m2\<rparr>\<rparr>"
      using assms(2) None m1
      by (auto simp: name_event_def get_or_create_event_metadata_def may_add_display_name_def Let_def event_md_def new_event_metadata_def)
    have t1: "table_ok ?k ((pb_event_by_name b)(name \<mapsto> ?k)) em_name em_id ?m1" using a(1) by simp
    have "table_ok ?k ((pb_event_by_name b)(name \<mapsto> ?k)) em_name em_id ?m2"
      using t1 map_update_sorted [OF so1] m1 unfolding table_ok_def k2 m2 by (auto split: if_splits)
    then have "builder_ok b1" using assms(1) disp r(2) m2 by (auto simp: builder_ok_def split: if_splits)
    moreover have "map_of ?m \<subseteq>\<^sub>m map_of ?m2" using a(3) unfolding m2 by (auto simp: map_le_def)
    ultimately show ?thesis using r m2 by (simp add: adds_metadata_def new_event_metadata_def)
  qed
  then show "adds_metadata b b1"
    "map_of (xp_event_metadata (pb_plane b1)) k = Some \<lparr>em_id = k, em_name = name, em_display_name = derived_display_name name\<rparr>" by blast+
qed

lemma get_or_create_stat_metadata_ok:
  assumes "builder_ok b" "get_or_create_stat_metadata name b = (k, b1)"
  shows "adds_metadata b b1" "map_of (xp_stat_metadata (pb_plane b1)) k = Some \<lparr>sm_id = k, sm_name = name\<rparr>"
proof -
  let ?m = "xp_stat_metadata (pb_plane b)"
  have t: "table_ok (pb_last_stat_id b) (pb_stat_by_name b) sm_name sm_id ?m" using assms(1) by (simp add: builder_ok_def)
  have "adds_metadata b b1 \<and> map_of (xp_stat_metadata (pb_plane b1)) k = Some \<lparr>sm_id = k, sm_name = name\<rparr>"
  proof (cases "pb_stat_by_name b name")
    case (Some k')
    then obtain md where md: "map_of ?m k' = Some md" "sm_name md = name" "sm_id md = k'" using t unfolding table_ok_def by blast
    have "k = k'" "b1 = b" using assms(2) Some by (auto simp: get_or_create_stat_metadata_def)
    then show ?thesis using md adds_metadata_refl [OF assms(1)] by (cases md) simp
  next
    case None
    let ?k = "pb_last_stat_id b + 1" and ?f = "\<lambda>md. md\<lparr>sm_id := pb_last_stat_id b + 1, sm_name := name\<rparr>"
    note a = table_ok_add [OF t None, of ?f new_stat_metadata]
    have m1: "map_of (map_update ?k ?f new_stat_metadata ?m) = (map_of ?m)(?k \<mapsto> ?f new_stat_metadata)" using a(2) by simp
    have r: "k = ?k" "b1 = b\<lparr>pb_last_stat_id := ?k, pb_stat_by_name := (pb_stat_by_name b)(name \<mapsto> ?k),
        pb_plane := (pb_plane b)\<lparr>xp_stat_metadata := map_update ?k ?f new_stat_metadata ?m\<rparr>\<rparr>"
      using assms(2) None by (auto simp: get_or_create_stat_metadata_def Let_def)
    have "builder_ok b1" using assms(1) a(1) r(2) by (simp add: builder_ok_def)
    moreover have "map_of ?m \<subseteq>\<^sub>m map_of (map_update ?k ?f new_stat_metadata ?m)" using a(3) unfolding m1 by (auto simp: map_le_def)
    ultimately show ?thesis using r m1 by (simp add: adds_metadata_def new_stat_metadata_def)
  qed
  then show "adds_metadata b b1" "map_of (xp_stat_metadata (pb_plane b1)) k = Some \<lparr>sm_id = k, sm_name = name\<rparr>" by blast+
qed

section \<open>What the plane shows\<close>

text \<open>An event with the names of its metadata in place of their identifiers; \<open>Inr\<close> is an aggregated event.\<close>

record 'd event_view =
  ew_name :: string
  ew_display_name :: string
  ew_data :: event_data
  ew_duration_ps :: int
  ew_stats :: "(string \<times> 'd stat_value) list"

definition stat_view :: "'d xplane \<Rightarrow> 'd xstat \<Rightarrow> string \<times> 'd stat_value" where
  "stat_view p st = (sm_name (stat_md (st_metadata_id st) p), st_value st)"

definition event_view :: "'d xplane \<Rightarrow> 'd xevent \<Rightarrow> 'd event_view" where
  "event_view p ev =
     \<lparr>ew_name = em_name (event_md (xe_metadata_id ev) p), ew_display_name = em_display_name (event_md (xe_metadata_id ev) p),
      ew_data = xe_data ev, ew_duration_ps = xe_duration_ps ev, ew_stats = map (stat_view p) (xe_stats ev)\<rparr>"

text \<open>What a recorded event should show, relative to the time \<open>start_ts\<close> at which tracing was started.\<close>

definition event_annot :: "trace_event \<Rightarrow> annotation" where
  "event_annot e = (if has_metadata (ev_name e) then parse_annotation (ev_name e) else \<lparr>an_name = ev_name e, an_metadata = []\<rparr>)"

definition expected_view :: "(string \<Rightarrow> ('d \<times> nat) option) \<Rightarrow> int \<Rightarrow> trace_event \<Rightarrow> 'd event_view" where
  "expected_view stod start_ts e =
     \<lparr>ew_name = an_name (event_annot e), ew_display_name = derived_display_name (an_name (event_annot e)),
      ew_data = Offset (1000 * (ev_start e - start_ts)), ew_duration_ps = 1000 * (ev_end e - ev_start e),
      ew_stats = map (\<lambda>(key, v). (key, parse_stat_value stod v)) (an_metadata (event_annot e))\<rparr>"

definition kept :: "int \<Rightarrow> trace_event \<Rightarrow> bool" where
  "kept start_ts e \<longleftrightarrow> is_complete e \<and> start_ts \<le> ev_start e"

text \<open>The metadata that the events of a line refer to is there.\<close>

definition event_known :: "'d xplane \<Rightarrow> 'd xevent \<Rightarrow> bool" where
  "event_known p ev \<longleftrightarrow> xe_metadata_id ev \<in> dom (map_of (xp_event_metadata p)) \<and>
     (\<forall>st\<in>set (xe_stats ev). st_metadata_id st \<in> dom (map_of (xp_stat_metadata p)))"

lemma event_view_kept:
  assumes "event_known p ev" "map_of (xp_event_metadata p) \<subseteq>\<^sub>m map_of (xp_event_metadata p')" "map_of (xp_stat_metadata p) \<subseteq>\<^sub>m map_of (xp_stat_metadata p')"
  shows "event_known p' ev" "event_view p' ev = event_view p ev"
proof -
  have e: "event_md k p' = event_md k p \<and> k \<in> dom (map_of (xp_event_metadata p'))" if k: "k \<in> dom (map_of (xp_event_metadata p))" for k
  proof -
    obtain v where "map_of (xp_event_metadata p) k = Some v" using k by blast
    then have "map_of (xp_event_metadata p) k = Some v \<and> map_of (xp_event_metadata p') k = Some v" using map_le_Some [OF assms(2)] by blast
    then show ?thesis by (simp add: event_md_def domI)
  qed
  have st: "stat_md k p' = stat_md k p \<and> k \<in> dom (map_of (xp_stat_metadata p'))" if k: "k \<in> dom (map_of (xp_stat_metadata p))" for k
  proof -
    obtain v where "map_of (xp_stat_metadata p) k = Some v" using k by blast
    then have "map_of (xp_stat_metadata p) k = Some v \<and> map_of (xp_stat_metadata p') k = Some v" using map_le_Some [OF assms(3)] by blast
    then show ?thesis by (simp add: stat_md_def domI)
  qed
  show "event_known p' ev" using assms(1) e st by (simp add: event_known_def)
  show "event_view p' ev = event_view p ev" using assms(1) e st by (simp add: event_known_def event_view_def stat_view_def)
qed

lemma add_stats_ok:
  assumes "builder_ok b" "add_stats stod args b = (stats, b1)"
  shows "adds_metadata b b1 \<and> map (stat_view (pb_plane b1)) stats = map (\<lambda>(key, v). (key, parse_stat_value stod v)) args \<and>
    (\<forall>st\<in>set stats. st_metadata_id st \<in> dom (map_of (xp_stat_metadata (pb_plane b1))))"
  using assms
proof (induction args arbitrary: b stats b1)
  case Nil
  then show ?case by (simp add: adds_metadata_refl)
next
  case (Cons a args)
  obtain key v where a: "a = (key, v)" by force
  obtain k b2 where k: "get_or_create_stat_metadata key b = (k, b2)" by force
  obtain stats2 b3 where r: "add_stats stod args b2 = (stats2, b3)" by force
  note g = get_or_create_stat_metadata_ok [OF Cons.prems(1) k]
  have b2: "builder_ok b2" using g(1) by (simp add: adds_metadata_def)
  note ih = Cons.IH [OF b2 r]
  have sm: "sm_id (stat_md k (pb_plane b2)) = k" using g(2) by (simp add: stat_md_def)
  have e: "stats = \<lparr>st_metadata_id = k, st_ref_value = False, st_value = parse_stat_value stod v\<rparr> # stats2" "b1 = b3"
    using Cons.prems(2) a k r sm by auto
  have "map_of (xp_stat_metadata (pb_plane b3)) k = Some \<lparr>sm_id = k, sm_name = key\<rparr>"
    using g(2) by (rule map_le_Some [rotated]) (use ih in \<open>simp add: adds_metadata_def\<close>)
  then show ?case using ih g(1) adds_metadata_trans a unfolding e by (auto simp: stat_view_def stat_md_def domIff)
qed

section \<open>Converting a thread\<close>

text \<open>A line that shows the events of a thread.\<close>

definition line_ok :: "(string \<Rightarrow> ('d \<times> nat) option) \<Rightarrow> int \<Rightarrow> 'd xplane \<Rightarrow> 'd xline \<Rightarrow> named_events \<Rightarrow> bool" where
  "line_ok stod start_ts p l = (\<lambda>(tid, name, es).
     xl_id l = int tid \<and> xl_name l = name \<and> xl_display_name l = [] \<and> xl_timestamp_ns l = start_ts \<and>
     (\<forall>ev\<in>set (xl_events l). event_known p ev) \<and>
     map (event_view p) (xl_events l) = map (expected_view stod start_ts) (filter (kept start_ts) es))"

lemma line_ok_kept:
  assumes "line_ok stod start_ts p l t" "map_of (xp_event_metadata p) \<subseteq>\<^sub>m map_of (xp_event_metadata p')" "map_of (xp_stat_metadata p) \<subseteq>\<^sub>m map_of (xp_stat_metadata p')"
  shows "line_ok stod start_ts p' l t"
proof -
  have m: "map (event_view p') (xl_events l) = map (event_view p) (xl_events l)" and k: "\<forall>ev\<in>set (xl_events l). event_known p' ev"
    using assms(1) event_view_kept [OF _ assms(2,3)] by (auto simp: line_ok_def)
  show ?thesis using assms(1) k unfolding line_ok_def m by auto
qed

lemma the_line_eq: "the_line r b = Some l \<longleftrightarrow>
    fst r = xp_allocation (pb_plane b) \<and> snd r < length (xp_lines (pb_plane b)) \<and> l = xp_lines (pb_plane b) ! snd r"
  by (auto simp: the_line_def)

text \<open>An event is appended to the line, and metadata is added.\<close>

lemma convert_event_ok:
  assumes "builder_ok b" "the_line r b = Some l" "line_ok stod start_ts (pb_plane b) l (tid, name, es)"
  shows "\<exists>b1 b2 l1. convert_event stod start_ts r e b = Some b2 \<and> adds_metadata b b1 \<and> builder_ok b2 \<and>
    b2 = b1\<lparr>pb_plane := (pb_plane b1)\<lparr>xp_lines := (xp_lines (pb_plane b1))[snd r := l1]\<rparr>\<rparr> \<and>
    line_ok stod start_ts (pb_plane b2) l1 (tid, name, es @ [e])"
proof (cases "kept start_ts e")
  case False
  have l: "(xp_lines (pb_plane b))[snd r := l] = xp_lines (pb_plane b)" using assms(2) by (simp add: the_line_eq)
  have "convert_event stod start_ts r e b = Some b" using False by (auto simp: convert_event_def kept_def)
  moreover have "line_ok stod start_ts (pb_plane b) l (tid, name, es @ [e])" using assms(3) False by (simp add: line_ok_def)
  ultimately show ?thesis using assms(1) adds_metadata_refl [OF assms(1)] l by (intro exI [of _ b] exI [of _ l]) simp
next
  case True
  let ?a = "event_annot e"
  obtain k b1 where k: "name_event (an_name ?a) b = (k, b1)" by force
  note n = name_event_ok [OF assms(1) k]
  have b1: "builder_ok b1" using n(1) by (simp add: adds_metadata_def)
  obtain stats b2 where st: "add_stats stod (an_metadata ?a) b1 = (stats, b2)" by force
  note s = add_stats_ok [OF b1 st]
  have m: "adds_metadata b b2" using n(1) s adds_metadata_trans by blast
  have lines: "the_line r b1 = Some l" "the_line r b2 = Some l" using assms(2) n(1) m by (simp_all add: the_line_eq adds_metadata_def)
  let ?ev = "(timed_event start_ts (ev_start e) (ev_end e) k)\<lparr>xe_stats := stats\<rparr>"
  let ?l = "l\<lparr>xl_events := xl_events l @ [?ev]\<rparr>"
  let ?b = "b2\<lparr>pb_plane := (pb_plane b2)\<lparr>xp_lines := (xp_lines (pb_plane b2))[snd r := ?l]\<rparr>\<rparr>"
  have md: "event_md k (pb_plane b1) = \<lparr>em_id = k, em_name = an_name ?a, em_display_name = derived_display_name (an_name ?a)\<rparr>"
    using n(2) by (simp add: event_md_def)
  have ts: "xl_timestamp_ns l = start_ts" using assms(3) by (simp add: line_ok_def)
  have c: "convert_event stod start_ts r e b = Some ?b"
    using True k st lines md ts
    by (auto simp: convert_event_def kept_def event_annot_def [symmetric] name_event_def Let_def set_line_def split: prod.splits)
  have ok: "builder_ok ?b" using m by (simp add: adds_metadata_def builder_ok_def)
  have "map_of (xp_event_metadata (pb_plane b2)) k = Some \<lparr>em_id = k, em_name = an_name ?a, em_display_name = derived_display_name (an_name ?a)\<rparr>"
    using n(2) by (rule map_le_Some [rotated]) (use s in \<open>simp add: adds_metadata_def\<close>)
  then have ev: "event_known (pb_plane b2) ?ev" "event_view (pb_plane b2) ?ev = expected_view stod start_ts e"
    using s by (auto simp: event_known_def event_view_def expected_view_def timed_event_def nano_to_pico_def Let_def event_md_def)
  have "line_ok stod start_ts (pb_plane b2) l (tid, name, es)" using line_ok_kept [OF assms(3)] m by (simp add: adds_metadata_def)
  then have "line_ok stod start_ts (pb_plane b2) ?l (tid, name, es @ [e])" using ev True by (auto simp: line_ok_def)
  then have "line_ok stod start_ts (pb_plane ?b) ?l (tid, name, es @ [e])"
    by (rule line_ok_kept) simp_all
  then show ?thesis using c m ok by (intro exI [of _ b2] exI [of _ ?b] exI [of _ ?l]) simp
qed

lemma convert_events_ok:
  assumes "builder_ok b" "the_line r b = Some l" "line_ok stod start_ts (pb_plane b) l (tid, name, es0)"
  shows "\<exists>b1 b2 l1. convert_events stod start_ts r es b = Some b2 \<and> adds_metadata b b1 \<and> builder_ok b2 \<and>
    b2 = b1\<lparr>pb_plane := (pb_plane b1)\<lparr>xp_lines := (xp_lines (pb_plane b1))[snd r := l1]\<rparr>\<rparr> \<and>
    line_ok stod start_ts (pb_plane b2) l1 (tid, name, es0 @ es)"
  using assms
proof (induction es arbitrary: b l es0)
  case Nil
  have l: "(xp_lines (pb_plane b))[snd r := l] = xp_lines (pb_plane b)" using Nil(2) by (simp add: the_line_eq)
  then show ?case using Nil adds_metadata_refl [OF Nil(1)] by (intro exI [of _ b] exI [of _ l]) simp
next
  case (Cons e es)
  obtain b1 b2 l1 where c: "convert_event stod start_ts r e b = Some b2" "adds_metadata b b1" "builder_ok b2"
      "b2 = b1\<lparr>pb_plane := (pb_plane b1)\<lparr>xp_lines := (xp_lines (pb_plane b1))[snd r := l1]\<rparr>\<rparr>"
      "line_ok stod start_ts (pb_plane b2) l1 (tid, name, es0 @ [e])"
    using convert_event_ok [OF Cons.prems] by blast
  have l1: "the_line r b2 = Some l1" using Cons.prems(2) c(2,4) by (simp add: the_line_eq adds_metadata_def)
  obtain b3 b4 l2 where d: "convert_events stod start_ts r es b2 = Some b4" "adds_metadata b2 b3" "builder_ok b4"
      "b4 = b3\<lparr>pb_plane := (pb_plane b3)\<lparr>xp_lines := (xp_lines (pb_plane b3))[snd r := l2]\<rparr>\<rparr>"
      "line_ok stod start_ts (pb_plane b4) l2 (tid, name, es0 @ e # es)"
    using Cons.IH [OF c(3) l1 c(5)] by auto
  let ?b = "b3\<lparr>pb_plane := (pb_plane b3)\<lparr>xp_lines := xp_lines (pb_plane b)\<rparr>\<rparr>"
  have "adds_metadata b ?b" using c(2,4) d(2) by (auto simp: adds_metadata_def builder_ok_def intro: map_le_trans)
  moreover have "b4 = ?b\<lparr>pb_plane := (pb_plane ?b)\<lparr>xp_lines := (xp_lines (pb_plane ?b))[snd r := l2]\<rparr>\<rparr>"
    using c(2,4) d(2,4) by (simp add: adds_metadata_def)
  ultimately show ?case using c(1) d(1,3,5) by (intro exI [of _ ?b] exI [of _ b4] exI [of _ l2]) simp
qed

section \<open>Converting a session\<close>

definition keeps_metadata :: "'d xplane \<Rightarrow> 'd xplane \<Rightarrow> bool" where
  "keeps_metadata p p' \<longleftrightarrow> xp_name p' = xp_name p \<and> map_of (xp_event_metadata p) \<subseteq>\<^sub>m map_of (xp_event_metadata p') \<and>
     map_of (xp_stat_metadata p) \<subseteq>\<^sub>m map_of (xp_stat_metadata p')"

lemma convert_thread_ok:
  assumes "builder_ok b" "pb_line_by_id b (int tid) = None"
  shows "\<exists>b' l. convert_thread grow stod start_ts (tid, name, es) b = Some b' \<and> builder_ok b' \<and> keeps_metadata (pb_plane b) (pb_plane b') \<and>
    xp_lines (pb_plane b') = xp_lines (pb_plane b) @ [l] \<and> line_ok stod start_ts (pb_plane b') l (tid, name, es) \<and>
    dom (pb_line_by_id b') = insert (int tid) (dom (pb_line_by_id b))"
proof -
  let ?p = "add_lines grow (pb_plane b)"
  let ?r = "(xp_allocation ?p, length (xp_lines (pb_plane b)))"
  let ?l = "new_xline\<lparr>xl_id := int tid, xl_name := name, xl_timestamp_ns := start_ts\<rparr>"
  let ?b = "b\<lparr>pb_line_by_id := (pb_line_by_id b)(int tid \<mapsto> ?r), pb_plane := ?p\<lparr>xp_lines := xp_lines (pb_plane b) @ [?l]\<rparr>\<rparr>"
  have p: "xp_lines ?p = xp_lines (pb_plane b) @ [new_xline]" "xp_event_metadata ?p = xp_event_metadata (pb_plane b)"
      "xp_stat_metadata ?p = xp_stat_metadata (pb_plane b)" "xp_name ?p = xp_name (pb_plane b)"
    by (simp_all add: add_lines_def)
  have c: "convert_thread grow stod start_ts (tid, name, es) b = convert_events stod start_ts ?r es ?b"
    using assms(2) p(1) by (simp add: convert_thread_def get_or_create_line_def set_line_def the_line_def Let_def)
  have ok: "builder_ok ?b" using assms(1) p by (simp add: builder_ok_def)
  have l: "the_line ?r ?b = Some ?l" by (simp add: the_line_eq)
  have "line_ok stod start_ts (pb_plane ?b) ?l (tid, name, [])" by (simp add: line_ok_def new_xline_def)
  from convert_events_ok [OF ok l this, of es] obtain b1 b2 l1 where r: "convert_events stod start_ts ?r es ?b = Some b2"
      "adds_metadata ?b b1" "builder_ok b2" "b2 = b1\<lparr>pb_plane := (pb_plane b1)\<lparr>xp_lines := (xp_lines (pb_plane b1))[snd ?r := l1]\<rparr>\<rparr>"
      "line_ok stod start_ts (pb_plane b2) l1 (tid, name, es)"
    by auto
  have "xp_lines (pb_plane b2) = xp_lines (pb_plane b) @ [l1]" using r(2,4) by (simp add: adds_metadata_def)
  moreover have "dom (pb_line_by_id b2) = insert (int tid) (dom (pb_line_by_id b))" using r(2,4) by (simp add: adds_metadata_def)
  moreover have "keeps_metadata (pb_plane b) (pb_plane b2)" using r(2,4) p by (simp add: adds_metadata_def keeps_metadata_def)
  ultimately show ?thesis unfolding c using r(1,3,5) by blast
qed

lemma convert_threads_ok:
  assumes "builder_ok b" "distinct (map fst ts)" "\<forall>t\<in>set ts. pb_line_by_id b (int (fst t)) = None"
    "list_all2 (line_ok stod start_ts (pb_plane b)) (xp_lines (pb_plane b)) ts0"
  shows "\<exists>b'. convert_threads grow stod start_ts ts b = Some b' \<and> xp_name (pb_plane b') = xp_name (pb_plane b) \<and>
    list_all2 (line_ok stod start_ts (pb_plane b')) (xp_lines (pb_plane b')) (ts0 @ ts)"
  using assms
proof (induction ts arbitrary: b ts0)
  case (Cons t ts)
  obtain tid name es where t: "t = (tid, name, es)" by (cases t)
  obtain b1 l where b1: "convert_thread grow stod start_ts t b = Some b1" "builder_ok b1" "keeps_metadata (pb_plane b) (pb_plane b1)"
      "xp_lines (pb_plane b1) = xp_lines (pb_plane b) @ [l]" "line_ok stod start_ts (pb_plane b1) l t"
      "dom (pb_line_by_id b1) = insert (int tid) (dom (pb_line_by_id b))"
    using convert_thread_ok [of b tid grow stod start_ts name es] Cons.prems(1,3) t by auto
  have "pb_line_by_id b1 (int (fst t')) = None" if "t' \<in> set ts" for t'
  proof -
    have "fst t' \<noteq> tid" "pb_line_by_id b (int (fst t')) = None" using Cons.prems(2,3) that t by (auto simp: image_iff)
    then have "int (fst t') \<notin> dom (pb_line_by_id b1)" unfolding b1(6) by auto
    then show ?thesis by blast
  qed
  moreover have "list_all2 (line_ok stod start_ts (pb_plane b1)) (xp_lines (pb_plane b1)) (ts0 @ [t])"
    unfolding b1(4) using Cons.prems(4) b1(3,5) line_ok_kept
    by (intro list_all2_appendI) (auto simp: keeps_metadata_def elim!: list_all2_mono)
  ultimately show ?case using Cons.IH [of b1 "ts0 @ [t]"] Cons.prems(2) b1(1-3) by (auto simp: keeps_metadata_def)
qed simp

lemma empty_builder_ok:
  assumes "xp_event_metadata p = []" "xp_stat_metadata p = []"
  shows "builder_ok (xplane_builder p)"
  using assms by (simp add: builder_ok_def xplane_builder_def table_ok_def)

lemma convert_complete_ok:
  assumes "distinct (map fst ts)" "xp_lines p = []" "xp_event_metadata p = []" "xp_stat_metadata p = []"
  shows "\<exists>p' ls. convert_complete_events_to_xplane grow sort_lines stod start_ts ts p = Some (p'\<lparr>xp_lines := sort_lines ls\<rparr>) \<and>
    xp_name p' = xp_name p \<and> list_all2 (line_ok stod start_ts p') ls ts"
proof -
  let ?b = "xplane_builder p"
  have "\<forall>t\<in>set ts. pb_line_by_id ?b (int (fst t)) = None" "list_all2 (line_ok stod start_ts (pb_plane ?b)) (xp_lines (pb_plane ?b)) []"
    "xp_name (pb_plane ?b) = xp_name p"
    using assms(2) by (simp_all add: xplane_builder_def)
  then obtain b where "convert_threads grow stod start_ts ts ?b = Some b" "xp_name (pb_plane b) = xp_name p"
      "list_all2 (line_ok stod start_ts (pb_plane b)) (xp_lines (pb_plane b)) ts"
    using convert_threads_ok [OF empty_builder_ok [OF assms(3,4)] assms(1), of stod start_ts "[]" grow] by auto
  then show ?thesis unfolding convert_complete_events_to_xplane_def
    by (intro exI [of _ "pb_plane b"] exI [of _ "xp_lines (pb_plane b)"]) simp
qed

text \<open>Two threads with one identifier: the pointer to the line of the first is dangling when the vector has grown meanwhile.\<close>

lemma repeated_thread_dangles:
  "convert_threads (\<lambda>n. max 1 (2 * n)) stod 0 [(1, ''a'', []), (2, ''b'', []), (1, ''a'', [])] (xplane_builder new_xplane) = None"
  by (simp add: convert_thread_def get_or_create_line_def set_line_def the_line_def Let_def xplane_builder_def new_xplane_def add_lines_def)

text \<open>A qualified name is displayed without its first part only.\<close>

lemma qualified_display_name: "derived_display_name ''std::sort'' = '':sort'' \<and> derived_display_name ''Iterator::map'' = '':map''"
  by (simp add: derived_display_name_def Let_def isspace_def)

end
