(* ===== verification/Scope_Tree.thy ===== *)
theory Scope_Tree
  imports Trace_Plane
begin

text \<open>
  \<open>scope_tree_builder.cpp\<close>, the parts of \<open>xplane_visitor.h\<close> and \<open>xplane_utils.cpp\<close> it reads a space through, and
  \<open>host_tracer.cpp\<close>: the flat events of a session become a tree of scopes. Nodes live in a store, the root at
  index 0; pointers to children and parents are indices.
\<close>

section \<open>Reading the plane\<close>

definition pico_to_nano :: "int \<Rightarrow> int" where
  "pico_to_nano ps = (if ps < 0 then - ((- ps) div 1000) else ps div 1000)"

definition is_aggregated_event :: "'d xevent \<Rightarrow> bool" where
  "is_aggregated_event ev = (case xe_data ev of Offset d \<Rightarrow> False | Occurrences d n \<Rightarrow> True)"

definition event_display_name :: "'d xplane \<Rightarrow> 'd xevent \<Rightarrow> string" where
  "event_display_name p ev =
     (let md = event_md (xe_metadata_id ev) p
      in if em_display_name md \<noteq> [] then em_display_name md else if em_name md \<noteq> [] then em_name md else ''TraceEvent'')"

fun nat_text :: "nat \<Rightarrow> string" where
  "nat_text n = (if n < 10 then [char_of (48 + n)] else nat_text (n div 10) @ [char_of (48 + n mod 10)])"

definition int_text :: "int \<Rightarrow> string" where
  "int_text i = (if i < 0 then ''-'' @ nat_text (nat (- i)) else nat_text (nat i))"

definition line_thread_label :: "'d xline \<Rightarrow> string" where
  "line_thread_label l = (if shown_line_name l \<noteq> [] then shown_line_name l else ''thread '' @ int_text (xl_id l))"

record flat_event =
  fe_start :: int
  fe_end :: int
  fe_name :: string

definition flat_of :: "'d xplane \<Rightarrow> 'd xline \<Rightarrow> 'd xevent \<Rightarrow> flat_event" where
  "flat_of p l ev =
     (let start = xl_timestamp_ns l + pico_to_nano (offset_ps ev); dur = max 0 (pico_to_nano (xe_duration_ps ev))
      in \<lparr>fe_start = start, fe_end = start + dur, fe_name = event_display_name p ev\<rparr>)"

definition collect_line_events :: "'d xplane \<Rightarrow> 'd xline \<Rightarrow> flat_event list" where
  "collect_line_events p l = sort_key fe_start (map (flat_of p l) (filter (\<lambda>ev. \<not> is_aggregated_event ev) (xl_events l)))"

section \<open>The tree\<close>

record scope_node =
  sn_name :: string
  sn_start :: int
  sn_end :: int
  sn_depth :: nat
  sn_label :: string
  sn_children :: "nat list"
  sn_parent :: "nat option"

definition new_root :: scope_node where
  "new_root = \<lparr>sn_name = ''ROOT'', sn_start = 0, sn_end = 0, sn_depth = 0, sn_label = '''', sn_children = [], sn_parent = None\<rparr>"

text \<open>The store of nodes and the open ancestors, innermost first.\<close>

type_synonym tree_state = "scope_node list \<times> nat list"

definition nest_event :: "string \<Rightarrow> flat_event \<Rightarrow> tree_state \<Rightarrow> tree_state" where
  "nest_event label e = (\<lambda>(st, opn0).
     let opn = dropWhile (\<lambda>a. sn_end (st ! a) \<le> fe_start e) opn0;
         par = (case opn of [] \<Rightarrow> 0 | a # _ \<Rightarrow> a);
         node = \<lparr>sn_name = fe_name e, sn_start = fe_start e, sn_end = fe_end e, sn_depth = sn_depth (st ! par) + 1,
                 sn_label = label, sn_children = [], sn_parent = Some par\<rparr>
     in (st[par := (st ! par)\<lparr>sn_children := sn_children (st ! par) @ [length st]\<rparr>] @ [node], length st # opn))"

definition nest_line_events :: "flat_event list \<Rightarrow> string \<Rightarrow> scope_node list \<Rightarrow> scope_node list" where
  "nest_line_events events label st = fst (foldl (\<lambda>s e. nest_event label e s) (st, []) events)"

definition kHostThreadsPlaneName :: string where
  "kHostThreadsPlaneName = ''/host:CPU''"

definition add_line_tree :: "'d xplane \<Rightarrow> bool \<times> scope_node list \<Rightarrow> 'd xline \<Rightarrow> bool \<times> scope_node list" where
  "add_line_tree p = (\<lambda>(found, st) l.
     let events = collect_line_events p l
     in if events = [] then (found, st) else (True, nest_line_events events (line_thread_label l) st))"

definition add_plane_tree :: "bool \<times> scope_node list \<Rightarrow> 'd xplane \<Rightarrow> bool \<times> scope_node list" where
  "add_plane_tree s p = (if xp_name p \<noteq> kHostThreadsPlaneName then s else foldl (add_line_tree p) s (xp_lines p))"

definition build_scope_tree :: "'d xplane list \<Rightarrow> scope_node list option" where
  "build_scope_tree planes =
     (let (found, st) = foldl add_plane_tree (False, [new_root]) planes in if found then Some st else None)"

section \<open>The host tracer\<close>

definition NormalizeTimestamps :: "int \<Rightarrow> 'd xplane \<Rightarrow> 'd xplane" where
  "NormalizeTimestamps start_time p =
     p\<lparr>xp_lines := map (\<lambda>l. if xl_timestamp_ns l \<ge> start_time then l\<lparr>xl_timestamp_ns := xl_timestamp_ns l - start_time\<rparr> else l) (xp_lines p)\<rparr>"

fun find_or_add_plane :: "string \<Rightarrow> 'd xplane list \<Rightarrow> nat \<times> 'd xplane list" where
  "find_or_add_plane name [] = (0, [new_xplane\<lparr>xp_name := name\<rparr>])"
| "find_or_add_plane name (p # ps) =
     (if xp_name p = name then (0, p # ps) else (let (i, ps1) = find_or_add_plane name ps in (i + 1, p # ps1)))"

record host_tracer =
  ht_level :: int
  ht_filter :: u64
  ht_recording :: bool
  ht_start_ns :: int
  ht_events :: "thread_events list"

definition new_host_tracer :: "int \<Rightarrow> u64 \<Rightarrow> host_tracer" where
  "new_host_tracer level filt = \<lparr>ht_level = level, ht_filter = filt, ht_recording = False, ht_start_ns = 0, ht_events = []\<rparr>"

text \<open>The flag of the result tells whether the status is \<open>Ok\<close>.\<close>

definition host_start :: "nat \<Rightarrow> int \<Rightarrow> host_tracer \<times> tracing \<Rightarrow> (bool \<times> host_tracer \<times> tracing) option" where
  "host_start n now = (\<lambda>(h, s).
     if ht_recording h then Some (False, h, s)
     else map_option (\<lambda>(b, s1). (b, h\<lparr>ht_start_ns := now, ht_recording := b\<rparr>, s1)) (start n (ht_level h) (ht_filter h) s))"

definition host_stop :: "nat \<Rightarrow> host_tracer \<times> tracing \<Rightarrow> (bool \<times> host_tracer \<times> tracing) option" where
  "host_stop n = (\<lambda>(h, s).
     if \<not> ht_recording h then Some (False, h, s)
     else map_option (\<lambda>(evs, s1). (True, h\<lparr>ht_events := evs, ht_recording := False\<rparr>, s1)) (stop n s))"

text \<open>\<open>tname\<close> gives the name of a thread, by its identifier; the queues of events are emptied, but stay.\<close>

definition collect_data ::
  "(nat \<Rightarrow> nat) \<Rightarrow> ('d xline list \<Rightarrow> 'd xline list) \<Rightarrow> (string \<Rightarrow> ('d \<times> nat) option) \<Rightarrow> (nat \<Rightarrow> string) \<Rightarrow>
   host_tracer \<Rightarrow> 'd xplane list \<Rightarrow> (bool \<times> host_tracer \<times> 'd xplane list) option" where
  "collect_data grow sort_lines stod tname h space =
     (if ht_recording h then Some (False, h, space)
      else if ht_events h = [] then Some (True, h, space)
      else
        (let (i, space1) = find_or_add_plane kHostThreadsPlaneName space
         in map_option (\<lambda>p. (True, h\<lparr>ht_events := map (\<lambda>(tid, es). (tid, [])) (ht_events h)\<rparr>, space1[i := p]))
              (convert_complete_events_to_xplane grow sort_lines stod (ht_start_ns h)
                 (map (\<lambda>(tid, es). (tid, tname tid, es)) (ht_events h)) (space1 ! i))))"

section \<open>Scopes as they ran\<close>

text \<open>
  The scopes of a thread: name, start, end, and the scopes inside. A scope is recorded when it ends, so that
  inner scopes come before outer ones.
\<close>

datatype scope = Scope string (sc_start: int) int "scope list"

fun recorded_order :: "scope list \<Rightarrow> trace_event list" where
  "recorded_order [] = []"
| "recorded_order (Scope n s e cs # ts) = recorded_order cs @ [\<lparr>ev_name = n, ev_start = s, ev_end = e\<rparr>] @ recorded_order ts"

text \<open>
  Scopes between \<open>lo\<close> and \<open>hi\<close>: one starts when the one before has ended; an inner scope starts after the scope
  around it has started and before it ends.
\<close>

fun nested :: "int \<Rightarrow> int \<Rightarrow> scope list \<Rightarrow> bool" where
  "nested lo hi [] = True"
| "nested lo hi (Scope n s e cs # ts) \<longleftrightarrow>
     lo \<le> s \<and> s \<le> e \<and> e \<le> hi \<and> s < hi \<and> (\<forall>c\<in>set cs. s < sc_start c) \<and> nested s e cs \<and> nested e hi ts"

definition shown_name :: "string \<Rightarrow> string" where
  "shown_name n =
     (let name = an_name (if has_metadata n then parse_annotation n else \<lparr>an_name = n, an_metadata = []\<rparr>)
      in if derived_display_name name \<noteq> [] then derived_display_name name else if name \<noteq> [] then name else ''TraceEvent'')"

text \<open>The flat events outer first, with times relative to \<open>z\<close>.\<close>

definition flat_event :: "int \<Rightarrow> trace_event \<Rightarrow> flat_event" where
  "flat_event z e = \<lparr>fe_start = ev_start e - z, fe_end = ev_end e - z, fe_name = shown_name (ev_name e)\<rparr>"

fun pre_order :: "int \<Rightarrow> scope list \<Rightarrow> flat_event list" where
  "pre_order z [] = []"
| "pre_order z (Scope n s e cs # ts) = flat_event z \<lparr>ev_name = n, ev_start = s, ev_end = e\<rparr> # pre_order z cs @ pre_order z ts"

lemma nested_bounds: "nested lo hi ts \<Longrightarrow> ev \<in> set (recorded_order ts) \<Longrightarrow> lo \<le> ev_start ev \<and> ev_start ev < hi \<and> ev_start ev \<le> ev_end ev"
  by (induction lo hi ts rule: nested.induct) force+

lemma nested_strict:
  assumes "nested s e cs" "\<forall>c\<in>set cs. s < sc_start c" "ev \<in> set (recorded_order cs)"
  shows "s < ev_start ev"
proof (cases cs)
  case (Cons c cs')
  obtain n s' e' ds where c: "c = Scope n s' e' ds" by (cases c)
  have "nested s' e ds' \<Longrightarrow> s < s' \<Longrightarrow> nested s' e ds'" for ds' by blast
  have "nested s' e' ds" "nested e' e cs'" "s < s'" "s' \<le> e'" using assms(1,2) Cons c by auto
  then show ?thesis using assms(3) Cons c nested_bounds [of s' e' ds ev] nested_bounds [of e' e cs' ev] by auto
qed (use assms in simp)

lemma pre_order_mset: "mset (pre_order z ts) = mset (map (flat_event z) (recorded_order ts))"
  by (induction z ts rule: pre_order.induct) auto

lemma pre_order_bounds: "nested lo hi ts \<Longrightarrow> x \<in> set (pre_order z ts) \<Longrightarrow> lo - z \<le> fe_start x \<and> fe_start x < hi - z"
proof -
  assume h: "nested lo hi ts" "x \<in> set (pre_order z ts)"
  have "set (pre_order z ts) = flat_event z ` set (recorded_order ts)" using mset_eq_setD [OF pre_order_mset] by simp
  then obtain ev where "ev \<in> set (recorded_order ts)" "x = flat_event z ev" using h(2) by auto
  then show ?thesis using nested_bounds [OF h(1)] by (auto simp: flat_event_def)
qed

lemma pre_order_strict:
  assumes "nested s e cs" "\<forall>c\<in>set cs. s < sc_start c" "x \<in> set (pre_order z cs)"
  shows "s - z < fe_start x"
proof -
  have "set (pre_order z cs) = flat_event z ` set (recorded_order cs)" using mset_eq_setD [OF pre_order_mset] by simp
  then show ?thesis using assms nested_strict [OF assms(1,2)] by (auto simp: flat_event_def)
qed

lemma pre_order_sorted: "nested lo hi ts \<Longrightarrow> sorted (map fe_start (pre_order z ts))"
proof (induction lo hi ts rule: nested.induct)
  case (2 lo hi n s e cs ts)
  have h: "nested s e cs" "nested e hi ts" "\<forall>c\<in>set cs. s < sc_start c" "s \<le> e" using 2(3) by auto
  have 1: "\<forall>x\<in>set (pre_order z cs). s - z \<le> fe_start x \<and> fe_start x < e - z" using pre_order_bounds [OF h(1)] by blast
  have 3: "\<forall>x\<in>set (pre_order z ts). e - z \<le> fe_start x" using pre_order_bounds [OF h(2)] by blast
  show ?case using 2(1) [OF h(1)] 2(2) [OF h(2)] 1 3 h(4) by (force simp: sorted_append flat_event_def)
qed simp

lemma pre_order_filter:
  "nested lo hi ts \<Longrightarrow> filter (\<lambda>x. fe_start x = k) (map (flat_event z) (recorded_order ts)) = filter (\<lambda>x. fe_start x = k) (pre_order z ts)"
proof (induction lo hi ts rule: nested.induct)
  case (2 lo hi n s e cs ts)
  have h: "nested s e cs" "nested e hi ts" "\<forall>c\<in>set cs. s < sc_start c" using 2(3) by auto
  have "filter (\<lambda>x. fe_start x = s - z) (pre_order z cs) = []"
    using pre_order_strict [OF h(1,3)] by (fastforce simp: filter_empty_conv)
  then show ?case using 2(1) [OF h(1)] 2(2) [OF h(2)] by (auto simp: flat_event_def)
qed simp

text \<open>The stable sort by start puts the recorded events into the order in which the scopes started.\<close>

lemma sort_recorded:
  assumes "nested lo hi ts"
  shows "sort_key fe_start (map (flat_event z) (recorded_order ts)) = pre_order z ts"
proof (rule properties_for_sort_key)
  show "mset (pre_order z ts) = mset (map (flat_event z) (recorded_order ts))" by (rule pre_order_mset)
  show "filter (\<lambda>x. fe_start k = fe_start x) (pre_order z ts) = filter (\<lambda>x. fe_start k = fe_start x) (map (flat_event z) (recorded_order ts))" for k
    using pre_order_filter [OF assms, of "fe_start k"] by (simp add: eq_commute)
  show "sorted (map fe_start (pre_order z ts))" by (rule pre_order_sorted [OF assms])
qed

section \<open>The nodes of a forest\<close>

fun child_ids :: "nat \<Rightarrow> scope list \<Rightarrow> nat list" where
  "child_ids i [] = []"
| "child_ids i (Scope n s e cs # ts) = i # child_ids (i + 1 + length (recorded_order cs)) ts"

fun tree_nodes :: "string \<Rightarrow> int \<Rightarrow> nat \<Rightarrow> nat \<Rightarrow> nat \<Rightarrow> scope list \<Rightarrow> scope_node list" where
  "tree_nodes label z par d i [] = []"
| "tree_nodes label z par d i (Scope n s e cs # ts) =
     \<lparr>sn_name = shown_name n, sn_start = s - z, sn_end = e - z, sn_depth = d + 1, sn_label = label,
      sn_children = child_ids (i + 1) cs, sn_parent = Some par\<rparr> #
     tree_nodes label z i (d + 1) (i + 1) cs @ tree_nodes label z par d (i + 1 + length (recorded_order cs)) ts"

lemma length_pre_order: "length (pre_order z ts) = length (recorded_order ts)"
  using mset_eq_length [OF pre_order_mset [of z ts]] by simp

lemma length_tree_nodes: "length (tree_nodes label z par d i ts) = length (recorded_order ts)"
  by (induction label z par d i ts rule: tree_nodes.induct) auto

definition add_children :: "nat \<Rightarrow> nat list \<Rightarrow> scope_node list \<Rightarrow> scope_node list" where
  "add_children par is st = st[par := (st ! par)\<lparr>sn_children := sn_children (st ! par) @ is\<rparr>]"

lemma add_children_Nil [simp]: "add_children par [] st = st"
  by (simp add: add_children_def)

lemma length_add_children [simp]: "length (add_children par is st) = length st"
  by (simp add: add_children_def)

lemma add_children_append: "par < length st \<Longrightarrow> add_children par is (st @ st') = add_children par is st @ st'"
  by (simp add: add_children_def nth_append list_update_append)

lemma add_children_twice: "par < length st \<Longrightarrow> add_children par js (add_children par is st) = add_children par (is @ js) st"
  by (simp add: add_children_def)

lemma add_children_same: "par < length st \<Longrightarrow> a < length st \<Longrightarrow> sn_end (add_children par is st ! a) = sn_end (st ! a) \<and>
    sn_depth (add_children par is st ! a) = sn_depth (st ! a)"
  by (simp add: add_children_def nth_list_update)

definition top_or_root :: "nat list \<Rightarrow> nat" where
  "top_or_root base = (case base of [] \<Rightarrow> 0 | a # _ \<Rightarrow> a)"

definition all_ended :: "int \<Rightarrow> scope_node list \<Rightarrow> nat list \<Rightarrow> bool" where
  "all_ended t st as \<longleftrightarrow> (\<forall>a\<in>set as. a < length st \<and> sn_end (st ! a) \<le> t)"

definition still_open :: "int \<Rightarrow> scope_node list \<Rightarrow> nat list \<Rightarrow> bool" where
  "still_open t st base \<longleftrightarrow> (\<forall>a\<in>set base. a < length st) \<and> (base \<noteq> [] \<longrightarrow> t \<le> sn_end (st ! hd base)) \<and> 0 < length st"

lemma pop_ended:
  assumes "all_ended t st extra" "still_open h st base" "t \<le> u" "u < h"
  shows "dropWhile (\<lambda>a. sn_end (st ! a) \<le> u) (extra @ base) = base"
proof -
  have "dropWhile (\<lambda>a. sn_end (st ! a) \<le> u) (extra @ base) = dropWhile (\<lambda>a. sn_end (st ! a) \<le> u) base"
    using assms(1,3) by (intro dropWhile_append2) (force simp: all_ended_def)
  also have "\<dots> = base" using assms(2,4) by (cases base) (auto simp: still_open_def)
  finally show ?thesis .
qed

lemma top_or_root_in: "still_open t st base \<Longrightarrow> top_or_root base < length st"
  by (auto simp: still_open_def top_or_root_def split: list.splits)

lemma nest_scope:
  assumes "all_ended (lo - z) st extra" "still_open (hi - z) st base" "lo \<le> s" "s < hi" "par = top_or_root base"
  shows "nest_event label (flat_event z \<lparr>ev_name = n, ev_start = s, ev_end = e\<rparr>) (st, extra @ base) =
    (add_children par [length st] st @ [\<lparr>sn_name = shown_name n, sn_start = s - z, sn_end = e - z, sn_depth = sn_depth (st ! par) + 1,
       sn_label = label, sn_children = [], sn_parent = Some par\<rparr>], length st # base)"
  using pop_ended [OF assms(1,2), of "s - z"] assms(3-5)
  by (simp add: nest_event_def Let_def flat_event_def add_children_def top_or_root_def)

lemma nest_forest:
  assumes "nested lo hi ts" "lo \<le> hi" "all_ended (lo - z) st extra" "still_open (hi - z) st base" "par = top_or_root base"
  shows "\<exists>extra'. foldl (\<lambda>s e. nest_event label e s) (st, extra @ base) (pre_order z ts) =
      (add_children par (child_ids (length st) ts) st @ tree_nodes label z par (sn_depth (st ! par)) (length st) ts, extra' @ base) \<and>
    all_ended (hi - z) (add_children par (child_ids (length st) ts) st @ tree_nodes label z par (sn_depth (st ! par)) (length st) ts) extra'"
  using assms
proof (induction lo hi ts arbitrary: st extra base par rule: nested.induct)
  case (1 lo hi)
  then show ?case by (intro exI [of _ extra]) (auto simp: all_ended_def)
next
  case (2 lo hi n s e cs ts)
  have h: "lo \<le> s" "s \<le> e" "e \<le> hi" "s < hi" "nested s e cs" "nested e hi ts" using 2(3) by auto
  let ?i = "length st" and ?d = "sn_depth (st ! par)"
  let ?node = "\<lambda>cs. \<lparr>sn_name = shown_name n, sn_start = s - z, sn_end = e - z, sn_depth = ?d + 1, sn_label = label, sn_children = cs, sn_parent = Some par\<rparr>"
  let ?st0 = "add_children par [?i] st"
  let ?st1 = "?st0 @ [?node []]"
  let ?ids = "child_ids (?i + 1) cs" and ?ns = "tree_nodes label z ?i (?d + 1) (?i + 1) cs"
  let ?st2 = "?st0 @ ?node ?ids # ?ns"
  have par: "par < length st" using top_or_root_in [OF 2(6)] 2(7) by simp
  have step: "nest_event label (flat_event z \<lparr>ev_name = n, ev_start = s, ev_end = e\<rparr>) (st, extra @ base) = (?st1, ?i # base)"
    using nest_scope [OF 2(5,6) h(1,4) 2(7)] by simp
  have base: "\<forall>a\<in>set base. a < length st" "0 < length st" using 2(6) by (auto simp: still_open_def)
  have "still_open (e - z) ?st1 (?i # base)" using base by (auto simp: still_open_def nth_append)
  moreover have "all_ended (s - z) ?st1 []" by (simp add: all_ended_def)
  ultimately obtain ex where ex: "foldl (\<lambda>s e. nest_event label e s) (?st1, [] @ ?i # base) (pre_order z cs) =
      (add_children ?i (child_ids (length ?st1) cs) ?st1 @ tree_nodes label z ?i (sn_depth (?st1 ! ?i)) (length ?st1) cs, ex @ ?i # base)"
      "all_ended (e - z) (add_children ?i (child_ids (length ?st1) cs) ?st1 @ tree_nodes label z ?i (sn_depth (?st1 ! ?i)) (length ?st1) cs) ex"
    using 2(1) [OF h(5,2), of ?st1 "[]" "?i # base" ?i] by (auto simp: top_or_root_def)
  have st2: "add_children ?i (child_ids (length ?st1) cs) ?st1 @ tree_nodes label z ?i (sn_depth (?st1 ! ?i)) (length ?st1) cs = ?st2"
    by (simp add: add_children_def nth_append list_update_append)
  note ex = ex [unfolded st2]
  have e1: "all_ended (e - z) ?st2 (ex @ [?i])" using ex(2) by (auto simp: all_ended_def nth_append)
  have keep: "?st2 ! a = ?st0 ! a" if "a < length st" for a using that by (simp add: nth_append)
  have o2: "still_open (hi - z) ?st2 base"
    using 2(6) keep add_children_same [OF par] by (auto simp: still_open_def less_Suc_eq trans_less_add1)
  have d2: "sn_depth (?st2 ! par) = ?d" using keep [OF par] add_children_same [OF par par] by simp
  obtain ex' where ex': "foldl (\<lambda>s e. nest_event label e s) (?st2, (ex @ [?i]) @ base) (pre_order z ts) =
      (add_children par (child_ids (length ?st2) ts) ?st2 @ tree_nodes label z par ?d (length ?st2) ts, ex' @ base)"
      "all_ended (hi - z) (add_children par (child_ids (length ?st2) ts) ?st2 @ tree_nodes label z par ?d (length ?st2) ts) ex'"
    using 2(2) [OF h(6,3) e1 o2 2(7), unfolded d2] by blast
  have len: "length ?st2 = ?i + 1 + length (recorded_order cs)" by (simp add: length_tree_nodes)
  have fin: "add_children par (child_ids (length ?st2) ts) ?st2 @ tree_nodes label z par ?d (length ?st2) ts =
      add_children par (child_ids ?i (Scope n s e cs # ts)) st @ tree_nodes label z par ?d ?i (Scope n s e cs # ts)"
    unfolding len using par by (simp add: add_children_append add_children_twice)
  show ?case unfolding fin [symmetric] using step ex(1) ex' by (intro exI [of _ ex']) simp
qed

text \<open>The trees below a list of nodes.\<close>

datatype tree = Tree string int int nat string "tree list"

fun read_trees :: "nat \<Rightarrow> scope_node list \<Rightarrow> nat list \<Rightarrow> tree list" where
  "read_trees 0 st is = []"
| "read_trees (Suc n) st is =
     map (\<lambda>i. let nd = st ! i in Tree (sn_name nd) (sn_start nd) (sn_end nd) (sn_depth nd) (sn_label nd) (read_trees n st (sn_children nd))) is"

text \<open>The tree that a forest of scopes should have.\<close>

fun scope_trees :: "string \<Rightarrow> int \<Rightarrow> nat \<Rightarrow> scope list \<Rightarrow> tree list" where
  "scope_trees label z d [] = []"
| "scope_trees label z d (Scope n s e cs # ts) =
     Tree (shown_name n) (s - z) (e - z) (d + 1) label (scope_trees label z (d + 1) cs) # scope_trees label z d ts"

lemma read_tree_nodes:
  assumes "\<forall>j<length (recorded_order ts). i + j < length st \<and> st ! (i + j) = tree_nodes label z par d i ts ! j" "length (recorded_order ts) \<le> n"
  shows "read_trees n st (child_ids i ts) = scope_trees label z d ts"
  using assms
proof (induction label z par d i ts arbitrary: n rule: tree_nodes.induct)
  case (1 label z par d i)
  then show ?case by (cases n) simp_all
next
  case (2 label z par d i nm s e cs ts)
  let ?c = "length (recorded_order cs)" and ?t = "length (recorded_order ts)"
  obtain m where m: "n = Suc m" "?c + ?t \<le> m" using 2(4) by (cases n) auto
  have nd: "st ! (i + j) = tree_nodes label z par d i (Scope nm s e cs # ts) ! j" "i + j < length st" if "j < Suc (?c + ?t)" for j
    using 2(3) that by simp_all
  have c: "read_trees m st (child_ids (i + 1) cs) = scope_trees label z (d + 1) cs"
  proof (rule 2(1))
    show "\<forall>j<?c. i + 1 + j < length st \<and> st ! (i + 1 + j) = tree_nodes label z i (d + 1) (i + 1) cs ! j"
      using nd [of "Suc _"] by (auto simp: nth_append length_tree_nodes)
  qed (use m in simp)
  have t: "read_trees n st (child_ids (i + 1 + ?c) ts) = scope_trees label z d ts"
  proof (rule 2(2))
    show "\<forall>j<?t. i + 1 + ?c + j < length st \<and> st ! (i + 1 + ?c + j) = tree_nodes label z par d (i + 1 + ?c) ts ! j"
      using nd [of "Suc (?c + _)"] by (auto simp: nth_append length_tree_nodes add.assoc)
  qed (use m in simp)
  show ?case using nd [of 0] c t unfolding m(1) by (simp add: Let_def)
qed

section \<open>The tree of the lines of a plane\<close>

lemma nested_le: "nested lo hi ts \<Longrightarrow> ts \<noteq> [] \<Longrightarrow> lo \<le> hi"
  by (induction lo hi ts rule: nested.induct) auto

lemma nest_line:
  assumes "nested lo hi ts" "st \<noteq> []"
  shows "nest_line_events (pre_order z ts) label st =
    add_children 0 (child_ids (length st) ts) st @ tree_nodes label z 0 (sn_depth (st ! 0)) (length st) ts"
proof (cases "ts = []")
  case True
  then show ?thesis by (simp add: nest_line_events_def)
next
  case False
  have "all_ended (lo - z) st []" "still_open (hi - z) st []" using assms(2) by (simp_all add: all_ended_def still_open_def)
  then obtain ex where "foldl (\<lambda>s e. nest_event label e s) (st, [] @ []) (pre_order z ts) =
      (add_children 0 (child_ids (length st) ts) st @ tree_nodes label z 0 (sn_depth (st ! 0)) (length st) ts, ex @ [])"
    using nest_forest [OF assms(1) nested_le [OF assms(1) False], of z st "[]" "[]" 0 label] by (auto simp: top_or_root_def)
  then show ?thesis by (simp add: nest_line_events_def)
qed

text \<open>The forests of several threads below one root.\<close>

fun forest_store :: "int \<Rightarrow> (string \<times> scope list) list \<Rightarrow> scope_node list \<Rightarrow> scope_node list" where
  "forest_store z [] st = st"
| "forest_store z ((label, ts) # fs) st =
     forest_store z fs (add_children 0 (child_ids (length st) ts) st @ tree_nodes label z 0 0 (length st) ts)"

lemma read_trees_append: "read_trees n st (is @ js) = read_trees n st is @ read_trees n st js"
  by (cases n) simp_all

lemma read_forest_store:
  assumes "st \<noteq> []" "length (forest_store z fs st) \<le> n"
  shows "\<exists>is. sn_children (forest_store z fs st ! 0) = sn_children (st ! 0) @ is \<and> length st \<le> length (forest_store z fs st) \<and>
    (\<forall>j. 0 < j \<longrightarrow> j < length st \<longrightarrow> forest_store z fs st ! j = st ! j) \<and>
    read_trees n (forest_store z fs st) is = concat (map (\<lambda>(label, ts). scope_trees label z 0 ts) fs)"
  using assms
proof (induction z fs st rule: forest_store.induct)
  case (1 z st)
  then show ?case by (cases n) simp_all
next
  case (2 z label ts fs st)
  let ?ids = "child_ids (length st) ts" and ?ns = "tree_nodes label z 0 0 (length st) ts"
  let ?st = "add_children 0 ?ids st @ ?ns"
  let ?X = "forest_store z fs ?st"
  have ne: "?st \<noteq> []" and le: "length ?X \<le> n" using 2(2,3) by (simp_all add: add_children_def)
  obtain js where ih: "sn_children (?X ! 0) = sn_children (?st ! 0) @ js" "length ?st \<le> length ?X"
      "\<And>j. 0 < j \<Longrightarrow> j < length ?st \<Longrightarrow> ?X ! j = ?st ! j"
      "read_trees n ?X js = concat (map (\<lambda>(label, ts). scope_trees label z 0 ts) fs)"
    using 2(1) [OF ne le] by blast
  have st: "0 < length st" using 2(2) by simp
  have "\<forall>j<length (recorded_order ts). length st + j < length ?X \<and> ?X ! (length st + j) = ?ns ! j"
    using ih(2) ih(3) [of "length st + _"] st by (simp add: length_tree_nodes nth_append)
  moreover have "length (recorded_order ts) \<le> n" using ih(2) 2(3) by (simp add: length_tree_nodes)
  ultimately have "read_trees n ?X ?ids = scope_trees label z 0 ts" by (rule read_tree_nodes)
  moreover have "sn_children (?st ! 0) = sn_children (st ! 0) @ ?ids" using st by (simp add: nth_append add_children_def)
  moreover have "?X ! j = st ! j" if "0 < j" "j < length st" for j
    using ih(3) [of j] that by (simp add: nth_append add_children_def)
  ultimately show ?case using ih(1,2,4) by (intro exI [of _ "?ids @ js"]) (simp add: read_trees_append)
qed

definition normalized :: "int \<Rightarrow> 'd xline \<Rightarrow> 'd xline" where
  "normalized z l = (if xl_timestamp_ns l \<ge> z then l\<lparr>xl_timestamp_ns := xl_timestamp_ns l - z\<rparr> else l)"

definition thread_label :: "nat \<Rightarrow> string \<Rightarrow> string" where
  "thread_label tid name = (if name \<noteq> [] then name else ''thread '' @ int_text (int tid))"

lemma pico_nano_1000 [simp]: "pico_to_nano (1000 * x) = x"
proof -
  have "(1000 * (- x)) div 1000 = - x" by (rule nonzero_mult_div_cancel_left) simp
  then show ?thesis by (simp add: pico_to_nano_def)
qed

text \<open>A flat event from what the plane shows of an event.\<close>

definition flat_view :: "int \<Rightarrow> 'd event_view \<Rightarrow> flat_event" where
  "flat_view t v =
     (let start = t + pico_to_nano (case ew_data v of Offset d \<Rightarrow> d | Occurrences d n \<Rightarrow> 0)
      in \<lparr>fe_start = start, fe_end = start + max 0 (pico_to_nano (ew_duration_ps v)),
          fe_name = (if ew_display_name v \<noteq> [] then ew_display_name v else if ew_name v \<noteq> [] then ew_name v else ''TraceEvent'')\<rparr>)"

lemma flat_of_view: "flat_of p l ev = flat_view (xl_timestamp_ns l) (event_view p ev)"
  by (simp add: flat_of_def flat_view_def event_view_def event_display_name_def offset_ps_def Let_def split: event_data.splits)

lemma flat_expected:
  "ev_start e \<le> ev_end e \<Longrightarrow> flat_view (t0 - z) (expected_view stod t0 e) = flat_event z e"
  by (simp add: flat_view_def expected_view_def flat_event_def shown_name_def event_annot_def Let_def del: right_diff_distrib_numeral)

lemma event_view_lines: "event_view (p\<lparr>xp_lines := ls\<rparr>) ev = event_view p ev"
  by (simp add: event_view_def event_md_def stat_view_def [abs_def] stat_md_def)

lemma kept_recorded:
  assumes "nested t0 hi ts" "0 < t0"
  shows "filter (kept t0) (recorded_order ts) = recorded_order ts"
  using nested_bounds [OF assms(1)] assms(2) by (fastforce simp: filter_id_conv kept_def is_complete_def)

lemma collect_line:
  assumes "line_ok stod t0 p l (tid, name, recorded_order ts)" "nested t0 hi ts" "0 < t0" "z \<le> t0"
  shows "collect_line_events (p\<lparr>xp_lines := ls\<rparr>) (normalized z l) = pre_order z ts" "line_thread_label (normalized z l) = thread_label tid name"
proof -
  have v: "map (event_view p) (xl_events l) = map (expected_view stod t0) (recorded_order ts)"
    using assms(1) kept_recorded [OF assms(2,3)] by (simp add: line_ok_def)
  have t: "xl_timestamp_ns (normalized z l) = t0 - z" "xl_events (normalized z l) = xl_events l" using assms(1,4) by (simp_all add: line_ok_def normalized_def)
  have "\<not> is_aggregated_event ev" if "ev \<in> set (xl_events l)" for ev
  proof -
    have "event_view p ev \<in> set (map (expected_view stod t0) (recorded_order ts))" using that unfolding v [symmetric] by simp
    then show ?thesis by (auto simp: event_view_def expected_view_def is_aggregated_event_def)
  qed
  then have f: "filter (\<lambda>ev. \<not> is_aggregated_event ev) (xl_events l) = xl_events l" by simp
  have "map (flat_of (p\<lparr>xp_lines := ls\<rparr>) (normalized z l)) (xl_events l) = map (flat_view (t0 - z)) (map (event_view p) (xl_events l))"
    by (simp add: flat_of_view event_view_lines t)
  also have "\<dots> = map (flat_event z) (recorded_order ts)"
    unfolding v using nested_bounds [OF assms(2)] by (simp add: flat_expected)
  finally show "collect_line_events (p\<lparr>xp_lines := ls\<rparr>) (normalized z l) = pre_order z ts"
    using sort_recorded [OF assms(2)] f t(2) by (simp add: collect_line_events_def)
  show "line_thread_label (normalized z l) = thread_label tid name"
    using assms(1) by (simp add: line_ok_def normalized_def line_thread_label_def thread_label_def shown_line_name_def)
qed

text \<open>The lines of a plane against the forests of their threads.\<close>

definition forest_line :: "(string \<Rightarrow> ('d \<times> nat) option) \<Rightarrow> int \<Rightarrow> int \<Rightarrow> 'd xplane \<Rightarrow> 'd xline \<Rightarrow> string \<times> scope list \<Rightarrow> bool" where
  "forest_line stod t0 hi p l = (\<lambda>(label, ts). \<exists>tid name. line_ok stod t0 p l (tid, name, recorded_order ts) \<and> nested t0 hi ts \<and>
     label = thread_label tid name)"

lemma forest_store_depth: "st \<noteq> [] \<Longrightarrow> forest_store z fs st \<noteq> [] \<and> sn_depth (forest_store z fs st ! 0) = sn_depth (st ! 0)"
  by (induction z fs st rule: forest_store.induct) (auto simp: add_children_def nth_append)

lemma pre_order_empty: "pre_order z ts = [] \<longleftrightarrow> ts = []"
  by (induction z ts rule: pre_order.induct) auto

lemma add_lines_tree:
  assumes "list_all2 (forest_line stod t0 hi p) ls fs" "0 < t0" "z \<le> t0" "st \<noteq> []" "sn_depth (st ! 0) = 0"
  shows "foldl (add_line_tree (p\<lparr>xp_lines := ls'\<rparr>)) (found, st) (map (normalized z) ls) =
    (found \<or> (\<exists>(label, ts)\<in>set fs. ts \<noteq> []), forest_store z fs st)"
  using assms(1,4,5)
proof (induction ls fs arbitrary: found st rule: list_all2_induct)
  case (Cons l ls f fs)
  obtain label ts where f: "f = (label, ts)" by force
  obtain tid name where l: "line_ok stod t0 p l (tid, name, recorded_order ts)" "nested t0 hi ts" "label = thread_label tid name"
    using Cons(1) f by (auto simp: forest_line_def)
  let ?st = "add_children 0 (child_ids (length st) ts) st @ tree_nodes label z 0 0 (length st) ts"
  note c = collect_line [OF l(1,2) assms(2,3)]
  have "add_line_tree (p\<lparr>xp_lines := ls'\<rparr>) (found, st) (normalized z l) = (found \<or> ts \<noteq> [], ?st)"
    using c l(3) nest_line [OF l(2) Cons(4), of z label] Cons(5) by (simp add: add_line_tree_def pre_order_empty Let_def)
  moreover have "?st \<noteq> []" "sn_depth (?st ! 0) = 0" using Cons(4,5) by (auto simp: add_children_def nth_append)
  ultimately show ?case using Cons(3) [of ?st "found \<or> ts \<noteq> []"] f by auto
qed simp

section \<open>From the scopes of a program to the tree\<close>

lemma recorded_order_empty: "recorded_order ts = [] \<longleftrightarrow> ts = []"
  by (induction ts rule: recorded_order.induct) auto

text \<open>The plane of a session, with its lines sorted, and the threads in the order of the lines.\<close>

lemma convert_forests:
  assumes "distinct (map os ks)" "sorts_lines sort_lines" "\<forall>k\<in>set ks. nested t0 hi (forest k)"
  shows "\<exists>p ls ks'. convert_complete_events_to_xplane grow sort_lines stod t0 (map (\<lambda>k. (os k, tname (os k), recorded_order (forest k))) ks)
      (new_xplane\<lparr>xp_name := name\<rparr>) = Some (p\<lparr>xp_lines := ls\<rparr>) \<and> xp_name p = name \<and> mset ks' = mset ks \<and>
    list_all2 (forest_line stod t0 hi p) ls (map (\<lambda>k. (thread_label (os k) (tname (os k)), forest k)) ks') \<and>
    sorted_wrt (\<lambda>k k'. \<not> text_less (tname (os k')) (tname (os k))) ks'"
proof -
  let ?t = "\<lambda>k. (os k, tname (os k), recorded_order (forest k))"
  obtain p ls where c: "convert_complete_events_to_xplane grow sort_lines stod t0 (map ?t ks) (new_xplane\<lparr>xp_name := name\<rparr>) =
      Some (p\<lparr>xp_lines := sort_lines ls\<rparr>)" "xp_name p = name" "list_all2 (line_ok stod t0 p) ls (map ?t ks)"
    using convert_complete_ok [of "map ?t ks" "new_xplane\<lparr>xp_name := name\<rparr>" grow sort_lines stod t0] assms(1)
    by (auto simp: new_xplane_def comp_def)
  have sl: "mset (sort_lines ls) = mset ls" "sorted_wrt (\<lambda>a b. \<not> xlines_by_name b a) (sort_lines ls)"
    using assms(2) by (auto simp: sorts_lines_def)
  have "list_all2 (\<lambda>l k. line_ok stod t0 p l (?t k)) ls ks" using c(3) by (simp add: list_all2_map2)
  then obtain ks' where ks': "list_all2 (\<lambda>l k. line_ok stod t0 p l (?t k)) (sort_lines ls) ks'" "mset ks' = mset ks"
    using list_all2_reorder_left_invariance [OF _ sl(1)] by blast
  have f: "\<forall>k\<in>set ks'. nested t0 hi (forest k)" using assms(3) mset_eq_setD [OF ks'(2)] by simp
  have "list_all2 (forest_line stod t0 hi p) (sort_lines ls) (map (\<lambda>k. (thread_label (os k) (tname (os k)), forest k)) ks')"
    using ks'(1) f by (fastforce simp: list_all2_conv_all_nth forest_line_def)
  moreover have "sorted_wrt (\<lambda>k k'. \<not> text_less (tname (os k')) (tname (os k))) ks'"
  proof -
    have len: "length (sort_lines ls) = length ks'" using ks'(1) by (rule list_all2_lengthD)
    have nm: "shown_line_name (sort_lines ls ! i) = tname (os (ks' ! i))" if "i < length ks'" for i
      using list_all2_nthD2 [OF ks'(1) that] by (simp add: line_ok_def shown_line_name_def)
    show ?thesis using sl(2) nm unfolding sorted_wrt_iff_nth_less len by (simp add: xlines_by_name_def)
  qed
  ultimately show ?thesis using c(1,2) ks'(2) by blast
qed

text \<open>The tree of a space with that plane.\<close>

lemma build_forests:
  assumes "list_all2 (forest_line stod t0 hi p) ls fs" "0 < t0" "z \<le> t0" "xp_name p = kHostThreadsPlaneName" "(label, ts) \<in> set fs" "ts \<noteq> []"
  shows "\<exists>st. build_scope_tree (map (NormalizeTimestamps z) [p\<lparr>xp_lines := ls\<rparr>]) = Some st \<and>
    read_trees (length st) st (sn_children (hd st)) = concat (map (\<lambda>(label, ts). scope_trees label z 0 ts) fs)"
proof -
  let ?st = "forest_store z fs [new_root]"
  have n: "NormalizeTimestamps z (p\<lparr>xp_lines := ls\<rparr>) = p\<lparr>xp_lines := map (normalized z) ls\<rparr>"
    by (simp add: NormalizeTimestamps_def normalized_def [abs_def])
  have "foldl (add_line_tree (p\<lparr>xp_lines := map (normalized z) ls\<rparr>)) (False, [new_root]) (map (normalized z) ls) = (True, ?st)"
    using add_lines_tree [OF assms(1-3), of "[new_root]" "map (normalized z) ls" False] assms(5,6) by (auto simp: new_root_def)
  then have "build_scope_tree (map (NormalizeTimestamps z) [p\<lparr>xp_lines := ls\<rparr>]) = Some ?st"
    using assms(4) by (simp add: build_scope_tree_def add_plane_tree_def n)
  moreover obtain js where "sn_children (?st ! 0) = js" "read_trees (length ?st) ?st js = concat (map (\<lambda>(label, ts). scope_trees label z 0 ts) fs)"
    using read_forest_store [of "[new_root]" z fs "length ?st"] by (auto simp: new_root_def)
  moreover have "?st \<noteq> []" using forest_store_depth [of "[new_root]" z fs] by simp
  ultimately show ?thesis by (simp add: hd_conv_nth)
qed

definition finished_events :: "(nat \<times> trace_event) list \<Rightarrow> nat \<Rightarrow> trace_event list" where
  "finished_events log k = map (join_start (starts (map snd log))) (filter (\<lambda>e. \<not> is_start e) (events_of k log))"

lemma finished_events_empty: "filter (\<lambda>e. \<not> is_start e) (events_of k log) = [] \<longleftrightarrow> finished_events log k = []"
  by (simp add: finished_events_def)


text \<open>A scope that starts at the time its parent starts is recorded first and becomes the parent.\<close>

lemma equal_start_inverts:
  "map sn_parent (nest_line_events (sort_key fe_start (map (flat_event 0) (recorded_order [Scope ''a'' 5 9 [Scope ''b'' 5 6 []]]))) l [new_root]) =
    [None, Some 0, Some 1]"
  "map sn_name (nest_line_events (sort_key fe_start (map (flat_event 0) (recorded_order [Scope ''a'' 5 9 [Scope ''b'' 5 6 []]]))) l [new_root]) =
    [''ROOT'', ''b'', ''a'']"
  by (simp_all add: nest_line_events_def nest_event_def Let_def flat_event_def new_root_def shown_name_def has_metadata_def
      derived_display_name_def isspace_def)

section \<open>An example\<close>

text \<open>Insertion by name is a sort of lines.\<close>

lemma text_less_trans: "\<not> text_less t s \<Longrightarrow> \<not> text_less u t \<Longrightarrow> \<not> text_less u s"
proof (induction u s arbitrary: t rule: text_less.induct)
  case (3 c u d s)
  show ?case
  proof (cases t)
    case (Cons x t')
    have "of_char x = (of_char y :: nat) \<longleftrightarrow> x = y" for y by (rule of_char_eq_iff)
    then show ?thesis using 3 Cons by (fastforce dest: order.strict_trans)
  qed (use 3 in simp)
next
  case (2 d s)
  then show ?case by (cases t) auto
qed simp

lemma text_less_antisym: "text_less s t \<Longrightarrow> \<not> text_less t s"
  by (induction s t rule: text_less.induct) auto

fun insert_line :: "'d xline \<Rightarrow> 'd xline list \<Rightarrow> 'd xline list" where
  "insert_line l [] = [l]"
| "insert_line l (m # ls) = (if xlines_by_name m l then m # insert_line l ls else l # m # ls)"

lemma insert_line_mset: "mset (insert_line l ls) = add_mset l (mset ls)"
  by (induction ls) auto

lemma insert_line_sorted:
  "sorted_wrt (\<lambda>a b. \<not> xlines_by_name b a) ls \<Longrightarrow> sorted_wrt (\<lambda>a b. \<not> xlines_by_name b a) (insert_line l ls)"
proof (induction ls)
  case (Cons m ls)
  have "set (insert_line l ls) = insert l (set ls)" by (induction ls) auto
  moreover have "\<not> xlines_by_name l m" if "xlines_by_name m l"
    using that text_less_antisym by (auto simp: xlines_by_name_def)
  moreover have "\<not> xlines_by_name x l" if "\<not> xlines_by_name m l" "\<not> xlines_by_name x m" for x
    using that text_less_trans by (auto simp: xlines_by_name_def)
  ultimately show ?case using Cons by auto
qed simp

lemma insertion_sorts_lines: "sorts_lines (\<lambda>ls :: 'd xline list. foldr insert_line ls [])"
proof -
  have "mset (foldr insert_line ls []) = mset ls \<and> sorted_wrt (\<lambda>a b. \<not> xlines_by_name b a) (foldr insert_line ls [])" for ls :: "'d xline list"
    by (induction ls) (simp_all add: insert_line_mset insert_line_sorted)
  then show ?thesis by (simp add: sorts_lines_def)
qed

definition scope_acts :: "trace_action list" where
  "scope_acts = [Scope_end 3 (''load'', 12) 14, Scope_end 7 (''idle'', 11) 15, Scope_end 3 (''step'', 11) 20, Exit_thread 7]"

definition scope_forest :: "nat \<Rightarrow> scope list" where
  "scope_forest k = (if k = 3 then [Scope ''step'' 11 20 [Scope ''load'' 12 14 []]] else if k = 7 then [Scope ''idle'' 11 15 []] else [])"

definition started_host :: host_tracer where
  "started_host = \<lparr>ht_level = 2, ht_filter = 1, ht_recording = True, ht_start_ns = 10, ht_events = []\<rparr>"

definition started_tracing :: tracing where
  "started_tracing = \<lparr>tr_level = 2, tr_filter = 1, tr_recorders = [], tr_recording = True, tr_exited = []\<rparr>"

lemma scope_start: "host_start 2 10 (new_host_tracer 2 1, new_tracing) = Some (True, started_host, started_tracing)"
  by (simp add: host_start_def new_host_tracer_def start_def clear_def new_tracing_def StartRecording_def started_host_def started_tracing_def Let_def)

definition scope_log :: "(nat \<times> trace_event) list" where
  "scope_log = [(3, \<lparr>ev_name = ''load'', ev_start = 12, ev_end = 14\<rparr>), (7, \<lparr>ev_name = ''idle'', ev_start = 11, ev_end = 15\<rparr>),
     (3, \<lparr>ev_name = ''step'', ev_start = 11, ev_end = 20\<rparr>)]"

lemma scope_log: "trace_log 2 Suc scope_acts (started_tracing, new_ids) = scope_log"
  by code_simp

lemma two_elements: "distinct ks \<Longrightarrow> set ks = {a, b} \<Longrightarrow> a \<noteq> b \<Longrightarrow> ks = [a, b] \<or> ks = [b, a]"
proof -
  assume h: "distinct ks" "set ks = {a, b}" "a \<noteq> b"
  then have "length ks = Suc (Suc 0)" using distinct_card [OF h(1)] by simp
  then obtain x y where "ks = [x, y]" by (auto simp: length_Suc_conv)
  then show ?thesis using h(2) by (auto simp: doubleton_eq_iff)
qed


end
