(* ===== verification/Hash_Policy.thy ===== *)
theory Hash_Policy
  imports Prelude
begin

unbundle bit_operations_syntax

text \<open>
  The arithmetic of \<open>flat_hash.h\<close> on 64-bit words: \<open>log2\<close> and \<open>next_power_of_two\<close> without a loop, and the
  policies that turn a hash into the index of a slot.
\<close>

section \<open>Operations\<close>

text \<open>The assignments \<open>value |= value >> s\<close> that both functions have.\<close>

definition smear_step :: "nat \<Rightarrow> u64 \<Rightarrow> u64" where
  "smear_step s v = v OR drop_bit s v"

definition smear :: "u64 \<Rightarrow> u64" where
  "smear v = smear_step 32 (smear_step 16 (smear_step 8 (smear_step 4 (smear_step 2 (smear_step 1 v)))))"

definition log2_table :: "nat list" where
  "log2_table =
     [63, 0, 58, 1, 59, 47, 53, 2, 60, 39, 48, 27, 54, 33, 42, 3, 61, 51, 37, 40, 49, 18,
      28, 20, 55, 30, 34, 11, 43, 14, 22, 4, 62, 57, 46, 52, 38, 26, 32, 41, 50, 36, 17, 19,
      29, 10, 13, 21, 56, 45, 25, 31, 35, 16, 9, 12, 44, 24, 15, 8, 23, 7, 6, 5]"

definition log2 :: "u64 \<Rightarrow> nat" where
  "log2 value = (let v = smear value in log2_table ! unat (drop_bit 58 ((v - drop_bit 1 v) * 0x07EDD5E59A4E28C2)))"

definition next_power_of_two :: "u64 \<Rightarrow> u64" where
  "next_power_of_two i = smear (i - 1) + 1"

text \<open>The state of the default policy is its shift.\<close>

definition fibonacci_index_for_hash :: "nat \<Rightarrow> u64 \<Rightarrow> u64" where
  "fibonacci_index_for_hash shift hash = drop_bit shift (11400714819323198485 * hash)"

definition fibonacci_next_size_over :: "u64 \<Rightarrow> u64 \<times> nat" where
  "fibonacci_next_size_over size0 = (let size = max 2 (next_power_of_two size0) in (size, 64 - log2 size))"

definition power_of_two_index_for_hash :: "u64 \<Rightarrow> u64 \<Rightarrow> u64" where
  "power_of_two_index_for_hash hash num_slots_minus_one = hash AND num_slots_minus_one"

section \<open>The highest bit\<close>

lemma bit_smear_step: "bit (smear_step s v) n \<longleftrightarrow> bit v n \<or> bit v (n + s)"
  by (simp add: smear_step_def bit_or_iff bit_drop_bit_eq add.commute)

lemma smear_double:
  assumes "\<And>n. bit w n \<longleftrightarrow> (\<exists>i< s. bit v (n + i))"
  shows "bit (smear_step s w) n \<longleftrightarrow> (\<exists>i<2 * s. bit (v :: u64) (n + i))"
proof -
  have "(\<exists>i<2 * s. bit v (n + i)) \<longleftrightarrow> (\<exists>i< s. bit v (n + i)) \<or> (\<exists>i< s. bit v (n + s + i))" (is "?l \<longleftrightarrow> ?r1 \<or> ?r2")
  proof (intro iffI)
    assume ?l
    then obtain i where i: "i < 2 * s" "bit v (n + i)" by blast
    show "?r1 \<or> ?r2"
    proof (cases "i < s")
      case False
      then have "bit v (n + s + (i - s))" "i - s < s" using i by simp_all
      then show ?thesis by blast
    qed (use i in blast)
  next
    assume "?r1 \<or> ?r2"
    then obtain i where "i < 2 * s" "bit v (n + i)"
    proof (elim disjE exE conjE)
      fix i assume i: "i < s" "bit v (n + i)" and t: "\<And>i. i < 2 * s \<Longrightarrow> bit v (n + i) \<Longrightarrow> thesis"
      show thesis by (rule t [of i]) (use i in simp_all)
    next
      fix i assume i: "i < s" "bit v (n + s + i)" and t: "\<And>i. i < 2 * s \<Longrightarrow> bit v (n + i) \<Longrightarrow> thesis"
      show thesis by (rule t [of "s + i"]) (use i in \<open>simp_all add: add.assoc\<close>)
    qed
    then show ?l by blast
  qed
  then show ?thesis by (simp add: bit_smear_step assms)
qed

lemma bit_smear: "bit (smear v) n \<longleftrightarrow> (\<exists>m\<ge>n. bit v m)"
proof -
  have "bit v n \<longleftrightarrow> (\<exists>i<1. bit v (n + i))" for n by simp
  note s1 = smear_double [OF this]
  note s2 = smear_double [OF s1]
  note s3 = smear_double [OF s2]
  note s4 = smear_double [OF s3]
  note s5 = smear_double [OF s4]
  note s6 = smear_double [OF s5]
  have "bit (smear v) n \<longleftrightarrow> (\<exists>i<64. bit v (n + i))" using s6 [of n] by (simp add: smear_def)
  also have "\<dots> \<longleftrightarrow> (\<exists>m\<ge>n. bit v m)"
  proof
    assume "\<exists>m\<ge>n. bit v m"
    then obtain m where m: "n \<le> m" "bit v m" by blast
    then have "m < 64" using bit_imp_le_length [of v m] by simp
    then show "\<exists>i<64. bit v (n + i)" using m by (intro exI [of _ "m - n"]) simp
  next
    assume "\<exists>i<64. bit v (n + i)"
    then show "\<exists>m\<ge>n. bit v m" using le_add1 by blast
  qed
  finally show ?thesis .
qed

lemma highest_bit:
  assumes "(v :: u64) \<noteq> 0"
  shows "\<exists>k<64. bit v k \<and> (\<forall>m>k. \<not> bit v m)"
proof -
  let ?S = "{n. bit v n}"
  have "\<exists>n. bit v n"
  proof (rule ccontr)
    assume "\<nexists>n. bit v n"
    then have "v = 0" by (intro bit_eqI) simp
    then show False using assms by simp
  qed
  moreover have "?S \<subseteq> {..<64}" using bit_imp_le_length [of v] by auto
  then have fin: "finite ?S" by (rule finite_subset) simp
  ultimately have m: "bit v (Max ?S)" using Max_in [OF fin] by auto
  then have "Max ?S < 64" using bit_imp_le_length [of v] by fastforce
  moreover have "\<forall>n>Max ?S. \<not> bit v n" using Max_ge [OF fin] by (meson leD mem_Collect_eq)
  ultimately show ?thesis using m by blast
qed

lemma highest_bit_bounds:
  assumes "bit (v :: u64) k" "\<forall>m>k. \<not> bit v m"
  shows "2 ^ k \<le> unat v" "unat v < 2 ^ (k + 1)"
proof -
  have b: "bit (unat v) n \<longleftrightarrow> bit v n" for n by (simp add: bit_unsigned_iff)
  have "take_bit (Suc k) (unat v) = unat v"
    by (rule bit_eqI) (use assms(2) in \<open>auto simp: bit_take_bit_iff b less_Suc_eq_le not_le [symmetric]\<close>)
  then show "unat v < 2 ^ (k + 1)" by (metis take_bit_nat_less_exp Suc_eq_plus1)
  show "2 ^ k \<le> unat v"
  proof (rule ccontr)
    assume "\<not> 2 ^ k \<le> unat v"
    then have "unat v div 2 ^ k = 0" by simp
    then show False using assms(1) b [of k] by (simp add: bit_iff_odd)
  qed
qed

lemma smear_mask:
  assumes "bit (v :: u64) k" "\<forall>m>k. \<not> bit v m"
  shows "smear v = Bit_Operations.mask (Suc k)"
proof (rule bit_eqI)
  fix n assume "possible_bit TYPE(64 word) n"
  then have n: "n < 64" by simp
  have "(\<exists>m\<ge>n. bit v m) \<longleftrightarrow> n \<le> k" using assms by (meson le_trans not_le)
  then show "bit (smear v) n \<longleftrightarrow> bit (Bit_Operations.mask (Suc k) :: u64) n"
    using n by (auto simp: bit_smear bit_mask_iff)
qed

lemma log2_table_entries: "\<forall>k\<in>set [0..<64]. log2_table ! unat (drop_bit 58 (push_bit k 1 * 0x07EDD5E59A4E28C2 :: u64)) = k"
  by code_simp

lemma mask_halves: "k < 64 \<Longrightarrow> Bit_Operations.mask (Suc k) - drop_bit 1 (Bit_Operations.mask (Suc k)) = (push_bit k 1 :: u64)"
proof -
  assume k: "k < 64"
  have "drop_bit 1 (Bit_Operations.mask (Suc k) :: u64) = Bit_Operations.mask k"
    by (rule bit_eqI) (use k in \<open>auto simp: bit_simps\<close>)
  then show ?thesis by (simp add: mask_Suc_exp mask_eq_exp_minus_1 push_bit_of_1)
qed

text \<open>\<open>log2\<close> is the position of the highest bit; zero has none, and the table gives 63 for it.\<close>

lemma log2_bounds:
  assumes "v \<noteq> 0"
  shows "2 ^ log2 v \<le> unat v \<and> unat v < 2 ^ (log2 v + 1) \<and> log2 v < 64"
proof -
  obtain k where k: "k < 64" "bit v k" "\<forall>m>k. \<not> bit v m" using highest_bit [OF assms] by blast
  have "log2 v = log2_table ! unat (drop_bit 58 (push_bit k 1 * 0x07EDD5E59A4E28C2 :: u64))"
    unfolding log2_def Let_def smear_mask [OF k(2,3)] mask_halves [OF k(1)] ..
  then have "log2 v = k" using log2_table_entries k(1) by simp
  then show ?thesis using highest_bit_bounds [OF k(2,3)] k(1) by simp
qed

lemma log2_unique: "2 ^ k \<le> unat v \<Longrightarrow> unat v < 2 ^ (k + 1) \<Longrightarrow> log2 v = k"
proof -
  assume h: "2 ^ k \<le> unat v" "unat v < 2 ^ (k + 1)"
  then have "v \<noteq> 0" by auto
  note b = log2_bounds [OF this]
  have "k < log2 v + 1" "log2 v < k + 1"
    using h b power_strict_increasing_iff [of "2 :: nat"] by (meson le_less_trans one_less_numeral_iff semiring_norm(76))+
  then show ?thesis by simp
qed

lemma unat_exp: "k < 64 \<Longrightarrow> unat (2 ^ k :: u64) = 2 ^ k"
proof -
  assume k: "k < 64"
  have "(2 ^ k :: u64) = word_of_nat (2 ^ k)" by simp
  moreover have "unat (word_of_nat (2 ^ k) :: u64) = 2 ^ k" using k by (simp only: unsigned_of_nat) (simp add: take_bit_nat_eq_self)
  ultimately show ?thesis by metis
qed

text \<open>\<open>next_power_of_two\<close> is the least power of two that is not below its argument, up to \<open>2^63\<close>.\<close>

lemma next_power_of_two_least:
  assumes "1 \<le> unat i" "unat i \<le> 2 ^ 63"
  shows "\<exists>m\<le>63. unat (next_power_of_two i) = 2 ^ m \<and> unat i \<le> 2 ^ m \<and> (0 < m \<longrightarrow> 2 ^ (m - 1) < unat i)"
proof (cases "i = 1")
  case True
  have "smear (0 :: u64) = 0" by (rule bit_eqI) (simp add: bit_smear)
  then show ?thesis using True by (intro exI [of _ 0]) (simp add: next_power_of_two_def)
next
  case False
  let ?v = "i - 1"
  have i: "unat ?v = unat i - 1" using assms(1) by (simp add: unat_sub word_le_nat_alt)
  have "?v \<noteq> 0" using False by simp
  then obtain k where k: "k < 64" "bit ?v k" "\<forall>m>k. \<not> bit ?v m" using highest_bit by blast
  note b = highest_bit_bounds [OF k(2,3)]
  have "(2 :: nat) ^ k < 2 ^ 63" using b(1) i assms by linarith
  then have k62: "k < 63" by (rule power_less_imp_less_exp [rotated]) simp
  have "smear ?v + 1 = push_bit (Suc k) 1" unfolding smear_mask [OF k(2,3)] by (simp add: mask_eq_exp_minus_1 push_bit_of_1)
  then have "unat (next_power_of_two i) = 2 ^ Suc k"
    unfolding next_power_of_two_def push_bit_of_1 by (rule ssubst) (rule unat_exp, use k62 in simp)
  then show ?thesis using b i assms(1) k62 by (intro exI [of _ "Suc k"]) (auto simp: not_less)
qed

section \<open>Indices\<close>

lemma fibonacci_size:
  assumes "unat size0 \<le> 2 ^ 63" "fibonacci_next_size_over size0 = (sz, shift)" "1 \<le> unat size0"
  shows "\<exists>m. 1 \<le> m \<and> m \<le> 63 \<and> unat sz = 2 ^ m \<and> shift = 64 - m \<and> unat size0 \<le> 2 ^ m \<and> (1 < m \<longrightarrow> 2 ^ (m - 1) < unat size0)"
proof -
  obtain m where m: "m \<le> 63" "unat (next_power_of_two size0) = 2 ^ m" "unat size0 \<le> 2 ^ m" "0 < m \<longrightarrow> 2 ^ (m - 1) < unat size0"
    using next_power_of_two_least assms(1,3) by blast
  have s: "sz = max 2 (next_power_of_two size0)" "shift = 64 - log2 sz" using assms(2) by (auto simp: fibonacci_next_size_over_def Let_def)
  show ?thesis
  proof (cases "m = 0")
    case True
    then have "sz = 2" using s(1) m(2) by (simp add: max_def word_le_nat_alt)
    moreover have "log2 2 = 1" by (rule log2_unique) simp_all
    ultimately show ?thesis using s(2) m(3) True by (intro exI [of _ 1]) auto
  next
    case False
    then have "(2 :: nat) ^ 1 \<le> 2 ^ m" by (intro power_increasing) simp_all
    then have "sz = next_power_of_two size0" using s(1) m(2) by (simp add: max_def word_le_nat_alt)
    moreover from this have "log2 sz = m" using m(2) by (intro log2_unique) simp_all
    ultimately show ?thesis using s(2) m False by (intro exI [of _ m]) simp
  qed
qed

lemma drop_bit_bound: "m \<le> 64 \<Longrightarrow> unat (drop_bit (64 - m) (w :: u64)) < 2 ^ m"
proof -
  assume m: "m \<le> 64"
  have "unat w < 2 ^ (64 - m) * 2 ^ m" using unsigned_less [of w] m by (simp add: power_add [symmetric])
  then have "drop_bit (64 - m) (unat w) < 2 ^ m" by (simp add: drop_bit_eq_div less_mult_imp_div_less mult.commute)
  then show ?thesis by (simp only: unat_drop_bit_eq)
qed

lemma fibonacci_index_bound: "m \<le> 64 \<Longrightarrow> unat (fibonacci_index_for_hash (64 - m) hash) < 2 ^ m"
  unfolding fibonacci_index_for_hash_def by (rule drop_bit_bound)

lemma power_of_two_index_bound: "power_of_two_index_for_hash hash m \<le> m"
  by (simp add: power_of_two_index_for_hash_def word_and_le1)

end
