(* ===== verification/Flat_Hash.thy ===== *)
theory Flat_Hash
  imports Hash_Policy
begin

text \<open>
  \<open>flat_hash.h\<close>: the table of \<open>flat_hash_map\<close> with its default policy and load factor. An entry stores how far it is
  from the slot its hash names; a new entry takes the place of one that is nearer to its own slot. The
  allocator is an argument: \<open>alloc n\<close> tells whether it has room for \<open>n\<close> entries, otherwise it throws.
\<close>

section \<open>The table\<close>

text \<open>The last cell is special: it ends every loop over the cells, as its distance is zero.\<close>

datatype 'a cell = Empty | Full nat 'a | Special

fun distance :: "'a cell \<Rightarrow> int" where
  "distance Empty = -1"
| "distance (Full d x) = int d"
| "distance Special = 0"

record ('k, 'v) table =
  tb_entries :: "('k \<times> 'v) cell list"
  tb_slots_minus_one :: nat
  tb_shift :: nat
  tb_max_lookups :: nat
  tb_num_elements :: nat

definition min_lookups :: nat where
  "min_lookups = 4"

definition new_cells :: "nat \<Rightarrow> 'a cell list" where
  "new_cells n = replicate n Empty @ [Special]"

definition empty_table :: "('k, 'v) table" where
  "empty_table =
     \<lparr>tb_entries = new_cells (min_lookups - 1), tb_slots_minus_one = 0, tb_shift = 63, tb_max_lookups = min_lookups - 1, tb_num_elements = 0\<rparr>"

definition bucket_count :: "('k, 'v) table \<Rightarrow> nat" where
  "bucket_count t = (if tb_slots_minus_one t \<noteq> 0 then tb_slots_minus_one t + 1 else 0)"

definition index_for_key :: "('k \<Rightarrow> u64) \<Rightarrow> ('k, 'v) table \<Rightarrow> 'k \<Rightarrow> nat" where
  "index_for_key hash t k = unat (fibonacci_index_for_hash (tb_shift t) (hash k))"

definition cell_values :: "'a cell \<Rightarrow> 'a list" where
  "cell_values c = (case c of Full d x \<Rightarrow> [x] | _ \<Rightarrow> [])"

text \<open>The values in the order of iteration.\<close>

definition contents :: "'a cell list \<Rightarrow> 'a list" where
  "contents es = concat (map cell_values es)"

text \<open>
  A call ends normally, throws \<open>bad_alloc\<close>, or has undefined behaviour; \<open>No_fuel\<close> is a call that has not ended
  within the fuel it was given.
\<close>

datatype ('r, 't) outcome = Done 'r 't | Throws 't | Undefined | No_fuel

section \<open>Searching\<close>

text \<open>
  The loop of \<open>find\<close> and \<open>emplace\<close>: whether the key was found, and the cell and the distance at which the loop
  ended; \<open>None\<close> when it reads a cell that is not there or has no value.
\<close>

function search :: "('k \<times> 'v) cell list \<Rightarrow> 'k \<Rightarrow> nat \<Rightarrow> nat \<Rightarrow> (bool \<times> nat \<times> nat) option" where
  "search es k i d =
     (if i < length es
      then (if int d \<le> distance (es ! i)
            then (case es ! i of
                    Full d' kv \<Rightarrow> (if fst kv = k then Some (True, i, d) else search es k (i + 1) (d + 1))
                  | _ \<Rightarrow> None)
            else Some (False, i, d))
      else None)"
  by pat_completeness auto
termination by (relation "measure (\<lambda>(es, k, i, d). length es - i)") auto

declare search.simps [simp del]

definition find_key :: "('k \<Rightarrow> u64) \<Rightarrow> 'k \<Rightarrow> ('k, 'v) table \<Rightarrow> nat option option" where
  "find_key hash k t =
     map_option (\<lambda>(found, i, d). if found then Some i else None) (search (tb_entries t) k (index_for_key hash t k) 0)"

section \<open>Insertion\<close>

text \<open>
  The loop of \<open>emplace_new_key\<close>: the entry \<open>x\<close> with distance \<open>d\<close> has no place yet. The second component of the
  result is an entry for which the loop found none.
\<close>

function displace :: "nat \<Rightarrow> 'a cell list \<Rightarrow> nat \<Rightarrow> nat \<Rightarrow> 'a \<Rightarrow> ('a cell list \<times> 'a option) option" where
  "displace ml es i d x =
     (if i < length es
      then (if es ! i = Empty then Some (es[i := Full d x], None)
            else if distance (es ! i) < int d
            then (case es ! i of
                    Full d' y \<Rightarrow> displace ml (es[i := Full d x]) (i + 1) (d' + 1) y
                  | _ \<Rightarrow> None)
            else if d + 1 = ml then Some (es, Some x)
            else displace ml es (i + 1) (d + 1) x)
      else None)"
  by pat_completeness auto
termination by (relation "measure (\<lambda>(ml, es, i, d, x). length es - i)") auto

declare displace.simps [simp del]

definition place :: "nat \<Rightarrow> 'a cell list \<Rightarrow> nat \<Rightarrow> nat \<Rightarrow> 'a \<Rightarrow> ('a cell list \<times> 'a option) option" where
  "place ml es i d x =
     (case es ! i of
        Empty \<Rightarrow> Some (es[i := Full d x], None)
      | Full d' y \<Rightarrow>
          (case displace ml (es[i := Full d x]) (i + 1) (d' + 1) y of
             Some (es1, Some z) \<Rightarrow> (case es1 ! i of Full d1 w \<Rightarrow> Some (es1[i := Full d1 z], Some w) | _ \<Rightarrow> None)
           | r \<Rightarrow> r)
      | Special \<Rightarrow> None)"

text \<open>\<open>rehash\<close> inserts the old values into new cells with \<open>emplace\<close>, which is \<open>em\<close> here.\<close>

type_synonym ('k, 'v) emplacer = "'k \<times> 'v \<Rightarrow> ('k, 'v) table \<Rightarrow> (nat \<times> bool, ('k, 'v) table) outcome"

fun reinsert :: "('k, 'v) emplacer \<Rightarrow> ('k \<times> 'v) list \<Rightarrow> ('k, 'v) table \<Rightarrow> (unit, ('k, 'v) table) outcome" where
  "reinsert em [] t = Done () t"
| "reinsert em (kv # kvs) t =
     (case em kv t of Done r t1 \<Rightarrow> reinsert em kvs t1 | Throws t1 \<Rightarrow> Throws t1 | Undefined \<Rightarrow> Undefined | No_fuel \<Rightarrow> No_fuel)"

definition new_table :: "nat \<Rightarrow> nat \<Rightarrow> nat \<Rightarrow> ('k, 'v) table" where
  "new_table slots shift ml =
     \<lparr>tb_entries = new_cells (slots + ml - 1), tb_slots_minus_one = slots - 1, tb_shift = shift, tb_max_lookups = ml, tb_num_elements = 0\<rparr>"

definition rehash_with :: "(nat \<Rightarrow> bool) \<Rightarrow> ('k, 'v) emplacer \<Rightarrow> nat \<Rightarrow> ('k, 'v) table \<Rightarrow> (unit, ('k, 'v) table) outcome" where
  "rehash_with alloc em num_buckets t =
     (let n = max num_buckets (2 * tb_num_elements t)
      in if n = 0 then (if alloc min_lookups then Done () empty_table else Throws (t\<lparr>tb_entries := []\<rparr>))
         else (let (sz, shift) = fibonacci_next_size_over (word_of_nat n); slots = unat sz; ml = max min_lookups (log2 sz)
               in if slots = bucket_count t then Done () t
                  else if \<not> alloc (slots + ml) then Throws t
                  else reinsert em (contents (tb_entries t)) (new_table slots shift ml)))"

definition grow :: "(nat \<Rightarrow> bool) \<Rightarrow> ('k, 'v) emplacer \<Rightarrow> ('k, 'v) table \<Rightarrow> (unit, ('k, 'v) table) outcome" where
  "grow alloc em t = rehash_with alloc em (max 4 (2 * bucket_count t)) t"

definition grow_and_retry :: "(nat \<Rightarrow> bool) \<Rightarrow> ('k, 'v) emplacer \<Rightarrow> ('k, 'v) emplacer" where
  "grow_and_retry alloc em kv t =
     (case grow alloc em t of
        Done r t1 \<Rightarrow> em kv t1 | Throws t1 \<Rightarrow> Throws t1 | Undefined \<Rightarrow> Undefined | No_fuel \<Rightarrow> No_fuel)"

definition emplace_new_key :: "(nat \<Rightarrow> bool) \<Rightarrow> ('k, 'v) emplacer \<Rightarrow> nat \<Rightarrow> nat \<Rightarrow> ('k, 'v) emplacer" where
  "emplace_new_key alloc em i d kv t =
     (if tb_slots_minus_one t = 0 \<or> d = tb_max_lookups t \<or> 2 * (tb_num_elements t + 1) > tb_slots_minus_one t + 1
      then grow_and_retry alloc em kv t
      else
        (case place (tb_max_lookups t) (tb_entries t) i d kv of
           None \<Rightarrow> Undefined
         | Some (es, None) \<Rightarrow> Done (i, True) (t\<lparr>tb_entries := es, tb_num_elements := tb_num_elements t + 1\<rparr>)
         | Some (es, Some w) \<Rightarrow> grow_and_retry alloc em w (t\<lparr>tb_entries := es\<rparr>)))"

primrec emplace :: "('k \<Rightarrow> u64) \<Rightarrow> (nat \<Rightarrow> bool) \<Rightarrow> nat \<Rightarrow> ('k, 'v) emplacer" where
  "emplace hash alloc 0 = (\<lambda>kv t. No_fuel)"
| "emplace hash alloc (Suc n) = (\<lambda>kv t.
     case search (tb_entries t) (fst kv) (index_for_key hash t (fst kv)) 0 of
       None \<Rightarrow> Undefined
     | Some (True, i, d) \<Rightarrow> Done (i, False) t
     | Some (False, i, d) \<Rightarrow> emplace_new_key alloc (emplace hash alloc n) i d kv t)"

section \<open>The other operations\<close>

definition rehash :: "('k \<Rightarrow> u64) \<Rightarrow> (nat \<Rightarrow> bool) \<Rightarrow> nat \<Rightarrow> nat \<Rightarrow> ('k, 'v) table \<Rightarrow> (unit, ('k, 'v) table) outcome" where
  "rehash hash alloc fuel = rehash_with alloc (emplace hash alloc fuel)"

definition reserve :: "('k \<Rightarrow> u64) \<Rightarrow> (nat \<Rightarrow> bool) \<Rightarrow> nat \<Rightarrow> nat \<Rightarrow> ('k, 'v) table \<Rightarrow> (unit, ('k, 'v) table) outcome" where
  "reserve hash alloc fuel n t = (if 2 * n > bucket_count t then rehash hash alloc fuel (2 * n) t else Done () t)"

definition shrink_to_fit :: "('k \<Rightarrow> u64) \<Rightarrow> (nat \<Rightarrow> bool) \<Rightarrow> nat \<Rightarrow> ('k, 'v) table \<Rightarrow> (unit, ('k, 'v) table) outcome" where
  "shrink_to_fit hash alloc fuel t = rehash hash alloc fuel (min (2 * tb_num_elements t) (bucket_count t)) t"

text \<open>\<open>erase\<close> moves the entries after the hole back by one cell.\<close>

function shift_back :: "'a cell list \<Rightarrow> nat \<Rightarrow> 'a cell list option" where
  "shift_back es i =
     (if i + 1 < length es
      then (case es ! (i + 1) of
              Full (Suc d) x \<Rightarrow> shift_back (es[i := Full d x, i + 1 := Empty]) (i + 1)
            | _ \<Rightarrow> Some es)
      else None)"
  by pat_completeness auto
termination by (relation "measure (\<lambda>(es, i). length es - i)") auto

declare shift_back.simps [simp del]

definition erase_at :: "nat \<Rightarrow> ('k, 'v) table \<Rightarrow> ('k, 'v) table option" where
  "erase_at i t =
     map_option (\<lambda>es. t\<lparr>tb_entries := es, tb_num_elements := tb_num_elements t - 1\<rparr>) (shift_back ((tb_entries t)[i := Empty]) i)"

definition erase_key :: "('k \<Rightarrow> u64) \<Rightarrow> 'k \<Rightarrow> ('k, 'v) table \<Rightarrow> (nat \<times> ('k, 'v) table) option" where
  "erase_key hash k t =
     (case find_key hash k t of
        None \<Rightarrow> None
      | Some None \<Rightarrow> Some (0, t)
      | Some (Some i) \<Rightarrow> map_option (\<lambda>t1. (1, t1)) (erase_at i t))"

definition clear_table :: "('k, 'v) table \<Rightarrow> ('k, 'v) table" where
  "clear_table t = t\<lparr>tb_entries := map (\<lambda>c. case c of Full d x \<Rightarrow> Empty | _ \<Rightarrow> c) (tb_entries t), tb_num_elements := 0\<rparr>"

text \<open>Reading and writing the value an iterator points to; \<open>None\<close> when it points to no value.\<close>

definition value_at :: "nat \<Rightarrow> ('k, 'v) table \<Rightarrow> 'v option" where
  "value_at i t = (case tb_entries t ! i of Full d kv \<Rightarrow> if i < length (tb_entries t) then Some (snd kv) else None | _ \<Rightarrow> None)"

definition assign_at :: "nat \<Rightarrow> 'v \<Rightarrow> ('k, 'v) table \<Rightarrow> ('k, 'v) table" where
  "assign_at i v t =
     t\<lparr>tb_entries := (tb_entries t)[i := (case tb_entries t ! i of Full d kv \<Rightarrow> Full d (fst kv, v) | c \<Rightarrow> c)]\<rparr>"

definition insert_or_assign :: "('k \<Rightarrow> u64) \<Rightarrow> (nat \<Rightarrow> bool) \<Rightarrow> nat \<Rightarrow> ('k, 'v) emplacer" where
  "insert_or_assign hash alloc fuel kv t =
     (case emplace hash alloc fuel kv t of
        Done (i, inserted) t1 \<Rightarrow> Done (i, inserted) (if inserted then t1 else assign_at i (snd kv) t1)
      | r \<Rightarrow> r)"

text \<open>\<open>operator[]\<close> with the default value \<open>v0\<close>: the value that the reference it returns denotes.\<close>

definition subscript :: "('k \<Rightarrow> u64) \<Rightarrow> (nat \<Rightarrow> bool) \<Rightarrow> nat \<Rightarrow> 'v \<Rightarrow> 'k \<Rightarrow> ('k, 'v) table \<Rightarrow> ('v option, ('k, 'v) table) outcome" where
  "subscript hash alloc fuel v0 k t =
     (case emplace hash alloc fuel (k, v0) t of
        Done (i, inserted) t1 \<Rightarrow> Done (value_at i t1) t1 | Throws t1 \<Rightarrow> Throws t1 | Undefined \<Rightarrow> Undefined | No_fuel \<Rightarrow> No_fuel)"

text \<open>\<open>at\<close> dereferences what \<open>find\<close> returns; the end has no value.\<close>

definition at_key :: "('k \<Rightarrow> u64) \<Rightarrow> 'k \<Rightarrow> ('k, 'v) table \<Rightarrow> 'v option" where
  "at_key hash k t = (case find_key hash k t of Some (Some i) \<Rightarrow> value_at i t | _ \<Rightarrow> None)"

definition contains_key :: "('k \<Rightarrow> u64) \<Rightarrow> 'k \<Rightarrow> ('k, 'v) table \<Rightarrow> bool option" where
  "contains_key hash k t = map_option (\<lambda>r. r \<noteq> None) (find_key hash k t)"

text \<open>\<open>operator==\<close> of \<open>flat_hash_map\<close>.\<close>

fun all_found :: "('k \<Rightarrow> u64) \<Rightarrow> ('k \<times> 'v) list \<Rightarrow> ('k, 'v) table \<Rightarrow> bool option" where
  "all_found hash [] rhs = Some True"
| "all_found hash ((k, v) # kvs) rhs =
     (case find_key hash k rhs of
        None \<Rightarrow> None
      | Some None \<Rightarrow> Some False
      | Some (Some i) \<Rightarrow> (case value_at i rhs of None \<Rightarrow> None | Some w \<Rightarrow> if v = w then all_found hash kvs rhs else Some False))"

definition equal_tables :: "('k \<Rightarrow> u64) \<Rightarrow> ('k, 'v) table \<Rightarrow> ('k, 'v) table \<Rightarrow> bool option" where
  "equal_tables hash lhs rhs =
     (if tb_num_elements lhs \<noteq> tb_num_elements rhs then Some False else all_found hash (contents (tb_entries lhs)) rhs)"

end
