(* ===== verification/Flat_Hash_Cells.thy ===== *)
theory Flat_Hash_Cells
  imports Flat_Hash
begin

text \<open>
  The invariant of the cells of a hash table, and what searching, inserting and erasing do to them. \<open>idx\<close> is the
  slot of a key, \<open>s\<close> the last slot.
\<close>

section \<open>The values in the cells\<close>

lemma cell_values_simps [simp]: "cell_values Empty = []" "cell_values (Full d x) = [x]" "cell_values Special = []"
  by (simp_all add: cell_values_def)

lemma contents_Cons [simp]: "contents (c # es) = cell_values c @ contents es"
  by (simp add: contents_def)

lemma contents_append [simp]: "contents (es @ fs) = contents es @ contents fs"
  by (simp add: contents_def)

lemma contents_Nil [simp]: "contents [] = []"
  by (simp add: contents_def)

lemma contents_update:
  "i < length es \<Longrightarrow> mset (contents (es[i := c])) + mset (cell_values (es ! i)) = mset (contents es) + mset (cell_values c)"
proof -
  assume i: "i < length es"
  have "es = take i es @ es ! i # drop (Suc i) es" using i by (rule id_take_nth_drop)
  then have "mset (contents es) = mset (contents (take i es)) + mset (cell_values (es ! i)) + mset (contents (drop (Suc i) es))"
    by (metis contents_append contents_Cons mset_append add.assoc)
  moreover have "es[i := c] = take i es @ c # drop (Suc i) es" using i by (rule upd_conv_take_nth_drop)
  ultimately show ?thesis by (simp add: ac_simps)
qed

lemma contents_iff: "x \<in> set (contents es) \<longleftrightarrow> (\<exists>i d. i < length es \<and> es ! i = Full d x)"
proof
  assume "x \<in> set (contents es)"
  then obtain c where "c \<in> set es" and c: "x \<in> set (cell_values c)" by (auto simp: contents_def)
  have "\<exists>d. c = Full d x" using c by (cases c) auto
  then show "\<exists>i d. i < length es \<and> es ! i = Full d x" using \<open>c \<in> set es\<close> by (metis in_set_conv_nth)
next
  assume "\<exists>i d. i < length es \<and> es ! i = Full d x"
  then obtain i d where "i < length es" "es ! i = Full d x" by blast
  then have "Full d x \<in> set es" by (metis nth_mem)
  then show "x \<in> set (contents es)" by (force simp: contents_def)
qed

lemma contents_new_cells [simp]: "contents (new_cells n) = []"
  by (induction n) (simp_all add: new_cells_def)

section \<open>The invariant\<close>

definition cells_ok :: "('k \<Rightarrow> nat) \<Rightarrow> nat \<Rightarrow> nat \<Rightarrow> ('k \<times> 'v) cell list \<Rightarrow> bool" where
  "cells_ok idx s ml es \<longleftrightarrow> length es = s + ml + 1 \<and> es ! (s + ml) = Special \<and> 0 < ml \<and> (\<forall>k. idx k \<le> s) \<and>
     (\<forall>i < s + ml. es ! i \<noteq> Special) \<and>
     (\<forall>i d kv. i < s + ml \<longrightarrow> es ! i = Full d kv \<longrightarrow> i = idx (fst kv) + d \<and> d < ml) \<and>
     (\<forall>i. i + 1 < s + ml \<longrightarrow> distance (es ! (i + 1)) \<le> distance (es ! i) + 1)"

lemma cells_okD:
  assumes "cells_ok idx s ml es"
  shows "length es = s + ml + 1" "es ! (s + ml) = Special" "0 < ml" "idx k \<le> s" "i < s + ml \<Longrightarrow> es ! i \<noteq> Special"
    "i < s + ml \<Longrightarrow> es ! i = Full d kv \<Longrightarrow> i = idx (fst kv) + d" "i < s + ml \<Longrightarrow> es ! i = Full d kv \<Longrightarrow> d < ml"
    "i + 1 < s + ml \<Longrightarrow> distance (es ! (i + 1)) \<le> distance (es ! i) + 1"
  using assms unfolding cells_ok_def by blast+

lemma distance_bounds: "-1 \<le> distance c"
  by (cases c) auto

lemma distance_less:
  assumes "cells_ok idx s ml es" "i \<le> s + ml"
  shows "distance (es ! i) < int ml"
proof (cases "i = s + ml")
  case True
  then show ?thesis using cells_okD(2,3) [OF assms(1)] by simp
next
  case False
  then have "i < s + ml" using assms(2) by simp
  then show ?thesis using cells_okD(3,5,7) [OF assms(1)] by (cases "es ! i") auto
qed

lemma new_cells_ok:
  assumes "0 < ml" "\<And>k. idx k \<le> s"
  shows "cells_ok idx s ml (new_cells (s + ml))"
  using assms by (auto simp: cells_ok_def new_cells_def nth_append)

text \<open>Before an entry there are only entries that are as far from their slots.\<close>

lemma run_back:
  assumes "cells_ok idx s ml es" "i < s + ml" "es ! i = Full d kv" "j \<le> d"
  shows "int j \<le> distance (es ! (idx (fst kv) + j))"
proof -
  have i: "i = idx (fst kv) + d" using cells_okD(6) [OF assms(1-3)] .
  have "int (d - m) \<le> distance (es ! (i - m))" if "m \<le> d" for m
    using that
  proof (induction m)
    case 0
    then show ?case using assms(3) by simp
  next
    case (Suc m)
    have e: "i - Suc m + 1 = i - m" "i - m < s + ml" using Suc.prems i assms(2) by simp_all
    then have "distance (es ! (i - m)) \<le> distance (es ! (i - Suc m)) + 1" using cells_okD(8) [OF assms(1), of "i - Suc m"] by simp
    then show ?case using Suc by simp
  qed
  from this [of "d - j"] show ?thesis using assms(4) i by simp
qed

section \<open>Searching\<close>

lemma search_ok:
  assumes "cells_ok idx s ml es" "d \<le> ml" "\<forall>j<d. int j \<le> distance (es ! (idx k + j)) \<and> (\<forall>d' v. es ! (idx k + j) \<noteq> Full d' (k, v))"
  shows "\<exists>found d'. search es k (idx k + d) d = Some (found, idx k + d', d') \<and> d' \<le> ml \<and>
    (found \<longrightarrow> (\<exists>d'' v. es ! (idx k + d') = Full d'' (k, v)) \<and> idx k + d' < s + ml) \<and>
    (\<not> found \<longrightarrow> distance (es ! (idx k + d')) < int d' \<and>
       (\<forall>j<d'. int j \<le> distance (es ! (idx k + j)) \<and> (\<forall>d'' v. es ! (idx k + j) \<noteq> Full d'' (k, v))))"
  using assms(2,3)
proof (induction "ml - d" arbitrary: d)
  case 0
  then have d: "d = ml" by simp
  have i: "idx k + d \<le> s + ml" using cells_okD(4) [OF assms(1), of k] d by simp
  then have "distance (es ! (idx k + d)) < int d" "idx k + d < length es" using distance_less [OF assms(1) i] cells_okD(1) [OF assms(1)] d by simp_all
  then show ?case using 0 by (intro exI [of _ False] exI [of _ d]) (subst search.simps, simp)
next
  case (Suc m)
  have i: "idx k + d < s + ml" using cells_okD(4) [OF assms(1), of k] Suc.hyps(2) by simp
  have len: "idx k + d < length es" using i cells_okD(1) [OF assms(1)] by simp
  show ?case
  proof (cases "int d \<le> distance (es ! (idx k + d))")
    case False
    then show ?thesis using Suc.prems len by (intro exI [of _ False] exI [of _ d]) (subst search.simps, simp)
  next
    case True
    then obtain d' kv where c: "es ! (idx k + d) = Full d' kv" using cells_okD(5) [OF assms(1) i] by (cases "es ! (idx k + d)") auto
    show ?thesis
    proof (cases "fst kv = k")
      case True
      then show ?thesis using c len i Suc.prems(1) \<open>int d \<le> _\<close>
        by (intro exI [of _ True] exI [of _ d]) (subst search.simps, cases kv, simp)
    next
      case False
      have "\<forall>j<Suc d. int j \<le> distance (es ! (idx k + j)) \<and> (\<forall>d' v. es ! (idx k + j) \<noteq> Full d' (k, v))"
        using Suc.prems(2) True c False by (auto simp: less_Suc_eq)
      moreover have "search es k (idx k + d) d = search es k (idx k + Suc d) (Suc d)"
        using True c False len by (subst search.simps) simp
      ultimately show ?thesis using Suc.hyps(1) [of "Suc d"] Suc.hyps(2) by simp
    qed
  qed
qed

lemma search_from_slot:
  assumes "cells_ok idx s ml es"
  shows "\<exists>found d. search es k (idx k) 0 = Some (found, idx k + d, d) \<and> d \<le> ml \<and>
    (found \<longrightarrow> (\<exists>d' v. es ! (idx k + d) = Full d' (k, v)) \<and> idx k + d < s + ml) \<and>
    (\<not> found \<longrightarrow> distance (es ! (idx k + d)) < int d \<and> (\<forall>j<d. int j \<le> distance (es ! (idx k + j))) \<and> k \<notin> fst ` set (contents es))"
proof -
  obtain found d where r: "search es k (idx k) 0 = Some (found, idx k + d, d)" "d \<le> ml"
      "found \<longrightarrow> (\<exists>d' v. es ! (idx k + d) = Full d' (k, v)) \<and> idx k + d < s + ml"
      "\<not> found \<longrightarrow> distance (es ! (idx k + d)) < int d \<and> (\<forall>j<d. int j \<le> distance (es ! (idx k + j)) \<and> (\<forall>d' v. es ! (idx k + j) \<noteq> Full d' (k, v)))"
    using search_ok [OF assms, of 0 k] by auto
  have "k \<notin> fst ` set (contents es)" if n: "\<not> found"
  proof
    assume "k \<in> fst ` set (contents es)"
    then obtain v i d' where e: "i < length es" "es ! i = Full d' (k, v)" by (auto simp: contents_iff)
    have i: "i < s + ml" using e cells_okD(1,2) [OF assms] by (cases "i = s + ml") auto
    have p: "i = idx k + d'" using cells_okD(6) [OF assms i e(2)] by simp
    have "\<not> d' < d" using r(4) n e(2) p by blast
    then have "int d \<le> distance (es ! (idx k + d))" using run_back [OF assms i e(2), of d] by simp
    then show False using r(4) n by simp
  qed
  then show ?thesis using r by blast
qed

section \<open>Inserting\<close>

lemma put_ok:
  assumes "cells_ok idx s ml es" "i = idx (fst x) + d" "d < ml" "distance (es ! i) \<le> int d" "0 < d \<Longrightarrow> int d - 1 \<le> distance (es ! (i - 1))"
  shows "cells_ok idx s ml (es[i := Full d x])"
proof -
  have i: "i < s + ml" "i < length es" using cells_okD(1) [OF assms(1)] cells_okD(4) [OF assms(1), of "fst x"] assms(2,3) by auto
  have "distance (es[i := Full d x] ! (j + 1)) \<le> distance (es[i := Full d x] ! j) + 1" if j: "j + 1 < s + ml" for j
  proof (cases "j + 1 = i")
    case True
    then show ?thesis using assms(5) i distance_bounds [of "es ! j"] by (cases "d = 0") auto
  next
    case False
    have "distance (es ! (j + 1)) \<le> distance (es ! j) + 1" using cells_okD(8) [OF assms(1) j] .
    then show ?thesis using False assms(4) i by (cases "j = i") auto
  qed
  then show ?thesis using assms(1-3) i unfolding cells_ok_def by (auto simp: nth_list_update)
qed

lemma put_contents:
  assumes "i < length es" "es ! i = Full d' y"
  shows "mset (contents (es[i := Full d x])) + {#y#} = mset (contents es) + {#x#}"
  using contents_update [OF assms(1), of "Full d x"] assms(2) by simp

lemma put_empty_contents:
  assumes "i < length es" "es ! i = Empty"
  shows "mset (contents (es[i := Full d x])) = mset (contents es) + {#x#}"
  using contents_update [OF assms(1), of "Full d x"] assms(2) by simp

text \<open>What the loop leaves over, as a multiset.\<close>

fun left_over :: "'a option \<Rightarrow> 'a multiset" where
  "left_over None = {#}"
| "left_over (Some z) = {#z#}"

lemma displace_ok:
  assumes "cells_ok idx s ml es" "i = idx (fst x) + d" "d < ml" "0 < d" "int d - 1 \<le> distance (es ! (i - 1))"
  shows "\<exists>es' r. displace ml es i d x = Some (es', r) \<and> cells_ok idx s ml es' \<and> (\<forall>j<i. es' ! j = es ! j) \<and>
    mset (contents es') + left_over r = mset (contents es) + {#x#}"
  using assms
proof (induction ml es i d x rule: displace.induct)
  case (1 ml es i d x)
  note ok = 1(3) and i = 1(4) and d = 1(5,6) and prev = 1(7)
  have len: "i < s + ml" "i < length es" using cells_okD(1) [OF ok] cells_okD(4) [OF ok, of "fst x"] i d by auto
  have put: "cells_ok idx s ml (es[i := Full d x])" if "distance (es ! i) \<le> int d"
    using put_ok [OF ok i d(1) that] prev by simp
  consider (empty) "es ! i = Empty" | (nearer) d' y where "es ! i = Full d' y" "d' < d" | (further) d' y where "es ! i = Full d' y" "d \<le> d'"
  proof (cases "es ! i")
    case (Full d' y)
    then show thesis using that(2) [OF Full] that(3) [OF Full] by (cases "d' < d") auto
  qed (use cells_okD(5) [OF ok len(1)] that(1) in auto)
  then show ?case
  proof cases
    case empty
    then have "displace ml es i d x = Some (es[i := Full d x], None)" using len by (subst displace.simps) simp
    then show ?thesis using put empty put_empty_contents [OF len(2) empty] by simp
  next
    case nearer
    let ?es = "es[i := Full d x]"
    have step: "displace ml es i d x = displace ml ?es (i + 1) (d' + 1) y" using nearer len by (subst displace.simps) simp
    have y: "i + 1 = idx (fst y) + (d' + 1)" using cells_okD(6) [OF ok len(1) nearer(1)] by simp
    obtain es' r where r: "displace ml ?es (i + 1) (d' + 1) y = Some (es', r)" "cells_ok idx s ml es'" "\<forall>j<i + 1. es' ! j = ?es ! j"
        "mset (contents es') + left_over r = mset (contents ?es) + {#y#}"
      using 1(1) [OF len(2) _ _ nearer(1) put y] nearer d len by auto
    then show ?thesis using step put_contents [OF len(2) nearer(1)] by auto
  next
    case further
    show ?thesis
    proof (cases "d + 1 = ml")
      case True
      then have "displace ml es i d x = Some (es, Some x)" using further len by (subst displace.simps) simp
      then show ?thesis using ok by simp
    next
      case False
      have step: "displace ml es i d x = displace ml es (i + 1) (d + 1) x" using further False len by (subst displace.simps) simp
      obtain es' r where r: "displace ml es (i + 1) (d + 1) x = Some (es', r)" "cells_ok idx s ml es'" "\<forall>j<i + 1. es' ! j = es ! j"
          "mset (contents es') + left_over r = mset (contents es) + {#x#}"
        using 1(2) [OF len(2) _ _ False ok] i d False further by auto
      then show ?thesis using step by auto
    qed
  qed
qed

lemma place_ok:
  assumes "cells_ok idx s ml es" "i = idx (fst x) + d" "d < ml" "distance (es ! i) < int d" "\<forall>j<d. int j \<le> distance (es ! (idx (fst x) + j))"
  shows "\<exists>es'. (place ml es i d x = Some (es', None) \<and> cells_ok idx s ml es' \<and> mset (contents es') = mset (contents es) + {#x#} \<and> es' ! i = Full d x) \<or>
    (place ml es i d x = Some (es', Some x) \<and> mset (contents es') = mset (contents es))"
proof -
  have len: "i < s + ml" "i < length es" using cells_okD(1) [OF assms(1)] cells_okD(4) [OF assms(1), of "fst x"] assms(2,3) by auto
  have prev: "int d - 1 \<le> distance (es ! (i - 1))" if "0 < d" using assms(5) [rule_format, of "d - 1"] assms(2) that by simp
  have put: "cells_ok idx s ml (es[i := Full d x])" using put_ok [OF assms(1-3) _ prev] assms(4) by simp
  show ?thesis
  proof (cases "es ! i")
    case Empty
    then show ?thesis using put put_empty_contents [OF len(2) Empty] len by (simp add: place_def)
  next
    case (Full d' y)
    let ?es = "es[i := Full d x]"
    have y: "i + 1 = idx (fst y) + (d' + 1)" using cells_okD(6) [OF assms(1) len(1) Full] by simp
    obtain es' r where r: "displace ml ?es (i + 1) (d' + 1) y = Some (es', r)" "cells_ok idx s ml es'" "\<forall>j<i + 1. es' ! j = ?es ! j"
        "mset (contents es') + left_over r = mset (contents ?es) + {#y#}"
      using displace_ok [OF put y] assms(3,4) Full len by auto
    have e: "es' ! i = Full d x" "i < length es'" using r(2,3) len cells_okD(1) [OF r(2)] by auto
    have m: "mset (contents es') + left_over r = mset (contents es) + {#x#}" using r(4) put_contents [OF len(2) Full, of d x] by simp
    show ?thesis
    proof (cases r)
      case None
      then show ?thesis using Full r(1,2) e m by (simp add: place_def)
    next
      case (Some z)
      then have "place ml es i d x = Some (es'[i := Full d z], Some x)" using Full r(1) e by (simp add: place_def)
      moreover have "mset (contents (es'[i := Full d z])) = mset (contents es)" using put_contents [OF e(2,1), of d z] m Some by simp
      ultimately show ?thesis by blast
    qed
  qed (use cells_okD(5) [OF assms(1) len(1)] in simp)
qed

section \<open>Erasing\<close>

text \<open>While entries move back there is a hole at \<open>i\<close>; an entry of distance \<open>h\<close> was there.\<close>

definition hole_ok :: "('k \<Rightarrow> nat) \<Rightarrow> nat \<Rightarrow> nat \<Rightarrow> ('k \<times> 'v) cell list \<Rightarrow> nat \<Rightarrow> nat \<Rightarrow> bool" where
  "hole_ok idx s ml es i h \<longleftrightarrow> i < s + ml \<and> es ! i = Empty \<and> length es = s + ml + 1 \<and> es ! (s + ml) = Special \<and> 0 < ml \<and> (\<forall>k. idx k \<le> s) \<and>
     (\<forall>i < s + ml. es ! i \<noteq> Special) \<and>
     (\<forall>i d kv. i < s + ml \<longrightarrow> es ! i = Full d kv \<longrightarrow> i = idx (fst kv) + d \<and> d < ml) \<and>
     (\<forall>j. j + 1 < s + ml \<longrightarrow> j \<noteq> i \<longrightarrow> distance (es ! (j + 1)) \<le> distance (es ! j) + 1) \<and>
     (i + 1 < s + ml \<longrightarrow> distance (es ! (i + 1)) \<le> int h + 1) \<and> (0 < i \<longrightarrow> int h \<le> distance (es ! (i - 1)) + 1)"

lemma make_hole:
  assumes "cells_ok idx s ml es" "i < s + ml" "es ! i = Full h x"
  shows "hole_ok idx s ml (es[i := Empty]) i h"
proof -
  have d: "distance (es ! (j + 1)) \<le> distance (es ! j) + 1" if "j + 1 < s + ml" for j using cells_okD(8) [OF assms(1) that] .
  have "int h \<le> distance (es ! (i - 1)) + 1" if "0 < i" using d [of "i - 1"] assms(2,3) that by simp
  moreover have "distance (es ! (i + 1)) \<le> int h + 1" if "i + 1 < s + ml" using d [OF that] assms(3) by simp
  moreover have "distance (es[i := Empty] ! (j + 1)) \<le> distance (es[i := Empty] ! j) + 1" if "j + 1 < s + ml" "j \<noteq> i" for j
  proof (cases "j + 1 = i")
    case True
    then show ?thesis using distance_bounds [of "es ! j"] assms(2) cells_okD(1) [OF assms(1)] by simp
  next
    case False
    then show ?thesis using d [OF that(1)] that(2) by simp
  qed
  ultimately show ?thesis using assms(1,2) unfolding hole_ok_def cells_ok_def by (auto simp: nth_list_update)
qed

lemma move_back:
  assumes "hole_ok idx s ml es i h" "i + 1 < s + ml" "es ! (i + 1) = Full (Suc d) x"
  shows "hole_ok idx s ml (es[i := Full d x, i + 1 := Empty]) (i + 1) (Suc d)"
proof -
  let ?es = "es[i := Full d x, i + 1 := Empty]"
  have full: "\<And>i d kv. i < s + ml \<Longrightarrow> es ! i = Full d kv \<Longrightarrow> i = idx (fst kv) + d \<and> d < ml" using assms(1) unfolding hole_ok_def by blast
  have pos: "i + 1 = idx (fst x) + Suc d" "Suc d < ml" using full [OF assms(2,3)] by simp_all
  have len: "length es = s + ml + 1" and h: "int (Suc d) \<le> int h + 1"
    and prev: "0 < i \<Longrightarrow> int h \<le> distance (es ! (i - 1)) + 1"
    and dist: "\<And>j. j + 1 < s + ml \<Longrightarrow> j \<noteq> i \<Longrightarrow> distance (es ! (j + 1)) \<le> distance (es ! j) + 1"
    using assms unfolding hole_ok_def by auto
  have "distance (?es ! (j + 1)) \<le> distance (?es ! j) + 1" if j: "j + 1 < s + ml" "j \<noteq> i + 1" for j
  proof -
    consider "j = i" | "j + 1 = i" | "j \<noteq> i" "j + 1 \<noteq> i" by blast
    then show ?thesis
    proof cases
      case 1
      then show ?thesis using len j by simp
    next
      case 2
      then have "i - 1 = j" "0 < i" by auto
      then show ?thesis using len j prev h 2 by auto
    next
      case 3
      then show ?thesis using len j dist [of j] by simp
    qed
  qed
  moreover have "distance (?es ! (i + 1 + 1)) \<le> int (Suc d) + 1" if "i + 1 + 1 < s + ml"
    using dist [of "i + 1"] that assms(3) len by simp
  moreover have "int (Suc d) \<le> distance (?es ! (i + 1 - 1)) + 1" using len assms(2) by simp
  moreover have nth: "?es ! j = (if j = i + 1 then Empty else if j = i then Full d x else es ! j)" if "j \<le> s + ml" for j
    using len assms(2) that by (simp add: nth_list_update)
  have "?es ! j \<noteq> Special" if "j < s + ml" for j
    using assms(1) that nth [of j] by (simp add: hole_ok_def)
  moreover have "j = idx (fst kv) + d' \<and> d' < ml" if "j < s + ml" "?es ! j = Full d' kv" for j d' kv
    using full [of j d' kv] that nth [of j] pos by (auto split: if_splits)
  moreover have "?es ! (s + ml) = Special" "?es ! (i + 1) = Empty" "length ?es = s + ml + 1" "0 < ml" "\<forall>k. idx k \<le> s"
    using assms(1,2) len nth [of "s + ml"] by (simp_all add: hole_ok_def)
  ultimately show ?thesis using assms(2) unfolding hole_ok_def by blast
qed

lemma shift_back_ok:
  assumes "hole_ok idx s ml es i h"
  shows "\<exists>es'. shift_back es i = Some es' \<and> cells_ok idx s ml es' \<and> mset (contents es') = mset (contents es)"
  using assms
proof (induction es i arbitrary: h rule: shift_back.induct)
  case (1 es i)
  have i: "i + 1 < length es" using 1(2) by (simp add: hole_ok_def)
  show ?case
  proof (cases "\<exists>d x. es ! (i + 1) = Full (Suc d) x")
    case True
    then obtain d x where c: "es ! (i + 1) = Full (Suc d) x" by blast
    have i1: "i + 1 < s + ml" using 1(2) c i by (cases "i + 1 = s + ml") (auto simp: hole_ok_def)
    let ?es = "es[i := Full d x, i + 1 := Empty]"
    obtain es' where r: "shift_back ?es (i + 1) = Some es'" "cells_ok idx s ml es'" "mset (contents es') = mset (contents ?es)"
      using 1(1) [OF i c refl move_back [OF 1(2) i1 c]] by blast
    have "mset (contents ?es) + {#x#} = mset (contents (es[i := Full d x]))"
      using contents_update [of "i + 1" "es[i := Full d x]" Empty] i c by simp
    moreover have "mset (contents (es[i := Full d x])) = mset (contents es) + {#x#}"
      using put_empty_contents [of i es d x] i 1(2) by (simp add: hole_ok_def)
    ultimately show ?thesis using r c i by (subst shift_back.simps) simp
  next
    case False
    have d: "distance (es ! (i + 1)) \<le> 0"
    proof (cases "es ! (i + 1)")
      case (Full d x)
      then show ?thesis using False by (cases d) auto
    qed simp_all
    have "distance (es ! (j + 1)) \<le> distance (es ! j) + 1" if "j + 1 < s + ml" for j
      using 1(2) d that by (cases "j = i") (simp_all add: hole_ok_def)
    then have "cells_ok idx s ml es" using 1(2) unfolding hole_ok_def cells_ok_def by blast
    moreover have "shift_back es i = Some es"
    proof (cases "es ! (i + 1)")
      case (Full d x)
      then show ?thesis using False i by (subst shift_back.simps) (cases d, auto)
    qed (use i in \<open>subst shift_back.simps, simp\<close>)+
    ultimately show ?thesis by blast
  qed
qed

end
