(* ===== verification/Flat_Hash_Map.thy ===== *)
theory Flat_Hash_Map
  imports Flat_Hash_Cells
begin

text \<open>
  The hash table as a finite map: every operation keeps the invariant and does to the map what its name says,
  and ends, by an exception of the allocator at the worst, as the table doubles whenever an insertion starts over.
\<close>

section \<open>The invariant of a table\<close>

definition slot_of :: "('k \<Rightarrow> u64) \<Rightarrow> nat \<Rightarrow> 'k \<Rightarrow> nat" where
  "slot_of hash m k = unat (fibonacci_index_for_hash (64 - m) (hash k))"

text \<open>A table of \<open>2 ^ m\<close> slots.\<close>

definition sized :: "('k \<Rightarrow> u64) \<Rightarrow> nat \<Rightarrow> ('k, 'v) table \<Rightarrow> bool" where
  "sized hash m t \<longleftrightarrow> 1 \<le> m \<and> tb_slots_minus_one t = 2 ^ m - 1 \<and> tb_shift t = 64 - m \<and> tb_max_lookups t = max 4 m \<and>
     cells_ok (slot_of hash m) (2 ^ m - 1) (max 4 m) (tb_entries t)"

abbreviation items :: "('k, 'v) table \<Rightarrow> ('k \<times> 'v) list" where
  "items t \<equiv> contents (tb_entries t)"

text \<open>The part of the invariant that \<open>rehash\<close> needs, for a table of level \<open>L\<close>.\<close>

definition counts_ok :: "nat \<Rightarrow> ('k, 'v) table \<Rightarrow> bool" where
  "counts_ok L t \<longleftrightarrow> distinct (map fst (items t)) \<and> tb_num_elements t = length (items t) \<and> 2 * tb_num_elements t \<le> 2 ^ L \<and> L \<le> 59 \<and>
     bucket_count t = (if L = 0 then 0 else 2 ^ L)"

definition table_ok :: "('k \<Rightarrow> u64) \<Rightarrow> nat \<Rightarrow> ('k, 'v) table \<Rightarrow> bool" where
  "table_ok hash L t \<longleftrightarrow> counts_ok L t \<and> (if L = 0 then t = empty_table else sized hash L t)"

definition bounded :: "(nat \<Rightarrow> bool) \<Rightarrow> bool" where
  "bounded alloc \<longleftrightarrow> (\<forall>n. alloc n \<longrightarrow> n \<le> 2 ^ 60)"

lemma items_empty_table [simp]: "items empty_table = []"
  by (simp add: empty_table_def)

lemma new_map_ok: "table_ok hash 0 empty_table"
  by (simp add: table_ok_def counts_ok_def bucket_count_def empty_table_def)

lemma slot_bound: "m \<le> 59 \<Longrightarrow> slot_of hash m k \<le> 2 ^ m - 1"
  using fibonacci_index_bound [of m "hash k"] by (simp add: slot_of_def)

lemma new_table_ok:
  assumes "1 \<le> m" "m \<le> 59"
  shows "table_ok hash m (new_table (2 ^ m) (64 - m) (max 4 m))"
proof -
  have "2 ^ m + max 4 m - 1 = (2 ^ m - 1) + max 4 (m :: nat)" by simp
  moreover have "(2 :: nat) \<le> 2 ^ m" using assms(1) by (metis power_increasing power_one_right one_le_numeral)
  moreover have "cells_ok (slot_of hash m) (2 ^ m - 1) (max 4 m) (new_cells ((2 ^ m - 1) + max 4 m))"
    by (rule new_cells_ok) (simp, rule slot_bound [OF assms(2)])
  ultimately show ?thesis using assms by (simp add: table_ok_def counts_ok_def sized_def new_table_def bucket_count_def)
qed

section \<open>Insertion\<close>

text \<open>What a call of \<open>emplace\<close> may do; \<open>L\<close> bounds the level of the result from below.\<close>

definition emplaced :: "('k \<Rightarrow> u64) \<Rightarrow> nat \<Rightarrow> 'k \<times> 'v \<Rightarrow> ('k \<times> 'v) list \<Rightarrow> (nat \<times> bool, ('k, 'v) table) outcome \<Rightarrow> bool" where
  "emplaced hash L kv kvs r \<longleftrightarrow>
     (case r of
        Done (i, b) t \<Rightarrow> (\<exists>L'\<ge>L. table_ok hash L' t) \<and> (b \<longleftrightarrow> fst kv \<notin> fst ` set kvs) \<and>
          mset (items t) = mset kvs + (if b then {#kv#} else {#}) \<and> i < length (tb_entries t) \<and> (\<exists>d v. tb_entries t ! i = Full d (fst kv, v))
      | Throws t \<Rightarrow> True | Undefined \<Rightarrow> False | No_fuel \<Rightarrow> False)"

definition emplacer_ok :: "('k \<Rightarrow> u64) \<Rightarrow> nat \<Rightarrow> ('k, 'v) emplacer \<Rightarrow> bool" where
  "emplacer_ok hash L em \<longleftrightarrow> (\<forall>kv t L'. table_ok hash L' t \<longrightarrow> L \<le> L' \<longrightarrow> emplaced hash L' kv (items t) (em kv t))"

lemma emplaced_mono: "emplaced hash L kv kvs r \<Longrightarrow> L0 \<le> L \<Longrightarrow> emplaced hash L0 kv kvs r"
  unfolding emplaced_def by (cases r) (clarsimp, meson le_trans, simp_all)

lemma emplaced_mset: "mset kvs = mset kvs' \<Longrightarrow> emplaced hash L kv kvs r \<longleftrightarrow> emplaced hash L kv kvs' r"
  using mset_eq_setD [of kvs kvs'] by (auto simp: emplaced_def split: outcome.splits)

lemma reinsert_ok:
  assumes "emplacer_ok hash m em" "table_ok hash L t" "m \<le> L" "distinct (map fst (items t @ kvs))"
  shows "(\<exists>t' L'. reinsert em kvs t = Done () t' \<and> L \<le> L' \<and> table_ok hash L' t' \<and> mset (items t') = mset (items t) + mset kvs) \<or>
    (\<exists>t'. reinsert em kvs t = Throws t')"
  using assms(2-)
proof (induction kvs arbitrary: t L)
  case Nil
  then show ?case by auto
next
  case (Cons kv kvs)
  have e: "emplaced hash L kv (items t) (em kv t)" using assms(1) Cons.prems(1,2) unfolding emplacer_ok_def by blast
  show ?case
  proof (cases "em kv t")
    case (Done r t1)
    obtain i b where r: "r = (i, b)" by force
    have b: "b" using e Done r Cons.prems(3) by (auto simp: emplaced_def)
    obtain L1 where t1: "L \<le> L1" "table_ok hash L1 t1" "mset (items t1) = mset (items t) + {#kv#}"
      using e Done r b by (auto simp: emplaced_def)
    have "distinct (map fst (items t1 @ kvs))"
    proof -
      have "mset (map fst (items t1 @ kvs)) = mset (map fst (items t @ kv # kvs))" using t1(3) by simp
      then show ?thesis using Cons.prems(3) mset_eq_imp_distinct_iff by blast
    qed
    from Cons.IH [OF t1(2) _ this] show ?thesis using Done r t1 Cons.prems(2) by (fastforce intro: le_trans)
  qed (use e in \<open>simp_all add: emplaced_def\<close>)
qed

text \<open>The size that \<open>rehash\<close> chooses for at least \<open>n\<close> slots.\<close>

lemma next_size:
  assumes "1 \<le> n" "n \<le> 2 ^ 62"
  shows "\<exists>m sz. fibonacci_next_size_over (word_of_nat n) = (sz, 64 - m) \<and> unat sz = 2 ^ m \<and> log2 sz = m \<and> 1 \<le> m \<and> m \<le> 63 \<and> n \<le> 2 ^ m"
proof -
  obtain sz shift where f: "fibonacci_next_size_over (word_of_nat n) = (sz, shift)" by force
  have n: "unat (word_of_nat n :: u64) = n" using assms(2) by (simp add: unsigned_of_nat take_bit_nat_eq_self)
  obtain m where m: "1 \<le> m" "m \<le> 63" "unat sz = 2 ^ m" "shift = 64 - m" "n \<le> 2 ^ m"
    using fibonacci_size [of "word_of_nat n" sz shift] f n assms by auto
  have "log2 sz = m" using m(3) by (intro log2_unique) simp_all
  then show ?thesis using f m by blast
qed

lemma rehash_with_ok:
  fixes t :: "('k, 'v) table"
  assumes "counts_ok L t" "bounded alloc" "num_buckets \<le> 2 ^ 62" "n = max num_buckets (2 * tb_num_elements t)" "1 \<le> n"
    "fibonacci_next_size_over (word_of_nat n) = (sz, 64 - m)" "unat sz = 2 ^ m" "log2 sz = m" "1 \<le> m" "2 ^ m \<noteq> bucket_count t" "m \<le> 59 \<Longrightarrow> emplacer_ok hash m em"
  shows "(\<exists>t' L'. rehash_with alloc em num_buckets t = Done () t' \<and> m \<le> L' \<and> table_ok hash L' t' \<and> mset (items t') = mset (items t)) \<or>
    (\<exists>t'. rehash_with alloc em num_buckets t = Throws t')"
proof (cases "alloc (2 ^ m + max 4 m)")
  case False
  then show ?thesis using assms(5-10) unfolding rehash_with_def Let_def assms(4) [symmetric] by (simp add: min_lookups_def)
next
  case True
  then have "(2 :: nat) ^ m + max 4 m \<le> 2 ^ 60" using assms(2) by (simp only: bounded_def)
  then have "(2 :: nat) ^ m < 2 ^ 60" by simp
  then have m: "m \<le> 59" using power_less_imp_less_exp [of "2 :: nat" m 60] by simp
  have "rehash_with alloc em num_buckets t = reinsert em (items t) (new_table (2 ^ m) (64 - m) (max 4 m))"
    using True assms(5-10) unfolding rehash_with_def Let_def assms(4) [symmetric] by (simp add: min_lookups_def)
  moreover have "distinct (map fst (items (new_table (2 ^ m) (64 - m) (max 4 m) :: ('k, 'v) table) @ items t))"
    using assms(1) by (simp add: counts_ok_def new_table_def)
  ultimately show ?thesis using reinsert_ok [OF assms(11) [OF m] new_table_ok [OF assms(9) m] order_refl, of "items t"]
    by (simp add: new_table_def)
qed

lemma grow_and_retry_ok:
  assumes "counts_ok L t" "bounded alloc" "emplacer_ok hash (Suc L) em"
  shows "emplaced hash L kv (items t) (grow_and_retry alloc em kv t)"
proof -
  let ?nb = "max 4 (2 * bucket_count t)" and ?n = "max (max 4 (2 * bucket_count t)) (2 * tb_num_elements t)"
  have c: "bucket_count t = (if L = 0 then 0 else 2 ^ L)" "2 * tb_num_elements t \<le> 2 ^ L" "L \<le> 59" using assms(1) by (auto simp: counts_ok_def)
  have p: "(2 :: nat) ^ L \<le> 2 ^ 59" using c(3) by (intro power_increasing) simp_all
  have nb: "?nb \<le> 2 ^ 62" "?n \<le> 2 ^ 62" "1 \<le> ?n" using c(1,2) p by auto
  obtain m sz where m: "fibonacci_next_size_over (word_of_nat ?n) = (sz, 64 - m)" "unat sz = 2 ^ m" "log2 sz = m" "1 \<le> m" "?n \<le> 2 ^ m"
    using next_size [OF nb(3,2)] by blast
  have gt: "L < m"
  proof (cases "L = 0")
    case False
    then have "(2 :: nat) ^ Suc L \<le> 2 ^ m" using m(5) c(1) by simp
    then have "Suc L \<le> m" using power_le_imp_le_exp [of 2 "Suc L" m] by simp
    then show ?thesis by simp
  qed (use m(4) in simp)
  have ne: "2 ^ m \<noteq> bucket_count t" using gt c(1) by auto
  have em: "emplacer_ok hash m em" using assms(3) gt by (auto simp: emplacer_ok_def)
  consider t1 L1 where "rehash_with alloc em ?nb t = Done () t1" "m \<le> L1" "table_ok hash L1 t1" "mset (items t1) = mset (items t)"
    | t1 where "rehash_with alloc em ?nb t = Throws t1"
    using rehash_with_ok [OF assms(1,2) nb(1) refl nb(3) m(1-4) ne em] by blast
  then show ?thesis
  proof cases
    case 1
    have "emplaced hash L1 kv (items t1) (em kv t1)" using assms(3) 1(2,3) gt unfolding emplacer_ok_def by (meson Suc_leI le_trans)
    then have "emplaced hash L kv (items t) (em kv t1)" using emplaced_mset [OF 1(4)] emplaced_mono 1(2) gt by (metis less_imp_le_nat le_trans)
    then show ?thesis using 1(1) by (simp add: grow_and_retry_def grow_def)
  next
    case 2
    then show ?thesis by (simp add: grow_and_retry_def grow_def emplaced_def)
  qed
qed

lemma empty_search:
  fixes k :: 'k
  shows "\<exists>i. search (tb_entries (empty_table :: ('k, 'v) table)) k (index_for_key hash (empty_table :: ('k, 'v) table) k) 0 = Some (False, i, 0)"
proof -
  have "index_for_key hash (empty_table :: ('k, 'v) table) k < 2"
    using fibonacci_index_bound [of 1 "hash k"] by (simp add: index_for_key_def empty_table_def)
  then have "index_for_key hash (empty_table :: ('k, 'v) table) k = 0 \<or> index_for_key hash (empty_table :: ('k, 'v) table) k = 1" by linarith
  then show ?thesis
    by (elim disjE) (simp_all add: search.simps empty_table_def new_cells_def min_lookups_def nth_append)
qed

lemma counts_okD:
  assumes "counts_ok L t"
  shows "distinct (map fst (items t))" "tb_num_elements t = length (items t)" "2 * tb_num_elements t \<le> 2 ^ L" "L \<le> 59"
    "bucket_count t = (if L = 0 then 0 else 2 ^ L)"
  using assms unfolding counts_ok_def by blast+

lemma sizedD:
  assumes "sized hash L t"
  shows "1 \<le> L" "tb_slots_minus_one t = 2 ^ L - 1" "tb_shift t = 64 - L" "tb_max_lookups t = max 4 L"
    "cells_ok (slot_of hash L) (2 ^ L - 1) (max 4 L) (tb_entries t)" "index_for_key hash t k = slot_of hash L k" "tb_slots_minus_one t \<noteq> 0"
proof -
  show s: "1 \<le> L" "tb_slots_minus_one t = 2 ^ L - 1" "tb_shift t = 64 - L" "tb_max_lookups t = max 4 L"
    "cells_ok (slot_of hash L) (2 ^ L - 1) (max 4 L) (tb_entries t)" "index_for_key hash t k = slot_of hash L k"
    using assms by (simp_all add: sized_def index_for_key_def slot_of_def)
  have "(2 :: nat) ^ 1 \<le> 2 ^ L" using s(1) by (intro power_increasing) simp_all
  then show "tb_slots_minus_one t \<noteq> 0" using s(2) by simp
qed

lemma bucket_count_update [simp]:
  "bucket_count (t\<lparr>tb_entries := es\<rparr>) = bucket_count t" "bucket_count (t\<lparr>tb_num_elements := n\<rparr>) = bucket_count t"
  by (simp_all add: bucket_count_def)

lemma counts_ok_entries:
  assumes "counts_ok L t" "mset (contents es) = mset (items t)"
  shows "counts_ok L (t\<lparr>tb_entries := es\<rparr>)"
proof -
  have "mset (map fst (contents es)) = mset (map fst (items t))" using assms(2) by simp
  then have "distinct (map fst (contents es))" using counts_okD(1) [OF assms(1)] mset_eq_imp_distinct_iff by blast
  moreover have "length (contents es) = length (items t)" using assms(2) by (rule mset_eq_length)
  ultimately show ?thesis using assms(1) by (simp add: counts_ok_def)
qed

lemma emplace_new_key_ok:
  assumes "sized hash L t" "counts_ok L t" "bounded alloc" "emplacer_ok hash (Suc L) em"
    "i = slot_of hash L (fst kv) + d" "d \<le> max 4 L" "distance (tb_entries t ! i) < int d"
    "\<forall>j<d. int j \<le> distance (tb_entries t ! (slot_of hash L (fst kv) + j))" "fst kv \<notin> fst ` set (items t)"
  shows "emplaced hash L kv (items t) (emplace_new_key alloc em i d kv t)"
proof (cases "d = max 4 L \<or> 2 * (tb_num_elements t + 1) > 2 ^ L")
  case True
  have "tb_slots_minus_one t + 1 = 2 ^ L" using sizedD(2) [OF assms(1)] by simp
  then have "emplace_new_key alloc em i d kv t = grow_and_retry alloc em kv t"
    using True sizedD(4) [OF assms(1)] by (auto simp: emplace_new_key_def)
  then show ?thesis using grow_and_retry_ok [OF assms(2-4)] by simp
next
  case False
  let ?es = "tb_entries t"
  have slots: "tb_slots_minus_one t + 1 = 2 ^ L" using sizedD(2) [OF assms(1)] by simp
  have small: "d < max 4 L" "2 * (tb_num_elements t + 1) \<le> 2 ^ L" using False assms(6) by simp_all
  have e: "emplace_new_key alloc em i d kv t =
      (case place (max 4 L) ?es i d kv of
         None \<Rightarrow> Undefined
       | Some (es, None) \<Rightarrow> Done (i, True) (t\<lparr>tb_entries := es, tb_num_elements := tb_num_elements t + 1\<rparr>)
       | Some (es, Some w) \<Rightarrow> grow_and_retry alloc em w (t\<lparr>tb_entries := es\<rparr>))"
    using small sizedD(4,7) [OF assms(1)] slots unfolding emplace_new_key_def by auto
  obtain es' where "(place (max 4 L) ?es i d kv = Some (es', None) \<and> cells_ok (slot_of hash L) (2 ^ L - 1) (max 4 L) es' \<and>
        mset (contents es') = mset (items t) + {#kv#} \<and> es' ! i = Full d kv) \<or>
      (place (max 4 L) ?es i d kv = Some (es', Some kv) \<and> mset (contents es') = mset (items t))"
    using place_ok [OF sizedD(5) [OF assms(1)] assms(5) small(1) assms(7,8)] by blast
  then show ?thesis
  proof (elim disjE conjE)
    assume p: "place (max 4 L) ?es i d kv = Some (es', None)" "cells_ok (slot_of hash L) (2 ^ L - 1) (max 4 L) es'"
      "mset (contents es') = mset (items t) + {#kv#}" "es' ! i = Full d kv"
    let ?t = "t\<lparr>tb_entries := es', tb_num_elements := tb_num_elements t + 1\<rparr>"
    have "mset (map fst (contents es')) = mset (map fst (kv # items t))" using p(3) by simp
    then have "distinct (map fst (contents es'))" using counts_okD(1) [OF assms(2)] assms(9) mset_eq_imp_distinct_iff by fastforce
    moreover have "length (contents es') = Suc (length (items t))" using mset_eq_length [of "contents es'" "kv # items t"] p(3) by simp
    ultimately have "counts_ok L ?t" using assms(2) small(2) by (simp add: counts_ok_def)
    moreover have "sized hash L ?t" using assms(1) p(2) by (simp add: sized_def)
    moreover have "0 < L" using sizedD(1) [OF assms(1)] by simp
    moreover have "i < length es'" using cells_okD(1) [OF p(2)] cells_okD(4) [OF p(2), of "fst kv"] assms(5) small(1) by simp
    ultimately show ?thesis unfolding e p(1) using p(3,4) assms(9) by (cases kv) (auto simp: emplaced_def table_ok_def intro!: exI [of _ L])
  next
    assume p: "place (max 4 L) ?es i d kv = Some (es', Some kv)" "mset (contents es') = mset (items t)"
    have "emplaced hash L kv (items (t\<lparr>tb_entries := es'\<rparr>)) (grow_and_retry alloc em kv (t\<lparr>tb_entries := es'\<rparr>))"
      by (rule grow_and_retry_ok [OF counts_ok_entries [OF assms(2) p(2)] assms(3,4)])
    then show ?thesis unfolding e p(1) using emplaced_mset [of "contents es'" "items t"] p(2) by simp
  qed
qed

lemma emplace_ok:
  assumes "bounded alloc" "table_ok hash L t" "61 \<le> fuel + L"
  shows "emplaced hash L kv (items t) (emplace hash alloc fuel kv t)"
  using assms(2,3)
proof (induction fuel arbitrary: kv t L)
  case 0
  then show ?case using counts_okD(4) [of L t] by (simp add: table_ok_def)
next
  case (Suc fuel)
  have em: "emplacer_ok hash (Suc L) (emplace hash alloc fuel :: ('a, 'b) emplacer)"
    unfolding emplacer_ok_def using Suc.IH Suc.prems(2) by auto
  have c: "counts_ok L t" using Suc.prems(1) by (simp add: table_ok_def)
  show ?case
  proof (cases "L = 0")
    case True
    then have t: "t = empty_table" using Suc.prems(1) by (simp add: table_ok_def)
    have z: "tb_slots_minus_one t = 0" using t by (simp add: empty_table_def)
    obtain i where sr: "search (tb_entries t) (fst kv) (index_for_key hash t (fst kv)) 0 = Some (False, i, 0)"
      using empty_search [where k = "fst kv" and hash = hash] unfolding t by blast
    then have "emplace hash alloc (Suc fuel) kv t = grow_and_retry alloc (emplace hash alloc fuel) kv t"
      by (simp only: emplace.simps sr option.case prod.case bool.case emplace_new_key_def z simp_thms if_True)
    then show ?thesis using grow_and_retry_ok [OF c assms(1) em] by simp
  next
    case False
    then have s: "sized hash L t" using Suc.prems(1) by (simp add: table_ok_def)
    note ce = sizedD(5) [OF s]
    have ix: "index_for_key hash t (fst kv) = slot_of hash L (fst kv)" by (rule sizedD(6) [OF s])
    obtain found d where r: "search (tb_entries t) (fst kv) (slot_of hash L (fst kv)) 0 = Some (found, slot_of hash L (fst kv) + d, d)" "d \<le> max 4 L"
        "found \<longrightarrow> (\<exists>d' v. tb_entries t ! (slot_of hash L (fst kv) + d) = Full d' (fst kv, v)) \<and> slot_of hash L (fst kv) + d < 2 ^ L - 1 + max 4 L"
        "\<not> found \<longrightarrow> distance (tb_entries t ! (slot_of hash L (fst kv) + d)) < int d \<and>
           (\<forall>j<d. int j \<le> distance (tb_entries t ! (slot_of hash L (fst kv) + j))) \<and> fst kv \<notin> fst ` set (items t)"
      using search_from_slot [OF ce] by blast
    show ?thesis
    proof (cases found)
      case True
      let ?i = "slot_of hash L (fst kv) + d"
      obtain d' v where e: "tb_entries t ! ?i = Full d' (fst kv, v)" "?i < length (tb_entries t)"
        using r(3) True cells_okD(1) [OF ce] by auto
      then have "(fst kv, v) \<in> set (items t)" by (auto simp: contents_iff)
      then have "fst kv \<in> fst ` set (items t)" by (auto intro: rev_image_eqI)
      moreover have "emplace hash alloc (Suc fuel) kv t = Done (?i, False) t"
        using r(1) True by (simp only: emplace.simps ix option.case prod.case bool.case)
      ultimately show ?thesis using e Suc.prems(1) unfolding emplaced_def by (simp only: outcome.case prod.case) auto
    next
      case n: False
      then have "emplace hash alloc (Suc fuel) kv t = emplace_new_key alloc (emplace hash alloc fuel) (slot_of hash L (fst kv) + d) d kv t"
        using r(1) by (simp only: emplace.simps ix option.case prod.case bool.case)
      then show ?thesis using emplace_new_key_ok [OF s c assms(1) em refl r(2)] r(4) n by simp
    qed
  qed
qed

end
