(* ===== verification/Flat_Hash_Refinement.thy ===== *)
theory Flat_Hash_Refinement
  imports Flat_Hash_Map
begin

text \<open>
  The hash table refines a finite map: what a client of \<open>flat_hash_map\<close> sees of any sequence of calls is what
  the same calls on a map would give, until an allocation fails. What the code does outside this contract is at the end.
\<close>

section \<open>Finding and erasing\<close>

lemma find_key_ok:
  assumes "table_ok hash L t"
  shows "(\<exists>i d v. find_key hash k t = Some (Some i) \<and> i < length (tb_entries t) \<and> tb_entries t ! i = Full d (k, v)) \<or>
    (find_key hash k t = Some None \<and> k \<notin> fst ` set (items t))"
proof (cases "L = 0")
  case True
  then have t: "t = empty_table" using assms by (simp add: table_ok_def)
  then have "find_key hash k t = Some None" using empty_search [where hash = hash and k = k] by (auto simp: find_key_def)
  then show ?thesis using t by simp
next
  case False
  then have s: "sized hash L t" using assms by (simp add: table_ok_def)
  note ce = sizedD(5) [OF s]
  obtain found d where r: "search (tb_entries t) k (slot_of hash L k) 0 = Some (found, slot_of hash L k + d, d)"
      "found \<longrightarrow> (\<exists>d' v. tb_entries t ! (slot_of hash L k + d) = Full d' (k, v)) \<and> slot_of hash L k + d < 2 ^ L - 1 + max 4 L"
      "\<not> found \<longrightarrow> k \<notin> fst ` set (items t)"
    using search_from_slot [OF ce] by blast
  then show ?thesis using cells_okD(1) [OF ce] by (cases found) (auto simp: find_key_def sizedD(6) [OF s])
qed

lemma erase_at_ok:
  assumes "table_ok hash L t" "i < length (tb_entries t)" "tb_entries t ! i = Full d kv"
  shows "\<exists>t'. erase_at i t = Some t' \<and> table_ok hash L t' \<and> mset (items t') + {#kv#} = mset (items t)"
proof -
  have "L \<noteq> 0"
  proof
    assume "L = 0"
    then have "kv \<in> set (items empty_table)" using assms unfolding table_ok_def by (metis contents_iff)
    then show False by simp
  qed
  then have s: "sized hash L t" using assms(1) by (simp add: table_ok_def)
  have c: "counts_ok L t" using assms(1) by (simp add: table_ok_def)
  note ce = sizedD(5) [OF s]
  have i: "i < 2 ^ L - 1 + max 4 L" using assms(2,3) cells_okD(1,2) [OF ce] by (cases "i = 2 ^ L - 1 + max 4 L") auto
  obtain es where es: "shift_back ((tb_entries t)[i := Empty]) i = Some es" "cells_ok (slot_of hash L) (2 ^ L - 1) (max 4 L) es"
      "mset (contents es) = mset (contents ((tb_entries t)[i := Empty]))"
    using shift_back_ok [OF make_hole [OF ce i assms(3)]] by blast
  have m: "mset (contents es) + {#kv#} = mset (items t)" using contents_update [OF assms(2), of Empty] assms(3) es(3) by simp
  then have ms: "mset (kv # contents es) = mset (items t)" by simp
  have "mset (map fst (kv # contents es)) = mset (map fst (items t))" using m by (metis mset_map ms)
  then have "distinct (map fst (contents es))" using counts_okD(1) [OF c] mset_eq_imp_distinct_iff by fastforce
  moreover have "length (items t) = Suc (length (contents es))" using mset_eq_length [OF ms] by simp
  ultimately have "counts_ok L (t\<lparr>tb_entries := es, tb_num_elements := tb_num_elements t - 1\<rparr>)"
    using c unfolding counts_ok_def by simp
  moreover have "sized hash L (t\<lparr>tb_entries := es, tb_num_elements := tb_num_elements t - 1\<rparr>)"
    using s es(2) by (simp add: sized_def)
  ultimately show ?thesis using es(1) m \<open>L \<noteq> 0\<close> by (simp add: erase_at_def table_ok_def)
qed

section \<open>The map of a table\<close>

abbreviation map_of_table :: "('k, 'v) table \<Rightarrow> 'k \<Rightarrow> 'v option" where
  "map_of_table t \<equiv> map_of (items t)"

lemma map_of_mset_add:
  assumes "distinct (map fst xs)" "mset xs = mset ys + {#(k, v)#}"
  shows "map_of xs = (map_of ys)(k \<mapsto> v)" "k \<notin> fst ` set ys"
proof -
  have m: "mset xs = mset ((k, v) # ys)" using assms(2) by simp
  have "mset (map fst xs) = mset (map fst ((k, v) # ys))" using m by (metis mset_map)
  then have d: "distinct (map fst ((k, v) # ys))" using assms(1) mset_eq_imp_distinct_iff by blast
  have "map_of xs = map_of ((k, v) # ys)" using map_of_inject_set [OF assms(1) d] mset_eq_setD [OF m] by blast
  then show "map_of xs = (map_of ys)(k \<mapsto> v)" by simp
  show "k \<notin> fst ` set ys" using d by simp
qed

lemma map_of_mset:
  assumes "distinct (map fst xs)" "mset xs = mset ys"
  shows "map_of xs = map_of ys"
proof -
  have "mset (map fst xs) = mset (map fst ys)" using assms(2) by simp
  then have "distinct (map fst ys)" using assms(1) mset_eq_imp_distinct_iff by blast
  then show ?thesis using map_of_inject_set [OF assms(1)] mset_eq_setD [OF assms(2)] by blast
qed

lemma table_facts:
  assumes "table_ok hash L t"
  shows "distinct (map fst (items t))" "tb_num_elements t = length (items t)"
  using assms unfolding table_ok_def counts_ok_def by blast+

lemma map_of_table_at:
  assumes "table_ok hash L t" "i < length (tb_entries t)" "tb_entries t ! i = Full d (k, v)"
  shows "map_of_table t k = Some v" "value_at i t = Some v"
proof -
  have "(k, v) \<in> set (items t)" using assms(2,3) by (auto simp: contents_iff)
  then show "map_of_table t k = Some v" using table_facts(1) [OF assms(1)] by simp
qed (simp add: value_at_def assms(2,3))

lemma map_of_table_none: "map_of_table t k = None \<longleftrightarrow> k \<notin> fst ` set (items t)"
  by (rule map_of_eq_None_iff)

lemma find_key_spec:
  assumes "table_ok hash L t"
  shows "\<exists>r. find_key hash k t = Some r \<and>
    (case r of None \<Rightarrow> map_of_table t k = None
     | Some i \<Rightarrow> i < length (tb_entries t) \<and> (\<exists>d v. tb_entries t ! i = Full d (k, v)) \<and> value_at i t = map_of_table t k)"
  using find_key_ok [OF assms, of k]
proof
  assume "\<exists>i d v. find_key hash k t = Some (Some i) \<and> i < length (tb_entries t) \<and> tb_entries t ! i = Full d (k, v)"
  then obtain i d v where i: "find_key hash k t = Some (Some i)" "i < length (tb_entries t)" "tb_entries t ! i = Full d (k, v)" by blast
  then show ?thesis using map_of_table_at [OF assms i(2,3)] by simp
qed (simp add: map_of_table_none)

lemma erase_key_ok:
  assumes "table_ok hash L t"
  shows "\<exists>t'. erase_key hash k t = Some (if map_of_table t k = None then 0 else 1, t') \<and> table_ok hash L t' \<and>
    map_of_table t' = (map_of_table t)(k := None)"
  using find_key_ok [OF assms, of k]
proof
  assume "\<exists>i d v. find_key hash k t = Some (Some i) \<and> i < length (tb_entries t) \<and> tb_entries t ! i = Full d (k, v)"
  then obtain i d v where i: "find_key hash k t = Some (Some i)" "i < length (tb_entries t)" "tb_entries t ! i = Full d (k, v)" by blast
  obtain t' where t': "erase_at i t = Some t'" "table_ok hash L t'" "mset (items t') + {#(k, v)#} = mset (items t)"
    using erase_at_ok [OF assms i(2,3)] by blast
  note m = map_of_mset_add [OF table_facts(1) [OF assms] t'(3) [symmetric]]
  have "map_of_table t' k = None" using m(2) by (simp add: map_of_table_none)
  then have "map_of_table t' = (map_of_table t)(k := None)" using m(1) by (auto simp: fun_eq_iff)
  then show ?thesis using i(1) t' m(1) by (simp add: erase_key_def)
next
  assume a: "find_key hash k t = Some None \<and> k \<notin> fst ` set (items t)"
  then have "map_of_table t k = None" by (simp add: map_of_table_none)
  then show ?thesis using a assms by (auto simp: erase_key_def fun_eq_iff)
qed

section \<open>Inserting, assigning and clearing\<close>

lemma value_at_full: "i < length (tb_entries t) \<Longrightarrow> tb_entries t ! i = Full d kv \<Longrightarrow> value_at i t = Some (snd kv)"
  by (simp add: value_at_def)

lemma emplace_spec:
  assumes "bounded alloc" "61 \<le> fuel" "table_ok hash L t"
  shows "(\<exists>i t' L'. emplace hash alloc fuel (k, v) t = Done (i, map_of_table t k = None) t' \<and> table_ok hash L' t' \<and>
      map_of_table t' = (if map_of_table t k = None then (map_of_table t)(k \<mapsto> v) else map_of_table t) \<and>
      i < length (tb_entries t') \<and> (\<exists>d w. tb_entries t' ! i = Full d (k, w)) \<and> value_at i t' = map_of_table t' k) \<or>
    (\<exists>t'. emplace hash alloc fuel (k, v) t = Throws t')"
proof -
  have e: "emplaced hash L (k, v) (items t) (emplace hash alloc fuel (k, v) t)" using emplace_ok [OF assms(1,3)] assms(2) by simp
  show ?thesis
  proof (cases "emplace hash alloc fuel (k, v) t")
    case (Done r t')
    obtain i b where r: "r = (i, b)" by force
    obtain L' d w where ok: "table_ok hash L' t'" "b \<longleftrightarrow> k \<notin> fst ` set (items t)"
        "mset (items t') = mset (items t) + (if b then {#(k, v)#} else {#})" "i < length (tb_entries t')" "tb_entries t' ! i = Full d (k, w)"
      using e Done r by (auto simp: emplaced_def)
    have b: "b \<longleftrightarrow> map_of_table t k = None" using ok(2) by (simp add: map_of_table_none)
    have "map_of_table t' = (if b then (map_of_table t)(k \<mapsto> v) else map_of_table t)"
    proof (cases b)
      case True
      then show ?thesis using map_of_mset_add(1) [OF table_facts(1) [OF ok(1)], of "items t" k v] ok(3) by simp
    next
      case False
      then show ?thesis using map_of_mset [OF table_facts(1) [OF ok(1)]] ok(3) by simp
    qed
    moreover have "value_at i t' = map_of_table t' k" using map_of_table_at [OF ok(1,4,5)] by simp
    ultimately show ?thesis using Done r b ok(1,4,5) by blast
  qed (use e in \<open>simp_all add: emplaced_def\<close>)
qed

lemma assign_at_ok:
  assumes "table_ok hash L t" "i < length (tb_entries t)" "tb_entries t ! i = Full d (k, w)"
  shows "table_ok hash L (assign_at i v t) \<and> map_of_table (assign_at i v t) = (map_of_table t)(k \<mapsto> v)"
proof -
  let ?es = "(tb_entries t)[i := Full d (k, v)]"
  have a: "assign_at i v t = t\<lparr>tb_entries := ?es\<rparr>" using assms(3) by (simp add: assign_at_def)
  have L: "L \<noteq> 0"
  proof
    assume "L = 0"
    then have "(k, w) \<in> set (items empty_table)" using assms unfolding table_ok_def by (metis contents_iff)
    then show False by simp
  qed
  then have s: "sized hash L t" and c: "counts_ok L t" using assms(1) by (simp_all add: table_ok_def)
  note ce = sizedD(5) [OF s]
  have i: "i < 2 ^ L - 1 + max 4 L" using assms(2,3) cells_okD(1,2) [OF ce] by (cases "i = 2 ^ L - 1 + max 4 L") auto
  have m: "mset (contents ?es) + {#(k, w)#} = mset (items t) + {#(k, v)#}"
    using put_contents [OF assms(2,3), of d "(k, v)"] by simp
  then have "mset (map fst ((k, w) # contents ?es)) = mset (map fst ((k, v) # items t))"
    by (metis add_mset_add_single mset.simps(2) mset_map)
  then have mk: "mset (map fst (contents ?es)) = mset (map fst (items t))" by simp
  then have dist: "distinct (map fst (contents ?es))" using counts_okD(1) [OF c] mset_eq_imp_distinct_iff by blast
  moreover have "length (contents ?es) = length (items t)" using mset_eq_length [OF mk] by simp
  ultimately have c': "counts_ok L (t\<lparr>tb_entries := ?es\<rparr>)" using c unfolding counts_ok_def by simp
  have "d < max 4 L" "i = slot_of hash L k + d" using cells_okD(6,7) [OF ce i assms(3)] by simp_all
  moreover have "int d - 1 \<le> distance (tb_entries t ! (i - 1))" if p: "0 < d"
  proof -
    have "0 < i" using p cells_okD(6) [OF ce i assms(3)] by simp
    then show ?thesis using cells_okD(8) [OF ce, of "i - 1"] i assms(3) by simp
  qed
  ultimately have "cells_ok (slot_of hash L) (2 ^ L - 1) (max 4 L) ?es" using assms(3) by (intro put_ok [OF ce]) simp_all
  then have "sized hash L (t\<lparr>tb_entries := ?es\<rparr>)" using s by (simp add: sized_def)
  then have ok: "table_ok hash L (assign_at i v t)" using c' L a by (simp add: table_ok_def)
  have nth: "?es ! i = Full d (k, v)" using assms(2) by simp
  have "map_of (contents ?es) = (map_of_table t)(k \<mapsto> v)"
  proof
    fix x
    have w: "(k, w) \<in> set (items t)" "(k, v) \<in> set (contents ?es)"
      using assms(2,3) nth by (auto simp: contents_iff)
    show "map_of (contents ?es) x = ((map_of_table t)(k \<mapsto> v)) x"
    proof (cases "x = k")
      case False
      have "(x, y) \<in># mset (contents ?es) \<longleftrightarrow> (x, y) \<in># mset (items t)" for y
        using False arg_cong [OF m, of "\<lambda>M. (x, y) \<in># M"] by simp
      then have "(x, y) \<in> set (contents ?es) \<longleftrightarrow> (x, y) \<in> set (items t)" for y by simp
      then have "map_of (contents ?es) x = Some y \<longleftrightarrow> map_of_table t x = Some y" for y
        using dist counts_okD(1) [OF c] by simp
      then have "map_of (contents ?es) x = map_of_table t x" by (metis option.exhaust)
      then show ?thesis using False by simp
    qed (use w(2) dist in simp)
  qed
  then show ?thesis using ok a by simp
qed

lemma clear_table_ok:
  assumes "table_ok hash L t"
  shows "table_ok hash L (clear_table t) \<and> items (clear_table t) = []"
proof -
  let ?c = "\<lambda>c :: ('a \<times> 'b) cell. case c of Full d x \<Rightarrow> Empty | _ \<Rightarrow> c"
  have it: "contents (map ?c es) = []" for es by (induction es) (simp_all split: cell.splits)
  have b: "bucket_count (clear_table t) = bucket_count t" by (simp add: bucket_count_def clear_table_def)
  have c: "counts_ok L (clear_table t)" using assms b it by (simp add: table_ok_def counts_ok_def clear_table_def)
  show ?thesis
  proof (cases "L = 0")
    case True
    then have "t = empty_table" using assms by (simp add: table_ok_def)
    then have "clear_table t = t" by (simp add: clear_table_def empty_table_def new_cells_def)
    then show ?thesis using assms \<open>t = empty_table\<close> by simp
  next
    case False
    then have s: "sized hash L t" using assms by (simp add: table_ok_def)
    note ce = sizedD(5) [OF s]
    have e: "?c (tb_entries t ! i) = Empty" if i: "i < 2 ^ L - 1 + max 4 L" for i
      using cells_okD(5) [OF ce i] by (cases "tb_entries t ! i") auto
    have "cells_ok (slot_of hash L) (2 ^ L - 1) (max 4 L) (map ?c (tb_entries t))"
      using ce e cells_okD(1,2) [OF ce] unfolding cells_ok_def by simp
    then have "sized hash L (clear_table t)" using s by (simp add: sized_def clear_table_def)
    then show ?thesis using c False it by (simp add: table_ok_def clear_table_def)
  qed
qed

section \<open>Rehashing\<close>

lemma rehash_ok:
  assumes "bounded alloc" "61 \<le> fuel" "table_ok hash L t" "n \<le> 2 ^ 62"
  shows "(\<exists>t' L'. rehash hash alloc fuel n t = Done () t' \<and> table_ok hash L' t' \<and> map_of_table t' = map_of_table t) \<or>
    (\<exists>t'. rehash hash alloc fuel n t = Throws t')"
proof -
  have c: "counts_ok L t" using assms(3) by (simp add: table_ok_def)
  let ?n = "max n (2 * tb_num_elements t)"
  show ?thesis
  proof (cases "?n = 0")
    case True
    then have "items t = []" using counts_okD(2) [OF c] by simp
    moreover have "rehash hash alloc fuel n t = (if alloc min_lookups then Done () empty_table else Throws (t\<lparr>tb_entries := []\<rparr>))"
      unfolding rehash_def rehash_with_def Let_def if_P [OF True] ..
    ultimately show ?thesis using new_map_ok [of hash] by auto
  next
    case False
    have "(2 :: nat) ^ L \<le> 2 ^ 59" using counts_okD(4) [OF c] by (intro power_increasing) simp_all
    then have n: "1 \<le> ?n" "?n \<le> 2 ^ 62" using False counts_okD(3) [OF c] assms(4) by auto
    obtain m sz where m: "fibonacci_next_size_over (word_of_nat ?n) = (sz, 64 - m)" "unat sz = 2 ^ m" "log2 sz = m" "1 \<le> m"
      using next_size [OF n] by blast
    show ?thesis
    proof (cases "2 ^ m = bucket_count t")
      case True
      then have "rehash hash alloc fuel n t = Done () t"
        unfolding rehash_def rehash_with_def Let_def if_not_P [OF False] m(1) by (simp add: m(2))
      then show ?thesis using assms(3) by blast
    next
      case ne: False
      have "emplacer_ok hash m (emplace hash alloc fuel :: ('a, 'b) emplacer)"
        unfolding emplacer_ok_def using emplace_ok [OF assms(1)] assms(2) by (meson trans_le_add1)
      then have "(\<exists>t' L'. rehash hash alloc fuel n t = Done () t' \<and> m \<le> L' \<and> table_ok hash L' t' \<and> mset (items t') = mset (items t)) \<or>
          (\<exists>t'. rehash hash alloc fuel n t = Throws t')"
        using rehash_with_ok [OF c assms(1,4) refl n(1) m ne] unfolding rehash_def by blast
      then show ?thesis using map_of_mset table_facts(1) by metis
    qed
  qed
qed

section \<open>A client\<close>

datatype ('k, 'v) map_op =
    Emplace 'k 'v
  | Insert_or_assign 'k 'v
  | Subscript 'k
  | Find 'k
  | Erase 'k
  | Clear
  | Rehash nat
  | Reserve nat
  | Shrink_to_fit

datatype 'v reply = Inserted bool | Value "'v option" | Erased nat | No_reply

text \<open>The arguments for which the numbers of buckets fit in a word.\<close>

fun op_ok :: "('k, 'v) map_op \<Rightarrow> bool" where
  "op_ok (Rehash n) \<longleftrightarrow> n \<le> 2 ^ 62"
| "op_ok (Reserve n) \<longleftrightarrow> n \<le> 2 ^ 61"
| "op_ok op \<longleftrightarrow> True"

definition reply_with :: "('r \<Rightarrow> 'v reply) \<Rightarrow> ('r, 't) outcome \<Rightarrow> ('v reply, 't) outcome" where
  "reply_with f r = (case r of Done x t \<Rightarrow> Done (f x) t | Throws t \<Rightarrow> Throws t | Undefined \<Rightarrow> Undefined | No_fuel \<Rightarrow> No_fuel)"

fun exec :: "('k \<Rightarrow> u64) \<Rightarrow> (nat \<Rightarrow> bool) \<Rightarrow> nat \<Rightarrow> 'v \<Rightarrow> ('k, 'v) map_op \<Rightarrow> ('k, 'v) table \<Rightarrow> ('v reply, ('k, 'v) table) outcome" where
  "exec hash alloc fuel v0 (Emplace k v) t = reply_with (\<lambda>r. Inserted (snd r)) (emplace hash alloc fuel (k, v) t)"
| "exec hash alloc fuel v0 (Insert_or_assign k v) t = reply_with (\<lambda>r. Inserted (snd r)) (insert_or_assign hash alloc fuel (k, v) t)"
| "exec hash alloc fuel v0 (Subscript k) t = reply_with Value (subscript hash alloc fuel v0 k t)"
| "exec hash alloc fuel v0 (Find k) t =
     (case find_key hash k t of None \<Rightarrow> Undefined | Some None \<Rightarrow> Done (Value None) t | Some (Some i) \<Rightarrow> Done (Value (value_at i t)) t)"
| "exec hash alloc fuel v0 (Erase k) t = (case erase_key hash k t of None \<Rightarrow> Undefined | Some (n, t') \<Rightarrow> Done (Erased n) t')"
| "exec hash alloc fuel v0 Clear t = Done No_reply (clear_table t)"
| "exec hash alloc fuel v0 (Rehash n) t = reply_with (\<lambda>_. No_reply) (rehash hash alloc fuel n t)"
| "exec hash alloc fuel v0 (Reserve n) t = reply_with (\<lambda>_. No_reply) (reserve hash alloc fuel n t)"
| "exec hash alloc fuel v0 Shrink_to_fit t = reply_with (\<lambda>_. No_reply) (shrink_to_fit hash alloc fuel t)"

text \<open>What the calls mean on a map.\<close>

fun map_exec :: "'v \<Rightarrow> ('k, 'v) map_op \<Rightarrow> ('k \<Rightarrow> 'v option) \<Rightarrow> 'v reply \<times> ('k \<Rightarrow> 'v option)" where
  "map_exec v0 (Emplace k v) m = (Inserted (m k = None), if m k = None then m(k \<mapsto> v) else m)"
| "map_exec v0 (Insert_or_assign k v) m = (Inserted (m k = None), m(k \<mapsto> v))"
| "map_exec v0 (Subscript k) m = (if m k = None then (Value (Some v0), m(k \<mapsto> v0)) else (Value (m k), m))"
| "map_exec v0 (Find k) m = (Value (m k), m)"
| "map_exec v0 (Erase k) m = (Erased (if m k = None then 0 else 1), m(k := None))"
| "map_exec v0 Clear m = (No_reply, Map.empty)"
| "map_exec v0 (Rehash n) m = (No_reply, m)"
| "map_exec v0 (Reserve n) m = (No_reply, m)"
| "map_exec v0 Shrink_to_fit m = (No_reply, m)"

text \<open>A step that agrees with the map, or an allocation that failed.\<close>

definition agrees :: "('k \<Rightarrow> u64) \<Rightarrow> 'v reply \<times> ('k \<Rightarrow> 'v option) \<Rightarrow> ('v reply, ('k, 'v) table) outcome \<Rightarrow> bool" where
  "agrees hash spec r \<longleftrightarrow>
     (case r of Done x t \<Rightarrow> (\<exists>L. table_ok hash L t) \<and> (x, map_of_table t) = spec | Throws t \<Rightarrow> True | Undefined \<Rightarrow> False | No_fuel \<Rightarrow> False)"

lemma agrees_rehash:
  assumes "bounded alloc" "61 \<le> fuel" "table_ok hash L t" "n \<le> 2 ^ 62"
  shows "agrees hash (No_reply, map_of_table t) (reply_with (\<lambda>_. No_reply) (rehash hash alloc fuel n t))"
  using rehash_ok [OF assms] by (auto simp: agrees_def reply_with_def)

lemma exec_agrees:
  assumes "bounded alloc" "61 \<le> fuel" "table_ok hash L t" "op_ok op"
  shows "agrees hash (map_exec v0 op (map_of_table t)) (exec hash alloc fuel v0 op t)"
proof (cases op)
  case (Emplace k v)
  then show ?thesis using emplace_spec [OF assms(1-3), of k v] by (auto simp: agrees_def reply_with_def)
next
  case (Insert_or_assign k v)
  show ?thesis
    using emplace_spec [OF assms(1-3), of k v]
  proof (elim disjE exE conjE)
    fix i t' L' d w
    assume e: "emplace hash alloc fuel (k, v) t = Done (i, map_of_table t k = None) t'" "table_ok hash L' t'"
      "map_of_table t' = (if map_of_table t k = None then (map_of_table t)(k \<mapsto> v) else map_of_table t)"
      "i < length (tb_entries t')" "tb_entries t' ! i = Full d (k, w)"
    show ?thesis
    proof (cases "map_of_table t k = None")
      case True
      then show ?thesis using e Insert_or_assign by (auto simp: agrees_def reply_with_def insert_or_assign_def)
    next
      case False
      have "table_ok hash L' (assign_at i v t') \<and> map_of_table (assign_at i v t') = (map_of_table t)(k \<mapsto> v)"
        using assign_at_ok [OF e(2,4,5), of v] e(3) False by simp
      then show ?thesis using e(1) False Insert_or_assign by (auto simp: agrees_def reply_with_def insert_or_assign_def)
    qed
  qed (simp add: Insert_or_assign agrees_def reply_with_def insert_or_assign_def)
next
  case (Subscript k)
  then show ?thesis using emplace_spec [OF assms(1-3), of k v0] by (auto simp: agrees_def reply_with_def subscript_def)
next
  case (Find k)
  then show ?thesis using find_key_spec [OF assms(3), of k] assms(3) by (auto simp: agrees_def split: option.splits)
next
  case (Erase k)
  then show ?thesis using erase_key_ok [OF assms(3), of k] by (auto simp: agrees_def)
next
  case Clear
  then show ?thesis using clear_table_ok [OF assms(3)] by (auto simp: agrees_def)
next
  case (Rehash n)
  then show ?thesis using agrees_rehash [OF assms(1-3), of n] assms(4) by simp
next
  case (Reserve n)
  then show ?thesis
    using agrees_rehash [OF assms(1-3), of "2 * n"] assms(3,4) by (auto simp: reserve_def agrees_def reply_with_def)
next
  case Shrink_to_fit
  have c: "counts_ok L t" using assms(3) by (simp add: table_ok_def)
  have "(2 :: nat) ^ L \<le> 2 ^ 62" using counts_okD(4) [OF c] by (intro power_increasing) simp_all
  then have "min (2 * tb_num_elements t) (bucket_count t) \<le> 2 ^ 62" using counts_okD(3) [OF c] by linarith
  then show ?thesis using agrees_rehash [OF assms(1-3)] Shrink_to_fit by (simp add: shrink_to_fit_def)
qed

section \<open>Sequences of calls\<close>

text \<open>The replies of the calls before the first that does not end normally, and how the last call ended.\<close>

fun run_ops :: "('k \<Rightarrow> u64) \<Rightarrow> (nat \<Rightarrow> bool) \<Rightarrow> nat \<Rightarrow> 'v \<Rightarrow> ('k, 'v) map_op list \<Rightarrow> ('k, 'v) table \<Rightarrow> 'v reply list \<times> (unit, ('k, 'v) table) outcome" where
  "run_ops hash alloc fuel v0 [] t = ([], Done () t)"
| "run_ops hash alloc fuel v0 (op # ops) t =
     (case exec hash alloc fuel v0 op t of
        Done x t1 \<Rightarrow> (case run_ops hash alloc fuel v0 ops t1 of (xs, r) \<Rightarrow> (x # xs, r))
      | Throws t1 \<Rightarrow> ([], Throws t1) | Undefined \<Rightarrow> ([], Undefined) | No_fuel \<Rightarrow> ([], No_fuel))"

fun map_run :: "'v \<Rightarrow> ('k, 'v) map_op list \<Rightarrow> ('k \<Rightarrow> 'v option) \<Rightarrow> 'v reply list \<times> ('k \<Rightarrow> 'v option)" where
  "map_run v0 [] m = ([], m)"
| "map_run v0 (op # ops) m = (case map_exec v0 op m of (x, m1) \<Rightarrow> (case map_run v0 ops m1 of (xs, m2) \<Rightarrow> (x # xs, m2)))"

definition may_allocate :: "('k, 'v) map_op \<Rightarrow> bool" where
  "may_allocate op \<longleftrightarrow> (case op of Find k \<Rightarrow> False | Erase k \<Rightarrow> False | Clear \<Rightarrow> False | _ \<Rightarrow> True)"

lemma exec_throws: "exec hash alloc fuel v0 op t = Throws t' \<Longrightarrow> may_allocate op"
  by (cases op) (auto simp: may_allocate_def split: option.splits)

lemma run_ops_agrees:
  assumes "bounded alloc" "61 \<le> fuel" "table_ok hash L t" "\<forall>op\<in>set ops. op_ok op" "run_ops hash alloc fuel v0 ops t = (xs, r)"
  shows "xs = take (length xs) (fst (map_run v0 ops (map_of_table t))) \<and>
    (case r of
       Done u t' \<Rightarrow> (\<exists>L. table_ok hash L t') \<and> map_run v0 ops (map_of_table t) = (xs, map_of_table t')
     | Throws t' \<Rightarrow> length xs < length ops \<and> may_allocate (ops ! length xs)
     | Undefined \<Rightarrow> False | No_fuel \<Rightarrow> False)"
  using assms(3-)
proof (induction ops arbitrary: t L xs r)
  case Nil
  then show ?case by auto
next
  case (Cons op ops)
  have a: "agrees hash (map_exec v0 op (map_of_table t)) (exec hash alloc fuel v0 op t)"
    using exec_agrees [OF assms(1,2) Cons.prems(1)] Cons.prems(2) by simp
  show ?case
  proof (cases "exec hash alloc fuel v0 op t")
    case (Done x t1)
    obtain L1 where t1: "table_ok hash L1 t1" "map_exec v0 op (map_of_table t) = (x, map_of_table t1)"
      using a Done by (auto simp: agrees_def)
    obtain ys where ys: "run_ops hash alloc fuel v0 ops t1 = (ys, r)" "xs = x # ys"
      using Cons.prems(3) Done by (auto split: prod.splits)
    show ?thesis using Cons.IH [OF t1(1) _ ys(1)] Cons.prems(2) t1(2) ys(2)
      by (cases "map_run v0 ops (map_of_table t1)") (cases r, simp_all)
  next
    case (Throws t1)
    then show ?thesis using Cons.prems(3) exec_throws [OF Throws] by auto
  qed (use a in \<open>simp_all add: agrees_def\<close>)
qed



section \<open>Equality\<close>

lemma all_found_ok:
  assumes "table_ok hash L t"
  shows "all_found hash kvs t = Some (\<forall>(k, v)\<in>set kvs. map_of_table t k = Some v)"
proof (induction kvs)
  case (Cons kv kvs)
  obtain k v where kv: "kv = (k, v)" by force
  show ?case using find_key_spec [OF assms, of k] Cons kv
    by (auto split: option.splits simp: value_at_full)
qed simp

lemma equal_tables_ok:
  assumes "table_ok hash L lhs" "table_ok hash L' rhs"
  shows "equal_tables hash lhs rhs = Some (map_of_table lhs = map_of_table rhs)"
proof -
  have size: "tb_num_elements t = card (dom (map_of_table t))" if "table_ok hash L t" for t :: "('a, 'b) table" and L
    using table_facts [OF that] by (metis distinct_card dom_map_of_conv_image_fst length_map list.set_map)
  have "(\<forall>(k, v)\<in>set (items lhs). map_of_table rhs k = Some v) \<longleftrightarrow> map_of_table lhs \<subseteq>\<^sub>m map_of_table rhs"
  proof -
    have "(\<forall>(k, v)\<in>set (items lhs). map_of_table rhs k = Some v) \<longleftrightarrow>
        (\<forall>k v. map_of_table lhs k = Some v \<longrightarrow> map_of_table rhs k = Some v)"
      using table_facts(1) [OF assms(1)] by auto
    then show ?thesis by (force simp: map_le_def dom_def)
  qed
  moreover have "map_of_table lhs = map_of_table rhs" if le: "map_of_table lhs \<subseteq>\<^sub>m map_of_table rhs" and eq: "tb_num_elements lhs = tb_num_elements rhs"
  proof -
    have "dom (map_of_table lhs) \<subseteq> dom (map_of_table rhs)" using le by (rule map_le_implies_dom_le)
    then have "dom (map_of_table lhs) = dom (map_of_table rhs)"
      using size [OF assms(1)] size [OF assms(2)] eq by (intro card_subset_eq) (simp_all add: finite_dom_map_of)
    then show ?thesis using le by (metis map_le_antisym map_le_def)
  qed
  ultimately show ?thesis using all_found_ok [OF assms(2)] size [OF assms(1)] size [OF assms(2)]
    by (auto simp: equal_tables_def)
qed

section \<open>Outside the contract\<close>

text \<open>\<open>at\<close> dereferences the end of the table when the key is missing.\<close>

lemma at_missing_key:
  assumes "table_ok hash L t"
  shows "at_key hash k t = map_of_table t k"
  using find_key_spec [OF assms, of k] by (auto simp: at_key_def split: option.splits)

text \<open>
  A growth that fails after the last entry that was displaced took the slot of the new key leaves that entry where it
  is not found. Eight keys in sixteen slots: the eighth is displaced to the end of its lookups, and there is no room to grow.
\<close>

definition crowded_hash :: "nat \<Rightarrow> u64" where
  "crowded_hash k = [0, 0, 5, 10, 2, 2, 2, 0] ! k"

lemma failed_growth_loses_an_entry:
  "case run_ops crowded_hash (\<lambda>n. n \<le> 20) 61 0 (Reserve 8 # map (\<lambda>k. Emplace k k) [0..<8]) empty_table of
     (xs, r) \<Rightarrow> length xs = 8 \<and> (case r of Throws t \<Rightarrow> tb_num_elements t = 7 \<and> find_key crowded_hash 4 t = Some None | _ \<Rightarrow> False)"
  by code_simp

text \<open>Rehashing an empty table deallocates its cells before it allocates new ones, so a failure leaves none.\<close>

lemma failed_reset_leaves_no_cells:
  assumes "tb_num_elements t = 0" "\<not> alloc min_lookups"
  shows "rehash hash alloc fuel 0 t = Throws (t\<lparr>tb_entries := []\<rparr>)" "find_key hash k (t\<lparr>tb_entries := []\<rparr>) = None"
  using assms by (simp_all add: rehash_def rehash_with_def find_key_def search.simps)

end
