(* ===== verification/Prime_Policy.thy ===== *)
theory Prime_Policy
  imports Prelude
begin

text \<open>
  The policy of \<open>flat_hash.h\<close> whose tables have a prime number of slots: the list of sizes and the list of
  functions that turn a hash into an index, one for each size and one for the empty table.
\<close>

section \<open>The policy\<close>

text \<open>The functions \<open>mod0\<close>, \<open>mod2\<close>, \<open>mod3\<close> and so on.\<close>

definition mod_function :: "u64 \<Rightarrow> u64 \<Rightarrow> u64" where
  "mod_function p hash = (if p = 0 then 0 else hash mod p)"

definition prime_list :: "u64 list" where
  "prime_list = [
     2, 3, 5, 7, 11, 13, 17, 23, 29, 37, 47, 59, 73, 97, 127, 151, 197, 251, 313, 397, 499, 631, 797, 1009, 1259, 1597,
     2011, 2539, 3203, 4027, 5087, 6421, 8089, 10193, 12853, 16193, 20399, 25717, 32401, 40823, 51437, 64811, 81649,
     102877, 129607, 163307, 205759, 259229, 326617, 411527, 518509, 653267, 823117, 1037059, 1306601, 1646237,
     2074129, 2613229, 3292489, 4148279, 5226491, 6584983, 8296553, 10453007, 13169977, 16593127, 20906033, 26339969,
     33186281, 41812097, 52679969, 66372617, 83624237, 105359939, 132745199, 167248483, 210719881, 265490441,
     334496971, 421439783, 530980861, 668993977, 842879579, 1061961721, 1337987929, 1685759167, 2123923447, 2675975881,
     3371518343, 4247846927, 5351951779, 6743036717, 8495693897, 10703903591, 13486073473, 16991387857, 21407807219,
     26972146961, 33982775741, 42815614441, 53944293929, 67965551447, 85631228929, 107888587883, 135931102921,
     171262457903, 215777175787, 271862205833, 342524915839, 431554351609, 543724411781, 685049831731, 863108703229,
     1087448823553, 1370099663459, 1726217406467, 2174897647073, 2740199326961, 3452434812973, 4349795294267,
     5480398654009, 6904869625999, 8699590588571, 10960797308051, 13809739252051, 17399181177241, 21921594616111,
     27619478504183, 34798362354533, 43843189232363, 55238957008387, 69596724709081, 87686378464759, 110477914016779,
     139193449418173, 175372756929481, 220955828033581, 278386898836457, 350745513859007, 441911656067171,
     556773797672909, 701491027718027, 883823312134381, 1113547595345903, 1402982055436147, 1767646624268779,
     2227095190691797, 2805964110872297, 3535293248537579, 4454190381383713, 5611928221744609, 7070586497075177,
     8908380762767489, 11223856443489329, 14141172994150357, 17816761525534927, 22447712886978529, 28282345988300791,
     35633523051069991, 44895425773957261, 56564691976601587, 71267046102139967, 89790851547914507, 113129383953203213,
     142534092204280003, 179581703095829107, 226258767906406483, 285068184408560057, 359163406191658253,
     452517535812813007, 570136368817120201, 718326812383316683, 905035071625626043, 1140272737634240411,
     1436653624766633509, 1810070143251252131, 2280545475268481167, 2873307249533267101, 3620140286502504283,
     4561090950536962147, 5746614499066534157, 7240280573005008577, 9122181901073924329, 11493228998133068689,
     14480561146010017169, 18446744073709551557]"

definition mod_functions :: "(u64 \<Rightarrow> u64) list" where
  "mod_functions = map mod_function [
     0, 2, 3, 5, 7, 11, 13, 17, 23, 29, 37, 47, 59, 73, 97, 127, 151, 197, 251, 313, 397, 499, 631, 797, 1009, 1259,
     1597, 2011, 2539, 3203, 4027, 5087, 6421, 8089, 10193, 12853, 16193, 20399, 25717, 32401, 40823, 51437, 64811,
     81649, 102877, 129607, 163307, 205759, 259229, 326617, 411527, 518509, 653267, 823117, 1037059, 1306601, 1646237,
     2074129, 2613229, 3292489, 4148279, 5226491, 6584983, 8296553, 10453007, 13169977, 16593127, 20906033, 26339969,
     33186281, 41812097, 52679969, 66372617, 83624237, 105359939, 132745199, 167248483, 210719881, 265490441,
     334496971, 421439783, 530980861, 668993977, 842879579, 1061961721, 1337987929, 1685759167, 2123923447, 2675975881,
     3371518343, 4247846927, 5351951779, 6743036717, 8495693897, 10703903591, 13486073473, 16991387857, 21407807219,
     26972146961, 33982775741, 42815614441, 53944293929, 67965551447, 85631228929, 107888587883, 135931102921,
     171262457903, 215777175787, 271862205833, 342524915839, 431554351609, 543724411781, 685049831731, 863108703229,
     1087448823553, 1370099663459, 1726217406467, 2174897647073, 2740199326961, 3452434812973, 4349795294267,
     5480398654009, 6904869625999, 8699590588571, 10960797308051, 13809739252051, 17399181177241, 21921594616111,
     27619478504183, 34798362354533, 43843189232363, 55238957008387, 69596724709081, 87686378464759, 110477914016779,
     139193449418173, 175372756929481, 220955828033581, 278386898836457, 350745513859007, 441911656067171,
     556773797672909, 701491027718027, 883823312134381, 1113547595345903, 1402982055436147, 1767646624268779,
     2227095190691797, 2805964110872297, 3535293248537579, 4454190381383713, 5611928221744609, 7070586497075177,
     8908380762767489, 11223856443489329, 14141172994150357, 17816761525534927, 22447712886978529, 28282345988300791,
     35633523051069991, 44895425773957261, 56564691976601587, 71267046102139967, 89790851547914507, 113129383953203213,
     142534092204280003, 179581703095829107, 226258767906406483, 285068184408560057, 359163406191658253,
     452517535812813007, 570136368817120201, 718326812383316683, 905035071625626043, 1140272737634240411,
     1436653624766633509, 1810070143251252131, 2280545475268481167, 2873307249533267101, 3620140286502504283,
     4561090950536962147, 5746614499066534157, 7240280573005008577, 9122181901073924329, 11493228998133068689,
     14480561146010017169, 18446744073709551557]"

text \<open>\<open>std::lower_bound\<close> on a sorted range.\<close>

definition lower_bound :: "u64 list \<Rightarrow> u64 \<Rightarrow> nat" where
  "lower_bound xs x = length (takeWhile (\<lambda>y. y < x) xs)"

definition prime_next_size_over :: "u64 \<Rightarrow> u64 \<times> (u64 \<Rightarrow> u64)" where
  "prime_next_size_over size0 = (let found = lower_bound (butlast prime_list) size0 in (prime_list ! found, mod_functions ! (1 + found)))"

text \<open>The state of the policy is the function that was committed last.\<close>

definition prime_reset :: "u64 \<Rightarrow> u64" where
  "prime_reset = mod_function 0"

definition prime_index_for_hash :: "(u64 \<Rightarrow> u64) \<Rightarrow> u64 \<Rightarrow> u64" where
  "prime_index_for_hash current hash = current hash"

definition keep_in_range :: "(u64 \<Rightarrow> u64) \<Rightarrow> u64 \<Rightarrow> u64 \<Rightarrow> u64" where
  "keep_in_range current index num_slots_minus_one = (if index > num_slots_minus_one then current index else index)"

section \<open>The lists\<close>

lemma mod_functions_follow_primes: "mod_functions = mod_function 0 # map mod_function prime_list"
  by (simp add: mod_functions_def prime_list_def)

lemma length_prime_list: "length prime_list = 186"
  by (simp add: prime_list_def)

lemma last_prime: "last prime_list = 18446744073709551557"
  by (simp add: prime_list_def)

text \<open>No gap between neighbours is larger than two thirds of the smaller one.\<close>

lemma prime_gaps: "successively (\<lambda>p q. uint p < uint q \<and> 3 * uint q \<le> 5 * uint p) prime_list"
  by (simp add: prime_list_def)

lemma first_prime: "hd prime_list = 2"
  by (simp add: prime_list_def)

lemma sorted_primes: "sorted_wrt (\<lambda>p q. uint p < uint q) prime_list"
proof -
  have "successively (\<lambda>p q. uint p < uint q) prime_list" using prime_gaps by (rule successively_mono) simp
  then show ?thesis by (subst (asm) successively_conv_sorted_wrt) (auto intro!: transpI)
qed

lemma prime_positive:
  assumes "p \<in> set prime_list"
  shows "2 \<le> uint p"
proof -
  obtain i where i: "i < length prime_list" "p = prime_list ! i" using assms by (metis in_set_conv_nth)
  have h: "prime_list ! 0 = 2" using first_prime length_prime_list by (metis hd_conv_nth list.size(3) zero_neq_numeral)
  show ?thesis
  proof (cases "i = 0")
    case False
    then show ?thesis using sorted_wrt_nth_less [OF sorted_primes, of 0 i] i h by simp
  qed (use i h in simp)
qed

lemma lower_bound_sound:
  assumes "i = lower_bound xs x"
  shows "i \<le> length xs" "j < i \<Longrightarrow> xs ! j < x" "i < length xs \<Longrightarrow> x \<le> xs ! i"
proof -
  show "i \<le> length xs" using assms by (simp add: lower_bound_def length_takeWhile_le)
  show "xs ! j < x" if "j < i" using that assms nth_length_takeWhile set_takeWhileD
    by (metis lower_bound_def nth_mem takeWhile_nth)
  show "x \<le> xs ! i" if "i < length xs" using that assms nth_length_takeWhile [of "\<lambda>y. y < x" xs] by (simp add: lower_bound_def not_less)
qed



end
