(* ===== verification/Spec2Isabelle.thy ===== *)
theory Spec2Isabelle
  imports Keyed_Graph Graph_Executor GPU_Properties Line_Limits Fast_Symbolizer Annotations Callback_Properties Scope_Tree Flat_Hash_Refinement Prime_Policy
begin

text \<open>
  A verification of the core of Hisab (directory \<open>src/Library\<close>): the task graphs and their executor, the
  queue that runs them, the caching allocator of GPU memory, the stack unwinder and symbolizer of the
  profiler, its trace annotations and its trace recorder, and the hash table. Definitions carry the names of the C++ functions they translate; the
  text block at the head of each theory says which file it follows.

  Conventions (theory \<open>Prelude\<close>). Classes are records, enumerations are datatypes, \<open>size_t\<close> and
  \<open>uint64_t\<close> are 64-bit words that wrap around, exceptions are the left side of a sum, and a loop that the
  code does not bound is a \<open>partial_function (option)\<close> whose value \<open>None\<close> means that it does not return;
  such functions come with a theorem that they return. Methods that change an object take and return the
  record. Code that is not in the repository (the CUDA runtime and driver, the dynamic linker, the
  demangler, the contents of memory and of files, the code of the nodes and resolvers of a user) is an
  argument of the definitions that call it.

  Task graphs (\<open>Graph/\<close>). \<open>Graph_Builder\<close> models \<open>graph_types.h\<close>, \<open>dependency_graph.h\<close> and
  \<open>graph_builder.h/.cpp\<close>: \<open>build\<close> runs Kahn's algorithm with a FIFO of ready nodes; it always returns,
  decides cyclicity, and yields a topological order (locale \<open>dag_provider\<close>, interpreted on the graphs that
  \<open>build\<close> makes). \<open>Graph_Executor\<close> models \<open>graph_executor.cpp\<close> as a step relation of tasks on a queue whose
  order is arbitrary: results do not depend on the schedule, failures skip exactly the dependents, and no
  run deadlocks. \<open>Keyed_Graph\<close> models \<open>keyed_graph_builder.h\<close>: resolvers are programs that ask for other
  keys; fuel bounds the depth of nesting, and the number of keys plus one is proved enough (locale
  \<open>resolve_contract\<close>, interpreted on \<open>resolve\<close> and on \<open>resolve_with_discovery\<close>).

  The queue (\<open>Parallel/tools/threaded_callback_queue.h/.cpp\<close>). \<open>Callback_Queue\<close> is the model: threads are
  stacks of activation records, and a step is one critical section or one access to an atomic.
  \<open>Callback_Tokens\<close> counts who holds a future, \<open>Callback_Invariant\<close> and \<open>Callback_Threads\<close> state and
  preserve the invariant, \<open>Callback_Progress\<close> gives the measure of the work left and shows that a state in
  which nothing moves is finished, \<open>Callback_Order\<close> relates the order of the tasks to their dependencies,
  and \<open>Callback_Properties\<close> states the properties for every interleaving of calls and steps. It also
  proves that \<open>try_invoke\<close> can miss a queued task.

  GPU memory (\<open>Memory/gpu/\<close>, \<open>Memory/profiler/\<close>). \<open>GPU_Config\<close> has the size classes, the history ring and
  the statistics; \<open>GPU_Segment\<close> the driver segments with the unwinding of failed driver calls; \<open>GPU_Heap\<close>
  the blocks in a store with their links, and the tiling of segments; \<open>GPU_Allocator\<close> every operation of
  \<open>cuda_caching_allocator::Impl\<close>. \<open>GPU_Invariant\<close>, \<open>GPU_Steps\<close>, \<open>GPU_Operations\<close> and \<open>GPU_Dealloc\<close> prove
  the invariant step by step, whatever the CUDA runtime answers as long as it hands out memory not in
  use; \<open>GPU_Properties\<close> has the properties and the locale \<open>memory_allocator\<close> with its interpretation.

  Unwinding (\<open>Profiler/bespoke/common/unwind/\<close>). \<open>Dwarf_Lexer\<close> models \<open>lexer.h\<close>, \<open>Range_Table\<close>
  \<open>range_table.h\<close> (locale \<open>interval_index\<close>), \<open>Dwarf_Frame\<close> \<open>action.h\<close>, \<open>unwinder.h\<close> and \<open>fde.h\<close>.
  \<open>Dwarf_Instructions\<close> gives the call frame instructions as a datatype with encoder and abstract machine,
  which the byte code interpreter refines. \<open>Unwind_Cache\<close> models \<open>eh_frame_hdr.h\<close> and the cache and the
  stack walk of \<open>unwind.cpp\<close>, which refines a walk without a cache.

  Symbolizing. \<open>Elf_Sections\<close> models \<open>dwarf_symbolize_enums.h\<close>, \<open>mem_file.h\<close> and \<open>sections.h\<close>;
  \<open>Debug_Info\<close> \<open>debug_info.h\<close>; \<open>Line_Program\<close> \<open>line_number_program.h\<close>, with the abstract line machine and
  the lookup in \<open>Line_Table\<close> and two inputs it does not handle in \<open>Line_Limits\<close>; \<open>Fast_Symbolizer\<close>
  \<open>fast_symbolizer.h\<close> and \<open>symbolize_fast\<close>.

  Annotations (\<open>Profiler/native/\<close>). \<open>Annotations\<close> models \<open>traceme_encode.h\<close>, \<open>parse_annotation.cpp\<close> and
  \<open>annotation_stack.cpp\<close>, and shows that parsing inverts encoding for every interleaving of threads, for
  fewer than \<open>2^31\<close> pushes per thread.

  Tracing (\<open>Profiler/native/tracing/\<close>, \<open>Profiler/common/\<close>). \<open>Lock_Free_Queue\<close> models
  \<open>lock_free_queue.h\<close>: a list of actions is an interleaving of the memory accesses of one producer and one
  consumer, \<open>None\<close> is undefined behaviour, and the queue refines a FIFO queue; its locale \<open>event_queue\<close> is the
  contract on which the recorder rests, with an interpretation on \<open>lfq_push\<close>, \<open>lfq_pop\<close> and \<open>lfq_clear\<close>.
  \<open>Trace_Recorder\<close> models \<open>traceme.h\<close>, \<open>traceme_recorder.h/.cpp\<close> and \<open>per_thread.h\<close> and shows that the two
  passes of \<open>consume\<close> join the halves of activities; \<open>Trace_Session\<close> follows a session through any program,
  for fewer than \<open>2^31 - 2\<close> activities. \<open>Trace_Plane\<close> models \<open>xplane.h\<close>, \<open>xplane_builder.h/.cpp\<close> and
  \<open>host_tracer_utils.cpp\<close>: a pointer to a line is an allocation and an index, so that it dangles when the
  vector of lines moves. \<open>Scope_Tree\<close> models \<open>host_tracer.cpp\<close> and \<open>scope_tree_builder.cpp\<close> and composes all of
  it: the tree shown for a session is the forest of scopes that ran.

  Hash table (\<open>Core/util/flat_hash.h\<close>). \<open>Hash_Policy\<close> proves the bit arithmetic of the default policy and
  \<open>Prime_Policy\<close> the prime one. \<open>Flat_Hash\<close> models \<open>flat_hash_map\<close> on one table, a list of cells that ends with
  a special one; \<open>Flat_Hash_Cells\<close> proves the loops over the cells, \<open>Flat_Hash_Map\<close> the insertion with its
  growth, and \<open>Flat_Hash_Refinement\<close> that the table refines a finite map. An insertion may start over, with
  a larger table each time: the fuel counts these, and 61 is enough as no allocation has room for more than
  \<open>2^60\<close> entries (\<open>bounded\<close>); then the allocator throws. The number of buckets asked for is at most \<open>2^62\<close>.

  Fuel and termination. \<open>segment_head\<close>, \<open>search_loop64\<close>, \<open>unwind_loop\<close>, \<open>walk\<close>, \<open>readProgram\<close>,
  \<open>parseDebugInfo\<close>, \<open>finish_call\<close> and \<open>consume_queue\<close> are partial functions; on heaps in which links are acyclic, on sorted tables, on
  encoded programs, and on queues at rest they are proved to return. A loop that reads input until it is consumed recurses on
  the number of bytes left.

  Not modelled. The C++ memory model below sequential consistency; the vectorization and numerical
  libraries (templates over floating-point kernels and vector intrinsics); loggers, reports and the other exporters
  (text output); the glue to CUDA, Metal, kineto, ITT, OpenMP and TBB; the smart pointers and other container
  templates of \<open>Core\<close> and \<open>Profiler/common\<close>; the addr2line process of the old symbolizer; bindings, tests,
  examples and build files.
\<close>

end
